(* ===== verification/Prelude.thy ===== *)
theory Prelude
  imports Complex_Main "HOL-Library.AList"
begin

text \<open>
  Shared vocabulary of the development.

  \<^item> Fallible code returns \<open>'e + 'a\<close>: \<open>Inl\<close> is the exception thrown, \<open>Inr\<close> the value
    returned. \<open>rbind\<close> sequences two fallible computations the way a throw skips the rest of
    a function body.
  \<^item> Strings are \<open>string\<close>, one character per code unit. The only code units above 255 that the
    sources write themselves are the ellipsis of the truncated diagnostics and the dash of some
    messages; they are written here as the single characters \<open>CHR 0x85\<close> and \<open>CHR 0x97\<close>.
  \<^item> A JavaScript \<open>Map\<close> whose iteration order matters is an association list updated with
    \<open>AList.update\<close>: an existing key keeps its place, a new key goes last. Where only lookups
    matter it is a HOL map.
  \<^item> Milliseconds and dates are \<open>int\<close>; numbers drawn from a random source in \<open>[0,1)\<close> are
    \<open>rat\<close>. Both are exact: floating-point rounding is not modelled.
\<close>

named_theorems js_simps \<open>rewriting rules for the JavaScript string and number helpers\<close>

section \<open>Results\<close>

definition rbind :: "'e + 'a \<Rightarrow> ('a \<Rightarrow> 'e + 'b) \<Rightarrow> 'e + 'b" where
  "rbind r f = (case r of Inl e \<Rightarrow> Inl e | Inr a \<Rightarrow> f a)"

lemma rbind_Inl [simp]: "rbind (Inl e) f = Inl e"
  by (simp add: rbind_def)

lemma rbind_Inr [simp]: "rbind (Inr a) f = f a"
  by (simp add: rbind_def)

lemma rbind_eq_Inr_iff: "rbind r f = Inr b \<longleftrightarrow> (\<exists>a. r = Inr a \<and> f a = Inr b)"
  by (cases r) auto

lemma rbind_cong [fundef_cong]:
  "r = r' \<Longrightarrow> (\<And>a. r' = Inr a \<Longrightarrow> f a = g a) \<Longrightarrow> rbind r f = rbind r' g"
  by (cases r') auto

definition succeeds :: "'e + 'a \<Rightarrow> bool" where
  "succeeds r \<longleftrightarrow> (case r of Inl _ \<Rightarrow> False | Inr _ \<Rightarrow> True)"

lemma succeeds_simps [simp]: "\<not> succeeds (Inl e)" "succeeds (Inr a)"
  by (simp_all add: succeeds_def)

section \<open>Array helpers\<close>

text \<open>\<open>Array.prototype.findIndex\<close>, with \<open>None\<close> for \<open>-1\<close>.\<close>

fun findIndex :: "('a \<Rightarrow> bool) \<Rightarrow> 'a list \<Rightarrow> nat option" where
  "findIndex P [] = None"
| "findIndex P (x # xs) = (if P x then Some 0 else map_option Suc (findIndex P xs))"

lemma findIndex_None_iff: "findIndex P xs = None \<longleftrightarrow> (\<forall>x \<in> set xs. \<not> P x)"
  by (induction xs) auto

lemma findIndex_SomeD:
  "findIndex P xs = Some i \<Longrightarrow> i < length xs \<and> P (xs ! i) \<and> (\<forall>j < i. \<not> P (xs ! j))"
proof (induction xs arbitrary: i)
  case (Cons x xs)
  then show ?case
    by (cases i) (auto simp: nth_Cons split: if_splits nat.splits)
qed simp

text \<open>\<open>xs[i]\<close> for an integer index: \<open>undefined\<close> (here \<open>None\<close>) out of range.\<close>

definition indexed :: "'a list \<Rightarrow> int \<Rightarrow> 'a option" where
  "indexed xs i = (if 0 \<le> i \<and> i < int (length xs) then Some (xs ! nat i) else None)"

lemma set_updateD: "x \<in> set (AList.update k v al) \<Longrightarrow> x = (k, v) \<or> x \<in> set al"
  by (induction al) (auto split: if_splits)

section \<open>Diagnostics\<close>

text \<open>
  \<open>truncate(message, limit = 500)\<close>, which the saga orchestrator, the outbox and the dead-letter
  headers each define with the same body.
\<close>

definition ellipsis :: char where
  "ellipsis = CHR 0x85"

definition truncateTo :: "nat \<Rightarrow> string \<Rightarrow> string" where
  "truncateTo limit message =
     (if length message \<le> limit then message else take (limit - 1) message @ [ellipsis])"

lemma length_truncateTo: "0 < limit \<Longrightarrow> length (truncateTo limit m) \<le> limit"
  by (auto simp: truncateTo_def)

text \<open>The dash the messages are written with.\<close>

definition emDash :: char where
  "emDash = CHR 0x97"

text \<open>A name in double quotes, and \<open>Array.prototype.join\<close>.\<close>

definition quoted :: "string \<Rightarrow> string" where
  "quoted s = [CHR 0x22] @ s @ [CHR 0x22]"

fun joinWith :: "string \<Rightarrow> string list \<Rightarrow> string" where
  "joinWith sep [] = []"
| "joinWith sep [x] = x"
| "joinWith sep (x # xs) = x @ sep @ joinWith sep xs"

text \<open>\<open>String.prototype.trim\<close> on Latin-1 text.\<close>

definition isTrimmed :: "char \<Rightarrow> bool" where
  "isTrimmed c \<longleftrightarrow> (of_char c :: nat) \<in> {9, 10, 11, 12, 13, 32, 160}"

definition jsTrim :: "string \<Rightarrow> string" where
  "jsTrim s = rev (dropWhile isTrimmed (rev (dropWhile isTrimmed s)))"

text \<open>A number as \<open>Number.isInteger\<close> sees it.\<close>

datatype jsNum = IntNum int | FractionNum

section \<open>Decimal strings\<close>

definition digitChar :: "nat \<Rightarrow> char" where
  "digitChar d = char_of (48 + d)"

definition digitVal :: "char \<Rightarrow> nat" where
  "digitVal c = of_char c - 48"

definition isDigit :: "char \<Rightarrow> bool" where
  "isDigit c \<longleftrightarrow> 48 \<le> (of_char c :: nat) \<and> (of_char c :: nat) \<le> 57"

text \<open>\<open>String(n)\<close> for a non-negative integer.\<close>

fun decString :: "nat \<Rightarrow> string" where
  "decString n = (if n < 10 then [digitChar n] else decString (n div 10) @ [digitChar (n mod 10)])"

declare decString.simps [simp del]

definition intString :: "int \<Rightarrow> string" where
  "intString n = (if n < 0 then CHR ''-'' # decString (nat (- n)) else decString (nat n))"

text \<open>\<open>Number(s)\<close> for a string of decimal digits.\<close>

definition decValue :: "string \<Rightarrow> nat" where
  "decValue s = foldl (\<lambda>n c. 10 * n + digitVal c) 0 s"

definition padStart :: "nat \<Rightarrow> char \<Rightarrow> string \<Rightarrow> string" where
  "padStart n c s = replicate (n - length s) c @ s"

definition padEnd :: "nat \<Rightarrow> char \<Rightarrow> string \<Rightarrow> string" where
  "padEnd n c s = s @ replicate (n - length s) c"

definition toUpperChar :: "char \<Rightarrow> char" where
  "toUpperChar c = (if 97 \<le> (of_char c :: nat) \<and> (of_char c :: nat) \<le> 122
     then char_of ((of_char c :: nat) - 32) else c)"

definition toUpperCase :: "string \<Rightarrow> string" where
  "toUpperCase s = map toUpperChar s"

definition isUpper :: "char \<Rightarrow> bool" where
  "isUpper c \<longleftrightarrow> 65 \<le> (of_char c :: nat) \<and> (of_char c :: nat) \<le> 90"

lemma of_char_digitChar: "d < 10 \<Longrightarrow> (of_char (digitChar d) :: nat) = 48 + d"
  by (simp add: digitChar_def)

lemma isDigit_digitChar [simp]: "d < 10 \<Longrightarrow> isDigit (digitChar d)"
  by (simp add: isDigit_def of_char_digitChar)

lemma digitVal_digitChar [simp]: "d < 10 \<Longrightarrow> digitVal (digitChar d) = d"
  by (simp add: digitVal_def of_char_digitChar)

lemma digitChar_digitVal: "isDigit c \<Longrightarrow> digitChar (digitVal c) = c"
  by (auto simp: isDigit_def digitChar_def digitVal_def)

lemma decString_digits: "c \<in> set (decString n) \<Longrightarrow> isDigit c"
proof (induction n rule: decString.induct)
  case (1 n)
  then show ?case by (subst (asm) decString.simps) (auto split: if_splits)
qed

lemma decString_nonempty [simp]: "decString n \<noteq> []"
  by (subst decString.simps) simp

lemma decValue_Nil [simp]: "decValue [] = 0"
  by (simp add: decValue_def)

lemma decValue_snoc [simp]: "decValue (s @ [c]) = 10 * decValue s + digitVal c"
  by (simp add: decValue_def)

lemma decValue_decString [simp, js_simps]: "decValue (decString n) = n"
proof (induction n rule: decString.induct)
  case (1 n)
  show ?case
  proof (cases "n < 10")
    case True
    then show ?thesis by (subst decString.simps) (simp add: decValue_def)
  next
    case False
    with "1.IH" show ?thesis by (subst decString.simps) simp
  qed
qed

lemma decString_inject [simp]: "decString m = decString n \<longleftrightarrow> m = n"
  by (metis decValue_decString)

lemma decValue_append: "decValue (s @ t) = decValue s * 10 ^ length t + decValue t"
proof (induction t rule: rev_induct)
  case (snoc c t)
  then show ?case
    by (simp add: append_assoc [symmetric] algebra_simps del: append_assoc)
qed simp

lemma decValue_zeros [simp]: "decValue (replicate k (digitChar 0)) = 0"
proof (induction k)
  case (Suc k)
  have "replicate (Suc k) (digitChar 0) = replicate k (digitChar 0) @ [digitChar 0]"
    by (simp add: replicate_append_same)
  with Suc show ?case by simp
qed simp

end
