(* ===== verification/Backoff.thy ===== *)
theory Backoff
  imports Prelude
begin

text \<open>
  The full-jitter backoff of \<open>src/common/backoff/backoff.ts\<close>, shared by the saga
  orchestrator, the outbox relay and the domain-event consumer. \<open>random\<close> is the number the
  jitter source returned for the call, a rational in \<open>[0,1)\<close>.
\<close>

section \<open>Model\<close>

record backoffPolicy =
  baseMs :: int
  maxMs :: int
  maxAttempts :: nat

text \<open>The un-jittered ceiling \<open>Math.min(maxMs, baseMs * 2 ** Math.min(attempts - 1, 30))\<close>.\<close>

definition backoffCeiling :: "nat \<Rightarrow> backoffPolicy \<Rightarrow> rat" where
  "backoffCeiling attempts policy =
     (let exponent = min (int attempts - 1) 30
      in min (of_int (maxMs policy)) (of_int (baseMs policy) * 2 powi exponent))"

definition nextAttemptDelayMs :: "nat \<Rightarrow> backoffPolicy \<Rightarrow> rat \<Rightarrow> int option" where
  "nextAttemptDelayMs attempts policy random =
     (if attempts \<ge> maxAttempts policy then None
      else Some \<lfloor>random * backoffCeiling attempts policy\<rfloor>)"

definition nextAttemptAt :: "int \<Rightarrow> nat \<Rightarrow> backoffPolicy \<Rightarrow> rat \<Rightarrow> int option" where
  "nextAttemptAt now attempts policy random =
     (case nextAttemptDelayMs attempts policy random of
        None \<Rightarrow> None
      | Some delay \<Rightarrow> Some (now + delay))"

function worstCaseLoop :: "backoffPolicy \<Rightarrow> nat \<Rightarrow> rat \<Rightarrow> rat" where
  "worstCaseLoop policy attempts acc =
     (if attempts < maxAttempts policy
      then worstCaseLoop policy (attempts + 1) (acc + backoffCeiling attempts policy)
      else acc)"
  by pat_completeness auto
termination
  by (relation "measure (\<lambda>(policy, attempts, acc). maxAttempts policy - attempts)") auto

declare worstCaseLoop.simps [simp del]

definition worstCaseLadderMs :: "backoffPolicy \<Rightarrow> rat" where
  "worstCaseLadderMs policy = worstCaseLoop policy 1 0"

section \<open>Policies a deployment may configure\<close>

definition policyOk :: "backoffPolicy \<Rightarrow> bool" where
  "policyOk p \<longleftrightarrow> 0 \<le> baseMs p \<and> 0 \<le> maxMs p"

definition unitDraw :: "rat \<Rightarrow> bool" where
  "unitDraw r \<longleftrightarrow> 0 \<le> r \<and> r < 1"

lemma backoffCeiling_nonneg: "policyOk p \<Longrightarrow> 0 \<le> backoffCeiling a p"
  by (simp add: backoffCeiling_def policyOk_def Let_def)

lemma backoffCeiling_le_max: "backoffCeiling a p \<le> of_int (maxMs p)"
  by (simp add: backoffCeiling_def Let_def)

lemma jitter_bounds:
  assumes "unitDraw r" and "0 \<le> (c :: rat)"
  shows "0 \<le> \<lfloor>r * c\<rfloor>" and "of_int \<lfloor>r * c\<rfloor> \<le> c"
proof -
  show "0 \<le> \<lfloor>r * c\<rfloor>"
    using assms by (simp add: unitDraw_def)
  have "r * c \<le> 1 * c"
    using assms by (intro mult_right_mono) (auto simp: unitDraw_def)
  then show "of_int \<lfloor>r * c\<rfloor> \<le> c"
    using of_int_floor_le [of "r * c"] by linarith
qed

lemma nextAttemptDelayMs_None_iff [simp]:
  "nextAttemptDelayMs a p r = None \<longleftrightarrow> maxAttempts p \<le> a"
  by (simp add: nextAttemptDelayMs_def)

lemma nextAttemptDelayMs_SomeD:
  assumes "nextAttemptDelayMs a p r = Some d" and "policyOk p" and "unitDraw r"
  shows "a < maxAttempts p" and "0 \<le> d" and "of_int d \<le> backoffCeiling a p"
  using assms jitter_bounds [OF assms(3) backoffCeiling_nonneg [OF assms(2), of a]]
  by (auto simp: nextAttemptDelayMs_def split: if_splits)

lemma nextAttemptAt_None_iff [simp]: "nextAttemptAt now a p r = None \<longleftrightarrow> maxAttempts p \<le> a"
  by (simp add: nextAttemptAt_def nextAttemptDelayMs_def)

lemma worstCaseLoop_total: "worstCaseLoop p a t = t + worstCaseLoop p a 0"
proof (induction "maxAttempts p - a" arbitrary: a t)
  case 0
  then show ?case by (simp add: worstCaseLoop.simps [of p a])
next
  case (Suc k)
  then have more: "a < maxAttempts p" and k: "k = maxAttempts p - (a + 1)" by simp_all
  have "worstCaseLoop p a s = s + backoffCeiling a p + worstCaseLoop p (a + 1) 0" for s
    using more Suc.hyps(1) [OF k, of "s + backoffCeiling a p"]
    by (simp add: worstCaseLoop.simps [of p a s])
  from this [of t] this [of 0] show ?case by simp
qed

lemma worstCaseLoop_step:
  "a < maxAttempts p \<Longrightarrow>
     worstCaseLoop p a 0 = backoffCeiling a p + worstCaseLoop p (a + 1) 0"
  using worstCaseLoop_total [of p "a + 1" "backoffCeiling a p"]
  by (simp add: worstCaseLoop.simps [of p a])

lemma worstCaseLoop_nonneg: "policyOk p \<Longrightarrow> 0 \<le> worstCaseLoop p a 0"
proof (induction "maxAttempts p - a" arbitrary: a)
  case 0
  then show ?case by (simp add: worstCaseLoop.simps [of p a])
next
  case (Suc k)
  then have "0 \<le> worstCaseLoop p (a + 1) 0" by simp
  with Suc show ?case by (simp add: worstCaseLoop_step backoffCeiling_nonneg)
qed

end
