(* ===== verification/RetryLadder.thy ===== *)
theory RetryLadder
  imports Backoff
begin

text \<open>
  The in-process retry ladder of \<open>src/messaging/retry-ladder.ts\<close>.

  The environment decides what the code cannot: what attempt \<open>n\<close> of the operation answers
  (\<open>op n\<close>), the jitter drawn after it (\<open>rnd n\<close>), whether the abort signal is set when the loop
  comes round with \<open>n\<close> attempts made (\<open>abortTop n\<close>), and whether it is set at or during the
  sleep after attempt \<open>n\<close> (\<open>abortSleep n\<close>). The second component of the result is the list of
  sleeps the ladder completed, in order.
\<close>

section \<open>Model\<close>

datatype 'e attemptResult = OpOk | OpFail 'e | OpAborted

datatype ladderAborted = LadderAbortedError

datatype 'e ladderResult = Succeeded nat | Exhausted nat 'e

record 'e ladderEnv =
  op :: "nat \<Rightarrow> 'e attemptResult"
  rnd :: "nat \<Rightarrow> rat"
  abortTop :: "nat \<Rightarrow> bool"
  abortSleep :: "nat \<Rightarrow> bool"

function ladderLoop :: "backoffPolicy \<Rightarrow> 'e ladderEnv \<Rightarrow> nat \<Rightarrow> int list
    \<Rightarrow> (ladderAborted + 'e ladderResult) \<times> int list" where
  "ladderLoop policy env attempts slept =
     (if abortTop env attempts then (Inl LadderAbortedError, slept)
      else case op env (attempts + 1) of
        OpOk \<Rightarrow> (Inr (Succeeded (attempts + 1)), slept)
      | OpAborted \<Rightarrow> (Inl LadderAbortedError, slept)
      | OpFail e \<Rightarrow>
          (case nextAttemptDelayMs (attempts + 1) policy (rnd env (attempts + 1)) of
             None \<Rightarrow> (Inr (Exhausted (attempts + 1) e), slept)
           | Some delay \<Rightarrow>
               (if abortSleep env (attempts + 1) then (Inl LadderAbortedError, slept)
                else ladderLoop policy env (attempts + 1) (slept @ [delay]))))"
  by pat_completeness auto
termination
  by (relation "measure (\<lambda>(policy, env, attempts, slept). maxAttempts policy - attempts)")
     (auto simp: nextAttemptDelayMs_def split: if_splits)

declare ladderLoop.simps [simp del]

definition runRetryLadder :: "backoffPolicy \<Rightarrow> 'e ladderEnv
    \<Rightarrow> (ladderAborted + 'e ladderResult) \<times> int list" where
  "runRetryLadder policy env = ladderLoop policy env 0 []"

section \<open>Outcomes\<close>

abbreviation failedBefore :: "'e ladderEnv \<Rightarrow> nat \<Rightarrow> nat \<Rightarrow> bool" where
  "failedBefore env lo hi \<equiv> \<forall>k. lo < k \<and> k < hi \<longrightarrow> (\<exists>e. op env k = OpFail e)"

lemma ladderLoop_Succeeded:
  assumes "ladderLoop p env a s = (Inr (Succeeded n), s')"
  shows "a < n \<and> n \<le> max (a + 1) (maxAttempts p) \<and> op env n = OpOk \<and> failedBefore env a n"
  using assms
proof (induction p env a s rule: ladderLoop.induct)
  case (1 p env a s)
  show ?case
  proof (cases "op env (a + 1)")
    case (OpFail e)
    then obtain d where rec: "\<not> abortTop env a" "\<not> abortSleep env (a + 1)"
      and d: "nextAttemptDelayMs (a + 1) p (rnd env (a + 1)) = Some d"
      and run: "ladderLoop p env (a + 1) (s @ [d]) = (Inr (Succeeded n), s')"
      using "1.prems" by (auto simp: ladderLoop.simps [of p env a] split: if_splits option.splits)
    have less: "a + 1 < maxAttempts p"
      using d by (auto simp: nextAttemptDelayMs_def split: if_splits)
    have ih: "a + 1 < n \<and> n \<le> max (a + 1 + 1) (maxAttempts p) \<and> op env n = OpOk
        \<and> failedBefore env (a + 1) n"
      using "1.IH" rec OpFail d run by blast
    have "failedBefore env a n"
    proof (intro allI impI)
      fix k assume "a < k \<and> k < n"
      then show "\<exists>e. op env k = OpFail e"
        using ih OpFail by (cases "k = a + 1") auto
    qed
    with ih less show ?thesis by auto
  qed (use "1.prems" in \<open>auto simp: ladderLoop.simps [of p env a] split: if_splits\<close>)
qed

lemma ladderLoop_Exhausted:
  assumes "ladderLoop p env a s = (Inr (Exhausted n e), s')"
  shows "a < n \<and> n = max (a + 1) (maxAttempts p) \<and> op env n = OpFail e \<and> failedBefore env a n"
  using assms
proof (induction p env a s rule: ladderLoop.induct)
  case (1 p env a s)
  show ?case
  proof (cases "op env (a + 1)")
    case (OpFail e')
    show ?thesis
    proof (cases "nextAttemptDelayMs (a + 1) p (rnd env (a + 1))")
      case None
      then have "maxAttempts p \<le> a + 1" by (simp only: nextAttemptDelayMs_None_iff)
      with OpFail "1.prems" show ?thesis
        by (auto simp: ladderLoop.simps [of p env a] nextAttemptDelayMs_def split: if_splits)
    next
      case (Some d)
      then have less: "a + 1 < maxAttempts p"
        by (auto simp: nextAttemptDelayMs_def split: if_splits)
      have ih: "a + 1 < n \<and> n = max (a + 1 + 1) (maxAttempts p) \<and> op env n = OpFail e
          \<and> failedBefore env (a + 1) n"
        using "1.IH" OpFail Some "1.prems"
        by (auto simp: ladderLoop.simps [of p env a] split: if_splits)
      have "failedBefore env a n"
      proof (intro allI impI)
        fix k assume "a < k \<and> k < n"
        then show "\<exists>e. op env k = OpFail e"
          using ih OpFail by (cases "k = a + 1") auto
      qed
      with ih less show ?thesis by auto
    qed
  qed (use "1.prems" in \<open>auto simp: ladderLoop.simps [of p env a] split: if_splits\<close>)
qed

lemma ladderLoop_slept:
  assumes "policyOk p" and "\<And>k. unitDraw (rnd env k)" and "a < maxAttempts p \<or> s = []"
    and "ladderLoop p env a s = (r, s')"
  shows "of_int (sum_list s') \<le> of_int (sum_list s) + worstCaseLoop p (a + 1) 0
    \<and> (\<forall>d \<in> set s'. d \<in> set s \<or> (0 \<le> d \<and> d \<le> maxMs p))"
  using assms(3,4)
proof (induction "maxAttempts p - a" arbitrary: a s rule: less_induct)
  case less
  note pos = worstCaseLoop_nonneg [OF assms(1), of "a + 1"]
  show ?case
  proof (cases "(r, s') = ladderLoop p env a s \<and> s' = s")
    case True
    with pos show ?thesis by auto
  next
    case False
    with less.prems(2) obtain d where
      d: "nextAttemptDelayMs (a + 1) p (rnd env (a + 1)) = Some d"
      and run: "ladderLoop p env (a + 1) (s @ [d]) = (r, s')"
      by (auto simp: ladderLoop.simps [of p env a] split: if_splits option.splits
          attemptResult.splits)
    note dD = nextAttemptDelayMs_SomeD [OF d assms(1) assms(2)]
    have "of_int (sum_list s') \<le> of_int (sum_list (s @ [d])) + worstCaseLoop p (a + 1 + 1) 0
      \<and> (\<forall>d' \<in> set s'. d' \<in> set (s @ [d]) \<or> (0 \<le> d' \<and> d' \<le> maxMs p))"
      by (rule less.hyps) (use dD run in auto)
    moreover have "d \<le> maxMs p"
      using order_trans [OF dD(3) backoffCeiling_le_max] by simp
    moreover have "worstCaseLoop p (a + 1) 0
        = backoffCeiling (a + 1) p + worstCaseLoop p (a + 1 + 1) 0"
      using dD(1) by (rule worstCaseLoop_step)
    ultimately show ?thesis
      using dD(2,3) by auto
  qed
qed

section \<open>Properties of the ladder\<close>

text \<open>
  C35. The ladder blocks its caller for at most \<open>worstCaseLadderMs\<close> in total, each sleep between zero
  and \<open>maxMs\<close>; it succeeds only at an attempt that answered, after failures only, and gives up only
  after exactly the policy's number of attempts, with the last attempt's error.
\<close>

theorem ladder_bounded:
  assumes "policyOk p" and "\<forall>k. unitDraw (rnd env k)" and "runRetryLadder p env = (res, slept)"
  shows "of_int (sum_list slept) \<le> worstCaseLadderMs p
    \<and> (\<forall>d \<in> set slept. 0 \<le> d \<and> d \<le> maxMs p)
    \<and> (case res of
         Inr (Succeeded n) \<Rightarrow> n \<le> max 1 (maxAttempts p) \<and> op env n = OpOk \<and> failedBefore env 0 n
       | Inr (Exhausted n e) \<Rightarrow> n = max 1 (maxAttempts p) \<and> op env n = OpFail e \<and> failedBefore env 0 n
       | Inl _ \<Rightarrow> True)"
  using ladderLoop_slept [of p env 0 "[]" res slept] ladderLoop_Succeeded [of p env 0 "[]" _ slept]
    ladderLoop_Exhausted [of p env 0 "[]" _ _ slept] assms
  by (auto simp: runRetryLadder_def worstCaseLadderMs_def split: sum.splits ladderResult.splits)

theorem ladder_bounded_witness:
  "let p = \<lparr>baseMs = 100, maxMs = 5000, maxAttempts = 3\<rparr>;
       env = \<lparr>op = \<lambda>n. if n < 3 then OpFail ''busy'' else OpOk, rnd = \<lambda>_. 1 / 2,
              abortTop = \<lambda>_. False, abortSleep = \<lambda>_. False\<rparr>
   in runRetryLadder p env = (Inr (Succeeded 3), [50, 100])
      \<and> of_int (sum_list [50, 100]) \<le> worstCaseLadderMs p"
proof -
  let ?p = "\<lparr>baseMs = 100, maxMs = 5000, maxAttempts = 3\<rparr>"
  let ?env = "\<lparr>op = \<lambda>n. if n < 3 then OpFail ''busy'' else OpOk, rnd = \<lambda>_. 1 / 2,
              abortTop = \<lambda>_. False, abortSleep = \<lambda>_. False\<rparr> :: string ladderEnv"
  have run: "runRetryLadder ?p ?env = (Inr (Succeeded 3), [50, 100])"
    by (simp add: runRetryLadder_def ladderLoop.simps nextAttemptDelayMs_def backoffCeiling_def)
  have "policyOk ?p" "\<forall>k. unitDraw (rnd ?env k)" by (simp_all add: policyOk_def unitDraw_def)
  with run ladder_bounded [OF this run] show ?thesis by simp
qed

end
