(* ===== verification/SagaDefinition.thy ===== *)
theory SagaDefinition
  imports Prelude
begin

text \<open>
  Saga definitions: \<open>src/saga/saga-state.ts\<close>, \<open>saga-instance.ts\<close>, \<open>saga-definition.ts\<close> and the
  registry of \<open>saga-registry.ts\<close>. A step acts on a world \<open>'w\<close>, everything outside the saga's own
  row: the warehouse, the gateway, the carrier, the order table. Calling a step returns what the
  promise settled to and the world afterwards, whether or not it settled to an error.
\<close>

section \<open>State, contexts and steps\<close>

datatype jsonValue =
    JNull
  | JBool bool
  | JNum rat
  | JStr string
  | JArr "jsonValue list"
  | JObj "(string \<times> jsonValue) list"

type_synonym sagaState = "string \<rightharpoonup> jsonValue"

text \<open>
  What \<open>execute\<close> resolves with: \<open>None\<close> is \<open>void\<close>; a field bound to \<open>None\<close> is a key whose value
  is \<open>undefined\<close>.
\<close>

type_synonym sagaStatePatch = "(string \<times> jsonValue option) list option"

record sagaFailure =
  failedStep :: string
  failureMessage :: string

record sagaStepContext =
  ctxSagaId :: string
  ctxState :: sagaState
  idempotencyKey :: string
  ctxCorrelationId :: "string option"
  ctxFailure :: "sagaFailure option"

text \<open>A thrown value, split by \<open>instanceof UnretryableStepError\<close>, with its message.\<close>

datatype stepError = UnretryableStepError (errorMessage: string) | PlainError (errorMessage: string)

datatype sagaStepKind = KCompensatable | KPivot | KRetriable

datatype 'w sagaStep =
    Compensatable
      (stepName: string)
      (execute: "sagaStepContext \<Rightarrow> 'w \<Rightarrow> (stepError + sagaStatePatch) \<times> 'w")
      (compensate: "sagaStepContext \<Rightarrow> 'w \<Rightarrow> (stepError + unit) \<times> 'w")
  | Pivot
      (stepName: string)
      (execute: "sagaStepContext \<Rightarrow> 'w \<Rightarrow> (stepError + sagaStatePatch) \<times> 'w")
  | Retriable
      (stepName: string)
      (execute: "sagaStepContext \<Rightarrow> 'w \<Rightarrow> (stepError + sagaStatePatch) \<times> 'w")

fun stepKind :: "'w sagaStep \<Rightarrow> sagaStepKind" where
  "stepKind (Compensatable _ _ _) = KCompensatable"
| "stepKind (Pivot _ _) = KPivot"
| "stepKind (Retriable _ _) = KRetriable"

record 'w sagaDefinition =
  sagaName :: string
  steps :: "'w sagaStep list"

section \<open>defineSaga\<close>

datatype sagaDefinitionError =
    HasNoSteps
  | DeclaresTwice string
  | MoreThanOnePivot
  | NotCompensatableBeforePivot string sagaStepKind
  | NotRetriableAfterPivot string sagaStepKind
  | RegisteredTwice

text \<open>The loop over \<open>seen\<close>: the first step whose name has been seen already.\<close>

fun repeatedName :: "string set \<Rightarrow> 'w sagaStep list \<Rightarrow> string option" where
  "repeatedName seen [] = None"
| "repeatedName seen (step # rest) =
     (if stepName step \<in> seen then Some (stepName step)
      else repeatedName (insert (stepName step) seen) rest)"

text \<open>The \<open>forEach\<close> over the ordering, from \<open>index\<close> on: the first violation.\<close>

fun misplacedStep :: "nat \<Rightarrow> nat \<Rightarrow> 'w sagaStep list \<Rightarrow> sagaDefinitionError option" where
  "misplacedStep boundary index [] = None"
| "misplacedStep boundary index (step # rest) =
     (if index < boundary \<and> stepKind step \<noteq> KCompensatable
      then Some (NotCompensatableBeforePivot (stepName step) (stepKind step))
      else if index > boundary \<and> stepKind step \<noteq> KRetriable
      then Some (NotRetriableAfterPivot (stepName step) (stepKind step))
      else misplacedStep boundary (index + 1) rest)"

definition defineSaga ::
    "string \<Rightarrow> 'w sagaStep list \<Rightarrow> sagaDefinitionError + 'w sagaDefinition" where
  "defineSaga name ss =
     (if ss = [] then Inl HasNoSteps
      else case repeatedName {} ss of
        Some n \<Rightarrow> Inl (DeclaresTwice n)
      | None \<Rightarrow>
          (let pivotIndex = findIndex (\<lambda>s. stepKind s = KPivot) ss in
           if length (filter (\<lambda>s. stepKind s = KPivot) ss) > 1 then Inl MoreThanOnePivot
           else let boundary = (case pivotIndex of None \<Rightarrow> length ss | Some i \<Rightarrow> i) in
             case misplacedStep boundary 0 ss of
               Some e \<Rightarrow> Inl e
             | None \<Rightarrow> Inr \<lparr>sagaName = name, steps = ss\<rparr>))"

section \<open>The registry\<close>

type_synonym 'w sagaRegistry = "string \<rightharpoonup> 'w sagaDefinition"

definition registerSaga ::
    "'w sagaDefinition \<Rightarrow> 'w sagaRegistry \<Rightarrow> sagaDefinitionError + 'w sagaRegistry" where
  "registerSaga d reg =
     (if reg (sagaName d) \<noteq> None then Inl RegisteredTwice else Inr (reg(sagaName d \<mapsto> d)))"

datatype unknownSaga = UnknownSagaError string

definition requireSaga :: "'w sagaRegistry \<Rightarrow> string \<Rightarrow> unknownSaga + 'w sagaDefinition" where
  "requireSaga reg name =
     (case reg name of None \<Rightarrow> Inl (UnknownSagaError name) | Some d \<Rightarrow> Inr d)"

section \<open>Well-formed definitions\<close>

text \<open>
  The shape the checks of \<open>defineSaga\<close> enforce, written declaratively: every step compensatable,
  or compensatable steps, one pivot, retriable steps.
\<close>

definition sagaShape :: "'w sagaStep list \<Rightarrow> bool" where
  "sagaShape ss \<longleftrightarrow>
     (\<forall>s \<in> set ss. stepKind s = KCompensatable) \<or>
     (\<exists>cs p rs. ss = cs @ p # rs \<and> (\<forall>s \<in> set cs. stepKind s = KCompensatable)
        \<and> stepKind p = KPivot \<and> (\<forall>s \<in> set rs. stepKind s = KRetriable))"

definition wellDefined :: "'w sagaDefinition \<Rightarrow> bool" where
  "wellDefined d \<longleftrightarrow> steps d \<noteq> [] \<and> distinct (map stepName (steps d)) \<and> sagaShape (steps d)"

lemma repeatedName_None_iff:
  "repeatedName seen ss = None \<longleftrightarrow>
     distinct (map stepName ss) \<and> set (map stepName ss) \<inter> seen = {}"
  by (induction ss arbitrary: seen) auto

lemma misplacedStep_None_iff:
  "misplacedStep b i ss = None \<longleftrightarrow>
     (\<forall>j < length ss. (i + j < b \<longrightarrow> stepKind (ss ! j) = KCompensatable) \<and>
        (b < i + j \<longrightarrow> stepKind (ss ! j) = KRetriable))"
proof (induction ss arbitrary: i)
  case (Cons s ss)
  show ?case
    by (auto simp: Cons.IH nth_Cons less_Suc_eq_0_disj split: nat.splits)
qed simp

lemma shape_at_pivot:
  assumes "p < length ss" and "stepKind (ss ! p) = KPivot"
    and "misplacedStep p 0 ss = None"
  shows "sagaShape ss"
proof -
  have "ss = take p ss @ ss ! p # drop (Suc p) ss"
    using assms(1) by (rule id_take_nth_drop)
  moreover have "\<forall>s \<in> set (take p ss). stepKind s = KCompensatable"
    using assms(1,3) by (auto simp: misplacedStep_None_iff in_set_conv_nth)
  moreover have "\<forall>s \<in> set (drop (Suc p) ss). stepKind s = KRetriable"
    using assms(3) by (auto simp: misplacedStep_None_iff in_set_conv_nth)
  ultimately show ?thesis
    unfolding sagaShape_def using assms(2) by blast
qed

lemma shape_splits:
  assumes "sagaShape ss"
  shows "length (filter (\<lambda>s. stepKind s = KPivot) ss) \<le> 1"
    and "misplacedStep (case findIndex (\<lambda>s. stepKind s = KPivot) ss of
           None \<Rightarrow> length ss | Some i \<Rightarrow> i) 0 ss = None"
proof -
  consider (all) "\<forall>s \<in> set ss. stepKind s = KCompensatable"
    | (piv) cs p rs where "ss = cs @ p # rs" "\<forall>s \<in> set cs. stepKind s = KCompensatable"
        "stepKind p = KPivot" "\<forall>s \<in> set rs. stepKind s = KRetriable"
    using assms unfolding sagaShape_def by blast
  then have "length (filter (\<lambda>s. stepKind s = KPivot) ss) \<le> 1 \<and>
    misplacedStep (case findIndex (\<lambda>s. stepKind s = KPivot) ss of
           None \<Rightarrow> length ss | Some i \<Rightarrow> i) 0 ss = None"
  proof cases
    case all
    then have "findIndex (\<lambda>s. stepKind s = KPivot) ss = None"
      and "filter (\<lambda>s. stepKind s = KPivot) ss = []"
      by (auto simp: filter_empty_conv findIndex_None_iff)
    with all show ?thesis by (simp add: misplacedStep_None_iff)
  next
    case piv
    have none: "filter (\<lambda>s. stepKind s = KPivot) cs = []"
      "filter (\<lambda>s. stepKind s = KPivot) rs = []"
      using piv by (auto simp: filter_empty_conv)
    have at: "stepKind (ss ! length cs) = KPivot" "length cs < length ss"
      using piv by simp_all
    obtain i where i: "findIndex (\<lambda>s. stepKind s = KPivot) ss = Some i"
      using piv by (cases "findIndex (\<lambda>s. stepKind s = KPivot) ss") (auto simp: findIndex_None_iff)
    have before: "j < length cs \<Longrightarrow> stepKind (ss ! j) = KCompensatable" for j
      using piv by (simp add: nth_append)
    have after: "length cs < j \<Longrightarrow> j < length ss \<Longrightarrow> stepKind (ss ! j) = KRetriable" for j
      using piv by (simp add: nth_append nth_Cons split: nat.splits)
    have "i = length cs"
      using findIndex_SomeD [OF i] before [of i] after [of i] at
      by (cases i "length cs" rule: linorder_cases) auto
    with i none piv(1,3) before after show ?thesis
      by (auto simp: misplacedStep_None_iff)
  qed
  then show "length (filter (\<lambda>s. stepKind s = KPivot) ss) \<le> 1"
    and "misplacedStep (case findIndex (\<lambda>s. stepKind s = KPivot) ss of
           None \<Rightarrow> length ss | Some i \<Rightarrow> i) 0 ss = None"
    by blast+
qed

lemma defineSaga_InrI:
  assumes "wellDefined \<lparr>sagaName = n, steps = ss\<rparr>"
  shows "defineSaga n ss = Inr \<lparr>sagaName = n, steps = ss\<rparr>"
proof -
  have "repeatedName {} ss = None"
    using assms by (simp add: wellDefined_def repeatedName_None_iff)
  moreover have "sagaShape ss" "ss \<noteq> []"
    using assms by (simp_all add: wellDefined_def)
  ultimately show ?thesis
    using shape_splits [of ss] by (simp add: defineSaga_def Let_def)
qed

lemma defineSaga_InrD:
  assumes "defineSaga n ss = Inr d"
  shows "d = \<lparr>sagaName = n, steps = ss\<rparr>" and "wellDefined d"
proof -
  define b where "b = (case findIndex (\<lambda>s. stepKind s = KPivot) ss of
           None \<Rightarrow> length ss | Some i \<Rightarrow> i)"
  have facts: "ss \<noteq> []" "repeatedName {} ss = None" "misplacedStep b 0 ss = None"
    "d = \<lparr>sagaName = n, steps = ss\<rparr>"
    using assms unfolding defineSaga_def Let_def b_def
    by (auto split: if_splits option.splits)
  have "sagaShape ss"
  proof (cases "findIndex (\<lambda>s. stepKind s = KPivot) ss")
    case None
    with facts(3) show ?thesis
      unfolding b_def
      by (auto simp: sagaShape_def misplacedStep_None_iff in_set_conv_nth)
  next
    case (Some i)
    with facts(3) findIndex_SomeD [OF Some] show ?thesis
      by (intro shape_at_pivot [of i]) (auto simp: b_def)
  qed
  with facts show "d = \<lparr>sagaName = n, steps = ss\<rparr>" and "wellDefined d"
    by (auto simp: wellDefined_def repeatedName_None_iff)
qed

text \<open>
  In a well-formed definition, only compensatable steps come before a step that is not retriable.
\<close>

lemma before_non_retriable:
  assumes "wellDefined d" and "f < length (steps d)" and "stepKind (steps d ! f) \<noteq> KRetriable"
    and "j < f"
  shows "stepKind (steps d ! j) = KCompensatable"
proof -
  from assms(1) have "sagaShape (steps d)" by (simp add: wellDefined_def)
  then consider (all) "\<forall>s \<in> set (steps d). stepKind s = KCompensatable"
    | (piv) cs p rs where "steps d = cs @ p # rs"
        "\<forall>s \<in> set cs. stepKind s = KCompensatable"
        "stepKind p = KPivot" "\<forall>s \<in> set rs. stepKind s = KRetriable"
    unfolding sagaShape_def by blast
  then show ?thesis
  proof cases
    case all
    with assms show ?thesis by simp
  next
    case piv
    have "f \<le> length cs"
      using assms(2,3) piv by (auto simp: nth_append nth_Cons split: if_splits nat.splits)
    with piv assms(4) show ?thesis by (simp add: nth_append)
  qed
qed

section \<open>Properties of definitions\<close>

text \<open>
  C34. \<open>defineSaga\<close> accepts a list of steps exactly when it is not empty, no two steps share a name,
  and either all steps are compensatable or compensatable steps are followed by one pivot and then
  by retriable steps; and it then returns those steps under that name.
\<close>

theorem defineSaga_accepts_iff:
  "(\<exists>d. defineSaga n ss = Inr d) = (ss \<noteq> [] \<and> distinct (map stepName ss) \<and> sagaShape ss)
   \<and> (\<forall>d. (defineSaga n ss = Inr d) = (d = \<lparr>sagaName = n, steps = ss\<rparr> \<and> wellDefined d))"
proof -
  have "(defineSaga n ss = Inr d) = (d = \<lparr>sagaName = n, steps = ss\<rparr> \<and> wellDefined d)" for d
    using defineSaga_InrI [of n ss] defineSaga_InrD [of n ss d] by auto
  then show ?thesis by (simp add: wellDefined_def)
qed

end
