(* ===== verification/SagaStore.thy ===== *)
theory SagaStore
  imports SagaDefinition "HOL-Library.Multiset" "HOL-Library.List_Lexorder" "HOL-Library.Char_ord"
    "HOL-Library.Product_Lexorder"
begin

text \<open>
  Persisted saga instances and the two implementations of the \<open>SagaStore\<close> port: the map of
  \<open>src/test-utils/in-memory-saga.store.ts\<close> and the SQL statements of
  \<open>src/saga/prisma-saga.store.ts\<close>. The port itself is the locale \<open>saga_store\<close>; both stores
  interpret it, so what the orchestrator relies on is proved of each.
\<close>

section \<open>Instances\<close>

datatype sagaStatus = RUNNING | COMPENSATING | COMPLETED | COMPENSATED | STUCK

definition isTerminal :: "sagaStatus \<Rightarrow> bool" where
  "isTerminal s \<longleftrightarrow> s \<in> set [COMPLETED, COMPENSATED, STUCK]"

datatype sagaDirection = Forward | Backward

datatype sagaOutcome = Completed | Failed | Skipped

record sagaStepLogEntry =
  leStep :: string
  leDirection :: sagaDirection
  leOutcome :: sagaOutcome
  leAt :: int
  leAttempt :: nat
  leError :: "string option"

record newSagaInstance =
  niId :: string
  niName :: string
  niState :: sagaState
  niCorrelationId :: "string option"

record sagaInstance =
  siId :: string
  siName :: string
  siStatus :: sagaStatus
  siCursor :: int
  siAttempts :: nat
  siNextAttemptAt :: int
  siState :: sagaState
  siLog :: "sagaStepLogEntry list"
  siLastError :: "string option"
  siCorrelationId :: "string option"
  siLockedBy :: "string option"
  siLockedUntil :: "int option"
  siCreatedAt :: int
  siUpdatedAt :: int

record sagaProgress =
  spStatus :: sagaStatus
  spCursor :: int
  spAttempts :: nat
  spNextAttemptAt :: int
  spState :: sagaState
  spEntry :: sagaStepLogEntry
  spLastError :: "string option"
  spRelease :: bool

record sagaClaim =
  clOwner :: string
  clNow :: int
  clLeaseMs :: int

section \<open>Row transformations\<close>

definition isClaimable :: "sagaInstance \<Rightarrow> int \<Rightarrow> bool" where
  "isClaimable row now =
     (if siStatus row \<noteq> RUNNING \<and> siStatus row \<noteq> COMPENSATING then False
      else if siNextAttemptAt row > now then False
      else case siLockedUntil row of None \<Rightarrow> True | Some t \<Rightarrow> t \<le> now)"

definition freshRow :: "int \<Rightarrow> newSagaInstance \<Rightarrow> sagaInstance" where
  "freshRow now inst =
     \<lparr>siId = niId inst, siName = niName inst, siStatus = RUNNING, siCursor = 0, siAttempts = 0,
      siNextAttemptAt = now, siState = niState inst, siLog = [], siLastError = None,
      siCorrelationId = niCorrelationId inst, siLockedBy = None, siLockedUntil = None,
      siCreatedAt = now, siUpdatedAt = now\<rparr>"

definition leaseRow :: "sagaClaim \<Rightarrow> sagaInstance \<Rightarrow> sagaInstance" where
  "leaseRow c row = row\<lparr>siLockedBy := Some (clOwner c),
     siLockedUntil := Some (clNow c + clLeaseMs c), siUpdatedAt := clNow c\<rparr>"

definition progressRow :: "sagaClaim \<Rightarrow> sagaProgress \<Rightarrow> sagaInstance \<Rightarrow> sagaInstance" where
  "progressRow c p row = row\<lparr>siStatus := spStatus p, siCursor := spCursor p,
     siAttempts := spAttempts p, siNextAttemptAt := spNextAttemptAt p, siState := spState p,
     siLog := siLog row @ [spEntry p], siLastError := spLastError p,
     siLockedBy := (if spRelease p then None else Some (clOwner c)),
     siLockedUntil := (if spRelease p then None else Some (clNow c + clLeaseMs c)),
     siUpdatedAt := clNow c\<rparr>"

definition abandonRow :: "int \<Rightarrow> sagaStatus \<Rightarrow> string \<Rightarrow> sagaInstance \<Rightarrow> sagaInstance" where
  "abandonRow now status reason row = row\<lparr>siStatus := status, siLastError := Some reason,
     siLockedBy := None, siLockedUntil := None, siUpdatedAt := now\<rparr>"

definition dueKey :: "sagaInstance \<Rightarrow> int \<times> string" where
  "dueKey row = (siNextAttemptAt row, siId row)"

section \<open>The in-memory store\<close>

type_synonym sagaRows = "(string \<times> sagaInstance) list"

definition memCreate :: "int \<Rightarrow> newSagaInstance \<Rightarrow> sagaRows \<Rightarrow> sagaInstance \<times> sagaRows" where
  "memCreate now inst rows =
     (let record = freshRow now inst in (record, AList.update (siId record) record rows))"

definition memFind :: "sagaRows \<Rightarrow> string \<Rightarrow> sagaInstance option" where
  "memFind rows i = map_of rows i"

definition memFindMany :: "string list \<Rightarrow> sagaRows \<Rightarrow> sagaInstance list" where
  "memFindMany ids rows = List.map_filter (memFind rows) (rev (remdups (rev ids)))"

definition memLease :: "sagaInstance \<Rightarrow> sagaClaim \<Rightarrow> sagaRows \<Rightarrow> sagaInstance \<times> sagaRows" where
  "memLease row c rows =
     (let leased = leaseRow c row in (leased, AList.update (siId row) leased rows))"

definition memClaim :: "string \<Rightarrow> sagaClaim \<Rightarrow> sagaRows \<Rightarrow> sagaInstance option \<times> sagaRows" where
  "memClaim i c rows =
     (case memFind rows i of
        None \<Rightarrow> (None, rows)
      | Some row \<Rightarrow>
          (if \<not> isClaimable row (clNow c) then (None, rows)
           else let (leased, rows') = memLease row c rows in (Some leased, rows')))"

fun memLeaseAll :: "sagaClaim \<Rightarrow> sagaInstance list \<Rightarrow> sagaRows \<Rightarrow> sagaInstance list \<times> sagaRows" where
  "memLeaseAll c [] rows = ([], rows)"
| "memLeaseAll c (row # rest) rows =
     (let (leased, rows') = memLease row c rows;
          (others, rows'') = memLeaseAll c rest rows'
      in (leased # others, rows''))"

definition memDue :: "sagaClaim \<Rightarrow> nat \<Rightarrow> sagaRows \<Rightarrow> sagaInstance list" where
  "memDue c limit rows =
     take limit (sort_key dueKey (filter (\<lambda>row. isClaimable row (clNow c)) (map snd rows)))"

definition memClaimDue :: "sagaClaim \<Rightarrow> nat \<Rightarrow> sagaRows \<Rightarrow> sagaInstance list \<times> sagaRows" where
  "memClaimDue c limit rows = memLeaseAll c (memDue c limit rows) rows"

definition memSave ::
    "string \<Rightarrow> sagaClaim \<Rightarrow> sagaProgress \<Rightarrow> sagaRows \<Rightarrow> sagaInstance option \<times> sagaRows" where
  "memSave i c p rows =
     (case memFind rows i of
        None \<Rightarrow> (None, rows)
      | Some row \<Rightarrow>
          (if siLockedBy row \<noteq> Some (clOwner c) then (None, rows)
           else let updated = progressRow c p row
                in (Some updated, AList.update i updated rows)))"

definition memAbandon :: "int \<Rightarrow> string \<Rightarrow> sagaStatus \<Rightarrow> string \<Rightarrow> sagaRows \<Rightarrow> sagaRows" where
  "memAbandon now i status reason rows =
     (case memFind rows i of
        None \<Rightarrow> rows
      | Some row \<Rightarrow> AList.update i (abandonRow now status reason row) rows)"

definition memCountByStatus :: "sagaRows \<Rightarrow> sagaStatus \<Rightarrow> nat" where
  "memCountByStatus rows s = length (filter (\<lambda>row. siStatus row = s) (map snd rows))"

text \<open>Keys are ids and no id has two rows.\<close>

definition memInvar :: "sagaRows \<Rightarrow> bool" where
  "memInvar rows \<longleftrightarrow> distinct (map fst rows) \<and> (\<forall>(i, row) \<in> set rows. siId row = i)"

section \<open>The Postgres store\<close>

text \<open>\<open>UPDATE \<dots> SET f WHERE P RETURNING *\<close> on a table held as a list of rows.\<close>

definition sqlUpdateReturning :: "('r \<Rightarrow> bool) \<Rightarrow> ('r \<Rightarrow> 'r) \<Rightarrow> 'r list \<Rightarrow> 'r list \<times> 'r list" where
  "sqlUpdateReturning P f table =
     (map f (filter P table), map (\<lambda>r. if P r then f r else r) table)"

definition firstRow :: "'r list \<Rightarrow> 'r option" where
  "firstRow rs = (case rs of [] \<Rightarrow> None | r # _ \<Rightarrow> Some r)"

definition sqlFind :: "sagaInstance list \<Rightarrow> string \<Rightarrow> sagaInstance option" where
  "sqlFind table i = firstRow (filter (\<lambda>r. siId r = i) table)"

text \<open>
  Prisma's \<open>create\<close> and \<open>update\<close> raise on a taken id and on a missing row; \<open>None\<close> is that
  exception.
\<close>

definition sqlCreate ::
    "int \<Rightarrow> newSagaInstance \<Rightarrow> sagaInstance list \<Rightarrow> (sagaInstance \<times> sagaInstance list) option" where
  "sqlCreate now inst table =
     (if sqlFind table (niId inst) \<noteq> None then None
      else Some (freshRow now inst, table @ [freshRow now inst]))"

text \<open>\<open>"lockedUntil" IS NULL OR "lockedUntil" <= now\<close>.\<close>

definition leaseFree :: "sagaInstance \<Rightarrow> int \<Rightarrow> bool" where
  "leaseFree r now = (case siLockedUntil r of None \<Rightarrow> True | Some t \<Rightarrow> t \<le> now)"

definition sqlClaim ::
    "string \<Rightarrow> sagaClaim \<Rightarrow> sagaInstance list \<Rightarrow> sagaInstance option \<times> sagaInstance list" where
  "sqlClaim i c table =
     (let (returned, table') = sqlUpdateReturning
            (\<lambda>r. siId r = i
               \<and> siStatus r \<in> {RUNNING, COMPENSATING}
               \<and> siNextAttemptAt r \<le> clNow c
               \<and> leaseFree r (clNow c))
            (leaseRow c) table
      in (firstRow returned, table'))"

text \<open>
  The recovery poller's statement. \<open>locked\<close> are the ids whose rows a concurrent statement holds
  locked; \<open>FOR UPDATE SKIP LOCKED\<close> leaves them out of the sub-select.
\<close>

definition sqlDueIds :: "string set \<Rightarrow> sagaClaim \<Rightarrow> nat \<Rightarrow> sagaInstance list \<Rightarrow> string list" where
  "sqlDueIds locked c limit table =
     map siId (take limit (sort_key dueKey (filter (\<lambda>r. siId r \<notin> locked
               \<and> siStatus r \<in> {RUNNING, COMPENSATING}
               \<and> siNextAttemptAt r \<le> clNow c
               \<and> leaseFree r (clNow c))
            table)))"

definition sqlClaimDue ::
    "string set \<Rightarrow> sagaClaim \<Rightarrow> nat \<Rightarrow> sagaInstance list
      \<Rightarrow> sagaInstance list \<times> sagaInstance list" where
  "sqlClaimDue locked c limit table =
     sqlUpdateReturning (\<lambda>r. siId r \<in> set (sqlDueIds locked c limit table)) (leaseRow c) table"

definition sqlSave ::
    "string \<Rightarrow> sagaClaim \<Rightarrow> sagaProgress \<Rightarrow> sagaInstance list
      \<Rightarrow> sagaInstance option \<times> sagaInstance list" where
  "sqlSave i c p table =
     (let (returned, table') = sqlUpdateReturning
            (\<lambda>r. siId r = i \<and> siLockedBy r = Some (clOwner c)) (progressRow c p) table
      in (firstRow returned, table'))"

definition sqlAbandon ::
    "int \<Rightarrow> string \<Rightarrow> sagaStatus \<Rightarrow> string \<Rightarrow> sagaInstance list \<Rightarrow> sagaInstance list option" where
  "sqlAbandon now i status reason table =
     (if sqlFind table i = None then None
      else Some (snd (sqlUpdateReturning (\<lambda>r. siId r = i) (abandonRow now status reason) table)))"

definition sqlInvar :: "sagaInstance list \<Rightarrow> bool" where
  "sqlInvar table \<longleftrightarrow> distinct (map siId table)"

section \<open>The port\<close>

record 's sagaStoreOps =
  opCreate :: "int \<Rightarrow> newSagaInstance \<Rightarrow> 's \<Rightarrow> (sagaInstance \<times> 's) option"
  opFind :: "'s \<Rightarrow> string \<Rightarrow> sagaInstance option"
  opClaim :: "string \<Rightarrow> sagaClaim \<Rightarrow> 's \<Rightarrow> sagaInstance option \<times> 's"
  opSave :: "string \<Rightarrow> sagaClaim \<Rightarrow> sagaProgress \<Rightarrow> 's \<Rightarrow> sagaInstance option \<times> 's"
  opAbandon :: "int \<Rightarrow> string \<Rightarrow> sagaStatus \<Rightarrow> string \<Rightarrow> 's \<Rightarrow> 's option"

definition memStore :: "sagaRows sagaStoreOps" where
  "memStore = \<lparr>opCreate = (\<lambda>now inst rows. Some (memCreate now inst rows)), opFind = memFind,
     opClaim = memClaim, opSave = memSave,
     opAbandon = (\<lambda>now i status reason rows. Some (memAbandon now i status reason rows))\<rparr>"

definition sqlStore :: "sagaInstance list sagaStoreOps" where
  "sqlStore = \<lparr>opCreate = sqlCreate, opFind = sqlFind, opClaim = sqlClaim, opSave = sqlSave,
     opAbandon = sqlAbandon\<rparr>"

text \<open>What \<open>claim\<close> and \<open>save\<close> promise, read through \<open>find\<close>.\<close>

definition claimSpec :: "string \<Rightarrow> sagaClaim \<Rightarrow> (string \<rightharpoonup> sagaInstance)
    \<Rightarrow> sagaInstance option \<times> (string \<rightharpoonup> sagaInstance)" where
  "claimSpec i c m =
     (case m i of
        Some r \<Rightarrow> (if isClaimable r (clNow c) then (Some (leaseRow c r), m(i \<mapsto> leaseRow c r))
                   else (None, m))
      | None \<Rightarrow> (None, m))"

definition saveSpec :: "string \<Rightarrow> sagaClaim \<Rightarrow> sagaProgress \<Rightarrow> (string \<rightharpoonup> sagaInstance)
    \<Rightarrow> sagaInstance option \<times> (string \<rightharpoonup> sagaInstance)" where
  "saveSpec i c p m =
     (case m i of
        Some r \<Rightarrow> (if siLockedBy r = Some (clOwner c)
                   then (Some (progressRow c p r), m(i \<mapsto> progressRow c p r)) else (None, m))
      | None \<Rightarrow> (None, m))"

locale saga_store =
  fixes ops :: "'s sagaStoreOps" and invar :: "'s \<Rightarrow> bool"
  assumes find_id: "invar s \<Longrightarrow> opFind ops s i = Some r \<Longrightarrow> siId r = i"
    and claim_refines: "invar s \<Longrightarrow>
      (let (r, s') = opClaim ops i c s in (r, opFind ops s')) = claimSpec i c (opFind ops s)"
    and save_refines: "invar s \<Longrightarrow>
      (let (r, s') = opSave ops i c p s in (r, opFind ops s')) = saveSpec i c p (opFind ops s)"
    and create_row: "invar s \<Longrightarrow> opFind ops s (niId inst) = None \<Longrightarrow>
      \<exists>s'. opCreate ops now inst s = Some (freshRow now inst, s') \<and> invar s'
        \<and> opFind ops s' = (opFind ops s)(niId inst \<mapsto> freshRow now inst)"
    and abandon_row: "invar s \<Longrightarrow> opFind ops s i = Some r \<Longrightarrow>
      \<exists>s'. opAbandon ops now i status reason s = Some s' \<and> invar s'
        \<and> opFind ops s' = (opFind ops s)(i \<mapsto> abandonRow now status reason r)"
    and abandon_missing: "invar s \<Longrightarrow> opFind ops s i = None \<Longrightarrow>
      opAbandon ops now i status reason s \<in> {None, Some s}"
    and claim_invar: "invar s \<Longrightarrow> invar (snd (opClaim ops i c s))"
    and save_invar: "invar s \<Longrightarrow> invar (snd (opSave ops i c p s))"
begin

lemma claim_result: "invar s \<Longrightarrow> fst (opClaim ops i c s) = fst (claimSpec i c (opFind ops s))"
  using claim_refines [of s i c] by (simp add: case_prod_beta Let_def split: prod.splits)
    (metis fst_conv)

lemma claim_find: "invar s \<Longrightarrow> opFind ops (snd (opClaim ops i c s)) = snd (claimSpec i c (opFind ops s))"
  using claim_refines [of s i c] by (simp add: case_prod_beta Let_def split: prod.splits)
    (metis snd_conv)

lemma save_result: "invar s \<Longrightarrow> fst (opSave ops i c p s) = fst (saveSpec i c p (opFind ops s))"
  using save_refines [of s i c p] by (simp add: case_prod_beta Let_def split: prod.splits)
    (metis fst_conv)

lemma save_find: "invar s \<Longrightarrow> opFind ops (snd (opSave ops i c p s)) = snd (saveSpec i c p (opFind ops s))"
  using save_refines [of s i c p] by (simp add: case_prod_beta Let_def split: prod.splits)
    (metis snd_conv)

lemma claim_grants:
  assumes "invar s" and "opClaim ops i c s = (Some r, s')"
  obtains r0 where "opFind ops s i = Some r0" and "isClaimable r0 (clNow c)" and "r = leaseRow c r0"
    and "opFind ops s' = (opFind ops s)(i \<mapsto> r)"
  using claim_refines [OF assms(1), of i c] assms(2)
  by (auto simp: claimSpec_def split: option.splits if_splits)

lemma claim_refuses: "invar s \<Longrightarrow> opFind ops s i = Some r \<Longrightarrow> \<not> isClaimable r (clNow c) \<Longrightarrow>
    fst (opClaim ops i c s) = None"
  by (simp add: claim_result claimSpec_def)

text \<open>A lease excludes every other runner until it ends.\<close>

lemma lease_excludes:
  assumes "invar s" and "opClaim ops i c s = (Some r, s')" and "clNow c' < clNow c + clLeaseMs c"
  shows "fst (opClaim ops i c' s') = None"
proof -
  from assms(1,2) obtain r0 where "r = leaseRow c r0" and "opFind ops s' i = Some r"
    by (auto elim: claim_grants)
  moreover have "invar s'" using claim_invar [OF assms(1), of i c] assms(2) by simp
  ultimately show ?thesis
    using assms(3) by (intro claim_refuses) (auto simp: leaseRow_def isClaimable_def)
qed

text \<open>A runner that has been replaced can no longer write.\<close>

lemma replaced_cannot_save:
  assumes "invar s" and "opClaim ops i c s = (Some r, s')" and "clOwner c' \<noteq> clOwner c"
  shows "fst (opSave ops i c' p s') = None \<and> opFind ops (snd (opSave ops i c' p s')) = opFind ops s'"
proof -
  from assms(1,2) obtain r0 where "r = leaseRow c r0" and "opFind ops s' i = Some r"
    by (auto elim: claim_grants)
  moreover have "invar s'" using claim_invar [OF assms(1), of i c] assms(2) by simp
  ultimately show ?thesis
    using assms(3) by (simp add: save_result save_find saveSpec_def leaseRow_def)
qed

end

section \<open>Both stores implement the port\<close>

lemmas row_defs = leaseRow_def progressRow_def abandonRow_def

lemma row_ids [simp]:
  "siId (leaseRow c r) = siId r" "siId (progressRow c p r) = siId r"
  "siId (abandonRow now st m r) = siId r" "siId (freshRow now inst) = niId inst"
  by (simp_all add: row_defs freshRow_def)

lemma memFind_update [simp]:
  "memFind (AList.update i r rows) = (memFind rows)(i \<mapsto> r)"
  by (rule ext) (simp add: memFind_def update_conv')

lemma memInvar_update: "memInvar rows \<Longrightarrow> siId r = i \<Longrightarrow> memInvar (AList.update i r rows)"
  by (auto simp: memInvar_def distinct_update dest!: set_updateD)

lemma memFind_id: "memInvar rows \<Longrightarrow> memFind rows i = Some r \<Longrightarrow> siId r = i"
  by (auto simp: memInvar_def memFind_def dest: map_of_SomeD)

interpretation mem: saga_store memStore memInvar
proof
  fix s i c p now status reason r and inst :: newSagaInstance
  assume inv: "memInvar s"
  show "opFind memStore s i = Some r \<Longrightarrow> siId r = i"
    using inv by (simp add: memStore_def memFind_id)
  show "(let (r, s') = opClaim memStore i c s in (r, opFind memStore s'))
      = claimSpec i c (opFind memStore s)"
    using memFind_id [OF inv]
    by (auto simp: memStore_def memClaim_def claimSpec_def memLease_def Let_def
        split: option.splits)
  show "(let (r, s') = opSave memStore i c p s in (r, opFind memStore s'))
      = saveSpec i c p (opFind memStore s)"
    by (auto simp: memStore_def memSave_def saveSpec_def Let_def split: option.splits)
  show "\<exists>s'. opCreate memStore now inst s = Some (freshRow now inst, s') \<and> memInvar s'
      \<and> opFind memStore s' = (opFind memStore s)(niId inst \<mapsto> freshRow now inst)"
    using inv by (simp add: memStore_def memCreate_def Let_def memInvar_update)
  show "\<exists>s'. opAbandon memStore now i status reason s = Some s' \<and> memInvar s'
      \<and> opFind memStore s' = (opFind memStore s)(i \<mapsto> abandonRow now status reason r)"
    if "opFind memStore s i = Some r"
    using inv that memFind_id [OF inv, of i r]
    by (simp add: memStore_def memAbandon_def memInvar_update)
  show "opFind memStore s i = None \<Longrightarrow> opAbandon memStore now i status reason s \<in> {None, Some s}"
    by (simp add: memStore_def memAbandon_def)
  show "memInvar (snd (opClaim memStore i c s))"
    using inv memFind_id [OF inv]
    by (auto simp: memStore_def memClaim_def memLease_def Let_def intro: memInvar_update
        split: option.splits)
  show "memInvar (snd (opSave memStore i c p s))"
    using inv memFind_id [OF inv]
    by (auto simp: memStore_def memSave_def Let_def intro: memInvar_update split: option.splits)
qed

lemma firstRow_simps [simp]: "firstRow [] = None" "firstRow (r # rs) = Some r"
  by (simp_all add: firstRow_def)

lemma sqlFind_simps [simp]:
  "sqlFind [] i = None"
  "sqlFind (r # rs) i = (if siId r = i then Some r else sqlFind rs i)"
  by (simp_all add: sqlFind_def)

lemma sqlFind_id: "sqlFind table i = Some r \<Longrightarrow> siId r = i"
  by (induction table) (auto split: if_splits)

lemma sqlFind_append:
  "sqlFind (xs @ ys) i = (case sqlFind xs i of None \<Rightarrow> sqlFind ys i | Some r \<Rightarrow> Some r)"
  by (induction xs) auto

lemma sqlFind_None_iff: "sqlFind table i = None \<longleftrightarrow> i \<notin> siId ` set table"
  by (induction table) auto

lemma sqlFind_map: "(\<And>r. siId (f r) = siId r) \<Longrightarrow> sqlFind (map f table) i = map_option f (sqlFind table i)"
  by (induction table) auto

lemma sqlUpdate_one:
  assumes "distinct (map siId table)" and "\<And>r. siId (f r) = siId r" and "\<And>r. P r \<Longrightarrow> siId r = i"
  shows "firstRow (map f (filter P table)) =
      (case sqlFind table i of Some r \<Rightarrow> (if P r then Some (f r) else None) | None \<Rightarrow> None)"
    and "sqlFind (map (\<lambda>r. if P r then f r else r) table) =
      (case sqlFind table i of
         Some r \<Rightarrow> (if P r then (sqlFind table)(i \<mapsto> f r) else sqlFind table)
       | None \<Rightarrow> sqlFind table)"
proof -
  show "firstRow (map f (filter P table)) =
      (case sqlFind table i of Some r \<Rightarrow> (if P r then Some (f r) else None) | None \<Rightarrow> None)"
    using assms(1,3)
  proof (induction table)
    case (Cons r rs)
    have "\<not> P x" if "siId r = i" "x \<in> set rs" for x
    proof -
      have "siId x \<noteq> siId r"
        using Cons.prems(1) imageI [OF that(2), of siId] by auto
      with that(1) Cons.prems(2) [of x] show ?thesis by auto
    qed
    then have "siId r = i \<Longrightarrow> filter P rs = []"
      by (simp add: filter_empty_conv)
    with Cons show ?case by auto
  qed simp
  have "sqlFind (map (\<lambda>r. if P r then f r else r) table) j =
      map_option (\<lambda>r. if P r then f r else r) (sqlFind table j)" for j
    by (rule sqlFind_map) (simp add: assms(2))
  moreover have "\<not> P r" if "sqlFind table j = Some r" "j \<noteq> i" for j r
    using sqlFind_id [OF that(1)] assms(3) that(2) by auto
  ultimately show "sqlFind (map (\<lambda>r. if P r then f r else r) table) =
      (case sqlFind table i of
         Some r \<Rightarrow> (if P r then (sqlFind table)(i \<mapsto> f r) else sqlFind table)
       | None \<Rightarrow> sqlFind table)"
    by (intro ext) (fastforce split: option.splits simp: map_option_case)
qed

lemma sqlInvar_update:
  "sqlInvar table \<Longrightarrow> (\<And>r. siId (f r) = siId r) \<Longrightarrow>
     sqlInvar (map (\<lambda>r. if P r then f r else r) table)"
  by (simp add: sqlInvar_def comp_def if_distrib cong: if_cong)

lemma isClaimable_sql:
  "isClaimable r now \<longleftrightarrow> siStatus r \<in> {RUNNING, COMPENSATING} \<and> siNextAttemptAt r \<le> now
     \<and> leaseFree r now"
  by (auto simp: isClaimable_def leaseFree_def split: option.splits)

interpretation sql: saga_store sqlStore sqlInvar
proof
  fix s i c p now status reason r and inst :: newSagaInstance
  assume inv: "sqlInvar s"
  then have dist: "distinct (map siId s)" by (simp add: sqlInvar_def)
  show "opFind sqlStore s i = Some r \<Longrightarrow> siId r = i"
    by (simp add: sqlStore_def sqlFind_id)
  show "(let (r, s') = opClaim sqlStore i c s in (r, opFind sqlStore s'))
      = claimSpec i c (opFind sqlStore s)"
    using sqlUpdate_one [OF dist, of "leaseRow c" "\<lambda>r. siId r = i \<and> isClaimable r (clNow c)" i]
    by (auto simp: sqlStore_def sqlClaim_def claimSpec_def sqlUpdateReturning_def Let_def
        isClaimable_sql dest: sqlFind_id split: option.splits)
  show "(let (r, s') = opSave sqlStore i c p s in (r, opFind sqlStore s'))
      = saveSpec i c p (opFind sqlStore s)"
    using sqlUpdate_one [OF dist, of "progressRow c p"
        "\<lambda>r. siId r = i \<and> siLockedBy r = Some (clOwner c)" i]
    by (auto simp: sqlStore_def sqlSave_def saveSpec_def sqlUpdateReturning_def Let_def
        dest: sqlFind_id split: option.splits)
  show "\<exists>s'. opCreate sqlStore now inst s = Some (freshRow now inst, s') \<and> sqlInvar s'
      \<and> opFind sqlStore s' = (opFind sqlStore s)(niId inst \<mapsto> freshRow now inst)"
    if "opFind sqlStore s (niId inst) = None"
  proof -
    from that have none: "sqlFind s (niId inst) = None" by (simp add: sqlStore_def)
    then have "sqlInvar (s @ [freshRow now inst])"
      using inv by (simp add: sqlInvar_def sqlFind_None_iff)
    with none show ?thesis
      by (auto simp: sqlStore_def sqlCreate_def sqlFind_append split: option.splits)
  qed
  show "\<exists>s'. opAbandon sqlStore now i status reason s = Some s' \<and> sqlInvar s'
      \<and> opFind sqlStore s' = (opFind sqlStore s)(i \<mapsto> abandonRow now status reason r)"
    if "opFind sqlStore s i = Some r"
    using inv that sqlUpdate_one(2) [OF dist, of "abandonRow now status reason" "\<lambda>r. siId r = i" i]
    by (simp add: sqlStore_def sqlAbandon_def sqlUpdateReturning_def sqlInvar_update sqlFind_id)
  show "opFind sqlStore s i = None \<Longrightarrow> opAbandon sqlStore now i status reason s \<in> {None, Some s}"
    by (simp add: sqlStore_def sqlAbandon_def)
  show "sqlInvar (snd (opClaim sqlStore i c s))"
    using inv by (simp add: sqlStore_def sqlClaim_def sqlUpdateReturning_def sqlInvar_update)
  show "sqlInvar (snd (opSave sqlStore i c p s))"
    using inv by (simp add: sqlStore_def sqlSave_def sqlUpdateReturning_def sqlInvar_update)
qed

section \<open>Claiming a batch\<close>

text \<open>
  What \<open>claimDue\<close> promises, over the rows by id before (\<open>m\<close>) and after (\<open>m'\<close>): at most
  \<open>limit\<close> rows, each once, each claimable and not locked by a concurrent statement; exactly these
  are leased; and a claimable row is left behind only by a full batch of rows due no later.
\<close>

definition claimsBatch ::
    "string set \<Rightarrow> sagaClaim \<Rightarrow> nat \<Rightarrow> (string \<rightharpoonup> sagaInstance) \<Rightarrow> sagaInstance list
      \<Rightarrow> (string \<rightharpoonup> sagaInstance) \<Rightarrow> bool" where
  "claimsBatch locked c limit m batch m' \<longleftrightarrow>
     distinct (map siId batch) \<and> length batch \<le> limit
     \<and> (\<forall>r \<in> set batch. siId r \<notin> locked
          \<and> (\<exists>r0. m (siId r) = Some r0 \<and> isClaimable r0 (clNow c) \<and> r = leaseRow c r0))
     \<and> m' = m ++ map_of (map (\<lambda>r. (siId r, r)) batch)
     \<and> (\<forall>i r0. m i = Some r0 \<longrightarrow> i \<notin> locked \<longrightarrow> isClaimable r0 (clNow c) \<longrightarrow> i \<notin> siId ` set batch
          \<longrightarrow> length batch = limit \<and> (\<forall>r \<in> set batch. dueKey r \<le> dueKey r0))"

lemma leased_not_claimable:
  "now' < clNow c + clLeaseMs c \<Longrightarrow> \<not> isClaimable (leaseRow c r) now'"
  by (simp add: leaseRow_def isClaimable_def)

lemma dueKey_lease [simp]: "dueKey (leaseRow c r) = dueKey r"
  by (simp add: dueKey_def leaseRow_def)

lemma memFind_fold_lease:
  "distinct (map siId due) \<Longrightarrow>
   memFind (fold (\<lambda>row. AList.update (siId row) (leaseRow c row)) due rows) =
     memFind rows ++ map_of (map (\<lambda>row. (siId row, leaseRow c row)) due)"
  by (induction due arbitrary: rows) (simp_all add: map_add_upd_left dom_map_of_conv_image_fst image_image)

lemma memLeaseAll_eq:
  "memLeaseAll c due rows = (map (leaseRow c) due,
     fold (\<lambda>row. AList.update (siId row) (leaseRow c row)) due rows)"
  by (induction due arbitrary: rows) (simp_all add: memLease_def Let_def)

lemma sqlFind_SomeI: "distinct (map siId rs) \<Longrightarrow> r \<in> set rs \<Longrightarrow> sqlFind rs (siId r) = Some r"
  by (induction rs) auto

lemma sqlFind_set: "sqlFind rs i = Some r \<Longrightarrow> r \<in> set rs"
  by (induction rs) (auto split: if_splits)

lemma memFind_sqlFind: "memInvar rows \<Longrightarrow> memFind rows = sqlFind (map snd rows)"
  unfolding memInvar_def by (rule ext, induction rows) (auto simp: memFind_def)

lemma take_sorted_le:
  assumes "sorted (map k xs)" and "x \<in> set (take n xs)" and "y \<in> set (drop n xs)"
  shows "k x \<le> k y"
proof -
  have "sorted (map k (take n xs @ drop n xs))" using assms(1) by simp
  with assms(2,3) show ?thesis unfolding map_append sorted_append by auto
qed

lemma distinct_due:
  assumes "distinct (map f xs)"
  shows "distinct (map f (take n (sort_key k (filter P xs))))"
proof -
  have "mset (map f (sort_key k (filter P xs))) = mset (map f (filter P xs))" by simp
  moreover have "distinct (map f (filter P xs))" using assms by (rule distinct_map_filter)
  ultimately have "distinct (map f (sort_key k (filter P xs)))"
    using mset_eq_imp_distinct_iff by blast
  then show ?thesis by (simp flip: take_map)
qed

text \<open>The first \<open>limit\<close> available rows in due order make such a batch, in whatever order returned.\<close>

lemma due_claimsBatch:
  fixes rs :: "sagaInstance list" and locked c limit
  defines "avail \<equiv> filter (\<lambda>r. siId r \<notin> locked \<and> isClaimable r (clNow c)) rs"
  defines "due \<equiv> take limit (sort_key dueKey avail)"
  assumes dist: "distinct (map siId rs)"
    and batch: "mset batch = mset (map (leaseRow c) due)"
    and m': "m' = sqlFind rs ++ map_of (map (\<lambda>r. (siId r, r)) batch)"
  shows "claimsBatch locked c limit (sqlFind rs) batch m'"
proof -
  have "distinct (map siId due)"
    unfolding due_def avail_def by (rule distinct_due [OF dist])
  moreover have ids: "mset (map siId batch) = mset (map siId due)"
    using batch by (metis (no_types, lifting) comp_apply map_eq_conv map_map mset_map row_ids(1))
  ultimately have d: "distinct (map siId batch)" by (metis mset_eq_imp_distinct_iff)
  have set_batch: "set batch = leaseRow c ` set due"
    using batch by (metis list.set_map set_mset_mset)
  have len: "length batch = length due"
    using batch by (metis length_map size_mset)
  have sub: "set due \<subseteq> set avail" unfolding due_def using set_take_subset by fastforce
  have left: "length batch = limit \<and> (\<forall>r \<in> set batch. dueKey r \<le> dueKey r0)"
    if "sqlFind rs i = Some r0" "i \<notin> locked" "isClaimable r0 (clNow c)" "i \<notin> siId ` set batch" for i r0
  proof -
    from that have "r0 \<in> set (sort_key dueKey avail)" and "r0 \<notin> set due"
      using sqlFind_id [OF that(1)] sqlFind_set [OF that(1)] set_batch
      by (auto simp: avail_def image_iff)
    then have rest: "r0 \<in> set (drop limit (sort_key dueKey avail))"
      unfolding due_def by (metis Un_iff append_take_drop_id set_append)
    then have "length due = limit" unfolding due_def by (cases "limit \<le> length avail") auto
    with rest show ?thesis
      using take_sorted_le [of dueKey "sort_key dueKey avail"] by (auto simp: len set_batch due_def)
  qed
  have each: "siId r \<notin> locked
      \<and> (\<exists>r0. sqlFind rs (siId r) = Some r0 \<and> isClaimable r0 (clNow c) \<and> r = leaseRow c r0)"
    if "r \<in> set batch" for r
  proof -
    from that obtain r0 where "r0 \<in> set due" and "r = leaseRow c r0" using set_batch by auto
    moreover from this sub have "r0 \<in> set avail" by auto
    ultimately show ?thesis
      using sqlFind_SomeI [OF dist, of r0] by (simp add: avail_def)
  qed
  have "length batch \<le> limit" using len by (simp add: due_def)
  with d each left m' show ?thesis unfolding claimsBatch_def by blast
qed

lemma claimsBatchD:
  assumes "claimsBatch locked c limit m batch m'" and "r \<in> set batch"
  obtains r0 where "m (siId r) = Some r0" "isClaimable r0 (clNow c)" "r = leaseRow c r0"
    "m' (siId r) = Some r" "siId r \<notin> locked"
proof -
  from assms obtain r0 where r0: "m (siId r) = Some r0" "isClaimable r0 (clNow c)" "r = leaseRow c r0"
    "siId r \<notin> locked"
    unfolding claimsBatch_def by blast
  from assms have "map_of (map (\<lambda>r. (siId r, r)) batch) (siId r) = Some r"
    by (intro map_of_is_SomeI) (auto simp: claimsBatch_def comp_def)
  then have "m' (siId r) = Some r"
    using assms(1) by (simp add: claimsBatch_def map_add_Some_iff)
  with r0 show thesis by (intro that)
qed

lemma claimsBatch_disjoint:
  assumes "claimsBatch locked c limit m batch m'" and "claimsBatch locked' c' limit' m' batch' m''"
    and "clNow c' < clNow c + clLeaseMs c"
  shows "siId ` set batch \<inter> siId ` set batch' = {}"
proof -
  have False if r: "r \<in> set batch" and r': "r' \<in> set batch'" and eq: "siId r' = siId r" for r r'
  proof -
    from assms(1) r obtain r0 where "r = leaseRow c r0" and "m' (siId r) = Some r"
      by (rule claimsBatchD)
    moreover from assms(2) r' obtain r1 where "m' (siId r') = Some r1" "isClaimable r1 (clNow c')"
      by (rule claimsBatchD)
    ultimately show False using leased_not_claimable [OF assms(3), of r0] eq by auto
  qed
  then show ?thesis by force
qed

lemma memDue_claimsBatch:
  assumes "memInvar rows" and "memClaimDue c limit rows = (batch, rows')"
  shows "claimsBatch {} c limit (memFind rows) batch (memFind rows')"
proof -
  let ?due = "memDue c limit rows"
  have dist: "distinct (map siId (map snd rows))"
  proof -
    have "map siId (map snd rows) = map fst rows"
      using assms(1) by (auto simp: memInvar_def)
    then show ?thesis using assms(1) by (metis memInvar_def)
  qed
  have ids: "distinct (map siId ?due)"
    unfolding memDue_def by (rule distinct_due [OF dist])
  have batch: "batch = map (leaseRow c) ?due"
    and rows': "memFind rows' = memFind rows ++ map_of (map (\<lambda>r. (siId r, r)) batch)"
    using assms(2) memFind_fold_lease [OF ids, of c rows]
    by (auto simp: memClaimDue_def memLeaseAll_eq comp_def)
  have "claimsBatch {} c limit (sqlFind (map snd rows)) batch (memFind rows')"
    using rows' memFind_sqlFind [OF assms(1)]
    by (intro due_claimsBatch [OF dist]) (simp_all add: batch memDue_def)
  then show ?thesis by (simp add: memFind_sqlFind [OF assms(1)])
qed

lemma sqlUpdate_many:
  assumes "distinct (map siId table)" and "\<And>r. siId (f r) = siId r"
  shows "sqlFind (map (\<lambda>r. if P r then f r else r) table) =
    sqlFind table ++ map_of (map (\<lambda>r. (siId r, r)) (map f (filter P table)))"
  using assms(1) by (rule_tac ext, induction table)
    (auto simp: assms(2) map_add_def split: option.splits dest!: map_of_SomeD)

lemma sqlDue_claimsBatch:
  assumes "sqlInvar table" and "sqlClaimDue locked c limit table = (batch, table')"
  shows "claimsBatch locked c limit (sqlFind table) batch (sqlFind table')"
proof -
  have dist: "distinct (map siId table)" using assms(1) by (simp add: sqlInvar_def)
  define due where "due = take limit (sort_key dueKey
      (filter (\<lambda>r. siId r \<notin> locked \<and> isClaimable r (clNow c)) table))"
  have due_ids: "sqlDueIds locked c limit table = map siId due"
    by (simp add: sqlDueIds_def due_def isClaimable_sql)
  have sub: "set due \<subseteq> set table"
    unfolding due_def by (auto dest: in_set_takeD)
  have "inj_on siId (set table)" using dist by (simp add: distinct_map)
  then have "siId r \<in> set (map siId due) \<longleftrightarrow> r \<in> set due" if "r \<in> set table" for r
    using that sub by (auto simp: inj_on_def)
  then have taken: "filter (\<lambda>r. siId r \<in> set (map siId due)) table = filter (\<lambda>r. r \<in> set due) table"
    by (intro filter_cong) auto
  have "distinct table" using dist by (simp add: distinct_map)
  then have "mset (filter (\<lambda>r. r \<in> set due) table) = mset due"
    using sub by (intro set_eq_iff_mset_eq_distinct [THEN iffD1]) (auto simp: due_def distinct_take)
  moreover have "batch = map (leaseRow c) (filter (\<lambda>r. r \<in> set due) table)"
    using assms(2) taken by (simp add: sqlClaimDue_def sqlUpdateReturning_def due_ids)
  ultimately have "mset batch = mset (map (leaseRow c) due)" by simp
  moreover have "sqlFind table' = sqlFind table ++ map_of (map (\<lambda>r. (siId r, r)) batch)"
    using assms(2) sqlUpdate_many [OF dist, of "leaseRow c"]
    by (auto simp: sqlClaimDue_def sqlUpdateReturning_def)
  ultimately show ?thesis by (intro due_claimsBatch [OF dist]) (simp_all add: due_def)
qed

section \<open>Properties of the stores\<close>

text \<open>Two rows of one saga, for the evaluations below.\<close>

definition sampleNew :: "string \<Rightarrow> newSagaInstance" where
  "sampleNew i = \<lparr>niId = i, niName = ''order.checkout'', niState = Map.empty, niCorrelationId = None\<rparr>"

definition sampleClaim :: "string \<Rightarrow> int \<Rightarrow> sagaClaim" where
  "sampleClaim owner now = \<lparr>clOwner = owner, clNow = now, clLeaseMs = 30000\<rparr>"

lemmas sample_defs = sampleNew_def sampleClaim_def freshRow_def row_defs isClaimable_def

text \<open>
  The in-memory store's \<open>claimDue\<close> takes a batch of at most \<open>limit\<close> rows in due order, each
  claimable beforehand and leased afterwards, changes no other row, and leaves a claimable row
  behind only when the batch is full of rows due no later.
\<close>

theorem mem_claimDue_batch:
  assumes "memInvar rows" and "memClaimDue c limit rows = (batch, rows')"
  shows "claimsBatch {} c limit (memFind rows) batch (memFind rows') \<and> sorted (map dueKey batch)"
proof -
  have "sorted (map dueKey batch)"
    using assms(2) by (auto simp: memClaimDue_def memLeaseAll_eq memDue_def comp_def
        simp flip: take_map intro: sorted_wrt_take)
  with memDue_claimsBatch [OF assms] show ?thesis by simp
qed

theorem mem_claimDue_batch_witness:
  "let rows = [(''b'', freshRow 5 (sampleNew ''b'')), (''a'', freshRow 5 (sampleNew ''a''))];
       batch = fst (memClaimDue (sampleClaim ''w'' 9) 1 rows);
       rows' = snd (memClaimDue (sampleClaim ''w'' 9) 1 rows)
   in memInvar rows \<and> map siId batch = [''a'']
      \<and> claimsBatch {} (sampleClaim ''w'' 9) 1 (memFind rows) batch (memFind rows')"
proof -
  let ?rows = "[(''b'', freshRow 5 (sampleNew ''b'')), (''a'', freshRow 5 (sampleNew ''a''))]"
  have inv: "memInvar ?rows" by (simp add: memInvar_def sampleNew_def)
  have "map siId (fst (memClaimDue (sampleClaim ''w'' 9) 1 ?rows)) = [''a'']"
    by (simp add: memClaimDue_def memDue_def memLease_def Let_def sample_defs dueKey_def)
  with inv mem_claimDue_batch [OF inv prod.collapse [symmetric], of "sampleClaim ''w'' 9" 1]
  show ?thesis by (simp add: Let_def)
qed

text \<open>
  Two recovery passes of the Postgres store, the second issued before the first one's leases end,
  take disjoint batches, whichever rows concurrent statements hold locked.
\<close>

lemma sql_passes_disjoint:
  assumes "sqlInvar table" and "sqlClaimDue locked c limit table = (batch, table')"
    and "sqlClaimDue locked' c' limit' table' = (batch', table'')"
    and "clNow c' < clNow c + clLeaseMs c"
  shows "claimsBatch locked c limit (sqlFind table) batch (sqlFind table')
    \<and> siId ` set batch \<inter> siId ` set batch' = {}"
proof -
  have "table' = map (\<lambda>r. if siId r \<in> set (sqlDueIds locked c limit table) then leaseRow c r else r) table"
    using assms(2) by (simp add: sqlClaimDue_def sqlUpdateReturning_def)
  then have inv': "sqlInvar table'" using assms(1) by (simp add: sqlInvar_update)
  note first = sqlDue_claimsBatch [OF assms(1,2)]
  from claimsBatch_disjoint [OF first sqlDue_claimsBatch [OF inv' assms(3)] assms(4)] first
  show ?thesis by simp
qed

lemma sql_passes_disjoint_witness:
  "let table = [freshRow 5 (sampleNew ''a''), freshRow 5 (sampleNew ''b'')];
       pass1 = sqlClaimDue {} (sampleClaim ''w'' 9) 1 table;
       pass2 = sqlClaimDue {} (sampleClaim ''v'' 10) 1 (snd pass1)
   in map siId (fst pass1) = [''a''] \<and> map siId (fst pass2) = [''b'']
      \<and> siId ` set (fst pass1) \<inter> siId ` set (fst pass2) = {}"
proof -
  define table where "table = [freshRow 5 (sampleNew ''a''), freshRow 5 (sampleNew ''b'')]"
  define pass1 where "pass1 = sqlClaimDue {} (sampleClaim ''w'' 9) 1 table"
  define pass2 where "pass2 = sqlClaimDue {} (sampleClaim ''v'' 10) 1 (snd pass1)"
  have inv: "sqlInvar table" by (simp add: table_def sqlInvar_def sampleNew_def)
  have "siId ` set (fst pass1) \<inter> siId ` set (fst pass2) = {}"
    using sql_passes_disjoint [OF inv, of "{}" "sampleClaim ''w'' 9" 1 "fst pass1" "snd pass1"
        "{}" "sampleClaim ''v'' 10" 1 "fst pass2" "snd pass2"]
    by (simp add: pass1_def pass2_def sampleClaim_def)
  moreover have "map siId (fst pass1) = [''a'']" and "map siId (fst pass2) = [''b'']"
    by (simp_all add: pass1_def pass2_def table_def sqlClaimDue_def sqlDueIds_def sqlUpdateReturning_def
        leaseFree_def sample_defs dueKey_def)
  ultimately show ?thesis by (simp add: table_def pass1_def pass2_def Let_def)
qed

section \<open>Statements of other runners\<close>

text \<open>
  The statements runners send to Postgres, each atomic, in any order: what one returns and the table it
  leaves. A creation whose id is taken fails and writes nothing. \<open>abandon\<close> is not among them: it is
  for an instance nobody can run and ignores the lease on purpose.
\<close>

datatype storeStatement =
    StClaim string sagaClaim
  | StClaimDue "string set" sagaClaim nat
  | StSave string sagaClaim sagaProgress
  | StCreate int newSagaInstance

fun runStatement :: "storeStatement \<Rightarrow> sagaInstance list \<Rightarrow> sagaInstance list \<times> sagaInstance list" where
  "runStatement (StClaim i c) table = map_prod (\<lambda>r. case r of None \<Rightarrow> [] | Some r \<Rightarrow> [r]) id (sqlClaim i c table)"
| "runStatement (StClaimDue locked c limit) table = sqlClaimDue locked c limit table"
| "runStatement (StSave i c p) table = map_prod (\<lambda>r. case r of None \<Rightarrow> [] | Some r \<Rightarrow> [r]) id (sqlSave i c p table)"
| "runStatement (StCreate now inst) table = (case sqlCreate now inst table of None \<Rightarrow> ([], table) | Some (r, table') \<Rightarrow> ([r], table'))"

fun runStatements :: "storeStatement list \<Rightarrow> sagaInstance list \<Rightarrow> sagaInstance list \<times> sagaInstance list" where
  "runStatements [] table = ([], table)"
| "runStatements (st # sts) table =
     (let (rows, table1) = runStatement st table; (more, table2) = runStatements sts table1 in (rows @ more, table2))"

text \<open>What another runner may send while the lease of \<open>c\<close> on row \<open>i\<close> lasts: claims until it ends, and saves under its own name.\<close>

fun byOthers :: "string \<Rightarrow> sagaClaim \<Rightarrow> storeStatement \<Rightarrow> bool" where
  "byOthers i c (StClaim j c') = (clNow c' < clNow c + clLeaseMs c)"
| "byOthers i c (StClaimDue locked c' limit) = (clNow c' < clNow c + clLeaseMs c)"
| "byOthers i c (StSave j c' p) = (j = i \<longrightarrow> clOwner c' \<noteq> clOwner c)"
| "byOthers i c (StCreate now inst) = True"

definition leasedTo :: "string \<Rightarrow> sagaClaim \<Rightarrow> sagaInstance \<Rightarrow> sagaInstance list \<Rightarrow> bool" where
  "leasedTo i c r table \<longleftrightarrow> sqlInvar table \<and> sqlFind table i = Some r
     \<and> siLockedBy r = Some (clOwner c) \<and> siLockedUntil r = Some (clNow c + clLeaseMs c)"

lemma sqlClaim_spec:
  assumes "sqlInvar table"
  shows "fst (sqlClaim i c table) = fst (claimSpec i c (sqlFind table))" "sqlFind (snd (sqlClaim i c table)) = snd (claimSpec i c (sqlFind table))"
    "sqlInvar (snd (sqlClaim i c table))"
  using sql.claim_result [OF assms, of i c] sql.claim_find [OF assms, of i c] sql.claim_invar [OF assms, of i c] by (simp_all add: sqlStore_def)

lemma sqlSave_spec:
  assumes "sqlInvar table"
  shows "fst (sqlSave i c p table) = fst (saveSpec i c p (sqlFind table))" "sqlFind (snd (sqlSave i c p table)) = snd (saveSpec i c p (sqlFind table))"
    "sqlInvar (snd (sqlSave i c p table))"
  using sql.save_result [OF assms, of i c p] sql.save_find [OF assms, of i c p] sql.save_invar [OF assms, of i c p] by (simp_all add: sqlStore_def)

lemma leased_claimable: "leasedTo i c r table \<Longrightarrow> now < clNow c + clLeaseMs c \<Longrightarrow> \<not> isClaimable r now"
  by (simp add: leasedTo_def isClaimable_def)

lemma runStatement_leased:
  assumes "leasedTo i c r table" and "byOthers i c st" and "runStatement st table = (rows, table')"
  shows "leasedTo i c r table' \<and> i \<notin> siId ` set rows"
proof (cases st)
  case (StClaim j c')
  have inv: "sqlInvar table" and row: "sqlFind table i = Some r" using assms(1) by (simp_all add: leasedTo_def)
  note spec = sqlClaim_spec [OF inv, of j c']
  have rows: "rows = (case fst (claimSpec j c' (sqlFind table)) of None \<Rightarrow> [] | Some q \<Rightarrow> [q])" and table': "table' = snd (sqlClaim j c' table)"
    using assms(3) spec(1) StClaim by (auto simp: map_prod_def split: prod.splits)
  show ?thesis
  proof (cases "j = i")
    case True
    then have "claimSpec j c' (sqlFind table) = (None, sqlFind table)"
      using row leased_claimable [OF assms(1), of "clNow c'"] assms(2) StClaim by (simp add: claimSpec_def)
    then show ?thesis using assms(1) rows table' spec by (simp add: leasedTo_def)
  next
    case False
    then have "snd (claimSpec j c' (sqlFind table)) i = Some r" "i \<notin> siId ` set rows"
      using row rows sqlFind_id [of table j] by (auto simp: claimSpec_def split: option.splits)
    then show ?thesis using assms(1) table' spec by (simp add: leasedTo_def)
  qed
next
  case (StClaimDue locked c' limit)
  have inv: "sqlInvar table" using assms(1) by (simp add: leasedTo_def)
  from StClaimDue assms(3) have b: "claimsBatch locked c' limit (sqlFind table) rows (sqlFind table')"
    using sqlDue_claimsBatch [OF inv] by simp
  have out: "i \<notin> siId ` set rows"
  proof
    assume "i \<in> siId ` set rows"
    then obtain q where "q \<in> set rows" "siId q = i" by blast
    with b obtain r0 where "sqlFind table i = Some r0" "isClaimable r0 (clNow c')" by (metis claimsBatchD)
    then show False using leased_claimable [OF assms(1), of "clNow c'"] assms(1,2) StClaimDue by (simp add: leasedTo_def)
  qed
  then have "map_of (map (\<lambda>r. (siId r, r)) rows) i = None" by (force simp: map_of_eq_None_iff)
  then have "sqlFind table' i = sqlFind table i" using b by (simp add: claimsBatch_def map_add_def)
  moreover have "sqlInvar table'" using StClaimDue assms(3) sqlInvar_update [OF inv, of "leaseRow c'"]
    by (auto simp: sqlClaimDue_def sqlUpdateReturning_def)
  ultimately show ?thesis using assms(1) out by (simp add: leasedTo_def)
next
  case (StSave j c' p)
  have inv: "sqlInvar table" and row: "sqlFind table i = Some r" "siLockedBy r = Some (clOwner c)" using assms(1) by (simp_all add: leasedTo_def)
  note spec = sqlSave_spec [OF inv, of j c' p]
  have rows: "rows = (case fst (saveSpec j c' p (sqlFind table)) of None \<Rightarrow> [] | Some q \<Rightarrow> [q])" and table': "table' = snd (sqlSave j c' p table)"
    using assms(3) spec(1) StSave by (auto simp: map_prod_def split: prod.splits)
  show ?thesis
  proof (cases "j = i")
    case True
    then have "saveSpec j c' p (sqlFind table) = (None, sqlFind table)"
      using row assms(2) StSave by (simp add: saveSpec_def)
    then show ?thesis using assms(1) rows table' spec by (simp add: leasedTo_def)
  next
    case False
    then have "snd (saveSpec j c' p (sqlFind table)) i = Some r" "i \<notin> siId ` set rows"
      using row rows sqlFind_id [of table j] by (auto simp: saveSpec_def split: option.splits)
    then show ?thesis using assms(1) table' spec by (simp add: leasedTo_def)
  qed
next
  case (StCreate now inst)
  then show ?thesis
    using assms sqlFind_None_iff [of table "niId inst"]
    by (auto simp: leasedTo_def sqlCreate_def sqlInvar_def sqlFind_append split: option.splits if_splits)
qed

lemma runStatements_leased:
  assumes "leasedTo i c r table" and "\<forall>st \<in> set sts. byOthers i c st" and "runStatements sts table = (rows, table')"
  shows "leasedTo i c r table' \<and> i \<notin> siId ` set rows"
  using assms
proof (induction sts arbitrary: table rows)
  case (Cons st sts)
  obtain rows1 table1 where one: "runStatement st table = (rows1, table1)" by fastforce
  obtain rows2 table2 where more: "runStatements sts table1 = (rows2, table2)" by fastforce
  have "leasedTo i c r table1 \<and> i \<notin> siId ` set rows1" using runStatement_leased [OF Cons.prems(1) _ one] Cons.prems(2) by simp
  moreover from this have "leasedTo i c r table2 \<and> i \<notin> siId ` set rows2"
    using Cons.IH [of table1 rows2] more Cons.prems(2,3) one by auto
  ultimately show ?case using Cons.prems(3) one more by auto
qed simp

text \<open>How a runner comes by a lease: the claim of one instance, or a recovery pass that returned it.\<close>

definition grantsLease :: "string \<Rightarrow> sagaClaim \<Rightarrow> sagaInstance \<Rightarrow> sagaInstance list \<Rightarrow> sagaInstance list \<Rightarrow> bool" where
  "grantsLease i c r table table' \<longleftrightarrow> sqlClaim i c table = (Some r, table')
     \<or> (\<exists>locked limit batch. sqlClaimDue locked c limit table = (batch, table') \<and> r \<in> set batch \<and> siId r = i)"

lemma grantsLease_leased:
  assumes inv: "sqlInvar table" and "grantsLease i c r table table'"
  shows "leasedTo i c r table' \<and> (\<exists>r0. isClaimable r0 (clNow c) \<and> r = leaseRow c r0)"
  using assms(2) unfolding grantsLease_def
proof (elim disjE exE conjE)
  assume "sqlClaim i c table = (Some r, table')"
  then show ?thesis using sqlClaim_spec [OF inv, of i c]
    by (auto simp: claimSpec_def leasedTo_def leaseRow_def split: option.splits if_splits)
next
  fix locked limit batch assume due: "sqlClaimDue locked c limit table = (batch, table')" and r: "r \<in> set batch" "siId r = i"
  from sqlDue_claimsBatch [OF inv due] r(1) obtain r0 where r0: "isClaimable r0 (clNow c)" "r = leaseRow c r0" "sqlFind table' (siId r) = Some r"
    by (rule claimsBatchD)
  have "sqlInvar table'" using due sqlInvar_update [OF inv, of "leaseRow c"] by (auto simp: sqlClaimDue_def sqlUpdateReturning_def)
  then show ?thesis using r0 r(2) by (auto simp: leasedTo_def leaseRow_def)
qed

text \<open>
  C33. A lease taken in Postgres, by the claim of one instance or by a recovery pass, excludes every
  other runner. Whatever claims and recovery passes of others run until it ends, in whatever order with
  saves under other owners and creations: none of them is given the instance, the row stays exactly as
  it was leased, and the holder's save still succeeds on it. Once the lease has ended, the next claim
  is given the instance.
\<close>

theorem sql_lease_exclusive:
  assumes "sqlInvar table" and "grantsLease i c r table table'"
    and "\<forall>st \<in> set sts. byOthers i c st" and "runStatements sts table' = (rows, table'')"
  shows "i \<notin> siId ` set rows \<and> sqlFind table'' i = Some r
    \<and> (\<forall>c' p. clOwner c' = clOwner c \<longrightarrow> fst (sqlSave i c' p table'') = Some (progressRow c' p r))
    \<and> (\<forall>c'. clNow c \<le> clNow c' \<and> clNow c + clLeaseMs c \<le> clNow c' \<longrightarrow> fst (sqlClaim i c' table'') = Some (leaseRow c' r))"
proof -
  obtain r0 where r0: "isClaimable r0 (clNow c)" "r = leaseRow c r0" using grantsLease_leased [OF assms(1,2)] by blast
  have out: "leasedTo i c r table'' \<and> i \<notin> siId ` set rows"
    using runStatements_leased [OF _ assms(3,4)] grantsLease_leased [OF assms(1,2)] by blast
  then have inv: "sqlInvar table''" and row: "sqlFind table'' i = Some r" "siLockedBy r = Some (clOwner c)" by (simp_all add: leasedTo_def)
  have "isClaimable r (clNow c')" if "clNow c \<le> clNow c'" "clNow c + clLeaseMs c \<le> clNow c'" for c'
    using r0 that by (auto simp: leaseRow_def isClaimable_def split: if_splits)
  then show ?thesis
    using out row by (auto simp: sqlClaim_spec(1) [OF inv] sqlSave_spec(1) [OF inv] claimSpec_def saveSpec_def)
qed

theorem sql_lease_exclusive_witness:
  "let table = [freshRow 5 (sampleNew ''a'')]; c = sampleClaim ''w'' 9;
       (batch, table') = sqlClaimDue {} c 10 table;
       (rows, table'') = runStatements [StClaim ''a'' (sampleClaim ''v'' 10), StCreate 11 (sampleNew ''b''),
         StClaimDue {} (sampleClaim ''v'' 12) 10] table'
   in map siId batch = [''a''] \<and> map siId rows = [''b'', ''b''] \<and> sqlFind table'' ''a'' = Some (hd batch)
     \<and> fst (sqlClaim ''a'' (sampleClaim ''v'' 40000) table'') = Some (leaseRow (sampleClaim ''v'' 40000) (hd batch))"
proof -
  let ?t = "[freshRow 5 (sampleNew ''a'')]" and ?c = "sampleClaim ''w'' 9"
  let ?sts = "[StClaim ''a'' (sampleClaim ''v'' 10), StCreate 11 (sampleNew ''b''), StClaimDue {} (sampleClaim ''v'' 12) 10]"
  let ?r = "leaseRow ?c (freshRow 5 (sampleNew ''a''))"
  note calc = sqlClaimDue_def sqlDueIds_def sqlUpdateReturning_def sqlClaim_def sqlCreate_def leaseFree_def sample_defs dueKey_def
  have due: "sqlClaimDue {} ?c 10 ?t = ([?r], [?r])" by (simp add: calc)
  have rows: "map siId (fst (runStatements ?sts [?r])) = [''b'', ''b'']" by (simp add: calc)
  have "sqlInvar ?t" by (simp add: sqlInvar_def)
  moreover have "grantsLease ''a'' ?c ?r ?t [?r]" using due by (fastforce simp: grantsLease_def sampleNew_def)
  moreover have "\<forall>st \<in> set ?sts. byOthers ''a'' ?c st" by (simp add: sampleClaim_def)
  moreover obtain rows table'' where run: "runStatements ?sts [?r] = (rows, table'')" by fastforce
  ultimately have "sqlFind table'' ''a'' = Some ?r \<and> (\<forall>c'. clNow ?c \<le> clNow c' \<and> clNow ?c + clLeaseMs ?c \<le> clNow c' \<longrightarrow>
      fst (sqlClaim ''a'' c' table'') = Some (leaseRow c' ?r))"
    using sql_lease_exclusive [of ?t "''a''" ?c ?r "[?r]" ?sts rows table''] by blast
  moreover have "clNow ?c \<le> clNow (sampleClaim ''v'' 40000) \<and> clNow ?c + clLeaseMs ?c \<le> clNow (sampleClaim ''v'' 40000)"
    by (simp add: sampleClaim_def)
  ultimately have "sqlFind table'' ''a'' = Some ?r \<and> fst (sqlClaim ''a'' (sampleClaim ''v'' 40000) table'') = Some (leaseRow (sampleClaim ''v'' 40000) ?r)"
    by blast
  moreover have "siId ?r = ''a''" by (simp add: sampleNew_def)
  ultimately show ?thesis using due rows run by (simp only: Let_def split_conv) simp
qed

end
