(* ===== verification/SagaOrchestrator.thy ===== *)
theory SagaOrchestrator
  imports SagaStore Backoff
begin

text \<open>
  The orchestrator, \<open>src/saga/saga-orchestrator.service.ts\<close>, over any saga store.

  What happens outside the code is a \<open>tick\<close> per iteration of \<open>drive\<close>: the clock when the step
  starts and when its outcome is saved, how long the step took, the jitter drawn, and the store
  operations other runners complete between the two. A step whose call outlives the timeout is
  recorded as failed although its effects on the world have happened.
\<close>

section \<open>Helpers of the module\<close>

definition truncateError :: "string \<Rightarrow> string" where
  "truncateError message = truncateTo 500 message"

definition entryOf :: "string \<Rightarrow> sagaDirection \<Rightarrow> sagaOutcome \<Rightarrow> nat \<Rightarrow> int \<Rightarrow> stepError option
    \<Rightarrow> sagaStepLogEntry" where
  "entryOf step direction outcome attempt stamp err =
     \<lparr>leStep = step, leDirection = direction, leOutcome = outcome, leAt = stamp, leAttempt = attempt,
      leError = map_option (\<lambda>e. truncateError (errorMessage e)) err\<rparr>"

primrec mergeFields :: "sagaState \<Rightarrow> (string \<times> jsonValue option) list \<Rightarrow> sagaState" where
  "mergeFields merged [] = merged"
| "mergeFields merged (kv # rest) =
     mergeFields (case snd kv of None \<Rightarrow> merged | Some v \<Rightarrow> merged(fst kv \<mapsto> v)) rest"

definition mergeState :: "sagaState \<Rightarrow> sagaStatePatch \<Rightarrow> sagaState" where
  "mergeState state patch = (case patch of None \<Rightarrow> state | Some kvs \<Rightarrow> mergeFields state kvs)"

definition isForwardFailure :: "sagaStepLogEntry \<Rightarrow> bool" where
  "isForwardFailure item \<longleftrightarrow> leDirection item = Forward \<and> leOutcome item = Failed"

text \<open>The backwards loop over the log, then the fallback below it.\<close>

definition failureFrom :: "'w sagaDefinition \<Rightarrow> sagaInstance \<Rightarrow> sagaFailure" where
  "failureFrom d record =
     (case find isForwardFailure (rev (siLog record)) of
        Some item \<Rightarrow> \<lparr>failedStep = leStep item, failureMessage =
          (case leError item of Some m \<Rightarrow> m
           | None \<Rightarrow> (case siLastError record of Some m \<Rightarrow> m | None \<Rightarrow> ''unknown failure''))\<rparr>
      | None \<Rightarrow> \<lparr>failedStep =
          (case indexed (steps d) (siCursor record) of Some s \<Rightarrow> stepName s | None \<Rightarrow> ''unknown''),
          failureMessage =
          (case siLastError record of Some m \<Rightarrow> m | None \<Rightarrow> ''unknown failure'')\<rparr>)"

definition isForwardDone :: "sagaStepLogEntry \<Rightarrow> bool" where
  "isForwardDone item \<longleftrightarrow> leDirection item = Forward \<and> leOutcome item = Completed"

datatype sagaResumeError = CompletedElsewhere string nat "string option" | CursorOutside int nat

definition resumeMessage :: "sagaInstance \<Rightarrow> 'w sagaDefinition \<Rightarrow> sagaResumeError \<Rightarrow> string" where
  "resumeMessage record d e = ''Saga '' @ siId record @ '' cannot be resumed: '' @
     (case e of
        CompletedElsewhere step index expected \<Rightarrow>
          ''it completed \"'' @ step @ ''\" at position '' @ decString index @ '', where \"''
          @ sagaName d @ ''\" now has '' @
          (case expected of Some n \<Rightarrow> ''\"'' @ n @ ''\"'' | None \<Rightarrow> ''nothing'')
      | CursorOutside cursor n \<Rightarrow>
          ''cursor '' @ (if cursor < 0 then ''-'' else []) @ decString (nat \<bar>cursor\<bar>)
          @ '' is outside the '' @ decString n @ '' steps of \"'' @ sagaName d @ ''\"'') @ ''.''"

text \<open>The \<open>forEach\<close> of \<open>assertResumable\<close> from position \<open>index\<close>: the first mismatch.\<close>

fun resumeMismatch :: "'w sagaStep list \<Rightarrow> nat \<Rightarrow> sagaStepLogEntry list \<Rightarrow> sagaResumeError option" where
  "resumeMismatch ss index [] = None"
| "resumeMismatch ss index (item # rest) =
     (let expected = (if index < length ss then Some (stepName (ss ! index)) else None) in
      if expected \<noteq> Some (leStep item) then Some (CompletedElsewhere (leStep item) index expected)
      else resumeMismatch ss (index + 1) rest)"

definition assertResumable :: "'w sagaDefinition \<Rightarrow> sagaInstance \<Rightarrow> sagaResumeError option" where
  "assertResumable d record = resumeMismatch (steps d) 0 (filter isForwardDone (siLog record))"

section \<open>One step\<close>

record orchestratorConfig =
  leaseMs :: int
  stepTimeoutMs :: int
  retryPolicy :: backoffPolicy

record tick =
  tkNow :: int
  tkElapsed :: int
  tkRandom :: rat
  tkSaveNow :: int

definition retryAt :: "orchestratorConfig \<Rightarrow> tick \<Rightarrow> nat \<Rightarrow> stepError \<Rightarrow> int option" where
  "retryAt cfg t attempt err =
     (case err of
        UnretryableStepError _ \<Rightarrow> None
      | PlainError _ \<Rightarrow> nextAttemptAt (tkNow t) attempt (retryPolicy cfg) (tkRandom t))"

definition contextOf :: "sagaInstance \<Rightarrow> 'w sagaStep \<Rightarrow> sagaFailure option \<Rightarrow> sagaStepContext" where
  "contextOf record step failure =
     \<lparr>ctxSagaId = siId record, ctxState = siState record,
      idempotencyKey = siId record @ '':'' @ stepName step,
      ctxCorrelationId = siCorrelationId record, ctxFailure = failure\<rparr>"

text \<open>\<open>Promise.race\<close> against the timer: the work is not cancelled, only no longer waited for.\<close>

definition callStep :: "orchestratorConfig \<Rightarrow> tick \<Rightarrow> string
    \<Rightarrow> ('w \<Rightarrow> (stepError + 'a) \<times> 'w) \<Rightarrow> 'w \<Rightarrow> (stepError + 'a) \<times> 'w" where
  "callStep cfg t step work w =
     (let (answer, w') = work w in
      if tkElapsed t < stepTimeoutMs cfg then (answer, w')
      else (Inl (PlainError (''Step \"'' @ step @ ''\" did not settle within ''
              @ decString (nat (stepTimeoutMs cfg)) @ ''ms.'')), w'))"

definition executeStep :: "orchestratorConfig \<Rightarrow> tick \<Rightarrow> 'w sagaDefinition \<Rightarrow> sagaInstance
    \<Rightarrow> 'w sagaStep \<Rightarrow> 'w \<Rightarrow> sagaProgress \<times> 'w" where
  "executeStep cfg t d record step w =
     (let attempt = siAttempts record + 1; now = tkNow t;
          (answer, w') = callStep cfg t (stepName step) (execute step (contextOf record step None)) w
      in case answer of
        Inr patch \<Rightarrow>
          (let cursor = siCursor record + 1; isDone = cursor \<ge> int (length (steps d)) in
           (\<lparr>spStatus = (if isDone then COMPLETED else RUNNING), spCursor = cursor, spAttempts = 0,
             spNextAttemptAt = now, spState = mergeState (siState record) patch,
             spEntry = entryOf (stepName step) Forward Completed attempt now None,
             spLastError = siLastError record, spRelease = isDone\<rparr>, w'))
      | Inl err \<Rightarrow>
          (let failed = entryOf (stepName step) Forward Failed attempt now (Some err);
               message = truncateError (errorMessage err) in
           case retryAt cfg t attempt err of
             Some due \<Rightarrow>
               (\<lparr>spStatus = RUNNING, spCursor = siCursor record, spAttempts = attempt,
                 spNextAttemptAt = due, spState = siState record, spEntry = failed,
                 spLastError = Some message, spRelease = True\<rparr>, w')
           | None \<Rightarrow>
               (if stepKind step = KRetriable
                then (\<lparr>spStatus = STUCK, spCursor = siCursor record, spAttempts = attempt,
                       spNextAttemptAt = now, spState = siState record, spEntry = failed,
                       spLastError = Some message, spRelease = True\<rparr>, w')
                else (\<lparr>spStatus = COMPENSATING, spCursor = siCursor record, spAttempts = 0,
                       spNextAttemptAt = now, spState = siState record, spEntry = failed,
                       spLastError = Some message, spRelease = False\<rparr>, w'))))"

definition compensateStep :: "orchestratorConfig \<Rightarrow> tick \<Rightarrow> 'w sagaDefinition \<Rightarrow> sagaInstance
    \<Rightarrow> 'w sagaStep \<Rightarrow> 'w \<Rightarrow> sagaProgress \<times> 'w" where
  "compensateStep cfg t d record step w =
     (let attempt = siAttempts record + 1; now = tkNow t;
          cursor = siCursor record - 1; isDone = cursor < 0;
          moved = \<lparr>spStatus = (if isDone then COMPENSATED else COMPENSATING), spCursor = cursor,
             spAttempts = 0, spNextAttemptAt = now, spState = siState record,
             spEntry = entryOf (stepName step) Backward Skipped attempt now None,
             spLastError = siLastError record, spRelease = isDone\<rparr>
      in case step of
        Compensatable name _ undo \<Rightarrow>
          (let (answer, w') = callStep cfg t name
                 (undo (contextOf record step (Some (failureFrom d record)))) w
           in case answer of
             Inr _ \<Rightarrow> (moved\<lparr>spEntry := entryOf name Backward Completed attempt now None\<rparr>, w')
           | Inl err \<Rightarrow>
               (let failed = entryOf name Backward Failed attempt now (Some err) in
                case retryAt cfg t attempt err of
                  Some due \<Rightarrow>
                    (\<lparr>spStatus = COMPENSATING, spCursor = siCursor record, spAttempts = attempt,
                      spNextAttemptAt = due, spState = siState record, spEntry = failed,
                      spLastError = siLastError record, spRelease = True\<rparr>, w')
                | None \<Rightarrow>
                    (\<lparr>spStatus = STUCK, spCursor = siCursor record, spAttempts = attempt,
                      spNextAttemptAt = now, spState = siState record, spEntry = failed,
                      spLastError = Some (truncateError (errorMessage err)), spRelease = True\<rparr>, w')))
      | _ \<Rightarrow> (moved, w))"

definition stepOnce :: "orchestratorConfig \<Rightarrow> tick \<Rightarrow> 'w sagaDefinition \<Rightarrow> sagaInstance \<Rightarrow> 'w
    \<Rightarrow> (sagaResumeError + sagaProgress) \<times> 'w" where
  "stepOnce cfg t d record w =
     (case assertResumable d record of
        Some e \<Rightarrow> (Inl e, w)
      | None \<Rightarrow>
          (case indexed (steps d) (siCursor record) of
             None \<Rightarrow> (Inl (CursorOutside (siCursor record) (length (steps d))), w)
           | Some step \<Rightarrow>
               (let (p, w') = (if siStatus record = COMPENSATING
                               then compensateStep cfg t d record step w
                               else executeStep cfg t d record step w)
                in (Inr p, w'))))"

section \<open>Driving an instance\<close>

text \<open>
  What other runners do to the store while this one works: claims, saves and abandonments through
  the same port, in any number and order.
\<close>

datatype rivalOp =
    RivalClaim string sagaClaim
  | RivalSave string sagaClaim sagaProgress
  | RivalAbandon int string string
  | RivalCreate int newSagaInstance

fun rivalStep :: "'s sagaStoreOps \<Rightarrow> rivalOp \<Rightarrow> 's \<Rightarrow> 's" where
  "rivalStep ops (RivalClaim i c) s = snd (opClaim ops i c s)"
| "rivalStep ops (RivalSave i c p) s = snd (opSave ops i c p s)"
| "rivalStep ops (RivalAbandon now i reason) s =
     (case opAbandon ops now i STUCK reason s of None \<Rightarrow> s | Some s' \<Rightarrow> s')"
| "rivalStep ops (RivalCreate now inst) s =
     (if opFind ops s (niId inst) \<noteq> None then s
      else case opCreate ops now inst s of None \<Rightarrow> s | Some (_, s') \<Rightarrow> s')"

definition rivalSteps :: "'s sagaStoreOps \<Rightarrow> rivalOp list \<Rightarrow> 's \<Rightarrow> 's" where
  "rivalSteps ops rs s = fold (rivalStep ops) rs s"

text \<open>Why \<open>drive\<close> returned, which the code logs; \<open>StoreRaised\<close> is a store exception passed on.\<close>

datatype driveExit = Settled | Released | LostLease | Abandoned | DidNotSettle | StoreRaised

definition leaseOf :: "orchestratorConfig \<Rightarrow> string \<Rightarrow> int \<Rightarrow> sagaClaim" where
  "leaseOf cfg owner now = \<lparr>clOwner = owner, clNow = now, clLeaseMs = leaseMs cfg\<rparr>"

definition orElse :: "'a option \<Rightarrow> 'a \<Rightarrow> 'a" where
  "orElse x y = (case x of Some z \<Rightarrow> z | None \<Rightarrow> y)"

definition abandonSaga :: "'s sagaStoreOps \<Rightarrow> int \<Rightarrow> sagaInstance \<Rightarrow> string \<Rightarrow> 's
    \<Rightarrow> driveExit \<times> sagaInstance \<times> 's" where
  "abandonSaga ops now record reason s =
     (case opAbandon ops now (siId record) STUCK (truncateError reason) s of
        None \<Rightarrow> (StoreRaised, record, s)
      | Some s' \<Rightarrow> (Abandoned, orElse (opFind ops s' (siId record)) record, s'))"

fun driveLoop :: "'s sagaStoreOps \<Rightarrow> orchestratorConfig \<Rightarrow> (nat \<Rightarrow> tick \<times> rivalOp list)
    \<Rightarrow> 'w sagaDefinition \<Rightarrow> string \<Rightarrow> nat \<Rightarrow> sagaInstance \<Rightarrow> 's \<Rightarrow> 'w
    \<Rightarrow> driveExit \<times> sagaInstance \<times> 's \<times> 'w" where
  "driveLoop ops cfg env d owner 0 current s w = (DidNotSettle, current, s, w)"
| "driveLoop ops cfg env d owner (Suc left) current s w =
     (if isTerminal (siStatus current) then (Settled, current, s, w)
      else let (t, rivals) = env left; (outcome, w') = stepOnce cfg t d current w;
               s1 = rivalSteps ops rivals s in
        case outcome of
          Inl e \<Rightarrow>
            (let (exit, r, s2) = abandonSaga ops (tkSaveNow t) current (resumeMessage current d e) s1
             in (exit, r, s2, w'))
        | Inr p \<Rightarrow>
            (case opSave ops (siId current) (leaseOf cfg owner (tkSaveNow t)) p s1 of
               (None, s2) \<Rightarrow> (LostLease, orElse (opFind ops s2 (siId current)) current, s2, w')
             | (Some saved, s2) \<Rightarrow>
                 (if spRelease p then (Released, saved, s2, w')
                  else driveLoop ops cfg env d owner left saved s2 w')))"

definition drive :: "'s sagaStoreOps \<Rightarrow> orchestratorConfig \<Rightarrow> (nat \<Rightarrow> tick \<times> rivalOp list)
    \<Rightarrow> 'w sagaRegistry \<Rightarrow> string \<Rightarrow> sagaInstance \<Rightarrow> 's \<Rightarrow> 'w
    \<Rightarrow> driveExit \<times> sagaInstance \<times> 's \<times> 'w" where
  "drive ops cfg env reg owner claimed s w =
     (case reg (siName claimed) of
        None \<Rightarrow>
          (let (exit, r, s') = abandonSaga ops (tkSaveNow (fst (env 0))) claimed
                 (''no definition named \"'' @ siName claimed @ ''\" is registered'') s
           in (exit, r, s', w))
      | Some d \<Rightarrow> driveLoop ops cfg env d owner (length (steps d) * 2 + 2) claimed s w)"

definition advance :: "'s sagaStoreOps \<Rightarrow> orchestratorConfig \<Rightarrow> (nat \<Rightarrow> tick \<times> rivalOp list)
    \<Rightarrow> 'w sagaRegistry \<Rightarrow> string \<Rightarrow> int \<Rightarrow> string \<Rightarrow> 's \<Rightarrow> 'w
    \<Rightarrow> (driveExit \<times> sagaInstance) option \<times> 's \<times> 'w" where
  "advance ops cfg env reg owner now i s w =
     (case opClaim ops i (leaseOf cfg owner now) s of
        (None, s') \<Rightarrow> (map_option (Pair LostLease) (opFind ops s' i), s', w)
      | (Some claimed, s') \<Rightarrow>
          (let (e, r, s'', w') = drive ops cfg env reg owner claimed s' w in (Some (e, r), s'', w')))"

definition startSaga :: "'s sagaStoreOps \<Rightarrow> 'w sagaRegistry \<Rightarrow> int \<Rightarrow> newSagaInstance \<Rightarrow> 's
    \<Rightarrow> unknownSaga + (sagaInstance \<times> 's) option" where
  "startSaga ops reg now inst s =
     (case requireSaga reg (niName inst) of
        Inl e \<Rightarrow> Inl e
      | Inr _ \<Rightarrow> Inr (opCreate ops now inst s))"

section \<open>The instance invariant\<close>

definition stepNames :: "'w sagaDefinition \<Rightarrow> string list" where
  "stepNames d = map stepName (steps d)"

text \<open>An entry by which the unwinding moved past a step, with whether it was undone or had nothing to undo.\<close>

definition isBackwardDone :: "sagaStepLogEntry \<Rightarrow> bool" where
  "isBackwardDone item \<longleftrightarrow> leDirection item = Backward \<and> leOutcome item \<noteq> Failed"

definition forwardDone :: "sagaInstance \<Rightarrow> string list" where
  "forwardDone r = map leStep (filter isForwardDone (siLog r))"

definition backwardDone :: "sagaInstance \<Rightarrow> (string \<times> sagaOutcome) list" where
  "backwardDone r = map (\<lambda>e. (leStep e, leOutcome e)) (filter isBackwardDone (siLog r))"

definition unwound :: "'w sagaStep \<Rightarrow> string \<times> sagaOutcome" where
  "unwound step = (stepName step, if stepKind step = KCompensatable then Completed else Skipped)"

definition lastFailure :: "sagaInstance \<Rightarrow> string option" where
  "lastFailure r = map_option leStep (find isForwardFailure (rev (siLog r)))"

text \<open>
  The log of an instance that turned around at step \<open>f\<close>: the steps before it completed, its own
  failure is the last forward one, and from it back to the cursor every compensatable step has been
  undone and every other one skipped, in reverse order.
\<close>

definition unwinding :: "'w sagaDefinition \<Rightarrow> nat \<Rightarrow> sagaInstance \<Rightarrow> bool" where
  "unwinding d f r \<longleftrightarrow>
     f < length (steps d) \<and> stepKind (steps d ! f) \<noteq> KRetriable
     \<and> -1 \<le> siCursor r \<and> siCursor r \<le> int f
     \<and> forwardDone r = take f (stepNames d)
     \<and> backwardDone r = map unwound (rev (drop (nat (siCursor r + 1)) (take (f + 1) (steps d))))
     \<and> lastFailure r = Some (stepNames d ! f)"

text \<open>
  An instance that is stuck because the step at its cursor failed for good: the failure is the last
  entry of its log, with the attempt it was and the message the row reports.
\<close>

definition stuckAt :: "sagaDirection \<Rightarrow> 'w sagaDefinition \<Rightarrow> sagaInstance \<Rightarrow> bool" where
  "stuckAt direction d r \<longleftrightarrow> siLog r \<noteq> [] \<and> leStep (last (siLog r)) = stepName (steps d ! nat (siCursor r))
     \<and> leDirection (last (siLog r)) = direction \<and> leOutcome (last (siLog r)) = Failed
     \<and> leAttempt (last (siLog r)) = siAttempts r \<and> siLastError r = leError (last (siLog r)) \<and> siLastError r \<noteq> None"

definition instanceOk :: "orchestratorConfig \<Rightarrow> 'w sagaDefinition \<Rightarrow> sagaInstance \<Rightarrow> bool" where
  "instanceOk cfg d r =
     (let n = length (steps d); tries = max 1 (maxAttempts (retryPolicy cfg)); c = siCursor r in
      case siStatus r of
        RUNNING \<Rightarrow> 0 \<le> c \<and> c < int n \<and> siAttempts r < tries
          \<and> forwardDone r = take (nat c) (stepNames d) \<and> backwardDone r = []
      | COMPLETED \<Rightarrow> c = int n \<and> forwardDone r = stepNames d \<and> backwardDone r = []
      | COMPENSATING \<Rightarrow> 0 \<le> c \<and> siAttempts r < tries \<and> (\<exists>f. unwinding d f r)
      | COMPENSATED \<Rightarrow> c = -1 \<and> (\<exists>f. unwinding d f r)
      | STUCK \<Rightarrow> 0 \<le> c \<and> c < int n \<and> siAttempts r \<le> tries
          \<and> (if backwardDone r = [] \<and> stepKind (steps d ! nat c) = KRetriable
             then forwardDone r = take (nat c) (stepNames d) \<and> stuckAt Forward d r
             else stepKind (steps d ! nat c) = KCompensatable \<and> (\<exists>f. unwinding d f r) \<and> stuckAt Backward d r))"

lemmas log_defs = forwardDone_def backwardDone_def lastFailure_def isForwardDone_def
  isBackwardDone_def isForwardFailure_def entryOf_def

lemma progressRow_fields [simp]:
  "siStatus (progressRow c p r) = spStatus p" "siCursor (progressRow c p r) = spCursor p"
  "siAttempts (progressRow c p r) = spAttempts p" "siLog (progressRow c p r) = siLog r @ [spEntry p]"
  "siName (progressRow c p r) = siName r" "siState (progressRow c p r) = spState p"
  "siLastError (progressRow c p r) = spLastError p"
  by (simp_all add: progressRow_def)

lemma leaseRow_fields [simp]:
  "siStatus (leaseRow c r) = siStatus r" "siCursor (leaseRow c r) = siCursor r"
  "siAttempts (leaseRow c r) = siAttempts r" "siLog (leaseRow c r) = siLog r"
  "siName (leaseRow c r) = siName r" "siLastError (leaseRow c r) = siLastError r"
  by (simp_all add: leaseRow_def)

lemma retryAt_SomeD: "retryAt cfg t a err = Some due \<Longrightarrow> a < maxAttempts (retryPolicy cfg)"
  by (cases err) (auto simp: retryAt_def nextAttemptAt_def nextAttemptDelayMs_def split: if_splits)

lemma resumeMismatch_None:
  "map leStep items = take (length items) (drop k (map stepName ss)) \<Longrightarrow> resumeMismatch ss k items = None"
proof (induction items arbitrary: k)
  case (Cons item items)
  then have "k < length ss" by (cases "k < length ss") auto
  then have "drop k (map stepName ss) = stepName (ss ! k) # drop (Suc k) (map stepName ss)"
    by (metis Cons_nth_drop_Suc length_map nth_map)
  with Cons \<open>k < length ss\<close> show ?case by simp
qed simp

lemma assertResumable_prefix:
  assumes "forwardDone r = take k (stepNames d)" shows "assertResumable d r = None"
proof -
  have "length (filter isForwardDone (siLog r)) = min (length (steps d)) k"
    using arg_cong [OF assms, of length] by (simp add: forwardDone_def stepNames_def)
  with assms show ?thesis
    unfolding assertResumable_def
    by (intro resumeMismatch_None) (simp add: forwardDone_def stepNames_def take_map min_def)
qed

section \<open>Every step preserves the invariant and makes progress\<close>

definition remainingSteps :: "'w sagaDefinition \<Rightarrow> sagaInstance \<Rightarrow> nat" where
  "remainingSteps d r =
     (case siStatus r of
        RUNNING \<Rightarrow> nat (int (length (steps d)) - siCursor r) + length (steps d) + 1
      | COMPENSATING \<Rightarrow> nat (siCursor r + 1)
      | _ \<Rightarrow> 0)"

definition stepFine :: "orchestratorConfig \<Rightarrow> 'w sagaDefinition \<Rightarrow> sagaInstance \<Rightarrow> sagaProgress \<Rightarrow> bool" where
  "stepFine cfg d r p \<longleftrightarrow> (\<forall>c. instanceOk cfg d (progressRow c p r))
     \<and> (\<not> spRelease p \<longrightarrow> \<not> isTerminal (spStatus p)
          \<and> (\<forall>c. remainingSteps d (progressRow c p r) < remainingSteps d r))"

lemma done_append [simp]:
  "siLog r' = siLog r @ [e] \<Longrightarrow> forwardDone r' = forwardDone r @ (if isForwardDone e then [leStep e] else [])"
  "siLog r' = siLog r @ [e] \<Longrightarrow> backwardDone r' = backwardDone r @ (if isBackwardDone e then [(leStep e, leOutcome e)] else [])"
  "siLog r' = siLog r @ [e] \<Longrightarrow> lastFailure r' = (if isForwardFailure e then Some (leStep e) else lastFailure r)"
  by (simp_all add: forwardDone_def backwardDone_def lastFailure_def)

lemma done_progress [simp]:
  "forwardDone (progressRow c p r) = forwardDone r @ (if isForwardDone (spEntry p) then [leStep (spEntry p)] else [])"
  "backwardDone (progressRow c p r) = backwardDone r @ (if isBackwardDone (spEntry p) then [(leStep (spEntry p), leOutcome (spEntry p))] else [])"
  "lastFailure (progressRow c p r) = (if isForwardFailure (spEntry p) then Some (leStep (spEntry p)) else lastFailure r)"
  by (simp_all add: done_append [of _ r "spEntry p"])

lemma entryOf_kinds [simp]:
  "isForwardDone (entryOf s dir out a t e) \<longleftrightarrow> dir = Forward \<and> out = Completed"
  "isBackwardDone (entryOf s dir out a t e) \<longleftrightarrow> dir = Backward \<and> out \<noteq> Failed"
  "isForwardFailure (entryOf s dir out a t e) \<longleftrightarrow> dir = Forward \<and> out = Failed"
  "leStep (entryOf s dir out a t e) = s" "leOutcome (entryOf s dir out a t e) = out"
  "leDirection (entryOf s dir out a t e) = dir" "leAttempt (entryOf s dir out a t e) = a"
  by (simp_all add: log_defs)

lemma stuckAt_progress:
  assumes "siCursor r = int k" and "spCursor p = int k" and "spAttempts p = siAttempts r + 1"
    and "spEntry p = entryOf (stepName (steps d ! k)) dir Failed (siAttempts r + 1) t (Some err)"
    and "spLastError p = Some (truncateError (errorMessage err))"
  shows "stuckAt dir d (progressRow c p r)"
  using assms by (simp add: stuckAt_def entryOf_def)

lemma length_stepNames [simp]: "length (stepNames d) = length (steps d)"
  by (simp add: stepNames_def)

lemma stepNames_nth: "k < length (steps d) \<Longrightarrow> stepNames d ! k = stepName (steps d ! k)"
  by (simp add: stepNames_def)

lemma executeStep_fine:
  assumes ok: "instanceOk cfg d r" and run: "siStatus r = RUNNING"
    and step: "indexed (steps d) (siCursor r) = Some step"
    and ex: "executeStep cfg t d r step w = (p, w')"
  shows "stepFine cfg d r p"
proof -
  from step obtain k where k: "siCursor r = int k" "k < length (steps d)" "step = steps d ! k"
    by (auto simp: indexed_def split: if_splits intro!: that [of "nat (siCursor r)"])
  have inv: "forwardDone r = take k (stepNames d)" "backwardDone r = []"
    using ok run k by (auto simp: instanceOk_def)
  have name: "take k (stepNames d) @ [stepName step] = take (Suc k) (stepNames d)"
    using k by (simp add: take_Suc_conv_app_nth stepNames_nth)
  obtain answer where answer: "callStep cfg t (stepName step) (execute step (contextOf r step None)) w
      = (answer, w')"
    using ex by (auto simp: executeStep_def Let_def split: prod.splits sum.splits option.splits if_splits)
  show ?thesis
  proof (cases answer)
    case (Inr patch)
    then have "p = \<lparr>spStatus = (if k + 1 = length (steps d) then COMPLETED else RUNNING),
        spCursor = int k + 1, spAttempts = 0, spNextAttemptAt = tkNow t,
        spState = mergeState (siState r) patch,
        spEntry = entryOf (stepName step) Forward Completed (siAttempts r + 1) (tkNow t) None,
        spLastError = siLastError r, spRelease = (k + 1 = length (steps d))\<rparr>"
      using ex answer k(1,2) by (auto simp: executeStep_def Let_def)
    with inv name k show ?thesis
      by (auto simp: stepFine_def instanceOk_def remainingSteps_def isTerminal_def run nat_add_distrib)
  next
    case (Inl err)
    show ?thesis
    proof (cases "retryAt cfg t (siAttempts r + 1) err")
      case (Some due)
      with ex answer Inl have "spStatus p = RUNNING \<and> spCursor p = int k \<and> spRelease p
          \<and> spAttempts p = siAttempts r + 1
          \<and> spEntry p = entryOf (stepName step) Forward Failed (siAttempts r + 1) (tkNow t) (Some err)"
        by (auto simp: executeStep_def Let_def k(1))
      with inv k retryAt_SomeD [OF Some] show ?thesis
        by (simp add: stepFine_def instanceOk_def)
    next
      case None
      with ex answer Inl have "spCursor p = int k
          \<and> spEntry p = entryOf (stepName step) Forward Failed (siAttempts r + 1) (tkNow t) (Some err)
          \<and> (if stepKind step = KRetriable then spStatus p = STUCK \<and> spRelease p \<and> spAttempts p = siAttempts r + 1
               \<and> spLastError p = Some (truncateError (errorMessage err))
             else spStatus p = COMPENSATING \<and> spAttempts p = 0)"
        by (auto simp: executeStep_def Let_def k(1))
      moreover have "siAttempts r < max 1 (maxAttempts (retryPolicy cfg))"
        using ok run by (simp add: instanceOk_def Let_def)
      ultimately show ?thesis
        using inv k
        by (auto simp: stepFine_def instanceOk_def remainingSteps_def isTerminal_def run unwinding_def
            stepNames_nth nat_add_distrib split: if_splits intro!: exI [of _ k] stuckAt_progress)
    qed
  qed
qed

lemma compensateStep_cases:
  assumes "compensateStep cfg t d r step w = (p, w')"
  obtains (moved) "spStatus p = (if siCursor r - 1 < 0 then COMPENSATED else COMPENSATING)"
      "spCursor p = siCursor r - 1" "spAttempts p = 0" "isBackwardDone (spEntry p)"
      "\<not> isForwardDone (spEntry p)" "\<not> isForwardFailure (spEntry p)"
      "(leStep (spEntry p), leOutcome (spEntry p)) = unwound step" "spRelease p = (siCursor r - 1 < 0)"
  | (retried) due err where "retryAt cfg t (siAttempts r + 1) err = Some due"
      "spStatus p = COMPENSATING" "spCursor p = siCursor r" "spAttempts p = siAttempts r + 1"
      "\<not> isBackwardDone (spEntry p)" "\<not> isForwardDone (spEntry p)" "\<not> isForwardFailure (spEntry p)"
      "spRelease p"
  | (stuck) err where "stepKind step = KCompensatable" "spStatus p = STUCK" "spCursor p = siCursor r"
      "spAttempts p = siAttempts r + 1" "spRelease p" "spLastError p = Some (truncateError (errorMessage err))"
      "spEntry p = entryOf (stepName step) Backward Failed (siAttempts r + 1) (tkNow t) (Some err)"
proof (cases "\<exists>name ex undo. step = Compensatable name ex undo")
  case True
  then obtain name ex undo where step: "step = Compensatable name ex undo" by blast
  obtain answer v where call: "callStep cfg t name
      (undo (contextOf r step (Some (failureFrom d r)))) w = (answer, v)"
    by fastforce
  show thesis
  proof (cases answer)
    case (Inr u)
    with assms step call show ?thesis
      by (intro moved) (auto simp: compensateStep_def Let_def unwound_def)
  next
    case (Inl err)
    show ?thesis
    proof (cases "retryAt cfg t (siAttempts r + 1) err")
      case None
      with assms step call Inl show ?thesis
        by (intro stuck [of err]) (auto simp: compensateStep_def Let_def)
    next
      case (Some due)
      with assms step call Inl show ?thesis
        by (intro retried [of err due]) (auto simp: compensateStep_def Let_def)
    qed
  qed
next
  case False
  with assms show thesis
    by (intro moved) (auto simp: compensateStep_def Let_def unwound_def split: sagaStep.splits)
qed

lemma unwinding_moved:
  assumes "unwinding d f r" and "siCursor r = int k"
    and "siCursor r' = int k - 1" and "forwardDone r' = forwardDone r" and "lastFailure r' = lastFailure r"
    and "backwardDone r' = backwardDone r @ [unwound (steps d ! k)]"
  shows "unwinding d f r'"
proof -
  have "k \<le> f" "f < length (steps d)" using assms(1,2) by (auto simp: unwinding_def)
  then have "drop k (take (f + 1) (steps d))
      = steps d ! k # drop (Suc k) (take (f + 1) (steps d))"
    by (subst Cons_nth_drop_Suc [symmetric]) auto
  with assms show ?thesis by (auto simp: unwinding_def nat_add_distrib)
qed

lemma unwinding_kinds:
  assumes "wellDefined d" and "unwinding d f r" and "siCursor r = int k"
  shows "k < length (steps d)" and "stepKind (steps d ! k) \<noteq> KRetriable"
  using assms before_non_retriable [OF assms(1), of f k]
  by (auto simp: unwinding_def le_less)

lemma compensateStep_fine:
  assumes ok: "instanceOk cfg d r" and st: "siStatus r = COMPENSATING"
    and step: "indexed (steps d) (siCursor r) = Some step"
    and ex: "compensateStep cfg t d r step w = (p, w')"
  shows "stepFine cfg d r p"
proof -
  from step obtain k where k: "siCursor r = int k" "k < length (steps d)" "step = steps d ! k"
    by (auto simp: indexed_def split: if_splits intro!: that [of "nat (siCursor r)"])
  obtain f where f: "unwinding d f r" and tries: "siAttempts r < max 1 (maxAttempts (retryPolicy cfg))"
    using ok st by (auto simp: instanceOk_def Let_def)
  from ex show ?thesis
  proof (cases rule: compensateStep_cases)
    case moved
    have "unwinding d f (progressRow c p r)" for c
      by (rule unwinding_moved [OF f k(1)]) (simp_all add: moved k stepNames_nth)
    then have "\<exists>f. unwinding d f (progressRow c p r)" for c by blast
    then show ?thesis
      by (simp add: stepFine_def instanceOk_def remainingSteps_def isTerminal_def st moved k
          less_max_iff_disj nat_add_distrib)
  next
    case retried
    have "unwinding d f (progressRow c p r)" for c
      using f by (simp add: unwinding_def retried)
    then have "\<exists>f. unwinding d f (progressRow c p r)" for c by blast
    with retryAt_SomeD [OF retried(1)] show ?thesis
      by (simp add: stepFine_def instanceOk_def retried k)
  next
    case stuck
    have "unwinding d f (progressRow c p r)" for c
      using f by (simp add: unwinding_def stuck)
    then have "\<exists>f. unwinding d f (progressRow c p r)" for c by blast
    moreover have "stuckAt Backward d (progressRow c p r)" for c
      by (rule stuckAt_progress [OF k(1)]) (use stuck k in simp_all)
    ultimately show ?thesis
      using tries stuck(1-5) k by (simp add: stepFine_def instanceOk_def stuck(7))
  qed
qed

lemma stepOnce_fine:
  assumes "wellDefined d" and "instanceOk cfg d r" and "\<not> isTerminal (siStatus r)"
  obtains p w' where "stepOnce cfg t d r w = (Inr p, w')" and "stepFine cfg d r p"
proof -
  have c: "0 \<le> siCursor r" "siCursor r < int (length (steps d))"
    and "\<exists>k. forwardDone r = take k (stepNames d)"
    using assms(2,3)
    by (auto simp: instanceOk_def Let_def isTerminal_def unwinding_def split: sagaStatus.splits)
  then have "assertResumable d r = None" by (auto intro: assertResumable_prefix)
  moreover obtain step where step: "indexed (steps d) (siCursor r) = Some step"
    using c by (simp add: indexed_def)
  moreover obtain p w' where run: "(if siStatus r = COMPENSATING then compensateStep cfg t d r step w
      else executeStep cfg t d r step w) = (p, w')"
    by fastforce
  moreover have "stepFine cfg d r p"
    using assms(3) run executeStep_fine [OF assms(2) _ step] compensateStep_fine [OF assms(2) _ step]
    by (cases "siStatus r") (auto simp: isTerminal_def)
  ultimately show thesis by (intro that [of p w']) (auto simp: stepOnce_def)
qed

section \<open>Driving always ends, under interference\<close>

text \<open>Other runners act under their own owner tokens; tokens are fresh UUIDs.\<close>

fun rivalOf :: "string \<Rightarrow> rivalOp \<Rightarrow> bool" where
  "rivalOf owner (RivalClaim i c) = (clOwner c \<noteq> owner)"
| "rivalOf owner (RivalSave i c p) = (clOwner c \<noteq> owner)"
| "rivalOf owner _ = True"

definition heldBy :: "string \<Rightarrow> (string \<rightharpoonup> sagaInstance) \<Rightarrow> string \<Rightarrow> sagaInstance option" where
  "heldBy owner m i = (case m i of Some r \<Rightarrow> (if siLockedBy r = Some owner then Some r else None) | None \<Rightarrow> None)"

lemma instanceOk_lease [simp]: "instanceOk cfg d (leaseRow c r) = instanceOk cfg d r"
proof -
  have "forwardDone (leaseRow c r) = forwardDone r" "backwardDone (leaseRow c r) = backwardDone r"
    "lastFailure (leaseRow c r) = lastFailure r"
    by (simp_all add: forwardDone_def backwardDone_def lastFailure_def)
  then show ?thesis by (simp add: instanceOk_def unwinding_def stuckAt_def cong: sagaStatus.case_cong)
qed

lemma remainingSteps_bound:
  "instanceOk cfg d r \<Longrightarrow> remainingSteps d r < length (steps d) * 2 + 2"
  by (auto simp: instanceOk_def remainingSteps_def Let_def unwinding_def split: sagaStatus.splits)

context saga_store
begin

lemma rivalStep_fenced:
  assumes "invar s" and "rivalOf owner x"
  shows "invar (rivalStep ops x s)"
    and "heldBy owner (opFind ops (rivalStep ops x s)) i = Some r \<Longrightarrow> opFind ops s i = Some r"
proof -
  have "invar (rivalStep ops x s) \<and>
    (heldBy owner (opFind ops (rivalStep ops x s)) i = Some r \<longrightarrow> opFind ops s i = Some r)"
  proof (cases x)
    case (RivalClaim j c)
    with assms show ?thesis
      by (auto simp: claim_invar claim_find claimSpec_def heldBy_def leaseRow_def
          split: option.splits if_splits)
  next
    case (RivalSave j c p)
    with assms show ?thesis
      by (auto simp: save_invar save_find saveSpec_def heldBy_def progressRow_def
          split: option.splits if_splits)
  next
    case (RivalAbandon now j reason)
    show ?thesis
    proof (cases "opFind ops s j")
      case None
      from abandon_missing [OF assms(1) this, of now STUCK reason] RivalAbandon assms(1) show ?thesis
        by (auto simp: heldBy_def split: option.splits if_splits)
    next
      case (Some r0)
      from abandon_row [OF assms(1) this, of now STUCK reason] RivalAbandon show ?thesis
        by (auto simp: heldBy_def abandonRow_def split: option.splits if_splits)
    qed
  next
    case (RivalCreate now inst)
    with create_row [OF assms(1), of inst now] assms(1) show ?thesis
      by (cases "opFind ops s (niId inst)")
        (auto simp: heldBy_def freshRow_def split: option.splits if_splits)
  qed
  then show "invar (rivalStep ops x s)"
    and "heldBy owner (opFind ops (rivalStep ops x s)) i = Some r \<Longrightarrow> opFind ops s i = Some r"
    by auto
qed

lemma rivalSteps_fenced:
  assumes "invar s" and "list_all (rivalOf owner) xs"
  shows "invar (rivalSteps ops xs s)
    \<and> (heldBy owner (opFind ops (rivalSteps ops xs s)) i = Some r \<longrightarrow> opFind ops s i = Some r)"
  using assms
proof (induction xs arbitrary: s)
  case (Cons x xs)
  then have ih: "invar (rivalSteps ops xs (rivalStep ops x s))"
    "heldBy owner (opFind ops (rivalSteps ops xs (rivalStep ops x s))) i = Some r \<Longrightarrow>
       opFind ops (rivalStep ops x s) i = Some r"
    using rivalStep_fenced(1) [of s owner x] by auto
  moreover have "siLockedBy r = Some owner"
    if "heldBy owner (opFind ops (rivalSteps ops xs (rivalStep ops x s))) i = Some r"
    using that by (auto simp: heldBy_def split: option.splits if_splits)
  ultimately show ?case
    using rivalStep_fenced(2) [of s owner x i r] Cons.prems
    by (auto simp: rivalSteps_def heldBy_def)
qed (auto simp: rivalSteps_def heldBy_def split: option.splits if_splits)

text \<open>A runner that still holds the row writes onto the record it computed from.\<close>

lemma save_after_rivals:
  assumes "invar s" and "opFind ops s (siId r) = Some r" and "list_all (rivalOf (clOwner c)) xs"
    and "opSave ops (siId r) c p (rivalSteps ops xs s) = (saved, s2)"
  shows "invar s2"
    and "saved = Some r' \<Longrightarrow> r' = progressRow c p r \<and> opFind ops s2 (siId r) = Some r'"
proof -
  let ?s1 = "rivalSteps ops xs s"
  have inv: "invar ?s1" using rivalSteps_fenced [OF assms(1,3)] by blast
  show "invar s2" using save_invar [OF inv, of "siId r" c p] assms(4) by simp
  show "r' = progressRow c p r \<and> opFind ops s2 (siId r) = Some r'" if "saved = Some r'"
  proof -
    from that assms(4) save_refines [OF inv, of "siId r" c p]
    have "saveSpec (siId r) c p (opFind ops ?s1) = (Some r', opFind ops s2)" by simp
    then obtain r1 where "opFind ops ?s1 (siId r) = Some r1" "siLockedBy r1 = Some (clOwner c)"
      and r': "r' = progressRow c p r1" "opFind ops s2 = (opFind ops ?s1)(siId r \<mapsto> r')"
      by (auto simp: saveSpec_def split: option.splits if_splits)
    then have "opFind ops s (siId r) = Some r1"
      using rivalSteps_fenced [OF assms(1,3), of "siId r" r1] by (simp add: heldBy_def)
    with r' assms(2) show ?thesis by simp
  qed
qed

lemma driveLoop_ends:
  assumes "wellDefined d" and "\<And>k. list_all (rivalOf owner) (snd (env k))"
    and "invar s" and "opFind ops s (siId r) = Some r" and "instanceOk cfg d r"
    and "\<not> isTerminal (siStatus r)" and "remainingSteps d r < left"
    and "driveLoop ops cfg env d owner left r s w = (e, r', s', w')"
  shows "invar s' \<and> (e = Released \<and> instanceOk cfg d r' \<and> opFind ops s' (siId r) = Some r' \<or> e = LostLease)"
  using assms(3-8)
proof (induction left arbitrary: r s w)
  case (Suc left)
  obtain t xs where env: "env left = (t, xs)" by fastforce
  obtain p v where step: "stepOnce cfg t d r w = (Inr p, v)" and fine: "stepFine cfg d r p"
    using stepOnce_fine [OF assms(1) Suc.prems(3,4)] by blast
  define c where "c = leaseOf cfg owner (tkSaveNow t)"
  obtain saved s2 where save: "opSave ops (siId r) c p (rivalSteps ops xs s) = (saved, s2)" by fastforce
  have owner: "clOwner c = owner" by (simp add: c_def leaseOf_def)
  have "list_all (rivalOf (clOwner c)) xs" using assms(2) [of left] env owner by simp
  note saved = save_after_rivals [OF Suc.prems(1,2) this save]
  have unfold: "driveLoop ops cfg env d owner (Suc left) r s w =
      (case saved of None \<Rightarrow> (LostLease, orElse (opFind ops s2 (siId r)) r, s2, v)
       | Some q \<Rightarrow> (if spRelease p then (Released, q, s2, v) else driveLoop ops cfg env d owner left q s2 v))"
    using Suc.prems(4) env step save by (simp add: Let_def c_def split: option.splits)
  show ?case
  proof (cases saved)
    case None
    with unfold Suc.prems(6) saved(1) show ?thesis by simp
  next
    case (Some q)
    then have q: "q = progressRow c p r" "opFind ops s2 (siId r) = Some q" using saved(2) by auto
    have ok: "instanceOk cfg d q" using fine q(1) by (simp add: stepFine_def)
    show ?thesis
    proof (cases "spRelease p")
      case True
      with unfold Some Suc.prems(6) saved(1) q ok show ?thesis by simp
    next
      case False
      then have "\<not> isTerminal (siStatus q)" "remainingSteps d q < left"
        using fine Suc.prems(5) by (auto simp: stepFine_def q(1) intro: less_le_trans)
      moreover have "siId q = siId r" using q(1) by simp
      ultimately show ?thesis
        using Suc.IH [of s2 q v] False unfold Some Suc.prems(6) saved(1) q(2) ok by simp
    qed
  qed
qed simp

end

section \<open>Many runners\<close>

text \<open>
  The whole system: any number of processes run \<open>start\<close>, \<open>advance\<close> and recovery passes against one
  store. A runner is an owner token and the instance it claimed; it holds the record it last read
  and, between the step and the save, the progress it is about to write. Claims, steps, saves and
  crashes of different runners interleave arbitrarily; clocks and draws are arbitrary. A recovery
  pass that claims a batch is one claim after the other at one time. \<open>sysAbandoned\<close> lists the
  instances a runner gave up on because it could not run them.
\<close>

record ('s, 'w) sagaSystem =
  sysStore :: 's
  sysWorld :: 'w
  sysView :: "string \<times> string \<rightharpoonup> sagaInstance"
  sysPending :: "string \<times> string \<rightharpoonup> sagaProgress"
  sysAbandoned :: "string list"

inductive sagaSys :: "'s sagaStoreOps \<Rightarrow> orchestratorConfig \<Rightarrow> 'w sagaRegistry
    \<Rightarrow> ('s, 'w) sagaSystem \<Rightarrow> ('s, 'w) sagaSystem \<Rightarrow> bool"
  for ops cfg reg where
  Start: "\<lbrakk>opFind ops (sysStore y) (niId inst) = None;
      startSaga ops reg now inst (sysStore y) = Inr (Some (r, s'))\<rbrakk>
    \<Longrightarrow> sagaSys ops cfg reg y (y\<lparr>sysStore := s'\<rparr>)"
| Claim: "opClaim ops i (leaseOf cfg owner now) (sysStore y) = (Some r, s')
    \<Longrightarrow> sagaSys ops cfg reg y (y\<lparr>sysStore := s', sysView := (sysView y)((owner, i) \<mapsto> r),
          sysPending := (sysPending y)((owner, i) := None)\<rparr>)"
| Work: "\<lbrakk>sysView y (owner, i) = Some r; sysPending y (owner, i) = None;
      \<not> isTerminal (siStatus r); reg (siName r) = Some d;
      stepOnce cfg t d r (sysWorld y) = (Inr p, w')\<rbrakk>
    \<Longrightarrow> sagaSys ops cfg reg y (y\<lparr>sysWorld := w', sysPending := (sysPending y)((owner, i) \<mapsto> p)\<rparr>)"
| Save: "\<lbrakk>sysView y (owner, i) = Some r; sysPending y (owner, i) = Some p;
      opSave ops i (leaseOf cfg owner now) p (sysStore y) = (saved, s')\<rbrakk>
    \<Longrightarrow> sagaSys ops cfg reg y (y\<lparr>sysStore := s',
          sysView := (sysView y)((owner, i) := (if spRelease p then None else saved)),
          sysPending := (sysPending y)((owner, i) := None)\<rparr>)"
| Unrunnable: "\<lbrakk>sysView y (owner, i) = Some r; sysPending y (owner, i) = None;
      \<not> isTerminal (siStatus r);
      reg (siName r) = None \<or>
        (\<exists>d e w'. reg (siName r) = Some d \<and> stepOnce cfg t d r (sysWorld y) = (Inl e, w'));
      opAbandon ops now i STUCK reason (sysStore y) = Some s'\<rbrakk>
    \<Longrightarrow> sagaSys ops cfg reg y (y\<lparr>sysStore := s', sysView := (sysView y)((owner, i) := None),
          sysAbandoned := i # sysAbandoned y\<rparr>)"
| Crash: "sagaSys ops cfg reg y (y\<lparr>sysView := (sysView y)((owner, i) := None),
          sysPending := (sysPending y)((owner, i) := None)\<rparr>)"

abbreviation emptySystem :: "'s \<Rightarrow> 'w \<Rightarrow> ('s, 'w) sagaSystem" where
  "emptySystem s w \<equiv> \<lparr>sysStore = s, sysWorld = w, sysView = Map.empty, sysPending = Map.empty, sysAbandoned = []\<rparr>"

definition registryOk :: "'w sagaRegistry \<Rightarrow> bool" where
  "registryOk reg \<longleftrightarrow> (\<forall>d \<in> ran reg. wellDefined d)"

definition rowOk :: "orchestratorConfig \<Rightarrow> 'w sagaRegistry \<Rightarrow> sagaInstance \<Rightarrow> bool" where
  "rowOk cfg reg r \<longleftrightarrow> (\<exists>d. reg (siName r) = Some d \<and> instanceOk cfg d r)"

definition systemOk :: "'s sagaStoreOps \<Rightarrow> ('s \<Rightarrow> bool) \<Rightarrow> orchestratorConfig \<Rightarrow> 'w sagaRegistry
    \<Rightarrow> ('s, 'w) sagaSystem \<Rightarrow> bool" where
  "systemOk ops invar cfg reg y \<longleftrightarrow>
     invar (sysStore y)
     \<and> (\<forall>r \<in> ran (opFind ops (sysStore y)). rowOk cfg reg r)
     \<and> (\<forall>owner i r. sysView y (owner, i) = Some r \<longrightarrow> rowOk cfg reg r
          \<and> (\<forall>r'. heldBy owner (opFind ops (sysStore y)) i = Some r' \<longrightarrow> r' = r))
     \<and> (\<forall>owner i p. sysPending y (owner, i) = Some p \<longrightarrow>
          (\<exists>r d. sysView y (owner, i) = Some r \<and> reg (siName r) = Some d \<and> stepFine cfg d r p))"

lemma rowOk_lease [simp]: "rowOk cfg reg (leaseRow c r) = rowOk cfg reg r"
  by (simp add: rowOk_def)

lemma rowOk_fresh:
  assumes "registryOk reg" and "reg (niName inst) \<noteq> None"
  shows "rowOk cfg reg (freshRow now inst)"
proof -
  from assms obtain d where d: "reg (niName inst) = Some d" "wellDefined d"
    by (auto simp: registryOk_def ran_def)
  then have "0 < length (steps d)" by (auto simp: wellDefined_def)
  with d(1) show ?thesis
    by (simp add: rowOk_def freshRow_def instanceOk_def forwardDone_def backwardDone_def
        less_max_iff_disj)
qed

context saga_store
begin

lemma systemOk_rows:
  assumes "systemOk ops invar cfg reg y"
  shows "invar (sysStore y)" and "opFind ops (sysStore y) i = Some r \<Longrightarrow> rowOk cfg reg r"
    and "sysView y (owner, i) = Some r \<Longrightarrow> rowOk cfg reg r"
    and "sysView y (owner, i) = Some r \<Longrightarrow> heldBy owner (opFind ops (sysStore y)) i = Some r' \<Longrightarrow> r' = r"
    and "sysPending y (owner, i) = Some p \<Longrightarrow>
      \<exists>r d. sysView y (owner, i) = Some r \<and> reg (siName r) = Some d \<and> stepFine cfg d r p"
  using assms unfolding systemOk_def by (blast intro: ranI)+

lemma systemOkI:
  assumes "invar (sysStore y)" and "\<And>i r. opFind ops (sysStore y) i = Some r \<Longrightarrow> rowOk cfg reg r"
    and "\<And>owner i r. sysView y (owner, i) = Some r \<Longrightarrow> rowOk cfg reg r"
    and "\<And>owner i r r'. sysView y (owner, i) = Some r \<Longrightarrow>
      heldBy owner (opFind ops (sysStore y)) i = Some r' \<Longrightarrow> r' = r"
    and "\<And>owner i p. sysPending y (owner, i) = Some p \<Longrightarrow>
      \<exists>r d. sysView y (owner, i) = Some r \<and> reg (siName r) = Some d \<and> stepFine cfg d r p"
  shows "systemOk ops invar cfg reg y"
  using assms unfolding systemOk_def ran_def by blast

text \<open>
  A write to row \<open>j\<close> keeps the system well formed when the new row is, and no runner but \<open>o'\<close>
  appears to hold it.
\<close>

lemma systemOk_write:
  assumes "systemOk ops invar cfg reg y" and "invar s'"
    and "opFind ops s' = (opFind ops (sysStore y))(j \<mapsto> q)" and "rowOk cfg reg q"
    and "\<And>owner. siLockedBy q = Some owner \<Longrightarrow> view (owner, j) \<in> {None, Some q}"
    and "\<And>owner i. (owner, i) \<noteq> (o', j) \<Longrightarrow> view (owner, i) = sysView y (owner, i)"
    and "view (o', j) \<in> {None, Some q}"
  shows "systemOk ops invar cfg reg (y\<lparr>sysStore := s', sysView := view,
      sysPending := (sysPending y)((o', j) := None)\<rparr>)"
proof -
  have view: "rowOk cfg reg r \<and> (heldBy owner (opFind ops s') i = Some r' \<longrightarrow> r' = r)"
    if v: "view (owner, i) = Some r" for owner i r r'
  proof (cases "(owner, i) = (o', j)")
    case True
    with v assms(3,4,7) show ?thesis by (auto simp: heldBy_def)
  next
    case False
    then have old: "sysView y (owner, i) = Some r" using v assms(6) by simp
    show ?thesis
    proof (cases "i = j")
      case True
      then show ?thesis
        using v assms(3) assms(5) [of owner] systemOk_rows(3) [OF assms(1) old] by (auto simp: heldBy_def)
    next
      case False
      then show ?thesis
        using assms(3) systemOk_rows(3,4) [OF assms(1) old] by (simp add: heldBy_def)
    qed
  qed
  show ?thesis
  proof (rule systemOkI, goal_cases)
    case (2 i r)
    then show ?case using systemOk_rows(2) [OF assms(1), of i r] assms(3,4) by (simp split: if_splits)
  next
    case (5 owner i p)
    then have "(owner, i) \<noteq> (o', j)" "sysPending y (owner, i) = Some p" by (auto split: if_splits)
    then show ?case using systemOk_rows(5) [OF assms(1)] assms(6) [of owner i] by simp
  qed (use assms(2) view in \<open>simp_all\<close>)
qed

lemma sagaSys_start:
  assumes "systemOk ops invar cfg reg y" and "registryOk reg"
    and "opFind ops (sysStore y) (niId inst) = None"
    and "startSaga ops reg now inst (sysStore y) = Inr (Some (r, s'))"
  shows "systemOk ops invar cfg reg (y\<lparr>sysStore := s'\<rparr>)"
proof -
  have reg: "reg (niName inst) \<noteq> None" and c: "opCreate ops now inst (sysStore y) = Some (r, s')"
    using assms(4) by (auto simp: startSaga_def requireSaga_def split: option.splits)
  from create_row [OF systemOk_rows(1) [OF assms(1)] assms(3), of now] c
  have s': "invar s'" "opFind ops s' = (opFind ops (sysStore y))(niId inst \<mapsto> freshRow now inst)" by auto
  have "heldBy owner (opFind ops s') i = Some r' \<Longrightarrow> heldBy owner (opFind ops (sysStore y)) i = Some r'"
    for owner i r'
    using s'(2) by (cases "i = niId inst") (auto simp: heldBy_def freshRow_def)
  moreover have "opFind ops s' i = Some q \<Longrightarrow> rowOk cfg reg q" for i q
    using systemOk_rows(2) [OF assms(1), of i q] rowOk_fresh [OF assms(2) reg, of cfg now] s'(2)
    by (auto split: if_splits)
  ultimately show ?thesis
    using s'(1) systemOk_rows(3-5) [OF assms(1)] by (intro systemOkI) simp_all
qed

lemma sagaSys_save:
  assumes ok: "systemOk ops invar cfg reg y"
    and view: "sysView y (owner, i) = Some r" and pend: "sysPending y (owner, i) = Some p"
    and save: "opSave ops i (leaseOf cfg owner now) p (sysStore y) = (saved, s')"
  shows "systemOk ops invar cfg reg (y\<lparr>sysStore := s',
      sysView := (sysView y)((owner, i) := (if spRelease p then None else saved)),
      sysPending := (sysPending y)((owner, i) := None)\<rparr>)"
proof -
  let ?c = "leaseOf cfg owner now"
  note inv = systemOk_rows(1) [OF ok]
  have inv': "invar s'" using save_invar [OF inv, of i ?c p] save by simp
  have spec: "saveSpec i ?c p (opFind ops (sysStore y)) = (saved, opFind ops s')"
    using save_refines [OF inv, of i ?c p] save by simp
  obtain d where d: "reg (siName r) = Some d" "stepFine cfg d r p"
    using systemOk_rows(5) [OF ok pend] view by auto
  show ?thesis
  proof (cases saved)
    case None
    with spec have "opFind ops s' = opFind ops (sysStore y)"
      by (auto simp: saveSpec_def split: option.splits if_splits)
    with inv' None systemOk_rows [OF ok] show ?thesis
      by (intro systemOkI) (simp_all split: if_splits)
  next
    case (Some q)
    with spec obtain r0 where "opFind ops (sysStore y) i = Some r0" "siLockedBy r0 = Some owner"
      and q: "q = progressRow ?c p r0" "opFind ops s' = (opFind ops (sysStore y))(i \<mapsto> q)"
      by (auto simp: saveSpec_def leaseOf_def split: option.splits if_splits)
    then have "r0 = r" using systemOk_rows(4) [OF ok view, of r0] by (simp add: heldBy_def)
    with q(1) d have "rowOk cfg reg q" by (simp add: rowOk_def stepFine_def)
    moreover have "siLockedBy q = (if spRelease p then None else Some owner)"
      by (simp add: q(1) progressRow_def leaseOf_def)
    ultimately show ?thesis
      using Some by (intro systemOk_write [OF ok inv' q(2)]) (auto split: if_splits)
  qed
qed

lemma sagaSys_preserves:
  assumes "sagaSys ops cfg reg y y'" and "registryOk reg" and ok: "systemOk ops invar cfg reg y"
  shows "systemOk ops invar cfg reg y'"
  using assms(1)
proof cases
  case (Start inst now r s')
  then show ?thesis using sagaSys_start [OF ok assms(2)] by simp
next
  case (Claim i owner now r s')
  note inv = systemOk_rows(1) [OF ok]
  from Claim(2) obtain r0 where r0: "opFind ops (sysStore y) i = Some r0" "r = leaseRow (leaseOf cfg owner now) r0"
    "opFind ops s' = (opFind ops (sysStore y))(i \<mapsto> r)"
    by (rule claim_grants [OF inv])
  have "invar s'" using claim_invar [OF inv, of i "leaseOf cfg owner now"] Claim(2) by simp
  moreover have "rowOk cfg reg r" using systemOk_rows(2) [OF ok r0(1)] r0(2) by simp
  moreover have "siLockedBy r = Some owner" using r0(2) by (simp add: leaseRow_def leaseOf_def)
  ultimately show ?thesis
    unfolding Claim(1) by (intro systemOk_write [OF ok _ r0(3)]) auto
next
  case (Work owner i r d t p w')
  have wd: "wellDefined d" using Work(5) assms(2) by (auto simp: registryOk_def intro: ranI)
  have io: "instanceOk cfg d r" using systemOk_rows(3) [OF ok Work(2)] Work(5) by (simp add: rowOk_def)
  obtain p' v where "stepOnce cfg t d r (sysWorld y) = (Inr p', v)" "stepFine cfg d r p'"
    by (rule stepOnce_fine [OF wd io Work(4)])
  with Work(2,5,6) systemOk_rows [OF ok] show ?thesis
    unfolding Work(1) by (intro systemOkI) (simp_all split: if_splits)
next
  case (Save owner i r p now saved s')
  then show ?thesis using sagaSys_save [OF ok] by simp
next
  case (Unrunnable owner i r t now reason s')
  obtain d where d: "reg (siName r) = Some d" "instanceOk cfg d r"
    using systemOk_rows(3) [OF ok Unrunnable(2)] by (auto simp: rowOk_def)
  have wd: "wellDefined d" using d(1) assms(2) by (auto simp: registryOk_def intro: ranI)
  obtain p v where "stepOnce cfg t d r (sysWorld y) = (Inr p, v)"
    by (rule stepOnce_fine [OF wd d(2) Unrunnable(4)])
  with Unrunnable(5) d(1) show ?thesis by auto
next
  case (Crash owner i)
  with systemOk_rows [OF ok] show ?thesis by (intro systemOkI) (simp_all split: if_splits)
qed

lemma sagaSys_abandons_none:
  assumes "sagaSys ops cfg reg y y'" and "registryOk reg" and ok: "systemOk ops invar cfg reg y"
  shows "sysAbandoned y' = sysAbandoned y"
  using assms(1)
proof cases
  case (Unrunnable owner i r t now reason s')
  obtain d where d: "reg (siName r) = Some d" "instanceOk cfg d r"
    using systemOk_rows(3) [OF ok Unrunnable(2)] by (auto simp: rowOk_def)
  have wd: "wellDefined d" using d(1) assms(2) by (auto simp: registryOk_def intro: ranI)
  obtain p v where "stepOnce cfg t d r (sysWorld y) = (Inr p, v)"
    by (rule stepOnce_fine [OF wd d(2) Unrunnable(4)])
  with Unrunnable(5) d(1) show ?thesis by auto
qed simp_all

end

section \<open>What was called\<close>

text \<open>
  \<open>did direction step saga w\<close> is any fact about the participants that a successful call of the step's
  action, or of its compensation, for that saga establishes, and that no call of any step takes back;
  for instance that the call is on record.
\<close>

definition leavesTrace :: "(sagaDirection \<Rightarrow> string \<Rightarrow> string \<Rightarrow> 'w \<Rightarrow> bool) \<Rightarrow> 'w sagaRegistry \<Rightarrow> bool" where
  "leavesTrace did reg \<longleftrightarrow> (\<forall>d \<in> ran reg. \<forall>s \<in> set (steps d). \<forall>ctx w.
     (\<forall>patch. fst (execute s ctx w) = Inr patch \<longrightarrow> did Forward (stepName s) (ctxSagaId ctx) (snd (execute s ctx w)))
     \<and> (\<forall>dir n i. did dir n i w \<longrightarrow> did dir n i (snd (execute s ctx w)))
     \<and> (\<forall>name ex undo. s = Compensatable name ex undo \<longrightarrow>
          (fst (undo ctx w) = Inr () \<longrightarrow> did Backward name (ctxSagaId ctx) (snd (undo ctx w)))
          \<and> (\<forall>dir n i. did dir n i w \<longrightarrow> did dir n i (snd (undo ctx w)))))"

definition entryTraced :: "(sagaDirection \<Rightarrow> string \<Rightarrow> string \<Rightarrow> 'w \<Rightarrow> bool) \<Rightarrow> 'w \<Rightarrow> string \<Rightarrow> sagaStepLogEntry \<Rightarrow> bool" where
  "entryTraced did w i e \<longleftrightarrow> (leOutcome e = Completed \<longrightarrow> did (leDirection e) (leStep e) i w)"

lemma contextOf_id [simp]: "ctxSagaId (contextOf r s failure) = siId r"
  by (simp add: contextOf_def)

lemma leavesTraceD:
  assumes "leavesTrace did reg" and "d \<in> ran reg" and "s \<in> set (steps d)"
  shows "fst (execute s ctx w) = Inr patch \<Longrightarrow> did Forward (stepName s) (ctxSagaId ctx) (snd (execute s ctx w))"
    and "did dir n i w \<Longrightarrow> did dir n i (snd (execute s ctx w))"
    and "s = Compensatable name ex undo \<Longrightarrow> fst (undo ctx w) = Inr () \<Longrightarrow> did Backward name (ctxSagaId ctx) (snd (undo ctx w))"
    and "s = Compensatable name ex undo \<Longrightarrow> did dir n i w \<Longrightarrow> did dir n i (snd (undo ctx w))"
  using assms unfolding leavesTrace_def by blast+

lemma callStep_Inr: "callStep cfg t name work w = (Inr v, w') \<Longrightarrow> work w = (Inr v, w')"
  by (auto simp: callStep_def Let_def split: prod.splits if_splits)

lemma callStep_world: "snd (callStep cfg t name work w) = snd (work w)"
  by (simp add: callStep_def Let_def split: prod.splits)

lemma executeStep_traced:
  assumes "leavesTrace did reg" and "d \<in> ran reg" and "step \<in> set (steps d)" and "executeStep cfg t d r step w = (p, w')"
  shows "entryTraced did w' (siId r) (spEntry p) \<and> (\<forall>dir n i. did dir n i w \<longrightarrow> did dir n i w')"
proof -
  let ?ctx = "contextOf r step None"
  have tr: "\<And>patch. fst (execute step ?ctx w) = Inr patch \<Longrightarrow> did Forward (stepName step) (siId r) (snd (execute step ?ctx w))"
    "\<And>dir n i. did dir n i w \<Longrightarrow> did dir n i (snd (execute step ?ctx w))"
    using leavesTraceD(1) [OF assms(1-3), of ?ctx w] leavesTraceD(2) [OF assms(1-3), of _ _ _ w ?ctx] by simp_all
  obtain answer v where call: "callStep cfg t (stepName step) (execute step ?ctx) w = (answer, v)" by fastforce
  have v: "v = snd (execute step ?ctx w)" using callStep_world [of cfg t "stepName step" "execute step ?ctx" w] call by simp
  have w': "w' = v" using assms(4) call by (auto simp: executeStep_def Let_def split: sum.splits option.splits if_splits)
  show ?thesis
  proof (cases answer)
    case (Inl e)
    then have "leOutcome (spEntry p) = Failed" using assms(4) call by (auto simp: executeStep_def Let_def split: option.splits if_splits)
    then show ?thesis using tr(2) v w' by (simp add: entryTraced_def)
  next
    case (Inr patch)
    have "execute step ?ctx w = (Inr patch, v)" by (rule callStep_Inr [OF call [unfolded Inr]])
    then have "did Forward (stepName step) (siId r) v" using tr(1) [of patch] by simp
    moreover have "leDirection (spEntry p) = Forward" "leStep (spEntry p) = stepName step"
      using assms(4) call Inr by (auto simp: executeStep_def Let_def)
    ultimately show ?thesis using tr(2) v w' by (simp add: entryTraced_def)
  qed
qed

lemma compensateStep_traced:
  assumes "leavesTrace did reg" and "d \<in> ran reg" and "step \<in> set (steps d)" and "compensateStep cfg t d r step w = (p, w')"
  shows "entryTraced did w' (siId r) (spEntry p) \<and> (\<forall>dir n i. did dir n i w \<longrightarrow> did dir n i w')"
proof (cases "\<exists>name ex undo. step = Compensatable name ex undo")
  case True
  then obtain name ex undo where step: "step = Compensatable name ex undo" by blast
  let ?work = "undo (contextOf r step (Some (failureFrom d r)))"
  have tr: "fst (?work w) = Inr () \<Longrightarrow> did Backward name (siId r) (snd (?work w))"
    "\<And>dir n i. did dir n i w \<Longrightarrow> did dir n i (snd (?work w))"
    using leavesTraceD(3,4) [OF assms(1-3) step, where ctx = "contextOf r step (Some (failureFrom d r))" and w = w] by simp_all
  obtain answer v where call: "callStep cfg t name ?work w = (answer, v)" by fastforce
  have v: "v = snd (?work w)" using callStep_world [of cfg t name ?work w] call by simp
  have w': "w' = v" using assms(4) call step by (auto simp: compensateStep_def Let_def split: sum.splits option.splits)
  show ?thesis
  proof (cases answer)
    case (Inl e)
    then have "leOutcome (spEntry p) = Failed" using assms(4) call step by (auto simp: compensateStep_def Let_def split: option.splits)
    then show ?thesis using tr(2) v w' by (simp add: entryTraced_def)
  next
    case (Inr u)
    have "?work w = (Inr u, v)" by (rule callStep_Inr [OF call [unfolded Inr]])
    then have "did Backward name (siId r) v" using tr(1) by simp
    moreover have "leDirection (spEntry p) = Backward" "leStep (spEntry p) = name"
      using assms(4) call Inr step by (auto simp: compensateStep_def Let_def)
    ultimately show ?thesis using tr(2) v w' by (simp add: entryTraced_def)
  qed
next
  case False
  with assms(4) have "w' = w" "leOutcome (spEntry p) = Skipped" by (auto simp: compensateStep_def Let_def split: sagaStep.splits)
  then show ?thesis by (simp add: entryTraced_def)
qed

lemma stepOnce_traced:
  assumes "leavesTrace did reg" and "reg n = Some d" and "stepOnce cfg t d r w = (Inr p, w')"
  shows "entryTraced did w' (siId r) (spEntry p) \<and> (\<forall>dir n i. did dir n i w \<longrightarrow> did dir n i w')"
proof -
  have d: "d \<in> ran reg" using assms(2) by (rule ranI)
  from assms(3) obtain step where step: "indexed (steps d) (siCursor r) = Some step"
    and run: "(if siStatus r = COMPENSATING then compensateStep cfg t d r step w else executeStep cfg t d r step w) = (p, w')"
    by (auto simp: stepOnce_def split: option.splits prod.splits)
  have "step \<in> set (steps d)" using step by (auto simp: indexed_def split: if_splits)
  then show ?thesis using run executeStep_traced [OF assms(1) d] compensateStep_traced [OF assms(1) d] by (simp split: if_splits)
qed

definition rowTraced :: "(sagaDirection \<Rightarrow> string \<Rightarrow> string \<Rightarrow> 'w \<Rightarrow> bool) \<Rightarrow> 'w \<Rightarrow> sagaInstance \<Rightarrow> bool" where
  "rowTraced did w r \<longleftrightarrow> (\<forall>e \<in> set (siLog r). entryTraced did w (siId r) e)"

definition systemTraced :: "'s sagaStoreOps \<Rightarrow> (sagaDirection \<Rightarrow> string \<Rightarrow> string \<Rightarrow> 'w \<Rightarrow> bool) \<Rightarrow> ('s, 'w) sagaSystem \<Rightarrow> bool" where
  "systemTraced ops did y \<longleftrightarrow> (\<forall>i r. opFind ops (sysStore y) i = Some r \<longrightarrow> rowTraced did (sysWorld y) r)
     \<and> (\<forall>owner i r. sysView y (owner, i) = Some r \<longrightarrow> siId r = i)
     \<and> (\<forall>owner i p. sysPending y (owner, i) = Some p \<longrightarrow> entryTraced did (sysWorld y) i (spEntry p))"

context saga_store
begin

lemma systemTracedI:
  assumes "\<And>i r. opFind ops (sysStore y) i = Some r \<Longrightarrow> rowTraced did (sysWorld y) r"
    and "\<And>owner i r. sysView y (owner, i) = Some r \<Longrightarrow> siId r = i"
    and "\<And>owner i p. sysPending y (owner, i) = Some p \<Longrightarrow> entryTraced did (sysWorld y) i (spEntry p)"
  shows "systemTraced ops did y"
  using assms by (simp add: systemTraced_def)

lemma systemTracedD:
  assumes "systemTraced ops did y"
  shows "opFind ops (sysStore y) i = Some r \<Longrightarrow> rowTraced did (sysWorld y) r" and "sysView y (owner, i) = Some r \<Longrightarrow> siId r = i"
    and "sysPending y (owner, i) = Some p \<Longrightarrow> entryTraced did (sysWorld y) i (spEntry p)"
  using assms by (simp_all add: systemTraced_def)

lemma sagaSys_traced:
  assumes "sagaSys ops cfg reg y y'" and "registryOk reg" and ok: "systemOk ops invar cfg reg y"
    and tr: "systemTraced ops did y" and lt: "leavesTrace did reg"
  shows "systemTraced ops did y'"
  using assms(1)
proof cases
  case (Start inst now r s')
  have c: "opCreate ops now inst (sysStore y) = Some (r, s')"
    using Start(3) by (auto simp: startSaga_def requireSaga_def split: option.splits)
  from create_row [OF systemOk_rows(1) [OF ok] Start(2), of now] c
  have "opFind ops s' = (opFind ops (sysStore y))(niId inst \<mapsto> freshRow now inst)" by auto
  moreover have "rowTraced did w (freshRow now inst)" for w by (simp add: rowTraced_def freshRow_def)
  ultimately show ?thesis using systemTracedD [OF tr] unfolding Start(1) by (intro systemTracedI) (auto split: if_splits)
next
  case (Claim i owner now r s')
  note inv = systemOk_rows(1) [OF ok]
  from Claim(2) obtain r0 where r0: "opFind ops (sysStore y) i = Some r0" "r = leaseRow (leaseOf cfg owner now) r0"
    "opFind ops s' = (opFind ops (sysStore y))(i \<mapsto> r)"
    by (rule claim_grants [OF inv])
  have "siId r = i" "rowTraced did (sysWorld y) r"
    using find_id [OF inv r0(1)] r0(2) systemTracedD(1) [OF tr r0(1)] by (simp_all add: rowTraced_def)
  then show ?thesis using r0(3) systemTracedD [OF tr] unfolding Claim(1) by (intro systemTracedI) (auto split: if_splits)
next
  case (Work owner i r d t p w')
  note new = stepOnce_traced [OF lt Work(5,6)]
  have mono: "entryTraced did (sysWorld y) j e \<Longrightarrow> entryTraced did w' j e" for j e using new by (simp add: entryTraced_def)
  then have "rowTraced did (sysWorld y) q \<Longrightarrow> rowTraced did w' q" for q by (simp add: rowTraced_def)
  then show ?thesis using new mono systemTracedD [OF tr] Work(2) unfolding Work(1) by (intro systemTracedI) (auto split: if_splits)
next
  case (Save owner i r p now saved s')
  note inv = systemOk_rows(1) [OF ok]
  let ?c = "leaseOf cfg owner now"
  have spec: "saveSpec i ?c p (opFind ops (sysStore y)) = (saved, opFind ops s')"
    using save_refines [OF inv, of i ?c p] Save(4) by simp
  have rows: "rowTraced did (sysWorld y) q" if "opFind ops s' j = Some q" for j q
  proof (cases "opFind ops (sysStore y) j = Some q")
    case True
    then show ?thesis by (rule systemTracedD(1) [OF tr])
  next
    case False
    with spec that obtain r0 where r0: "opFind ops (sysStore y) i = Some r0"
      and new: "opFind ops s' = (opFind ops (sysStore y))(i \<mapsto> progressRow ?c p r0)"
      by (auto simp: saveSpec_def split: option.splits if_splits)
    have "q = progressRow ?c p r0" using that False unfolding new by (simp split: if_splits)
    then show ?thesis using systemTracedD(1) [OF tr r0] systemTracedD(3) [OF tr Save(3)] find_id [OF inv r0]
      by (simp add: rowTraced_def)
  qed
  have "siId q = i" if "saved = Some q" for q
  proof -
    from spec that obtain r0 where "opFind ops (sysStore y) i = Some r0" "q = progressRow ?c p r0"
      by (auto simp: saveSpec_def split: option.splits if_splits)
    then show ?thesis using find_id [OF inv] by simp
  qed
  then show ?thesis using rows systemTracedD(2,3) [OF tr] unfolding Save(1) by (intro systemTracedI) (auto split: if_splits)
next
  case (Unrunnable owner i r t now reason s')
  note inv = systemOk_rows(1) [OF ok]
  show ?thesis
  proof (cases "opFind ops (sysStore y) i")
    case None
    then have "s' = sysStore y" using abandon_missing [OF inv, of i now STUCK reason] Unrunnable(6) by simp
    then show ?thesis using systemTracedD [OF tr] unfolding Unrunnable(1) by (intro systemTracedI) (auto split: if_splits)
  next
    case (Some r0)
    from abandon_row [OF inv this, of now STUCK reason] Unrunnable(6)
    have "opFind ops s' = (opFind ops (sysStore y))(i \<mapsto> abandonRow now STUCK reason r0)" by auto
    moreover have "rowTraced did (sysWorld y) (abandonRow now STUCK reason r0)"
      using systemTracedD(1) [OF tr Some] by (simp add: rowTraced_def abandonRow_def)
    ultimately show ?thesis using systemTracedD [OF tr] unfolding Unrunnable(1) by (intro systemTracedI) (auto split: if_splits)
  qed
next
  case (Crash owner i)
  with systemTracedD [OF tr] show ?thesis by (intro systemTracedI) (simp_all split: if_splits)
qed

end

section \<open>Properties of the orchestrator\<close>

abbreviation sqlReachable :: "orchestratorConfig \<Rightarrow> 'w sagaRegistry \<Rightarrow> 'w
    \<Rightarrow> (sagaInstance list, 'w) sagaSystem \<Rightarrow> bool" where
  "sqlReachable cfg reg w y \<equiv> (sagaSys sqlStore cfg reg)\<^sup>*\<^sup>* (emptySystem [] w) y"

lemma sqlReachable_ok:
  assumes "registryOk reg" and "sqlReachable cfg reg w y"
  shows "systemOk sqlStore sqlInvar cfg reg y"
  using assms(2)
proof (induction rule: rtranclp_induct)
  case base
  show ?case by (rule sql.systemOkI) (simp_all add: sqlInvar_def sqlStore_def)
next
  case (step y z)
  then show ?case using sql.sagaSys_preserves assms(1) by blast
qed

lemma sqlReachable_row:
  assumes "registryOk reg" and "sqlReachable cfg reg w y" and "sqlFind (sysStore y) i = Some r"
  obtains d where "reg (siName r) = Some d" and "wellDefined d" and "instanceOk cfg d r"
proof -
  have "rowOk cfg reg r"
    using sql.systemOk_rows(2) [OF sqlReachable_ok [OF assms(1,2)], of i r] assms(3)
    by (simp add: sqlStore_def)
  then obtain d where d: "reg (siName r) = Some d" "instanceOk cfg d r" by (auto simp: rowOk_def)
  moreover have "wellDefined d" using assms(1) d(1) by (auto simp: registryOk_def intro: ranI)
  ultimately show thesis by (intro that)
qed

lemma sqlReachable_abandons_none:
  assumes "registryOk reg" and "sqlReachable cfg reg w y"
  shows "sysAbandoned y = []"
  using assms(2)
proof (induction rule: rtranclp_induct)
  case (step y z)
  then show ?case using sql.sagaSys_abandons_none [OF step(2) assms(1) sqlReachable_ok [OF assms(1) step(1)]] by simp
qed simp

lemma sqlReachable_traced:
  assumes "registryOk reg" and "sqlReachable cfg reg w y" and "leavesTrace did reg" and "sqlFind (sysStore y) i = Some r"
  shows "rowTraced did (sysWorld y) r"
proof -
  have "systemTraced sqlStore did y"
    using assms(2)
  proof (induction rule: rtranclp_induct)
    case base
    show ?case by (rule sql.systemTracedI) (simp_all add: sqlStore_def)
  next
    case (step y z)
    then show ?case using sql.sagaSys_traced [OF step(2) assms(1) sqlReachable_ok [OF assms(1) step(1)] _ assms(3)] by blast
  qed
  then show ?thesis using sql.systemTracedD(1) [of did y i r] assms(4) by (simp add: sqlStore_def)
qed

lemma pivot_not_unwinding:
  assumes "wellDefined d" and "unwinding d f r" and "s \<in> set (steps d)" and "stepKind s = KPivot"
  shows "stepName s \<notin> set (forwardDone r)"
proof
  assume "stepName s \<in> set (forwardDone r)"
  then obtain j where j: "j < f" "stepNames d ! j = stepName s" and f: "f < length (steps d)"
      "stepKind (steps d ! f) \<noteq> KRetriable"
    using assms(2) by (auto simp: unwinding_def in_set_conv_nth)
  from assms(3) obtain q where q: "q < length (steps d)" "s = steps d ! q"
    by (auto simp: in_set_conv_nth)
  have "distinct (stepNames d)" using assms(1) by (simp add: wellDefined_def stepNames_def)
  then have "j = q"
    using j f(1) q by (simp add: nth_eq_iff_index_eq stepNames_nth [symmetric])
  then show False
    using before_non_retriable [OF assms(1) f(1,2), of j] j(1) q(2) assms(4) by simp
qed

text \<open>A saga of three steps over a counter, for the evaluations below.\<close>

definition sampleSaga :: "nat sagaDefinition" where
  "sampleSaga = \<lparr>sagaName = ''order.checkout'',
     steps = [Compensatable ''reserve'' (\<lambda>_ w. (Inr None, w + 1)) (\<lambda>_ w. (Inr (), w - 1)),
              Pivot ''ship'' (\<lambda>_ w. (Inr None, w))]\<rparr>"

definition sampleConfig :: orchestratorConfig where
  "sampleConfig = \<lparr>leaseMs = 30000, stepTimeoutMs = 10000,
     retryPolicy = \<lparr>baseMs = 500, maxMs = 60000, maxAttempts = 8\<rparr>\<rparr>"

definition sampleTick :: tick where
  "sampleTick = \<lparr>tkNow = 10, tkElapsed = 1, tkRandom = 0, tkSaveNow = 11\<rparr>"

lemma sampleSaga_ok: "registryOk [''order.checkout'' \<mapsto> sampleSaga]"
proof -
  have "defineSaga ''order.checkout'' (steps sampleSaga) = Inr sampleSaga"
    by (simp add: sampleSaga_def defineSaga_def Let_def)
  then show ?thesis by (auto simp: registryOk_def ran_def intro: defineSaga_InrD(2))
qed

text \<open>One runner starts the sample saga, claims it and takes both steps.\<close>

definition sampleRow :: sagaInstance where
  "sampleRow = leaseRow (leaseOf sampleConfig ''w'' 9) (freshRow 5 (sampleNew ''a''))"

definition sampleProgress :: "sagaInstance \<Rightarrow> sagaProgress" where
  "sampleProgress r = fst (executeStep sampleConfig sampleTick sampleSaga r
     (steps sampleSaga ! nat (siCursor r)) (0 :: nat))"

definition sampleNext :: "sagaInstance \<Rightarrow> sagaInstance" where
  "sampleNext r = progressRow (leaseOf sampleConfig ''w'' 11) (sampleProgress r) r"

abbreviation sampleRegistry :: "nat sagaRegistry" where
  "sampleRegistry \<equiv> [''order.checkout'' \<mapsto> sampleSaga]"

abbreviation sampleAt :: "nat \<Rightarrow> sagaInstance \<Rightarrow> sagaProgress option \<Rightarrow> (sagaInstance list, nat) sagaSystem" where
  "sampleAt w r p \<equiv> \<lparr>sysStore = [r], sysWorld = w, sysView = [(''w'', ''a'') \<mapsto> r],
     sysPending = (case p of None \<Rightarrow> Map.empty | Some q \<Rightarrow> [(''w'', ''a'') \<mapsto> q]), sysAbandoned = []\<rparr>"

lemmas sample_run_defs = sampleRow_def sampleProgress_def sampleNext_def sample_defs leaseOf_def
  executeStep_def callStep_def sampleSaga_def sampleConfig_def sampleTick_def entryOf_def
  contextOf_def mergeState_def

lemma sampleRun_start:
  "sagaSys sqlStore sampleConfig sampleRegistry (emptySystem [] 0) (emptySystem [freshRow 5 (sampleNew ''a'')] 0)"
  using sagaSys.Start [of sqlStore "emptySystem [] 0" "sampleNew ''a''" sampleRegistry 5
      "freshRow 5 (sampleNew ''a'')" "[freshRow 5 (sampleNew ''a'')]" sampleConfig]
  by (simp add: startSaga_def requireSaga_def sampleNew_def sqlStore_def sqlCreate_def)

lemma sampleRun_claim:
  "sagaSys sqlStore sampleConfig sampleRegistry (emptySystem [freshRow 5 (sampleNew ''a'')] 0) (sampleAt 0 sampleRow None)"
  using sagaSys.Claim [of sqlStore "''a''" sampleConfig "''w''" 9 "emptySystem [freshRow 5 (sampleNew ''a'')] 0"
      sampleRow "[sampleRow]" sampleRegistry]
  by (simp add: sqlStore_def sqlClaim_def sqlUpdateReturning_def leaseFree_def sampleRow_def sample_defs leaseOf_def)

lemma sampleRun_work1:
  "sagaSys sqlStore sampleConfig sampleRegistry (sampleAt 0 sampleRow None)
     (sampleAt 1 sampleRow (Some (sampleProgress sampleRow)))"
  using sagaSys.Work [of "sampleAt 0 sampleRow None" "''w''" "''a''" sampleRow sampleRegistry sampleSaga
      sampleConfig sampleTick "sampleProgress sampleRow" 1 sqlStore]
  by (simp add: isTerminal_def stepOnce_def assertResumable_def indexed_def sample_run_defs)

lemma sampleRun_save:
  assumes "siId r = ''a''" and "siLockedBy r = Some ''w''" and "\<not> spRelease (sampleProgress r)"
  shows "sagaSys sqlStore sampleConfig sampleRegistry (sampleAt w r (Some (sampleProgress r))) (sampleAt w (sampleNext r) None)"
  using sagaSys.Save [of "sampleAt w r (Some (sampleProgress r))" "''w''" "''a''" r "sampleProgress r" sqlStore
      sampleConfig 11 "Some (sampleNext r)" "[sampleNext r]" sampleRegistry] assms
  by (simp add: sqlStore_def sqlSave_def sqlUpdateReturning_def sampleNext_def leaseOf_def)

lemma sampleRun_work2:
  "sagaSys sqlStore sampleConfig sampleRegistry (sampleAt 1 (sampleNext sampleRow) None)
     (sampleAt 1 (sampleNext sampleRow) (Some (sampleProgress (sampleNext sampleRow))))"
  using sagaSys.Work [of "sampleAt 1 (sampleNext sampleRow) None" "''w''" "''a''" "sampleNext sampleRow"
      sampleRegistry sampleSaga sampleConfig sampleTick "sampleProgress (sampleNext sampleRow)" 1 sqlStore]
  by (simp add: isTerminal_def stepOnce_def assertResumable_def indexed_def isForwardDone_def sample_run_defs)

lemma sampleRun_reachable:
  "sqlReachable sampleConfig sampleRegistry 0
     (sampleAt 1 (sampleNext sampleRow) (Some (sampleProgress (sampleNext sampleRow))))"
proof -
  have "sagaSys sqlStore sampleConfig sampleRegistry
      (sampleAt 1 sampleRow (Some (sampleProgress sampleRow))) (sampleAt 1 (sampleNext sampleRow) None)"
    by (rule sampleRun_save) (simp_all add: sample_run_defs)
  with sampleRun_start sampleRun_claim sampleRun_work1 sampleRun_work2 show ?thesis
    by (meson rtranclp.rtrancl_into_rtrancl rtranclp.rtrancl_refl)
qed

lemma sampleRun_finished:
  "sqlReachable sampleConfig sampleRegistry 0 (emptySystem [sampleNext (sampleNext sampleRow)] 1)"
proof -
  let ?r = "sampleNext sampleRow"
  have "siId ?r = ''a''" "siLockedBy ?r = Some ''w''" "spRelease (sampleProgress ?r)"
    by (simp_all add: sample_run_defs)
  then have "sagaSys sqlStore sampleConfig sampleRegistry (sampleAt 1 ?r (Some (sampleProgress ?r)))
      (emptySystem [sampleNext ?r] 1)"
    using sagaSys.Save [of "sampleAt 1 ?r (Some (sampleProgress ?r))" "''w''" "''a''" ?r "sampleProgress ?r"
        sqlStore sampleConfig 11 "Some (sampleNext ?r)" "[sampleNext ?r]" sampleRegistry]
    by (simp add: sqlStore_def sqlSave_def sqlUpdateReturning_def sampleNext_def [of ?r] leaseOf_def)
  with sampleRun_reachable show ?thesis by (rule rtranclp.rtrancl_into_rtrancl)
qed

lemma sampleRun_row:
  "siStatus (sampleNext (sampleNext sampleRow)) = COMPLETED"
  "siName (sampleNext (sampleNext sampleRow)) = ''order.checkout''"
  "siId (sampleNext (sampleNext sampleRow)) = ''a''"
  "forwardDone (sampleNext (sampleNext sampleRow)) = [''reserve'', ''ship'']"
  by (simp_all add: forwardDone_def isForwardDone_def sample_run_defs)

text \<open>
  A saga whose pivot is declined, over participants that keep the list of calls they carried out. The
  runner takes one step after the other; \<open>run_step\<close> is one step taken and saved.
\<close>

type_synonym callLog = "(sagaDirection \<times> string \<times> string) list"

definition declinedSaga :: "callLog sagaDefinition" where
  "declinedSaga = \<lparr>sagaName = ''order.checkout'',
     steps = [Compensatable ''reserve'' (\<lambda>c w. (Inr None, (Forward, ''reserve'', ctxSagaId c) # w))
                (\<lambda>c w. (Inr (), (Backward, ''reserve'', ctxSagaId c) # w)),
              Pivot ''charge'' (\<lambda>_ w. (Inl (UnretryableStepError ''declined''), w))]\<rparr>"

abbreviation declinedRegistry :: "callLog sagaRegistry" where
  "declinedRegistry \<equiv> [''order.checkout'' \<mapsto> declinedSaga]"

lemma declined_ok: "registryOk declinedRegistry"
proof -
  have "defineSaga ''order.checkout'' (steps declinedSaga) = Inr declinedSaga"
    by (simp add: declinedSaga_def defineSaga_def Let_def)
  then show ?thesis by (auto simp: registryOk_def ran_def intro: defineSaga_InrD(2))
qed

lemma declined_traces: "leavesTrace (\<lambda>dir n i w. (dir, n, i) \<in> set w) declinedRegistry"
  by (auto simp: leavesTrace_def declinedSaga_def)

lemma run_step:
  assumes "sqlReachable cfg reg w0 \<lparr>sysStore = [r], sysWorld = w, sysView = [(owner, i) \<mapsto> r], sysPending = Map.empty, sysAbandoned = []\<rparr>"
    and "siId r = i" and "siLockedBy r = Some owner" and "\<not> isTerminal (siStatus r)" and "reg (siName r) = Some d"
    and "stepOnce cfg t d r w = (Inr p, w')"
  shows "sqlReachable cfg reg w0 \<lparr>sysStore = [progressRow (leaseOf cfg owner now) p r], sysWorld = w',
    sysView = (if spRelease p then Map.empty else [(owner, i) \<mapsto> progressRow (leaseOf cfg owner now) p r]),
    sysPending = Map.empty, sysAbandoned = []\<rparr>"
proof -
  let ?y = "\<lparr>sysStore = [r], sysWorld = w, sysView = [(owner, i) \<mapsto> r], sysPending = Map.empty, sysAbandoned = []\<rparr>"
  let ?z = "\<lparr>sysStore = [r], sysWorld = w', sysView = [(owner, i) \<mapsto> r], sysPending = [(owner, i) \<mapsto> p], sysAbandoned = []\<rparr>"
  let ?r = "progressRow (leaseOf cfg owner now) p r"
  have "sagaSys sqlStore cfg reg ?y ?z"
    using sagaSys.Work [of ?y owner i r reg d cfg t p w' sqlStore] assms by simp
  moreover have "sagaSys sqlStore cfg reg ?z \<lparr>sysStore = [?r], sysWorld = w',
      sysView = (if spRelease p then Map.empty else [(owner, i) \<mapsto> ?r]), sysPending = Map.empty, sysAbandoned = []\<rparr>"
    using sagaSys.Save [of ?z owner i r p sqlStore cfg now "Some ?r" "[?r]" reg] assms(2,3)
    by (cases "spRelease p") (simp_all add: sqlStore_def sqlSave_def sqlUpdateReturning_def leaseOf_def)
  ultimately show ?thesis using assms(1) by (meson rtranclp.rtrancl_into_rtrancl)
qed

lemma declined_claimed:
  "sqlReachable sampleConfig declinedRegistry [] \<lparr>sysStore = [sampleRow], sysWorld = [],
     sysView = [(''w'', ''a'') \<mapsto> sampleRow], sysPending = Map.empty, sysAbandoned = []\<rparr>"
proof -
  have "sagaSys sqlStore sampleConfig declinedRegistry (emptySystem [] []) (emptySystem [freshRow 5 (sampleNew ''a'')] [])"
    using sagaSys.Start [of sqlStore "emptySystem [] []" "sampleNew ''a''" declinedRegistry 5
        "freshRow 5 (sampleNew ''a'')" "[freshRow 5 (sampleNew ''a'')]" sampleConfig]
    by (simp add: startSaga_def requireSaga_def sampleNew_def sqlStore_def sqlCreate_def)
  moreover have "sagaSys sqlStore sampleConfig declinedRegistry (emptySystem [freshRow 5 (sampleNew ''a'')] [])
      \<lparr>sysStore = [sampleRow], sysWorld = [], sysView = [(''w'', ''a'') \<mapsto> sampleRow], sysPending = Map.empty, sysAbandoned = []\<rparr>"
    using sagaSys.Claim [of sqlStore "''a''" sampleConfig "''w''" 9 "emptySystem [freshRow 5 (sampleNew ''a'')] []"
        sampleRow "[sampleRow]" declinedRegistry]
    by (simp add: sqlStore_def sqlClaim_def sqlUpdateReturning_def leaseFree_def sampleRow_def sample_defs leaseOf_def)
  ultimately show ?thesis by (meson rtranclp.rtrancl_into_rtrancl rtranclp.rtrancl_refl)
qed

lemmas declined_step_defs = stepOnce_def assertResumable_def indexed_def isForwardDone_def executeStep_def compensateStep_def
  callStep_def declinedSaga_def sampleConfig_def sampleTick_def entryOf_def retryAt_def mergeState_def isTerminal_def leaseOf_def
  Let_def

lemma declined_run:
  obtains r where "sqlReachable sampleConfig declinedRegistry [] (emptySystem [r] [(Backward, ''reserve'', ''a''), (Forward, ''reserve'', ''a'')])"
    and "siStatus r = COMPENSATED" and "siId r = ''a''" and "siName r = ''order.checkout''"
proof -
  let ?at = "\<lambda>r w. \<lparr>sysStore = [r], sysWorld = w, sysView = [(''w'', ''a'') \<mapsto> r], sysPending = Map.empty, sysAbandoned = []\<rparr>"
  let ?mine = "\<lambda>r. siId r = ''a'' \<and> siName r = ''order.checkout'' \<and> siLockedBy r = Some ''w''"
  let ?reserved = "entryOf ''reserve'' Forward Completed 1 10 None"
  let ?r = sampleRow
  have r: "?mine ?r" "siStatus ?r = RUNNING" "siCursor ?r = 0" "siLog ?r = []" "siAttempts ?r = 0"
    by (simp_all add: sampleRow_def sample_defs leaseOf_def)
  obtain p1 where p1: "stepOnce sampleConfig sampleTick declinedSaga ?r [] = (Inr p1, [(Forward, ''reserve'', ''a'')])"
    and q1: "spStatus p1 = RUNNING" "spCursor p1 = 1" "spEntry p1 = ?reserved" "spAttempts p1 = 0" "\<not> spRelease p1"
    using r by (simp add: declined_step_defs)
  define r1 where "r1 = progressRow (leaseOf sampleConfig ''w'' 11) p1 ?r"
  have run1: "sqlReachable sampleConfig declinedRegistry [] (?at r1 [(Forward, ''reserve'', ''a'')])"
    using run_step [OF declined_claimed _ _ _ _ p1, of 11] r q1 by (simp add: r1_def isTerminal_def)
  have r1: "?mine r1" "siStatus r1 = RUNNING" "siCursor r1 = 1" "siLog r1 = [?reserved]" "siAttempts r1 = 0"
    using r q1 by (simp_all add: r1_def progressRow_def leaseOf_def)
  obtain p2 where p2: "stepOnce sampleConfig sampleTick declinedSaga r1 [(Forward, ''reserve'', ''a'')] = (Inr p2, [(Forward, ''reserve'', ''a'')])"
    and q2: "spStatus p2 = COMPENSATING" "spCursor p2 = 1" "leOutcome (spEntry p2) = Failed" "spAttempts p2 = 0" "\<not> spRelease p2"
    using r1 by (simp add: declined_step_defs)
  define r2 where "r2 = progressRow (leaseOf sampleConfig ''w'' 11) p2 r1"
  have run2: "sqlReachable sampleConfig declinedRegistry [] (?at r2 [(Forward, ''reserve'', ''a'')])"
    using run_step [OF run1 _ _ _ _ p2, of 11] r1 q2 by (simp add: r2_def isTerminal_def)
  have r2: "?mine r2" "siStatus r2 = COMPENSATING" "siCursor r2 = 1" "filter isForwardDone (siLog r2) = [?reserved]" "siAttempts r2 = 0"
    using r1 q2 by (simp_all add: r2_def progressRow_def leaseOf_def isForwardDone_def)
  obtain p3 where p3: "stepOnce sampleConfig sampleTick declinedSaga r2 [(Forward, ''reserve'', ''a'')] = (Inr p3, [(Forward, ''reserve'', ''a'')])"
    and q3: "spStatus p3 = COMPENSATING" "spCursor p3 = 0" "leOutcome (spEntry p3) = Skipped" "spAttempts p3 = 0" "\<not> spRelease p3"
    using r2 by (simp add: declined_step_defs)
  define r3 where "r3 = progressRow (leaseOf sampleConfig ''w'' 11) p3 r2"
  have run3: "sqlReachable sampleConfig declinedRegistry [] (?at r3 [(Forward, ''reserve'', ''a'')])"
    using run_step [OF run2 _ _ _ _ p3, of 11] r2 q3 by (simp add: r3_def isTerminal_def)
  have r3: "?mine r3" "siStatus r3 = COMPENSATING" "siCursor r3 = 0" "filter isForwardDone (siLog r3) = [?reserved]" "siAttempts r3 = 0"
    using r2 q3 by (simp_all add: r3_def progressRow_def leaseOf_def isForwardDone_def)
  obtain p4 where p4: "stepOnce sampleConfig sampleTick declinedSaga r3 [(Forward, ''reserve'', ''a'')]
      = (Inr p4, [(Backward, ''reserve'', ''a''), (Forward, ''reserve'', ''a'')])"
    and q4: "spStatus p4 = COMPENSATED" "spRelease p4"
    using r3 by (simp add: declined_step_defs)
  define r4 where "r4 = progressRow (leaseOf sampleConfig ''w'' 11) p4 r3"
  have "sqlReachable sampleConfig declinedRegistry [] (emptySystem [r4] [(Backward, ''reserve'', ''a''), (Forward, ''reserve'', ''a'')])"
    using run_step [OF run3 _ _ _ _ p4, of 11] r3 q4 by (simp add: r4_def isTerminal_def)
  moreover have "siStatus r4 = COMPENSATED" "siId r4 = ''a''" "siName r4 = ''order.checkout''"
    using r3 q4 by (simp_all add: r4_def progressRow_def)
  ultimately show ?thesis by (rule that)
qed

text \<open>
  C1. However runners interleave, crash, lose leases and take over from each other, every saga row is
  consistent with its definition: its log, cursor and attempt count are those of a saga that ran its
  steps in order and, if it turned around, undid them in reverse order; and a row that is STUCK ends
  with the failure it reports, of the step at its cursor. No instance is ever abandoned.
\<close>

theorem saga_rows_consistent:
  assumes "registryOk reg" and "sqlReachable cfg reg w y" and "sqlFind (sysStore y) i = Some r"
  shows "(\<exists>d. reg (siName r) = Some d \<and> instanceOk cfg d r) \<and> sysAbandoned y = []"
  using sqlReachable_row [OF assms] sqlReachable_abandons_none [OF assms(1,2)] by blast

theorem saga_rows_consistent_witness:
  "registryOk sampleRegistry
   \<and> (\<exists>d. sampleRegistry (siName (sampleNext (sampleNext sampleRow))) = Some d
        \<and> instanceOk sampleConfig d (sampleNext (sampleNext sampleRow)))
   \<and> sysAbandoned (emptySystem [sampleNext (sampleNext sampleRow)] (1 :: nat)) = []"
  using saga_rows_consistent [OF sampleSaga_ok sampleRun_finished, of "''a''"] sampleSaga_ok
  by (simp add: sampleRun_row)



text \<open>
  C2. The pivot is the point of no return: once a saga's pivot step has completed, no step of it has
  been or will be undone, and it is neither compensating nor compensated.
\<close>

theorem pivot_is_final:
  assumes "registryOk reg" and "sqlReachable cfg reg w y" and "sqlFind (sysStore y) i = Some r"
    and "reg (siName r) = Some d" and "s \<in> set (steps d)" and "stepKind s = KPivot"
    and "stepName s \<in> set (forwardDone r)"
  shows "backwardDone r = [] \<and> siStatus r \<notin> {COMPENSATING, COMPENSATED}"
proof -
  obtain d' where "reg (siName r) = Some d'" and wd: "wellDefined d'" and ok: "instanceOk cfg d' r"
    by (rule sqlReachable_row [OF assms(1-3)])
  with assms(4) have d: "d' = d" by simp
  have "\<not> unwinding d f r" for f
    using pivot_not_unwinding [OF wd [unfolded d] _ assms(5,6)] assms(7) by blast
  with ok d show ?thesis by (auto simp: instanceOk_def Let_def split: sagaStatus.splits if_splits)
qed

theorem pivot_is_final_witness:
  "''ship'' \<in> set (forwardDone (sampleNext (sampleNext sampleRow)))
   \<and> backwardDone (sampleNext (sampleNext sampleRow)) = []"
  using pivot_is_final [OF sampleSaga_ok sampleRun_finished, of "''a''" _ sampleSaga "steps sampleSaga ! 1"]
  by (simp add: sampleRun_row) (simp add: sampleSaga_def)

text \<open>
  C4. Advancing a consistent saga always ends within the loop's bound, whatever claims, saves,
  abandonments and creations other runners interleave with each step: the runner either gives the
  row back, consistent and stored as returned, or has lost its lease. It never runs out of
  iterations and never abandons.
\<close>

theorem advance_ends:
  assumes "sqlInvar s" and "sqlFind s i = Some r0" and "reg (siName r0) = Some d" and "wellDefined d"
    and "instanceOk cfg d r0" and "\<forall>k. list_all (rivalOf owner) (snd (env k))"
    and "advance sqlStore cfg env reg owner now i s w = (res, s', w')"
  shows "\<exists>e r. res = Some (e, r) \<and> sqlInvar s'
    \<and> (e = Released \<and> instanceOk cfg d r \<and> sqlFind s' i = Some r \<or> e = LostLease)"
proof -
  let ?c = "leaseOf cfg owner now"
  obtain claimed s1 where claim: "opClaim sqlStore i ?c s = (claimed, s1)" by fastforce
  have find: "opFind sqlStore s i = Some r0" using assms(2) by (simp add: sqlStore_def)
  have spec: "claimSpec i ?c (opFind sqlStore s) = (claimed, opFind sqlStore s1)"
    using sql.claim_refines [OF assms(1), of i ?c] claim by simp
  have inv1: "sqlInvar s1" using sql.claim_invar [OF assms(1), of i ?c] claim by simp
  show ?thesis
  proof (cases claimed)
    case None
    then have "opFind sqlStore s1 i = Some r0"
      using spec find by (auto simp: claimSpec_def split: if_splits)
    with assms(7) claim None inv1 show ?thesis by (auto simp: advance_def)
  next
    case (Some r1)
    then have r1: "r1 = leaseRow ?c r0" "opFind sqlStore s1 = (opFind sqlStore s)(i \<mapsto> r1)"
      "isClaimable r0 now"
      using spec find by (auto simp: claimSpec_def leaseOf_def split: if_splits)
    have ids: "siId r1 = i" using sqlFind_id [OF assms(2)] r1(1) by simp
    have nt: "\<not> isTerminal (siStatus r1)"
      using r1(1,3) by (auto simp: isClaimable_def isTerminal_def split: if_splits)
    have ok: "instanceOk cfg d r1" using assms(5) r1(1) by simp
    obtain e r s2 w2 where loop: "driveLoop sqlStore cfg env d owner (length (steps d) * 2 + 2) r1 s1 w
        = (e, r, s2, w2)"
      by (metis prod_cases4)
    have "sqlInvar s2 \<and> (e = Released \<and> instanceOk cfg d r \<and> opFind sqlStore s2 (siId r1) = Some r
        \<or> e = LostLease)"
      using assms(6) r1(2) ids
      by (intro sql.driveLoop_ends [OF assms(4) _ inv1 _ ok nt remainingSteps_bound [OF ok] loop]) auto
    moreover have "siName r1 = siName r0" using r1(1) by simp
    ultimately show ?thesis
      using assms(3,7) claim Some loop ids by (auto simp: advance_def drive_def sqlStore_def)
  qed
qed

theorem advance_ends_witness:
  "\<exists>e r. fst (advance sqlStore sampleConfig (\<lambda>_. (sampleTick, [])) sampleRegistry ''w'' 9 ''a''
         [freshRow 5 (sampleNew ''a'')] 0) = Some (e, r) \<and> (e = Released \<or> e = LostLease)"
proof -
  let ?s = "[freshRow 5 (sampleNew ''a'')]"
  let ?adv = "advance sqlStore sampleConfig (\<lambda>_. (sampleTick, [])) sampleRegistry ''w'' 9 ''a'' ?s 0"
  have "wellDefined sampleSaga" using sampleSaga_ok by (simp add: registryOk_def)
  moreover have "sqlInvar ?s" "sqlFind ?s ''a'' = Some (freshRow 5 (sampleNew ''a''))"
    "sampleRegistry (siName (freshRow 5 (sampleNew ''a''))) = Some sampleSaga"
    by (simp_all add: sqlInvar_def sampleNew_def freshRow_def)
  moreover have "instanceOk sampleConfig sampleSaga (freshRow 5 (sampleNew ''a''))"
    by (simp add: instanceOk_def freshRow_def sampleSaga_def sampleConfig_def forwardDone_def backwardDone_def)
  ultimately show ?thesis
    using advance_ends [of ?s "''a''" _ sampleRegistry sampleSaga sampleConfig "''w''" "\<lambda>_. (sampleTick, [])"
        9 0 "fst ?adv" "fst (snd ?adv)" "snd (snd ?adv)"]
    by fastforce
qed

text \<open>
  A compensation is told which failure it cleans up after: for a consistent compensating saga the
  failure recovered from the log names the step at which the saga turned around, the one whose
  predecessors are exactly the completed steps.
\<close>

lemma compensation_knows_failure:
  assumes "instanceOk cfg d r" and "siStatus r = COMPENSATING"
  shows "\<exists>f < length (steps d). forwardDone r = take f (stepNames d)
    \<and> failedStep (failureFrom d r) = stepName (steps d ! f)"
proof -
  from assms obtain f where f: "unwinding d f r" by (auto simp: instanceOk_def Let_def)
  then have "\<exists>item. find isForwardFailure (rev (siLog r)) = Some item \<and> leStep item = stepNames d ! f"
    by (auto simp: unwinding_def lastFailure_def)
  then have "failedStep (failureFrom d r) = stepNames d ! f" by (auto simp: failureFrom_def)
  with f show ?thesis by (auto simp: unwinding_def stepNames_nth)
qed

lemma compensation_knows_failure_witness:
  "let r = (freshRow 5 (sampleNew ''a''))\<lparr>siStatus := COMPENSATING,
       siLog := [entryOf ''reserve'' Forward Failed 1 9 (Some (UnretryableStepError ''sold out''))]\<rparr>
   in instanceOk sampleConfig sampleSaga r \<and> failedStep (failureFrom sampleSaga r) = ''reserve''"
proof -
  define r where "r = (freshRow 5 (sampleNew ''a''))\<lparr>siStatus := COMPENSATING,
       siLog := [entryOf ''reserve'' Forward Failed 1 9 (Some (UnretryableStepError ''sold out''))]\<rparr>"
  have "unwinding sampleSaga 0 r"
    by (simp add: unwinding_def r_def freshRow_def sampleSaga_def stepNames_def log_defs)
  then have ok: "instanceOk sampleConfig sampleSaga r"
    by (auto simp: instanceOk_def r_def freshRow_def sampleConfig_def)
  have "siStatus r = COMPENSATING" "forwardDone r = []"
    by (simp_all add: r_def forwardDone_def)
  with compensation_knows_failure [OF ok]
  obtain f where "take f (stepNames sampleSaga) = []"
      "failedStep (failureFrom sampleSaga r) = stepName (steps sampleSaga ! f)"
    by metis
  then have "failedStep (failureFrom sampleSaga r) = ''reserve''"
    by (cases f) (auto simp: sampleSaga_def stepNames_def)
  with ok show ?thesis by (simp add: r_def Let_def)
qed

section \<open>Recovery\<close>

text \<open>
  \<open>src/saga/saga-recovery.service.ts\<close>: a pass claims a batch and drives each instance of it; a
  store that raises while one instance is driven costs that instance its report only. \<open>envs k\<close> is
  what happens around the \<open>k\<close>-th instance of the batch counted from its end.
\<close>

definition advanceOne :: "'s sagaStoreOps \<Rightarrow> orchestratorConfig \<Rightarrow> (nat \<Rightarrow> tick \<times> rivalOp list)
    \<Rightarrow> 'w sagaRegistry \<Rightarrow> string \<Rightarrow> sagaInstance \<Rightarrow> 's \<Rightarrow> 'w \<Rightarrow> (string \<times> sagaStatus) \<times> 's \<times> 'w" where
  "advanceOne ops cfg env reg owner inst s w =
     (case drive ops cfg env reg owner inst s w of
        (exit, settled, s', w') \<Rightarrow>
          (if exit = StoreRaised then ((siId inst, siStatus inst), s', w')
           else ((siId settled, siStatus settled), s', w')))"

fun advanceBatch :: "'s sagaStoreOps \<Rightarrow> orchestratorConfig \<Rightarrow> (nat \<Rightarrow> nat \<Rightarrow> tick \<times> rivalOp list)
    \<Rightarrow> 'w sagaRegistry \<Rightarrow> string \<Rightarrow> sagaInstance list \<Rightarrow> 's \<Rightarrow> 'w
    \<Rightarrow> (string \<times> sagaStatus) list \<times> 's \<times> 'w" where
  "advanceBatch ops cfg envs reg owner [] s w = ([], s, w)"
| "advanceBatch ops cfg envs reg owner (inst # rest) s w =
     (let (report, s1, w1) = advanceOne ops cfg (envs (length rest)) reg owner inst s w;
          (reports, s2, w2) = advanceBatch ops cfg envs reg owner rest s1 w1
      in (report # reports, s2, w2))"

definition runOnce :: "orchestratorConfig \<Rightarrow> (nat \<Rightarrow> nat \<Rightarrow> tick \<times> rivalOp list) \<Rightarrow> 'w sagaRegistry
    \<Rightarrow> string \<Rightarrow> int \<Rightarrow> nat \<Rightarrow> string set \<Rightarrow> sagaInstance list \<Rightarrow> 'w
    \<Rightarrow> (nat \<times> (string \<times> sagaStatus) list) \<times> sagaInstance list \<times> 'w" where
  "runOnce cfg envs reg owner now batchSize locked s w =
     (let (claimed, s1) = sqlClaimDue locked (leaseOf cfg owner now) batchSize s;
          (advanced, s2, w') = advanceBatch sqlStore cfg envs reg owner claimed s1 w
      in ((length claimed, advanced), s2, w'))"

lemma orElse_id: "(\<And>r. x = Some r \<Longrightarrow> siId r = i) \<Longrightarrow> siId y = i \<Longrightarrow> siId (orElse x y) = i"
  by (cases x) (auto simp: orElse_def)

lemma sql_abandon_id:
  "abandonSaga sqlStore now r reason s = (e, r', s') \<Longrightarrow> siId r' = siId r"
  by (auto simp: abandonSaga_def sqlStore_def split: option.splits intro!: orElse_id dest: sqlFind_id)

lemma sql_driveLoop_id:
  "driveLoop sqlStore cfg env d owner left r s w = (e, r', s', w') \<Longrightarrow> siId r' = siId r"
proof (induction left arbitrary: r s w)
  case (Suc left)
  obtain t xs where env: "env left = (t, xs)" by fastforce
  obtain out v where step: "stepOnce cfg t d r w = (out, v)" by fastforce
  obtain saved s2 where save: "\<And>p. out = Inr p \<Longrightarrow>
      opSave sqlStore (siId r) (leaseOf cfg owner (tkSaveNow t)) p (rivalSteps sqlStore xs s) = (saved, s2)"
    by (cases out) (auto, metis surj_pair)
  have q: "siId q = siId r" if "out = Inr p" "saved = Some q" for p q
    using save [OF that(1)] that(2)
    by (auto simp: sqlStore_def sqlSave_def sqlUpdateReturning_def firstRow_def Let_def
        split: list.splits dest!: filter_eq_ConsD)
  have find: "siId (orElse (opFind sqlStore s2 (siId r)) r) = siId r" for s2
    by (rule orElse_id) (auto simp: sqlStore_def dest: sqlFind_id)
  show ?case
  proof (cases out)
    case (Inl err)
    obtain e' r2 s2 where "abandonSaga sqlStore (tkSaveNow t) r (resumeMessage r d err)
        (rivalSteps sqlStore xs s) = (e', r2, s2)"
      by (metis prod_cases3)
    with Suc.prems env step Inl sql_abandon_id [OF this] show ?thesis
      by (simp add: Let_def split: if_splits)
  next
    case (Inr p)
    show ?thesis
    proof (cases saved)
      case None
      with Suc.prems env step Inr save [OF Inr] find show ?thesis by (auto simp: Let_def split: if_splits)
    next
      case (Some r2)
      with Suc.prems env step Inr save [OF Inr] have "r' = r \<or> r' = r2
          \<or> driveLoop sqlStore cfg env d owner left r2 s2 v = (e, r', s', w')"
        by (auto simp: Let_def split: if_splits)
      with Suc.IH [of r2 s2 v] q [OF Inr Some] show ?thesis by auto
    qed
  qed
qed simp

lemma sql_advanceOne_id: "fst (fst (advanceOne sqlStore cfg env reg owner inst s w)) = siId inst"
proof -
  obtain e r s' w' where d: "drive sqlStore cfg env reg owner inst s w = (e, r, s', w')"
    by (metis prod_cases4)
  have "siId r = siId inst"
  proof (cases "reg (siName inst)")
    case None
    with d show ?thesis by (auto simp: drive_def split: prod.splits dest: sql_abandon_id)
  next
    case (Some df)
    with d have "driveLoop sqlStore cfg env df owner (length (steps df) * 2 + 2) inst s w = (e, r, s', w')"
      by (simp add: drive_def del: driveLoop.simps)
    then show ?thesis by (rule sql_driveLoop_id)
  qed
  with d show ?thesis by (simp add: advanceOne_def)
qed

lemma sql_advanceBatch_ids:
  "map fst (fst (advanceBatch sqlStore cfg envs reg owner batch s w)) = map siId batch"
proof (induction batch arbitrary: s w)
  case (Cons inst rest)
  then show ?case
    using sql_advanceOne_id [of cfg "envs (length rest)" reg owner inst s w]
    by (simp add: Let_def split: prod.splits) (metis fst_conv)
qed simp

text \<open>
  A recovery pass takes at most \<open>batchSize\<close> sagas, each once, and reports every saga it claimed,
  in order: neither a failing step nor a store that raises makes it lose the rest of the batch.
\<close>

lemma recovery_reports_all:
  assumes "sqlInvar s" and "runOnce cfg envs reg owner now batchSize locked s w = ((n, reports), s', w')"
  shows "n \<le> batchSize \<and> length reports = n \<and> distinct (map fst reports)
    \<and> (\<forall>(i, st) \<in> set reports. \<exists>r. sqlFind s i = Some r \<and> isClaimable r now)"
proof -
  let ?c = "leaseOf cfg owner now"
  obtain claimed s1 where claim: "sqlClaimDue locked ?c batchSize s = (claimed, s1)" by fastforce
  have batch: "claimsBatch locked ?c batchSize (sqlFind s) claimed (sqlFind s1)"
    by (rule sqlDue_claimsBatch [OF assms(1) claim])
  have out: "n = length claimed" "map fst reports = map siId claimed"
    using assms(2) claim sql_advanceBatch_ids [of cfg envs reg owner claimed s1 w]
    by (auto simp: runOnce_def split: prod.splits)
  have "\<exists>r. sqlFind s i = Some r \<and> isClaimable r now" if "(i, st) \<in> set reports" for i st
  proof -
    have "i \<in> set (map fst reports)" using that by force
    then obtain r where "r \<in> set claimed" "siId r = i" unfolding out by auto
    with batch claimsBatchD [OF batch \<open>r \<in> set claimed\<close>] show ?thesis
      by (metis leaseOf_def sagaClaim.select_convs(2))
  qed
  moreover have "length reports = length claimed" using out(2) by (metis length_map)
  ultimately show ?thesis using batch out by (auto simp: claimsBatch_def)
qed

lemma recovery_reports_all_witness:
  "let s = [freshRow 5 (sampleNew ''a''), freshRow 5 (sampleNew ''b'')];
       out = runOnce sampleConfig (\<lambda>_ _. (sampleTick, [])) sampleRegistry ''w'' 9 20 {} s 0
   in sqlInvar s \<and> fst (fst out) \<le> 20 \<and> length (snd (fst out)) = fst (fst out)"
proof -
  let ?s = "[freshRow 5 (sampleNew ''a''), freshRow 5 (sampleNew ''b'')]"
  let ?out = "runOnce sampleConfig (\<lambda>_ _. (sampleTick, [])) sampleRegistry ''w'' 9 20 {} ?s 0"
  have "sqlInvar ?s" by (simp add: sqlInvar_def sampleNew_def)
  then show ?thesis
    using recovery_reports_all [of ?s sampleConfig "\<lambda>_ _. (sampleTick, [])" sampleRegistry "''w''" 9 20 "{}" 0
        "fst (fst ?out)" "snd (fst ?out)" "fst (snd ?out)" "snd (snd ?out)"]
    by (simp add: Let_def)
qed

end
