(* ===== verification/Money.thy ===== *)
theory Money
  imports Prelude
begin

text \<open>
  Amounts in minor units and their decimal rendering, \<open>src/payments/money.ts\<close>. An amount is the
  JavaScript number the caller passed, as a rational; what \<open>normaliseMoney\<close> lets through is an
  integer in the safe range. Currencies are ASCII.
\<close>

section \<open>Model\<close>

record money =
  amountMinor :: rat
  currency :: string

datatype invalidMoney =
    BadCurrency string
  | NotAnInteger
  | Negative
  | TooLarge
  | NotDecimal string
  | TooPrecise string

definition zeroDecimalCurrencies :: "string list" where
  "zeroDecimalCurrencies = [''HUF'', ''JPY'', ''TWD'']"

definition isCurrencyCode :: "string \<Rightarrow> bool" where
  "isCurrencyCode s \<longleftrightarrow> length s = 3 \<and> list_all isUpper s"

definition maxSafeInteger :: nat where
  "maxSafeInteger = 9007199254740991"

definition isInteger :: "rat \<Rightarrow> bool" where
  "isInteger x \<longleftrightarrow> x = of_int \<lfloor>x\<rfloor>"

definition normaliseMoney :: "money \<Rightarrow> invalidMoney + money" where
  "normaliseMoney m =
     (let cur = toUpperCase (currency m) in
      if \<not> isCurrencyCode cur then Inl (BadCurrency (currency m))
      else if \<not> isInteger (amountMinor m) then Inl NotAnInteger
      else if amountMinor m < 0 then Inl Negative
      else if amountMinor m > of_nat maxSafeInteger then Inl TooLarge
      else Inr \<lparr>amountMinor = amountMinor m, currency = cur\<rparr>)"

definition minorUnitExponent :: "string \<Rightarrow> nat" where
  "minorUnitExponent cur = (if toUpperCase cur \<in> set zeroDecimalCurrencies then 0 else 2)"

definition toDecimalString :: "money \<Rightarrow> invalidMoney + string" where
  "toDecimalString m =
     rbind (normaliseMoney m) (\<lambda>m'.
       let exponent = minorUnitExponent (currency m'); amount = nat \<lfloor>amountMinor m'\<rfloor> in
       if exponent = 0 then Inr (decString amount)
       else let digits = padStart (exponent + 1) (CHR ''0'') (decString amount);
                cut = length digits - exponent in
            Inr (take cut digits @ ''.'' @ drop cut digits))"

definition isTrimmed :: "char \<Rightarrow> bool" where
  "isTrimmed c \<longleftrightarrow> c \<in> set [CHR '' '', CHR 0x09, CHR 0x0A, CHR 0x0B, CHR 0x0C, CHR 0x0D, CHR 0xA0]"

definition trimString :: "string \<Rightarrow> string" where
  "trimString s = rev (dropWhile isTrimmed (rev (dropWhile isTrimmed s)))"

text \<open>The groups of \<open>/^(\d+)(?:\.(\d+))?$/\<close>; a missing second group is the empty fraction.\<close>

definition matchDecimal :: "string \<Rightarrow> (string \<times> string) option" where
  "matchDecimal s =
     (let whole = takeWhile isDigit s in
      if whole = [] then None
      else case dropWhile isDigit s of
        [] \<Rightarrow> Some (whole, [])
      | c # fraction \<Rightarrow>
          (if c = CHR ''.'' \<and> fraction \<noteq> [] \<and> list_all isDigit fraction then Some (whole, fraction)
           else None))"

definition fromDecimalString :: "string \<Rightarrow> string \<Rightarrow> invalidMoney + money" where
  "fromDecimalString v c =
     (let cur = toUpperCase c in
      if \<not> isCurrencyCode cur then Inl (BadCurrency c)
      else case matchDecimal (trimString v) of
        None \<Rightarrow> Inl (NotDecimal v)
      | Some (whole, fraction) \<Rightarrow>
          (let exponent = minorUnitExponent cur in
           if length fraction > exponent then Inl (TooPrecise v)
           else let amount = decValue (whole @ padEnd exponent (CHR ''0'') fraction) in
             if amount > maxSafeInteger then Inl TooLarge
             else Inr \<lparr>amountMinor = of_nat amount, currency = cur\<rparr>))"

definition sameCurrency :: "money \<Rightarrow> money \<Rightarrow> bool" where
  "sameCurrency a b \<longleftrightarrow> toUpperCase (currency a) = toUpperCase (currency b)"

section \<open>Normalised amounts\<close>

definition moneyOk :: "money \<Rightarrow> bool" where
  "moneyOk m \<longleftrightarrow> isCurrencyCode (currency m)
     \<and> (\<exists>n \<le> maxSafeInteger. amountMinor m = of_nat n)"

lemma toUpperChar_isUpper: "isUpper c \<Longrightarrow> toUpperChar c = c"
  by (auto simp: isUpper_def toUpperChar_def)

lemma toUpperCase_code [simp]: "isCurrencyCode s \<Longrightarrow> toUpperCase s = s"
  by (simp add: isCurrencyCode_def toUpperCase_def list_all_iff map_idI toUpperChar_isUpper)

lemma safe_natI: "isInteger x \<Longrightarrow> 0 \<le> x \<Longrightarrow> x \<le> of_nat k \<Longrightarrow> \<exists>n \<le> k. x = of_nat n"
  unfolding isInteger_def
  by (rule exI [of _ "nat \<lfloor>x\<rfloor>"]) (metis nat_le_iff of_int_le_iff of_int_of_nat_eq of_nat_nat zero_le_floor)

lemma normaliseMoney_InrD:
  assumes "normaliseMoney m = Inr m'"
  shows "moneyOk m'" and "amountMinor m' = amountMinor m" and "currency m' = toUpperCase (currency m)"
  using assms safe_natI [of "amountMinor m" maxSafeInteger]
  by (auto simp: normaliseMoney_def moneyOk_def Let_def split: if_splits)

lemma normaliseMoney_ok [simp]: "moneyOk m \<Longrightarrow> normaliseMoney m = Inr m"
  by (auto simp: normaliseMoney_def moneyOk_def isInteger_def)

lemma zero_char: "CHR ''0'' = digitChar 0"
  by code_simp

lemma isDigit_dot [simp]: "\<not> isDigit (CHR ''.'')" "\<not> isTrimmed (CHR ''.'')"
  by (simp_all add: isDigit_def isTrimmed_def)

lemma isDigit_not_trimmed: "isDigit c \<Longrightarrow> \<not> isTrimmed c"
  by (auto simp: isDigit_def isTrimmed_def)

lemma trimString_id:
  assumes "s \<noteq> []" and "\<not> isTrimmed (hd s)" and "\<not> isTrimmed (last s)"
  shows "trimString s = s"
proof -
  have "dropWhile isTrimmed s = s" using assms(1,2) by (cases s) auto
  moreover have "dropWhile isTrimmed (rev s) = rev s"
    using assms(1,3) by (cases s rule: rev_cases) auto
  ultimately show ?thesis by (simp add: trimString_def)
qed

lemma matchDecimal_whole: "ds \<noteq> [] \<Longrightarrow> list_all isDigit ds \<Longrightarrow> matchDecimal ds = Some (ds, [])"
  by (simp add: matchDecimal_def list_all_iff takeWhile_eq_all_conv [THEN iffD2]
      dropWhile_eq_Nil_conv [THEN iffD2])

lemma matchDecimal_split:
  assumes "w \<noteq> []" and "list_all isDigit w" and "f \<noteq> []" and "list_all isDigit f"
  shows "matchDecimal (w @ ''.'' @ f) = Some (w, f)"
  using assms by (simp add: matchDecimal_def list_all_iff takeWhile_append2 dropWhile_append2)

text \<open>The digits \<open>toDecimalString\<close> cuts in two, for a currency with two decimals.\<close>

lemma padded_digits:
  defines "digits n \<equiv> padStart 3 (CHR ''0'') (decString n)"
  shows "3 \<le> length (digits n)" and "list_all isDigit (digits n)" and "decValue (digits n) = n"
proof -
  show "3 \<le> length (digits n)" by (simp add: digits_def padStart_def)
  show "list_all isDigit (digits n)"
    by (auto simp: digits_def padStart_def list_all_iff zero_char decString_digits)
  show "decValue (digits n) = n"
    by (simp add: digits_def padStart_def zero_char decValue_append)
qed

lemma decimal_trimmed:
  assumes "w \<noteq> []" and "list_all isDigit w"
  shows "trimString w = w"
    and "f \<noteq> [] \<Longrightarrow> list_all isDigit f \<Longrightarrow> trimString (w @ ''.'' @ f) = w @ ''.'' @ f"
  using assms
  by (auto intro!: trimString_id isDigit_not_trimmed simp: list_all_iff)

lemma toDecimalString_parse:
  assumes ok: "moneyOk m" and s: "toDecimalString m = Inr s"
  shows "fromDecimalString s (currency m) = Inr m"
proof -
  obtain n where n: "amountMinor m = of_nat n" "n \<le> maxSafeInteger" and cur: "isCurrencyCode (currency m)"
    using ok by (auto simp: moneyOk_def)
  show ?thesis
  proof (cases "minorUnitExponent (currency m) = 0")
    case True
    then have "s = decString n" using ok s n by (simp add: toDecimalString_def)
    moreover have "list_all isDigit (decString n)" by (auto simp: list_all_iff decString_digits)
    ultimately show ?thesis
      using True n cur by (simp add: fromDecimalString_def matchDecimal_whole decimal_trimmed padEnd_def)
  next
    case False
    then have two: "minorUnitExponent (currency m) = 2" by (simp add: minorUnitExponent_def split: if_splits)
    define ds where "ds = padStart 3 (CHR ''0'') (decString n)"
    note ds = padded_digits [of n, folded ds_def]
    define w f where "w = take (length ds - 2) ds" and "f = drop (length ds - 2) ds"
    have wf: "w \<noteq> []" "length f = 2" "list_all isDigit w" "list_all isDigit f" "w @ f = ds"
      using ds(1,2) by (auto simp: w_def f_def list_all_iff dest: in_set_takeD in_set_dropD)
    have "s = w @ ''.'' @ f"
      using ok s n two by (simp add: toDecimalString_def Let_def ds_def w_def f_def)
    moreover from wf(2) have "f \<noteq> []" by auto
    moreover have "decValue (w @ f) = n" using wf(5) ds(3) by simp
    ultimately show ?thesis
      using two n cur wf
      by (simp add: fromDecimalString_def decimal_trimmed(2) matchDecimal_split padEnd_def
          del: append_Cons append_Nil append.simps)
  qed
qed

section \<open>Properties\<close>

text \<open>
  Rendering an amount for a provider and parsing the rendering gives the amount back: for every
  amount \<open>toDecimalString\<close> renders, \<open>fromDecimalString\<close> on its rendering in the same currency returns
  exactly the normalised amount.
\<close>

lemma money_round_trip:
  assumes "toDecimalString m = Inr s"
  shows "fromDecimalString s (currency m) = normaliseMoney m"
proof -
  obtain m' where m': "normaliseMoney m = Inr m'"
    using assms by (cases "normaliseMoney m") (auto simp: toDecimalString_def)
  note ok = normaliseMoney_InrD [OF m']
  have "toDecimalString m' = Inr s" using assms m' ok(1) by (simp add: toDecimalString_def)
  then have "fromDecimalString s (currency m') = Inr m'" by (rule toDecimalString_parse [OF ok(1)])
  moreover have "isCurrencyCode (toUpperCase (currency m))"
    using ok(1,3) by (simp add: moneyOk_def)
  ultimately show ?thesis using m' ok(3) by (simp add: fromDecimalString_def Let_def)
qed

lemma money_round_trip_witness:
  "toDecimalString \<lparr>amountMinor = 2350, currency = ''eur''\<rparr> = Inr ''23.50''
   \<and> fromDecimalString ''23.50'' ''eur'' = normaliseMoney \<lparr>amountMinor = 2350, currency = ''eur''\<rparr>"
proof -
  have "toDecimalString \<lparr>amountMinor = 2350, currency = ''eur''\<rparr> = Inr ''23.50''"
    by (simp add: toDecimalString_def normaliseMoney_def isCurrencyCode_def isInteger_def maxSafeInteger_def
        toUpperCase_def toUpperChar_def isUpper_def minorUnitExponent_def zeroDecimalCurrencies_def
        decString.simps padStart_def digitChar_def char_of_def bit_0)
  with money_round_trip [OF this] show ?thesis by simp
qed

end
