(* ===== verification/Orders.thy ===== *)
theory Orders
  imports Money
begin

text \<open>
  The orders domain below the saga: baskets (\<open>src/orders/basket.ts\<close>), prices
  (\<open>src/orders/catalogue.ts\<close>), the warehouse and the carrier
  (\<open>src/orders/services/in-memory-inventory.service.ts\<close>, \<open>in-memory-shipping.service.ts\<close>) and the
  order table (\<open>src/test-utils/in-memory-order.store.ts\<close>). Quantities, prices and stock are integers.
\<close>

section \<open>Baskets\<close>

record reservedLine =
  sku :: string
  quantity :: int

record orderItem = reservedLine +
  unitPriceMinor :: int

datatype orderInputError = LineQuantityExceededError string int | UnknownSkuError string

definition maxQuantityPerSku :: int where
  "maxQuantityPerSku = 100"

text \<open>One round of the loop of \<open>mergeLines\<close>; the map keeps the position of the first line of a SKU.\<close>

definition mergeLine :: "'a reservedLine_scheme \<Rightarrow> (string \<times> 'a reservedLine_scheme) list
    \<Rightarrow> (string \<times> 'a reservedLine_scheme) list" where
  "mergeLine line merged =
     AList.update (sku line)
       (case map_of merged (sku line) of
          Some seen \<Rightarrow> seen\<lparr>quantity := quantity seen + quantity line\<rparr>
        | None \<Rightarrow> line) merged"

definition mergeLines :: "'a reservedLine_scheme list \<Rightarrow> 'a reservedLine_scheme list" where
  "mergeLines lines = map snd (fold mergeLine lines [])"

definition canonicaliseBasket :: "'a reservedLine_scheme list
    \<Rightarrow> orderInputError + 'a reservedLine_scheme list" where
  "canonicaliseBasket lines =
     (let basket = mergeLines lines in
      case find (\<lambda>line. quantity line > maxQuantityPerSku) basket of
        Some line \<Rightarrow> Inl (LineQuantityExceededError (sku line) (quantity line))
      | None \<Rightarrow> Inr basket)"

section \<open>Prices\<close>

definition catalogueCurrency :: string where
  "catalogueCurrency = ''GBP''"

definition productCatalogue :: "string \<rightharpoonup> int" where
  "productCatalogue = [''SKU-DESK-01'' \<mapsto> 34900, ''SKU-CHAIR-02'' \<mapsto> 18500, ''SKU-LAMP-03'' \<mapsto> 4250,
     ''SKU-SOLD-OUT'' \<mapsto> 999]"

record pricedOrder =
  poItems :: "orderItem list"
  poTotal :: money

fun priceLines :: "reservedLine list \<Rightarrow> orderInputError + orderItem list" where
  "priceLines [] = Inr []"
| "priceLines (line # rest) =
     (case productCatalogue (sku line) of
        None \<Rightarrow> Inl (UnknownSkuError (sku line))
      | Some price \<Rightarrow>
          rbind (priceLines rest) (\<lambda>items.
            Inr (\<lparr>sku = sku line, quantity = quantity line, unitPriceMinor = price\<rparr> # items)))"

definition itemsTotal :: "orderItem list \<Rightarrow> int" where
  "itemsTotal items = foldl (\<lambda>sum item. sum + unitPriceMinor item * quantity item) 0 items"

definition priceOrder :: "reservedLine list \<Rightarrow> orderInputError + pricedOrder" where
  "priceOrder lines =
     rbind (priceLines lines) (\<lambda>priced. rbind (canonicaliseBasket priced) (\<lambda>items.
       Inr \<lparr>poItems = items,
            poTotal = \<lparr>amountMinor = of_int (itemsTotal items), currency = catalogueCurrency\<rparr>\<rparr>))"

section \<open>The warehouse\<close>

record stockReservation =
  srId :: string
  srOrderId :: string
  srLines :: "reservedLine list"
  srHeld :: bool

record inventory =
  ivStock :: "string \<rightharpoonup> int"
  ivReservations :: "(string \<times> stockReservation) list"

datatype outOfStock = OutOfStockError string int int

definition stockOf :: "inventory \<Rightarrow> string \<Rightarrow> int" where
  "stockOf iv s = (case ivStock iv s of Some n \<Rightarrow> n | None \<Rightarrow> 0)"

fun shortLine :: "inventory \<Rightarrow> reservedLine list \<Rightarrow> outOfStock option" where
  "shortLine iv [] = None"
| "shortLine iv (line # rest) =
     (let available = stockOf iv (sku line) in
      if available < quantity line then Some (OutOfStockError (sku line) (quantity line) available)
      else shortLine iv rest)"

definition adjustStock :: "int \<Rightarrow> reservedLine list \<Rightarrow> inventory \<Rightarrow> inventory" where
  "adjustStock sign lines iv =
     fold (\<lambda>line iv. iv\<lparr>ivStock := (ivStock iv)(sku line \<mapsto> stockOf iv (sku line) + sign * quantity line)\<rparr>)
       lines iv"

definition reserveStock :: "string \<Rightarrow> string \<Rightarrow> reservedLine list \<Rightarrow> inventory
    \<Rightarrow> (outOfStock + stockReservation) \<times> inventory" where
  "reserveStock reservationId orderId ls iv =
     (case map_of (ivReservations iv) reservationId of
        Some existing \<Rightarrow> (Inr existing, iv)
      | None \<Rightarrow>
          (let lines = mergeLines ls in
           case shortLine iv lines of
             Some e \<Rightarrow> (Inl e, iv)
           | None \<Rightarrow>
               (let iv' = adjustStock (-1) lines iv;
                    r = \<lparr>srId = reservationId, srOrderId = orderId, srLines = lines, srHeld = True\<rparr>
                in (Inr r, iv'\<lparr>ivReservations := AList.update reservationId r (ivReservations iv')\<rparr>))))"

definition releaseStock :: "string \<Rightarrow> inventory \<Rightarrow> inventory" where
  "releaseStock reservationId iv =
     (case map_of (ivReservations iv) reservationId of
        None \<Rightarrow> iv
      | Some r \<Rightarrow>
          (if \<not> srHeld r then iv
           else let iv' = adjustStock 1 (srLines r) iv
                in iv'\<lparr>ivReservations := AList.update reservationId (r\<lparr>srHeld := False\<rparr>) (ivReservations iv')\<rparr>))"

section \<open>The carrier\<close>

record shipment =
  shId :: string
  shOrderId :: string
  shCarrier :: string
  shTrackingCode :: string
  shDestination :: string

record carrier =
  crShipments :: "(string \<times> shipment) list"
  crSequence :: nat

datatype unserviced = UnservicedDestinationError string

definition servicedCountries :: "string list" where
  "servicedCountries = [''GB'', ''IE'', ''FR'', ''DE'', ''US'', ''CA'']"

definition carriers :: "string list" where
  "carriers = [''parcelforce'', ''dhl'', ''ups'']"

definition createShipment :: "string \<Rightarrow> string \<Rightarrow> string \<Rightarrow> carrier \<Rightarrow> (unserviced + shipment) \<times> carrier" where
  "createShipment shipmentId orderId dest cr =
     (case map_of (crShipments cr) shipmentId of
        Some existing \<Rightarrow> (Inr existing, cr)
      | None \<Rightarrow>
          (let destination = toUpperCase dest in
           if destination \<notin> set servicedCountries then (Inl (UnservicedDestinationError destination), cr)
           else let sq = crSequence cr + 1;
                    s = \<lparr>shId = shipmentId, shOrderId = orderId,
                         shCarrier = carriers ! (sq mod length carriers),
                         shTrackingCode = ''TRK'' @ padStart 8 (CHR ''0'') (decString sq),
                         shDestination = destination\<rparr>
                in (Inr s, \<lparr>crShipments = AList.update shipmentId s (crShipments cr), crSequence = sq\<rparr>)))"

section \<open>Orders\<close>

datatype orderStatus = PENDING | PROCESSING | CONFIRMED | CANCELLED

record newOrder =
  noId :: string
  noUserId :: string
  noItems :: "orderItem list"
  noTotal :: money
  noShippingCountry :: string
  noSagaId :: string

record orderRecord =
  orId :: string
  orUserId :: string
  orItems :: "orderItem list"
  orTotal :: money
  orShippingCountry :: string
  orStatus :: orderStatus
  orFailureReason :: "string option"
  orSagaId :: string
  orCreatedAt :: int
  orUpdatedAt :: int

type_synonym orderRows = "(string \<times> orderRecord) list"

definition createOrder :: "int \<Rightarrow> newOrder \<Rightarrow> orderRows \<Rightarrow> orderRecord \<times> orderRows" where
  "createOrder now o' rows =
     (let r = \<lparr>orId = noId o', orUserId = noUserId o', orItems = noItems o', orTotal = noTotal o',
               orShippingCountry = noShippingCountry o', orStatus = PENDING, orFailureReason = None,
               orSagaId = noSagaId o', orCreatedAt = now, orUpdatedAt = now\<rparr>
      in (r, AList.update (orId r) r rows))"

datatype orderMissing = OrderRowNotFound string

definition transitionOrder :: "int \<Rightarrow> string \<Rightarrow> orderStatus \<Rightarrow> string option \<Rightarrow> orderRows
    \<Rightarrow> orderMissing + orderRows" where
  "transitionOrder now i status reason rows =
     (case map_of rows i of
        None \<Rightarrow> Inl (OrderRowNotFound i)
      | Some row \<Rightarrow>
          Inr (AList.update i (row\<lparr>orStatus := status, orFailureReason := reason, orUpdatedAt := now\<rparr>) rows))"

definition findOrder :: "string \<Rightarrow> orderRows \<Rightarrow> orderRecord option" where
  "findOrder i rows = map_of rows i"

section \<open>Merging keeps every weighted total\<close>

definition weightedTotal :: "(string \<Rightarrow> int) \<Rightarrow> 'a reservedLine_scheme list \<Rightarrow> int" where
  "weightedTotal f lines = sum_list (map (\<lambda>l. f (sku l) * quantity l) lines)"

definition quantityOf :: "string \<Rightarrow> 'a reservedLine_scheme list \<Rightarrow> int" where
  "quantityOf s lines = weightedTotal (\<lambda>t. if t = s then 1 else 0) lines"

definition keyedBySku :: "(string \<times> 'a reservedLine_scheme) list \<Rightarrow> bool" where
  "keyedBySku m \<longleftrightarrow> (\<forall>(k, l) \<in> set m. sku l = k)"

lemma weightedTotal_simps [simp]:
  "weightedTotal f [] = 0" "weightedTotal f (l # ls) = f (sku l) * quantity l + weightedTotal f ls"
  by (simp_all add: weightedTotal_def)

lemma mergeLine_keyed: "keyedBySku m \<Longrightarrow> keyedBySku (mergeLine x m)"
proof -
  assume m: "keyedBySku m"
  have "sku (case map_of m (sku x) of Some seen \<Rightarrow> seen\<lparr>quantity := quantity seen + quantity x\<rparr> | None \<Rightarrow> x)
      = sku x"
    using m by (auto simp: keyedBySku_def split: option.splits dest!: map_of_SomeD)
  with m show ?thesis unfolding keyedBySku_def mergeLine_def by (auto dest!: set_updateD)
qed

lemma mergeLine_weighted:
  "keyedBySku m \<Longrightarrow>
   weightedTotal f (map snd (mergeLine x m)) = weightedTotal f (map snd m) + f (sku x) * quantity x"
proof (induction m)
  case Nil
  then show ?case by (simp add: mergeLine_def)
next
  case (Cons kl m)
  obtain k l where kl: "kl = (k, l)" by fastforce
  with Cons.prems have k: "sku l = k" "keyedBySku m" by (auto simp: keyedBySku_def)
  show ?case
  proof (cases "k = sku x")
    case True
    then show ?thesis by (simp add: mergeLine_def kl k algebra_simps)
  next
    case False
    then have "mergeLine x (kl # m) = kl # mergeLine x m" by (simp add: mergeLine_def kl)
    with Cons.IH [OF k(2)] show ?thesis by simp
  qed
qed

lemma merge_fold_weighted:
  assumes "keyedBySku m"
  shows "keyedBySku (fold mergeLine ls m) \<and>
    weightedTotal f (map snd (fold mergeLine ls m)) = weightedTotal f (map snd m) + weightedTotal f ls"
  using assms
  by (induction ls arbitrary: m) (simp_all add: mergeLine_keyed mergeLine_weighted algebra_simps)

lemma mergeLines_weighted: "weightedTotal f (mergeLines ls) = weightedTotal f ls"
  using merge_fold_weighted [of "[]" ls f] by (simp add: mergeLines_def keyedBySku_def)

lemma mergeLine_keys:
  "map fst (mergeLine x m) = (if sku x \<in> set (map fst m) then map fst m else map fst m @ [sku x])"
  by (simp add: mergeLine_def update_keys)

lemma merge_fold_keys: "map fst (fold mergeLine ls []) = rev (remdups (rev (map sku ls)))"
proof (induction ls rule: rev_induct)
  case (snoc l ls)
  then have "set (map fst (fold mergeLine ls [])) = set (map sku ls)" by simp
  with snoc show ?case by (simp add: mergeLine_keys)
qed simp

lemma mergeLines_skus: "map sku (mergeLines ls) = rev (remdups (rev (map sku ls)))"
proof -
  have "keyedBySku (fold mergeLine ls [])"
    using merge_fold_weighted [of "[]" ls "\<lambda>_. 0"] by (simp add: keyedBySku_def)
  then have "map sku (map snd (fold mergeLine ls [])) = map fst (fold mergeLine ls [])"
    by (auto simp: keyedBySku_def)
  then show ?thesis by (simp add: mergeLines_def merge_fold_keys)
qed

lemma merge_fold_distinct:
  assumes "distinct (map sku (map snd m @ ls))" and "map fst m = map sku (map snd m)"
  shows "map snd (fold mergeLine ls m) = map snd m @ ls"
  using assms
proof (induction ls arbitrary: m)
  case (Cons l ls)
  have "sku l \<notin> set (map fst m)" using Cons.prems by auto
  moreover from this have "map_of m (sku l) = None" by (simp add: map_of_eq_None_iff)
  ultimately have "mergeLine l m = m @ [(sku l, l)]"
    unfolding mergeLine_def by (simp add: update_nonempty) (induction m; force)
  with Cons show ?case by simp
qed simp

lemma mergeLines_distinct: "distinct (map sku ls) \<Longrightarrow> mergeLines ls = ls"
  using merge_fold_distinct [of "[]" ls] by (simp add: mergeLines_def)

lemma mergeLines_distinct_skus: "distinct (map sku (mergeLines ls))"
  by (simp add: mergeLines_skus)

lemma quantityOf_simps [simp]:
  "quantityOf s [] = 0"
  "quantityOf s (l # ls) = (if sku l = s then quantity l else 0) + quantityOf s ls"
  by (simp_all add: quantityOf_def)

lemma quantityOf_notin: "s \<notin> sku ` set ls \<Longrightarrow> quantityOf s ls = 0"
  by (induction ls) auto

lemma quantityOf_distinct:
  "distinct (map sku ls) \<Longrightarrow> l \<in> set ls \<Longrightarrow> quantityOf (sku l) ls = quantity l"
  by (induction ls) (auto simp: quantityOf_notin)

lemma quantityOf_nonneg: "\<forall>l \<in> set ls. 0 \<le> quantity l \<Longrightarrow> 0 \<le> quantityOf s ls"
  by (induction ls) auto

lemma mergeLines_quantity: "quantityOf s (mergeLines ls) = quantityOf s ls"
  by (simp add: quantityOf_def mergeLines_weighted)

lemma mergeLines_nonneg:
  assumes "\<forall>l \<in> set ls. 0 \<le> quantity l" and "l \<in> set (mergeLines ls)"
  shows "0 \<le> quantity l"
  using quantityOf_distinct [OF mergeLines_distinct_skus assms(2)] quantityOf_nonneg [OF assms(1), of "sku l"]
  by (simp add: mergeLines_quantity)

section \<open>Stock is conserved\<close>

definition heldStock :: "(string \<times> stockReservation) list \<Rightarrow> string \<Rightarrow> int" where
  "heldStock rs s = sum_list (map (\<lambda>(i, r). if srHeld r then quantityOf s (srLines r) else 0) rs)"

definition inventoryOk :: "inventory \<Rightarrow> bool" where
  "inventoryOk iv \<longleftrightarrow> distinct (map fst (ivReservations iv)) \<and> (\<forall>s. 0 \<le> stockOf iv s)
     \<and> (\<forall>(i, r) \<in> set (ivReservations iv). srId r = i \<and> (\<forall>l \<in> set (srLines r). 0 \<le> quantity l))"

lemma adjustStock_reservations [simp]: "ivReservations (adjustStock g ls iv) = ivReservations iv"
  unfolding adjustStock_def by (induction ls arbitrary: iv) simp_all

lemma stockOf_reservations [simp]: "stockOf (iv\<lparr>ivReservations := rs\<rparr>) s = stockOf iv s"
  by (simp add: stockOf_def)

lemma adjustStock_stock: "stockOf (adjustStock g ls iv) s = stockOf iv s + g * quantityOf s ls"
  unfolding adjustStock_def
  by (induction ls arbitrary: iv) (simp_all add: stockOf_def algebra_simps)

lemma shortLine_None: "shortLine iv ls = None \<Longrightarrow> l \<in> set ls \<Longrightarrow> quantity l \<le> stockOf iv (sku l)"
  by (induction ls) (auto simp: Let_def split: if_splits)

lemma heldStock_new: "i \<notin> fst ` set rs \<Longrightarrow>
    heldStock (AList.update i r rs) s = heldStock rs s + (if srHeld r then quantityOf s (srLines r) else 0)"
  by (induction rs) (auto simp: heldStock_def)

lemma heldStock_replace: "distinct (map fst rs) \<Longrightarrow> map_of rs i = Some r \<Longrightarrow>
    heldStock (AList.update i r' rs) s = heldStock rs s - (if srHeld r then quantityOf s (srLines r) else 0)
      + (if srHeld r' then quantityOf s (srLines r') else 0)"
  by (induction rs) (auto simp: heldStock_def split: if_splits)

lemma reserveStock_fresh:
  assumes ok: "inventoryOk iv" and q: "\<forall>l \<in> set ls. 0 \<le> quantity l"
    and new: "map_of (ivReservations iv) i = None" and short: "shortLine iv (mergeLines ls) = None"
    and run: "reserveStock i o' ls iv = (out, iv')"
  shows "inventoryOk iv'"
    and "stockOf iv' s = stockOf iv s - quantityOf s ls"
    and "heldStock (ivReservations iv') s = heldStock (ivReservations iv) s + quantityOf s ls"
proof -
  define r where "r = \<lparr>srId = i, srOrderId = o', srLines = mergeLines ls, srHeld = True\<rparr>"
  have iv': "iv' = (adjustStock (-1) (mergeLines ls) iv)\<lparr>ivReservations := AList.update i r (ivReservations iv)\<rparr>"
    using run new short by (simp add: reserveStock_def Let_def r_def)
  have stock: "stockOf iv' s = stockOf iv s - quantityOf s ls" for s
    by (simp add: iv' adjustStock_stock mergeLines_quantity)
  then show "stockOf iv' s = stockOf iv s - quantityOf s ls" .
  have fresh: "i \<notin> fst ` set (ivReservations iv)" using new by (simp add: map_of_eq_None_iff)
  show "heldStock (ivReservations iv') s = heldStock (ivReservations iv) s + quantityOf s ls"
    by (simp add: iv' heldStock_new [OF fresh] r_def mergeLines_quantity)
  have "0 \<le> stockOf iv' s" for s
  proof (cases "s \<in> sku ` set (mergeLines ls)")
    case True
    then obtain l where "l \<in> set (mergeLines ls)" "sku l = s" by blast
    with shortLine_None [OF short] quantityOf_distinct [OF mergeLines_distinct_skus [of ls], of l]
    show ?thesis by (fastforce simp: stock mergeLines_quantity)
  next
    case False
    then have "quantityOf s ls = 0" using quantityOf_notin [of s "mergeLines ls"] by (simp add: mergeLines_quantity)
    with ok show ?thesis by (simp add: stock inventoryOk_def)
  qed
  moreover have "\<forall>(j, r) \<in> set (ivReservations iv'). srId r = j \<and> (\<forall>l \<in> set (srLines r). 0 \<le> quantity l)"
    unfolding iv' using ok mergeLines_nonneg [OF q] by (auto simp: inventoryOk_def r_def dest!: set_updateD)
  ultimately show "inventoryOk iv'"
    using ok by (simp add: inventoryOk_def iv' distinct_update)
qed

lemma reserveStock_conserves:
  assumes ok: "inventoryOk iv" and q: "\<forall>l \<in> set ls. 0 \<le> quantity l"
    and run: "reserveStock i o' ls iv = (out, iv')"
  shows "inventoryOk iv' \<and> stockOf iv' s + heldStock (ivReservations iv') s = stockOf iv s + heldStock (ivReservations iv) s"
proof (cases "map_of (ivReservations iv) i = None \<and> shortLine iv (mergeLines ls) = None")
  case True
  with reserveStock_fresh [OF ok q _ _ run] show ?thesis by simp
next
  case False
  then have "iv' = iv" using run by (auto simp: reserveStock_def Let_def split: option.splits)
  with ok show ?thesis by simp
qed

lemma releaseStock_conserves:
  assumes ok: "inventoryOk iv"
  shows "inventoryOk (releaseStock i iv)
    \<and> stockOf (releaseStock i iv) s + heldStock (ivReservations (releaseStock i iv)) s
        = stockOf iv s + heldStock (ivReservations iv) s"
proof (cases "map_of (ivReservations iv) i")
  case None
  with ok show ?thesis by (simp add: releaseStock_def)
next
  case (Some r)
  show ?thesis
  proof (cases "srHeld r")
    case False
    with Some ok show ?thesis by (simp add: releaseStock_def)
  next
    case True
    let ?iv = "releaseStock i iv" and ?r = "r\<lparr>srHeld := False\<rparr>"
    have iv: "?iv = (adjustStock 1 (srLines r) iv)\<lparr>ivReservations := AList.update i ?r (ivReservations iv)\<rparr>"
      using Some True by (simp add: releaseStock_def Let_def)
    have r: "srId r = i" "\<forall>l \<in> set (srLines r). 0 \<le> quantity l"
      using ok map_of_SomeD [OF Some] by (auto simp: inventoryOk_def)
    have "\<forall>(j, r) \<in> set (ivReservations ?iv). srId r = j \<and> (\<forall>l \<in> set (srLines r). 0 \<le> quantity l)"
      unfolding iv using ok r by (auto simp: inventoryOk_def dest!: set_updateD)
    moreover have "0 \<le> stockOf ?iv s" for s
      using ok quantityOf_nonneg [OF r(2), of s] by (simp add: iv adjustStock_stock inventoryOk_def)
    ultimately have "inventoryOk ?iv" using ok by (simp add: inventoryOk_def iv distinct_update)
    moreover have "heldStock (ivReservations ?iv) s = heldStock (ivReservations iv) s - quantityOf s (srLines r)"
      using ok Some True by (simp add: iv heldStock_replace inventoryOk_def)
    ultimately show ?thesis by (simp add: iv adjustStock_stock)
  qed
qed

section \<open>Properties of baskets, prices and stock\<close>

text \<open>A property of lines that does not look at the quantity survives the merge.\<close>

lemma mergeLines_invariant:
  assumes "\<forall>l \<in> set ls. Q l" and "\<And>l q. Q l \<Longrightarrow> Q (l\<lparr>quantity := q\<rparr>)"
  shows "\<forall>l \<in> set (mergeLines ls). Q l"
proof -
  have "\<forall>(k, l) \<in> set (fold mergeLine ls m). Q l" if "\<forall>l \<in> set ls. Q l" "\<forall>(k, l) \<in> set m. Q l" for m
    using that
  proof (induction ls arbitrary: m)
    case (Cons x ls)
    have "\<forall>(k, l) \<in> set (mergeLine x m). Q l"
      using Cons.prems assms(2)
      by (auto simp: mergeLine_def split: option.splits dest!: set_updateD map_of_SomeD)
    with Cons show ?case by simp
  qed simp
  from this [of "[]"] assms(1) show ?thesis by (auto simp: mergeLines_def)
qed

lemma priceLines_Inr:
  assumes "priceLines ls = Inr items"
  shows "map sku items = map sku ls \<and> map quantity items = map quantity ls
    \<and> (\<forall>it \<in> set items. productCatalogue (sku it) = Some (unitPriceMinor it))"
  using assms
  by (induction ls arbitrary: items) (auto simp: rbind_eq_Inr_iff split: option.splits)

lemma weightedTotal_cong:
  "map sku xs = map sku ys \<Longrightarrow> map quantity xs = map quantity ys \<Longrightarrow> weightedTotal f xs = weightedTotal f ys"
  by (induction xs arbitrary: ys) (auto simp: Cons_eq_map_conv)

lemma itemsTotal_eq: "itemsTotal items = sum_list (map (\<lambda>it. unitPriceMinor it * quantity it) items)"
proof -
  have "foldl (\<lambda>sum it. sum + unitPriceMinor it * quantity it) a items
      = a + sum_list (map (\<lambda>it. unitPriceMinor it * quantity it) items)" for a
    by (induction items arbitrary: a) simp_all
  then show ?thesis by (simp add: itemsTotal_def)
qed

lemma canonicaliseBasket_Inr:
  "canonicaliseBasket ls = Inr b \<longleftrightarrow> b = mergeLines ls \<and> (\<forall>l \<in> set b. quantity l \<le> maxQuantityPerSku)"
  by (auto simp: canonicaliseBasket_def Let_def find_None_iff find_Some_iff not_less split: option.splits)
    (meson not_le nth_mem)

text \<open>
  Merging a basket gives one line per product, in order of first appearance, changes no
  product's total quantity, and does nothing to a basket that is already merged.
\<close>

theorem merge_lines_spec:
  "map sku (mergeLines ls) = rev (remdups (rev (map sku ls)))
   \<and> (\<forall>s. quantityOf s (mergeLines ls) = quantityOf s ls)
   \<and> mergeLines (mergeLines ls) = mergeLines ls"
  by (simp add: mergeLines_skus mergeLines_quantity mergeLines_distinct)

text \<open>
  A priced order has one item per product asked for, at the catalogue's price and for the total
  quantity asked, at most a hundred; and its total is the catalogue price of everything on the
  caller's lines.
\<close>

lemma price_order_total:
  assumes "priceOrder ls = Inr p"
  shows "amountMinor (poTotal p) = of_int (weightedTotal (\<lambda>s. the (productCatalogue s)) ls)
    \<and> distinct (map sku (poItems p)) \<and> sku ` set (poItems p) = sku ` set ls
    \<and> (\<forall>it \<in> set (poItems p). productCatalogue (sku it) = Some (unitPriceMinor it)
         \<and> quantity it = quantityOf (sku it) ls \<and> quantity it \<le> 100)"
proof -
  obtain items where items: "priceLines ls = Inr items"
    and p: "poItems p = mergeLines items" "amountMinor (poTotal p) = of_int (itemsTotal (mergeLines items))"
    and le: "\<forall>l \<in> set (mergeLines items). quantity l \<le> maxQuantityPerSku"
    using assms by (auto simp: priceOrder_def rbind_eq_Inr_iff canonicaliseBasket_Inr)
  note pr = priceLines_Inr [OF items]
  have price: "\<forall>it \<in> set (mergeLines items). productCatalogue (sku it) = Some (unitPriceMinor it)"
    using pr by (intro mergeLines_invariant) auto
  then have "itemsTotal (mergeLines items) = weightedTotal (\<lambda>s. the (productCatalogue s)) (mergeLines items)"
    unfolding itemsTotal_eq weightedTotal_def by (intro arg_cong [of _ _ sum_list] map_cong) auto
  also have "\<dots> = weightedTotal (\<lambda>s. the (productCatalogue s)) ls"
    using weightedTotal_cong [of items ls] pr by (simp add: mergeLines_weighted)
  finally have sum: "itemsTotal (mergeLines items) = \<dots>" .
  have qty: "quantity it = quantityOf (sku it) ls" if "it \<in> set (mergeLines items)" for it
    using quantityOf_distinct [OF mergeLines_distinct_skus that] weightedTotal_cong [of items ls] pr
    by (simp add: quantityOf_def mergeLines_weighted)
  have "sku ` set (mergeLines items) = set (map sku items)"
    using mergeLines_skus [of items] by (metis list.set_map set_remdups set_rev)
  also have "\<dots> = sku ` set ls" using pr by simp
  finally show ?thesis
    using p sum price qty le mergeLines_distinct_skus [of items] by (simp add: maxQuantityPerSku_def)
qed

lemma price_order_total_witness:
  "let ls = [\<lparr>sku = ''SKU-LAMP-03'', quantity = 2\<rparr>, \<lparr>sku = ''SKU-DESK-01'', quantity = 1\<rparr>,
             \<lparr>sku = ''SKU-LAMP-03'', quantity = 1\<rparr>]
   in \<exists>p. priceOrder ls = Inr p \<and> amountMinor (poTotal p) = 47650"
proof -
  let ?ls = "[\<lparr>sku = ''SKU-LAMP-03'', quantity = 2\<rparr>, \<lparr>sku = ''SKU-DESK-01'', quantity = 1\<rparr>,
             \<lparr>sku = ''SKU-LAMP-03'', quantity = 1\<rparr>]"
  obtain p where p: "priceOrder ?ls = Inr p"
    by (simp add: priceOrder_def productCatalogue_def canonicaliseBasket_def mergeLines_def mergeLine_def
        maxQuantityPerSku_def)
  from price_order_total [OF p] p show ?thesis
    by (auto simp: productCatalogue_def)
qed

datatype inventoryCall = CallReserve string string "reservedLine list" | CallRelease string

fun inventoryStep :: "inventoryCall \<Rightarrow> inventory \<Rightarrow> inventory" where
  "inventoryStep (CallReserve i o' ls) iv = snd (reserveStock i o' ls iv)"
| "inventoryStep (CallRelease i) iv = releaseStock i iv"

fun callOk :: "inventoryCall \<Rightarrow> bool" where
  "callOk (CallReserve i o' ls) = (\<forall>l \<in> set ls. 0 \<le> quantity l)"
| "callOk (CallRelease i) = True"

lemma inventoryStep_conserves:
  assumes "inventoryOk iv" and "callOk c"
  shows "inventoryOk (inventoryStep c iv)
    \<and> stockOf (inventoryStep c iv) s + heldStock (ivReservations (inventoryStep c iv)) s
        = stockOf iv s + heldStock (ivReservations iv) s"
proof (cases c)
  case (CallReserve i o' ls)
  with assms reserveStock_conserves [OF assms(1) _ prod.collapse [symmetric], of ls i o' s]
  show ?thesis by simp
next
  case (CallRelease i)
  with releaseStock_conserves [OF assms(1), of i s] show ?thesis by simp
qed

lemma inventoryCalls_conserve:
  assumes "inventoryOk iv" and "\<forall>c \<in> set calls. callOk c"
  shows "inventoryOk (fold inventoryStep calls iv)
    \<and> stockOf (fold inventoryStep calls iv) s + heldStock (ivReservations (fold inventoryStep calls iv)) s
        = stockOf iv s + heldStock (ivReservations iv) s"
  using assms
proof (induction calls arbitrary: iv)
  case (Cons c calls)
  from inventoryStep_conserves [OF Cons.prems(1), of c s] Cons.prems
  have "inventoryOk (inventoryStep c iv)" "callOk c" by auto
  with Cons.IH [of "inventoryStep c iv"] inventoryStep_conserves [OF Cons.prems(1), of c s] Cons.prems
  show ?case by simp
qed simp

text \<open>
  C40. Whatever is reserved and released, in any order, retried or not, the warehouse neither creates
  nor loses stock: what is on the shelf plus what is held is what was on the shelf at the start, and
  no shelf goes below zero.
\<close>

theorem stock_conserved:
  assumes "\<forall>s. 0 \<le> stockOf iv s" and "ivReservations iv = []" and "\<forall>c \<in> set calls. callOk c"
  shows "let iv' = fold inventoryStep calls iv in
    0 \<le> stockOf iv' s \<and> stockOf iv' s + heldStock (ivReservations iv') s = stockOf iv s"
proof -
  have "inventoryOk iv" using assms(1,2) by (simp add: inventoryOk_def)
  from inventoryCalls_conserve [OF this assms(3), of s] assms(2) show ?thesis
    by (auto simp: Let_def inventoryOk_def heldStock_def)
qed

theorem stock_conserved_witness:
  "let iv = \<lparr>ivStock = [''SKU-LAMP-03'' \<mapsto> 12], ivReservations = []\<rparr>;
       iv' = fold inventoryStep [CallReserve ''r1'' ''o1'' [\<lparr>sku = ''SKU-LAMP-03'', quantity = 5\<rparr>],
               CallReserve ''r1'' ''o1'' [\<lparr>sku = ''SKU-LAMP-03'', quantity = 5\<rparr>],
               CallReserve ''r2'' ''o2'' [\<lparr>sku = ''SKU-LAMP-03'', quantity = 8\<rparr>]] iv
   in 0 \<le> stockOf iv' ''SKU-LAMP-03''
      \<and> stockOf iv' ''SKU-LAMP-03'' + heldStock (ivReservations iv') ''SKU-LAMP-03'' = 12"
  using stock_conserved [of "\<lparr>ivStock = [''SKU-LAMP-03'' \<mapsto> 12], ivReservations = []\<rparr>"
      "[CallReserve ''r1'' ''o1'' [\<lparr>sku = ''SKU-LAMP-03'', quantity = 5\<rparr>],
        CallReserve ''r1'' ''o1'' [\<lparr>sku = ''SKU-LAMP-03'', quantity = 5\<rparr>],
        CallReserve ''r2'' ''o2'' [\<lparr>sku = ''SKU-LAMP-03'', quantity = 8\<rparr>]]" "''SKU-LAMP-03''"]
  by (simp add: stockOf_def Let_def del: fold_simps inventoryStep.simps)

end
