(* ===== verification/Payments.thy ===== *)
theory Payments
  imports Money
begin

text \<open>
  The payments domain: the refund rules of \<open>src/payments/refund-rules.ts\<close>, the state machine of
  \<open>src/payments/providers/mock-payment.provider.ts\<close> and the provider registry of
  \<open>src/payments/payment-provider.factory.ts\<close>. The mock gateway's two maps are association lists.
\<close>

section \<open>Payments\<close>

datatype paymentProviderName = Stripe | Paypal | Mock

datatype paymentStatus =
    RequiresAction | Authorized | Processing | Succeeded | PartiallyRefunded | Refunded | Canceled | PaymentFailed

record payment =
  payId :: string
  payProvider :: paymentProviderName
  payStatus :: paymentStatus
  payAmount :: money
  payRefunded :: money
  payReference :: string

datatype paymentError =
    InvalidMoneyError invalidMoney
  | PaymentNotFoundError paymentProviderName string
  | CannotRefundFrom string paymentStatus
  | CannotRefundCurrency string string
  | RefundNotPositive
  | RefundExceeds string rat rat
  | CannotCaptureFrom string paymentStatus
  | UnknownPaymentProviderError string
  | PaymentProviderNotConfiguredError paymentProviderName "string list"
  | PaymentProviderError string

definition mapError :: "('e \<Rightarrow> 'f) \<Rightarrow> 'e + 'a \<Rightarrow> 'f + 'a" where
  "mapError f x = (case x of Inl e \<Rightarrow> Inl (f e) | Inr a \<Rightarrow> Inr a)"

definition resolveRefundAmount :: "payment \<Rightarrow> money option \<Rightarrow> paymentError + money" where
  "resolveRefundAmount p amount =
     (if payStatus p \<noteq> Succeeded \<and> payStatus p \<noteq> PartiallyRefunded
      then Inl (CannotRefundFrom (payId p) (payStatus p))
      else let remaining = amountMinor (payAmount p) - amountMinor (payRefunded p) in
        rbind (case amount of
            Some a \<Rightarrow> mapError InvalidMoneyError (normaliseMoney a)
          | None \<Rightarrow> Inr \<lparr>amountMinor = remaining, currency = currency (payAmount p)\<rparr>)
          (\<lambda>requested.
            if \<not> sameCurrency requested (payAmount p)
            then Inl (CannotRefundCurrency (currency requested) (currency (payAmount p)))
            else if amountMinor requested = 0 then Inl RefundNotPositive
            else if amountMinor requested > remaining then Inl (RefundExceeds (payId p) (amountMinor requested) remaining)
            else Inr requested))"

section \<open>The mock gateway\<close>

record mockGateway =
  gwPayments :: "(string \<times> payment) list"
  gwIdsByReference :: "(string \<times> string) list"
  gwSequence :: nat

definition emptyGateway :: mockGateway where
  "emptyGateway = \<lparr>gwPayments = [], gwIdsByReference = [], gwSequence = 0\<rparr>"

definition findPayment :: "string \<Rightarrow> mockGateway \<Rightarrow> payment option" where
  "findPayment i g = map_of (gwPayments g) i"

definition requirePayment :: "string \<Rightarrow> mockGateway \<Rightarrow> paymentError + payment" where
  "requirePayment i g =
     (case map_of (gwPayments g) i of None \<Rightarrow> Inl (PaymentNotFoundError Mock i) | Some p \<Rightarrow> Inr p)"

definition storePayment :: "payment \<Rightarrow> mockGateway \<Rightarrow> mockGateway" where
  "storePayment p g = g\<lparr>gwPayments := AList.update (payId p) p (gwPayments g)\<rparr>"

definition mockPaymentId :: "nat \<Rightarrow> string" where
  "mockPaymentId n = ''pay_mock_'' @ padStart 6 (CHR ''0'') (decString n)"

definition authorizePayment :: "money \<Rightarrow> string \<Rightarrow> mockGateway \<Rightarrow> (paymentError + payment) \<times> mockGateway" where
  "authorizePayment amt reference g =
     (case mapError InvalidMoneyError (normaliseMoney amt) of
        Inl e \<Rightarrow> (Inl e, g)
      | Inr amount \<Rightarrow>
          (case map_of (gwIdsByReference g) reference of
             Some existingId \<Rightarrow> (requirePayment existingId g, g)
           | None \<Rightarrow>
               (let sq = gwSequence g + 1;
                    p = \<lparr>payId = mockPaymentId sq, payProvider = Mock, payStatus = Authorized,
                         payAmount = amount,
                         payRefunded = \<lparr>amountMinor = 0, currency = currency amount\<rparr>,
                         payReference = reference\<rparr>
                in (Inr p, \<lparr>gwPayments = AList.update (payId p) p (gwPayments g),
                            gwIdsByReference = AList.update reference (payId p) (gwIdsByReference g),
                            gwSequence = sq\<rparr>))))"

definition capturePayment :: "string \<Rightarrow> mockGateway \<Rightarrow> (paymentError + payment) \<times> mockGateway" where
  "capturePayment i g =
     (case requirePayment i g of
        Inl e \<Rightarrow> (Inl e, g)
      | Inr p \<Rightarrow>
          (if payStatus p \<noteq> Authorized then (Inl (CannotCaptureFrom i (payStatus p)), g)
           else let p' = p\<lparr>payStatus := Succeeded\<rparr> in (Inr p', storePayment p' g)))"

definition refundPayment :: "string \<Rightarrow> money option \<Rightarrow> mockGateway \<Rightarrow> (paymentError + payment) \<times> mockGateway" where
  "refundPayment i amount g =
     (case rbind (requirePayment i g) (\<lambda>p. rbind (resolveRefundAmount p amount) (\<lambda>r. Inr (p, r))) of
        Inl e \<Rightarrow> (Inl e, g)
      | Inr (p, requested) \<Rightarrow>
          (let refunded = amountMinor (payRefunded p) + amountMinor requested;
               p' = p\<lparr>payStatus := (if refunded = amountMinor (payAmount p) then Refunded else PartiallyRefunded),
                      payRefunded := \<lparr>amountMinor = refunded, currency = currency (payAmount p)\<rparr>\<rparr>
           in (Inr p', storePayment p' g)))"

section \<open>The factory\<close>

record registeredProvider =
  rpName :: paymentProviderName
  rpConfigured :: bool

fun providerNamed :: "string \<Rightarrow> paymentProviderName option" where
  "providerNamed s = (if s = ''stripe'' then Some Stripe else if s = ''paypal'' then Some Paypal
     else if s = ''mock'' then Some Mock else None)"

fun providerText :: "paymentProviderName \<Rightarrow> string" where
  "providerText Stripe = ''stripe''"
| "providerText Paypal = ''paypal''"
| "providerText Mock = ''mock''"

datatype factoryError = DuplicateProvider paymentProviderName | DefaultNotRegistered string

fun duplicateProvider :: "paymentProviderName list \<Rightarrow> registeredProvider list \<Rightarrow> paymentProviderName option" where
  "duplicateProvider seen [] = None"
| "duplicateProvider seen (p # ps) =
     (if rpName p \<in> set seen then Some (rpName p) else duplicateProvider (rpName p # seen) ps)"

record paymentFactory =
  pfRegistry :: "registeredProvider list"
  pfDefault :: paymentProviderName

definition makeFactory :: "string option \<Rightarrow> registeredProvider list \<Rightarrow> factoryError + paymentFactory" where
  "makeFactory configured ps =
     (case duplicateProvider [] ps of
        Some n \<Rightarrow> Inl (DuplicateProvider n)
      | None \<Rightarrow>
          (let name = (case configured of Some c \<Rightarrow> c | None \<Rightarrow> ''mock'') in
           case providerNamed name of
             None \<Rightarrow> Inl (DefaultNotRegistered name)
           | Some n \<Rightarrow>
               (if n \<notin> set (map rpName ps) then Inl (DefaultNotRegistered name)
                else Inr \<lparr>pfRegistry = ps, pfDefault = n\<rparr>)))"

fun requiredEnvFor :: "paymentProviderName \<Rightarrow> string list" where
  "requiredEnvFor Stripe = [''STRIPE_SECRET_KEY'']"
| "requiredEnvFor Paypal = [''PAYPAL_CLIENT_ID'', ''PAYPAL_CLIENT_SECRET'']"
| "requiredEnvFor Mock = []"

definition resolveProvider :: "paymentFactory \<Rightarrow> string option \<Rightarrow> paymentError + registeredProvider" where
  "resolveProvider f name =
     (let requested = (case name of None \<Rightarrow> providerText (pfDefault f) | Some s \<Rightarrow> s) in
      case providerNamed requested of
        None \<Rightarrow> Inl (UnknownPaymentProviderError requested)
      | Some n \<Rightarrow>
          (case find (\<lambda>p. rpName p = n) (pfRegistry f) of
             None \<Rightarrow> Inl (UnknownPaymentProviderError requested)
           | Some p \<Rightarrow>
               (if \<not> rpConfigured p
                then Inl (PaymentProviderNotConfiguredError (rpName p) (requiredEnvFor (rpName p)))
                else Inr p)))"

section \<open>The invariant of the gateway\<close>

definition paymentOk :: "payment \<Rightarrow> bool" where
  "paymentOk p \<longleftrightarrow> moneyOk (payAmount p) \<and> currency (payRefunded p) = currency (payAmount p)
     \<and> 0 \<le> amountMinor (payRefunded p) \<and> amountMinor (payRefunded p) \<le> amountMinor (payAmount p)
     \<and> (case payStatus p of
          Authorized \<Rightarrow> amountMinor (payRefunded p) = 0
        | Succeeded \<Rightarrow> amountMinor (payRefunded p) = 0
        | PartiallyRefunded \<Rightarrow> 0 < amountMinor (payRefunded p)
            \<and> amountMinor (payRefunded p) < amountMinor (payAmount p)
        | Refunded \<Rightarrow> 0 < amountMinor (payRefunded p)
            \<and> amountMinor (payRefunded p) = amountMinor (payAmount p)
        | _ \<Rightarrow> False)"

definition gatewayOk :: "mockGateway \<Rightarrow> bool" where
  "gatewayOk g \<longleftrightarrow>
     (\<forall>i p. findPayment i g = Some p \<longrightarrow> payId p = i \<and> paymentOk p
        \<and> map_of (gwIdsByReference g) (payReference p) = Some i
        \<and> (\<exists>k. 0 < k \<and> k \<le> gwSequence g \<and> i = mockPaymentId k))
     \<and> (\<forall>r i. map_of (gwIdsByReference g) r = Some i \<longrightarrow>
          (\<exists>p. findPayment i g = Some p \<and> payReference p = r))"

lemma mockPaymentId_inject [simp]: "mockPaymentId m = mockPaymentId n \<longleftrightarrow> m = n"
proof
  assume "mockPaymentId m = mockPaymentId n"
  then have "decValue (padStart 6 (CHR ''0'') (decString m)) = decValue (padStart 6 (CHR ''0'') (decString n))"
    by (simp add: mockPaymentId_def)
  then show "m = n" by (simp add: padStart_def zero_char decValue_append)
qed simp

lemma findPayment_store [simp]:
  "findPayment j (storePayment p g) = (if j = payId p then Some p else findPayment j g)"
  by (simp add: findPayment_def storePayment_def update_conv')

lemma storePayment_fields [simp]:
  "gwIdsByReference (storePayment p g) = gwIdsByReference g" "gwSequence (storePayment p g) = gwSequence g"
  by (simp_all add: storePayment_def)

lemma requirePayment_InrD: "requirePayment i g = Inr p \<longleftrightarrow> findPayment i g = Some p"
  by (simp add: requirePayment_def findPayment_def split: option.splits)

lemma gatewayOkD:
  assumes "gatewayOk g" and "findPayment i g = Some p"
  shows "payId p = i" and "paymentOk p" and "map_of (gwIdsByReference g) (payReference p) = Some i"
    and "\<exists>k. 0 < k \<and> k \<le> gwSequence g \<and> i = mockPaymentId k"
  using assms unfolding gatewayOk_def by blast+

lemma gatewayOk_reference:
  "gatewayOk g \<Longrightarrow> map_of (gwIdsByReference g) r = Some i \<Longrightarrow> \<exists>p. findPayment i g = Some p \<and> payReference p = r"
  unfolding gatewayOk_def by blast

lemma gatewayOk_store:
  assumes "gatewayOk g" and "findPayment i g = Some p" and "paymentOk p'"
    and "payId p' = payId p" and "payReference p' = payReference p"
  shows "gatewayOk (storePayment p' g)"
proof -
  let ?g = "storePayment p' g"
  note old = gatewayOkD [OF assms(1,2)]
  have "payId q = j \<and> paymentOk q \<and> map_of (gwIdsByReference ?g) (payReference q) = Some j
      \<and> (\<exists>k. 0 < k \<and> k \<le> gwSequence ?g \<and> j = mockPaymentId k)" if "findPayment j ?g = Some q" for j q
  proof (cases "j = i")
    case True
    with that old assms(3-5) show ?thesis by auto
  next
    case False
    with that old(1) assms(4) have "findPayment j g = Some q" by simp
    from gatewayOkD [OF assms(1) this] show ?thesis by simp
  qed
  moreover have "\<exists>q. findPayment j ?g = Some q \<and> payReference q = r"
    if "map_of (gwIdsByReference ?g) r = Some j" for j r
    using gatewayOk_reference [OF assms(1), of r j] that old(1) assms(2,4,5) by (cases "j = i") auto
  ultimately show ?thesis unfolding gatewayOk_def by blast
qed

lemma authorizePayment_new:
  assumes "gatewayOk g" and "normaliseMoney amt = Inr amount" and "map_of (gwIdsByReference g) ref = None"
  shows "gatewayOk (snd (authorizePayment amt ref g))"
proof -
  let ?i = "mockPaymentId (gwSequence g + 1)"
  define p where "p = \<lparr>payId = ?i, payProvider = Mock, payStatus = Authorized, payAmount = amount,
    payRefunded = \<lparr>amountMinor = 0, currency = currency amount\<rparr>, payReference = ref\<rparr>"
  define g' where "g' = \<lparr>gwPayments = AList.update ?i p (gwPayments g),
    gwIdsByReference = AList.update ref ?i (gwIdsByReference g), gwSequence = gwSequence g + 1\<rparr>"
  have g': "snd (authorizePayment amt ref g) = g'"
    using assms(2,3) by (simp add: authorizePayment_def mapError_def g'_def p_def Let_def)
  have ok: "paymentOk p"
    using normaliseMoney_InrD(1) [OF assms(2)] by (auto simp: paymentOk_def p_def moneyOk_def)
  have fresh: "findPayment ?i g = None"
  proof (rule ccontr)
    assume "findPayment ?i g \<noteq> None"
    then obtain k where "k \<le> gwSequence g" "?i = mockPaymentId k"
      using assms(1) unfolding gatewayOk_def by blast
    then show False by simp
  qed
  have find: "findPayment j g' = (if j = ?i then Some p else findPayment j g)" for j
    by (simp add: g'_def findPayment_def update_conv')
  have refs: "map_of (gwIdsByReference g') r = (if r = ref then Some ?i else map_of (gwIdsByReference g) r)" for r
    by (simp add: g'_def update_conv')
  have "payId q = j \<and> paymentOk q \<and> map_of (gwIdsByReference g') (payReference q) = Some j
      \<and> (\<exists>k. 0 < k \<and> k \<le> gwSequence g' \<and> j = mockPaymentId k)" if "findPayment j g' = Some q" for j q
  proof (cases "j = ?i")
    case True
    with that ok find refs show ?thesis
      by (auto simp: p_def g'_def intro: exI [of _ "gwSequence g + 1"])
  next
    case False
    then have q: "findPayment j g = Some q" using that find by simp
    with assms(1) have "payId q = j" "paymentOk q" "map_of (gwIdsByReference g) (payReference q) = Some j"
      and "\<exists>k. 0 < k \<and> k \<le> gwSequence g \<and> j = mockPaymentId k"
      unfolding gatewayOk_def by blast+
    with assms(3) refs show ?thesis by (auto simp: g'_def intro: le_SucI)
  qed
  moreover have "\<exists>q. findPayment j g' = Some q \<and> payReference q = r"
    if "map_of (gwIdsByReference g') r = Some j" for j r
  proof (cases "r = ref")
    case True
    with that refs find show ?thesis by (simp add: p_def)
  next
    case False
    then have "map_of (gwIdsByReference g) r = Some j" using that refs by simp
    then obtain q where "findPayment j g = Some q" "payReference q = r"
      using assms(1) unfolding gatewayOk_def by blast
    with fresh find show ?thesis by auto
  qed
  ultimately show ?thesis unfolding g' gatewayOk_def by blast
qed

lemma authorizePayment_ok: "gatewayOk g \<Longrightarrow> gatewayOk (snd (authorizePayment amt ref g))"
proof (cases "normaliseMoney amt")
  case (Inl e)
  then show "gatewayOk g \<Longrightarrow> ?thesis" by (simp add: authorizePayment_def mapError_def)
next
  case (Inr amount)
  then show "gatewayOk g \<Longrightarrow> ?thesis"
    using authorizePayment_new [of g amt amount ref]
    by (cases "map_of (gwIdsByReference g) ref") (auto simp: authorizePayment_def mapError_def)
qed

lemma capturePayment_ok: "gatewayOk g \<Longrightarrow> gatewayOk (snd (capturePayment i g))"
proof (cases "requirePayment i g")
  case (Inl e)
  then show "gatewayOk g \<Longrightarrow> ?thesis" by (simp add: capturePayment_def)
next
  case (Inr p)
  then have p: "findPayment i g = Some p" by (simp add: requirePayment_InrD)
  assume ok: "gatewayOk g"
  show ?thesis
  proof (cases "payStatus p = Authorized")
    case True
    then have "paymentOk (p\<lparr>payStatus := Succeeded\<rparr>)"
      using gatewayOkD(2) [OF ok p] by (simp add: paymentOk_def)
    then have "gatewayOk (storePayment (p\<lparr>payStatus := Succeeded\<rparr>) g)"
      by (rule gatewayOk_store [OF ok p]) simp_all
    with Inr True show ?thesis by (simp add: capturePayment_def Let_def)
  next
    case False
    with Inr ok show ?thesis by (simp add: capturePayment_def)
  qed
qed

lemma resolveRefundAmount_InrD:
  assumes "resolveRefundAmount p amount = Inr r" and "paymentOk p"
  shows "payStatus p \<in> {Succeeded, PartiallyRefunded}" and "0 < amountMinor r"
    and "amountMinor (payRefunded p) + amountMinor r \<le> amountMinor (payAmount p)"
    and "\<And>a. amount = Some a \<Longrightarrow> amountMinor r = amountMinor a"
    and "amount = None \<Longrightarrow> amountMinor (payRefunded p) + amountMinor r = amountMinor (payAmount p)"
proof -
  have st: "payStatus p \<in> {Succeeded, PartiallyRefunded}"
    using assms(1) by (auto simp: resolveRefundAmount_def split: if_splits)
  then show "payStatus p \<in> {Succeeded, PartiallyRefunded}" .
  define remaining where "remaining = amountMinor (payAmount p) - amountMinor (payRefunded p)"
  have q: "(case amount of Some a \<Rightarrow> mapError InvalidMoneyError (normaliseMoney a)
      | None \<Rightarrow> Inr \<lparr>amountMinor = remaining, currency = currency (payAmount p)\<rparr>) = Inr r"
    and r: "amountMinor r \<noteq> 0" "amountMinor r \<le> remaining"
    using assms(1) st unfolding remaining_def
    by (auto simp: resolveRefundAmount_def rbind_eq_Inr_iff Let_def split: if_splits)
  show "amountMinor (payRefunded p) + amountMinor r \<le> amountMinor (payAmount p)"
    using r by (simp add: remaining_def)
  show "amountMinor r = amountMinor a" if "amount = Some a" for a
    using q that normaliseMoney_InrD(2) [of a r] by (auto simp: mapError_def split: sum.splits)
  show "amount = None \<Longrightarrow> amountMinor (payRefunded p) + amountMinor r = amountMinor (payAmount p)"
    using q by (auto simp: remaining_def)
  have "0 \<le> amountMinor r"
  proof (cases amount)
    case None
    then show ?thesis using q assms(2) by (auto simp: remaining_def paymentOk_def)
  next
    case (Some a)
    then have "moneyOk r" using q normaliseMoney_InrD(1) [of a r] by (auto simp: mapError_def split: sum.splits)
    then show ?thesis by (auto simp: moneyOk_def)
  qed
  then show "0 < amountMinor r" using r by simp
qed

lemma refundPayment_cases:
  assumes "gatewayOk g"
  obtains (failed) e where "refundPayment i amount g = (Inl e, g)"
  | (refunded) p r p' where "findPayment i g = Some p" "resolveRefundAmount p amount = Inr r"
      "refundPayment i amount g = (Inr p', storePayment p' g)" "payId p' = i" "paymentOk p'"
      "payReference p' = payReference p" "payAmount p' = payAmount p"
      "amountMinor (payRefunded p') = amountMinor (payRefunded p) + amountMinor r"
proof (cases "rbind (requirePayment i g) (\<lambda>p. rbind (resolveRefundAmount p amount) (\<lambda>r. Inr (p, r)))")
  case (Inl e)
  then show thesis by (intro failed) (simp add: refundPayment_def)
next
  case (Inr x)
  obtain p r where x: "x = (p, r)" by fastforce
  from Inr x have p: "findPayment i g = Some p" and r: "resolveRefundAmount p amount = Inr r"
    by (auto simp: rbind_eq_Inr_iff requirePayment_InrD)
  note ok = gatewayOkD [OF assms p] and rD = resolveRefundAmount_InrD [OF r gatewayOkD(2) [OF assms p]]
  define p' where "p' = p\<lparr>payStatus := (if amountMinor (payRefunded p) + amountMinor r = amountMinor (payAmount p)
        then Refunded else PartiallyRefunded),
      payRefunded := \<lparr>amountMinor = amountMinor (payRefunded p) + amountMinor r, currency = currency (payAmount p)\<rparr>\<rparr>"
  have run: "refundPayment i amount g = (Inr p', storePayment p' g)"
    using Inr x by (simp add: refundPayment_def p'_def Let_def)
  have pok: "paymentOk p'"
    using ok(2) rD(2,3) by (auto simp: paymentOk_def p'_def)
  have fields: "payId p' = i" "payReference p' = payReference p" "payAmount p' = payAmount p"
    "amountMinor (payRefunded p') = amountMinor (payRefunded p) + amountMinor r"
    by (simp_all add: p'_def ok(1))
  show thesis by (rule refunded [OF p r run fields(1) pok fields(2-4)])
qed

lemma refundPayment_ok:
  assumes "gatewayOk g" shows "gatewayOk (snd (refundPayment i amount g))"
  using assms
proof (cases rule: refundPayment_cases [of g i amount])
  case (refunded p r p')
  then show ?thesis
    using gatewayOk_store [OF assms refunded(1,5)] gatewayOkD(1) [OF assms refunded(1)] by simp
qed (use assms in simp_all)

section \<open>Sequences of calls\<close>

datatype gatewayCall = CallAuthorize money string | CallCapture string | CallRefund string "money option"

fun gatewayCallStep :: "gatewayCall \<Rightarrow> mockGateway \<Rightarrow> mockGateway" where
  "gatewayCallStep (CallAuthorize amt ref) g = snd (authorizePayment amt ref g)"
| "gatewayCallStep (CallCapture i) g = snd (capturePayment i g)"
| "gatewayCallStep (CallRefund i amt) g = snd (refundPayment i amt g)"

definition gatewayCalls :: "gatewayCall list \<Rightarrow> mockGateway \<Rightarrow> mockGateway" where
  "gatewayCalls cs g = fold gatewayCallStep cs g"

lemma gatewayCallStep_ok: "gatewayOk g \<Longrightarrow> gatewayOk (gatewayCallStep c g)"
  by (cases c) (simp_all add: authorizePayment_ok capturePayment_ok refundPayment_ok)

lemma gatewayCalls_ok: "gatewayOk g \<Longrightarrow> gatewayOk (gatewayCalls cs g)"
  unfolding gatewayCalls_def by (induction cs arbitrary: g) (simp_all add: gatewayCallStep_ok)

text \<open>A reference keeps its payment, and the payment its id and amount, whatever is called.\<close>

definition chargedAs :: "string \<Rightarrow> string \<Rightarrow> money \<Rightarrow> mockGateway \<Rightarrow> bool" where
  "chargedAs ref i amount g \<longleftrightarrow> map_of (gwIdsByReference g) ref = Some i
     \<and> (\<exists>p. findPayment i g = Some p \<and> payId p = i \<and> payAmount p = amount \<and> payReference p = ref)"

lemma storePayment_charged:
  assumes "chargedAs ref i amount g" and "findPayment j g = Some p" and "payId p' = j"
    and "payAmount p' = payAmount p" and "payReference p' = payReference p"
  shows "chargedAs ref i amount (storePayment p' g)"
  using assms by (cases "i = j") (auto simp: chargedAs_def)

lemma gatewayCallStep_charged:
  assumes ok: "gatewayOk g" and ch: "chargedAs ref i amount g"
  shows "chargedAs ref i amount (gatewayCallStep c g)"
proof (cases c)
  case (CallAuthorize amt r)
  have fresh: "i \<noteq> mockPaymentId (gwSequence g + 1)"
    using ok ch unfolding gatewayOk_def chargedAs_def by fastforce
  show ?thesis
    using ch fresh CallAuthorize
    by (cases "normaliseMoney amt"; cases "map_of (gwIdsByReference g) r")
      (auto simp: chargedAs_def authorizePayment_def mapError_def findPayment_def update_conv' Let_def)
next
  case (CallCapture j)
  show ?thesis
  proof (cases "requirePayment j g")
    case (Inr p)
    then have p: "findPayment j g = Some p" by (simp add: requirePayment_InrD)
    have "chargedAs ref i amount (storePayment (p\<lparr>payStatus := Succeeded\<rparr>) g)"
      by (rule storePayment_charged [OF ch p]) (simp_all add: gatewayOkD(1) [OF ok p])
    with ch CallCapture Inr show ?thesis by (simp add: capturePayment_def Let_def)
  qed (use ch CallCapture in \<open>simp add: capturePayment_def\<close>)
next
  case (CallRefund j amt)
  from ok show ?thesis
  proof (cases rule: refundPayment_cases [of g j amt])
    case (refunded p r p')
    then show ?thesis
      using storePayment_charged [OF ch refunded(1,4,7,6)] CallRefund by simp
  qed (use ch CallRefund in simp_all)
qed

lemma gatewayCalls_charged:
  "gatewayOk g \<Longrightarrow> chargedAs ref i amount g \<Longrightarrow> chargedAs ref i amount (gatewayCalls cs g)"
  unfolding gatewayCalls_def
proof (induction cs arbitrary: g)
  case (Cons c cs)
  then show ?case
    using gatewayCallStep_ok [of g c] gatewayCallStep_charged [of g ref i amount c] by simp
qed simp

lemma emptyGateway_ok: "gatewayOk emptyGateway"
  by (simp add: gatewayOk_def emptyGateway_def findPayment_def)

lemma authorizePayment_charged:
  assumes ok: "gatewayOk g" and run: "authorizePayment amt ref g = (Inr p, g')"
  shows "chargedAs ref (payId p) (payAmount p) g'"
proof -
  obtain amount where amount: "normaliseMoney amt = Inr amount"
    using run by (cases "normaliseMoney amt") (auto simp: authorizePayment_def mapError_def)
  show ?thesis
  proof (cases "map_of (gwIdsByReference g) ref")
    case None
    with run amount show ?thesis
      by (auto simp: authorizePayment_def mapError_def chargedAs_def findPayment_def update_conv' Let_def)
  next
    case (Some j)
    with run amount have p: "findPayment j g = Some p" and g': "g' = g"
      by (auto simp: authorizePayment_def mapError_def requirePayment_InrD)
    from ok Some have "\<exists>q. findPayment j g = Some q \<and> payReference q = ref"
      unfolding gatewayOk_def by blast
    with p have "payReference p = ref" by simp
    with p g' Some gatewayOkD(1) [OF ok p] show ?thesis by (simp add: chargedAs_def)
  qed
qed

lemma fiveEuro_normal:
  "normaliseMoney \<lparr>amountMinor = 500, currency = ''EUR''\<rparr> = Inr \<lparr>amountMinor = 500, currency = ''EUR''\<rparr>"
proof (rule normaliseMoney_ok, unfold moneyOk_def, intro conjI exI [of _ 500])
  show "isCurrencyCode (currency \<lparr>amountMinor = 500, currency = ''EUR''\<rparr>)"
    by (simp add: isCurrencyCode_def isUpper_def)
qed (simp_all add: maxSafeInteger_def)

section \<open>Properties of the gateway\<close>

text \<open>
  After any sequence of authorize, capture and refund calls, with any arguments, every payment of
  the mock gateway has refunded between nothing and its amount, has the status its refunded amount
  implies, and is the only payment of its reference.
\<close>

lemma gateway_invariant: "gatewayOk (gatewayCalls calls emptyGateway)"
  by (rule gatewayCalls_ok [OF emptyGateway_ok])

text \<open>
  Authorizing is idempotent on the reference: once it has answered with a payment, authorizing
  the same reference again, with any valid amount and after any calls in between, answers with that
  payment, for the original amount, and changes nothing.
\<close>

lemma authorize_idempotent:
  assumes "authorizePayment amt ref (gatewayCalls before emptyGateway) = (Inr p, g)"
    and "normaliseMoney amt' = Inr amount'"
  shows "\<exists>p'. authorizePayment amt' ref (gatewayCalls after g) = (Inr p', gatewayCalls after g)
    \<and> payId p' = payId p \<and> payAmount p' = payAmount p"
proof -
  note ok0 = gatewayCalls_ok [OF emptyGateway_ok, of before]
  from authorizePayment_ok [OF ok0, of amt ref] have ok: "gatewayOk g" by (simp add: assms(1))
  have "chargedAs ref (payId p) (payAmount p) (gatewayCalls after g)"
    by (rule gatewayCalls_charged [OF ok authorizePayment_charged [OF ok0 assms(1)]])
  with assms(2) show ?thesis
    by (auto simp: chargedAs_def authorizePayment_def mapError_def requirePayment_InrD)
qed

lemma authorize_idempotent_witness:
  "let m = \<lparr>amountMinor = 500, currency = ''EUR''\<rparr>; first = authorizePayment m ''order-1'' emptyGateway
   in \<exists>p p'. fst first = Inr p \<and> fst (authorizePayment m ''order-1'' (snd first)) = Inr p' \<and> payId p' = payId p"
proof -
  let ?m = "\<lparr>amountMinor = 500, currency = ''EUR''\<rparr>"
  note m = fiveEuro_normal
  obtain p g where "authorizePayment ?m ''order-1'' (gatewayCalls [] emptyGateway) = (Inr p, g)"
    using m by (simp add: authorizePayment_def mapError_def gatewayCalls_def emptyGateway_def Let_def)
  from this authorize_idempotent [OF this m, of "[]"] show ?thesis
    by (auto simp: gatewayCalls_def Let_def)
qed

text \<open>What a refund may be: all that is outstanding, or a valid positive amount within it in the payment's currency.\<close>

definition refundable :: "payment \<Rightarrow> money option \<Rightarrow> bool" where
  "refundable p amount \<longleftrightarrow> payStatus p \<in> {Succeeded, PartiallyRefunded} \<and>
     (case amount of
        None \<Rightarrow> amountMinor (payRefunded p) < amountMinor (payAmount p)
      | Some a \<Rightarrow> (\<exists>r. normaliseMoney a = Inr r \<and> sameCurrency r (payAmount p)) \<and> 0 < amountMinor a
          \<and> amountMinor a \<le> amountMinor (payAmount p) - amountMinor (payRefunded p))"

lemma resolveRefundAmount_iff:
  assumes "paymentOk p"
  shows "(\<exists>r. resolveRefundAmount p amount = Inr r) \<longleftrightarrow> refundable p amount"
proof
  assume "\<exists>r. resolveRefundAmount p amount = Inr r"
  then obtain r where r: "resolveRefundAmount p amount = Inr r" by blast
  note rD = resolveRefundAmount_InrD [OF r assms]
  show "refundable p amount"
  proof (cases amount)
    case None
    then show ?thesis using rD by (simp add: refundable_def)
  next
    case (Some a)
    then have "\<exists>q. normaliseMoney a = Inr q \<and> sameCurrency q (payAmount p)"
      using r by (auto simp: resolveRefundAmount_def rbind_eq_Inr_iff Let_def mapError_def split: if_splits sum.splits)
    then show ?thesis using rD(1-3) rD(4) [OF Some] Some by (simp add: refundable_def)
  qed
next
  assume ok: "refundable p amount"
  show "\<exists>r. resolveRefundAmount p amount = Inr r"
  proof (cases amount)
    case None
    then show ?thesis using ok by (auto simp: refundable_def resolveRefundAmount_def sameCurrency_def Let_def)
  next
    case (Some a)
    then obtain r where r: "normaliseMoney a = Inr r" "sameCurrency r (payAmount p)" using ok by (auto simp: refundable_def)
    then show ?thesis using ok Some normaliseMoney_InrD(2) [OF r(1)]
      by (auto simp: refundable_def resolveRefundAmount_def mapError_def Let_def)
  qed
qed

lemma refundPayment_succeeds:
  assumes "gatewayOk g"
  shows "(\<exists>p'. fst (refundPayment i amount g) = Inr p') \<longleftrightarrow> (\<exists>p. findPayment i g = Some p \<and> refundable p amount)"
proof -
  have "(\<exists>p'. fst (refundPayment i amount g) = Inr p') \<longleftrightarrow> (\<exists>p r. findPayment i g = Some p \<and> resolveRefundAmount p amount = Inr r)"
  proof (cases "rbind (requirePayment i g) (\<lambda>p. rbind (resolveRefundAmount p amount) (\<lambda>r. Inr (p, r)))")
    case (Inl e)
    moreover have "\<not> (findPayment i g = Some p \<and> resolveRefundAmount p amount = Inr r)" for p r
      using Inl by (auto simp: requirePayment_InrD [symmetric])
    ultimately show ?thesis by (simp add: refundPayment_def)
  next
    case (Inr x)
    then obtain p r where "findPayment i g = Some p" "resolveRefundAmount p amount = Inr r"
      by (auto simp: rbind_eq_Inr_iff requirePayment_InrD)
    moreover have "\<exists>p'. fst (refundPayment i amount g) = Inr p'"
      using Inr by (cases x) (simp add: refundPayment_def Let_def)
    ultimately show ?thesis by blast
  qed
  then show ?thesis using resolveRefundAmount_iff gatewayOkD(2) [OF assms] by blast
qed

text \<open>
  C39. A refund succeeds exactly when the payment exists, is captured, and the amount asked for is a
  valid positive one in its currency within what is outstanding, or no amount is given and something
  is outstanding; a refund that fails changes nothing. One that succeeds moves the amount asked for,
  or all that was outstanding, never past what was captured; marks the payment refunded exactly when
  nothing is left; and touches no other payment.
\<close>

theorem refund_conserves:
  assumes "gatewayOk g"
  shows "((\<exists>p'. fst (refundPayment i amount g) = Inr p') \<longleftrightarrow> (\<exists>p. findPayment i g = Some p \<and> refundable p amount))
    \<and> (\<forall>e. fst (refundPayment i amount g) = Inl e \<longrightarrow> snd (refundPayment i amount g) = g)
    \<and> (\<forall>p' g'. refundPayment i amount g = (Inr p', g') \<longrightarrow> (\<exists>p r. findPayment i g = Some p \<and> 0 < r
      \<and> (case amount of Some a \<Rightarrow> r = amountMinor a
         | None \<Rightarrow> r = amountMinor (payAmount p) - amountMinor (payRefunded p))
      \<and> payAmount p' = payAmount p \<and> payReference p' = payReference p
      \<and> amountMinor (payRefunded p') = amountMinor (payRefunded p) + r
      \<and> amountMinor (payRefunded p') \<le> amountMinor (payAmount p')
      \<and> (payStatus p' = Refunded \<longleftrightarrow> amountMinor (payRefunded p') = amountMinor (payAmount p'))
      \<and> (\<forall>j. findPayment j g' = (if j = i then Some p' else findPayment j g))))"
proof (intro conjI allI impI)
  show "(\<exists>p'. fst (refundPayment i amount g) = Inr p') \<longleftrightarrow> (\<exists>p. findPayment i g = Some p \<and> refundable p amount)"
    by (rule refundPayment_succeeds [OF assms])
  show "snd (refundPayment i amount g) = g" if "fst (refundPayment i amount g) = Inl e" for e
    using assms that by (cases rule: refundPayment_cases [of g i amount]) auto
next
  fix p' g' assume run: "refundPayment i amount g = (Inr p', g')"
  show "\<exists>p r. findPayment i g = Some p \<and> 0 < r
      \<and> (case amount of Some a \<Rightarrow> r = amountMinor a
         | None \<Rightarrow> r = amountMinor (payAmount p) - amountMinor (payRefunded p))
      \<and> payAmount p' = payAmount p \<and> payReference p' = payReference p
      \<and> amountMinor (payRefunded p') = amountMinor (payRefunded p) + r
      \<and> amountMinor (payRefunded p') \<le> amountMinor (payAmount p')
      \<and> (payStatus p' = Refunded \<longleftrightarrow> amountMinor (payRefunded p') = amountMinor (payAmount p'))
      \<and> (\<forall>j. findPayment j g' = (if j = i then Some p' else findPayment j g))"
    using assms
  proof (cases rule: refundPayment_cases [of g i amount])
    case (failed e)
    with run show ?thesis by simp
  next
    case (refunded p r q)
    with run have q: "q = p'" "g' = storePayment p' g" by auto
    note rD = resolveRefundAmount_InrD [OF refunded(2) gatewayOkD(2) [OF assms refunded(1)]]
    have "payStatus p' = Refunded \<longleftrightarrow> amountMinor (payRefunded p') = amountMinor (payAmount p')"
      using refunded(5,7,8) rD(2) gatewayOkD(2) [OF assms refunded(1)] q(1)
      by (auto simp: paymentOk_def split: paymentStatus.splits)
    with refunded q rD show ?thesis
      by (intro exI [of _ p] exI [of _ "amountMinor r"]) (auto split: option.splits)
  qed
qed

theorem refund_conserves_witness:
  "let m = \<lparr>amountMinor = 500, currency = ''EUR''\<rparr>;
       g = gatewayCalls [CallAuthorize m ''order-1'', CallCapture (mockPaymentId 1)] emptyGateway;
       out = refundPayment (mockPaymentId 1) (Some m) g
   in gatewayOk g \<and> (\<exists>p'. fst out = Inr p' \<and> amountMinor (payRefunded p') = 500)
      \<and> \<not> (\<exists>p'. fst (refundPayment (mockPaymentId 1) (Some m) (snd out)) = Inr p')"
proof -
  let ?m = "\<lparr>amountMinor = 500, currency = ''EUR''\<rparr>"
  let ?g = "gatewayCalls [CallAuthorize ?m ''order-1'', CallCapture (mockPaymentId 1)] emptyGateway"
  let ?g' = "snd (refundPayment (mockPaymentId 1) (Some ?m) ?g)"
  note m = fiveEuro_normal
  note calc = gatewayCalls_def authorizePayment_def mapError_def capturePayment_def requirePayment_def storePayment_def
    emptyGateway_def findPayment_def Let_def
  have ok: "gatewayOk ?g" "gatewayOk ?g'" using gatewayCalls_ok [OF emptyGateway_ok] refundPayment_ok by blast+
  have "\<exists>p. findPayment (mockPaymentId 1) ?g = Some p \<and> refundable p (Some ?m)"
    using m by (simp add: calc refundable_def sameCurrency_def)
  then obtain p' where p': "fst (refundPayment (mockPaymentId 1) (Some ?m) ?g) = Inr p'"
    using refund_conserves [OF ok(1)] by blast
  then have run: "refundPayment (mockPaymentId 1) (Some ?m) ?g = (Inr p', ?g')" by (metis prod.collapse)
  have p: "amountMinor (payAmount p) = 500 \<and> amountMinor (payRefunded p) = 0" if "findPayment (mockPaymentId 1) ?g = Some p" for p
    using that m by (auto simp: calc)
  obtain q where q: "findPayment (mockPaymentId 1) ?g = Some q" "amountMinor (payRefunded p') = amountMinor (payRefunded q) + 500"
      "payStatus p' = Refunded \<longleftrightarrow> amountMinor (payRefunded p') = amountMinor (payAmount p')" "payAmount p' = payAmount q"
      "findPayment (mockPaymentId 1) ?g' = Some p'"
    using conjunct2 [OF conjunct2 [OF refund_conserves [OF ok(1), of "mockPaymentId 1" "Some ?m"]], rule_format, OF run] by auto
  then have "amountMinor (payRefunded p') = 500" "payStatus p' = Refunded" using p by auto
  then have "\<not> (\<exists>p. findPayment (mockPaymentId 1) ?g' = Some p \<and> refundable p (Some ?m))" using q(5) by (simp add: refundable_def)
  then show ?thesis using refund_conserves [OF ok(2)] ok(1) p' \<open>amountMinor (payRefunded p') = 500\<close> unfolding Let_def by blast
qed

end
