(* ===== verification/Checkout.thy ===== *)
theory Checkout
  imports SagaOrchestrator Orders Payments
begin

text \<open>
  The checkout saga, \<open>src/orders/checkout.saga.ts\<close>, on a world of an order table, a warehouse, a
  carrier, the mock payment gateway (the default provider) and the events staged in the outbox, and
  the command that starts it, \<open>src/orders/write/place-order.command.ts\<close>.
\<close>

section \<open>The saga's state as JSON\<close>

record checkoutWorld =
  cwOrders :: orderRows
  cwInventory :: inventory
  cwCarrier :: carrier
  cwGateway :: mockGateway
  cwEvents :: "(string \<times> (string \<times> jsonValue) list) list"
  cwNow :: int

definition strField :: "sagaState \<Rightarrow> string \<Rightarrow> string" where
  "strField st k = (case st k of Some (JStr s) \<Rightarrow> s | _ \<Rightarrow> [])"

text \<open>A nullable id, read the way \<open>if (state.paymentId)\<close> reads it: the empty string counts as absent.\<close>

definition idField :: "sagaState \<Rightarrow> string \<Rightarrow> string option" where
  "idField st k = (case st k of Some (JStr s) \<Rightarrow> (if s = [] then None else Some s) | _ \<Rightarrow> None)"

definition numField :: "sagaState \<Rightarrow> string \<Rightarrow> rat" where
  "numField st k = (case st k of Some (JNum x) \<Rightarrow> x | _ \<Rightarrow> 0)"

definition lineToJson :: "'a reservedLine_scheme \<Rightarrow> jsonValue" where
  "lineToJson l = JObj [(''sku'', JStr (sku l)), (''quantity'', JNum (of_int (quantity l)))]"

fun lineOfJson :: "jsonValue \<Rightarrow> reservedLine" where
  "lineOfJson (JObj kvs) =
     \<lparr>sku = (case map_of kvs ''sku'' of Some (JStr s) \<Rightarrow> s | _ \<Rightarrow> []),
      quantity = (case map_of kvs ''quantity'' of Some (JNum x) \<Rightarrow> \<lfloor>x\<rfloor> | _ \<Rightarrow> 0)\<rparr>"
| "lineOfJson _ = \<lparr>sku = [], quantity = 0\<rparr>"

definition linesField :: "sagaState \<Rightarrow> reservedLine list" where
  "linesField st = (case st ''lines'' of Some (JArr xs) \<Rightarrow> map lineOfJson xs | _ \<Rightarrow> [])"

section \<open>Errors as the steps see them\<close>

fun statusText :: "paymentStatus \<Rightarrow> string" where
  "statusText RequiresAction = ''requires_action''"
| "statusText Authorized = ''authorized''"
| "statusText Processing = ''processing''"
| "statusText Succeeded = ''succeeded''"
| "statusText PartiallyRefunded = ''partially_refunded''"
| "statusText Refunded = ''refunded''"
| "statusText Canceled = ''canceled''"
| "statusText PaymentFailed = ''failed''"

text \<open>An amount as it reads in a message; amounts there are whole minor units.\<close>

definition amountText :: "rat \<Rightarrow> string" where
  "amountText x = decString (nat \<lfloor>x\<rfloor>)"

text \<open>The number of an amount that is not a whole one is left out of its message.\<close>

fun invalidMoneyMessage :: "invalidMoney \<Rightarrow> string" where
  "invalidMoneyMessage (BadCurrency c) =
     ''Currency must be a 3-letter ISO 4217 code, received \"'' @ c @ ''\"''"
| "invalidMoneyMessage NotAnInteger = ''Amount must be an integer number of minor units''"
| "invalidMoneyMessage Negative = ''Amount must not be negative''"
| "invalidMoneyMessage TooLarge =
     ''Amount is larger than the largest minor-unit amount that can be represented exactly''"
| "invalidMoneyMessage (NotDecimal v) = ''Amount \"'' @ v @ ''\" is not a decimal number''"
| "invalidMoneyMessage (TooPrecise v) = ''Amount \"'' @ v @ ''\" has more precision than allowed''"

fun paymentMessage :: "paymentError \<Rightarrow> string" where
  "paymentMessage (PaymentNotFoundError p i) =
     ''Payment '' @ i @ '' not found at provider \"'' @ providerText p @ ''\"''"
| "paymentMessage (CannotRefundFrom i st) =
     ''Payment '' @ i @ '' cannot be refunded from status \"'' @ statusText st @ ''\"''"
| "paymentMessage (CannotCaptureFrom i st) =
     ''Payment '' @ i @ '' cannot be captured from status \"'' @ statusText st @ ''\"''"
| "paymentMessage (CannotRefundCurrency a b) = ''Cannot refund '' @ a @ '' against a '' @ b @ '' payment''"
| "paymentMessage RefundNotPositive = ''Refund amount must be positive''"
| "paymentMessage (RefundExceeds i requested remaining) =
     ''Refund of '' @ amountText requested @ '' exceeds the '' @ amountText remaining
       @ '' still refundable on '' @ i"
| "paymentMessage (InvalidMoneyError e) = invalidMoneyMessage e"
| "paymentMessage (UnknownPaymentProviderError n) = ''Unknown payment provider \"'' @ n @ ''\"''"
| "paymentMessage (PaymentProviderNotConfiguredError p env) =
     ''Payment provider \"'' @ providerText p @ ''\" is not configured''"
| "paymentMessage (PaymentProviderError m) = m"

fun isPaymentStateError :: "paymentError \<Rightarrow> bool" where
  "isPaymentStateError (CannotRefundFrom _ _) = True"
| "isPaymentStateError (CannotCaptureFrom _ _) = True"
| "isPaymentStateError (CannotRefundCurrency _ _) = True"
| "isPaymentStateError RefundNotPositive = True"
| "isPaymentStateError (RefundExceeds _ _ _) = True"
| "isPaymentStateError _ = False"

text \<open>\<open>src/orders/orders.errors.ts\<close>.\<close>

fun outOfStockMessage :: "outOfStock \<Rightarrow> string" where
  "outOfStockMessage (OutOfStockError s requested available) =
     ''Only '' @ decString (nat available) @ '' of \"'' @ s @ ''\" available, ''
       @ decString (nat requested) @ '' requested''"

fun unservicedMessage :: "unserviced \<Rightarrow> string" where
  "unservicedMessage (UnservicedDestinationError d) = ''No carrier serves \"'' @ d @ ''\"''"

section \<open>The five steps\<close>

type_synonym 'a stepAnswer = "(stepError + 'a) \<times> checkoutWorld"

definition orderGone :: "string \<Rightarrow> stepError" where
  "orderGone i = PlainError (''Order '' @ i @ '' no longer exists.'')"

text \<open>A unit of work: a status change and the events staged with it, or neither.\<close>

definition transitionTx :: "string \<Rightarrow> orderStatus \<Rightarrow> string option
    \<Rightarrow> (string \<times> (string \<times> jsonValue) list) list \<Rightarrow> checkoutWorld \<Rightarrow> unit stepAnswer" where
  "transitionTx i status reason events w =
     (case transitionOrder (cwNow w) i status reason (cwOrders w) of
        Inl _ \<Rightarrow> (Inl (PlainError (''Order '' @ i @ '' not found'')), w)
      | Inr rows \<Rightarrow> (Inr (), w\<lparr>cwOrders := rows, cwEvents := cwEvents w @ events\<rparr>))"

definition acceptExecute :: "sagaStepContext \<Rightarrow> checkoutWorld \<Rightarrow> sagaStatePatch stepAnswer" where
  "acceptExecute ctx w =
     (let i = strField (ctxState ctx) ''orderId'' in
      case findOrder i (cwOrders w) of
        None \<Rightarrow> (Inl (orderGone i), w)
      | Some o' \<Rightarrow>
          (if orStatus o' \<noteq> PENDING then (Inr None, w)
           else case transitionTx i PROCESSING None [] w of
             (Inl e, w') \<Rightarrow> (Inl e, w')
           | (Inr _, w') \<Rightarrow> (Inr None, w')))"

definition acceptCompensate :: "sagaStepContext \<Rightarrow> checkoutWorld \<Rightarrow> unit stepAnswer" where
  "acceptCompensate ctx w =
     (let st = ctxState ctx; i = strField st ''orderId'' in
      case findOrder i (cwOrders w) of
        None \<Rightarrow> (Inr (), w)
      | Some o' \<Rightarrow>
          (if orStatus o' = CANCELLED then (Inr (), w)
           else let reason = (case ctxFailure ctx of Some f \<Rightarrow> failureMessage f
                              | None \<Rightarrow> ''Checkout could not be completed'') in
             transitionTx i CANCELLED (Some reason)
               [(''order.cancelled'', [(''orderId'', JStr i), (''userId'', JStr (strField st ''userId'')),
                  (''reason'', JStr reason)])] w))"

definition acceptOrderStep :: "checkoutWorld sagaStep" where
  "acceptOrderStep = Compensatable ''accept-order'' acceptExecute acceptCompensate"

definition reserveExecute :: "sagaStepContext \<Rightarrow> checkoutWorld \<Rightarrow> sagaStatePatch stepAnswer" where
  "reserveExecute ctx w =
     (case reserveStock (idempotencyKey ctx) (strField (ctxState ctx) ''orderId'')
             (linesField (ctxState ctx)) (cwInventory w) of
        (Inl e, iv) \<Rightarrow> (Inl (UnretryableStepError (outOfStockMessage e)), w\<lparr>cwInventory := iv\<rparr>)
      | (Inr r, iv) \<Rightarrow> (Inr (Some [(''reservationId'', Some (JStr (srId r)))]), w\<lparr>cwInventory := iv\<rparr>))"

definition reserveCompensate :: "sagaStepContext \<Rightarrow> checkoutWorld \<Rightarrow> unit stepAnswer" where
  "reserveCompensate ctx w =
     (Inr (), w\<lparr>cwInventory := releaseStock (idempotencyKey ctx) (cwInventory w)\<rparr>)"

definition reserveStockStep :: "checkoutWorld sagaStep" where
  "reserveStockStep = Compensatable ''reserve-stock'' reserveExecute reserveCompensate"

definition amountOf :: "sagaState \<Rightarrow> money" where
  "amountOf st = \<lparr>amountMinor = numField st ''totalMinor'', currency = strField st ''currency''\<rparr>"

definition isCaptured :: "payment \<Rightarrow> bool" where
  "isCaptured p \<longleftrightarrow> payStatus p = Succeeded \<or> payStatus p = PartiallyRefunded"

definition captureIfNeeded :: "payment \<Rightarrow> mockGateway \<Rightarrow> (stepError + payment) \<times> mockGateway" where
  "captureIfNeeded p g =
     (if isCaptured p then (Inr p, g)
      else if payStatus p \<noteq> Authorized
      then (Inl (UnretryableStepError (''Payment '' @ payId p @ '' is \"'' @ statusText (payStatus p)
              @ ''\" and cannot be captured without the buyer.'')), g)
      else case capturePayment (payId p) g of
        (Inr settled, g') \<Rightarrow> (Inr settled, g')
      | (Inl e, g') \<Rightarrow>
          (if \<not> isPaymentStateError e then (Inl (PlainError (paymentMessage e)), g')
           else case findPayment (payId p) g' of
             Some current \<Rightarrow>
               (if isCaptured current then (Inr current, g')
                else (Inl (UnretryableStepError (''Payment '' @ payId p @ '' could not be captured: ''
                        @ paymentMessage e)), g'))
           | None \<Rightarrow> (Inl (UnretryableStepError (''Payment '' @ payId p @ '' could not be captured: ''
                        @ paymentMessage e)), g')))"

definition chargeExecute :: "sagaStepContext \<Rightarrow> checkoutWorld \<Rightarrow> sagaStatePatch stepAnswer" where
  "chargeExecute ctx w =
     (case authorizePayment (amountOf (ctxState ctx)) (idempotencyKey ctx) (cwGateway w) of
        (Inl e, g) \<Rightarrow> (Inl (PlainError (paymentMessage e)), w\<lparr>cwGateway := g\<rparr>)
      | (Inr authorized, g) \<Rightarrow>
          (case captureIfNeeded authorized g of
             (Inl e, g') \<Rightarrow> (Inl e, w\<lparr>cwGateway := g'\<rparr>)
           | (Inr settled, g') \<Rightarrow>
               (Inr (Some [(''paymentId'', Some (JStr (payId settled)))]), w\<lparr>cwGateway := g'\<rparr>)))"

definition resolvePayment :: "sagaState \<Rightarrow> string \<Rightarrow> mockGateway
    \<Rightarrow> (paymentError + payment option) \<times> mockGateway" where
  "resolvePayment st key g =
     (case idField st ''paymentId'' of
        Some i \<Rightarrow> (Inr (findPayment i g), g)
      | None \<Rightarrow>
          (case authorizePayment (amountOf st) key g of
             (Inl e, g') \<Rightarrow> (Inl e, g')
           | (Inr p, g') \<Rightarrow> (Inr (Some p), g')))"

definition chargeCompensate :: "sagaStepContext \<Rightarrow> checkoutWorld \<Rightarrow> unit stepAnswer" where
  "chargeCompensate ctx w =
     (case resolvePayment (ctxState ctx) (idempotencyKey ctx) (cwGateway w) of
        (Inl e, g) \<Rightarrow> (Inl (PlainError (paymentMessage e)), w\<lparr>cwGateway := g\<rparr>)
      | (Inr None, g) \<Rightarrow> (Inr (), w\<lparr>cwGateway := g\<rparr>)
      | (Inr (Some p), g) \<Rightarrow>
          (if payStatus p = Refunded then (Inr (), w\<lparr>cwGateway := g\<rparr>)
           else if \<not> isCaptured p then (Inr (), w\<lparr>cwGateway := g\<rparr>)
           else case refundPayment (payId p) None g of
             (Inl e, g') \<Rightarrow> (Inl (PlainError (paymentMessage e)), w\<lparr>cwGateway := g'\<rparr>)
           | (Inr _, g') \<Rightarrow> (Inr (), w\<lparr>cwGateway := g'\<rparr>)))"

definition chargePaymentStep :: "checkoutWorld sagaStep" where
  "chargePaymentStep = Compensatable ''charge-payment'' chargeExecute chargeCompensate"

definition shipExecute :: "sagaStepContext \<Rightarrow> checkoutWorld \<Rightarrow> sagaStatePatch stepAnswer" where
  "shipExecute ctx w =
     (case createShipment (idempotencyKey ctx) (strField (ctxState ctx) ''orderId'')
             (strField (ctxState ctx) ''shippingCountry'') (cwCarrier w) of
        (Inl e, cr) \<Rightarrow> (Inl (UnretryableStepError (unservicedMessage e)), w\<lparr>cwCarrier := cr\<rparr>)
      | (Inr s, cr) \<Rightarrow> (Inr (Some [(''shipmentId'', Some (JStr (shId s)))]), w\<lparr>cwCarrier := cr\<rparr>))"

definition createShipmentStep :: "checkoutWorld sagaStep" where
  "createShipmentStep = Pivot ''create-shipment'' shipExecute"

definition confirmExecute :: "sagaStepContext \<Rightarrow> checkoutWorld \<Rightarrow> sagaStatePatch stepAnswer" where
  "confirmExecute ctx w =
     (let st = ctxState ctx; i = strField st ''orderId'' in
      case (idField st ''paymentId'', idField st ''shipmentId'') of
        (Some pid, Some sid) \<Rightarrow>
          (case findOrder i (cwOrders w) of
             None \<Rightarrow> (Inl (orderGone i), w)
           | Some o' \<Rightarrow>
               (if orStatus o' = CONFIRMED then (Inr None, w)
                else case transitionTx i CONFIRMED None
                    [(''order.confirmed'', [(''orderId'', JStr i), (''userId'', JStr (strField st ''userId'')),
                       (''paymentId'', JStr pid), (''shipmentId'', JStr sid)])] w of
                  (Inl e, w') \<Rightarrow> (Inl e, w')
                | (Inr _, w') \<Rightarrow> (Inr None, w')))
      | _ \<Rightarrow> (Inl (PlainError (''Order '' @ i @ '' reached confirm-order without a payment or a shipment.'')), w))"

definition confirmOrderStep :: "checkoutWorld sagaStep" where
  "confirmOrderStep = Retriable ''confirm-order'' confirmExecute"

definition checkoutSteps :: "checkoutWorld sagaStep list" where
  "checkoutSteps = [acceptOrderStep, reserveStockStep, chargePaymentStep, createShipmentStep, confirmOrderStep]"

definition checkoutSaga :: "sagaDefinitionError + checkoutWorld sagaDefinition" where
  "checkoutSaga = defineSaga ''order.checkout'' checkoutSteps"

definition checkoutDefinition :: "checkoutWorld sagaDefinition" where
  "checkoutDefinition = \<lparr>sagaName = ''order.checkout'', steps = checkoutSteps\<rparr>"

section \<open>Every step may run twice\<close>

lemma findOrder_transition:
  "transitionOrder now i st reason rows = Inr rows' \<Longrightarrow>
     findOrder j rows' = (if j = i then map_option (\<lambda>o'. o'\<lparr>orStatus := st, orFailureReason := reason,
       orUpdatedAt := now\<rparr>) (findOrder i rows) else findOrder j rows)"
  by (auto simp: transitionOrder_def findOrder_def update_conv' split: option.splits)

lemma transitionTx_found:
  assumes "findOrder i (cwOrders w) = Some o'"
  obtains rows where "transitionTx i st reason events w = (Inr (), w\<lparr>cwOrders := rows, cwEvents := cwEvents w @ events\<rparr>)"
    and "\<And>j. findOrder j rows = (if j = i then Some (o'\<lparr>orStatus := st, orFailureReason := reason,
       orUpdatedAt := cwNow w\<rparr>) else findOrder j (cwOrders w))"
proof -
  obtain rows where rows: "transitionOrder (cwNow w) i st reason (cwOrders w) = Inr rows"
    using assms by (simp add: transitionOrder_def findOrder_def)
  show thesis
    by (rule that [of rows]) (simp_all add: transitionTx_def rows findOrder_transition [OF rows] assms)
qed

lemma acceptExecute_twice: "acceptExecute ctx (snd (acceptExecute ctx w)) = acceptExecute ctx w"
proof (cases "findOrder (strField (ctxState ctx) ''orderId'') (cwOrders w)")
  case (Some o')
  show ?thesis
    by (rule transitionTx_found [OF Some, of PROCESSING None "[]"])
      (simp add: acceptExecute_def Some)
qed (simp add: acceptExecute_def)

lemma acceptCompensate_twice: "acceptCompensate ctx (snd (acceptCompensate ctx w)) = acceptCompensate ctx w"
proof (cases "findOrder (strField (ctxState ctx) ''orderId'') (cwOrders w)")
  case (Some o')
  define reason where "reason = (case ctxFailure ctx of Some f \<Rightarrow> failureMessage f
    | None \<Rightarrow> ''Checkout could not be completed'')"
  define events where "events = [(''order.cancelled'', [(''orderId'', JStr (strField (ctxState ctx) ''orderId'')),
    (''userId'', JStr (strField (ctxState ctx) ''userId'')), (''reason'', JStr reason)])]"
  obtain rows where tx: "transitionTx (strField (ctxState ctx) ''orderId'') CANCELLED (Some reason) events w
      = (Inr (), w\<lparr>cwOrders := rows, cwEvents := cwEvents w @ events\<rparr>)"
    and rows: "findOrder (strField (ctxState ctx) ''orderId'') rows
      = Some (o'\<lparr>orStatus := CANCELLED, orFailureReason := Some reason, orUpdatedAt := cwNow w\<rparr>)"
    by (rule transitionTx_found [OF Some, of CANCELLED "Some reason" events]) simp
  have "acceptCompensate ctx v = (case findOrder (strField (ctxState ctx) ''orderId'') (cwOrders v) of
      None \<Rightarrow> (Inr (), v)
    | Some o' \<Rightarrow> (if orStatus o' = CANCELLED then (Inr (), v)
        else transitionTx (strField (ctxState ctx) ''orderId'') CANCELLED (Some reason) events v))" for v
    unfolding acceptCompensate_def reason_def events_def Let_def by simp
  with tx rows Some show ?thesis by simp
qed (simp add: acceptCompensate_def)

lemma confirmExecute_twice: "confirmExecute ctx (snd (confirmExecute ctx w)) = confirmExecute ctx w"
proof (cases "idField (ctxState ctx) ''paymentId'' = None \<or> idField (ctxState ctx) ''shipmentId'' = None
    \<or> findOrder (strField (ctxState ctx) ''orderId'') (cwOrders w) = None")
  case True
  then show ?thesis by (auto simp: confirmExecute_def Let_def split: option.splits)
next
  case False
  then obtain pid sid o' where ids: "idField (ctxState ctx) ''paymentId'' = Some pid"
      "idField (ctxState ctx) ''shipmentId'' = Some sid"
    and o': "findOrder (strField (ctxState ctx) ''orderId'') (cwOrders w) = Some o'"
    by auto
  define events where "events = [(''order.confirmed'', [(''orderId'', JStr (strField (ctxState ctx) ''orderId'')),
    (''userId'', JStr (strField (ctxState ctx) ''userId'')), (''paymentId'', JStr pid), (''shipmentId'', JStr sid)])]"
  show ?thesis
    by (rule transitionTx_found [OF o', of CONFIRMED None events])
      (simp add: confirmExecute_def ids o' Let_def flip: events_def)
qed

lemma reserveStock_again:
  "reserveStock i o' ls (snd (reserveStock i o' ls iv)) = reserveStock i o' ls iv"
  by (auto simp: reserveStock_def Let_def update_conv' split: option.splits)

lemma reserveExecute_twice: "reserveExecute ctx (snd (reserveExecute ctx w)) = reserveExecute ctx w"
proof -
  let ?run = "reserveStock (idempotencyKey ctx) (strField (ctxState ctx) ''orderId'') (linesField (ctxState ctx))"
  obtain out iv where run: "?run (cwInventory w) = (out, iv)" by fastforce
  then have "?run iv = (out, iv)" using reserveStock_again by (metis snd_conv)
  with run show ?thesis by (cases out) (simp_all add: reserveExecute_def)
qed

lemma releaseStock_again: "releaseStock i (releaseStock i iv) = releaseStock i iv"
  by (auto simp: releaseStock_def Let_def update_conv' split: option.splits)

lemma createShipment_again:
  "createShipment i o' dest (snd (createShipment i o' dest cr)) = createShipment i o' dest cr"
  by (auto simp: createShipment_def Let_def update_conv' split: option.splits)

lemma shipExecute_twice: "shipExecute ctx (snd (shipExecute ctx w)) = shipExecute ctx w"
proof -
  let ?run = "createShipment (idempotencyKey ctx) (strField (ctxState ctx) ''orderId'')
      (strField (ctxState ctx) ''shippingCountry'')"
  obtain out cr where run: "?run (cwCarrier w) = (out, cr)" by fastforce
  then have "?run cr = (out, cr)" using createShipment_again by (metis snd_conv)
  with run show ?thesis by (cases out) (simp_all add: shipExecute_def)
qed

lemma authorizePayment_Inl: "authorizePayment amt ref g = (Inl e, g') \<Longrightarrow> g' = g"
  by (auto simp: authorizePayment_def Let_def split: sum.splits option.splits)

lemma authorizePayment_found:
  assumes "gatewayOk g" and "authorizePayment amt ref g = (Inr p, g')"
  shows "gatewayOk g'" and "findPayment (payId p) g' = Some p"
    and "\<And>h. gwIdsByReference h = gwIdsByReference g' \<Longrightarrow>
      authorizePayment amt ref h = (requirePayment (payId p) h, h)"
proof -
  show "gatewayOk g'" using authorizePayment_ok [OF assms(1), of amt ref] assms(2) by simp
  have ch: "map_of (gwIdsByReference g') ref = Some (payId p)"
    using authorizePayment_charged [OF assms] by (simp add: chargedAs_def)
  obtain amount where amount: "normaliseMoney amt = Inr amount"
    using assms(2) by (cases "normaliseMoney amt") (auto simp: authorizePayment_def mapError_def)
  show again: "authorizePayment amt ref h = (requirePayment (payId p) h, h)"
    if "gwIdsByReference h = gwIdsByReference g'" for h
    using amount ch that by (simp add: authorizePayment_def mapError_def)
  show "findPayment (payId p) g' = Some p"
  proof (cases "map_of (gwIdsByReference g) ref")
    case None
    with assms(2) amount show ?thesis
      by (auto simp: authorizePayment_def mapError_def findPayment_def update_conv' Let_def)
  next
    case (Some j)
    with assms(2) amount have "findPayment j g = Some p \<and> g' = g"
      by (auto simp: authorizePayment_def mapError_def requirePayment_InrD)
    then show ?thesis using gatewayOkD(1) [OF assms(1), of j p] by auto
  qed
qed

lemma captureIfNeeded_found:
  assumes "findPayment (payId p) g = Some p"
  shows "captureIfNeeded p g =
    (if isCaptured p then (Inr p, g)
     else if payStatus p \<noteq> Authorized
     then (Inl (UnretryableStepError (''Payment '' @ payId p @ '' is \"'' @ statusText (payStatus p)
              @ ''\" and cannot be captured without the buyer.'')), g)
     else (Inr (p\<lparr>payStatus := Succeeded\<rparr>), storePayment (p\<lparr>payStatus := Succeeded\<rparr>) g))"
  using assms
  by (simp add: captureIfNeeded_def capturePayment_def requirePayment_InrD [THEN iffD2] Let_def)

lemma chargeExecute_twice:
  assumes "gatewayOk (cwGateway w)"
  shows "chargeExecute ctx (snd (chargeExecute ctx w)) = chargeExecute ctx w"
proof (cases "authorizePayment (amountOf (ctxState ctx)) (idempotencyKey ctx) (cwGateway w)")
  case (Pair out g)
  show ?thesis
  proof (cases out)
    case (Inl e)
    then have "g = cwGateway w" using Pair authorizePayment_Inl by metis
    with Pair Inl show ?thesis by (simp add: chargeExecute_def)
  next
    case (Inr p)
    note auth = authorizePayment_found [OF assms Pair [unfolded Inr]]
    have again: "authorizePayment (amountOf (ctxState ctx)) (idempotencyKey ctx) g = (Inr p, g)"
      using auth(3) [of g] auth(2) by (simp add: requirePayment_InrD)
    show ?thesis
    proof (cases "payStatus p = Authorized")
      case False
      with Pair Inr again captureIfNeeded_found [OF auth(2)] show ?thesis
        by (simp add: chargeExecute_def)
    next
      case True
      define p' where "p' = p\<lparr>payStatus := Succeeded\<rparr>"
      have p': "payId p' = payId p" "isCaptured p'" by (simp_all add: p'_def isCaptured_def)
      have first: "chargeExecute ctx w = (Inr (Some [(''paymentId'', Some (JStr (payId p)))]),
          w\<lparr>cwGateway := storePayment p' g\<rparr>)"
        using Pair Inr True captureIfNeeded_found [OF auth(2)]
        by (simp add: chargeExecute_def p'_def isCaptured_def)
      have "authorizePayment (amountOf (ctxState ctx)) (idempotencyKey ctx) (storePayment p' g)
          = (Inr p', storePayment p' g)"
        using auth(3) [of "storePayment p' g"] p'(1) by (simp add: requirePayment_InrD)
      then have "chargeExecute ctx (w\<lparr>cwGateway := storePayment p' g\<rparr>) =
          (Inr (Some [(''paymentId'', Some (JStr (payId p)))]), w\<lparr>cwGateway := storePayment p' g\<rparr>)"
        using p' by (simp add: chargeExecute_def captureIfNeeded_def)
      with first show ?thesis by simp
    qed
  qed
qed

lemma refund_rest:
  assumes "gatewayOk g" and "findPayment i g = Some p" and "isCaptured p"
  shows "(\<exists>e. refundPayment i None g = (Inl e, g)) \<or>
    (\<exists>p'. refundPayment i None g = (Inr p', storePayment p' g) \<and> payId p' = i \<and> payStatus p' = Refunded)"
  using assms(1)
proof (cases rule: refundPayment_cases [of g i None])
  case (refunded q r p')
  have "0 \<le> amountMinor (payRefunded q)"
    using gatewayOkD(2) [OF assms(1) refunded(1)] by (simp add: paymentOk_def)
  with refunded have "payStatus p' = Refunded"
    using resolveRefundAmount_InrD(2,5) [OF refunded(2) gatewayOkD(2) [OF assms(1) refunded(1)]]
    by (auto simp: paymentOk_def split: paymentStatus.splits)
  with refunded show ?thesis by auto
qed auto

lemma chargeCompensate_resolved:
  assumes ok: "gatewayOk g" and p: "findPayment (payId p) g = Some p"
    and res: "\<And>h. gwIdsByReference h = gwIdsByReference g \<Longrightarrow>
      resolvePayment (ctxState ctx) (idempotencyKey ctx) h = (Inr (findPayment (payId p) h), h) \<or>
      resolvePayment (ctxState ctx) (idempotencyKey ctx) h =
        ((case findPayment (payId p) h of Some q \<Rightarrow> Inr (Some q) | None \<Rightarrow> Inl (PaymentNotFoundError Mock (payId p))), h)"
    and w: "cwGateway w = g"
  shows "chargeCompensate ctx (snd (chargeCompensate ctx w)) = chargeCompensate ctx w"
proof -
  have here: "resolvePayment (ctxState ctx) (idempotencyKey ctx) g = (Inr (Some p), g)"
    using res [of g] p by auto
  show ?thesis
  proof (cases "isCaptured p")
    case False
    with here w show ?thesis by (cases w) (simp add: chargeCompensate_def)
  next
    case True
    then have nr: "payStatus p \<noteq> Refunded" by (auto simp: isCaptured_def)
    from refund_rest [OF ok p True] show ?thesis
    proof (elim disjE exE conjE)
      fix e assume "refundPayment (payId p) None g = (Inl e, g)"
      with here w nr True show ?thesis by (cases w) (simp add: chargeCompensate_def)
    next
      fix p' assume r: "refundPayment (payId p) None g = (Inr p', storePayment p' g)" "payId p' = payId p"
        "payStatus p' = Refunded"
      have first: "chargeCompensate ctx w = (Inr (), w\<lparr>cwGateway := storePayment p' g\<rparr>)"
        using here w nr True r(1) by (simp add: chargeCompensate_def)
      have "resolvePayment (ctxState ctx) (idempotencyKey ctx) (storePayment p' g)
          = (Inr (Some p'), storePayment p' g)"
        using res [of "storePayment p' g"] r(2) by auto
      with first r(3) show ?thesis by (simp add: chargeCompensate_def)
    qed
  qed
qed

lemma chargeCompensate_twice:
  assumes ok: "gatewayOk (cwGateway w)"
  shows "chargeCompensate ctx (snd (chargeCompensate ctx w)) = chargeCompensate ctx w"
proof (cases "idField (ctxState ctx) ''paymentId''")
  case (Some i)
  then have res: "resolvePayment (ctxState ctx) (idempotencyKey ctx) h = (Inr (findPayment i h), h)" for h
    by (simp add: resolvePayment_def)
  show ?thesis
  proof (cases "findPayment i (cwGateway w)")
    case None
    with res show ?thesis by (cases w) (simp add: chargeCompensate_def)
  next
    case (Some p)
    then have "payId p = i" by (rule gatewayOkD(1) [OF ok])
    with Some res show ?thesis
      by (intro chargeCompensate_resolved [of "cwGateway w" p]) (auto simp: ok)
  qed
next
  case None
  show ?thesis
  proof (cases "authorizePayment (amountOf (ctxState ctx)) (idempotencyKey ctx) (cwGateway w)")
    case (Pair out g)
    show ?thesis
    proof (cases out)
      case (Inl e)
      then have "g = cwGateway w" using Pair authorizePayment_Inl by metis
      with Pair Inl None show ?thesis by (simp add: chargeCompensate_def resolvePayment_def)
    next
      case (Inr p)
      note auth = authorizePayment_found [OF ok Pair [unfolded Inr]]
      let ?w = "w\<lparr>cwGateway := g\<rparr>"
      have res: "resolvePayment (ctxState ctx) (idempotencyKey ctx) h =
          ((case findPayment (payId p) h of Some q \<Rightarrow> Inr (Some q) | None \<Rightarrow> Inl (PaymentNotFoundError Mock (payId p))), h)"
        if "gwIdsByReference h = gwIdsByReference g" for h
        using None auth(3) [OF that]
        by (simp add: resolvePayment_def requirePayment_def findPayment_def split: option.splits)
      have "resolvePayment (ctxState ctx) (idempotencyKey ctx) (cwGateway w)
          = resolvePayment (ctxState ctx) (idempotencyKey ctx) g"
        using res [of g] auth(2) Pair Inr None by (simp add: resolvePayment_def)
      then have same: "chargeCompensate ctx w = chargeCompensate ctx ?w"
        by (simp add: chargeCompensate_def split: prod.split sum.split option.split)
      have "chargeCompensate ctx (snd (chargeCompensate ctx ?w)) = chargeCompensate ctx ?w"
        by (rule chargeCompensate_resolved [of g p]) (use auth res in auto)
      with same show ?thesis by simp
    qed
  qed
qed

text \<open>
  C38. Every step of the checkout saga is idempotent: executing or compensating it a second time, with
  the same context, answers what the first time answered and leaves the order table, the warehouse,
  the gateway, the carrier and the staged events as the first time left them.
\<close>

theorem checkout_steps_idempotent:
  assumes "gatewayOk (cwGateway w)" and "s \<in> set checkoutSteps"
  shows "execute s ctx (snd (execute s ctx w)) = execute s ctx w
    \<and> (stepKind s = KCompensatable \<longrightarrow>
         compensate s ctx (snd (compensate s ctx w)) = compensate s ctx w)"
  using assms(2) acceptExecute_twice acceptCompensate_twice reserveExecute_twice
    chargeExecute_twice [OF assms(1)] chargeCompensate_twice [OF assms(1)] shipExecute_twice
    confirmExecute_twice
  by (auto simp: checkoutSteps_def acceptOrderStep_def reserveStockStep_def chargePaymentStep_def
      createShipmentStep_def confirmOrderStep_def reserveCompensate_def releaseStock_again)

definition sampleWorld :: checkoutWorld where
  "sampleWorld = \<lparr>cwOrders = [], cwInventory = \<lparr>ivStock = [''SKU-LAMP-03'' \<mapsto> 12], ivReservations = []\<rparr>,
     cwCarrier = \<lparr>crShipments = [], crSequence = 0\<rparr>, cwGateway = emptyGateway, cwEvents = [], cwNow = 0\<rparr>"

theorem checkout_steps_idempotent_witness:
  "let ctx = \<lparr>ctxSagaId = ''s'', ctxState = [''totalMinor'' \<mapsto> JNum 500, ''currency'' \<mapsto> JStr ''EUR''],
              idempotencyKey = ''s:charge-payment'', ctxCorrelationId = None, ctxFailure = None\<rparr>
   in execute chargePaymentStep ctx (snd (execute chargePaymentStep ctx sampleWorld))
        = execute chargePaymentStep ctx sampleWorld"
  using checkout_steps_idempotent [of sampleWorld chargePaymentStep] emptyGateway_ok
  by (simp add: sampleWorld_def checkoutSteps_def Let_def)

section \<open>Placing an order\<close>

record placeOrderInput =
  piLines :: "reservedLine list"
  piShippingCountry :: string
  piCorrelationId :: "string option"

datatype placeOrderError = BadBasket orderInputError | NotStarted unknownSaga | CreateFailed

definition checkoutState :: "string \<Rightarrow> string \<Rightarrow> pricedOrder \<Rightarrow> string \<Rightarrow> sagaState" where
  "checkoutState orderId userId priced country =
     [''orderId'' \<mapsto> JStr orderId, ''userId'' \<mapsto> JStr userId,
      ''currency'' \<mapsto> JStr (currency (poTotal priced)),
      ''totalMinor'' \<mapsto> JNum (amountMinor (poTotal priced)),
      ''shippingCountry'' \<mapsto> JStr (toUpperCase country),
      ''lines'' \<mapsto> JArr (map lineToJson (poItems priced)),
      ''reservationId'' \<mapsto> JNull, ''paymentId'' \<mapsto> JNull, ''shipmentId'' \<mapsto> JNull]"

text \<open>
  \<open>PlaceOrderHandler.execute\<close>. \<open>orderId\<close>, \<open>sagaId\<close> and \<open>owner\<close> are the UUIDs drawn on the way.
\<close>

definition placeOrder :: "'s sagaStoreOps \<Rightarrow> orchestratorConfig \<Rightarrow> (nat \<Rightarrow> tick \<times> rivalOp list)
    \<Rightarrow> checkoutWorld sagaRegistry \<Rightarrow> string \<Rightarrow> string \<Rightarrow> string \<Rightarrow> int \<Rightarrow> string \<Rightarrow> placeOrderInput
    \<Rightarrow> 's \<Rightarrow> checkoutWorld \<Rightarrow> (placeOrderError + orderRecord) \<times> 's \<times> checkoutWorld" where
  "placeOrder ops cfg env reg orderId sagaId owner now userId input s w =
     (case priceOrder (piLines input) of
        Inl e \<Rightarrow> (Inl (BadBasket e), s, w)
      | Inr priced \<Rightarrow>
          (let st = checkoutState orderId userId priced (piShippingCountry input) in
           case startSaga ops reg now \<lparr>niId = sagaId, niName = ''order.checkout'', niState = st,
                  niCorrelationId = piCorrelationId input\<rparr> s of
             Inl e \<Rightarrow> (Inl (NotStarted e), s, w)
           | Inr None \<Rightarrow> (Inl CreateFailed, s, w)
           | Inr (Some (saga, s1)) \<Rightarrow>
               (let (created, rows) = createOrder (cwNow w) \<lparr>noId = orderId, noUserId = userId,
                      noItems = poItems priced, noTotal = poTotal priced,
                      noShippingCountry = toUpperCase (piShippingCountry input), noSagaId = siId saga\<rparr> (cwOrders w);
                    placed = (''order.placed'', [(''orderId'', JStr orderId), (''userId'', JStr userId),
                      (''totalMinor'', JNum (amountMinor (poTotal priced))),
                      (''currency'', JStr (currency (poTotal priced))),
                      (''lineCount'', JNum (of_nat (length (poItems priced))))]);
                    (_, s2, w2) = advance ops cfg env reg owner now (siId saga) s1
                      (w\<lparr>cwOrders := rows, cwEvents := cwEvents w @ [placed]\<rparr>)
                in (Inr (orElse (findOrder orderId (cwOrders w2)) created), s2, w2))))"

end
