(* ===== verification/SagaRuns.thy ===== *)
theory SagaRuns
  imports SagaOrchestrator
begin

text \<open>
  Uninterrupted runs: what \<open>drive\<close> does when no other runner interferes, read on the row and the
  world alone. Each lemma below is one turn of the loop of
  \<open>src/saga/saga-orchestrator.service.ts\<close> with the facts the next turn needs.
\<close>

section \<open>The loop without the store\<close>

fun quietRun :: "orchestratorConfig \<Rightarrow> (nat \<Rightarrow> tick) \<Rightarrow> 'w sagaDefinition \<Rightarrow> string \<Rightarrow> nat
    \<Rightarrow> sagaInstance \<Rightarrow> 'w \<Rightarrow> sagaInstance \<times> 'w" where
  "quietRun cfg ts d owner 0 r w = (r, w)"
| "quietRun cfg ts d owner (Suc left) r w =
     (if isTerminal (siStatus r) then (r, w)
      else case stepOnce cfg (ts left) d r w of
        (Inl e, w') \<Rightarrow> (r, w')
      | (Inr p, w') \<Rightarrow>
          (let r' = progressRow (leaseOf cfg owner (tkSaveNow (ts left))) p r
           in if spRelease p then (r', w') else quietRun cfg ts d owner left r' w'))"

declare quietRun.simps(2) [simp del]

lemma rivalSteps_Nil [simp]: "rivalSteps ops [] s = s"
  by (simp add: rivalSteps_def)

context saga_store
begin

lemma save_owned:
  assumes "invar s" and "opFind ops s i = Some r" and "siLockedBy r = Some (clOwner c)"
  obtains s' where "opSave ops i c p s = (Some (progressRow c p r), s')" and "invar s'"
    and "opFind ops s' i = Some (progressRow c p r)"
proof -
  obtain saved s' where run: "opSave ops i c p s = (saved, s')" by fastforce
  then have spec: "saveSpec i c p (opFind ops s) = (saved, opFind ops s')"
    using save_refines [OF assms(1), of i c p] by simp
  then have "saved = Some (progressRow c p r)"
    and "opFind ops s' = (opFind ops s)(i \<mapsto> progressRow c p r)"
    using assms(2,3) by (auto simp: saveSpec_def)
  with run save_invar [OF assms(1), of i c p] show thesis by (intro that) auto
qed

lemma driveLoop_quiet:
  assumes "wellDefined d" and "\<And>k. env k = (ts k, [])"
    and "invar s" and "opFind ops s (siId r) = Some r" and "siLockedBy r = Some owner"
    and "instanceOk cfg d r" and "\<not> isTerminal (siStatus r)" and "remainingSteps d r < left"
  obtains s' where "driveLoop ops cfg env d owner left r s w
      = (Released, fst (quietRun cfg ts d owner left r w), s', snd (quietRun cfg ts d owner left r w))"
    and "invar s'" and "opFind ops s' (siId r) = Some (fst (quietRun cfg ts d owner left r w))"
proof -
  have "\<exists>s'. driveLoop ops cfg env d owner left r s w
      = (Released, fst (quietRun cfg ts d owner left r w), s', snd (quietRun cfg ts d owner left r w))
    \<and> invar s' \<and> opFind ops s' (siId r) = Some (fst (quietRun cfg ts d owner left r w))"
    using assms(3-8)
  proof (induction left arbitrary: r s w)
    case (Suc left)
    obtain p v where step: "stepOnce cfg (ts left) d r w = (Inr p, v)" and fine: "stepFine cfg d r p"
      by (rule stepOnce_fine [OF assms(1) Suc.prems(4,5)])
    define c where "c = leaseOf cfg owner (tkSaveNow (ts left))"
    define q where "q = progressRow c p r"
    have owner: "siLockedBy r = Some (clOwner c)" using Suc.prems(3) by (simp add: c_def leaseOf_def)
    obtain s2 where save: "opSave ops (siId r) c p s = (Some q, s2)" "invar s2" "opFind ops s2 (siId r) = Some q"
      by (rule save_owned [OF Suc.prems(1,2) owner, of p]) (auto simp: q_def)
    have loop: "driveLoop ops cfg env d owner (Suc left) r s w =
        (if spRelease p then (Released, q, s2, v) else driveLoop ops cfg env d owner left q s2 v)"
      using Suc.prems(5) assms(2) [of left] step save(1) by (simp add: c_def)
    have quiet: "quietRun cfg ts d owner (Suc left) r w =
        (if spRelease p then (q, v) else quietRun cfg ts d owner left q v)"
      using Suc.prems(5) step by (simp add: quietRun.simps(2) c_def q_def Let_def)
    show ?case
    proof (cases "spRelease p")
      case True
      with loop quiet save show ?thesis by auto
    next
      case False
      then have "\<not> isTerminal (siStatus q)" "instanceOk cfg d q" "remainingSteps d q < remainingSteps d r"
        using fine by (auto simp: stepFine_def q_def)
      moreover have "siLockedBy q = Some owner" using False by (simp add: q_def progressRow_def c_def leaseOf_def)
      moreover have "siId q = siId r" by (simp add: q_def)
      ultimately have "\<exists>s'. driveLoop ops cfg env d owner left q s2 v
          = (Released, fst (quietRun cfg ts d owner left q v), s', snd (quietRun cfg ts d owner left q v))
        \<and> invar s' \<and> opFind ops s' (siId q) = Some (fst (quietRun cfg ts d owner left q v))"
        using Suc.prems(6) save by (intro Suc.IH) auto
      with False loop quiet \<open>siId q = siId r\<close> show ?thesis by simp
    qed
  qed simp
  with that show thesis by blast
qed

end

section \<open>One turn of the loop\<close>

text \<open>What a turn leaves alone, and what it leaves behind.\<close>

definition turned :: "orchestratorConfig \<Rightarrow> 'w sagaDefinition \<Rightarrow> sagaInstance \<Rightarrow> sagaInstance
    \<Rightarrow> sagaStatus \<Rightarrow> int \<Rightarrow> sagaState \<Rightarrow> bool" where
  "turned cfg d r r' status c st \<longleftrightarrow> instanceOk cfg d r' \<and> siId r' = siId r
     \<and> siCorrelationId r' = siCorrelationId r \<and> siName r' = siName r
     \<and> siStatus r' = status \<and> siCursor r' = c \<and> siState r' = st"

lemma stepOnce_at:
  assumes "instanceOk cfg d r" and "\<not> isTerminal (siStatus r)" and "siCursor r = int k"
  shows "stepOnce cfg t d r w =
    (let (p, w') = (if siStatus r = COMPENSATING then compensateStep cfg t d r (steps d ! k) w
                    else executeStep cfg t d r (steps d ! k) w) in (Inr p, w'))"
proof -
  have c: "siCursor r < int (length (steps d))" and "\<exists>k. forwardDone r = take k (stepNames d)"
    using assms(1,2)
    by (auto simp: instanceOk_def Let_def isTerminal_def unwinding_def split: sagaStatus.splits)
  then have "assertResumable d r = None" by (auto intro: assertResumable_prefix)
  with c assms(3) show ?thesis by (simp add: stepOnce_def indexed_def)
qed

lemma quiet_forward:
  assumes wd: "wellDefined d" and ok: "instanceOk cfg d r" and st: "siStatus r = RUNNING"
    and k: "siCursor r = int k" and quick: "tkElapsed (ts left) < stepTimeoutMs cfg"
    and ex: "execute (steps d ! k) (contextOf r (steps d ! k) None) w = (Inr patch, w')"
  obtains r' where "turned cfg d r r' (if k + 1 = length (steps d) then COMPLETED else RUNNING)
        (int (k + 1)) (mergeState (siState r) patch)"
    and "quietRun cfg ts d owner (Suc left) r w =
      (if k + 1 = length (steps d) then (r', w') else quietRun cfg ts d owner left r' w')"
proof -
  have nt: "\<not> isTerminal (siStatus r)" by (simp add: st isTerminal_def)
  obtain p v where step: "stepOnce cfg (ts left) d r w = (Inr p, v)" and fine: "stepFine cfg d r p"
    by (rule stepOnce_fine [OF wd ok nt])
  have "k < length (steps d)" using ok st k by (simp add: instanceOk_def)
  then have p: "p = \<lparr>spStatus = (if k + 1 = length (steps d) then COMPLETED else RUNNING),
      spCursor = int k + 1, spAttempts = 0, spNextAttemptAt = tkNow (ts left),
      spState = mergeState (siState r) patch,
      spEntry = entryOf (stepName (steps d ! k)) Forward Completed (siAttempts r + 1) (tkNow (ts left)) None,
      spLastError = siLastError r, spRelease = (k + 1 = length (steps d))\<rparr>" and v: "v = w'"
    using step ex quick k st
    by (auto simp: stepOnce_at [OF ok nt k] executeStep_def callStep_def Let_def)
  define r' where "r' = progressRow (leaseOf cfg owner (tkSaveNow (ts left))) p r"
  have "turned cfg d r r' (if k + 1 = length (steps d) then COMPLETED else RUNNING)
        (int (k + 1)) (mergeState (siState r) patch)"
    using fine by (simp add: turned_def r'_def stepFine_def p progressRow_def)
  moreover have "quietRun cfg ts d owner (Suc left) r w =
      (if k + 1 = length (steps d) then (r', w') else quietRun cfg ts d owner left r' w')"
    using nt step v by (simp add: quietRun.simps(2) r'_def Let_def p)
  ultimately show thesis by (rule that)
qed

lemma quiet_refused:
  assumes wd: "wellDefined d" and ok: "instanceOk cfg d r" and st: "siStatus r = RUNNING"
    and k: "siCursor r = int k" and quick: "tkElapsed (ts left) < stepTimeoutMs cfg"
    and ex: "execute (steps d ! k) (contextOf r (steps d ! k) None) w = (Inl (UnretryableStepError m), w')"
    and kind: "stepKind (steps d ! k) \<noteq> KRetriable"
  obtains r' where "turned cfg d r r' COMPENSATING (int k) (siState r)"
    and "failureMessage (failureFrom d r') = truncateError m"
    and "quietRun cfg ts d owner (Suc left) r w = quietRun cfg ts d owner left r' w'"
proof -
  have nt: "\<not> isTerminal (siStatus r)" by (simp add: st isTerminal_def)
  obtain p v where step: "stepOnce cfg (ts left) d r w = (Inr p, v)" and fine: "stepFine cfg d r p"
    by (rule stepOnce_fine [OF wd ok nt])
  have p: "p = \<lparr>spStatus = COMPENSATING, spCursor = int k, spAttempts = 0, spNextAttemptAt = tkNow (ts left),
      spState = siState r,
      spEntry = entryOf (stepName (steps d ! k)) Forward Failed (siAttempts r + 1) (tkNow (ts left))
        (Some (UnretryableStepError m)),
      spLastError = Some (truncateError m), spRelease = False\<rparr>" and v: "v = w'"
    using step ex quick k st kind
    by (auto simp: stepOnce_at [OF ok nt k] executeStep_def callStep_def retryAt_def Let_def)
  define r' where "r' = progressRow (leaseOf cfg owner (tkSaveNow (ts left))) p r"
  have "turned cfg d r r' COMPENSATING (int k) (siState r)"
    using fine by (simp add: turned_def r'_def stepFine_def p progressRow_def)
  moreover have "failureMessage (failureFrom d r') = truncateError m"
    by (simp add: failureFrom_def r'_def p entryOf_def isForwardFailure_def)
  moreover have "quietRun cfg ts d owner (Suc left) r w = quietRun cfg ts d owner left r' w'"
    using nt step v by (simp add: quietRun.simps(2) r'_def Let_def p)
  ultimately show thesis by (rule that)
qed

lemma quiet_backward:
  assumes wd: "wellDefined d" and ok: "instanceOk cfg d r" and st: "siStatus r = COMPENSATING"
    and k: "siCursor r = int k" and quick: "tkElapsed (ts left) < stepTimeoutMs cfg"
    and undo: "stepKind (steps d ! k) = KCompensatable \<Longrightarrow>
      compensate (steps d ! k) (contextOf r (steps d ! k) (Some (failureFrom d r))) w = (Inr (), w')"
    and skip: "stepKind (steps d ! k) \<noteq> KCompensatable \<Longrightarrow> w' = w"
  obtains r' where "turned cfg d r r' (if k = 0 then COMPENSATED else COMPENSATING) (int k - 1) (siState r)"
    and "failureMessage (failureFrom d r') = failureMessage (failureFrom d r)"
    and "quietRun cfg ts d owner (Suc left) r w =
      (if k = 0 then (r', w') else quietRun cfg ts d owner left r' w')"
proof -
  have nt: "\<not> isTerminal (siStatus r)" by (simp add: st isTerminal_def)
  obtain p v where step: "stepOnce cfg (ts left) d r w = (Inr p, v)" and fine: "stepFine cfg d r p"
    by (rule stepOnce_fine [OF wd ok nt])
  have run: "compensateStep cfg (ts left) d r (steps d ! k) w = (p, v)"
    using step st k by (auto simp: stepOnce_at [OF ok nt k] Let_def split: prod.splits)
  have p: "spStatus p = (if k = 0 then COMPENSATED else COMPENSATING)" "spCursor p = int k - 1"
    "spState p = siState r" "spLastError p = siLastError r" "\<not> isForwardFailure (spEntry p)"
    "spRelease p = (k = 0)" and v: "v = w'"
    using run undo skip quick k
    by (auto simp: compensateStep_def callStep_def Let_def isForwardFailure_def entryOf_def
        split: sagaStep.splits)
  define r' where "r' = progressRow (leaseOf cfg owner (tkSaveNow (ts left))) p r"
  have "turned cfg d r r' (if k = 0 then COMPENSATED else COMPENSATING) (int k - 1) (siState r)"
    using fine p by (simp add: turned_def r'_def stepFine_def progressRow_def)
  moreover have "failureMessage (failureFrom d r') = failureMessage (failureFrom d r)"
    by (simp add: failureFrom_def r'_def p progressRow_def split: option.splits)
  moreover have "quietRun cfg ts d owner (Suc left) r w =
      (if k = 0 then (r', w') else quietRun cfg ts d owner left r' w')"
    using nt step v p(6) by (simp add: quietRun.simps(2) r'_def Let_def)
  ultimately show thesis by (rule that)
qed

section \<open>A whole uninterrupted advance\<close>

lemma sql_quiet_advance:
  fixes cfg :: orchestratorConfig and owner :: string and now :: int and inst :: newSagaInstance and w :: 'w
  assumes "sqlInvar s" and "sqlFind s (niId inst) = None" and "reg (niName inst) = Some d"
    and wd: "wellDefined d" and env: "\<And>k. env k = (ts k, [])"
  defines "r0 \<equiv> leaseRow (leaseOf cfg owner now) (freshRow now inst)"
  defines "out \<equiv> quietRun cfg ts d owner (length (steps d) * 2 + 2) r0 w"
  obtains s1 s2 where "startSaga sqlStore reg now inst s = Inr (Some (freshRow now inst, s1))"
    and "advance sqlStore cfg env reg owner now (niId inst) s1 w = (Some (Released, fst out), s2, snd out)"
    and "sqlFind s2 (niId inst) = Some (fst out)"
proof -
  have none: "opFind sqlStore s (niId inst) = None" using assms(2) by (simp add: sqlStore_def)
  from sql.create_row [OF assms(1) none, of now] obtain s1 where
    create: "opCreate sqlStore now inst s = Some (freshRow now inst, s1)" and inv1: "sqlInvar s1"
    and find1: "opFind sqlStore s1 = (opFind sqlStore s)(niId inst \<mapsto> freshRow now inst)"
    by blast
  let ?c = "leaseOf cfg owner now"
  have "isClaimable (freshRow now inst) (clNow ?c)"
    by (simp add: isClaimable_def freshRow_def leaseOf_def)
  then have spec: "claimSpec (niId inst) ?c (opFind sqlStore s1) = (Some r0, (opFind sqlStore s1)(niId inst \<mapsto> r0))"
    by (simp add: claimSpec_def find1 r0_def)
  obtain s2 where claim: "opClaim sqlStore (niId inst) ?c s1 = (Some r0, s2)"
    and find2: "opFind sqlStore s2 (niId inst) = Some r0"
    using sql.claim_refines [OF inv1, of "niId inst" ?c] spec
    by (cases "opClaim sqlStore (niId inst) ?c s1") auto
  have inv2: "sqlInvar s2" using sql.claim_invar [OF inv1, of "niId inst" ?c] claim by simp
  have "0 < length (steps d)" using wd by (auto simp: wellDefined_def)
  then have ok: "instanceOk cfg d r0"
    by (simp add: r0_def) (simp add: freshRow_def instanceOk_def forwardDone_def backwardDone_def less_max_iff_disj)
  have r0: "siId r0 = niId inst" "siName r0 = niName inst" "siLockedBy r0 = Some owner"
    "\<not> isTerminal (siStatus r0)"
    by (simp_all add: r0_def leaseRow_def freshRow_def leaseOf_def isTerminal_def)
  obtain s3 where "driveLoop sqlStore cfg env d owner (length (steps d) * 2 + 2) r0 s2 w
      = (Released, fst out, s3, snd out)" and "opFind sqlStore s3 (siId r0) = Some (fst out)"
    unfolding out_def
    by (rule sql.driveLoop_quiet [OF wd env inv2 _ r0(3) ok r0(4) remainingSteps_bound [OF ok], where w = w])
      (use find2 r0(1) in simp)
  with claim assms(3) r0(1,2) have
    "advance sqlStore cfg env reg owner now (niId inst) s1 w = (Some (Released, fst out), s3, snd out)"
    "sqlFind s3 (niId inst) = Some (fst out)"
    by (simp_all add: advance_def drive_def del: driveLoop.simps) (simp add: sqlStore_def)
  moreover have "startSaga sqlStore reg now inst s = Inr (Some (freshRow now inst, s1))"
    using assms(3) create by (simp add: startSaga_def requireSaga_def)
  ultimately show thesis using that by blast
qed

end
