(* ===== verification/CheckoutRuns.thy ===== *)
theory CheckoutRuns
  imports Checkout SagaRuns
begin

text \<open>
  Whole checkouts: \<open>placeOrder\<close> of \<open>src/orders/write/place-order.command.ts\<close> driven to its end by the
  orchestrator over the Postgres saga store, with the five steps of \<open>src/orders/checkout.saga.ts\<close>.
  One lemma per step and direction says what the step does to the row and to the world; the two
  theorems compose them for a checkout that goes through and for one the carrier refuses.
\<close>

section \<open>A checkout from end to end\<close>

abbreviation checkoutRegistry :: "checkoutWorld sagaRegistry" where
  "checkoutRegistry \<equiv> [''order.checkout'' \<mapsto> checkoutDefinition]"

lemma checkoutSaga_defined: "checkoutSaga = Inr checkoutDefinition"
  by (simp add: checkoutSaga_def checkoutDefinition_def defineSaga_def checkoutSteps_def Let_def
      acceptOrderStep_def reserveStockStep_def chargePaymentStep_def createShipmentStep_def
      confirmOrderStep_def)

lemma checkout_wellDefined: "wellDefined checkoutDefinition"
  using checkoutSaga_defined unfolding checkoutSaga_def by (rule defineSaga_InrD(2))

lemma checkout_steps [simp]:
  "length (steps checkoutDefinition) = 5"
  "steps checkoutDefinition ! 0 = acceptOrderStep" "steps checkoutDefinition ! Suc 0 = reserveStockStep"
  "steps checkoutDefinition ! 2 = chargePaymentStep" "steps checkoutDefinition ! 3 = createShipmentStep"
  "steps checkoutDefinition ! 4 = confirmOrderStep"
  by (simp_all add: checkoutDefinition_def checkoutSteps_def)

lemma step_parts [simp]:
  "execute acceptOrderStep = acceptExecute" "compensate acceptOrderStep = acceptCompensate"
  "execute reserveStockStep = reserveExecute" "compensate reserveStockStep = reserveCompensate"
  "execute chargePaymentStep = chargeExecute" "compensate chargePaymentStep = chargeCompensate"
  "execute createShipmentStep = shipExecute" "execute confirmOrderStep = confirmExecute"
  "stepName acceptOrderStep = ''accept-order''" "stepName reserveStockStep = ''reserve-stock''"
  "stepName chargePaymentStep = ''charge-payment''" "stepName createShipmentStep = ''create-shipment''"
  "stepName confirmOrderStep = ''confirm-order''"
  "stepKind acceptOrderStep = KCompensatable" "stepKind reserveStockStep = KCompensatable"
  "stepKind chargePaymentStep = KCompensatable" "stepKind createShipmentStep = KPivot"
  "stepKind confirmOrderStep = KRetriable"
  by (simp_all add: acceptOrderStep_def reserveStockStep_def chargePaymentStep_def createShipmentStep_def
      confirmOrderStep_def)

lemma contextOf_fields [simp]:
  "ctxState (contextOf r s f) = siState r" "ctxFailure (contextOf r s f) = f"
  "idempotencyKey (contextOf r s f) = siId r @ '':'' @ stepName s"
  by (simp_all add: contextOf_def)

lemma lineOfJson_lineToJson [simp]: "lineOfJson (lineToJson l) = \<lparr>sku = sku l, quantity = quantity l\<rparr>"
  by (simp add: lineToJson_def)

lemma mergeState_one [simp]: "mergeState st (Some [(k, Some v)]) = st(k \<mapsto> v)" "mergeState st None = st"
  by (simp_all add: mergeState_def)

lemma field_update [simp]:
  "k \<noteq> k' \<Longrightarrow> strField (st(k' \<mapsto> v)) k = strField st k"
  "k \<noteq> k' \<Longrightarrow> idField (st(k' \<mapsto> v)) k = idField st k"
  "k \<noteq> k' \<Longrightarrow> numField (st(k' \<mapsto> v)) k = numField st k"
  "k' \<noteq> ''lines'' \<Longrightarrow> linesField (st(k' \<mapsto> v)) = linesField st"
  "strField (st(k \<mapsto> JStr s)) k = s" "s \<noteq> [] \<Longrightarrow> idField (st(k \<mapsto> JStr s)) k = Some s"
  "idField (st(k \<mapsto> JNull)) k = None"
  by (simp_all add: strField_def idField_def numField_def linesField_def)

lemma accept_turn:
  assumes "findOrder (strField (ctxState ctx) ''orderId'') (cwOrders w) = Some o'" and "orStatus o' = PENDING"
  obtains w' where "acceptExecute ctx w = (Inr None, w')"
    and "findOrder (strField (ctxState ctx) ''orderId'') (cwOrders w')
      = Some (o'\<lparr>orStatus := PROCESSING, orFailureReason := None, orUpdatedAt := cwNow w\<rparr>)"
    and "cwInventory w' = cwInventory w" "cwGateway w' = cwGateway w" "cwCarrier w' = cwCarrier w"
    "cwEvents w' = cwEvents w" "cwNow w' = cwNow w"
proof -
  obtain rows where tx: "transitionTx (strField (ctxState ctx) ''orderId'') PROCESSING None [] w
      = (Inr (), w\<lparr>cwOrders := rows, cwEvents := cwEvents w @ []\<rparr>)"
    and rows: "findOrder (strField (ctxState ctx) ''orderId'') rows
      = Some (o'\<lparr>orStatus := PROCESSING, orFailureReason := None, orUpdatedAt := cwNow w\<rparr>)"
    by (rule transitionTx_found [OF assms(1), of PROCESSING None "[]"]) simp
  show thesis
    by (rule that [of "w\<lparr>cwOrders := rows, cwEvents := cwEvents w @ []\<rparr>"])
      (use tx rows in \<open>simp_all add: acceptExecute_def assms\<close>)
qed

lemma reserve_turn:
  assumes "inventoryOk (cwInventory w)" and "map_of (ivReservations (cwInventory w)) (idempotencyKey ctx) = None"
    and "shortLine (cwInventory w) (mergeLines (linesField (ctxState ctx))) = None"
    and "\<forall>l \<in> set (linesField (ctxState ctx)). 0 \<le> quantity l"
  obtains iv where
    "reserveExecute ctx w = (Inr (Some [(''reservationId'', Some (JStr (idempotencyKey ctx)))]), w\<lparr>cwInventory := iv\<rparr>)"
    and "inventoryOk iv"
    and "\<And>s. stockOf iv s = stockOf (cwInventory w) s - quantityOf s (linesField (ctxState ctx))"
    and "map_of (ivReservations iv) (idempotencyKey ctx)
      = Some \<lparr>srId = idempotencyKey ctx, srOrderId = strField (ctxState ctx) ''orderId'',
          srLines = mergeLines (linesField (ctxState ctx)), srHeld = True\<rparr>"
proof -
  obtain out iv where run: "reserveStock (idempotencyKey ctx) (strField (ctxState ctx) ''orderId'')
      (linesField (ctxState ctx)) (cwInventory w) = (out, iv)"
    by fastforce
  note fresh = reserveStock_fresh [OF assms(1,4,2,3) run]
  have "out = Inr \<lparr>srId = idempotencyKey ctx, srOrderId = strField (ctxState ctx) ''orderId'',
          srLines = mergeLines (linesField (ctxState ctx)), srHeld = True\<rparr>"
    and "map_of (ivReservations iv) (idempotencyKey ctx)
      = Some \<lparr>srId = idempotencyKey ctx, srOrderId = strField (ctxState ctx) ''orderId'',
          srLines = mergeLines (linesField (ctxState ctx)), srHeld = True\<rparr>"
    using run assms(2,3) by (auto simp: reserveStock_def Let_def update_conv')
  with run fresh show thesis by (intro that [of iv]) (simp_all add: reserveExecute_def)
qed

lemma charge_turn:
  assumes ok: "gatewayOk (cwGateway w)" and new: "map_of (gwIdsByReference (cwGateway w)) (idempotencyKey ctx) = None"
    and amount: "normaliseMoney (amountOf (ctxState ctx)) = Inr amount"
  obtains p g where
    "chargeExecute ctx w = (Inr (Some [(''paymentId'', Some (JStr (payId p)))]), w\<lparr>cwGateway := g\<rparr>)"
    and "gatewayOk g" and "findPayment (payId p) g = Some p" and "payStatus p = Succeeded"
    and "payAmount p = amount" and "amountMinor (payRefunded p) = 0" and "payId p \<noteq> []"
proof -
  obtain q g where auth: "authorizePayment (amountOf (ctxState ctx)) (idempotencyKey ctx) (cwGateway w) = (Inr q, g)"
    and q: "payStatus q = Authorized" "payAmount q = amount" "amountMinor (payRefunded q) = 0" "payId q \<noteq> []"
    using new amount by (auto simp: authorizePayment_def mapError_def Let_def mockPaymentId_def)
  note found = authorizePayment_found [OF ok auth]
  define p where "p = q\<lparr>payStatus := Succeeded\<rparr>"
  have "chargeExecute ctx w = (Inr (Some [(''paymentId'', Some (JStr (payId p)))]), w\<lparr>cwGateway := storePayment p g\<rparr>)"
    using auth captureIfNeeded_found [OF found(2)] q(1) by (simp add: chargeExecute_def p_def isCaptured_def)
  moreover have "gatewayOk (storePayment p g)"
  proof (rule gatewayOk_store [OF found(1,2)])
    show "paymentOk p" using gatewayOkD(2) [OF found(1,2)] q(1) by (simp add: paymentOk_def p_def)
  qed (simp_all add: p_def)
  moreover have "findPayment (payId p) (storePayment p g) = Some p" by simp
  moreover have "payStatus p = Succeeded" "payAmount p = amount" "amountMinor (payRefunded p) = 0" "payId p \<noteq> []"
    using q by (simp_all add: p_def)
  ultimately show thesis by (rule that)
qed

lemma ship_turn:
  assumes "toUpperCase (strField (ctxState ctx) ''shippingCountry'') \<in> set servicedCountries"
    and "map_of (crShipments (cwCarrier w)) (idempotencyKey ctx) = None"
  obtains cr where
    "shipExecute ctx w = (Inr (Some [(''shipmentId'', Some (JStr (idempotencyKey ctx)))]), w\<lparr>cwCarrier := cr\<rparr>)"
    and "map_of (crShipments cr) (idempotencyKey ctx) \<noteq> None"
  using assms by (auto simp: shipExecute_def createShipment_def Let_def update_conv')

lemma confirm_turn:
  assumes "findOrder (strField (ctxState ctx) ''orderId'') (cwOrders w) = Some o'" and "orStatus o' \<noteq> CONFIRMED"
    and ids: "idField (ctxState ctx) ''paymentId'' = Some pid" "idField (ctxState ctx) ''shipmentId'' = Some sid"
  obtains w' where "confirmExecute ctx w = (Inr None, w')"
    and "findOrder (strField (ctxState ctx) ''orderId'') (cwOrders w')
      = Some (o'\<lparr>orStatus := CONFIRMED, orFailureReason := None, orUpdatedAt := cwNow w\<rparr>)"
    and "cwInventory w' = cwInventory w" "cwGateway w' = cwGateway w" "cwCarrier w' = cwCarrier w"
    and "map fst (cwEvents w') = map fst (cwEvents w) @ [''order.confirmed'']"
proof -
  define events where "events = [(''order.confirmed'', [(''orderId'', JStr (strField (ctxState ctx) ''orderId'')),
    (''userId'', JStr (strField (ctxState ctx) ''userId'')), (''paymentId'', JStr pid), (''shipmentId'', JStr sid)])]"
  obtain rows where tx: "transitionTx (strField (ctxState ctx) ''orderId'') CONFIRMED None events w
      = (Inr (), w\<lparr>cwOrders := rows, cwEvents := cwEvents w @ events\<rparr>)"
    and rows: "findOrder (strField (ctxState ctx) ''orderId'') rows
      = Some (o'\<lparr>orStatus := CONFIRMED, orFailureReason := None, orUpdatedAt := cwNow w\<rparr>)"
    by (rule transitionTx_found [OF assms(1), of CONFIRMED None events]) simp
  have "confirmExecute ctx w = (Inr None, w\<lparr>cwOrders := rows, cwEvents := cwEvents w @ events\<rparr>)"
    using tx assms by (simp add: confirmExecute_def Let_def flip: events_def)
  then show thesis
    by (rule that) (use rows in \<open>simp_all add: events_def\<close>)
qed

lemma turnedD:
  assumes "turned cfg d r r' status c st"
  shows "instanceOk cfg d r'" "siId r' = siId r" "siCorrelationId r' = siCorrelationId r"
    "siName r' = siName r" "siStatus r' = status" "siCursor r' = c" "siState r' = st"
  using assms by (simp_all add: turned_def)

text \<open>What the first three steps need and what they leave behind.\<close>

definition checkoutReady :: "sagaInstance \<Rightarrow> checkoutWorld \<Rightarrow> orderRecord \<Rightarrow> money \<Rightarrow> bool" where
  "checkoutReady r w o' amount \<longleftrightarrow>
     findOrder (strField (siState r) ''orderId'') (cwOrders w) = Some o' \<and> orStatus o' = PENDING
     \<and> inventoryOk (cwInventory w) \<and> gatewayOk (cwGateway w)
     \<and> map_of (ivReservations (cwInventory w)) (siId r @ '':reserve-stock'') = None
     \<and> shortLine (cwInventory w) (mergeLines (linesField (siState r))) = None
     \<and> (\<forall>l \<in> set (linesField (siState r)). 0 \<le> quantity l)
     \<and> map_of (gwIdsByReference (cwGateway w)) (siId r @ '':charge-payment'') = None
     \<and> normaliseMoney (amountOf (siState r)) = Inr amount"

definition paidFor :: "sagaInstance \<Rightarrow> checkoutWorld \<Rightarrow> orderRecord \<Rightarrow> money \<Rightarrow> checkoutWorld \<Rightarrow> payment \<Rightarrow> bool" where
  "paidFor r w o' amount w' p \<longleftrightarrow>
     findOrder (strField (siState r) ''orderId'') (cwOrders w')
       = Some (o'\<lparr>orStatus := PROCESSING, orFailureReason := None, orUpdatedAt := cwNow w\<rparr>)
     \<and> (\<forall>s. stockOf (cwInventory w') s = stockOf (cwInventory w) s - quantityOf s (linesField (siState r)))
     \<and> map_of (ivReservations (cwInventory w')) (siId r @ '':reserve-stock'')
       = Some \<lparr>srId = siId r @ '':reserve-stock'', srOrderId = strField (siState r) ''orderId'',
           srLines = mergeLines (linesField (siState r)), srHeld = True\<rparr>
     \<and> gatewayOk (cwGateway w') \<and> findPayment (payId p) (cwGateway w') = Some p
     \<and> payStatus p = Succeeded \<and> payAmount p = amount \<and> payId p \<noteq> []
     \<and> cwEvents w' = cwEvents w \<and> cwCarrier w' = cwCarrier w \<and> cwNow w' = cwNow w"

lemma checkout_to_pivot:
  assumes ok: "instanceOk cfg checkoutDefinition r" and st: "siStatus r = RUNNING" and c: "siCursor r = 0"
    and quick: "\<And>k. tkElapsed (ts k) < stepTimeoutMs cfg" and ready: "checkoutReady r w o' amount"
  obtains r' w' p where
    "turned cfg checkoutDefinition r r' RUNNING 3 ((siState r)(''reservationId'' \<mapsto> JStr (siId r @ '':reserve-stock''),
        ''paymentId'' \<mapsto> JStr (payId p)))"
    and "quietRun cfg ts checkoutDefinition owner (Suc (Suc (Suc left))) r w
      = quietRun cfg ts checkoutDefinition owner left r' w'"
    and "paidFor r w o' amount w' p"
proof -
  note wd = checkout_wellDefined
  have ready1: "findOrder (strField (siState r) ''orderId'') (cwOrders w) = Some o'" "orStatus o' = PENDING"
    and ready2: "inventoryOk (cwInventory w)"
      "map_of (ivReservations (cwInventory w)) (siId r @ '':reserve-stock'') = None"
      "shortLine (cwInventory w) (mergeLines (linesField (siState r))) = None"
      "\<forall>l \<in> set (linesField (siState r)). 0 \<le> quantity l"
    and ready3: "gatewayOk (cwGateway w)"
      "map_of (gwIdsByReference (cwGateway w)) (siId r @ '':charge-payment'') = None"
      "normaliseMoney (amountOf (siState r)) = Inr amount"
    using ready by (simp_all add: checkoutReady_def)
  obtain w1 where ex1: "acceptExecute (contextOf r acceptOrderStep None) w = (Inr None, w1)"
    and w1: "findOrder (strField (siState r) ''orderId'') (cwOrders w1)
        = Some (o'\<lparr>orStatus := PROCESSING, orFailureReason := None, orUpdatedAt := cwNow w\<rparr>)"
      "cwInventory w1 = cwInventory w" "cwGateway w1 = cwGateway w" "cwCarrier w1 = cwCarrier w"
      "cwEvents w1 = cwEvents w" "cwNow w1 = cwNow w"
    by (rule accept_turn [of "contextOf r acceptOrderStep None" w o']) (use ready1 in simp_all)
  obtain r1 where t1: "turned cfg checkoutDefinition r r1 RUNNING 1 (siState r)"
    and q1: "quietRun cfg ts checkoutDefinition owner (Suc (Suc (Suc left))) r w
      = quietRun cfg ts checkoutDefinition owner (Suc (Suc left)) r1 w1"
    by (rule quiet_forward [where ts = ts, OF wd ok st _ quick, where k = 0 and w = w and w' = w1 and patch = None
          and left = "Suc (Suc left)" and owner = owner]) (use c ex1 in simp_all)
  note r1 = turnedD [OF t1]
  obtain iv where ex2: "reserveExecute (contextOf r1 reserveStockStep None) w1
      = (Inr (Some [(''reservationId'', Some (JStr (siId r @ '':reserve-stock'')))]), w1\<lparr>cwInventory := iv\<rparr>)"
    and iv: "\<And>s. stockOf iv s = stockOf (cwInventory w) s - quantityOf s (linesField (siState r))"
      "map_of (ivReservations iv) (siId r @ '':reserve-stock'')
       = Some \<lparr>srId = siId r @ '':reserve-stock'', srOrderId = strField (siState r) ''orderId'',
           srLines = mergeLines (linesField (siState r)), srHeld = True\<rparr>"
    by (rule reserve_turn [of w1 "contextOf r1 reserveStockStep None"]) (use ready2 r1 w1 in simp_all)
  obtain r2 where t2: "turned cfg checkoutDefinition r1 r2 RUNNING 2
        ((siState r1)(''reservationId'' \<mapsto> JStr (siId r @ '':reserve-stock'')))"
    and q2: "quietRun cfg ts checkoutDefinition owner (Suc (Suc left)) r1 w1
      = quietRun cfg ts checkoutDefinition owner (Suc left) r2 (w1\<lparr>cwInventory := iv\<rparr>)"
    by (rule quiet_forward [where ts = ts, OF wd r1(1,5) _ quick, where k = 1 and w = w1
          and patch = "Some [(''reservationId'', Some (JStr (siId r @ '':reserve-stock'')))]" and w' = "w1\<lparr>cwInventory := iv\<rparr>"
          and left = "Suc left" and owner = owner])
      (use r1 ex2 in simp_all)
  note r2 = turnedD [OF t2]
  have amt: "amountOf (siState r2) = amountOf (siState r)" by (simp add: amountOf_def r2(7) r1(7))
  obtain p g where ex3: "chargeExecute (contextOf r2 chargePaymentStep None) (w1\<lparr>cwInventory := iv\<rparr>)
      = (Inr (Some [(''paymentId'', Some (JStr (payId p)))]), w1\<lparr>cwInventory := iv, cwGateway := g\<rparr>)"
    and p: "gatewayOk g" "findPayment (payId p) g = Some p" "payStatus p = Succeeded" "payAmount p = amount"
      "payId p \<noteq> []"
    by (rule charge_turn [of "w1\<lparr>cwInventory := iv\<rparr>" "contextOf r2 chargePaymentStep None" amount])
      (use ready3 r1 r2 w1 amt in simp_all)
  obtain r3 where t3: "turned cfg checkoutDefinition r2 r3 RUNNING 3
        ((siState r2)(''paymentId'' \<mapsto> JStr (payId p)))"
    and q3: "quietRun cfg ts checkoutDefinition owner (Suc left) r2 (w1\<lparr>cwInventory := iv\<rparr>)
      = quietRun cfg ts checkoutDefinition owner left r3 (w1\<lparr>cwInventory := iv, cwGateway := g\<rparr>)"
    by (rule quiet_forward [where ts = ts, OF wd r2(1,5) _ quick, where k = 2 and w = "w1\<lparr>cwInventory := iv\<rparr>"
          and patch = "Some [(''paymentId'', Some (JStr (payId p)))]"
          and w' = "w1\<lparr>cwInventory := iv, cwGateway := g\<rparr>" and left = left and owner = owner])
      (use r2 ex3 in simp_all)
  note r3 = turnedD [OF t3]
  show thesis
  proof (rule that)
    show "turned cfg checkoutDefinition r r3 RUNNING 3
        ((siState r)(''reservationId'' \<mapsto> JStr (siId r @ '':reserve-stock''), ''paymentId'' \<mapsto> JStr (payId p)))"
      using r1 r2 r3 by (simp add: turned_def)
    show "quietRun cfg ts checkoutDefinition owner (Suc (Suc (Suc left))) r w
        = quietRun cfg ts checkoutDefinition owner left r3 (w1\<lparr>cwInventory := iv, cwGateway := g\<rparr>)"
      using q1 q2 q3 by simp
    show "paidFor r w o' amount (w1\<lparr>cwInventory := iv, cwGateway := g\<rparr>) p"
      using w1 iv p by (simp add: paidFor_def)
  qed
qed


subsection \<open>Unwinding\<close>

lemma charge_undone:
  assumes ok: "gatewayOk (cwGateway w)" and found: "findPayment i (cwGateway w) = Some p"
    and paid: "payStatus p = Succeeded" "0 < amountMinor (payAmount p)"
    and state: "idField (ctxState ctx) ''paymentId'' = Some i"
  obtains g p' where "chargeCompensate ctx w = (Inr (), w\<lparr>cwGateway := g\<rparr>)" and "findPayment i g = Some p'"
    and "payStatus p' = Refunded" and "payRefunded p' = payAmount p" and "payAmount p' = payAmount p" and "payId p' = i"
proof -
  have p: "payId p = i" "paymentOk p" using gatewayOkD [OF ok found] by simp_all
  then have unrefunded: "amountMinor (payRefunded p) = 0" using paid(1) by (simp add: paymentOk_def)
  define p' where "p' = p\<lparr>payStatus := Refunded,
    payRefunded := \<lparr>amountMinor = amountMinor (payAmount p), currency = currency (payAmount p)\<rparr>\<rparr>"
  have "requirePayment i (cwGateway w) = Inr p" using found by (simp add: requirePayment_InrD)
  moreover have "resolveRefundAmount p None
      = Inr \<lparr>amountMinor = amountMinor (payAmount p), currency = currency (payAmount p)\<rparr>"
    using paid unrefunded unfolding resolveRefundAmount_def sameCurrency_def Let_def by simp
  ultimately have "refundPayment i None (cwGateway w) = (Inr p', storePayment p' (cwGateway w))"
    using unrefunded by (simp add: refundPayment_def p'_def Let_def)
  then have "chargeCompensate ctx w = (Inr (), w\<lparr>cwGateway := storePayment p' (cwGateway w)\<rparr>)"
    using state found paid(1) p(1) by (simp add: chargeCompensate_def resolvePayment_def isCaptured_def)
  then show thesis
    by (rule that [of "storePayment p' (cwGateway w)" p']) (use p(1) in \<open>simp_all add: p'_def\<close>)
qed

lemma reserve_undone:
  assumes "map_of (ivReservations (cwInventory w)) (idempotencyKey ctx) = Some hold" and "srHeld hold"
  obtains iv where "reserveCompensate ctx w = (Inr (), w\<lparr>cwInventory := iv\<rparr>)"
    and "\<And>s. stockOf iv s = stockOf (cwInventory w) s + quantityOf s (srLines hold)"
  by (rule that [OF reserveCompensate_def])
    (use assms in \<open>simp add: releaseStock_def Let_def adjustStock_stock\<close>)

lemma accept_undone:
  assumes "findOrder (strField (ctxState ctx) ''orderId'') (cwOrders w) = Some o'" and "orStatus o' \<noteq> CANCELLED"
    and "ctxFailure ctx = Some f"
  obtains w' where "acceptCompensate ctx w = (Inr (), w')"
    and "findOrder (strField (ctxState ctx) ''orderId'') (cwOrders w')
      = Some (o'\<lparr>orStatus := CANCELLED, orFailureReason := Some (failureMessage f), orUpdatedAt := cwNow w\<rparr>)"
    and "cwInventory w' = cwInventory w" "cwGateway w' = cwGateway w"
    and "map fst (cwEvents w') = map fst (cwEvents w) @ [''order.cancelled'']"
proof -
  define events where "events = [(''order.cancelled'', [(''orderId'', JStr (strField (ctxState ctx) ''orderId'')),
    (''userId'', JStr (strField (ctxState ctx) ''userId'')), (''reason'', JStr (failureMessage f))])]"
  obtain rows where tx: "transitionTx (strField (ctxState ctx) ''orderId'') CANCELLED (Some (failureMessage f)) events w
      = (Inr (), w\<lparr>cwOrders := rows, cwEvents := cwEvents w @ events\<rparr>)"
    and rows: "findOrder (strField (ctxState ctx) ''orderId'') rows
      = Some (o'\<lparr>orStatus := CANCELLED, orFailureReason := Some (failureMessage f), orUpdatedAt := cwNow w\<rparr>)"
    by (rule transitionTx_found [OF assms(1), of CANCELLED "Some (failureMessage f)" events]) simp
  have "acceptCompensate ctx w = (Inr (), w\<lparr>cwOrders := rows, cwEvents := cwEvents w @ events\<rparr>)"
    using tx assms by (simp add: acceptCompensate_def Let_def events_def)
  then show thesis
    by (rule that) (use rows in \<open>simp_all add: events_def\<close>)
qed


section \<open>Orders that can be fulfilled\<close>

lemma shortLine_None_iff: "shortLine iv ls = None \<longleftrightarrow> (\<forall>l \<in> set ls. quantity l \<le> stockOf iv (sku l))"
  by (induction ls) (auto simp: Let_def)

definition asLines :: "orderItem list \<Rightarrow> reservedLine list" where
  "asLines items = map (\<lambda>it. \<lparr>sku = sku it, quantity = quantity it\<rparr>) items"

lemma asLines_simps [simp]:
  "map sku (asLines items) = map sku items" "map quantity (asLines items) = map quantity items"
  by (simp_all add: asLines_def)

lemma quantityOf_asLines [simp]: "quantityOf s (asLines items) = quantityOf s items"
  by (simp add: asLines_def quantityOf_def weightedTotal_def comp_def)

lemma priced_quantities:
  assumes "priceOrder ls = Inr p"
  shows "quantityOf s (poItems p) = quantityOf s ls" and "distinct (map sku (poItems p))"
proof -
  obtain items where items: "priceLines ls = Inr items" and p: "poItems p = mergeLines items"
    using assms by (auto simp: priceOrder_def rbind_eq_Inr_iff canonicaliseBasket_Inr)
  note pr = priceLines_Inr [OF items]
  show "quantityOf s (poItems p) = quantityOf s ls"
    using weightedTotal_cong [of items ls] pr p by (simp add: quantityOf_def mergeLines_weighted)
  show "distinct (map sku (poItems p))" using p mergeLines_distinct_skus by simp
qed


lemma catalogue_prices:
  assumes "productCatalogue s = Some c"
  shows "0 < c" and "c \<le> 34900"
    and "s \<in> set [''SKU-DESK-01'', ''SKU-CHAIR-02'', ''SKU-LAMP-03'', ''SKU-SOLD-OUT'']"
  using assms by (auto simp: productCatalogue_def split: if_splits)

lemma sum_list_bound:
  fixes f :: "'a \<Rightarrow> int"
  assumes "\<And>x. x \<in> set xs \<Longrightarrow> 0 \<le> f x \<and> f x \<le> b"
  shows "0 \<le> sum_list (map f xs)" and "sum_list (map f xs) \<le> b * int (length xs)"
  using assms by (induction xs) (auto simp: distrib_left intro: add_mono)

lemma priced_total_ok:
  assumes price: "priceOrder ls = Inr p" and some: "ls \<noteq> []" and pos: "\<forall>l \<in> set ls. 0 < quantity l"
  shows "moneyOk (poTotal p)" and "0 < amountMinor (poTotal p)"
proof -
  obtain items where items: "priceLines ls = Inr items"
    and p: "poTotal p = \<lparr>amountMinor = of_int (itemsTotal (mergeLines items)), currency = catalogueCurrency\<rparr>"
      "poItems p = mergeLines items"
    and le: "\<forall>l \<in> set (mergeLines items). quantity l \<le> maxQuantityPerSku"
    using price by (auto simp: priceOrder_def rbind_eq_Inr_iff canonicaliseBasket_Inr)
  let ?is = "mergeLines items" and ?f = "\<lambda>it. unitPriceMinor it * quantity it"
  note pr = priceLines_Inr [OF items]
  have cat: "productCatalogue (sku it) = Some (unitPriceMinor it)" if "it \<in> set ?is" for it
    using mergeLines_invariant [of items "\<lambda>it. productCatalogue (sku it) = Some (unitPriceMinor it)"] pr that by auto
  have "quantity ` set items = quantity ` set ls" using pr by (metis list.set_map)
  then have qpos: "0 < quantity it" if "it \<in> set items" for it using pos that by force
  have qpos': "0 < quantity it" if "it \<in> set ?is" for it
  proof -
    have "sku it \<in> sku ` set items" using that mergeLines_skus [of items]
      by (metis image_eqI list.set_map set_remdups set_rev)
    then obtain it' where it': "it' \<in> set items" "sku it' = sku it" by auto
    have "0 < quantityOf (sku it) items"
      using it' qpos
    proof (induction items)
      case (Cons a items)
      have "0 \<le> quantityOf (sku it) items" by (rule quantityOf_nonneg) (use Cons.prems(3) in \<open>auto intro: less_imp_le\<close>)
      with Cons show ?case by (cases "it' = a") (auto simp: add_pos_nonneg add_nonneg_pos)
    qed simp
    then show ?thesis using quantityOf_distinct [OF mergeLines_distinct_skus that] by (simp add: mergeLines_quantity)
  qed
  have each: "0 < ?f it \<and> ?f it \<le> 34900 * 100" if "it \<in> set ?is" for it
  proof -
    have q: "0 < quantity it" "quantity it \<le> 100" using qpos' [OF that] le that by (auto simp: maxQuantityPerSku_def)
    have c: "0 < unitPriceMinor it" "unitPriceMinor it \<le> 34900" by (rule catalogue_prices [OF cat [OF that]])+
    have "?f it \<le> 34900 * 100" by (rule mult_mono) (use q c in simp_all)
    then show ?thesis using q c by simp
  qed
  have "set (map sku ?is) \<subseteq> set [''SKU-DESK-01'', ''SKU-CHAIR-02'', ''SKU-LAMP-03'', ''SKU-SOLD-OUT'']"
    using catalogue_prices(3) [OF cat] by auto
  from card_mono [OF finite_set this] have "card (set (map sku ?is)) \<le> 4"
    by (rule le_trans) (rule le_trans [OF card_length], simp)
  then have "length ?is \<le> 4" using distinct_card [OF mergeLines_distinct_skus [of items]] by simp
  moreover have "0 \<le> sum_list (map ?f ?is)" "sum_list (map ?f ?is) \<le> 34900 * 100 * int (length ?is)"
    using sum_list_bound [of ?is ?f "34900 * 100"] each by (auto intro: less_imp_le)
  ultimately have bounds: "0 \<le> itemsTotal ?is" "itemsTotal ?is \<le> 34900 * 100 * 4"
    unfolding itemsTotal_eq by linarith+
  have "?is \<noteq> []" using some pr mergeLines_skus [of items] by (cases items) auto
  then obtain it rest where split: "?is = it # rest" by (cases ?is) auto
  have "0 \<le> sum_list (map ?f rest)"
    by (rule sum_list_bound(1) [where b = "34900 * 100"]) (use each split in \<open>auto intro: less_imp_le\<close>)
  then have gt: "0 < itemsTotal ?is" unfolding itemsTotal_eq using each [of it] split by simp
  then show "0 < amountMinor (poTotal p)" using p by simp
  have "isCurrencyCode catalogueCurrency" by (simp add: isCurrencyCode_def catalogueCurrency_def isUpper_def)
  moreover have "\<exists>n \<le> maxSafeInteger. rat_of_int (itemsTotal ?is) = of_nat n"
    using bounds by (intro exI [of _ "nat (itemsTotal ?is)"]) (simp add: maxSafeInteger_def nat_le_iff)
  ultimately show "moneyOk (poTotal p)" using p by (simp add: moneyOk_def)
qed


section \<open>From placing the order to the end of its saga\<close>

definition freshKeys :: "string \<Rightarrow> checkoutWorld \<Rightarrow> bool" where
  "freshKeys sagaId w \<longleftrightarrow>
     map_of (ivReservations (cwInventory w)) (sagaId @ '':reserve-stock'') = None
     \<and> map_of (gwIdsByReference (cwGateway w)) (sagaId @ '':charge-payment'') = None
     \<and> map_of (crShipments (cwCarrier w)) (sagaId @ '':create-shipment'') = None"

definition canServe :: "string \<Rightarrow> reservedLine list \<Rightarrow> checkoutWorld \<Rightarrow> bool" where
  "canServe sagaId ls w \<longleftrightarrow> inventoryOk (cwInventory w) \<and> gatewayOk (cwGateway w) \<and> freshKeys sagaId w
     \<and> ls \<noteq> [] \<and> (\<forall>l \<in> set ls. 0 < quantity l) \<and> (\<forall>s. quantityOf s ls \<le> stockOf (cwInventory w) s)"

lemma linesField_checkoutState [simp]: "linesField (checkoutState i u priced c) = asLines (poItems priced)"
  by (simp add: linesField_def checkoutState_def asLines_def)

lemma checkoutState_fields [simp]:
  "strField (checkoutState i u priced c) ''orderId'' = i"
  "strField (checkoutState i u priced c) ''shippingCountry'' = toUpperCase c"
  "amountOf (checkoutState i u priced c) = poTotal priced"
  by (simp_all add: strField_def checkoutState_def amountOf_def numField_def)

lemma toUpperCase_twice [simp]: "toUpperCase (toUpperCase s) = toUpperCase s"
proof -
  have "toUpperChar (toUpperChar c) = toUpperChar c" for c
    unfolding toUpperChar_def by (auto simp: isUpper_def)
  then show ?thesis by (simp add: toUpperCase_def)
qed


definition undisturbed :: "orchestratorConfig \<Rightarrow> (nat \<Rightarrow> tick \<times> rivalOp list) \<Rightarrow> bool" where
  "undisturbed cfg env \<longleftrightarrow> (\<forall>k. snd (env k) = [] \<and> tkElapsed (fst (env k)) < stepTimeoutMs cfg)"

text \<open>The order row as it is created, and the world the first step starts from.\<close>

definition pendingOrder :: "string \<Rightarrow> string \<Rightarrow> string \<Rightarrow> placeOrderInput \<Rightarrow> pricedOrder \<Rightarrow> checkoutWorld \<Rightarrow> orderRecord" where
  "pendingOrder orderId sagaId userId input priced w =
     \<lparr>orId = orderId, orUserId = userId, orItems = poItems priced, orTotal = poTotal priced,
      orShippingCountry = toUpperCase (piShippingCountry input), orStatus = PENDING, orFailureReason = None,
      orSagaId = sagaId, orCreatedAt = cwNow w, orUpdatedAt = cwNow w\<rparr>"

lemma checkout_begins:
  assumes price: "priceOrder (piLines input) = Inr priced" and store: "sqlInvar s" "sqlFind s sagaId = None"
    and serve: "canServe sagaId (piLines input) w" and calm: "undisturbed cfg env"
  obtains r0 w0 s' where
    "placeOrder sqlStore cfg env checkoutRegistry orderId sagaId owner now userId input s w
      = (let out = quietRun cfg (fst \<circ> env) checkoutDefinition owner (Suc (Suc (Suc 9))) r0 w0
         in (Inr (orElse (findOrder orderId (cwOrders (snd out)))
                   (pendingOrder orderId sagaId userId input priced w)), s', snd out))"
    and "sqlFind s' sagaId
      = Some (fst (quietRun cfg (fst \<circ> env) checkoutDefinition owner (Suc (Suc (Suc 9))) r0 w0))"
    and "instanceOk cfg checkoutDefinition r0" and "siStatus r0 = RUNNING" and "siCursor r0 = 0"
    and "siId r0 = sagaId" and "siState r0 = checkoutState orderId userId priced (piShippingCountry input)"
    and "checkoutReady r0 w0 (pendingOrder orderId sagaId userId input priced w) (poTotal priced)"
    and "cwInventory w0 = cwInventory w" "cwCarrier w0 = cwCarrier w" "cwNow w0 = cwNow w"
    and "map fst (cwEvents w0) = map fst (cwEvents w) @ [''order.placed'']"
proof -
  let ?st = "checkoutState orderId userId priced (piShippingCountry input)"
  define inst where "inst = \<lparr>niId = sagaId, niName = ''order.checkout'', niState = ?st,
    niCorrelationId = piCorrelationId input\<rparr>"
  define r0 where "r0 = leaseRow (leaseOf cfg owner now) (freshRow now inst)"
  define created where "created = pendingOrder orderId sagaId userId input priced w"
  define w0 where "w0 = w\<lparr>cwOrders := AList.update orderId created (cwOrders w),
    cwEvents := cwEvents w @ [(''order.placed'', [(''orderId'', JStr orderId), (''userId'', JStr userId),
      (''totalMinor'', JNum (amountMinor (poTotal priced))), (''currency'', JStr (currency (poTotal priced))),
      (''lineCount'', JNum (of_nat (length (poItems priced))))])]\<rparr>"
  have env: "env k = ((fst \<circ> env) k, [])" for k
    using calm by (simp add: undisturbed_def prod_eq_iff)
  have steps: "length (steps checkoutDefinition) * 2 + 2 = Suc (Suc (Suc 9))" by simp
  have name: "checkoutRegistry (niName inst) = Some checkoutDefinition" by (simp add: inst_def)
  have none: "sqlFind s (niId inst) = None" using store(2) by (simp add: inst_def)
  obtain s1 s2 where start: "startSaga sqlStore checkoutRegistry now inst s = Inr (Some (freshRow now inst, s1))"
    and run: "advance sqlStore cfg env checkoutRegistry owner now (niId inst) s1 w0
      = (Some (Released, fst (quietRun cfg (fst \<circ> env) checkoutDefinition owner (Suc (Suc (Suc 9))) r0 w0)), s2,
         snd (quietRun cfg (fst \<circ> env) checkoutDefinition owner (Suc (Suc (Suc 9))) r0 w0))"
    and found: "sqlFind s2 (niId inst)
      = Some (fst (quietRun cfg (fst \<circ> env) checkoutDefinition owner (Suc (Suc (Suc 9))) r0 w0))"
    unfolding r0_def
    by (rule sql_quiet_advance [where cfg = cfg and owner = owner and now = now and inst = inst and w = w0
          and ts = "fst \<circ> env" and env = env and reg = checkoutRegistry, OF store(1) none name checkout_wellDefined env, unfolded steps]) blast
  have ok: "instanceOk cfg checkoutDefinition r0"
    by (simp add: r0_def) (simp add: freshRow_def instanceOk_def forwardDone_def backwardDone_def less_max_iff_disj)
  have r0: "siId r0 = sagaId" "siStatus r0 = RUNNING" "siCursor r0 = 0" "siState r0 = ?st"
    by (simp_all add: r0_def leaseRow_def freshRow_def inst_def)
  note q = priced_quantities [OF price]
  have dist: "distinct (map sku (asLines (poItems priced)))" using q(2) by simp
  have line: "quantity l = quantityOf (sku l) (piLines input)" if "l \<in> set (asLines (poItems priced))" for l
    using quantityOf_distinct [OF dist that] q(1) by simp
  have nonneg: "\<forall>l \<in> set (asLines (poItems priced)). 0 \<le> quantity l"
    using serve line by (auto simp: canServe_def less_imp_le intro!: quantityOf_nonneg)
  have ready: "checkoutReady r0 w0 created (poTotal priced)"
    using serve r0 nonneg line priced_total_ok(1) [OF price]
    by (auto simp: checkoutReady_def canServe_def freshKeys_def w0_def created_def pendingOrder_def findOrder_def
        update_conv' shortLine_None_iff mergeLines_distinct [OF dist])
  have "placeOrder sqlStore cfg env checkoutRegistry orderId sagaId owner now userId input s w
      = (let out = quietRun cfg (fst \<circ> env) checkoutDefinition owner (Suc (Suc (Suc 9))) r0 w0
         in (Inr (orElse (findOrder orderId (cwOrders (snd out))) created), s2, snd out))"
    using price start run
    by (simp add: placeOrder_def Let_def createOrder_def w0_def created_def pendingOrder_def inst_def freshRow_def)
  then show thesis
    using found ok r0 ready by (intro that [of r0 w0 s2]) (simp_all add: created_def w0_def inst_def)
qed

lemma checkout_charged:
  assumes price: "priceOrder (piLines input) = Inr priced" and store: "sqlInvar s" "sqlFind s sagaId = None"
    and serve: "canServe sagaId (piLines input) w" and calm: "undisturbed cfg env"
  obtains r w3 s' p where
    "placeOrder sqlStore cfg env checkoutRegistry orderId sagaId owner now userId input s w
      = (Inr (orElse (findOrder orderId (cwOrders (snd (quietRun cfg (fst \<circ> env) checkoutDefinition owner 9 r w3))))
           (pendingOrder orderId sagaId userId input priced w)),
         s', snd (quietRun cfg (fst \<circ> env) checkoutDefinition owner 9 r w3))"
    and "sqlFind s' sagaId = Some (fst (quietRun cfg (fst \<circ> env) checkoutDefinition owner 9 r w3))"
    and "instanceOk cfg checkoutDefinition r" "siStatus r = RUNNING" "siCursor r = 3" "siId r = sagaId"
    and "siState r = (checkoutState orderId userId priced (piShippingCountry input))
      (''reservationId'' \<mapsto> JStr (sagaId @ '':reserve-stock''), ''paymentId'' \<mapsto> JStr (payId p))"
    and "findOrder orderId (cwOrders w3) = Some ((pendingOrder orderId sagaId userId input priced w)
      \<lparr>orStatus := PROCESSING, orFailureReason := None, orUpdatedAt := cwNow w\<rparr>)"
    and "\<forall>k. stockOf (cwInventory w3) k = stockOf (cwInventory w) k - quantityOf k (piLines input)"
    and "map_of (ivReservations (cwInventory w3)) (sagaId @ '':reserve-stock'')
      = Some \<lparr>srId = sagaId @ '':reserve-stock'', srOrderId = orderId, srLines = asLines (poItems priced), srHeld = True\<rparr>"
    and "gatewayOk (cwGateway w3)" "findPayment (payId p) (cwGateway w3) = Some p" "payStatus p = Succeeded"
      "payAmount p = poTotal priced" "payId p \<noteq> []"
    and "cwCarrier w3 = cwCarrier w" "map fst (cwEvents w3) = map fst (cwEvents w) @ [''order.placed'']"
proof -
  have quick: "tkElapsed ((fst \<circ> env) k) < stepTimeoutMs cfg" for k using calm by (simp add: undisturbed_def)
  let ?run = "quietRun cfg (fst \<circ> env) checkoutDefinition owner"
  define o0 where "o0 = pendingOrder orderId sagaId userId input priced w"
  obtain r0 w0 s' where placed: "placeOrder sqlStore cfg env checkoutRegistry orderId sagaId owner now userId input s w
      = (let out = ?run (Suc (Suc (Suc 9))) r0 w0 in (Inr (orElse (findOrder orderId (cwOrders (snd out))) o0), s', snd out))"
    and saved: "sqlFind s' sagaId = Some (fst (?run (Suc (Suc (Suc 9))) r0 w0))"
    and r0: "instanceOk cfg checkoutDefinition r0" "siStatus r0 = RUNNING" "siCursor r0 = 0" "siId r0 = sagaId"
      "siState r0 = checkoutState orderId userId priced (piShippingCountry input)"
      "checkoutReady r0 w0 o0 (poTotal priced)"
    and w0: "cwInventory w0 = cwInventory w" "cwCarrier w0 = cwCarrier w" "cwNow w0 = cwNow w"
      "map fst (cwEvents w0) = map fst (cwEvents w) @ [''order.placed'']"
    unfolding o0_def by (rule checkout_begins [OF price store serve calm])
  obtain r3 w3 p where t3: "turned cfg checkoutDefinition r0 r3 RUNNING 3 ((siState r0)
        (''reservationId'' \<mapsto> JStr (siId r0 @ '':reserve-stock''), ''paymentId'' \<mapsto> JStr (payId p)))"
    and q3: "?run (Suc (Suc (Suc 9))) r0 w0 = ?run 9 r3 w3" and paid: "paidFor r0 w0 o0 (poTotal priced) w3 p"
    by (rule checkout_to_pivot [OF r0(1-3) quick r0(6)])
  have dist: "distinct (map sku (asLines (poItems priced)))" using priced_quantities(2) [OF price] by simp
  show thesis
    by (rule that [of r3 w3 s' p])
      (use placed saved turnedD [OF t3] q3 paid r0 w0 priced_quantities(1) [OF price] in
        \<open>simp_all add: paidFor_def Let_def o0_def mergeLines_distinct [OF dist]\<close>)
qed

definition lampOrder :: "string \<Rightarrow> placeOrderInput" where
  "lampOrder country = \<lparr>piLines = [\<lparr>sku = ''SKU-LAMP-03'', quantity = 2\<rparr>], piShippingCountry = country,
     piCorrelationId = None\<rparr>"

definition lampPriced :: pricedOrder where
  "lampPriced = \<lparr>poItems = [\<lparr>sku = ''SKU-LAMP-03'', quantity = 2, unitPriceMinor = 4250\<rparr>],
     poTotal = \<lparr>amountMinor = 8500, currency = ''GBP''\<rparr>\<rparr>"

abbreviation calmEnv :: "nat \<Rightarrow> tick \<times> rivalOp list" where
  "calmEnv \<equiv> \<lambda>_. (sampleTick, [])"

lemma lamp_sample:
  "priceOrder (piLines (lampOrder c)) = Inr lampPriced" "sqlInvar []" "sqlFind [] i = None"
  "canServe i (piLines (lampOrder c)) sampleWorld" "undisturbed sampleConfig calmEnv"
  "piShippingCountry (lampOrder c) = c"
  by (simp_all add: lampOrder_def lampPriced_def priceOrder_def productCatalogue_def canonicaliseBasket_def
      mergeLines_def mergeLine_def maxQuantityPerSku_def itemsTotal_def catalogueCurrency_def sqlInvar_def
      sqlFind_def canServe_def freshKeys_def sampleWorld_def inventoryOk_def stockOf_def emptyGateway_ok
      undisturbed_def sampleTick_def sampleConfig_def emptyGateway_def [THEN arg_cong [where f = gwIdsByReference]])

text \<open>
  C5. A checkout that nothing disturbs confirms the order: for a basket that prices, stock that covers
  it and a country a carrier serves, placing the order ends with the order \<open>CONFIRMED\<close>, its saga
  \<open>COMPLETED\<close>, exactly the ordered quantities taken from stock, a captured payment over exactly the
  order's total, and the events \<open>order.placed\<close> and \<open>order.confirmed\<close> staged.
\<close>

theorem checkout_confirms:
  assumes price: "priceOrder (piLines input) = Inr priced" and store: "sqlInvar s" "sqlFind s sagaId = None"
    and serve: "canServe sagaId (piLines input) w" and calm: "undisturbed cfg env"
    and country: "toUpperCase (piShippingCountry input) \<in> set servicedCountries"
  shows "\<exists>o' s' w' saga p.
    placeOrder sqlStore cfg env checkoutRegistry orderId sagaId owner now userId input s w = (Inr o', s', w')
    \<and> findOrder orderId (cwOrders w') = Some o' \<and> orStatus o' = CONFIRMED \<and> orTotal o' = poTotal priced
    \<and> sqlFind s' sagaId = Some saga \<and> siStatus saga = COMPLETED
    \<and> siState saga ''paymentId'' = Some (JStr (payId p))
    \<and> findPayment (payId p) (cwGateway w') = Some p \<and> payStatus p = Succeeded \<and> payAmount p = poTotal priced
    \<and> (\<forall>k. stockOf (cwInventory w') k = stockOf (cwInventory w) k - quantityOf k (piLines input))
    \<and> map fst (cwEvents w') = map fst (cwEvents w) @ [''order.placed'', ''order.confirmed'']"
proof -
  have quick: "tkElapsed ((fst \<circ> env) k) < stepTimeoutMs cfg" for k using calm by (simp add: undisturbed_def)
  let ?run = "quietRun cfg (fst \<circ> env) checkoutDefinition owner"
  define o0 where "o0 = pendingOrder orderId sagaId userId input priced w"
  obtain r3 w3 s' p where placed: "placeOrder sqlStore cfg env checkoutRegistry orderId sagaId owner now userId input s w
      = (Inr (orElse (findOrder orderId (cwOrders (snd (?run 9 r3 w3)))) o0), s', snd (?run 9 r3 w3))"
    and saved: "sqlFind s' sagaId = Some (fst (?run 9 r3 w3))"
    and r3: "instanceOk cfg checkoutDefinition r3" "siStatus r3 = RUNNING" "siCursor r3 = 3" "siId r3 = sagaId"
      "siState r3 = (checkoutState orderId userId priced (piShippingCountry input))
      (''reservationId'' \<mapsto> JStr (sagaId @ '':reserve-stock''), ''paymentId'' \<mapsto> JStr (payId p))"
    and found: "findOrder orderId (cwOrders w3)
      = Some (o0\<lparr>orStatus := PROCESSING, orFailureReason := None, orUpdatedAt := cwNow w\<rparr>)"
    and stock: "\<forall>k. stockOf (cwInventory w3) k = stockOf (cwInventory w) k - quantityOf k (piLines input)"
    and hold: "map_of (ivReservations (cwInventory w3)) (sagaId @ '':reserve-stock'')
      = Some \<lparr>srId = sagaId @ '':reserve-stock'', srOrderId = orderId, srLines = asLines (poItems priced), srHeld = True\<rparr>"
    and p: "gatewayOk (cwGateway w3)" "findPayment (payId p) (cwGateway w3) = Some p" "payStatus p = Succeeded"
      "payAmount p = poTotal priced" "payId p \<noteq> []"
    and w3: "cwCarrier w3 = cwCarrier w" "map fst (cwEvents w3) = map fst (cwEvents w) @ [''order.placed'']"
    unfolding o0_def by (rule checkout_charged [OF price store serve calm, where orderId = orderId and owner = owner
          and now = now and userId = userId])
  have fresh: "map_of (crShipments (cwCarrier w3)) (sagaId @ '':create-shipment'') = None"
    using serve w3(1) by (simp add: canServe_def freshKeys_def)
  obtain cr where ex4: "shipExecute (contextOf r3 createShipmentStep None) w3
      = (Inr (Some [(''shipmentId'', Some (JStr (sagaId @ '':create-shipment'')))]), w3\<lparr>cwCarrier := cr\<rparr>)"
    by (rule ship_turn [of "contextOf r3 createShipmentStep None" w3]) (use country fresh r3 in simp_all)
  obtain r4 where t4: "turned cfg checkoutDefinition r3 r4 RUNNING 4
        ((siState r3)(''shipmentId'' \<mapsto> JStr (sagaId @ '':create-shipment'')))"
    and q4: "?run 9 r3 w3 = ?run 8 r4 (w3\<lparr>cwCarrier := cr\<rparr>)"
    by (rule quiet_forward [where ts = "fst \<circ> env", OF checkout_wellDefined r3(1,2) _ quick, where k = 3 and w = w3
          and patch = "Some [(''shipmentId'', Some (JStr (sagaId @ '':create-shipment'')))]"
          and w' = "w3\<lparr>cwCarrier := cr\<rparr>" and left = 8 and owner = owner])
      (use r3 ex4 in simp_all)
  note r4 = turnedD [OF t4]
  obtain w5 where ex5: "confirmExecute (contextOf r4 confirmOrderStep None) (w3\<lparr>cwCarrier := cr\<rparr>) = (Inr None, w5)"
    and w5: "findOrder orderId (cwOrders w5) = Some (o0\<lparr>orStatus := CONFIRMED, orFailureReason := None,
        orUpdatedAt := cwNow w3\<rparr>)" "cwInventory w5 = cwInventory w3" "cwGateway w5 = cwGateway w3"
      "map fst (cwEvents w5) = map fst (cwEvents w3) @ [''order.confirmed'']"
    by (rule confirm_turn [of "contextOf r4 confirmOrderStep None" "w3\<lparr>cwCarrier := cr\<rparr>"
          "o0\<lparr>orStatus := PROCESSING, orFailureReason := None, orUpdatedAt := cwNow w\<rparr>" "payId p"
          "sagaId @ '':create-shipment''"]) (use found p(5) r3 r4 in simp_all)
  obtain r5 where t5: "turned cfg checkoutDefinition r4 r5 COMPLETED 5 (siState r4)"
    and q5: "?run 8 r4 (w3\<lparr>cwCarrier := cr\<rparr>) = (r5, w5)"
    by (rule quiet_forward [where ts = "fst \<circ> env", OF checkout_wellDefined r4(1,5) _ quick, where k = 4
          and w = "w3\<lparr>cwCarrier := cr\<rparr>" and patch = None and w' = w5 and left = 7 and owner = owner])
      (use r4 ex5 in simp_all)
  have "orTotal o0 = poTotal priced" by (simp add: o0_def pendingOrder_def)
  then show ?thesis
    using placed saved q4 q5 w5 turnedD [OF t5] r4 r3 p stock w3(2)
    by (intro exI [of _ "o0\<lparr>orStatus := CONFIRMED, orFailureReason := None, orUpdatedAt := cwNow w3\<rparr>"]
        exI [of _ s'] exI [of _ w5] exI [of _ r5] exI [of _ p])
      (simp add: orElse_def)
qed

theorem checkout_confirms_witness:
  "\<exists>o' s' w'. placeOrder sqlStore sampleConfig calmEnv checkoutRegistry ''o1'' ''s1'' ''w'' 5 ''u1''
     (lampOrder ''gb'') [] sampleWorld = (Inr o', s', w') \<and> orStatus o' = CONFIRMED"
proof -
  have "toUpperCase ''gb'' \<in> set servicedCountries"
    by code_simp
  then show ?thesis
    using checkout_confirms [where input = "lampOrder ''gb''" and sagaId = "''s1''" and orderId = "''o1''" and owner = "''w''" and now = 5
        and userId = "''u1''", OF lamp_sample(1-5)]
    by (auto simp: lamp_sample(6))
qed

lemma checkout_unwinds:
  assumes r: "instanceOk cfg checkoutDefinition r" "siStatus r = COMPENSATING" "siCursor r = 2"
    and quick: "\<And>k. tkElapsed (ts k) < stepTimeoutMs cfg"
    and order: "findOrder (strField (siState r) ''orderId'') (cwOrders w) = Some o'" "orStatus o' \<noteq> CANCELLED"
    and hold: "map_of (ivReservations (cwInventory w)) (siId r @ '':reserve-stock'') = Some held" "srHeld held"
    and p: "gatewayOk (cwGateway w)" "findPayment i (cwGateway w) = Some p" "payStatus p = Succeeded"
      "0 < amountMinor (payAmount p)" "idField (siState r) ''paymentId'' = Some i"
  obtains r' w' p' where "quietRun cfg ts checkoutDefinition owner (Suc (Suc (Suc left))) r w = (r', w')"
    and "siStatus r' = COMPENSATED"
    and "findOrder (strField (siState r) ''orderId'') (cwOrders w') = Some (o'\<lparr>orStatus := CANCELLED,
        orFailureReason := Some (failureMessage (failureFrom checkoutDefinition r)), orUpdatedAt := cwNow w\<rparr>)"
    and "\<forall>k. stockOf (cwInventory w') k = stockOf (cwInventory w) k + quantityOf k (srLines held)"
    and "findPayment i (cwGateway w') = Some p'" "payStatus p' = Refunded" "payRefunded p' = payAmount p"
      "payAmount p' = payAmount p" "payId p' = i"
    and "map fst (cwEvents w') = map fst (cwEvents w) @ [''order.cancelled'']"
proof -
  note wd = checkout_wellDefined
  let ?run = "quietRun cfg ts checkoutDefinition owner" and ?f = "failureFrom checkoutDefinition"
  obtain g p' where ex2: "chargeCompensate (contextOf r chargePaymentStep (Some (?f r))) w = (Inr (), w\<lparr>cwGateway := g\<rparr>)"
    and g: "findPayment i g = Some p'" "payStatus p' = Refunded" "payRefunded p' = payAmount p" "payAmount p' = payAmount p"
      "payId p' = i"
    by (rule charge_undone [OF p(1-4), where ctx = "contextOf r chargePaymentStep (Some (?f r))"]) (use p(5) in simp_all)
  obtain r1 where t1: "turned cfg checkoutDefinition r r1 COMPENSATING 1 (siState r)"
    and f1: "failureMessage (?f r1) = failureMessage (?f r)"
    and q1: "?run (Suc (Suc (Suc left))) r w = ?run (Suc (Suc left)) r1 (w\<lparr>cwGateway := g\<rparr>)"
    by (rule quiet_backward [where ts = ts, OF wd r(1,2) _ quick, where k = 2 and w = w
          and w' = "w\<lparr>cwGateway := g\<rparr>" and left = "Suc (Suc left)" and owner = owner]) (use r ex2 in simp_all)
  note r1 = turnedD [OF t1]
  obtain iv where ex1: "reserveCompensate (contextOf r1 reserveStockStep (Some (?f r1))) (w\<lparr>cwGateway := g\<rparr>)
      = (Inr (), w\<lparr>cwGateway := g, cwInventory := iv\<rparr>)"
    and iv: "\<forall>k. stockOf iv k = stockOf (cwInventory w) k + quantityOf k (srLines held)"
    by (rule reserve_undone [of "w\<lparr>cwGateway := g\<rparr>" "contextOf r1 reserveStockStep (Some (?f r1))" held])
      (use hold r1 in simp_all)
  obtain r2 where t2: "turned cfg checkoutDefinition r1 r2 COMPENSATING 0 (siState r1)"
    and f2: "failureMessage (?f r2) = failureMessage (?f r1)"
    and q2: "?run (Suc (Suc left)) r1 (w\<lparr>cwGateway := g\<rparr>) = ?run (Suc left) r2 (w\<lparr>cwGateway := g, cwInventory := iv\<rparr>)"
    by (rule quiet_backward [where ts = ts, OF wd r1(1,5) _ quick, where k = 1 and w = "w\<lparr>cwGateway := g\<rparr>"
          and w' = "w\<lparr>cwGateway := g, cwInventory := iv\<rparr>" and left = "Suc left" and owner = owner])
      (use r1 ex1 in simp_all)
  note r2 = turnedD [OF t2]
  obtain w3 where ex0: "acceptCompensate (contextOf r2 acceptOrderStep (Some (?f r2)))
      (w\<lparr>cwGateway := g, cwInventory := iv\<rparr>) = (Inr (), w3)"
    and w3: "findOrder (strField (siState r) ''orderId'') (cwOrders w3) = Some (o'\<lparr>orStatus := CANCELLED,
        orFailureReason := Some (failureMessage (?f r)), orUpdatedAt := cwNow w\<rparr>)"
      "cwInventory w3 = iv" "cwGateway w3 = g" "map fst (cwEvents w3) = map fst (cwEvents w) @ [''order.cancelled'']"
    by (rule accept_undone [of "contextOf r2 acceptOrderStep (Some (?f r2))"
          "w\<lparr>cwGateway := g, cwInventory := iv\<rparr>" o' "?f r2"])
      (use order r1 r2 f1 f2 in simp_all)
  obtain r3 where t3: "turned cfg checkoutDefinition r2 r3 COMPENSATED (-1) (siState r2)"
    and q3: "?run (Suc left) r2 (w\<lparr>cwGateway := g, cwInventory := iv\<rparr>) = (r3, w3)"
    by (rule quiet_backward [where ts = ts, OF wd r2(1,5) _ quick, where k = 0
          and w = "w\<lparr>cwGateway := g, cwInventory := iv\<rparr>" and w' = w3 and left = left and owner = owner])
      (use r2 ex0 in simp_all)
  show thesis
    by (rule that [of r3 w3 p']) (use q1 q2 q3 turnedD [OF t3] w3 g iv in simp_all)
qed

text \<open>
  C6. A checkout whose destination no carrier serves takes everything back: the order ends
  \<open>CANCELLED\<close> with the carrier's refusal as its reason, the saga \<open>COMPENSATED\<close>, the payment refunded
  in full, the stock of every product what it was, and \<open>order.placed\<close> and \<open>order.cancelled\<close> staged.
\<close>

theorem checkout_refused:
  assumes price: "priceOrder (piLines input) = Inr priced" and store: "sqlInvar s" "sqlFind s sagaId = None"
    and serve: "canServe sagaId (piLines input) w" and calm: "undisturbed cfg env"
    and country: "toUpperCase (piShippingCountry input) \<notin> set servicedCountries"
  shows "\<exists>o' s' w' saga p.
    placeOrder sqlStore cfg env checkoutRegistry orderId sagaId owner now userId input s w = (Inr o', s', w')
    \<and> findOrder orderId (cwOrders w') = Some o' \<and> orStatus o' = CANCELLED
    \<and> orFailureReason o' = Some (truncateError (''No carrier serves \"'' @ toUpperCase (piShippingCountry input) @ ''\"''))
    \<and> sqlFind s' sagaId = Some saga \<and> siStatus saga = COMPENSATED
    \<and> findPayment (payId p) (cwGateway w') = Some p \<and> payStatus p = Refunded
    \<and> payAmount p = poTotal priced \<and> payRefunded p = poTotal priced
    \<and> (\<forall>k. stockOf (cwInventory w') k = stockOf (cwInventory w) k)
    \<and> map fst (cwEvents w') = map fst (cwEvents w) @ [''order.placed'', ''order.cancelled'']"
proof -
  have quick: "tkElapsed ((fst \<circ> env) k) < stepTimeoutMs cfg" for k using calm by (simp add: undisturbed_def)
  let ?run = "quietRun cfg (fst \<circ> env) checkoutDefinition owner"
  define o0 where "o0 = pendingOrder orderId sagaId userId input priced w"
  obtain r3 w3 s' p where placed: "placeOrder sqlStore cfg env checkoutRegistry orderId sagaId owner now userId input s w
      = (Inr (orElse (findOrder orderId (cwOrders (snd (?run 9 r3 w3)))) o0), s', snd (?run 9 r3 w3))"
    and saved: "sqlFind s' sagaId = Some (fst (?run 9 r3 w3))"
    and r3: "instanceOk cfg checkoutDefinition r3" "siStatus r3 = RUNNING" "siCursor r3 = 3" "siId r3 = sagaId"
      "siState r3 = (checkoutState orderId userId priced (piShippingCountry input))
      (''reservationId'' \<mapsto> JStr (sagaId @ '':reserve-stock''), ''paymentId'' \<mapsto> JStr (payId p))"
    and found: "findOrder orderId (cwOrders w3)
      = Some (o0\<lparr>orStatus := PROCESSING, orFailureReason := None, orUpdatedAt := cwNow w\<rparr>)"
    and stock: "\<forall>k. stockOf (cwInventory w3) k = stockOf (cwInventory w) k - quantityOf k (piLines input)"
    and hold: "map_of (ivReservations (cwInventory w3)) (sagaId @ '':reserve-stock'')
      = Some \<lparr>srId = sagaId @ '':reserve-stock'', srOrderId = orderId, srLines = asLines (poItems priced), srHeld = True\<rparr>"
    and p: "gatewayOk (cwGateway w3)" "findPayment (payId p) (cwGateway w3) = Some p" "payStatus p = Succeeded"
      "payAmount p = poTotal priced" "payId p \<noteq> []"
    and w3: "cwCarrier w3 = cwCarrier w" "map fst (cwEvents w3) = map fst (cwEvents w) @ [''order.placed'']"
    unfolding o0_def by (rule checkout_charged [OF price store serve calm, where orderId = orderId and owner = owner
          and now = now and userId = userId])
  let ?m = "''No carrier serves \"'' @ toUpperCase (piShippingCountry input) @ ''\"''"
  note wd = checkout_wellDefined
  have "map_of (crShipments (cwCarrier w3)) (sagaId @ '':create-shipment'') = None"
    using serve w3(1) by (simp add: canServe_def freshKeys_def)
  then have ex4: "shipExecute (contextOf r3 createShipmentStep None) w3 = (Inl (UnretryableStepError ?m), w3)"
    using country r3 by (simp add: shipExecute_def createShipment_def Let_def)
  obtain r4 where t4: "turned cfg checkoutDefinition r3 r4 COMPENSATING 3 (siState r3)"
    and f4: "failureMessage (failureFrom checkoutDefinition r4) = truncateError ?m"
    and q4: "?run 9 r3 w3 = ?run 8 r4 w3"
    by (rule quiet_refused [where ts = "fst \<circ> env", OF wd r3(1,2) _ quick, where k = 3 and w = w3
          and m = ?m and w' = w3 and left = 8 and owner = owner])
      (use r3 ex4 in simp_all)
  note r4 = turnedD [OF t4]
  obtain r5 where t5: "turned cfg checkoutDefinition r4 r5 COMPENSATING 2 (siState r4)"
    and f5: "failureMessage (failureFrom checkoutDefinition r5) = truncateError ?m"
    and q5: "?run 8 r4 w3 = ?run 7 r5 w3"
    by (rule quiet_backward [where ts = "fst \<circ> env", OF wd r4(1,5) _ quick, where k = 3 and w = w3
          and w' = w3 and left = 7 and owner = owner])
      (use r4 f4 in simp_all)
  note r5 = turnedD [OF t5]
  have pos: "0 < amountMinor (payAmount p)"
    using priced_total_ok(2) [OF price] serve p(4) by (simp add: canServe_def)
  obtain r8 w8 p' where end_run: "?run 7 r5 w3 = (r8, w8)" and r8: "siStatus r8 = COMPENSATED"
    and o8: "findOrder orderId (cwOrders w8) = Some (o0\<lparr>orStatus := CANCELLED,
        orFailureReason := Some (truncateError ?m), orUpdatedAt := cwNow w3\<rparr>)"
    and stock8: "\<forall>k. stockOf (cwInventory w8) k = stockOf (cwInventory w) k"
    and p': "findPayment (payId p) (cwGateway w8) = Some p'" "payStatus p' = Refunded"
      "payRefunded p' = poTotal priced" "payAmount p' = poTotal priced" "payId p' = payId p"
    and e8: "map fst (cwEvents w8) = map fst (cwEvents w) @ [''order.placed'', ''order.cancelled'']"
    by (rule checkout_unwinds [where ts = "fst \<circ> env" and left = 4 and owner = owner
          and held = "\<lparr>srId = sagaId @ '':reserve-stock'', srOrderId = orderId, srLines = asLines (poItems priced),
            srHeld = True\<rparr>"
          and o' = "o0\<lparr>orStatus := PROCESSING, orFailureReason := None, orUpdatedAt := cwNow w\<rparr>",
          OF r5(1,5) _ quick _ _ _ _ p(1,2,3) pos])
      (use found hold p(4,5) r3 r4 r5 f5 stock w3(2) priced_quantities(1) [OF price] in simp_all)
  show ?thesis
    using placed saved q4 q5 end_run r8 o8 stock8 p' e8
    by (intro exI [of _ "o0\<lparr>orStatus := CANCELLED, orFailureReason := Some (truncateError ?m), orUpdatedAt := cwNow w3\<rparr>"]
        exI [of _ s'] exI [of _ w8] exI [of _ r8] exI [of _ p'])
      (simp add: orElse_def)
qed

theorem checkout_refused_witness:
  "\<exists>o' s' w'. placeOrder sqlStore sampleConfig calmEnv checkoutRegistry ''o1'' ''s1'' ''w'' 5 ''u1''
     (lampOrder ''mx'') [] sampleWorld = (Inr o', s', w') \<and> orStatus o' = CANCELLED"
proof -
  have "toUpperCase ''mx'' \<notin> set servicedCountries"
    by code_simp
  then show ?thesis
    using checkout_refused [where input = "lampOrder ''mx''" and sagaId = "''s1''" and orderId = "''o1''" and owner = "''w''" and now = 5
        and userId = "''u1''", OF lamp_sample(1-5)]
    by (auto simp: lamp_sample(6))
qed

end
