(* ===== verification/Redlock.thy ===== *)
theory Redlock
  imports Prelude
begin

text \<open>
  The distributed lock of \<open>src/common/locking/redlock.service.ts\<close>: the four Lua scripts on one Redis
  node, the decisions \<open>attempt\<close>, \<open>extendEverywhere\<close> and \<open>RedlockHandle\<close> take from the nodes' answers,
  and a system in which any number of attempts run against the same nodes, with commands executed
  late, answers lost and time passing between any two of them. The two guarantees are that no two
  handles for one key are valid at once, and that an acquisition that starts after another was
  granted draws a larger fencing token.
\<close>

section \<open>One Redis node\<close>

record redisNode =
  rnKeys :: "string \<rightharpoonup> string \<times> rat"
  rnFence :: nat

text \<open>A key whose expiry has been reached is gone.\<close>

definition liveValue :: "rat \<Rightarrow> string \<Rightarrow> redisNode \<Rightarrow> string option" where
  "liveValue now k node =
     (case rnKeys node k of Some (v, expiresAt) \<Rightarrow> if now < expiresAt then Some v else None | None \<Rightarrow> None)"

definition redlockAcquire :: "string \<Rightarrow> string \<Rightarrow> nat \<Rightarrow> rat \<Rightarrow> redisNode \<Rightarrow> int \<times> redisNode" where
  "redlockAcquire lockKey v ttlMs now node =
     (case liveValue now lockKey node of
        Some _ \<Rightarrow> (- 1, node)
      | None \<Rightarrow> (int (Suc (rnFence node)),
          node\<lparr>rnKeys := (rnKeys node)(lockKey \<mapsto> (v, now + of_nat ttlMs)), rnFence := Suc (rnFence node)\<rparr>))"

definition redlockBumpFence :: "nat \<Rightarrow> redisNode \<Rightarrow> int \<times> redisNode" where
  "redlockBumpFence token node = (1, if rnFence node < token then node\<lparr>rnFence := token\<rparr> else node)"

definition redlockRelease :: "string \<Rightarrow> string \<Rightarrow> rat \<Rightarrow> redisNode \<Rightarrow> int \<times> redisNode" where
  "redlockRelease lockKey v now node =
     (if liveValue now lockKey node = Some v then (1, node\<lparr>rnKeys := (rnKeys node)(lockKey := None)\<rparr>)
      else (0, node))"

definition redlockExtend :: "string \<Rightarrow> string \<Rightarrow> nat \<Rightarrow> rat \<Rightarrow> redisNode \<Rightarrow> int \<times> redisNode" where
  "redlockExtend lockKey v ttlMs now node =
     (if liveValue now lockKey node = Some v
      then (1, node\<lparr>rnKeys := (rnKeys node)(lockKey \<mapsto> (v, now + of_nat ttlMs))\<rparr>)
      else (0, node))"

datatype lockCommand = CmdAcquire string string nat | CmdBump nat | CmdRelease string string
  | CmdExtend string string nat

fun runCommand :: "lockCommand \<Rightarrow> rat \<Rightarrow> redisNode \<Rightarrow> int \<times> redisNode" where
  "runCommand (CmdAcquire k v ttl) now node = redlockAcquire k v ttl now node"
| "runCommand (CmdBump token) now node = redlockBumpFence token node"
| "runCommand (CmdRelease k v) now node = redlockRelease k v now node"
| "runCommand (CmdExtend k v ttl) now node = redlockExtend k v ttl now node"

section \<open>What the service decides\<close>

record redlockOptions =
  driftFactor :: rat
  driftConstantMs :: int
  keyPrefix :: string

definition quorum :: "nat \<Rightarrow> nat" where
  "quorum nodes = nodes div 2 + 1"

definition roundHalfUp :: "rat \<Rightarrow> int" where
  "roundHalfUp x = \<lfloor>x + 1 / 2\<rfloor>"

definition driftOf :: "redlockOptions \<Rightarrow> nat \<Rightarrow> rat" where
  "driftOf opts ttlMs = of_int (roundHalfUp (of_nat ttlMs * driftFactor opts) + driftConstantMs opts)"

definition validityFrom :: "redlockOptions \<Rightarrow> nat \<Rightarrow> rat \<Rightarrow> rat \<Rightarrow> rat" where
  "validityFrom opts ttlMs start now = of_nat ttlMs - (now - start) - driftOf opts ttlMs"

text \<open>The result of one command on one node: the number it answered, or \<open>None\<close> for an error or a timeout.\<close>

type_synonym nodeResults = "nat \<rightharpoonup> int option"

definition claimedNodes :: "nat \<Rightarrow> nodeResults \<Rightarrow> nat list" where
  "claimedNodes nodes rs = filter (\<lambda>n. case rs n of Some (Some v) \<Rightarrow> 0 < v | _ \<Rightarrow> False) [0..<nodes]"

definition confirmedNodes :: "nat \<Rightarrow> nodeResults \<Rightarrow> nat list" where
  "confirmedNodes nodes rs = filter (\<lambda>n. rs n = Some (Some 1)) [0..<nodes]"

definition answerOf :: "nodeResults \<Rightarrow> nat \<Rightarrow> int" where
  "answerOf rs n = (case rs n of Some (Some v) \<Rightarrow> v | _ \<Rightarrow> 0)"

definition drawnToken :: "nat \<Rightarrow> nodeResults \<Rightarrow> int" where
  "drawnToken nodes rs = foldl max 0 (map (answerOf rs) (claimedNodes nodes rs))"

definition lockMaxSafe :: int where
  "lockMaxSafe = 9007199254740991"

datatype lockPhase = Claiming | Publishing nat | Held nat rat | Extending nat rat | Over

text \<open>
  Each decision is made once every node has answered or timed out. \<open>now\<close> is the reading
  \<open>validityFrom\<close> takes, \<open>now'\<close> the later reading the handle's expiry starts from.
\<close>

definition judgeVotes :: "redlockOptions \<Rightarrow> nat \<Rightarrow> nat \<Rightarrow> rat \<Rightarrow> rat \<Rightarrow> nodeResults \<Rightarrow> lockPhase" where
  "judgeVotes opts nodes ttlMs start now votes =
     (if length (claimedNodes nodes votes) < quorum nodes \<or> validityFrom opts ttlMs start now \<le> 0 then Over
      else if lockMaxSafe < drawnToken nodes votes then Over
      else Publishing (nat (drawnToken nodes votes)))"

definition judgeBumps :: "redlockOptions \<Rightarrow> nat \<Rightarrow> nat \<Rightarrow> rat \<Rightarrow> rat \<Rightarrow> rat \<Rightarrow> nat \<Rightarrow> nodeResults \<Rightarrow> lockPhase" where
  "judgeBumps opts nodes ttlMs start now now' token bumps =
     (let validity = validityFrom opts ttlMs start now in
      if length (confirmedNodes nodes bumps) < quorum nodes \<or> validity \<le> 0 then Over
      else Held token (now' + validity))"

definition judgeExtension :: "redlockOptions \<Rightarrow> nat \<Rightarrow> nat \<Rightarrow> rat \<Rightarrow> rat \<Rightarrow> rat \<Rightarrow> nat \<Rightarrow> nodeResults \<Rightarrow> lockPhase" where
  "judgeExtension opts nodes ttlMs start now now' token results =
     (let validity = validityFrom opts ttlMs start now in
      if length (confirmedNodes nodes results) < quorum nodes \<or> validity \<le> 0 then Over
      else Held token (now' + validity))"

section \<open>Attempts against the nodes\<close>

record lockAttempt =
  laKey :: string
  laValue :: string
  laTtl :: nat
  laStart :: rat
  laPhase :: lockPhase
  laCall :: nat
  laResults :: nodeResults

record lockSystem =
  lsNow :: rat
  lsNodes :: "redisNode list"
  lsAttempts :: "nat \<rightharpoonup> lockAttempt"
  lsSent :: "(nat \<times> nat \<times> nat \<times> lockCommand) set"
  lsGranted :: "nat list"

text \<open>\<open>onEveryNode\<close>: one command is sent to every node, and no node has answered it yet.\<close>

definition onEveryNode :: "nat \<Rightarrow> lockCommand \<Rightarrow> lockAttempt \<Rightarrow> lockSystem \<Rightarrow> lockSystem" where
  "onEveryNode i cmd a \<sigma> =
     \<sigma>\<lparr>lsAttempts := (lsAttempts \<sigma>)(i \<mapsto> a\<lparr>laCall := Suc (laCall a), laResults := Map.empty\<rparr>),
       lsSent := lsSent \<sigma> \<union> {(i, Suc (laCall a), n, cmd) | n. n < length (lsNodes \<sigma>)}\<rparr>"

definition lockKeyOf :: "redlockOptions \<Rightarrow> string \<Rightarrow> string" where
  "lockKeyOf opts k = keyPrefix opts @ k"

definition beginAttempt :: "redlockOptions \<Rightarrow> nat \<Rightarrow> string \<Rightarrow> string \<Rightarrow> nat \<Rightarrow> lockSystem \<Rightarrow> lockSystem" where
  "beginAttempt opts i k v ttlMs \<sigma> =
     onEveryNode i (CmdAcquire (lockKeyOf opts k) v ttlMs)
       \<lparr>laKey = lockKeyOf opts k, laValue = v, laTtl = ttlMs, laStart = lsNow \<sigma>, laPhase = Claiming,
        laCall = 0, laResults = Map.empty\<rparr> \<sigma>"

definition beginExtension :: "nat \<Rightarrow> nat \<Rightarrow> rat \<Rightarrow> lockAttempt \<Rightarrow> lockSystem \<Rightarrow> lockSystem" where
  "beginExtension i token expiry a \<sigma> =
     onEveryNode i (CmdExtend (laKey a) (laValue a) (laTtl a))
       (a\<lparr>laPhase := Extending token expiry, laStart := lsNow \<sigma>\<rparr>) \<sigma>"

definition releaseEverywhere :: "nat \<Rightarrow> lockAttempt \<Rightarrow> lockSystem \<Rightarrow> lockSystem" where
  "releaseEverywhere i a \<sigma> = onEveryNode i (CmdRelease (laKey a) (laValue a)) (a\<lparr>laPhase := Over\<rparr>) \<sigma>"

definition allSettled :: "nat \<Rightarrow> nodeResults \<Rightarrow> bool" where
  "allSettled nodes rs \<longleftrightarrow> (\<forall>n \<in> set [0..<nodes]. rs n \<noteq> None)"

definition afterVerdict :: "nat \<Rightarrow> lockAttempt \<Rightarrow> lockPhase \<Rightarrow> lockSystem \<Rightarrow> lockSystem" where
  "afterVerdict i a verdict \<sigma> =
     (case verdict of
        Publishing token \<Rightarrow> onEveryNode i (CmdBump token) (a\<lparr>laPhase := Publishing token\<rparr>) \<sigma>
      | Held token e \<Rightarrow> \<sigma>\<lparr>lsAttempts := (lsAttempts \<sigma>)(i \<mapsto> a\<lparr>laPhase := Held token e\<rparr>)\<rparr>
      | _ \<Rightarrow> releaseEverywhere i a \<sigma>)"

definition judge :: "redlockOptions \<Rightarrow> rat \<Rightarrow> nat \<Rightarrow> lockAttempt \<Rightarrow> lockSystem \<Rightarrow> lockSystem" where
  "judge opts now' i a \<sigma> =
     (let nodes = length (lsNodes \<sigma>); \<sigma>' = \<sigma>\<lparr>lsNow := now'\<rparr> in
      case laPhase a of
        Claiming \<Rightarrow> afterVerdict i a (judgeVotes opts nodes (laTtl a) (laStart a) (lsNow \<sigma>) (laResults a)) \<sigma>'
      | Publishing token \<Rightarrow>
          (let verdict = judgeBumps opts nodes (laTtl a) (laStart a) (lsNow \<sigma>) now' token (laResults a);
               \<sigma>'' = afterVerdict i a verdict \<sigma>'
           in if verdict = Over then \<sigma>'' else \<sigma>''\<lparr>lsGranted := token # lsGranted \<sigma>\<rparr>)
      | Extending token e \<Rightarrow>
          afterVerdict i a (judgeExtension opts nodes (laTtl a) (laStart a) (lsNow \<sigma>) now' token (laResults a)) \<sigma>'
      | _ \<Rightarrow> \<sigma>')"

definition recordAnswer :: "nat \<Rightarrow> nat \<Rightarrow> int option \<Rightarrow> lockAttempt \<Rightarrow> lockSystem \<Rightarrow> lockSystem" where
  "recordAnswer i n answer a \<sigma> =
     \<sigma>\<lparr>lsAttempts := (lsAttempts \<sigma>)(i \<mapsto> a\<lparr>laResults := (laResults a)(n \<mapsto> answer)\<rparr>)\<rparr>"

definition execute_on :: "nat \<Rightarrow> nat \<Rightarrow> nat \<Rightarrow> lockCommand \<Rightarrow> lockSystem \<Rightarrow> int \<times> lockSystem" where
  "execute_on i c n cmd \<sigma> =
     (let (v, node') = runCommand cmd (lsNow \<sigma>) (lsNodes \<sigma> ! n)
      in (v, \<sigma>\<lparr>lsNodes := (lsNodes \<sigma>)[n := node'], lsSent := lsSent \<sigma> - {(i, c, n, cmd)}\<rparr>))"

inductive lockStep :: "redlockOptions \<Rightarrow> lockSystem \<Rightarrow> lockSystem \<Rightarrow> bool" for opts where
  tick: "0 \<le> d \<Longrightarrow> lockStep opts \<sigma> (\<sigma>\<lparr>lsNow := lsNow \<sigma> + d\<rparr>)"
| attempt: "lsAttempts \<sigma> i = None \<Longrightarrow> (\<forall>j b. lsAttempts \<sigma> j = Some b \<longrightarrow> laValue b \<noteq> v) \<Longrightarrow> 0 < ttlMs \<Longrightarrow>
    lockStep opts \<sigma> (beginAttempt opts i k v ttlMs \<sigma>)"
| answered: "(i, c, n, cmd) \<in> lsSent \<sigma> \<Longrightarrow> execute_on i c n cmd \<sigma> = (v, \<sigma>') \<Longrightarrow>
    lsAttempts \<sigma> i = Some a \<Longrightarrow> laCall a = c \<Longrightarrow> laResults a n = None \<Longrightarrow>
    lockStep opts \<sigma> (recordAnswer i n (Some v) a \<sigma>')"
| answer_lost: "(i, c, n, cmd) \<in> lsSent \<sigma> \<Longrightarrow> execute_on i c n cmd \<sigma> = (v, \<sigma>') \<Longrightarrow> lockStep opts \<sigma> \<sigma>'"
| command_lost: "lockStep opts \<sigma> (\<sigma>\<lparr>lsSent := lsSent \<sigma> - {m}\<rparr>)"
| timed_out: "lsAttempts \<sigma> i = Some a \<Longrightarrow> laResults a n = None \<Longrightarrow> lockStep opts \<sigma> (recordAnswer i n None a \<sigma>)"
| decided: "lsAttempts \<sigma> i = Some a \<Longrightarrow> allSettled (length (lsNodes \<sigma>)) (laResults a) \<Longrightarrow>
    laPhase a \<in> {Claiming} \<union> range Publishing \<union> {Extending t e | t e. True} \<Longrightarrow>
    lsNow \<sigma> \<le> now' \<Longrightarrow> now' - lsNow \<sigma> \<le> driftOf opts (laTtl a) \<Longrightarrow>
    lockStep opts \<sigma> (judge opts now' i a \<sigma>)"
| extend: "lsAttempts \<sigma> i = Some a \<Longrightarrow> laPhase a = Held token e \<Longrightarrow>
    lockStep opts \<sigma> (beginExtension i token e a \<sigma>)"
| release: "lsAttempts \<sigma> i = Some a \<Longrightarrow> laPhase a = Held token e \<Longrightarrow>
    lockStep opts \<sigma> (releaseEverywhere i a \<sigma>)"


section \<open>The invariant\<close>

definition supports :: "lockSystem \<Rightarrow> lockAttempt \<Rightarrow> rat \<Rightarrow> nat \<Rightarrow> bool" where
  "supports \<sigma> a e n \<longleftrightarrow> n < length (lsNodes \<sigma>) \<and>
     (\<exists>x. rnKeys (lsNodes \<sigma> ! n) (laKey a) = Some (laValue a, x) \<and> e \<le> x)"

definition backed :: "lockSystem \<Rightarrow> lockAttempt \<Rightarrow> rat \<Rightarrow> bool" where
  "backed \<sigma> a e \<longleftrightarrow> quorum (length (lsNodes \<sigma>)) \<le> card {n. supports \<sigma> a e n}"

definition leaseEnd :: "lockAttempt \<Rightarrow> rat" where
  "leaseEnd a = laStart a + of_nat (laTtl a)"

definition answersBacked :: "lockSystem \<Rightarrow> lockAttempt \<Rightarrow> (int \<Rightarrow> bool) \<Rightarrow> bool" where
  "answersBacked \<sigma> a good \<longleftrightarrow> (\<forall>n v. laResults a n = Some (Some v) \<longrightarrow> good v \<longrightarrow> n < length (lsNodes \<sigma>) \<longrightarrow>
     lsNow \<sigma> < leaseEnd a \<longrightarrow> supports \<sigma> a (leaseEnd a) n)"

definition attemptOk :: "lockSystem \<Rightarrow> lockAttempt \<Rightarrow> bool" where
  "attemptOk \<sigma> a \<longleftrightarrow> laStart a \<le> lsNow \<sigma> \<and>
     (case laPhase a of
        Claiming \<Rightarrow> answersBacked \<sigma> a (\<lambda>v. 0 < v)
      | Publishing t \<Rightarrow> lsNow \<sigma> < leaseEnd a \<longrightarrow> backed \<sigma> a (leaseEnd a)
      | Held t e \<Rightarrow> e \<le> lsNow \<sigma> + of_nat (laTtl a) \<and> (lsNow \<sigma> < e \<longrightarrow> backed \<sigma> a e)
      | Extending t e \<Rightarrow> e \<le> lsNow \<sigma> + of_nat (laTtl a) \<and> (lsNow \<sigma> < e \<longrightarrow> backed \<sigma> a e)
          \<and> answersBacked \<sigma> a (\<lambda>v. v = 1)
      | Over \<Rightarrow> True)"

definition ownCommand :: "lockAttempt \<Rightarrow> lockCommand \<Rightarrow> bool" where
  "ownCommand a cmd \<longleftrightarrow>
     (case cmd of
        CmdAcquire k v ttl \<Rightarrow> k = laKey a \<and> v = laValue a \<and> ttl = laTtl a
      | CmdBump t \<Rightarrow> True
      | CmdRelease k v \<Rightarrow> k = laKey a \<and> v = laValue a \<and> laPhase a = Over
      | CmdExtend k v ttl \<Rightarrow> k = laKey a \<and> v = laValue a \<and> ttl = laTtl a)"

definition phaseCommand :: "lockAttempt \<Rightarrow> lockCommand \<Rightarrow> bool" where
  "phaseCommand a cmd \<longleftrightarrow>
     (case laPhase a of
        Claiming \<Rightarrow> cmd = CmdAcquire (laKey a) (laValue a) (laTtl a)
      | Publishing t \<Rightarrow> cmd = CmdBump t
      | Held t e \<Rightarrow> False
      | Extending t e \<Rightarrow> cmd = CmdExtend (laKey a) (laValue a) (laTtl a)
      | Over \<Rightarrow> True)"

definition sentOk :: "lockSystem \<Rightarrow> bool" where
  "sentOk \<sigma> \<longleftrightarrow> (\<forall>i c n cmd. (i, c, n, cmd) \<in> lsSent \<sigma> \<longrightarrow> n < length (lsNodes \<sigma>) \<and>
     (\<exists>a. lsAttempts \<sigma> i = Some a \<and> c \<le> laCall a \<and> ownCommand a cmd
        \<and> (c = laCall a \<longrightarrow> laResults a n = None \<longrightarrow> phaseCommand a cmd)))"

definition valuesOk :: "lockSystem \<Rightarrow> bool" where
  "valuesOk \<sigma> \<longleftrightarrow> (\<forall>i j a b. lsAttempts \<sigma> i = Some a \<longrightarrow> lsAttempts \<sigma> j = Some b \<longrightarrow>
     laValue a = laValue b \<longrightarrow> i = j)"

definition lockInv :: "lockSystem \<Rightarrow> bool" where
  "lockInv \<sigma> \<longleftrightarrow> valuesOk \<sigma> \<and> sentOk \<sigma> \<and> (\<forall>i a. lsAttempts \<sigma> i = Some a \<longrightarrow> attemptOk \<sigma> a)"

definition freshSystem :: "redisNode list \<Rightarrow> rat \<Rightarrow> lockSystem" where
  "freshSystem nodes now = \<lparr>lsNow = now, lsNodes = nodes, lsAttempts = Map.empty, lsSent = {}, lsGranted = []\<rparr>"

lemma sentOkD:
  assumes "sentOk \<sigma>" and "(i, c, n, cmd) \<in> lsSent \<sigma>"
  obtains a where "n < length (lsNodes \<sigma>)" and "lsAttempts \<sigma> i = Some a" and "c \<le> laCall a"
    and "ownCommand a cmd" and "c = laCall a \<longrightarrow> laResults a n = None \<longrightarrow> phaseCommand a cmd"
proof -
  have "n < length (lsNodes \<sigma>) \<and> (\<exists>a. lsAttempts \<sigma> i = Some a \<and> c \<le> laCall a \<and> ownCommand a cmd
      \<and> (c = laCall a \<longrightarrow> laResults a n = None \<longrightarrow> phaseCommand a cmd))"
    using assms(1) [unfolded sentOk_def, rule_format, OF assms(2)] by simp
  then show thesis using that by (elim conjE exE)
qed

lemma finite_supports [simp]: "finite {n. supports \<sigma> a e n}"
  by (rule finite_subset [of _ "{..<length (lsNodes \<sigma>)}"]) (auto simp: supports_def)

lemma backed_mono:
  assumes "backed \<sigma> a e" and "length (lsNodes \<sigma>') = length (lsNodes \<sigma>)"
    and "\<And>n. supports \<sigma> a e n \<Longrightarrow> supports \<sigma>' a' e' n"
  shows "backed \<sigma>' a' e'"
proof -
  have "card {n. supports \<sigma> a e n} \<le> card {n. supports \<sigma>' a' e' n}"
    by (rule card_mono) (use assms(3) in auto)
  with assms(1,2) show ?thesis by (simp add: backed_def)
qed

lemma attemptOk_mono:
  assumes ok: "attemptOk \<sigma> a" and now: "lsNow \<sigma> \<le> lsNow \<sigma>'"
    and nodes: "length (lsNodes \<sigma>') = length (lsNodes \<sigma>)"
    and keep: "\<And>e n. lsNow \<sigma>' < e \<Longrightarrow> e \<le> lsNow \<sigma> + of_nat (laTtl a) \<Longrightarrow> laPhase a \<noteq> Over \<Longrightarrow> supports \<sigma> a e n \<Longrightarrow> supports \<sigma>' a e n"
  shows "attemptOk \<sigma>' a"
proof -
  have le: "leaseEnd a \<le> lsNow \<sigma> + of_nat (laTtl a)" using ok by (simp add: attemptOk_def leaseEnd_def)
  have start: "laStart a \<le> lsNow \<sigma>'" using ok now by (simp add: attemptOk_def)
  have backs: "backed \<sigma>' a e" if "lsNow \<sigma>' < e" "e \<le> lsNow \<sigma> + of_nat (laTtl a)" "lsNow \<sigma> < e \<longrightarrow> backed \<sigma> a e"
    "laPhase a \<noteq> Over" for e
    using that now by (intro backed_mono [OF _ nodes]) (auto intro: keep)
  have answers: "answersBacked \<sigma>' a good" if "answersBacked \<sigma> a good" "laPhase a \<noteq> Over" for good
    using that now le nodes unfolding answersBacked_def by (auto intro: keep)
  show ?thesis
    using ok start backs answers le now by (auto simp: attemptOk_def split: lockPhase.splits)
qed


section \<open>Commands keep what backs a live lease\<close>

lemma liveValue_Some: "rnKeys node k = Some (v, x) \<Longrightarrow> now < x \<Longrightarrow> liveValue now k node = Some v"
  by (simp add: liveValue_def)

lemma runCommand_keeps:
  assumes entry: "rnKeys node (laKey b) = Some (laValue b, x)" and e: "now < e" "e \<le> x" "e \<le> now + of_nat (laTtl b)"
    and own: "ownCommand a cmd" and same: "laValue a = laValue b \<longrightarrow> a = b" and live: "laPhase b \<noteq> Over"
  shows "\<exists>x. rnKeys (snd (runCommand cmd now node)) (laKey b) = Some (laValue b, x) \<and> e \<le> x"
proof (cases cmd)
  case (CmdAcquire k v ttl)
  then show ?thesis
    using entry e liveValue_Some [OF entry, of now] by (auto simp: redlockAcquire_def split: option.splits)
next
  case (CmdBump t)
  then show ?thesis using entry e by (simp add: redlockBumpFence_def)
next
  case (CmdRelease k v)
  then show ?thesis
    using entry e own same live liveValue_Some [OF entry, of now] by (auto simp: ownCommand_def redlockRelease_def)
next
  case (CmdExtend k v ttl)
  then show ?thesis
    using entry e own same liveValue_Some [OF entry, of now] by (auto simp: ownCommand_def redlockExtend_def)
qed

lemma execute_on_fields:
  assumes "execute_on i c n cmd \<sigma> = (v, \<sigma>')"
  shows "lsNow \<sigma>' = lsNow \<sigma>" "lsAttempts \<sigma>' = lsAttempts \<sigma>" "length (lsNodes \<sigma>') = length (lsNodes \<sigma>)"
    "lsSent \<sigma>' \<subseteq> lsSent \<sigma>" "lsGranted \<sigma>' = lsGranted \<sigma>"
    "lsNodes \<sigma>' = (lsNodes \<sigma>)[n := snd (runCommand cmd (lsNow \<sigma>) (lsNodes \<sigma> ! n))]"
    "v = fst (runCommand cmd (lsNow \<sigma>) (lsNodes \<sigma> ! n))"
  using assms by (auto simp: execute_on_def Let_def split: prod.splits)

lemma execute_on_keeps:
  assumes vals: "valuesOk \<sigma>" and sent: "sentOk \<sigma>" and msg: "(i, c, n, cmd) \<in> lsSent \<sigma>"
    and run: "execute_on i c n cmd \<sigma> = (v, \<sigma>')" and b: "lsAttempts \<sigma> j = Some b" "laPhase b \<noteq> Over"
    and e: "lsNow \<sigma> < e" "e \<le> lsNow \<sigma> + of_nat (laTtl b)" and sup: "supports \<sigma> b e m"
  shows "supports \<sigma>' b e m"
proof -
  note f = execute_on_fields [OF run]
  obtain a where a: "n < length (lsNodes \<sigma>)" "lsAttempts \<sigma> i = Some a" "ownCommand a cmd"
    by (rule sentOkD [OF sent msg])
  obtain x where x: "rnKeys (lsNodes \<sigma> ! m) (laKey b) = Some (laValue b, x)" "e \<le> x" "m < length (lsNodes \<sigma>)"
    using sup by (auto simp: supports_def)
  have same: "laValue a = laValue b \<longrightarrow> a = b"
    using vals a(2) b(1) unfolding valuesOk_def by (metis option.inject)
  show ?thesis
  proof (cases "m = n")
    case True
    then show ?thesis
      using runCommand_keeps [OF x(1) e(1) x(2) e(2) a(3) same b(2)] x(3) f(6) by (simp add: supports_def)
  next
    case False
    then show ?thesis using x f(6) by (auto simp: supports_def)
  qed
qed

lemma command_supports:
  assumes "n < length (lsNodes \<sigma>)" and "lsNodes \<sigma>' = (lsNodes \<sigma>)[n := snd (runCommand cmd (lsNow \<sigma>) (lsNodes \<sigma> ! n))]"
    and "v = fst (runCommand cmd (lsNow \<sigma>) (lsNodes \<sigma> ! n))" and "laStart a \<le> lsNow \<sigma>"
    and "cmd = CmdAcquire (laKey a) (laValue a) (laTtl a) \<and> 0 < v \<or>
         cmd = CmdExtend (laKey a) (laValue a) (laTtl a) \<and> v = 1"
  shows "supports \<sigma>' a (leaseEnd a) n"
  using assms
  by (auto simp: supports_def leaseEnd_def redlockAcquire_def redlockExtend_def split: option.splits if_splits)

section \<open>Every step keeps the invariant\<close>

lemma lockInvI:
  assumes "valuesOk \<sigma>" and "sentOk \<sigma>" and "\<And>i a. lsAttempts \<sigma> i = Some a \<Longrightarrow> attemptOk \<sigma> a"
  shows "lockInv \<sigma>"
  using assms by (simp add: lockInv_def)

lemma lockInvD:
  assumes "lockInv \<sigma>"
  shows "valuesOk \<sigma>" and "sentOk \<sigma>" and "\<And>i a. lsAttempts \<sigma> i = Some a \<Longrightarrow> attemptOk \<sigma> a"
  using assms by (simp_all add: lockInv_def)

text \<open>One attempt changes, the others and the nodes stay.\<close>

definition evolved :: "nat \<Rightarrow> lockAttempt \<Rightarrow> lockAttempt \<Rightarrow> bool" where
  "evolved nodes a a' \<longleftrightarrow> laValue a' = laValue a \<and> laCall a \<le> laCall a' \<and> (\<forall>cmd. ownCommand a cmd \<longrightarrow> ownCommand a' cmd)
     \<and> (laCall a' = laCall a \<longrightarrow> (\<forall>n cmd. n < nodes \<longrightarrow> laResults a' n = None \<longrightarrow>
          laResults a n = None \<and> (phaseCommand a cmd \<longrightarrow> phaseCommand a' cmd)))"

lemma valuesOk_upd:
  assumes "valuesOk \<sigma>" and "lsAttempts \<sigma> i = Some a" and "laValue a' = laValue a"
    and "lsAttempts \<sigma>' = (lsAttempts \<sigma>)(i \<mapsto> a')"
  shows "valuesOk \<sigma>'"
  using assms unfolding valuesOk_def by (auto split: if_splits)

lemma sentOk_upd:
  assumes sent: "sentOk \<sigma>" and a: "lsAttempts \<sigma> i = Some a" and evo: "evolved (length (lsNodes \<sigma>)) a a'"
    and upd: "lsAttempts \<sigma>' = (lsAttempts \<sigma>)(i \<mapsto> a')" and nodes: "length (lsNodes \<sigma>') = length (lsNodes \<sigma>)"
    and new: "\<And>m. m \<in> lsSent \<sigma>' \<Longrightarrow> m \<in> lsSent \<sigma> \<or> (\<exists>n cmd. m = (i, laCall a', n, cmd) \<and> n < length (lsNodes \<sigma>)
        \<and> ownCommand a' cmd \<and> phaseCommand a' cmd)"
  shows "sentOk \<sigma>'"
  unfolding sentOk_def
proof (intro allI impI)
  fix j c n cmd assume m: "(j, c, n, cmd) \<in> lsSent \<sigma>'"
  show "n < length (lsNodes \<sigma>') \<and> (\<exists>b. lsAttempts \<sigma>' j = Some b \<and> c \<le> laCall b \<and> ownCommand b cmd
        \<and> (c = laCall b \<longrightarrow> laResults b n = None \<longrightarrow> phaseCommand b cmd))"
    using new [OF m]
  proof
    assume "(j, c, n, cmd) \<in> lsSent \<sigma>"
    from sentOkD [OF sent this] obtain b where b: "n < length (lsNodes \<sigma>)" "lsAttempts \<sigma> j = Some b" "c \<le> laCall b"
      "ownCommand b cmd" "c = laCall b \<longrightarrow> laResults b n = None \<longrightarrow> phaseCommand b cmd" by blast
    show ?thesis
    proof (cases "j = i")
      case True
      with a b have "b = a" by simp
      with b evo upd nodes True show ?thesis by (auto simp: evolved_def)
    qed (use b upd nodes in simp)
  qed (use upd nodes in auto)
qed


lemma supports_frame [simp]:
  "supports (\<sigma>\<lparr>lsAttempts := x\<rparr>) a e n = supports \<sigma> a e n" "supports (\<sigma>\<lparr>lsSent := y\<rparr>) a e n = supports \<sigma> a e n"
  "supports (\<sigma>\<lparr>lsNow := t\<rparr>) a e n = supports \<sigma> a e n" "supports (\<sigma>\<lparr>lsGranted := g\<rparr>) a e n = supports \<sigma> a e n"
  "supports \<sigma> (a\<lparr>laPhase := p\<rparr>) e n = supports \<sigma> a e n" "supports \<sigma> (a\<lparr>laCall := c\<rparr>) e n = supports \<sigma> a e n"
  "supports \<sigma> (a\<lparr>laResults := rs\<rparr>) e n = supports \<sigma> a e n" "supports \<sigma> (a\<lparr>laStart := s\<rparr>) e n = supports \<sigma> a e n"
  by (simp_all add: supports_def)

lemma backed_frame [simp]:
  "backed (\<sigma>\<lparr>lsAttempts := x\<rparr>) a e = backed \<sigma> a e" "backed (\<sigma>\<lparr>lsSent := y\<rparr>) a e = backed \<sigma> a e"
  "backed (\<sigma>\<lparr>lsNow := t\<rparr>) a e = backed \<sigma> a e" "backed (\<sigma>\<lparr>lsGranted := g\<rparr>) a e = backed \<sigma> a e"
  "backed \<sigma> (a\<lparr>laPhase := p\<rparr>) e = backed \<sigma> a e" "backed \<sigma> (a\<lparr>laCall := c\<rparr>) e = backed \<sigma> a e"
  "backed \<sigma> (a\<lparr>laResults := rs\<rparr>) e = backed \<sigma> a e" "backed \<sigma> (a\<lparr>laStart := s\<rparr>) e = backed \<sigma> a e"
  by (simp_all add: backed_def)

lemma leaseEnd_frame [simp]:
  "leaseEnd (a\<lparr>laPhase := p\<rparr>) = leaseEnd a" "leaseEnd (a\<lparr>laCall := c\<rparr>) = leaseEnd a"
  "leaseEnd (a\<lparr>laResults := rs\<rparr>) = leaseEnd a"
  by (simp_all add: leaseEnd_def)

lemma attemptOk_quiet:
  assumes "attemptOk \<sigma> a" and "lsNow \<sigma> \<le> lsNow \<sigma>'" and "lsNodes \<sigma>' = lsNodes \<sigma>"
  shows "attemptOk \<sigma>' a"
  by (rule attemptOk_mono [OF assms(1,2)]) (use assms(3) in \<open>simp_all add: supports_def\<close>)

lemma lockInv_upd:
  assumes inv: "lockInv \<sigma>" and a: "lsAttempts \<sigma> i = Some a" and evo: "evolved (length (lsNodes \<sigma>)) a a'"
    and upd: "lsAttempts \<sigma>' = (lsAttempts \<sigma>)(i \<mapsto> a')" and nodes: "lsNodes \<sigma>' = lsNodes \<sigma>"
    and now: "lsNow \<sigma> \<le> lsNow \<sigma>'"
    and new: "\<And>m. m \<in> lsSent \<sigma>' \<Longrightarrow> m \<in> lsSent \<sigma> \<or> (\<exists>n cmd. m = (i, laCall a', n, cmd) \<and> n < length (lsNodes \<sigma>)
        \<and> ownCommand a' cmd \<and> phaseCommand a' cmd)"
    and ok: "attemptOk \<sigma>' a'"
  shows "lockInv \<sigma>'"
proof (rule lockInvI)
  show "valuesOk \<sigma>'" by (rule valuesOk_upd [OF lockInvD(1) [OF inv] a _ upd]) (use evo in \<open>simp add: evolved_def\<close>)
  show "sentOk \<sigma>'" by (rule sentOk_upd [OF lockInvD(2) [OF inv] a evo upd _ new]) (use nodes in simp_all)
  show "attemptOk \<sigma>' b" if "lsAttempts \<sigma>' j = Some b" for j b
    using that upd ok attemptOk_quiet [OF lockInvD(3) [OF inv] now nodes] by (cases "j = i") auto
qed

lemma onEveryNode_inv:
  assumes inv: "lockInv \<sigma>" and a: "lsAttempts \<sigma> i = Some a" and b: "laValue b = laValue a" "laCall b = laCall a"
    and own: "\<And>cmd. ownCommand a cmd \<Longrightarrow> ownCommand b cmd" and cmd: "ownCommand b cmd" "phaseCommand b cmd"
    and ok: "attemptOk \<sigma> (b\<lparr>laResults := Map.empty\<rparr>)"
  shows "lockInv (onEveryNode i cmd b \<sigma>)"
proof (rule lockInv_upd [OF inv a, of "b\<lparr>laCall := Suc (laCall b), laResults := Map.empty\<rparr>"])
  have same: "ownCommand (b\<lparr>laCall := Suc (laCall b), laResults := Map.empty\<rparr>) c = ownCommand b c"
    "phaseCommand (b\<lparr>laCall := Suc (laCall b), laResults := Map.empty\<rparr>) c = phaseCommand b c" for c
    by (simp_all add: ownCommand_def phaseCommand_def cong: lockCommand.case_cong lockPhase.case_cong)
  show "evolved (length (lsNodes \<sigma>)) a (b\<lparr>laCall := Suc (laCall b), laResults := Map.empty\<rparr>)"
    using b own same by (simp add: evolved_def)
  show "attemptOk (onEveryNode i cmd b \<sigma>) (b\<lparr>laCall := Suc (laCall b), laResults := Map.empty\<rparr>)"
    using ok by (simp add: attemptOk_def onEveryNode_def answersBacked_def cong: lockPhase.case_cong)
  show "m \<in> lsSent \<sigma> \<or> (\<exists>n c. m = (i, laCall (b\<lparr>laCall := Suc (laCall b), laResults := Map.empty\<rparr>), n, c) \<and>
      n < length (lsNodes \<sigma>) \<and> ownCommand (b\<lparr>laCall := Suc (laCall b), laResults := Map.empty\<rparr>) c \<and>
      phaseCommand (b\<lparr>laCall := Suc (laCall b), laResults := Map.empty\<rparr>) c)"
    if "m \<in> lsSent (onEveryNode i cmd b \<sigma>)" for m
    using that cmd same by (auto simp: onEveryNode_def)
qed (simp_all add: onEveryNode_def)


lemma tick_inv:
  assumes "lockInv \<sigma>" and "lsNow \<sigma> \<le> t"
  shows "lockInv (\<sigma>\<lparr>lsNow := t\<rparr>)"
proof (rule lockInvI)
  show "attemptOk (\<sigma>\<lparr>lsNow := t\<rparr>) a" if "lsAttempts (\<sigma>\<lparr>lsNow := t\<rparr>) i = Some a" for i a
    by (rule attemptOk_quiet [of \<sigma>]) (use assms that lockInvD(3) [OF assms(1)] in simp_all)
qed (use lockInvD(1,2) [OF assms(1)] in \<open>simp_all add: valuesOk_def sentOk_def\<close>)

lemma releaseEverywhere_inv:
  assumes "lockInv \<sigma>" and "lsAttempts \<sigma> i = Some a"
  shows "lockInv (releaseEverywhere i a \<sigma>)"
  unfolding releaseEverywhere_def
proof (rule onEveryNode_inv [OF assms])
  show "ownCommand (a\<lparr>laPhase := Over\<rparr>) cmd" if "ownCommand a cmd" for cmd
    using that by (auto simp: ownCommand_def split: lockCommand.splits)
  show "attemptOk \<sigma> (a\<lparr>laPhase := Over, laResults := Map.empty\<rparr>)"
    using lockInvD(3) [OF assms] by (simp add: attemptOk_def)
qed (simp_all add: ownCommand_def phaseCommand_def)

lemma beginExtension_inv:
  assumes "lockInv \<sigma>" and "lsAttempts \<sigma> i = Some a" and "laPhase a = Held token e"
  shows "lockInv (beginExtension i token e a \<sigma>)"
  unfolding beginExtension_def
proof (rule onEveryNode_inv [OF assms(1,2)])
  show "ownCommand (a\<lparr>laPhase := Extending token e, laStart := lsNow \<sigma>\<rparr>) cmd" if "ownCommand a cmd" for cmd
    using that assms(3) by (auto simp: ownCommand_def split: lockCommand.splits)
  show "attemptOk \<sigma> (a\<lparr>laPhase := Extending token e, laStart := lsNow \<sigma>, laResults := Map.empty\<rparr>)"
    using lockInvD(3) [OF assms(1,2)] assms(3) by (simp add: attemptOk_def answersBacked_def)
qed (simp_all add: ownCommand_def phaseCommand_def)

lemma beginAttempt_inv:
  assumes inv: "lockInv \<sigma>" and new: "lsAttempts \<sigma> i = None"
    and fresh: "\<forall>j b. lsAttempts \<sigma> j = Some b \<longrightarrow> laValue b \<noteq> v"
  shows "lockInv (beginAttempt opts i k v ttlMs \<sigma>)"
proof (rule lockInvI)
  let ?s = "beginAttempt opts i k v ttlMs \<sigma>"
  note d = beginAttempt_def onEveryNode_def
  show "valuesOk ?s" using lockInvD(1) [OF inv] fresh unfolding valuesOk_def by (auto simp: d split: if_splits)
  show "sentOk ?s" unfolding sentOk_def
  proof (intro allI impI)
    fix j c n cmd assume m: "(j, c, n, cmd) \<in> lsSent ?s"
    show "n < length (lsNodes ?s) \<and> (\<exists>b. lsAttempts ?s j = Some b \<and> c \<le> laCall b \<and> ownCommand b cmd
        \<and> (c = laCall b \<longrightarrow> laResults b n = None \<longrightarrow> phaseCommand b cmd))"
    proof (cases "(j, c, n, cmd) \<in> lsSent \<sigma>")
      case True
      from sentOkD [OF lockInvD(2) [OF inv] this] obtain b where b: "n < length (lsNodes \<sigma>)"
        "lsAttempts \<sigma> j = Some b" "c \<le> laCall b" "ownCommand b cmd"
        "c = laCall b \<longrightarrow> laResults b n = None \<longrightarrow> phaseCommand b cmd" by blast
      then show ?thesis using new by (intro conjI exI [of _ b]) (auto simp: d)
    next
      case False
      with m show ?thesis by (auto simp: d ownCommand_def phaseCommand_def)
    qed
  qed
  show "attemptOk ?s b" if "lsAttempts ?s j = Some b" for j b
  proof (cases "j = i")
    case True
    with that show ?thesis by (auto simp: d attemptOk_def answersBacked_def)
  next
    case False
    with that have "lsAttempts \<sigma> j = Some b" by (simp add: d)
    then show ?thesis by (rule attemptOk_quiet [OF lockInvD(3) [OF inv]]) (simp_all add: d)
  qed
qed

lemma claimed_backed:
  assumes "quorum (length (lsNodes \<sigma>)) \<le> length (filter P [0..<length (lsNodes \<sigma>)])"
    and "\<And>n. P n \<Longrightarrow> n < length (lsNodes \<sigma>) \<Longrightarrow> supports \<sigma> a e n"
  shows "backed \<sigma> a e"
proof -
  have "card (set (filter P [0..<length (lsNodes \<sigma>)])) \<le> card {n. supports \<sigma> a e n}"
    by (rule card_mono) (use assms(2) in auto)
  then show ?thesis using assms(1) by (simp add: backed_def distinct_card [symmetric] del: set_filter)
qed


lemma lease_open:
  assumes "0 < validityFrom opts (laTtl a) (laStart a) now" and "0 \<le> driftOf opts (laTtl a)"
  shows "now < leaseEnd a"
  using assms by (simp add: validityFrom_def leaseEnd_def)

lemma held_inv:
  assumes inv: "lockInv \<sigma>" and a: "lsAttempts \<sigma> i = Some a" and settled: "allSettled (length (lsNodes \<sigma>)) (laResults a)"
    and live: "laPhase a \<noteq> Over" and stays: "lsNow \<sigma> < leaseEnd a \<longrightarrow> backed \<sigma> a (leaseEnd a)"
    and now: "lsNow \<sigma> \<le> now'" "now' - lsNow \<sigma> \<le> driftOf opts (laTtl a)"
    and pos: "0 < validityFrom opts (laTtl a) (laStart a) (lsNow \<sigma>)"
  shows "lockInv (\<sigma>\<lparr>lsNow := now', lsAttempts := (lsAttempts \<sigma>)(i \<mapsto>
    a\<lparr>laPhase := Held token (now' + validityFrom opts (laTtl a) (laStart a) (lsNow \<sigma>))\<rparr>), lsGranted := g\<rparr>)"
    (is "lockInv ?s")
proof (rule lockInv_upd [OF inv a])
  let ?e = "now' + validityFrom opts (laTtl a) (laStart a) (lsNow \<sigma>)"
  let ?a = "a\<lparr>laPhase := Held token ?e\<rparr>"
  have le: "?e \<le> leaseEnd a" using now by (simp add: validityFrom_def leaseEnd_def)
  have "backed \<sigma> a (leaseEnd a)" using stays lease_open [OF pos] now by simp
  then have "backed \<sigma> a ?e"
    by (rule backed_mono) (use le in \<open>auto simp: supports_def intro: order_trans\<close>)
  moreover have "laStart a \<le> lsNow \<sigma>" using lockInvD(3) [OF inv a] by (simp add: attemptOk_def)
  ultimately show "attemptOk ?s ?a"
    using le now by (simp add: attemptOk_def leaseEnd_def)
  have own: "ownCommand a cmd \<Longrightarrow> ownCommand ?a cmd" for cmd
    using live by (auto simp: ownCommand_def split: lockCommand.splits)
  have full: False if "laResults a n = None" "n < length (lsNodes \<sigma>)" for n
    using settled that unfolding allSettled_def by (metis atLeastLessThan_iff set_upt zero_le)
  show "evolved (length (lsNodes \<sigma>)) a ?a" using own by (auto simp: evolved_def dest: full)
qed (use now in simp_all)

lemma publish_inv:
  assumes inv: "lockInv \<sigma>" and a: "lsAttempts \<sigma> i = Some a" and phase: "laPhase a = Claiming"
    and stays: "lsNow \<sigma> < leaseEnd a \<longrightarrow> backed \<sigma> a (leaseEnd a)"
  shows "lockInv (onEveryNode i (CmdBump token) (a\<lparr>laPhase := Publishing token\<rparr>) \<sigma>)"
proof (rule onEveryNode_inv [OF inv a])
  show "ownCommand (a\<lparr>laPhase := Publishing token\<rparr>) cmd" if "ownCommand a cmd" for cmd
    using that phase by (auto simp: ownCommand_def split: lockCommand.splits)
  show "attemptOk \<sigma> (a\<lparr>laPhase := Publishing token, laResults := Map.empty\<rparr>)"
    using lockInvD(3) [OF inv a] stays by (simp add: attemptOk_def)
qed (simp_all add: ownCommand_def phaseCommand_def)

lemma votes_backed:
  assumes inv: "lockInv \<sigma>" and a: "lsAttempts \<sigma> i = Some a" and phase: "laPhase a = Claiming"
    and votes: "quorum (length (lsNodes \<sigma>)) \<le> length (claimedNodes (length (lsNodes \<sigma>)) (laResults a))"
    and open_lease: "lsNow \<sigma> < leaseEnd a"
  shows "backed \<sigma> a (leaseEnd a)"
  using votes unfolding claimedNodes_def
proof (rule claimed_backed)
  show "supports \<sigma> a (leaseEnd a) n"
    if "case laResults a n of Some (Some v) \<Rightarrow> 0 < v | _ \<Rightarrow> False" "n < length (lsNodes \<sigma>)" for n
    using lockInvD(3) [OF inv a] phase open_lease that
    by (auto simp: attemptOk_def answersBacked_def split: option.splits)
qed

lemma extension_backed:
  assumes inv: "lockInv \<sigma>" and a: "lsAttempts \<sigma> i = Some a" and phase: "laPhase a = Extending token e"
    and votes: "quorum (length (lsNodes \<sigma>)) \<le> length (confirmedNodes (length (lsNodes \<sigma>)) (laResults a))"
    and open_lease: "lsNow \<sigma> < leaseEnd a"
  shows "backed \<sigma> a (leaseEnd a)"
  using votes unfolding confirmedNodes_def
proof (rule claimed_backed)
  show "supports \<sigma> a (leaseEnd a) n" if "laResults a n = Some (Some 1)" "n < length (lsNodes \<sigma>)" for n
    using lockInvD(3) [OF inv a] phase open_lease that by (auto simp: attemptOk_def answersBacked_def)
qed


lemma judge_inv:
  assumes inv: "lockInv \<sigma>" and a: "lsAttempts \<sigma> i = Some a" and settled: "allSettled (length (lsNodes \<sigma>)) (laResults a)"
    and now: "lsNow \<sigma> \<le> now'" "now' - lsNow \<sigma> \<le> driftOf opts (laTtl a)"
  shows "lockInv (judge opts now' i a \<sigma>)"
proof -
  let ?N = "length (lsNodes \<sigma>)"
  have inv': "lockInv (\<sigma>\<lparr>lsNow := now'\<rparr>)" by (rule tick_inv [OF inv now(1)])
  have a': "lsAttempts (\<sigma>\<lparr>lsNow := now'\<rparr>) i = Some a" using a by simp
  have drift: "0 \<le> driftOf opts (laTtl a)" using now by simp
  note over = releaseEverywhere_inv [OF inv' a']
  have held: "lockInv (\<sigma>\<lparr>lsNow := now', lsAttempts := (lsAttempts \<sigma>)(i \<mapsto>
      a\<lparr>laPhase := Held token (now' + validityFrom opts (laTtl a) (laStart a) (lsNow \<sigma>))\<rparr>), lsGranted := g\<rparr>)"
    if "laPhase a \<noteq> Over" "lsNow \<sigma> < leaseEnd a \<longrightarrow> backed \<sigma> a (leaseEnd a)"
      "0 < validityFrom opts (laTtl a) (laStart a) (lsNow \<sigma>)" for token g
    by (rule held_inv [OF inv a settled that(1,2) now that(3)])
  show ?thesis
  proof (cases "laPhase a")
    case Claiming
    have "lockInv (onEveryNode i (CmdBump token) (a\<lparr>laPhase := Publishing token\<rparr>) (\<sigma>\<lparr>lsNow := now'\<rparr>))"
      if "quorum ?N \<le> length (claimedNodes ?N (laResults a))" for token
      by (rule publish_inv [OF inv' a' Claiming])
        (use votes_backed [OF inv' a' Claiming] that in simp)
    then show ?thesis using over Claiming by (simp add: judge_def judgeVotes_def afterVerdict_def Let_def)
  next
    case (Publishing token)
    have "lsNow \<sigma> < leaseEnd a \<longrightarrow> backed \<sigma> a (leaseEnd a)"
      using lockInvD(3) [OF inv a] Publishing by (simp add: attemptOk_def)
    then show ?thesis using over Publishing held by (simp add: judge_def judgeBumps_def afterVerdict_def Let_def)
  next
    case (Extending token e)
    have "backed \<sigma> a (leaseEnd a)" if "quorum ?N \<le> length (confirmedNodes ?N (laResults a))" "lsNow \<sigma> < leaseEnd a"
      by (rule extension_backed [OF inv a Extending that])
    then show ?thesis
      using over Extending held [where token = token and g = "lsGranted \<sigma>"]
      by (simp add: judge_def judgeExtension_def afterVerdict_def Let_def)
  qed (use inv' in \<open>simp_all add: judge_def\<close>)
qed

lemma execute_on_inv:
  assumes inv: "lockInv \<sigma>" and msg: "(i, c, n, cmd) \<in> lsSent \<sigma>" and run: "execute_on i c n cmd \<sigma> = (v, \<sigma>')"
  shows "lockInv \<sigma>'"
proof (rule lockInvI)
  note f = execute_on_fields [OF run]
  show "valuesOk \<sigma>'" using lockInvD(1) [OF inv] f(2) by (simp add: valuesOk_def)
  show "sentOk \<sigma>'" using lockInvD(2) [OF inv] f(2,3,4) unfolding sentOk_def by (metis subsetD)
  show "attemptOk \<sigma>' b" if "lsAttempts \<sigma>' j = Some b" for j b
  proof (rule attemptOk_mono [of \<sigma>])
    have b: "lsAttempts \<sigma> j = Some b" using that f(2) by simp
    then show "attemptOk \<sigma> b" by (rule lockInvD(3) [OF inv])
    show "supports \<sigma>' b e m" if "lsNow \<sigma>' < e" "e \<le> lsNow \<sigma> + of_nat (laTtl b)" "laPhase b \<noteq> Over" "supports \<sigma> b e m" for e m
      by (rule execute_on_keeps [OF lockInvD(1,2) [OF inv] msg run b that(3) _ that(2,4)]) (use that(1) f(1) in simp)
  qed (use f in simp_all)
qed

lemma recordAnswer_inv:
  assumes inv: "lockInv \<sigma>" and a: "lsAttempts \<sigma> i = Some a" and none: "laResults a n = None"
    and answer: "\<And>v. answer = Some v \<Longrightarrow> n < length (lsNodes \<sigma>) \<Longrightarrow>
      (laPhase a = Claiming \<and> 0 < v \<or> (\<exists>t e. laPhase a = Extending t e) \<and> v = 1) \<Longrightarrow> supports \<sigma> a (leaseEnd a) n"
  shows "lockInv (recordAnswer i n answer a \<sigma>)"
proof (rule lockInv_upd [OF inv a])
  let ?a = "a\<lparr>laResults := (laResults a)(n \<mapsto> answer)\<rparr>"
  have ok: "attemptOk \<sigma> a" by (rule lockInvD(3) [OF inv a])
  show "attemptOk (recordAnswer i n answer a \<sigma>) ?a"
  proof (cases "laPhase a")
    case Claiming
    with ok answer show ?thesis by (auto simp: attemptOk_def answersBacked_def recordAnswer_def)
  next
    case (Extending t e)
    with ok answer show ?thesis by (auto simp: attemptOk_def answersBacked_def recordAnswer_def)
  qed (use ok in \<open>simp_all add: attemptOk_def recordAnswer_def\<close>)
  show "evolved (length (lsNodes \<sigma>)) a ?a"
    by (auto simp: evolved_def ownCommand_def phaseCommand_def split: lockCommand.splits lockPhase.splits if_splits)
qed (simp_all add: recordAnswer_def)


lemma answered_supports:
  assumes inv: "lockInv \<sigma>" and msg: "(i, laCall a, n, cmd) \<in> lsSent \<sigma>" and run: "execute_on i (laCall a) n cmd \<sigma> = (v, \<sigma>')"
    and a: "lsAttempts \<sigma> i = Some a" and none: "laResults a n = None"
    and good: "laPhase a = Claiming \<and> 0 < v \<or> (\<exists>t e. laPhase a = Extending t e) \<and> v = 1"
  shows "supports \<sigma>' a (leaseEnd a) n"
proof -
  note f = execute_on_fields [OF run]
  obtain b where b: "n < length (lsNodes \<sigma>)" "lsAttempts \<sigma> i = Some b"
    "laCall a = laCall b \<longrightarrow> laResults b n = None \<longrightarrow> phaseCommand b cmd"
    by (rule sentOkD [OF lockInvD(2) [OF inv] msg])
  with a none have cmd: "phaseCommand a cmd" by simp
  show ?thesis
    by (rule command_supports [OF b(1) f(6,7)])
      (use lockInvD(3) [OF inv a] cmd good in \<open>auto simp: attemptOk_def phaseCommand_def\<close>)
qed

lemma lockStep_inv:
  assumes "lockStep opts \<sigma> \<sigma>'" and inv: "lockInv \<sigma>"
  shows "lockInv \<sigma>'"
  using assms(1)
proof cases
  case (tick d)
  then show ?thesis using tick_inv [OF inv, of "lsNow \<sigma> + d"] by simp
next
  case (attempt i v ttlMs k)
  then show ?thesis using beginAttempt_inv [OF inv] by simp
next
  case (answered i c n cmd v \<sigma>1 a)
  have "lockInv (recordAnswer i n (Some v) a \<sigma>1)"
  proof (rule recordAnswer_inv [OF execute_on_inv [OF inv answered(2,3)]])
    show "supports \<sigma>1 a (leaseEnd a) n" if "Some v = Some w" "laPhase a = Claiming \<and> 0 < w \<or> (\<exists>t e. laPhase a = Extending t e) \<and> w = 1" for w
      by (rule answered_supports [OF inv _ _ answered(4,6)]) (use answered that in auto)
  qed (use answered execute_on_fields(2) [OF answered(3)] in auto)
  then show ?thesis using answered(1) by simp
next
  case (answer_lost i c n cmd v)
  then show ?thesis using execute_on_inv [OF inv] by simp
next
  case (command_lost m)
  have "lockInv (\<sigma>\<lparr>lsSent := lsSent \<sigma> - {m}\<rparr>)"
  proof (rule lockInvI)
    show "sentOk (\<sigma>\<lparr>lsSent := lsSent \<sigma> - {m}\<rparr>)" using lockInvD(2) [OF inv] by (auto simp: sentOk_def)
    show "attemptOk (\<sigma>\<lparr>lsSent := lsSent \<sigma> - {m}\<rparr>) b" if "lsAttempts (\<sigma>\<lparr>lsSent := lsSent \<sigma> - {m}\<rparr>) j = Some b" for j b
      by (rule attemptOk_quiet [OF lockInvD(3) [OF inv]]) (use that in simp_all)
  qed (use lockInvD(1) [OF inv] in \<open>simp add: valuesOk_def\<close>)
  then show ?thesis using command_lost by simp
next
  case (timed_out i a n)
  then show ?thesis using recordAnswer_inv [OF inv timed_out(2,3), of None] by simp
next
  case (decided i a now')
  then show ?thesis using judge_inv [OF inv decided(2,3,5,6)] by simp
next
  case (extend i a token e)
  then show ?thesis using beginExtension_inv [OF inv] by simp
next
  case (release i a token e)
  then show ?thesis using releaseEverywhere_inv [OF inv] by simp
qed

section \<open>Exclusion\<close>

abbreviation lockRun :: "redlockOptions \<Rightarrow> lockSystem \<Rightarrow> lockSystem \<Rightarrow> bool" where
  "lockRun opts \<equiv> (lockStep opts)\<^sup>*\<^sup>*"

lemma lockRun_inv: "lockRun opts \<sigma> \<sigma>' \<Longrightarrow> lockInv \<sigma> \<Longrightarrow> lockInv \<sigma>'"
  by (induction rule: rtranclp_induct) (auto intro: lockStep_inv)

lemma freshSystem_inv: "lockInv (freshSystem nodes now)"
  by (simp add: lockInv_def valuesOk_def sentOk_def freshSystem_def)

text \<open>A handle is valid while it is live and its expiry has not been reached.\<close>

definition validHandle :: "lockSystem \<Rightarrow> nat \<Rightarrow> string \<Rightarrow> bool" where
  "validHandle \<sigma> i k \<longleftrightarrow>
     (case lsAttempts \<sigma> i of
        None \<Rightarrow> False
      | Some a \<Rightarrow> laKey a = k \<and> (case laPhase a of Held t e \<Rightarrow> lsNow \<sigma> < e | Extending t e \<Rightarrow> lsNow \<sigma> < e | _ \<Rightarrow> False))"

lemma quorums_meet:
  assumes "quorum N \<le> card A" and "quorum N \<le> card B" and "A \<subseteq> {..<N}" and "B \<subseteq> {..<N}"
  shows "A \<inter> B \<noteq> {}"
proof
  assume "A \<inter> B = {}"
  moreover have "finite A" "finite B" using assms(3,4) by (auto intro: finite_subset)
  ultimately have "card (A \<union> B) = card A + card B" by (simp add: card_Un_disjoint)
  moreover have "card (A \<union> B) \<le> card {..<N}" using assms(3,4) by (intro card_mono) auto
  ultimately show False using assms(1,2) by (simp add: quorum_def)
qed

lemma validHandle_backed:
  assumes "lockInv \<sigma>" and "validHandle \<sigma> i k"
  obtains a e where "lsAttempts \<sigma> i = Some a" and "laKey a = k" and "backed \<sigma> a e"
proof -
  obtain a where a: "lsAttempts \<sigma> i = Some a" "laKey a = k"
    and live: "case laPhase a of Held t e \<Rightarrow> lsNow \<sigma> < e | Extending t e \<Rightarrow> lsNow \<sigma> < e | _ \<Rightarrow> False"
    using assms(2) by (auto simp: validHandle_def split: option.splits)
  have ok: "attemptOk \<sigma> a" by (rule lockInvD(3) [OF assms(1) a(1)])
  show thesis
  proof (cases "laPhase a")
    case (Held t e)
    with ok live have "backed \<sigma> a e" by (simp add: attemptOk_def)
    with a show thesis by (rule that)
  next
    case (Extending t e)
    with ok live have "backed \<sigma> a e" by (simp add: attemptOk_def)
    with a show thesis by (rule that)
  qed (use live in simp_all)
qed

lemma validHandle_unique:
  assumes inv: "lockInv \<sigma>" and "validHandle \<sigma> i k" and "validHandle \<sigma> j k"
  shows "i = j"
proof -
  obtain a e where a: "lsAttempts \<sigma> i = Some a" "laKey a = k" "backed \<sigma> a e"
    by (rule validHandle_backed [OF inv assms(2)])
  obtain b f where b: "lsAttempts \<sigma> j = Some b" "laKey b = k" "backed \<sigma> b f"
    by (rule validHandle_backed [OF inv assms(3)])
  have "{n. supports \<sigma> a e n} \<inter> {n. supports \<sigma> b f n} \<noteq> {}"
    by (rule quorums_meet [of "length (lsNodes \<sigma>)"]) (use a(3) b(3) in \<open>auto simp: backed_def supports_def\<close>)
  then obtain n where "supports \<sigma> a e n" "supports \<sigma> b f n" by blast
  then have "laValue a = laValue b" using a(2) b(2) by (auto simp: supports_def)
  then show "i = j" using lockInvD(1) [OF inv] a(1) b(1) unfolding valuesOk_def by blast
qed

section \<open>Fencing tokens\<close>

definition fencedNodes :: "nat \<Rightarrow> lockSystem \<Rightarrow> nat set" where
  "fencedNodes t \<sigma> = {n. n < length (lsNodes \<sigma>) \<and> t \<le> rnFence (lsNodes \<sigma> ! n)}"

definition publishedOk :: "lockSystem \<Rightarrow> bool" where
  "publishedOk \<sigma> \<longleftrightarrow> (\<forall>i a t n. lsAttempts \<sigma> i = Some a \<longrightarrow> laPhase a = Publishing t \<longrightarrow>
     laResults a n = Some (Some 1) \<longrightarrow> n < length (lsNodes \<sigma>) \<longrightarrow> n \<in> fencedNodes t \<sigma>)"

definition grantedOk :: "lockSystem \<Rightarrow> bool" where
  "grantedOk \<sigma> \<longleftrightarrow> (\<forall>t \<in> set (lsGranted \<sigma>). quorum (length (lsNodes \<sigma>)) \<le> card (fencedNodes t \<sigma>))"

definition exceedingNodes :: "nat \<Rightarrow> lockAttempt \<Rightarrow> lockSystem \<Rightarrow> nat set" where
  "exceedingNodes t a \<sigma> = {n \<in> fencedNodes t \<sigma>. \<forall>v. laResults a n = Some (Some v) \<longrightarrow> 0 < v \<longrightarrow> int t < v}"

definition outdraws :: "nat \<Rightarrow> lockAttempt \<Rightarrow> lockSystem \<Rightarrow> bool" where
  "outdraws t a \<sigma> \<longleftrightarrow>
     (case laPhase a of
        Claiming \<Rightarrow> quorum (length (lsNodes \<sigma>)) \<le> card (exceedingNodes t a \<sigma>)
      | Publishing t' \<Rightarrow> t < t' | Held t' e \<Rightarrow> t < t' | Extending t' e \<Rightarrow> t < t' | Over \<Rightarrow> True)"

text \<open>Nodes only ever count up.\<close>

definition fencesUp :: "lockSystem \<Rightarrow> lockSystem \<Rightarrow> bool" where
  "fencesUp \<sigma> \<sigma>' \<longleftrightarrow> length (lsNodes \<sigma>') = length (lsNodes \<sigma>) \<and>
     (\<forall>n < length (lsNodes \<sigma>). rnFence (lsNodes \<sigma> ! n) \<le> rnFence (lsNodes \<sigma>' ! n))"

lemma finite_fenced [simp]: "finite (fencedNodes t \<sigma>)" "finite (exceedingNodes t a \<sigma>)"
  by (auto simp: fencedNodes_def exceedingNodes_def)

lemma runCommand_fence: "rnFence node \<le> rnFence (snd (runCommand cmd now node))"
  by (cases cmd) (auto simp: redlockAcquire_def redlockBumpFence_def redlockRelease_def redlockExtend_def split: option.splits)

lemma execute_on_fences:
  assumes "execute_on i c n cmd \<sigma> = (v, \<sigma>')"
  shows "fencesUp \<sigma> \<sigma>'"
proof -
  have "rnFence (lsNodes \<sigma> ! m) \<le> rnFence (lsNodes \<sigma>' ! m)" if "m < length (lsNodes \<sigma>)" for m
    using execute_on_fields(6) [OF assms] runCommand_fence that by (cases "m = n") simp_all
  then show ?thesis using execute_on_fields(3) [OF assms] by (simp add: fencesUp_def)
qed

lemma frame_fences: "lsNodes \<sigma>' = lsNodes \<sigma> \<Longrightarrow> fencesUp \<sigma> \<sigma>'"
  by (simp add: fencesUp_def)

lemma judge_nodes [simp]: "lsNodes (judge opts now' i a \<sigma>) = lsNodes \<sigma>"
  by (simp add: judge_def afterVerdict_def releaseEverywhere_def onEveryNode_def Let_def split: lockPhase.splits)

lemma lockStep_fences: "lockStep opts \<sigma> \<sigma>' \<Longrightarrow> fencesUp \<sigma> \<sigma>'"
proof (induction rule: lockStep.induct)
  case (answered i c n cmd \<sigma> v \<sigma>' a)
  then show ?case using execute_on_fences [OF answered(2)] by (simp add: fencesUp_def recordAnswer_def)
next
  case (answer_lost i c n cmd \<sigma> v \<sigma>')
  show ?case by (rule execute_on_fences [OF answer_lost(2)])
qed (simp_all add: frame_fences beginAttempt_def onEveryNode_def recordAnswer_def beginExtension_def releaseEverywhere_def)

lemma fencedNodes_mono: "fencesUp \<sigma> \<sigma>' \<Longrightarrow> fencedNodes t \<sigma> \<subseteq> fencedNodes t \<sigma>'"
  by (auto simp: fencesUp_def fencedNodes_def intro: order_trans)

lemma quorum_fenced_mono:
  assumes "fencesUp \<sigma> \<sigma>'" and "quorum (length (lsNodes \<sigma>)) \<le> card (fencedNodes t \<sigma>)"
  shows "quorum (length (lsNodes \<sigma>')) \<le> card (fencedNodes t \<sigma>')"
  using assms(2) card_mono [OF finite_fenced(1) fencedNodes_mono [OF assms(1), of t]] assms(1)
  by (simp add: fencesUp_def)

lemma publishedOkD:
  "publishedOk \<sigma> \<Longrightarrow> lsAttempts \<sigma> i = Some a \<Longrightarrow> laPhase a = Publishing t \<Longrightarrow> laResults a n = Some (Some 1) \<Longrightarrow>
     n < length (lsNodes \<sigma>) \<Longrightarrow> n \<in> fencedNodes t \<sigma>"
  unfolding publishedOk_def by blast

lemma publishedOk_upd:
  assumes pub: "publishedOk \<sigma>" and up: "fencesUp \<sigma> \<sigma>'" and upd: "lsAttempts \<sigma>' = (lsAttempts \<sigma>)(i \<mapsto> a')"
    and new: "\<And>t n. laPhase a' = Publishing t \<Longrightarrow> laResults a' n = Some (Some 1) \<Longrightarrow> n < length (lsNodes \<sigma>) \<Longrightarrow>
      n \<in> fencedNodes t \<sigma>'"
  shows "publishedOk \<sigma>'"
  unfolding publishedOk_def
proof (intro allI impI)
  fix j b t n assume b: "lsAttempts \<sigma>' j = Some b" "laPhase b = Publishing t" "laResults b n = Some (Some 1)"
    "n < length (lsNodes \<sigma>')"
  have n: "n < length (lsNodes \<sigma>)" using b(4) up by (simp add: fencesUp_def)
  show "n \<in> fencedNodes t \<sigma>'"
  proof (cases "j = i")
    case True
    with b upd have "b = a'" by simp
    then show ?thesis using new b n by simp
  next
    case False
    then have "lsAttempts \<sigma> j = Some b" using b(1) upd by simp
    then show ?thesis using publishedOkD [OF pub _ b(2,3) n] fencedNodes_mono [OF up] by blast
  qed
qed


text \<open>What one attempt looks like after each kind of step, with the nodes' counters only going up.\<close>

lemma onEveryNode_upd: "lsAttempts (onEveryNode i cmd a \<sigma>) = (lsAttempts \<sigma>)(i \<mapsto> a\<lparr>laCall := Suc (laCall a), laResults := Map.empty\<rparr>)"
  "lsGranted (onEveryNode i cmd a \<sigma>) = lsGranted \<sigma>" "lsNodes (onEveryNode i cmd a \<sigma>) = lsNodes \<sigma>"
  by (simp_all add: onEveryNode_def)

definition judged :: "redlockOptions \<Rightarrow> lockSystem \<Rightarrow> lockAttempt \<Rightarrow> lockAttempt \<Rightarrow> bool" where
  "judged opts \<sigma> a a' \<longleftrightarrow>
     laPhase a' = Over
     \<or> (laPhase a = Claiming \<and> laResults a' = Map.empty \<and> quorum (length (lsNodes \<sigma>)) \<le> length (claimedNodes (length (lsNodes \<sigma>)) (laResults a))
        \<and> laPhase a' = Publishing (nat (drawnToken (length (lsNodes \<sigma>)) (laResults a))))
     \<or> (\<exists>t e. laPhase a' = Held t e \<and> (laPhase a = Publishing t \<or> (\<exists>e'. laPhase a = Extending t e')))"

definition verdictAttempt :: "lockAttempt \<Rightarrow> lockPhase \<Rightarrow> lockAttempt" where
  "verdictAttempt a verdict =
     (case verdict of
        Publishing t \<Rightarrow> a\<lparr>laPhase := Publishing t, laCall := Suc (laCall a), laResults := Map.empty\<rparr>
      | Held t e \<Rightarrow> a\<lparr>laPhase := Held t e\<rparr>
      | _ \<Rightarrow> a\<lparr>laPhase := Over, laCall := Suc (laCall a), laResults := Map.empty\<rparr>)"

lemma afterVerdict_upd:
  "lsAttempts (afterVerdict i a verdict \<sigma>) = (lsAttempts \<sigma>)(i \<mapsto> verdictAttempt a verdict)"
  "lsGranted (afterVerdict i a verdict \<sigma>) = lsGranted \<sigma>"
  by (simp_all add: afterVerdict_def verdictAttempt_def releaseEverywhere_def onEveryNode_upd split: lockPhase.splits)

lemma judge_shape:
  assumes "laPhase a \<in> {Claiming} \<union> range Publishing \<union> {Extending t e | t e. True}"
  obtains a' where "lsAttempts (judge opts now' i a \<sigma>) = (lsAttempts \<sigma>)(i \<mapsto> a')" and "judged opts \<sigma> a a'"
    and "lsGranted (judge opts now' i a \<sigma>) = lsGranted \<sigma> \<or>
      (\<exists>t. laPhase a = Publishing t \<and> lsGranted (judge opts now' i a \<sigma>) = t # lsGranted \<sigma>
        \<and> quorum (length (lsNodes \<sigma>)) \<le> length (confirmedNodes (length (lsNodes \<sigma>)) (laResults a)))"
proof -
  let ?N = "length (lsNodes \<sigma>)" and ?s = "judge opts now' i a \<sigma>"
  show thesis
  proof (cases "laPhase a")
    case Claiming
    let ?v = "judgeVotes opts ?N (laTtl a) (laStart a) (lsNow \<sigma>) (laResults a)"
    have "judged opts \<sigma> a (verdictAttempt a ?v)"
      using Claiming by (simp add: judged_def judgeVotes_def verdictAttempt_def)
    then show thesis
      by (rule that [of "verdictAttempt a ?v", rotated]) (simp_all add: judge_def Claiming Let_def afterVerdict_upd)
  next
    case (Publishing t)
    let ?v = "judgeBumps opts ?N (laTtl a) (laStart a) (lsNow \<sigma>) now' t (laResults a)"
    have "judged opts \<sigma> a (verdictAttempt a ?v)"
      using Publishing by (simp add: judged_def judgeBumps_def verdictAttempt_def Let_def)
    moreover have "?v = Over \<or> quorum ?N \<le> length (confirmedNodes ?N (laResults a))"
      by (auto simp: judgeBumps_def Let_def)
    ultimately show thesis
      by (intro that [of "verdictAttempt a ?v"]) (auto simp: judge_def Publishing Let_def afterVerdict_upd)
  next
    case (Extending t e)
    let ?v = "judgeExtension opts ?N (laTtl a) (laStart a) (lsNow \<sigma>) now' t (laResults a)"
    have "judged opts \<sigma> a (verdictAttempt a ?v)"
      using Extending by (simp add: judged_def judgeExtension_def verdictAttempt_def Let_def)
    then show thesis
      by (rule that [of "verdictAttempt a ?v", rotated]) (simp_all add: judge_def Extending Let_def afterVerdict_upd)
  qed (use assms in auto)
qed

lemma confirmed_fenced:
  assumes "publishedOk \<sigma>" and "lsAttempts \<sigma> i = Some a" and "laPhase a = Publishing t"
    and "quorum (length (lsNodes \<sigma>)) \<le> length (confirmedNodes (length (lsNodes \<sigma>)) (laResults a))"
  shows "quorum (length (lsNodes \<sigma>)) \<le> card (fencedNodes t \<sigma>)"
proof -
  let ?N = "length (lsNodes \<sigma>)"
  have "card (set (confirmedNodes ?N (laResults a))) \<le> card (fencedNodes t \<sigma>)"
    by (rule card_mono) (use publishedOkD [OF assms(1-3)] in \<open>auto simp: confirmedNodes_def\<close>)
  moreover have "distinct (confirmedNodes ?N (laResults a))" by (simp add: confirmedNodes_def)
  ultimately show ?thesis using assms(4) by (simp add: distinct_card)
qed

lemma foldl_max_ge: "(m :: int) \<le> foldl max m xs"
proof (induction xs arbitrary: m)
  case (Cons y ys)
  from Cons [of "max m y"] show ?case by simp
qed simp

lemma foldl_max_member: "x \<in> set xs \<Longrightarrow> x \<le> foldl max (m :: int) xs"
proof (induction xs arbitrary: m)
  case (Cons y ys)
  show ?case
  proof (cases "x = y")
    case True
    then show ?thesis using foldl_max_ge [of "max m y" ys] by simp
  qed (use Cons in simp)
qed simp

lemma drawnToken_ge:
  assumes "n \<in> set (claimedNodes N rs)" and "rs n = Some (Some v)"
  shows "v \<le> drawnToken N rs"
proof -
  have "v = answerOf rs n" using assms(2) by (simp add: answerOf_def)
  then show ?thesis unfolding drawnToken_def using assms(1) by (intro foldl_max_member) auto
qed

lemma publishedOk_same:
  assumes "publishedOk \<sigma>" and up: "fencesUp \<sigma> \<sigma>'" and "lsAttempts \<sigma>' = lsAttempts \<sigma>"
  shows "publishedOk \<sigma>'"
  unfolding publishedOk_def
proof (intro allI impI)
  fix i a t n assume "lsAttempts \<sigma>' i = Some a" "laPhase a = Publishing t" "laResults a n = Some (Some 1)"
    "n < length (lsNodes \<sigma>')"
  then have "n \<in> fencedNodes t \<sigma>" using publishedOkD [OF assms(1)] assms(3) up by (simp add: fencesUp_def)
  then show "n \<in> fencedNodes t \<sigma>'" using fencedNodes_mono [OF up] by blast
qed

lemma answered_command:
  assumes inv: "lockInv \<sigma>" and msg: "(i, laCall a, n, cmd) \<in> lsSent \<sigma>" and a: "lsAttempts \<sigma> i = Some a"
    and none: "laResults a n = None"
  shows "phaseCommand a cmd" and "n < length (lsNodes \<sigma>)"
  using sentOkD [OF lockInvD(2) [OF inv] msg] a none by (metis option.inject)+

lemma lockStep_published:
  assumes "lockStep opts \<sigma> \<sigma>'" and inv: "lockInv \<sigma>" and pub: "publishedOk \<sigma>"
  shows "publishedOk \<sigma>'"
  using assms(1)
proof cases
  case (answered i c n cmd v \<sigma>1 a)
  note f = execute_on_fields [OF answered(3)] and up = lockStep_fences [OF assms(1)]
  show ?thesis
  proof (rule publishedOk_upd [OF pub up, of i "a\<lparr>laResults := (laResults a)(n \<mapsto> Some v)\<rparr>"])
    show "lsAttempts \<sigma>' = (lsAttempts \<sigma>)(i \<mapsto> a\<lparr>laResults := (laResults a)(n \<mapsto> Some v)\<rparr>)"
      using answered(1) f(2) by (simp add: recordAnswer_def)
    fix t m assume p: "laPhase (a\<lparr>laResults := (laResults a)(n \<mapsto> Some v)\<rparr>) = Publishing t"
      and r: "laResults (a\<lparr>laResults := (laResults a)(n \<mapsto> Some v)\<rparr>) m = Some (Some 1)" and m: "m < length (lsNodes \<sigma>)"
    show "m \<in> fencedNodes t \<sigma>'"
    proof (cases "m = n")
      case True
      have "phaseCommand a cmd" by (rule answered_command(1) [OF inv _ answered(4,6)]) (use answered in simp)
      with p have "cmd = CmdBump t" by (simp add: phaseCommand_def)
      then show ?thesis using True m f(3,6) answered(1) by (simp add: fencedNodes_def recordAnswer_def redlockBumpFence_def)
    next
      case False
      then show ?thesis using publishedOkD [OF pub answered(4), of t m] p r m fencedNodes_mono [OF up] by auto
    qed
  qed
next
  case (decided i a now')
  obtain a' where a': "lsAttempts (judge opts now' i a \<sigma>) = (lsAttempts \<sigma>)(i \<mapsto> a')" "judged opts \<sigma> a a'"
    by (rule judge_shape [OF decided(4)])
  show ?thesis
    by (rule publishedOk_upd [OF pub lockStep_fences [OF assms(1)]]) (use a' decided(1) in \<open>auto simp: judged_def\<close>)
next
  case (timed_out i a n)
  show ?thesis
    by (rule publishedOk_upd [OF pub lockStep_fences [OF assms(1)], of i "a\<lparr>laResults := (laResults a)(n \<mapsto> None)\<rparr>"])
      (use timed_out publishedOkD [OF pub timed_out(2)] in \<open>auto simp: recordAnswer_def fencedNodes_def split: if_splits\<close>)
next
  case (attempt i v ttlMs k)
  show ?thesis
    by (rule publishedOk_upd [OF pub lockStep_fences [OF assms(1)]])
      (use attempt(1) in \<open>auto simp: beginAttempt_def onEveryNode_upd\<close>)
next
  case (extend i a token e)
  show ?thesis
    by (rule publishedOk_upd [OF pub lockStep_fences [OF assms(1)]])
      (use extend(1) in \<open>auto simp: beginExtension_def onEveryNode_upd\<close>)
next
  case (release i a token e)
  show ?thesis
    by (rule publishedOk_upd [OF pub lockStep_fences [OF assms(1)]])
      (use release(1) in \<open>auto simp: releaseEverywhere_def onEveryNode_upd\<close>)
qed (use publishedOk_same [OF pub lockStep_fences [OF assms(1)]] execute_on_fields(2) in auto)


lemma lockStep_grants:
  "lockStep opts \<sigma> \<sigma>' \<Longrightarrow> lsGranted \<sigma>' = lsGranted \<sigma> \<or>
     (\<exists>i a t. lsAttempts \<sigma> i = Some a \<and> laPhase a = Publishing t \<and> lsGranted \<sigma>' = t # lsGranted \<sigma>
        \<and> quorum (length (lsNodes \<sigma>)) \<le> length (confirmedNodes (length (lsNodes \<sigma>)) (laResults a)))"
proof (induction rule: lockStep.induct)
  case (answered i c n cmd \<sigma> v \<sigma>' a)
  then show ?case using execute_on_fields(5) [OF answered(2)] by (simp add: recordAnswer_def)
next
  case (answer_lost i c n cmd \<sigma> v \<sigma>')
  then show ?case using execute_on_fields(5) [OF answer_lost(2)] by simp
next
  case (decided \<sigma> i a now')
  then show ?case using judge_shape [OF decided(3)] by metis
qed (simp_all add: beginAttempt_def onEveryNode_upd recordAnswer_def beginExtension_def releaseEverywhere_def)

lemma lockStep_granted:
  assumes step: "lockStep opts \<sigma> \<sigma>'" and pub: "publishedOk \<sigma>" and granted: "grantedOk \<sigma>"
  shows "grantedOk \<sigma>'"
proof -
  note up = lockStep_fences [OF step]
  have keep: "quorum (length (lsNodes \<sigma>')) \<le> card (fencedNodes t \<sigma>')" if "t \<in> set (lsGranted \<sigma>)" for t
    using quorum_fenced_mono [OF up] granted that by (simp add: grantedOk_def)
  from lockStep_grants [OF step] show ?thesis
  proof (elim disjE exE conjE)
    fix i a t assume t: "lsAttempts \<sigma> i = Some a" "laPhase a = Publishing t" "lsGranted \<sigma>' = t # lsGranted \<sigma>"
      "quorum (length (lsNodes \<sigma>)) \<le> length (confirmedNodes (length (lsNodes \<sigma>)) (laResults a))"
    have "quorum (length (lsNodes \<sigma>')) \<le> card (fencedNodes t \<sigma>')"
      by (rule quorum_fenced_mono [OF up confirmed_fenced [OF pub t(1,2,4)]])
    then show ?thesis using keep t(3) by (simp add: grantedOk_def)
  qed (use keep in \<open>simp add: grantedOk_def\<close>)
qed

lemma outdraws_mono:
  assumes up: "fencesUp \<sigma> \<sigma>'" and out: "outdraws t a \<sigma>" and phase: "laPhase a' = laPhase a"
    and res: "\<And>n. laPhase a = Claiming \<Longrightarrow> n \<in> exceedingNodes t a \<sigma> \<Longrightarrow> n \<in> exceedingNodes t a' \<sigma>'"
  shows "outdraws t a' \<sigma>'"
proof (cases "laPhase a = Claiming")
  case True
  have "card (exceedingNodes t a \<sigma>) \<le> card (exceedingNodes t a' \<sigma>')"
    by (rule card_mono) (use res True in auto)
  then show ?thesis using out True phase up by (simp add: outdraws_def fencesUp_def)
next
  case False
  then show ?thesis using out phase by (simp add: outdraws_def split: lockPhase.splits)
qed

lemma exceeding_same:
  assumes "fencesUp \<sigma> \<sigma>'" and "n \<in> exceedingNodes t a \<sigma>" and "laResults a' n = laResults a n \<or> laResults a' n = Some None"
  shows "n \<in> exceedingNodes t a' \<sigma>'"
  using assms fencedNodes_mono [OF assms(1)] by (auto simp: exceedingNodes_def)

lemma claimed_outdraws:
  assumes out: "outdraws t a \<sigma>" and phase: "laPhase a = Claiming"
    and votes: "quorum (length (lsNodes \<sigma>)) \<le> length (claimedNodes (length (lsNodes \<sigma>)) (laResults a))"
  shows "t < nat (drawnToken (length (lsNodes \<sigma>)) (laResults a))"
proof -
  let ?N = "length (lsNodes \<sigma>)"
  have "distinct (claimedNodes ?N (laResults a))" by (simp add: claimedNodes_def)
  then have "quorum ?N \<le> card (set (claimedNodes ?N (laResults a)))" using votes by (simp add: distinct_card)
  moreover have "quorum ?N \<le> card (exceedingNodes t a \<sigma>)" using out phase by (simp add: outdraws_def)
  ultimately have "set (claimedNodes ?N (laResults a)) \<inter> exceedingNodes t a \<sigma> \<noteq> {}"
    by (rule quorums_meet) (auto simp: claimedNodes_def exceedingNodes_def fencedNodes_def)
  then obtain n where n: "n \<in> set (claimedNodes ?N (laResults a))" "n \<in> exceedingNodes t a \<sigma>" by blast
  then obtain v where v: "laResults a n = Some (Some v)" "0 < v" by (auto simp: claimedNodes_def split: option.splits)
  then have "int t < v" using n(2) by (auto simp: exceedingNodes_def)
  with drawnToken_ge [OF n(1) v(1)] show ?thesis by simp
qed


text \<open>One attempt keeps ahead of a token that was granted before it began.\<close>

definition aheadOf :: "nat \<Rightarrow> nat \<Rightarrow> lockSystem \<Rightarrow> bool" where
  "aheadOf t i \<sigma> \<longleftrightarrow> quorum (length (lsNodes \<sigma>)) \<le> card (fencedNodes t \<sigma>)
     \<and> (\<forall>a. lsAttempts \<sigma> i = Some a \<longrightarrow> outdraws t a \<sigma>)"

lemma aheadOf_other:
  assumes ahead: "aheadOf t i \<sigma>" and up: "fencesUp \<sigma> \<sigma>'" and same: "lsAttempts \<sigma>' i = lsAttempts \<sigma> i"
  shows "aheadOf t i \<sigma>'"
proof -
  have "outdraws t a \<sigma>'" if "lsAttempts \<sigma>' i = Some a" for a
    by (rule outdraws_mono [OF up, of t a]) (use ahead same that exceeding_same [OF up] in \<open>auto simp: aheadOf_def\<close>)
  then show ?thesis using quorum_fenced_mono [OF up] ahead by (simp add: aheadOf_def)
qed

lemma aheadOf_upd:
  assumes ahead: "aheadOf t i \<sigma>" and up: "fencesUp \<sigma> \<sigma>'" and upd: "lsAttempts \<sigma>' = (lsAttempts \<sigma>)(j \<mapsto> a')"
    and own: "j = i \<Longrightarrow> outdraws t a' \<sigma>'"
  shows "aheadOf t i \<sigma>'"
proof (cases "j = i")
  case True
  then show ?thesis using own upd quorum_fenced_mono [OF up] ahead by (simp add: aheadOf_def)
qed (rule aheadOf_other [OF ahead up], use upd in simp)

lemma answered_exceeds:
  assumes inv: "lockInv \<sigma>" and msg: "(i, laCall a, n, cmd) \<in> lsSent \<sigma>" and run: "execute_on i (laCall a) n cmd \<sigma> = (v, \<sigma>1)"
    and a: "lsAttempts \<sigma> i = Some a" and none: "laResults a n = None" and out: "outdraws t a \<sigma>"
    and up: "fencesUp \<sigma> \<sigma>'"
  shows "outdraws t (a\<lparr>laResults := (laResults a)(n \<mapsto> Some v)\<rparr>) \<sigma>'"
proof (rule outdraws_mono [OF up out])
  note f = execute_on_fields [OF run]
  fix m assume claiming: "laPhase a = Claiming" and m: "m \<in> exceedingNodes t a \<sigma>"
  show "m \<in> exceedingNodes t (a\<lparr>laResults := (laResults a)(n \<mapsto> Some v)\<rparr>) \<sigma>'"
  proof (cases "m = n")
    case True
    have "cmd = CmdAcquire (laKey a) (laValue a) (laTtl a)"
      using answered_command(1) [OF inv msg a none] claiming by (simp add: phaseCommand_def)
    then have "0 < v \<Longrightarrow> v = int (Suc (rnFence (lsNodes \<sigma> ! n)))"
      using f(7) by (auto simp: redlockAcquire_def split: option.splits)
    moreover have "t \<le> rnFence (lsNodes \<sigma> ! n)" using m True by (simp add: exceedingNodes_def fencedNodes_def)
    moreover have "m \<in> fencedNodes t \<sigma>'" using m fencedNodes_mono [OF up] by (auto simp: exceedingNodes_def)
    ultimately show ?thesis using True by (auto simp: exceedingNodes_def)
  qed (use exceeding_same [OF up m] in simp)
qed simp

lemma judged_outdraws:
  assumes "judged opts \<sigma> a a'" and "outdraws t a \<sigma>"
  shows "outdraws t a' \<sigma>'"
  using assms claimed_outdraws [OF assms(2)] by (auto simp: judged_def outdraws_def)

lemma lockStep_ahead:
  assumes step: "lockStep opts \<sigma> \<sigma>'" and inv: "lockInv \<sigma>" and ahead: "aheadOf t i \<sigma>"
  shows "aheadOf t i \<sigma>'"
  using step
proof cases
  note up = lockStep_fences [OF step]
  {
    case (tick d)
    show ?thesis by (rule aheadOf_other [OF ahead up]) (use tick in simp)
  next
    case (attempt j v ttlMs k)
    show ?thesis
    proof (rule aheadOf_upd [OF ahead up])
      have "exceedingNodes t (a\<lparr>laResults := Map.empty\<rparr>) \<sigma>' = fencedNodes t \<sigma>'" for a by (auto simp: exceedingNodes_def)
      then show "outdraws t (\<lparr>laKey = lockKeyOf opts k, laValue = v, laTtl = ttlMs, laStart = lsNow \<sigma>, laPhase = Claiming,
          laCall = 0, laResults = Map.empty\<rparr>\<lparr>laCall := Suc 0, laResults := Map.empty\<rparr>) \<sigma>'"
        using quorum_fenced_mono [OF up] ahead by (simp add: outdraws_def aheadOf_def exceedingNodes_def)
    qed (simp add: attempt(1) beginAttempt_def onEveryNode_upd)
  next
    case (answered j c n cmd v \<sigma>1 a)
    show ?thesis
    proof (rule aheadOf_upd [OF ahead up])
      show "lsAttempts \<sigma>' = (lsAttempts \<sigma>)(j \<mapsto> a\<lparr>laResults := (laResults a)(n \<mapsto> Some v)\<rparr>)"
        using answered(1) execute_on_fields(2) [OF answered(3)] by (simp add: recordAnswer_def)
      show "outdraws t (a\<lparr>laResults := (laResults a)(n \<mapsto> Some v)\<rparr>) \<sigma>'" if "j = i"
        by (rule answered_exceeds [OF inv _ _ answered(4,6) _ up]) (use answered that ahead in \<open>auto simp: aheadOf_def\<close>)
    qed
  next
    case (answer_lost j c n cmd v)
    show ?thesis by (rule aheadOf_other [OF ahead up]) (simp add: execute_on_fields(2) [OF answer_lost(2)])
  next
    case (command_lost m)
    show ?thesis by (rule aheadOf_other [OF ahead up]) (use command_lost in simp)
  next
    case (timed_out j a n)
    show ?thesis
    proof (rule aheadOf_upd [OF ahead up])
      show "outdraws t (a\<lparr>laResults := (laResults a)(n \<mapsto> None)\<rparr>) \<sigma>'" if "j = i"
        by (rule outdraws_mono [OF up, of t a])
          (use timed_out(2) that ahead exceeding_same [OF up] in \<open>auto simp: aheadOf_def\<close>)
    qed (simp add: timed_out(1) recordAnswer_def)
  next
    case (decided j a now')
    obtain a' where a': "lsAttempts (judge opts now' j a \<sigma>) = (lsAttempts \<sigma>)(j \<mapsto> a')" "judged opts \<sigma> a a'"
      by (rule judge_shape [OF decided(4)])
    show ?thesis
      by (rule aheadOf_upd [OF ahead up]) (use a' decided(1,2) ahead in \<open>auto simp: aheadOf_def intro: judged_outdraws\<close>)
  next
    case (extend j a token e)
    show ?thesis
      by (rule aheadOf_upd [OF ahead up])
        (use extend ahead in \<open>auto simp: aheadOf_def outdraws_def beginExtension_def onEveryNode_upd\<close>)
  next
    case (release j a token e)
    show ?thesis
      by (rule aheadOf_upd [OF ahead up]) (use release in \<open>auto simp: outdraws_def releaseEverywhere_def onEveryNode_upd\<close>)
  }
qed

lemma lockRun_ahead: "lockRun opts \<sigma> \<sigma>' \<Longrightarrow> lockInv \<sigma> \<Longrightarrow> aheadOf t i \<sigma> \<Longrightarrow> aheadOf t i \<sigma>'"
  by (induction rule: rtranclp_induct) (auto intro: lockStep_ahead lockRun_inv)

lemma lockRun_granted:
  "lockRun opts \<sigma> \<sigma>' \<Longrightarrow> lockInv \<sigma> \<Longrightarrow> publishedOk \<sigma> \<Longrightarrow> grantedOk \<sigma> \<Longrightarrow> publishedOk \<sigma>' \<and> grantedOk \<sigma>'"
  by (induction rule: rtranclp_induct) (auto intro: lockStep_published lockStep_granted lockRun_inv)


section \<open>An undisturbed acquisition on one node\<close>

definition soloGrant :: "redlockOptions \<Rightarrow> nat \<Rightarrow> string \<Rightarrow> string \<Rightarrow> nat \<Rightarrow> lockSystem \<Rightarrow> lockAttempt" where
  "soloGrant opts i k v ttlMs \<sigma> = \<lparr>laKey = lockKeyOf opts k, laValue = v, laTtl = ttlMs, laStart = lsNow \<sigma>,
     laPhase = Held (Suc (rnFence (hd (lsNodes \<sigma>)))) (lsNow \<sigma> + validityFrom opts ttlMs (lsNow \<sigma>) (lsNow \<sigma>)),
     laCall = 2, laResults = [0 \<mapsto> Some 1]\<rparr>"

lemma soloAcquire:
  assumes node: "lsNodes \<sigma> = [node]" and new: "lsAttempts \<sigma> i = None"
    and fresh: "\<forall>j b. lsAttempts \<sigma> j = Some b \<longrightarrow> laValue b \<noteq> v" and ttl: "0 < ttlMs"
    and free: "liveValue (lsNow \<sigma>) (lockKeyOf opts k) node = None" and drift: "0 \<le> driftOf opts ttlMs"
    and valid: "0 < validityFrom opts ttlMs (lsNow \<sigma>) (lsNow \<sigma>)" and small: "int (Suc (rnFence node)) \<le> lockMaxSafe"
  obtains \<sigma>' where "lockRun opts \<sigma> \<sigma>'" and "lsNow \<sigma>' = lsNow \<sigma>"
    and "lsAttempts \<sigma>' = (lsAttempts \<sigma>)(i \<mapsto> soloGrant opts i k v ttlMs \<sigma>)"
    and "lsGranted \<sigma>' = Suc (rnFence node) # lsGranted \<sigma>"
    and "lsNodes \<sigma>' = [node\<lparr>rnKeys := (rnKeys node)(lockKeyOf opts k \<mapsto> (v, lsNow \<sigma> + of_nat ttlMs)), rnFence := Suc (rnFence node)\<rparr>]"
proof -
  let ?lk = "lockKeyOf opts k" and ?tok = "Suc (rnFence node)"
  let ?acq = "CmdAcquire ?lk v ttlMs" and ?node' = "node\<lparr>rnKeys := (rnKeys node)(?lk \<mapsto> (v, lsNow \<sigma> + of_nat ttlMs)), rnFence := ?tok\<rparr>"
  define a where "a = \<lparr>laKey = ?lk, laValue = v, laTtl = ttlMs, laStart = lsNow \<sigma>, laPhase = Claiming,
    laCall = 1, laResults = Map.empty\<rparr>"
  define s1 where "s1 = beginAttempt opts i k v ttlMs \<sigma>"
  have s1: "lsNow s1 = lsNow \<sigma>" "lsNodes s1 = [node]" "lsAttempts s1 = (lsAttempts \<sigma>)(i \<mapsto> a)" "lsGranted s1 = lsGranted \<sigma>"
    "(i, 1, 0, ?acq) \<in> lsSent s1"
    using node by (simp_all add: s1_def a_def beginAttempt_def onEveryNode_def)
  define a2 where "a2 = a\<lparr>laResults := [0 \<mapsto> Some (int ?tok)]\<rparr>"
  define s2 where "s2 = recordAnswer i 0 (Some (int ?tok)) a (snd (execute_on i 1 0 ?acq s1))"
  have ex1: "execute_on i 1 0 ?acq s1 = (int ?tok, snd (execute_on i 1 0 ?acq s1))"
    using s1 free by (simp add: execute_on_def redlockAcquire_def)
  have s2: "lsNow s2 = lsNow \<sigma>" "lsNodes s2 = [?node']" "lsAttempts s2 = (lsAttempts \<sigma>)(i \<mapsto> a2)" "lsGranted s2 = lsGranted \<sigma>"
    using s1 free by (simp_all add: s2_def a2_def a_def recordAnswer_def execute_on_def redlockAcquire_def)
  have tok: "judgeVotes opts 1 ttlMs (lsNow \<sigma>) (lsNow \<sigma>) (laResults a2) = Publishing ?tok"
    using valid small by (simp add: judgeVotes_def claimedNodes_def quorum_def drawnToken_def answerOf_def a2_def)
  define s3 where "s3 = judge opts (lsNow \<sigma>) i a2 s2"
  define a3 where "a3 = a2\<lparr>laPhase := Publishing ?tok, laCall := 2, laResults := Map.empty\<rparr>"
  have s3: "lsNow s3 = lsNow \<sigma>" "lsNodes s3 = [?node']" "lsAttempts s3 = (lsAttempts \<sigma>)(i \<mapsto> a3)" "lsGranted s3 = lsGranted \<sigma>"
    "(i, 2, 0, CmdBump ?tok) \<in> lsSent s3"
    using s2 tok
    by (simp_all add: s3_def a3_def judge_def a2_def a_def Let_def afterVerdict_def onEveryNode_def numeral_2_eq_2)
  define a4 where "a4 = a3\<lparr>laResults := [0 \<mapsto> Some 1]\<rparr>"
  define s4 where "s4 = recordAnswer i 0 (Some 1) a3 (snd (execute_on i 2 0 (CmdBump ?tok) s3))"
  have ex3: "execute_on i 2 0 (CmdBump ?tok) s3 = (1, snd (execute_on i 2 0 (CmdBump ?tok) s3))"
    using s3 by (simp add: execute_on_def redlockBumpFence_def)
  have s4: "lsNow s4 = lsNow \<sigma>" "lsNodes s4 = [?node']" "lsAttempts s4 = (lsAttempts \<sigma>)(i \<mapsto> a4)" "lsGranted s4 = lsGranted \<sigma>"
    using s3 by (simp_all add: s4_def a4_def a3_def recordAnswer_def execute_on_def redlockBumpFence_def)
  define s5 where "s5 = judge opts (lsNow \<sigma>) i a4 s4"
  have bumps: "judgeBumps opts 1 ttlMs (lsNow \<sigma>) (lsNow \<sigma>) (lsNow \<sigma>) ?tok (laResults a4)
      = Held ?tok (lsNow \<sigma> + validityFrom opts ttlMs (lsNow \<sigma>) (lsNow \<sigma>))"
    using valid by (simp add: judgeBumps_def confirmedNodes_def quorum_def a4_def)
  have s5: "lsNow s5 = lsNow \<sigma>" "lsNodes s5 = [?node']" "lsAttempts s5 = (lsAttempts \<sigma>)(i \<mapsto> soloGrant opts i k v ttlMs \<sigma>)"
    "lsGranted s5 = ?tok # lsGranted \<sigma>"
    using s4 bumps node by (simp_all add: s5_def judge_def a4_def a3_def a2_def a_def Let_def afterVerdict_def soloGrant_def)
  have "lockStep opts \<sigma> s1" unfolding s1_def by (rule lockStep.attempt [OF new fresh ttl])
  moreover have "lockStep opts s1 s2" unfolding s2_def
    by (rule lockStep.answered [OF s1(5) ex1]) (simp_all add: s1 a_def)
  moreover have "lockStep opts s2 s3" unfolding s3_def
    by (rule lockStep.decided) (use drift s2 in \<open>simp_all add: allSettled_def a2_def a_def\<close>)
  moreover have "lockStep opts s3 s4" unfolding s4_def
    by (rule lockStep.answered [OF s3(5) ex3]) (simp_all add: s3 a3_def)
  moreover have "lockStep opts s4 s5" unfolding s5_def
    by (rule lockStep.decided) (use drift s4 in \<open>simp_all add: allSettled_def a4_def a3_def a2_def a_def\<close>)
  ultimately have "lockRun opts \<sigma> s5" by (meson rtranclp.rtrancl_into_rtrancl rtranclp.rtrancl_refl)
  then show thesis by (rule that) (use s5 in simp_all)
qed


definition sampleRedlock :: redlockOptions where
  "sampleRedlock = \<lparr>driftFactor = 1 / 100, driftConstantMs = 2, keyPrefix = ''redlock:lock:''\<rparr>"

definition emptyNode :: redisNode where
  "emptyNode = \<lparr>rnKeys = Map.empty, rnFence = 0\<rparr>"

lemma sample_drift: "driftOf sampleRedlock 1000 = 12"
proof -
  have "\<lfloor>(21 / 2 :: rat)\<rfloor> = 10" by (rule floor_unique) simp_all
  then show ?thesis by (simp add: driftOf_def roundHalfUp_def sampleRedlock_def)
qed

text \<open>One acquisition on one node, and a second one for another key after it.\<close>

lemma sample_grants:
  obtains \<sigma> \<sigma>' where "lockRun sampleRedlock (freshSystem [emptyNode] 0) \<sigma>"
    and "lsAttempts \<sigma> = [0 \<mapsto> soloGrant sampleRedlock 0 ''a'' ''v0'' 1000 (freshSystem [emptyNode] 0)]"
    and "lsGranted \<sigma> = [1]" "lsNow \<sigma> = 0" and "lockRun sampleRedlock \<sigma> \<sigma>'"
    and "\<exists>a e. lsAttempts \<sigma>' 1 = Some a \<and> laPhase a = Held 2 e"
proof -
  let ?s = "freshSystem [emptyNode] 0"
  have valid: "0 < validityFrom sampleRedlock 1000 0 0" by (simp add: validityFrom_def sample_drift)
  obtain \<sigma> where s: "lockRun sampleRedlock ?s \<sigma>" "lsNow \<sigma> = lsNow ?s"
    "lsAttempts \<sigma> = (lsAttempts ?s)(0 \<mapsto> soloGrant sampleRedlock 0 ''a'' ''v0'' 1000 ?s)"
    "lsGranted \<sigma> = Suc (rnFence emptyNode) # lsGranted ?s"
    "lsNodes \<sigma> = [emptyNode\<lparr>rnKeys := (rnKeys emptyNode)(lockKeyOf sampleRedlock ''a'' \<mapsto> (''v0'', lsNow ?s + of_nat 1000)),
        rnFence := Suc (rnFence emptyNode)\<rparr>]"
    by (rule soloAcquire [of ?s emptyNode 0 "''v0''" 1000 sampleRedlock "''a''"])
      (use valid in \<open>simp_all add: freshSystem_def emptyNode_def liveValue_def sample_drift lockMaxSafe_def\<close>)
  let ?n = "emptyNode\<lparr>rnKeys := (rnKeys emptyNode)(lockKeyOf sampleRedlock ''a'' \<mapsto> (''v0'', lsNow ?s + of_nat 1000)),
        rnFence := Suc (rnFence emptyNode)\<rparr>"
  obtain \<sigma>' where s': "lockRun sampleRedlock \<sigma> \<sigma>'"
    "lsAttempts \<sigma>' = (lsAttempts \<sigma>)(1 \<mapsto> soloGrant sampleRedlock 1 ''b'' ''v1'' 1000 \<sigma>)"
    by (rule soloAcquire [of \<sigma> ?n 1 "''v1''" 1000 sampleRedlock "''b''"])
      (use s valid in \<open>simp_all add: freshSystem_def emptyNode_def liveValue_def sample_drift lockMaxSafe_def soloGrant_def
          lockKeyOf_def\<close>)
  show thesis
    by (rule that [OF s(1) _ _ _ s'(1)])
      (use s s'(2) in \<open>simp_all add: freshSystem_def emptyNode_def soloGrant_def\<close>)
qed



text \<open>
  C9. Fencing tokens increase: an acquisition that begins after a token was granted, for whatever
  key, draws a larger token, even when its quorum is made of nodes that refused the earlier one.
\<close>

theorem redlock_tokens_increase:
  assumes "lockRun opts (freshSystem nodes t0) \<sigma>" and "t \<in> set (lsGranted \<sigma>)" and "lsAttempts \<sigma> i = None"
    and "lockRun opts \<sigma> \<sigma>'" and "lsAttempts \<sigma>' i = Some a" and "laPhase a = Held t' e \<or> laPhase a = Extending t' e"
  shows "t < t'"
proof -
  have inv: "lockInv \<sigma>" by (rule lockRun_inv [OF assms(1) freshSystem_inv])
  have "grantedOk \<sigma>"
    using lockRun_granted [OF assms(1) freshSystem_inv]
    by (simp add: publishedOk_def grantedOk_def freshSystem_def)
  then have "aheadOf t i \<sigma>" using assms(2,3) by (simp add: aheadOf_def grantedOk_def)
  then have "aheadOf t i \<sigma>'" by (rule lockRun_ahead [OF assms(4) inv])
  then have "outdraws t a \<sigma>'" using assms(5) by (simp add: aheadOf_def)
  then show ?thesis using assms(6) by (auto simp: outdraws_def)
qed

theorem redlock_tokens_increase_witness:
  "\<exists>\<sigma> \<sigma>' a e. lockRun sampleRedlock (freshSystem [emptyNode] 0) \<sigma> \<and> lsGranted \<sigma> = [1] \<and> lockRun sampleRedlock \<sigma> \<sigma>'
     \<and> lsAttempts \<sigma>' 1 = Some a \<and> laPhase a = Held 2 e \<and> (1 :: nat) < 2"
proof -
  obtain \<sigma> \<sigma>' where s: "lockRun sampleRedlock (freshSystem [emptyNode] 0) \<sigma>"
    "lsAttempts \<sigma> = [0 \<mapsto> soloGrant sampleRedlock 0 ''a'' ''v0'' 1000 (freshSystem [emptyNode] 0)]"
    "lsGranted \<sigma> = [1]" "lockRun sampleRedlock \<sigma> \<sigma>'" "\<exists>a e. lsAttempts \<sigma>' 1 = Some a \<and> laPhase a = Held 2 e"
    by (rule sample_grants)
  then obtain a e where a: "lsAttempts \<sigma>' 1 = Some a" "laPhase a = Held 2 e" by blast
  have "(1 :: nat) < 2"
    by (rule redlock_tokens_increase [OF s(1) _ _ s(4) a(1), of 1 2 e]) (use s(2,3) a(2) in simp_all)
  with s a show ?thesis by blast
qed

end
