(* ===== verification/Locks.thy ===== *)
theory Locks
  imports Redlock
begin

text \<open>
  The rest of \<open>src/common/locking\<close>: the retry loop of \<open>acquire\<close>, the in-process lock of
  \<open>in-memory-distributed-lock.ts\<close>, the handle of \<open>redlock.service.ts\<close> as its holder sees it, and
  \<open>withLock\<close> of \<open>lock-session.ts\<close>, written once over the port both locks implement. The contract
  the session relies on is a locale; the in-process lock meets it and the Redlock handle does not.
\<close>

section \<open>Waiting for a lock\<close>

datatype 'h acquireResult = Acquired 'h | GaveUp | StillWaiting

text \<open>
  One round of \<open>acquire\<close>: what the attempt answered, the clock after it, and the jitter drawn. The
  result carries the sleeps taken.
\<close>

fun acquireLoop :: "rat \<Rightarrow> rat \<Rightarrow> ('h option \<times> rat \<times> rat) list \<Rightarrow> rat list \<times> 'h acquireResult" where
  "acquireLoop deadline retryDelayMs [] = ([], StillWaiting)"
| "acquireLoop deadline retryDelayMs ((handle, now, random) # rounds) =
     (case handle of
        Some h \<Rightarrow> ([], Acquired h)
      | None \<Rightarrow>
          (let remaining = deadline - now in
           if remaining \<le> 0 then ([], GaveUp)
           else let (sleeps, r) = acquireLoop deadline retryDelayMs rounds
                in (min remaining (of_int (roundHalfUp (retryDelayMs * random))) # sleeps, r)))"

text \<open>Each round starts no earlier than the sleep before it ended.\<close>

fun timely :: "rat \<Rightarrow> rat list \<Rightarrow> ('h option \<times> rat \<times> rat) list \<Rightarrow> bool" where
  "timely t sleeps [] = True"
| "timely t [] ((h, now, u) # rounds) = (t \<le> now)"
| "timely t (s # sleeps) ((h, now, u) # rounds) = (t \<le> now \<and> timely (now + s) sleeps rounds)"

section \<open>The in-process lock\<close>

text \<open>
  Entries are objects shared between the map and the handles, so they live in a heap; an entry is
  named by its fencing token.
\<close>

record memLock =
  mlEntries :: "string \<rightharpoonup> nat"
  mlHeap :: "nat \<rightharpoonup> rat"
  mlCounter :: nat

definition expiresAt :: "memLock \<Rightarrow> nat \<Rightarrow> rat" where
  "expiresAt m t = (case mlHeap m t of Some x \<Rightarrow> x | None \<Rightarrow> 0)"

definition memClaimLock :: "string \<Rightarrow> nat \<Rightarrow> rat \<Rightarrow> memLock \<Rightarrow> nat option \<times> memLock" where
  "memClaimLock k ttlMs now m =
     (if (case mlEntries m k of Some t \<Rightarrow> now < expiresAt m t | None \<Rightarrow> False) then (None, m)
      else let t = Suc (mlCounter m)
           in (Some t, m\<lparr>mlCounter := t, mlHeap := (mlHeap m)(t \<mapsto> now + of_nat ttlMs),
                        mlEntries := (mlEntries m)(k \<mapsto> t)\<rparr>))"

definition memHolds :: "string \<Rightarrow> nat \<Rightarrow> rat \<Rightarrow> memLock \<Rightarrow> bool" where
  "memHolds k t now m \<longleftrightarrow> mlEntries m k = Some t \<and> now < expiresAt m t"

definition memExtendLock :: "string \<Rightarrow> nat \<Rightarrow> rat \<Rightarrow> rat \<Rightarrow> memLock \<Rightarrow> bool \<times> memLock" where
  "memExtendLock k t extendMs now m =
     (if \<not> memHolds k t now m then (False, m) else (True, m\<lparr>mlHeap := (mlHeap m)(t \<mapsto> now + extendMs)\<rparr>))"

definition memReleaseLock :: "string \<Rightarrow> nat \<Rightarrow> rat \<Rightarrow> memLock \<Rightarrow> bool \<times> memLock" where
  "memReleaseLock k t now m =
     (if \<not> memHolds k t now m then (False, m) else (True, m\<lparr>mlEntries := (mlEntries m)(k := None)\<rparr>))"

definition memRemaining :: "nat \<Rightarrow> rat \<Rightarrow> memLock \<Rightarrow> rat" where
  "memRemaining t now m = max 0 (expiresAt m t - now)"

section \<open>The Redlock handle\<close>

record redlockHandle =
  rhToken :: nat
  rhExpiry :: rat
  rhLive :: bool

definition handleRemaining :: "rat \<Rightarrow> redlockHandle \<Rightarrow> rat" where
  "handleRemaining now h = max 0 (rhExpiry h - now)"

text \<open>\<open>validity\<close> is what \<open>extendEverywhere\<close> resolved, \<open>released\<close> what \<open>releaseEverywhere\<close> counted.\<close>

definition handleExtend :: "rat option \<Rightarrow> rat \<Rightarrow> redlockHandle \<Rightarrow> bool \<times> redlockHandle" where
  "handleExtend validity now h =
     (if \<not> rhLive h then (False, h)
      else case validity of
        None \<Rightarrow> (False, h\<lparr>rhLive := False, rhExpiry := now\<rparr>)
      | Some v \<Rightarrow> (True, h\<lparr>rhExpiry := now + v\<rparr>))"

definition handleRelease :: "nat \<Rightarrow> nat \<Rightarrow> rat \<Rightarrow> redlockHandle \<Rightarrow> bool \<times> redlockHandle" where
  "handleRelease nodes released now h =
     (if \<not> rhLive h then (False, h)
      else (quorum nodes \<le> released, h\<lparr>rhLive := False, rhExpiry := now\<rparr>))"

section \<open>The session\<close>

text \<open>The lock and its one handle as \<open>withLock\<close> sees them; a rejected release is \<open>None\<close>.\<close>

record 's lockPort =
  lpAcquire :: "'s \<Rightarrow> bool \<times> 's"
  lpExtend :: "nat \<Rightarrow> 's \<Rightarrow> bool \<times> 's"
  lpRelease :: "'s \<Rightarrow> bool option \<times> 's"
  lpRemaining :: "'s \<Rightarrow> rat"
  lpClock :: "'s \<Rightarrow> rat"
  lpToken :: "'s \<Rightarrow> nat"

record withLockOptions =
  woKey :: string
  woTtlMs :: nat
  woWaitMs :: rat
  woRenew :: bool
  woMaxHoldMs :: "rat option"

datatype 'e lockFailure = LockNotAcquiredError string rat | OperationError 'e | LockLostError string nat int

text \<open>
  The renewal loop wakes \<open>wakes\<close> times before the operation settles; \<open>sleep k\<close> is what happens to the
  world before the wake-up that leaves \<open>k\<close> more.
\<close>

fun renewLoop :: "'s lockPort \<Rightarrow> withLockOptions \<Rightarrow> rat \<Rightarrow> (nat \<Rightarrow> 's \<Rightarrow> 's) \<Rightarrow> nat \<Rightarrow> 's \<Rightarrow> bool \<times> 's" where
  "renewLoop port opts startedAt sleep 0 s = (False, s)"
| "renewLoop port opts startedAt sleep (Suc k) s =
     (let s1 = sleep k s in
      if (case woMaxHoldMs opts of Some held \<Rightarrow> held \<le> lpClock port s1 - startedAt | None \<Rightarrow> False) then (False, s1)
      else case lpExtend port (woTtlMs opts) s1 of
        (False, s2) \<Rightarrow> (True, s2)
      | (True, s2) \<Rightarrow> renewLoop port opts startedAt sleep k s2)"

definition startRenewal :: "'s lockPort \<Rightarrow> withLockOptions \<Rightarrow> (nat \<Rightarrow> 's \<Rightarrow> 's) \<Rightarrow> nat \<Rightarrow> 's \<Rightarrow> bool \<times> 's" where
  "startRenewal port opts sleep wakes s =
     (if \<not> woRenew opts then (False, s) else renewLoop port opts (lpClock port s) sleep wakes s)"

definition stopSession :: "'s lockPort \<Rightarrow> 's \<Rightarrow> 's" where
  "stopSession port s = (case lpRelease port s of (Some released, s') \<Rightarrow> s' | (None, s') \<Rightarrow> s')"

definition withLock :: "'s lockPort \<Rightarrow> withLockOptions \<Rightarrow> (nat \<Rightarrow> 's \<Rightarrow> 's) \<Rightarrow> nat \<Rightarrow> ('s \<Rightarrow> ('e + 'r) \<times> 's)
    \<Rightarrow> 's \<Rightarrow> ('e lockFailure + 'r) \<times> 's" where
  "withLock port opts sleep wakes operation s =
     (case lpAcquire port s of
        (False, s1) \<Rightarrow> (Inl (LockNotAcquiredError (woKey opts) (woWaitMs opts)), s1)
      | (True, s1) \<Rightarrow>
          (let acquiredAt = lpClock port s1; (renewalFailed, s2) = startRenewal port opts sleep wakes s1 in
           case operation s2 of
             (Inl e, s3) \<Rightarrow> (Inl (OperationError e), stopSession port s3)
           | (Inr result, s3) \<Rightarrow>
               (let s4 = stopSession port s3; lapsed = lpRemaining port s4 \<le> 0 in
                if renewalFailed \<or> lapsed
                then (Inl (LockLostError (woKey opts) (lpToken port s4) (roundHalfUp (lpClock port s4 - acquiredAt))), s4)
                else (Inr result, s4))))"


section \<open>Waiting stays within the budget\<close>

lemma acquireLoop_budget:
  assumes "acquireLoop deadline delay rounds = (sleeps, r)" and "timely t sleeps rounds" and "t \<le> deadline"
  shows "sum_list sleeps \<le> deadline - t"
  using assms
proof (induction rounds arbitrary: t sleeps r)
  case (Cons round rounds)
  obtain h now u where round: "round = (h, now, u)" by (cases round)
  show ?case
  proof (cases "h = None \<and> now < deadline")
    case True
    define s where "s = min (deadline - now) (of_int (roundHalfUp (delay * u)))"
    obtain rest r' where rest: "acquireLoop deadline delay rounds = (rest, r')" by fastforce
    have sl: "sleeps = s # rest" using Cons.prems(1) True rest round by (simp add: s_def Let_def)
    have "timely (now + s) rest rounds" "t \<le> now" using Cons.prems(2) round sl by simp_all
    moreover have "now + s \<le> deadline" by (simp add: s_def min_def)
    ultimately have "sum_list rest \<le> deadline - (now + s)" by (intro Cons.IH [OF rest])
    then show ?thesis using sl \<open>t \<le> now\<close> by simp
  next
    case False
    then have "sleeps = []" using Cons.prems(1) round by (auto simp: Let_def split: option.splits)
    then show ?thesis using Cons.prems(3) by simp
  qed
qed simp

lemma acquireLoop_gives_up:
  assumes "snd (acquireLoop deadline delay rounds) = GaveUp"
  shows "\<exists>round \<in> set rounds. fst round = None \<and> deadline \<le> fst (snd round)"
  using assms
  by (induction rounds) (auto simp: Let_def split: option.splits if_splits prod.splits)

lemma acquireLoop_acquires:
  assumes "snd (acquireLoop deadline delay rounds) = Acquired h"
  shows "\<exists>round \<in> set rounds. fst round = Some h"
  using assms
  by (induction rounds) (auto simp: Let_def split: option.splits if_splits prod.splits)

section \<open>The in-process lock excludes\<close>

datatype memLockOp = OpClaim string nat | OpExtend string nat rat | OpRelease string nat

fun memLockStep :: "rat \<Rightarrow> memLockOp \<Rightarrow> memLock \<Rightarrow> memLock" where
  "memLockStep now (OpClaim k ttl) m = snd (memClaimLock k ttl now m)"
| "memLockStep now (OpExtend k t ms) m = snd (memExtendLock k t ms now m)"
| "memLockStep now (OpRelease k t) m = snd (memReleaseLock k t now m)"

fun memLockRun :: "(rat \<times> memLockOp) list \<Rightarrow> memLock \<Rightarrow> memLock" where
  "memLockRun [] m = m"
| "memLockRun ((now, op) # ops) m = memLockRun ops (memLockStep now op m)"

fun opOfOther :: "nat \<Rightarrow> memLockOp \<Rightarrow> bool" where
  "opOfOther t (OpClaim k ttl) = True"
| "opOfOther t (OpExtend k t' ms) = (t' \<noteq> t)"
| "opOfOther t (OpRelease k t') = (t' \<noteq> t)"

definition memHeld :: "string \<Rightarrow> nat \<Rightarrow> rat \<Rightarrow> memLock \<Rightarrow> bool" where
  "memHeld k t x m \<longleftrightarrow> mlEntries m k = Some t \<and> mlHeap m t = Some x \<and> t \<le> mlCounter m"

lemma memLockStep_held:
  assumes "memHeld k t x m" and "now < x" and "opOfOther t op"
  shows "memHeld k t x (memLockStep now op m)"
  using assms
  by (cases op) (auto simp: memHeld_def memClaimLock_def memExtendLock_def memReleaseLock_def memHolds_def
      expiresAt_def Let_def split: option.splits)

lemma memLockRun_held:
  assumes "memHeld k t x m" and "\<forall>(now, op) \<in> set ops. now < x \<and> opOfOther t op"
  shows "memHeld k t x (memLockRun ops m)"
  using assms
proof (induction ops arbitrary: m)
  case (Cons a ops)
  obtain now op where a: "a = (now, op)" by fastforce
  have "memHeld k t x (memLockStep now op m)" by (rule memLockStep_held [OF Cons.prems(1)]) (use Cons.prems(2) a in auto)
  then show ?case using Cons.IH Cons.prems(2) a by simp
qed simp

lemma memLockStep_counter: "mlCounter m \<le> mlCounter (memLockStep now op m)"
  by (cases op) (auto simp: memClaimLock_def memExtendLock_def memReleaseLock_def Let_def)

lemma memLockRun_counter: "mlCounter m \<le> mlCounter (memLockRun ops m)"
proof (induction ops arbitrary: m)
  case (Cons a ops)
  obtain now op where "a = (now, op)" by fastforce
  then show ?case using Cons [of "memLockStep now op m"] memLockStep_counter [of m now op] by simp
qed simp

text \<open>
  C37. The in-process lock excludes: once a key is claimed, and whatever other callers claim, extend
  or release until the lease ends, the claimant still holds it and nobody else can claim it. And
  whatever is claimed, extended and released afterwards, by the claimant too and at any time, the
  next claim of any key that is granted carries a larger fencing token.
\<close>

theorem mem_lock_exclusive:
  assumes "memClaimLock k ttl now m = (Some t, m1)"
    and "\<forall>(time, op) \<in> set ops. time < now + of_nat ttl \<and> opOfOther t op" and "later < now + of_nat ttl"
  shows "memHolds k t later (memLockRun ops m1)
    \<and> memClaimLock k ttl' later (memLockRun ops m1) = (None, memLockRun ops m1)
    \<and> (\<forall>more k' ttl'' time' t'. fst (memClaimLock k' ttl'' time' (memLockRun more m1)) = Some t' \<longrightarrow> t < t')"
proof -
  have m1: "memHeld k t (now + of_nat ttl) m1"
    using assms(1) by (auto simp: memClaimLock_def memHeld_def Let_def split: if_splits)
  then have held: "memHeld k t (now + of_nat ttl) (memLockRun ops m1)" by (rule memLockRun_held [OF _ assms(2)])
  have "t \<le> mlCounter (memLockRun more m1)" for more
    using m1 memLockRun_counter [of m1 more] by (simp add: memHeld_def)
  then have "t < t'" if "fst (memClaimLock k' ttl'' time' (memLockRun more m1)) = Some t'" for more k' ttl'' time' t'
    using that by (auto simp: memClaimLock_def Let_def less_Suc_eq_le split: if_splits)
  then show ?thesis
    using held assms(3) by (simp add: memHeld_def memHolds_def memClaimLock_def expiresAt_def)
qed

theorem mem_lock_exclusive_witness:
  "let m = \<lparr>mlEntries = Map.empty, mlHeap = Map.empty, mlCounter = 0\<rparr>;
       m1 = snd (memClaimLock ''job'' 1000 0 m);
       m2 = memLockRun [(1, OpClaim ''other'' 50), (2, OpRelease ''other'' 2), (3, OpExtend ''job'' 2 9)] m1;
       m3 = memLockRun [(7, OpRelease ''job'' 1)] m1
   in memHolds ''job'' 1 999 m2 \<and> memClaimLock ''job'' 5 999 m2 = (None, m2) \<and> mlEntries m3 = Map.empty
      \<and> fst (memClaimLock ''job'' 5 8 m3) = Some 2 \<and> (1 :: nat) < 2"
proof -
  let ?m = "\<lparr>mlEntries = Map.empty, mlHeap = Map.empty, mlCounter = 0\<rparr>"
  let ?m1 = "snd (memClaimLock ''job'' 1000 0 ?m)"
  have "memClaimLock ''job'' 1000 0 ?m = (Some 1, ?m1)"
    by (simp add: memClaimLock_def Let_def)
  note excl = mem_lock_exclusive [OF this, of "[(1, OpClaim ''other'' 50), (2, OpRelease ''other'' 2), (3, OpExtend ''job'' 2 9)]" 999 5]
  have m3: "mlEntries (memLockRun [(7, OpRelease ''job'' 1)] ?m1) = Map.empty"
    "fst (memClaimLock ''job'' 5 8 (memLockRun [(7, OpRelease ''job'' 1)] ?m1)) = Some 2"
    by (simp_all add: memClaimLock_def memReleaseLock_def memHolds_def expiresAt_def Let_def)
  then have "(1 :: nat) < 2" using excl by auto
  with excl m3 show ?thesis unfolding Let_def by auto
qed

section \<open>What a session relies on\<close>

text \<open>
  The session asks the handle for its remaining time after releasing it, so it relies on the release
  leaving that answer alone.
\<close>

locale lock_session =
  fixes port :: "'s lockPort"
  assumes release_keeps: "lpRemaining port (snd (lpRelease port s)) = lpRemaining port s"
begin

lemma stop_remaining: "lpRemaining port (stopSession port s) = lpRemaining port s"
  using release_keeps [of s] by (cases "lpRelease port s"; cases "fst (lpRelease port s)") (auto simp: stopSession_def)

lemma session_returns:
  assumes "lpAcquire port s = (True, s1)" and "startRenewal port opts sleep wakes s1 = (False, s2)"
    and "operation s2 = (Inr r, s3)" and "0 < lpRemaining port s3"
  shows "withLock port opts sleep wakes operation s = (Inr r, stopSession port s3)"
  using assms by (simp add: withLock_def Let_def stop_remaining)

lemma session_honest:
  assumes "fst (withLock port opts sleep wakes operation s) = Inr r"
  shows "\<exists>s1 s2 s3. lpAcquire port s = (True, s1) \<and> startRenewal port opts sleep wakes s1 = (False, s2)
    \<and> operation s2 = (Inr r, s3) \<and> 0 < lpRemaining port s3"
  using assms
  by (auto simp: withLock_def Let_def stop_remaining not_le split: prod.splits bool.splits sum.splits if_splits)

end

text \<open>The in-process lock as a port: one attempt for one key, the handle named by its token.\<close>

record memSession =
  msLock :: memLock
  msNow :: rat
  msToken :: nat

definition memPort :: "string \<Rightarrow> nat \<Rightarrow> memSession lockPort" where
  "memPort k ttlMs =
     \<lparr>lpAcquire = (\<lambda>s. case memClaimLock k ttlMs (msNow s) (msLock s) of
        (None, m) \<Rightarrow> (False, s\<lparr>msLock := m\<rparr>) | (Some t, m) \<Rightarrow> (True, s\<lparr>msLock := m, msToken := t\<rparr>)),
      lpExtend = (\<lambda>ms s. let (ok, m) = memExtendLock k (msToken s) (of_nat ms) (msNow s) (msLock s) in (ok, s\<lparr>msLock := m\<rparr>)),
      lpRelease = (\<lambda>s. let (ok, m) = memReleaseLock k (msToken s) (msNow s) (msLock s) in (Some ok, s\<lparr>msLock := m\<rparr>)),
      lpRemaining = (\<lambda>s. memRemaining (msToken s) (msNow s) (msLock s)),
      lpClock = msNow, lpToken = msToken\<rparr>"

interpretation mem_session: lock_session "memPort k ttlMs" for k ttlMs
  by unfold_locales
    (simp add: memPort_def memReleaseLock_def memRemaining_def expiresAt_def Let_def split: prod.splits)

text \<open>
  The Redlock handle as a port. What the nodes will answer and how long they take is part of the
  state: the handle that will be granted, the validities the extensions will get, and the count and
  duration of the release.
\<close>

record redSession =
  rsNow :: rat
  rsGrant :: "redlockHandle option"
  rsHandle :: redlockHandle
  rsExtensions :: "(rat option \<times> rat) list"
  rsReleased :: "nat \<times> rat"

definition redPort :: "nat \<Rightarrow> redSession lockPort" where
  "redPort nodes =
     \<lparr>lpAcquire = (\<lambda>s. case rsGrant s of None \<Rightarrow> (False, s) | Some h \<Rightarrow> (True, s\<lparr>rsHandle := h\<rparr>)),
      lpExtend = (\<lambda>ms s. case rsExtensions s of
          [] \<Rightarrow> (let (ok, h) = handleExtend None (rsNow s) (rsHandle s) in (ok, s\<lparr>rsHandle := h\<rparr>))
        | (validity, took) # rest \<Rightarrow>
            (let now = rsNow s + took; (ok, h) = handleExtend validity now (rsHandle s)
             in (ok, s\<lparr>rsNow := now, rsHandle := h, rsExtensions := rest\<rparr>))),
      lpRelease = (\<lambda>s. let (count, took) = rsReleased s; now = rsNow s + took;
          (ok, h) = handleRelease nodes count now (rsHandle s) in (Some ok, s\<lparr>rsNow := now, rsHandle := h\<rparr>)),
      lpRemaining = (\<lambda>s. handleRemaining (rsNow s) (rsHandle s)),
      lpClock = rsNow, lpToken = rhToken \<circ> rsHandle\<rparr>"

lemma redPort_remaining:
  assumes "rhLive (rsHandle s)"
  shows "lpRemaining (redPort nodes) (stopSession (redPort nodes) s) = 0"
  using assms by (simp add: redPort_def stopSession_def handleRelease_def handleRemaining_def Let_def split: prod.splits)

lemma renewLoop_live:
  assumes "renewLoop (redPort nodes) opts t0 sleep wakes s = (False, s')" and "rhLive (rsHandle s)"
    and "\<And>k s. rsHandle (sleep k s) = rsHandle s"
  shows "rhLive (rsHandle s')"
  using assms(1,2)
proof (induction wakes arbitrary: s)
  case (Suc k)
  obtain ok s2 where ext: "lpExtend (redPort nodes) (woTtlMs opts) (sleep k s) = (ok, s2)" by fastforce
  have live: "rhLive (rsHandle (sleep k s))" using Suc.prems(2) assms(3) by simp
  have "ok \<Longrightarrow> rhLive (rsHandle s2)"
    using ext live by (auto simp: redPort_def handleExtend_def Let_def split: list.splits option.splits prod.splits)
  then show ?case
    using Suc ext live by (cases ok) (auto simp: Let_def split: if_splits)
qed simp

text \<open>
  C36. Over Redlock no session ever reports success: whenever the lock is acquired and the guarded
  operation succeeds, \<open>withLock\<close> answers with \<open>LockLostError\<close>, because the release that precedes the
  check sets the handle's expiry to the current time.
\<close>

theorem redlock_session_always_lost:
  assumes "rsGrant s = Some h" and "rhLive h" and "\<And>k s. rsHandle (sleep k s) = rsHandle s"
    and "\<And>s. rsHandle (snd (operation s)) = rsHandle s" and "\<And>s. \<exists>r. fst (operation s) = Inr r"
  shows "\<exists>token held. fst (withLock (redPort nodes) opts sleep wakes operation s)
    = Inl (LockLostError (woKey opts) token held)"
proof -
  obtain failed s2 where renew: "startRenewal (redPort nodes) opts sleep wakes (s\<lparr>rsHandle := h\<rparr>) = (failed, s2)"
    by fastforce
  obtain r s3 where op: "operation s2 = (Inr r, s3)" using assms(5) [of s2] by (metis prod.collapse)
  have live: "rhLive (rsHandle s3)" if "\<not> failed"
  proof -
    have "rhLive (rsHandle s2)"
      using renew that assms(2) renewLoop_live [OF _ _ assms(3)] by (auto simp: startRenewal_def split: if_splits)
    then show ?thesis using assms(4) [of s2] op by simp
  qed
  have acq: "lpAcquire (redPort nodes) s = (True, s\<lparr>rsHandle := h\<rparr>)" using assms(1) by (simp add: redPort_def)
  show ?thesis
    using acq renew op redPort_remaining [OF live] by (cases failed) (auto simp: withLock_def Let_def)
qed

theorem redlock_session_always_lost_witness:
  "let h = \<lparr>rhToken = 7, rhExpiry = 988, rhLive = True\<rparr>;
       s = \<lparr>rsNow = 0, rsGrant = Some h, rsHandle = h, rsExtensions = [], rsReleased = (3, 1)\<rparr>;
       opts = \<lparr>woKey = ''job'', woTtlMs = 1000, woWaitMs = 0, woRenew = True, woMaxHoldMs = None\<rparr>
   in \<exists>token held. fst (withLock (redPort 3) opts (\<lambda>_ s. s) 0 (\<lambda>s. (Inr ''done'' :: unit + string, s\<lparr>rsNow := rsNow s + 5\<rparr>)) s)
        = Inl (LockLostError ''job'' token held)"
  using redlock_session_always_lost [where nodes = 3 and wakes = 0 and sleep = "\<lambda>_ s. s"
      and operation = "\<lambda>s. (Inr ''done'' :: unit + string, s\<lparr>rsNow := rsNow s + 5\<rparr>)"
      and opts = "\<lparr>woKey = ''job'', woTtlMs = 1000, woWaitMs = 0, woRenew = True, woMaxHoldMs = None\<rparr>"
      and h = "\<lparr>rhToken = 7, rhExpiry = 988, rhLive = True\<rparr>"
      and s = "\<lparr>rsNow = 0, rsGrant = Some \<lparr>rhToken = 7, rhExpiry = 988, rhLive = True\<rparr>,
        rsHandle = \<lparr>rhToken = 7, rhExpiry = 988, rhLive = True\<rparr>, rsExtensions = [], rsReleased = (3, 1)\<rparr>"]
  by (simp add: Let_def)

text \<open>
  Over the in-process lock a session returns exactly when it should: a result means the lock was
  acquired, no renewal failed, the operation produced the result and the lease still had time left
  when it ended.
\<close>

lemma mem_session_exact:
  "fst (withLock (memPort k ttlMs) opts sleep wakes operation s) = Inr r \<longleftrightarrow>
     (\<exists>s1 s2 s3. lpAcquire (memPort k ttlMs) s = (True, s1)
        \<and> startRenewal (memPort k ttlMs) opts sleep wakes s1 = (False, s2)
        \<and> operation s2 = (Inr r, s3) \<and> 0 < memRemaining (msToken s3) (msNow s3) (msLock s3))"
proof
  assume "fst (withLock (memPort k ttlMs) opts sleep wakes operation s) = Inr r"
  from mem_session.session_honest [OF this]
  show "\<exists>s1 s2 s3. lpAcquire (memPort k ttlMs) s = (True, s1)
        \<and> startRenewal (memPort k ttlMs) opts sleep wakes s1 = (False, s2)
        \<and> operation s2 = (Inr r, s3) \<and> 0 < memRemaining (msToken s3) (msNow s3) (msLock s3)"
    by (simp add: memPort_def)
next
  assume "\<exists>s1 s2 s3. lpAcquire (memPort k ttlMs) s = (True, s1)
        \<and> startRenewal (memPort k ttlMs) opts sleep wakes s1 = (False, s2)
        \<and> operation s2 = (Inr r, s3) \<and> 0 < memRemaining (msToken s3) (msNow s3) (msLock s3)"
  then obtain s1 s2 s3 where "lpAcquire (memPort k ttlMs) s = (True, s1)"
    "startRenewal (memPort k ttlMs) opts sleep wakes s1 = (False, s2)" "operation s2 = (Inr r, s3)"
    "0 < lpRemaining (memPort k ttlMs) s3" by (auto simp: memPort_def)
  then show "fst (withLock (memPort k ttlMs) opts sleep wakes operation s) = Inr r"
    by (simp add: mem_session.session_returns)
qed


text \<open>
  Waiting for a lock stays within the caller's budget: the sleeps between attempts add up to no
  more than the time to the deadline, giving up happens only once the deadline is reached, and a
  handle returned is one an attempt granted.
\<close>

theorem acquire_within_budget:
  assumes "acquireLoop deadline delay rounds = (sleeps, r)" and "timely t sleeps rounds" and "t \<le> deadline"
  shows "sum_list sleeps \<le> deadline - t
    \<and> (r = GaveUp \<longrightarrow> (\<exists>round \<in> set rounds. fst round = None \<and> deadline \<le> fst (snd round)))
    \<and> (\<forall>h. r = Acquired h \<longrightarrow> (\<exists>round \<in> set rounds. fst round = Some h))"
  using acquireLoop_budget [OF assms] acquireLoop_gives_up [of deadline delay rounds]
    acquireLoop_acquires [of deadline delay rounds] assms(1) by auto

theorem acquire_within_budget_witness:
  "let rounds = [(None, 10, 1 / 2), (None, 60, 1 / 4), (Some (3 :: nat), 85, 0)]
   in acquireLoop 200 100 rounds = ([50, 25], Acquired 3) \<and> sum_list [50, 25] \<le> (200 :: rat) - 0"
proof -
  have r: "roundHalfUp 50 = 50" "roundHalfUp 25 = 25"
    unfolding roundHalfUp_def by (rule floor_unique; simp)+
  have run: "acquireLoop 200 100 [(None, 10, 1 / 2), (None, 60, 1 / 4), (Some (3 :: nat), 85, 0)] = ([50, 25], Acquired 3)"
    by (simp add: r)
  from acquire_within_budget [OF run, of 0] run show ?thesis by simp
qed

end
