(* ===== verification/AuditHash.thy ===== *)
theory AuditHash
  imports Prelude "HOL-Library.Char_ord" "HOL-Library.List_Lexorder"
begin

text \<open>
  The bytes an audit entry is hashed over: \<open>canonicalJson\<close> and \<open>auditEntryPreimage\<close> of
  \<open>audit/audit-hash.ts\<close>, and the placing of a draft in the chain (\<open>sealAuditEntry\<close>).

  A string is the list of its UTF-8 bytes, so that \<open>Buffer.byteLength\<close> is \<open>length\<close> and
  \<open>JSON.stringify\<close> of a string escapes the same bytes as it escapes code units. The values
  handed to the encoder are \<open>jsValue\<close>: the finite numbers in it are the integers, which print
  as plain decimals. A date is its broken-down UTC time. SHA-256 is the parameter \<open>sha256\<close>.

  The main result is that the encoding is injective: two entries with the same preimage agree
  in every field, their details up to the order of object keys.
\<close>

section \<open>Values and strings\<close>

datatype jsValue =
    VNull
  | VBool bool
  | VNum int
  | VNonFinite string
  | VStr string
  | VArr "jsValue list"
  | VObj "(string \<times> jsValue) list"
  | VInstance string
  | VUndefined
  | VOther string

definition hexDigit :: "nat \<Rightarrow> char" where
  "hexDigit d = (if d < 10 then char_of (48 + d) else char_of (87 + d))"

text \<open>One character of \<open>JSON.stringify\<close> applied to a string.\<close>

definition quoteChar :: "char \<Rightarrow> string" where
  "quoteChar c =
     (if c = CHR 0x22 then [CHR 0x5C, CHR 0x22]
      else if c = CHR 0x5C then [CHR 0x5C, CHR 0x5C]
      else if c = CHR 0x08 then [CHR 0x5C, CHR ''b'']
      else if c = CHR 0x09 then [CHR 0x5C, CHR ''t'']
      else if c = CHR 0x0A then [CHR 0x5C, CHR ''n'']
      else if c = CHR 0x0C then [CHR 0x5C, CHR ''f'']
      else if c = CHR 0x0D then [CHR 0x5C, CHR ''r'']
      else if (of_char c :: nat) < 32
      then [CHR 0x5C, CHR ''u'', CHR ''0'', CHR ''0'', hexDigit (of_char c div 16), hexDigit (of_char c mod 16)]
      else [c])"

definition jsonString :: "string \<Rightarrow> string" where
  "jsonString s = CHR 0x22 # concat (map quoteChar s) @ [CHR 0x22]"

text \<open>\<open>Array.prototype.join(",")\<close>.\<close>

fun joinComma :: "string list \<Rightarrow> string" where
  "joinComma [] = []"
| "joinComma (p # ps) = p @ concat (map (\<lambda>q. CHR '','' # q) ps)"

text \<open>\<open>Array.prototype.map\<close> with a callback that may throw: the first throw wins.\<close>

fun allOk :: "('e + 'a) list \<Rightarrow> 'e + 'a list" where
  "allOk [] = Inr []"
| "allOk (r # rs) = rbind r (\<lambda>a. rbind (allOk rs) (\<lambda>as. Inr (a # as)))"

lemma size_enumerate [termination_simp]:
  "(i, v) \<in> set (enumerate n vs) \<Longrightarrow> size v < Suc (size_list size vs)"
proof -
  assume "(i, v) \<in> set (enumerate n vs)"
  then have "v \<in> set vs" by (auto simp: in_set_enumerate_eq)
  then have "size v \<le> size_list size vs" by (rule size_list_estimation') simp
  then show ?thesis by simp
qed

section \<open>Canonical JSON\<close>

datatype auditEncodingError = AuditEncodingError string

fun canonicalJson :: "string \<Rightarrow> jsValue \<Rightarrow> auditEncodingError + string" where
  "canonicalJson path VNull = Inr ''null''"
| "canonicalJson path (VStr s) = Inr (jsonString s)"
| "canonicalJson path (VBool b) = Inr (if b then ''true'' else ''false'')"
| "canonicalJson path (VNum n) = Inr (intString n)"
| "canonicalJson path (VNonFinite k) =
     Inl (AuditEncodingError (path @ '' is '' @ k @ '', which JSON cannot represent''))"
| "canonicalJson path VUndefined = Inl (AuditEncodingError (path @ '' is a undefined, which is not JSON''))"
| "canonicalJson path (VOther t) = Inl (AuditEncodingError (path @ '' is a '' @ t @ '', which is not JSON''))"
| "canonicalJson path (VArr vs) =
     rbind (allOk (map (\<lambda>(i, v). canonicalJson (path @ ''['' @ decString i @ '']'') v) (enumerate 0 vs)))
       (\<lambda>ps. Inr (''['' @ joinComma ps @ '']''))"
| "canonicalJson path (VInstance n) =
     Inl (AuditEncodingError (path @ '' is a '' @ n @ ''. Audit details must be plain JSON: convert it at the call site, where the right representation is known.''))"
| "canonicalJson path (VObj ms) =
     rbind (allOk (map snd (sort_key fst (map (\<lambda>(k, v). (k,
         if v = VUndefined
         then Inl (AuditEncodingError (path @ ''.'' @ k @ '' is undefined. JSON.stringify would drop the key entirely, so an entry with it and an entry without it would hash the same - use null.''))
         else rbind (canonicalJson (path @ ''.'' @ k) v) (\<lambda>m. Inr (jsonString k @ '':'' @ m)))) ms))))
       (\<lambda>ps. Inr (''{'' @ joinComma ps @ ''}''))"

text \<open>The value with the members of every object in key order.\<close>

fun canonValue :: "jsValue \<Rightarrow> jsValue" where
  "canonValue (VArr vs) = VArr (map canonValue vs)"
| "canonValue (VObj ms) = VObj (sort_key fst (map (\<lambda>(k, v). (k, canonValue v)) ms))"
| "canonValue v = v"

text \<open>The values that are plain JSON.\<close>

fun isJson :: "jsValue \<Rightarrow> bool" where
  "isJson VNull = True"
| "isJson (VBool b) = True"
| "isJson (VNum n) = True"
| "isJson (VStr s) = True"
| "isJson (VArr vs) = list_all isJson vs"
| "isJson (VObj ms) = list_all (\<lambda>(k, v). isJson v) ms"
| "isJson v = False"

fun renderJson :: "jsValue \<Rightarrow> string" where
  "renderJson VNull = ''null''"
| "renderJson (VStr s) = jsonString s"
| "renderJson (VBool b) = (if b then ''true'' else ''false'')"
| "renderJson (VNum n) = intString n"
| "renderJson (VArr vs) = ''['' @ joinComma (map renderJson vs) @ '']''"
| "renderJson (VObj ms) = ''{'' @ joinComma (map (\<lambda>(k, v). jsonString k @ '':'' @ renderJson v) ms) @ ''}''"
| "renderJson v = []"

section \<open>The encoding is a prefix code\<close>

lemma allOk_Inr_iff: "allOk rs = Inr as \<longleftrightarrow> rs = map Inr as"
proof (induction rs arbitrary: as)
  case Nil
  then show ?case by auto
next
  case (Cons r rs)
  then show ?case by (cases as) (auto simp: rbind_eq_Inr_iff)
qed

lemma allOk_map_Inr: "allOk (map Inr as) = Inr as"
  by (simp add: allOk_Inr_iff)

lemma digits_before:
  assumes "list_all isDigit ds" and "list_all isDigit es" and "ds @ r = es @ u"
    and "r = [] \<or> \<not> isDigit (hd r)" and "u = [] \<or> \<not> isDigit (hd u)"
  shows "ds = es \<and> r = u"
proof -
  have "takeWhile isDigit (ds @ r) = ds" if "list_all isDigit ds" "r = [] \<or> \<not> isDigit (hd r)" for ds r
    using that by (induction ds) (auto simp: takeWhile_eq_Nil_iff)
  with assms have "ds = es" by metis
  with assms(3) show ?thesis by simp
qed

lemma decString_all_digits [simp]: "list_all isDigit (decString n)"
  by (simp add: list_all_iff decString_digits)

lemma decString_prefix:
  assumes "decString m @ r = decString n @ u" and "r = [] \<or> \<not> isDigit (hd r)" and "u = [] \<or> \<not> isDigit (hd u)"
  shows "m = n \<and> r = u"
  using digits_before [OF _ _ assms] by simp

lemma decString_hd: "isDigit (hd (decString n))"
  using decString_digits [of "hd (decString n)" n] by simp

lemma not_digit_marks [simp]:
  "\<not> isDigit (CHR ''-'')" "\<not> isDigit (CHR '','')" "\<not> isDigit (CHR '']'')" "\<not> isDigit (CHR ''}'')"
  "\<not> isDigit (CHR '':'')" "\<not> isDigit (CHR ''T'')" "\<not> isDigit (CHR ''.'')" "\<not> isDigit (CHR ''Z'')"
  "\<not> isDigit (CHR ''+'')" "\<not> isDigit (CHR ''n'')" "\<not> isDigit (CHR ''t'')" "\<not> isDigit (CHR ''f'')"
  "\<not> isDigit (CHR ''['')" "\<not> isDigit (CHR ''{'')" "\<not> isDigit (CHR 0x22)" "\<not> isDigit (CHR 0x0A)"
  by (simp_all add: isDigit_def)

lemma intString_prefix:
  assumes "intString m @ r = intString n @ u" and "r = [] \<or> \<not> isDigit (hd r)" and "u = [] \<or> \<not> isDigit (hd u)"
  shows "m = n \<and> r = u"
proof -
  have minus: False if "CHR ''-'' # x = decString k @ y" for x y k
    using that decString_hd [of k] by (cases "decString k") auto
  show ?thesis
  proof (cases "m < 0"; cases "n < 0")
    assume "m < 0" "n < 0"
    then show ?thesis using assms decString_prefix [of "nat (- m)" r "nat (- n)" u] by (simp add: intString_def eq_nat_nat_iff)
  next
    assume "m < 0" "\<not> n < 0"
    then show ?thesis using assms(1) minus [of "decString (nat (- m)) @ r" "nat n" u] by (simp add: intString_def)
  next
    assume "\<not> m < 0" "n < 0"
    then show ?thesis using assms(1) minus [of "decString (nat (- n)) @ u" "nat m" r] by (simp add: intString_def)
  next
    assume "\<not> m < 0" "\<not> n < 0"
    then show ?thesis using assms decString_prefix [of "nat m" r "nat n" u] by (simp add: intString_def eq_nat_nat_iff)
  qed
qed

lemma hexDigit_inject: "m < 16 \<Longrightarrow> n < 16 \<Longrightarrow> hexDigit m = hexDigit n \<Longrightarrow> m = n"
proof -
  assume lt: "m < 16" "n < 16" and "hexDigit m = hexDigit n"
  then have "(of_char (hexDigit m) :: nat) = of_char (hexDigit n)" by simp
  with lt show "m = n" by (auto simp: hexDigit_def split: if_splits)
qed

text \<open>The character a two-character escape stands for.\<close>

definition unescapeChar :: "char \<Rightarrow> char" where
  "unescapeChar x =
     (if x = CHR ''b'' then CHR 0x08 else if x = CHR ''t'' then CHR 0x09 else if x = CHR ''n'' then CHR 0x0A
      else if x = CHR ''f'' then CHR 0x0C else if x = CHR ''r'' then CHR 0x0D else x)"

lemma quoteChar_cases:
  obtains "quoteChar c = [c]" "c \<noteq> CHR 0x5C" "c \<noteq> CHR 0x22"
  | x where "quoteChar c = [CHR 0x5C, x]" "x \<noteq> CHR ''u''" "c = unescapeChar x"
  | "quoteChar c = [CHR 0x5C, CHR ''u'', CHR ''0'', CHR ''0'', hexDigit (of_char c div 16), hexDigit (of_char c mod 16)]"
    "(of_char c :: nat) < 32"
proof -
  consider "c = CHR 0x22"
    | "c = CHR 0x5C"
    | "c = CHR 0x08"
    | "c = CHR 0x09"
    | "c = CHR 0x0A"
    | "c = CHR 0x0C"
    | "c = CHR 0x0D"
    | "c \<notin> {CHR 0x22, CHR 0x5C, CHR 0x08, CHR 0x09, CHR 0x0A, CHR 0x0C, CHR 0x0D}" "(of_char c :: nat) < 32"
    | "c \<notin> {CHR 0x22, CHR 0x5C, CHR 0x08, CHR 0x09, CHR 0x0A, CHR 0x0C, CHR 0x0D}" "\<not> (of_char c :: nat) < 32" by blast
  then show thesis
  proof cases
    case 1
    then show thesis by (intro that(2) [of "CHR 0x22"]) (simp_all add: quoteChar_def unescapeChar_def)
  next
    case 2
    then show thesis by (intro that(2) [of "CHR 0x5C"]) (simp_all add: quoteChar_def unescapeChar_def)
  next
    case 3
    then show thesis by (intro that(2) [of "CHR ''b''"]) (simp_all add: quoteChar_def unescapeChar_def)
  next
    case 4
    then show thesis by (intro that(2) [of "CHR ''t''"]) (simp_all add: quoteChar_def unescapeChar_def)
  next
    case 5
    then show thesis by (intro that(2) [of "CHR ''n''"]) (simp_all add: quoteChar_def unescapeChar_def)
  next
    case 6
    then show thesis by (intro that(2) [of "CHR ''f''"]) (simp_all add: quoteChar_def unescapeChar_def)
  next
    case 7
    then show thesis by (intro that(2) [of "CHR ''r''"]) (simp_all add: quoteChar_def unescapeChar_def)
  next
    case 8
    then show thesis by (intro that(3)) (simp_all add: quoteChar_def)
  next
    case 9
    then show thesis by (intro that(1)) (simp_all add: quoteChar_def)
  qed
qed

lemma quoteChar_prefix:
  assumes "quoteChar c @ r = quoteChar d @ u"
  shows "c = d \<and> r = u"
  using assms
proof (cases c rule: quoteChar_cases; cases d rule: quoteChar_cases)
  assume c: "quoteChar c = [CHR 0x5C, CHR ''u'', CHR ''0'', CHR ''0'', hexDigit (of_char c div 16), hexDigit (of_char c mod 16)]"
    "(of_char c :: nat) < 32"
    and d: "quoteChar d = [CHR 0x5C, CHR ''u'', CHR ''0'', CHR ''0'', hexDigit (of_char d div 16), hexDigit (of_char d mod 16)]"
    "(of_char d :: nat) < 32"
  from c d assms have h: "hexDigit (of_char c div 16) = hexDigit (of_char d div 16)"
    "hexDigit (of_char c mod 16) = hexDigit (of_char d mod 16)" "r = u" by simp_all
  have "(of_char c :: nat) div 16 = of_char d div 16" by (rule hexDigit_inject [OF _ _ h(1)]) (use c(2) d(2) in simp_all)
  moreover have "(of_char c :: nat) mod 16 = of_char d mod 16" by (rule hexDigit_inject [OF _ _ h(2)]) simp_all
  ultimately have "(of_char c :: nat) = of_char d" by (metis div_mult_mod_eq)
  then show ?thesis using h(3) by simp
qed simp_all

lemma quoteChar_hd: "quoteChar c \<noteq> []" "hd (quoteChar c) \<noteq> CHR 0x22"
  by (cases c rule: quoteChar_cases; simp)+

lemma quoteChar_not_quote: "CHR 0x22 # r \<noteq> quoteChar c @ u"
  using quoteChar_hd [of c] by (cases "quoteChar c") auto

lemma jsonString_prefix:
  assumes "jsonString s @ r = jsonString t @ u"
  shows "s = t \<and> r = u"
proof -
  have "concat (map quoteChar s) @ CHR 0x22 # r = concat (map quoteChar t) @ CHR 0x22 # u"
    using assms by (simp add: jsonString_def)
  then show ?thesis
  proof (induction s arbitrary: t)
    case Nil
    show ?case
    proof (cases t)
      case (Cons d t')
      with Nil have "CHR 0x22 # r = quoteChar d @ (concat (map quoteChar t') @ CHR 0x22 # u)" by simp
      with quoteChar_not_quote show ?thesis by blast
    qed (use Nil in simp)
  next
    case (Cons c s)
    show ?case
    proof (cases t)
      case Nil
      with Cons.prems have "CHR 0x22 # u = quoteChar c @ (concat (map quoteChar s) @ CHR 0x22 # r)" by simp
      with quoteChar_not_quote show ?thesis by blast
    next
      case (Cons d t')
      with Cons.prems have "quoteChar c @ (concat (map quoteChar s) @ CHR 0x22 # r)
        = quoteChar d @ (concat (map quoteChar t') @ CHR 0x22 # u)" by simp
      from quoteChar_prefix [OF this] Cons.IH [of t'] Cons show ?thesis by simp
    qed
  qed
qed

text \<open>A rest that cannot continue a number.\<close>

definition ended :: "string \<Rightarrow> bool" where
  "ended r \<longleftrightarrow> r = [] \<or> \<not> isDigit (hd r)"

lemma ended_Cons [simp]: "ended (c # r) \<longleftrightarrow> \<not> isDigit c"
  by (simp add: ended_def)

definition prefixCode :: "('a \<Rightarrow> string) \<Rightarrow> 'a \<Rightarrow> 'a \<Rightarrow> bool" where
  "prefixCode enc x y \<longleftrightarrow> (\<forall>r u. enc x @ r = enc y @ u \<and> ended r \<and> ended u \<longrightarrow> x = y \<and> r = u)"

lemma prefixCodeD: "prefixCode enc x y \<Longrightarrow> enc x @ r = enc y @ u \<Longrightarrow> ended r \<Longrightarrow> ended u \<Longrightarrow> x = y \<and> r = u"
  unfolding prefixCode_def by blast

lemma comma_tail_prefix:
  assumes "\<forall>x \<in> set xs. \<forall>y \<in> set ys. prefixCode enc x y"
    and "concat (map (\<lambda>q. CHR '','' # enc q) xs) @ e # r = concat (map (\<lambda>q. CHR '','' # enc q) ys) @ e # u"
    and "e \<noteq> CHR '',''" and "\<not> isDigit e"
  shows "xs = ys \<and> r = u"
  using assms(1,2)
proof (induction xs arbitrary: ys)
  case Nil
  then show ?case using assms(3) by (cases ys) auto
next
  case (Cons x xs)
  show ?case
  proof (cases ys)
    case Nil
    with Cons.prems(2) assms(3) show ?thesis by simp
  next
    case (Cons y ys')
    define tl where "tl = (\<lambda>zs. concat (map (\<lambda>q. CHR '','' # enc q) zs))"
    have ended_tl: "ended (tl zs @ e # v)" for zs v
      by (cases zs) (simp_all add: tl_def assms(4))
    from Cons.prems(2) Cons have eq: "enc x @ (tl xs @ e # r) = enc y @ (tl ys' @ e # u)" by (simp add: tl_def)
    have "prefixCode enc x y" using Cons.prems(1) Cons by simp
    from prefixCodeD [OF this eq ended_tl ended_tl]
    have heads: "x = y" and tails: "tl xs @ e # r = tl ys' @ e # u" by simp_all
    have "\<forall>x \<in> set xs. \<forall>y \<in> set ys'. prefixCode enc x y" using Cons.prems(1) Cons by simp
    from Cons.IH [OF this tails [unfolded tl_def]] heads Cons show ?thesis by simp
  qed
qed

lemma joinComma_prefix:
  assumes "\<forall>x \<in> set xs. \<forall>y \<in> set ys. prefixCode enc x y"
    and "joinComma (map enc xs) @ e # r = joinComma (map enc ys) @ e # u"
    and "e \<noteq> CHR '',''" and "\<not> isDigit e" and "\<forall>z \<in> set xs \<union> set ys. enc z \<noteq> [] \<and> hd (enc z) \<noteq> e"
  shows "xs = ys \<and> r = u"
proof -
  have first: False if "joinComma (map enc (z # zs)) @ v = e # w" "enc z \<noteq> [] \<and> hd (enc z) \<noteq> e" for z zs v w
    using that by (cases "enc z") auto
  show ?thesis
  proof (cases xs)
    case Nil
    then show ?thesis
    proof (cases ys)
      case (Cons y ys')
      with Nil assms(2,5) first [of y ys' "e # u" r] show ?thesis by simp
    qed (use assms(2) in simp)
  next
    case (Cons x xs')
    show ?thesis
    proof (cases ys)
      case Nil
      with Cons assms(2,5) first [of x xs' "e # r" u] show ?thesis by simp
    next
      case y: (Cons y ys')
      have "concat (map (\<lambda>q. CHR '','' # enc q) xs) @ e # r = concat (map (\<lambda>q. CHR '','' # enc q) ys) @ e # u"
        using assms(2) Cons y by (simp add: comp_def)
      from comma_tail_prefix [OF assms(1) this assms(3,4)] show ?thesis .
    qed
  qed
qed

lemma intString_hd: "intString n \<noteq> []" "hd (intString n) = CHR ''-'' \<or> isDigit (hd (intString n))"
  using decString_hd by (auto simp: intString_def)

lemma jsonString_hd [simp]: "jsonString s \<noteq> []" "hd (jsonString s) = CHR 0x22"
  by (simp_all add: jsonString_def)

text \<open>Which kind of value a rendering is of shows in its first character.\<close>

fun openerOk :: "jsValue \<Rightarrow> char \<Rightarrow> bool" where
  "openerOk VNull c = (c = CHR ''n'')"
| "openerOk (VStr s) c = (c = CHR 0x22)"
| "openerOk (VBool b) c = (c = (if b then CHR ''t'' else CHR ''f''))"
| "openerOk (VNum n) c = (c = CHR ''-'' \<or> isDigit c)"
| "openerOk (VArr vs) c = (c = CHR ''['')"
| "openerOk (VObj ms) c = (c = CHR ''{'')"
| "openerOk v c = False"

lemma render_opener: "isJson v \<Longrightarrow> renderJson v \<noteq> [] \<and> openerOk v (hd (renderJson v))"
  using intString_hd by (cases v) auto

lemma opener_not_closer: "openerOk v c \<Longrightarrow> c \<noteq> CHR '']'' \<and> c \<noteq> CHR ''}''"
  by (cases v) auto

lemma render_heads:
  assumes "isJson v" and "isJson w" and "renderJson v @ r = renderJson w @ u"
  shows "\<exists>c. openerOk v c \<and> openerOk w c"
  using render_opener [OF assms(1)] render_opener [OF assms(2)] assms(3)
  by (metis hd_append2)

lemma member_prefix:
  assumes "prefixCode renderJson v w"
  shows "prefixCode (\<lambda>(k, v). jsonString k @ '':'' @ renderJson v) (k, v) (l, w)"
  unfolding prefixCode_def
proof (intro allI impI, elim conjE)
  fix r u
  assume eq: "(case (k, v) of (k, v) \<Rightarrow> jsonString k @ '':'' @ renderJson v) @ r
    = (case (l, w) of (k, v) \<Rightarrow> jsonString k @ '':'' @ renderJson v) @ u" and ends: "ended r" "ended u"
  then have "jsonString k @ (CHR '':'' # renderJson v @ r) = jsonString l @ (CHR '':'' # renderJson w @ u)" by simp
  from jsonString_prefix [OF this] have "k = l" and rest: "renderJson v @ r = renderJson w @ u" by simp_all
  from prefixCodeD [OF assms rest ends] \<open>k = l\<close> show "(k, v) = (l, w) \<and> r = u" by simp
qed

lemma render_prefix: "isJson v \<Longrightarrow> isJson w \<Longrightarrow> prefixCode renderJson v w"
proof (induction v arbitrary: w rule: renderJson.induct)
  case (4 n)
  show ?case
    unfolding prefixCode_def
  proof (intro allI impI, elim conjE)
    fix r u assume eq: "renderJson (VNum n) @ r = renderJson w @ u" and ends: "ended r" "ended u"
    from render_heads [OF 4 eq] obtain m where w: "w = VNum m" by (cases w) (auto split: if_splits)
    from intString_prefix [of n r m u] eq ends w show "VNum n = w \<and> r = u" by (simp add: ended_def)
  qed
next
  case (5 vs)
  show ?case
    unfolding prefixCode_def
  proof (intro allI impI, elim conjE)
    fix r u assume eq: "renderJson (VArr vs) @ r = renderJson w @ u"
    from render_heads [OF "5.prems" eq] obtain ws where w: "w = VArr ws" by (cases w) (auto split: if_splits)
    have "vs = ws \<and> r = u"
    proof (rule joinComma_prefix)
      show "\<forall>x \<in> set vs. \<forall>y \<in> set ws. prefixCode renderJson x y"
        using "5.IH" "5.prems" w by (simp add: list_all_iff)
      show "joinComma (map renderJson vs) @ CHR '']'' # r = joinComma (map renderJson ws) @ CHR '']'' # u"
        using eq w by simp
      show "\<forall>z \<in> set vs \<union> set ws. renderJson z \<noteq> [] \<and> hd (renderJson z) \<noteq> CHR '']''"
        using "5.prems" w render_opener opener_not_closer by (fastforce simp: list_all_iff)
    qed simp_all
    with w show "VArr vs = w \<and> r = u" by simp
  qed
next
  case (6 ms)
  show ?case
    unfolding prefixCode_def
  proof (intro allI impI, elim conjE)
    fix r u assume eq: "renderJson (VObj ms) @ r = renderJson w @ u"
    from render_heads [OF "6.prems" eq] obtain ns where w: "w = VObj ns" by (cases w) (auto split: if_splits)
    have "ms = ns \<and> r = u"
    proof (rule joinComma_prefix)
      have "prefixCode renderJson v v'" if "(k, v) \<in> set ms" "(l, v') \<in> set ns" for k v l v'
        using "6.IH" [OF that(1) refl, of v'] "6.prems" that w by (auto simp: list_all_iff)
      then show "\<forall>x \<in> set ms. \<forall>y \<in> set ns. prefixCode (\<lambda>(k, v). jsonString k @ '':'' @ renderJson v) x y"
        by (auto simp del: append_Cons intro!: member_prefix)
      show "joinComma (map (\<lambda>(k, v). jsonString k @ '':'' @ renderJson v) ms) @ CHR ''}'' # r
        = joinComma (map (\<lambda>(k, v). jsonString k @ '':'' @ renderJson v) ns) @ CHR ''}'' # u"
        using eq w by simp
    qed auto
    with w show "VObj ms = w \<and> r = u" by simp
  qed
next
  case 1
  show ?case
    unfolding prefixCode_def
  proof (intro allI impI, elim conjE)
    fix r u assume eq: "renderJson VNull @ r = renderJson w @ u"
    from render_heads [OF 1 eq] have "w = VNull" by (cases w) (auto split: if_splits)
    with eq show "VNull = w \<and> r = u" by simp
  qed
next
  case (2 s)
  show ?case
    unfolding prefixCode_def
  proof (intro allI impI, elim conjE)
    fix r u assume eq: "renderJson (VStr s) @ r = renderJson w @ u"
    from render_heads [OF 2 eq] obtain t where w: "w = VStr t" by (cases w) (auto split: if_splits)
    from jsonString_prefix [of s r t u] eq w show "VStr s = w \<and> r = u" by simp
  qed
next
  case (3 b)
  show ?case
    unfolding prefixCode_def
  proof (intro allI impI, elim conjE)
    fix r u assume eq: "renderJson (VBool b) @ r = renderJson w @ u"
    from render_heads [OF 3 eq] have "w = VBool b" by (cases w) (auto split: if_splits)
    with eq show "VBool b = w \<and> r = u" by simp
  qed
qed simp_all

section \<open>What canonical JSON encodes\<close>

lemma insort_key_map: "insort_key f (g x) (map g xs) = map g (insort_key (\<lambda>x. f (g x)) x xs)"
  by (induction xs) simp_all

lemma sort_key_map: "sort_key f (map g xs) = map g (sort_key (f \<circ> g) xs)"
  by (induction xs) (simp_all add: insort_key_map comp_def)

lemma allOk_fails: "Inl e \<in> set rs \<Longrightarrow> \<exists>e'. allOk rs = Inl e'"
proof (induction rs)
  case (Cons r rs)
  then show ?case by (cases r) auto
qed simp

lemma isJson_canonValue [simp]: "isJson (canonValue v) \<longleftrightarrow> isJson v"
  by (induction v rule: canonValue.induct) (auto simp: list_all_iff split: prod.splits)

lemma canonicalJson_json: "isJson v \<Longrightarrow> canonicalJson path v = Inr (renderJson (canonValue v))"
proof (induction path v rule: canonicalJson.induct)
  case (8 path vs)
  have "canonicalJson (path @ ''['' @ decString i @ '']'') v = Inr (renderJson (canonValue v))"
    if "(i, v) \<in> set (enumerate 0 vs)" for i v
    using "8.IH" [OF that refl] "8.prems" that by (auto simp: list_all_iff in_set_enumerate_eq)
  then have "map (\<lambda>(i, v). canonicalJson (path @ ''['' @ decString i @ '']'') v) (enumerate 0 vs)
    = map (\<lambda>(i, v). Inr (renderJson (canonValue v))) (enumerate 0 vs)"
    by (intro map_cong) auto
  also have "\<dots> = map Inr (map (renderJson \<circ> canonValue) (map snd (enumerate 0 vs)))"
    unfolding map_map by (intro map_cong) auto
  finally have "allOk (map (\<lambda>(i, v). canonicalJson (path @ ''['' @ decString i @ '']'') v) (enumerate 0 vs))
    = Inr (map (renderJson \<circ> canonValue) vs)"
    by (simp only: allOk_Inr_iff map_snd_enumerate)
  then show ?case by simp
next
  case (10 path ms)
  have member: "(if v = VUndefined then e else rbind (canonicalJson (path @ ''.'' @ k) v) (\<lambda>m. Inr (jsonString k @ '':'' @ m)))
      = Inr (jsonString k @ '':'' @ renderJson (canonValue v))"
    if "(k, v) \<in> set ms" for k v e
  proof -
    have "isJson v" using "10.prems" that by (auto simp: list_all_iff)
    then have "v \<noteq> VUndefined" by auto
    with "10.IH" [OF that refl this \<open>isJson v\<close>] show ?thesis by simp
  qed
  define g where "g = (\<lambda>(k, v). (k, Inr (jsonString k @ '':'' @ renderJson (canonValue v)) :: auditEncodingError + string))"
  define h where "h = (\<lambda>(k :: string, v). (k, canonValue v))"
  have "map (\<lambda>(k, v). (k, if v = VUndefined
         then Inl (AuditEncodingError (path @ ''.'' @ k @ '' is undefined. JSON.stringify would drop the key entirely, so an entry with it and an entry without it would hash the same - use null.''))
         else rbind (canonicalJson (path @ ''.'' @ k) v) (\<lambda>m. Inr (jsonString k @ '':'' @ m)))) ms = map g ms"
    by (rule map_cong [OF refl]) (auto simp: g_def member)
  moreover have "map snd (sort_key fst (map g ms))
      = map Inr (map (\<lambda>(k, v). jsonString k @ '':'' @ renderJson v) (sort_key fst (map h ms)))"
  proof -
    have "fst \<circ> g = fst" "fst \<circ> h = fst" by (auto simp: g_def h_def)
    then show ?thesis by (auto simp: sort_key_map g_def h_def)
  qed
  ultimately show ?case
    by (simp only: canonicalJson.simps canonValue.simps renderJson.simps h_def [symmetric] allOk_map_Inr rbind_Inr)
qed simp_all

lemma canonicalJson_not_json: "\<not> isJson v \<Longrightarrow> \<exists>e. canonicalJson path v = Inl e"
proof (induction path v rule: canonicalJson.induct)
  case (8 path vs)
  then obtain v where "v \<in> set vs" "\<not> isJson v" by (auto simp: list_all_iff)
  from \<open>v \<in> set vs\<close> have "v \<in> snd ` set (enumerate 0 vs)" by (metis list.set_map map_snd_enumerate)
  then obtain i where iv: "(i, v) \<in> set (enumerate 0 vs)" by auto
  from "8.IH" [OF iv refl \<open>\<not> isJson v\<close>] obtain e where "canonicalJson (path @ ''['' @ decString i @ '']'') v = Inl e" by blast
  with iv have "Inl e \<in> set (map (\<lambda>(i, v). canonicalJson (path @ ''['' @ decString i @ '']'') v) (enumerate 0 vs))"
    by (force simp: image_iff)
  from allOk_fails [OF this] show ?case by fastforce
next
  case (10 path ms)
  define f where "f = (\<lambda>k v. if v = VUndefined
         then Inl (AuditEncodingError (path @ ''.'' @ k @ '' is undefined. JSON.stringify would drop the key entirely, so an entry with it and an entry without it would hash the same - use null.''))
         else rbind (canonicalJson (path @ ''.'' @ k) v) (\<lambda>m. Inr (jsonString k @ '':'' @ m)))"
  from "10.prems" obtain k v where kv: "(k, v) \<in> set ms" "\<not> isJson v" by (auto simp: list_all_iff)
  have "\<exists>e. f k v = Inl e"
    using "10.IH" [OF kv(1) refl _ kv(2)] by (cases "v = VUndefined") (auto simp: f_def)
  then obtain e where "f k v = Inl e" by blast
  with kv(1) have "Inl e \<in> set (map snd (sort_key fst (map (\<lambda>(k, v). (k, f k v)) ms)))"
    by (force simp: image_iff)
  from allOk_fails [OF this] show ?case by (auto simp: f_def)
qed simp_all

text \<open>
  Canonical JSON accepts exactly the plain JSON values, and two accepted values get the same
  bytes exactly when they differ at most in the order of object keys.
\<close>

lemma canonical_json_exact:
  "succeeds (canonicalJson path v) = isJson v
   \<and> (isJson v \<and> isJson w \<longrightarrow> (canonicalJson path v = canonicalJson path' w) = (canonValue v = canonValue w))"
proof (intro conjI impI)
  show "succeeds (canonicalJson path v) = isJson v"
    using canonicalJson_json [of v path] canonicalJson_not_json [of v path] by (cases "isJson v") auto
next
  assume "isJson v \<and> isJson w"
  then have json: "isJson v" "isJson w" by simp_all
  have "canonValue v = canonValue w" if "renderJson (canonValue v) = renderJson (canonValue w)"
    using prefixCodeD [OF render_prefix, of "canonValue v" "canonValue w" "[]" "[]"] that json
    by (simp add: ended_def)
  then show "(canonicalJson path v = canonicalJson path' w) = (canonValue v = canonValue w)"
    using canonicalJson_json [OF json(1), of path] canonicalJson_json [OF json(2), of path'] by auto
qed

section \<open>The preimage\<close>

record utcDate =
  udYear :: int
  udMonth :: nat
  udDay :: nat
  udHours :: nat
  udMinutes :: nat
  udSeconds :: nat
  udMillis :: nat

definition padded :: "nat \<Rightarrow> nat \<Rightarrow> string" where
  "padded width n = padStart width (CHR ''0'') (decString n)"

text \<open>\<open>Date.prototype.toISOString\<close>: years outside 0 to 9999 are signed and six digits wide.\<close>

definition isoYear :: "int \<Rightarrow> string" where
  "isoYear y = (if 0 \<le> y \<and> y \<le> 9999 then padded 4 (nat y)
     else if y < 0 then CHR ''-'' # padded 6 (nat (- y)) else CHR ''+'' # padded 6 (nat y))"

definition toISOString :: "utcDate \<Rightarrow> string" where
  "toISOString d = isoYear (udYear d) @ ''-'' @ padded 2 (udMonth d) @ ''-'' @ padded 2 (udDay d)
     @ ''T'' @ padded 2 (udHours d) @ '':'' @ padded 2 (udMinutes d) @ '':'' @ padded 2 (udSeconds d)
     @ ''.'' @ padded 3 (udMillis d) @ ''Z''"

record hashable =
  heSeq :: int
  heOccurredAt :: utcDate
  heAction :: string
  heResourceType :: string
  heResourceId :: string
  heDetails :: jsValue
  heActorId :: "string option"
  heActorRole :: "string option"
  heCorrelationId :: "string option"
  hePrevHash :: string

record auditEntry = hashable +
  aeHash :: string

definition genesisHash :: string where
  "genesisHash = replicate 64 (CHR ''0'')"

definition preimageVersion :: string where
  "preimageVersion = ''audit-chain-v1''"

definition firstSeq :: int where
  "firstSeq = 1"

definition isChainHash :: "string \<Rightarrow> bool" where
  "isChainHash value = (length value = 64
     \<and> list_all (\<lambda>c. isDigit c \<or> 97 \<le> (of_char c :: nat) \<and> (of_char c :: nat) \<le> 102) value)"

definition preimageField :: "string \<Rightarrow> string option \<Rightarrow> string" where
  "preimageField name v = (case v of
     None \<Rightarrow> name @ '':null'' @ [CHR 0x0A]
   | Some s \<Rightarrow> name @ '':'' @ decString (length s) @ '':'' @ s @ [CHR 0x0A])"

definition auditEntryPreimage :: "'a hashable_scheme \<Rightarrow> auditEncodingError + string" where
  "auditEntryPreimage entry = rbind (canonicalJson ''details'' (heDetails entry)) (\<lambda>details. Inr (
     preimageField ''version'' (Some preimageVersion)
     @ preimageField ''seq'' (Some (intString (heSeq entry)))
     @ preimageField ''occurredAt'' (Some (toISOString (heOccurredAt entry)))
     @ preimageField ''action'' (Some (heAction entry))
     @ preimageField ''resourceType'' (Some (heResourceType entry))
     @ preimageField ''resourceId'' (Some (heResourceId entry))
     @ preimageField ''actorId'' (heActorId entry)
     @ preimageField ''actorRole'' (heActorRole entry)
     @ preimageField ''correlationId'' (heCorrelationId entry)
     @ preimageField ''details'' (Some details)
     @ preimageField ''prevHash'' (Some (hePrevHash entry))))"

definition auditEntryHash :: "(string \<Rightarrow> string) \<Rightarrow> 'a hashable_scheme \<Rightarrow> auditEncodingError + string" where
  "auditEntryHash sha256 entry = rbind (auditEntryPreimage entry) (\<lambda>p. Inr (sha256 p))"

lemma digitChar_0: "CHR ''0'' = digitChar 0"
  by (simp add: digitChar_def char_of_def bit_0)

lemma isoPadded_digits [simp]: "list_all isDigit (padded w n)"
  by (auto simp: padded_def padStart_def list_all_iff digitChar_0 decString_digits)

lemma decValue_padded [simp]: "decValue (padded w n) = n"
  by (simp add: padded_def padStart_def digitChar_0 decValue_append)

lemma padded_nonempty [simp]: "padded w n \<noteq> []"
  by (simp add: padded_def padStart_def)

lemma padded_prefix:
  assumes "padded w m @ c # r = padded w n @ c # u" and "\<not> isDigit c"
  shows "m = n \<and> r = u"
proof -
  from digits_before [OF _ _ assms(1)] assms(2) have "padded w m = padded w n" "r = u" by simp_all
  then show ?thesis by (metis decValue_padded)
qed

lemma isoYear_prefix:
  assumes "isoYear y @ CHR ''-'' # r = isoYear z @ CHR ''-'' # u"
  shows "y = z \<and> r = u"
proof -
  have kinds: "hd (isoYear y) = (if 0 \<le> y \<and> y \<le> 9999 then hd (padded 4 (nat y)) else if y < 0 then CHR ''-'' else CHR ''+'')" for y
    by (simp add: isoYear_def)
  have digit: "isDigit (hd (padded w n))" for w n
    using isoPadded_digits [of w n] padded_nonempty [of w n] by (cases "padded w n") simp_all
  then have signs: "CHR ''-'' \<noteq> hd (padded w n)" "CHR ''+'' \<noteq> hd (padded w n)" for w n
    by (metis not_digit_marks(1), metis not_digit_marks(9))
  have "isoYear x \<noteq> []" for x by (simp add: isoYear_def)
  then have heads: "hd (isoYear y) = hd (isoYear z)" using assms by (metis hd_append2)
  have same: "(0 \<le> y \<and> y \<le> 9999) = (0 \<le> z \<and> z \<le> 9999)" "(y < 0) = (z < 0)"
    using heads digit [of 4 "nat y"] digit [of 4 "nat z"] signs unfolding kinds by (auto split: if_splits)
  consider "0 \<le> y" "y \<le> 9999" | "y < 0" | "9999 < y" by linarith
  then show ?thesis
  proof cases
    case 1
    then show ?thesis using same assms padded_prefix [of 4 "nat y" "CHR ''-''" r "nat z" u] by (simp add: isoYear_def eq_nat_nat_iff)
  next
    case 2
    then show ?thesis using same assms padded_prefix [of 6 "nat (- y)" "CHR ''-''" r "nat (- z)" u] by (simp add: isoYear_def eq_nat_nat_iff)
  next
    case 3
    then show ?thesis using same assms padded_prefix [of 6 "nat y" "CHR ''-''" r "nat z" u] by (simp add: isoYear_def eq_nat_nat_iff)
  qed
qed

lemma toISOString_inject:
  assumes "toISOString d = toISOString e"
  shows "d = e"
proof -
  have "isoYear (udYear d) @ CHR ''-'' # drop 1 (drop (length (isoYear (udYear d))) (toISOString d))
      = isoYear (udYear e) @ CHR ''-'' # drop 1 (drop (length (isoYear (udYear e))) (toISOString e))"
    using assms by (simp add: toISOString_def)
  from isoYear_prefix [OF this] assms have y: "udYear d = udYear e" by simp
  then have "padded 2 (udMonth d) @ CHR ''-'' # padded 2 (udDay d) @ ''T'' @ padded 2 (udHours d) @ '':'' @ padded 2 (udMinutes d)
        @ '':'' @ padded 2 (udSeconds d) @ ''.'' @ padded 3 (udMillis d) @ ''Z''
      = padded 2 (udMonth e) @ CHR ''-'' # padded 2 (udDay e) @ ''T'' @ padded 2 (udHours e) @ '':'' @ padded 2 (udMinutes e)
        @ '':'' @ padded 2 (udSeconds e) @ ''.'' @ padded 3 (udMillis e) @ ''Z''"
    using assms by (simp add: toISOString_def)
  from padded_prefix [OF this]
  have m: "udMonth d = udMonth e" and "padded 2 (udDay d) @ CHR ''T'' # padded 2 (udHours d) @ '':'' @ padded 2 (udMinutes d)
        @ '':'' @ padded 2 (udSeconds d) @ ''.'' @ padded 3 (udMillis d) @ ''Z''
      = padded 2 (udDay e) @ CHR ''T'' # padded 2 (udHours e) @ '':'' @ padded 2 (udMinutes e)
        @ '':'' @ padded 2 (udSeconds e) @ ''.'' @ padded 3 (udMillis e) @ ''Z''" by simp_all
  from padded_prefix [OF this(2)]
  have dd: "udDay d = udDay e" and "padded 2 (udHours d) @ CHR '':'' # padded 2 (udMinutes d)
        @ '':'' @ padded 2 (udSeconds d) @ ''.'' @ padded 3 (udMillis d) @ ''Z''
      = padded 2 (udHours e) @ CHR '':'' # padded 2 (udMinutes e)
        @ '':'' @ padded 2 (udSeconds e) @ ''.'' @ padded 3 (udMillis e) @ ''Z''" by simp_all
  from padded_prefix [OF this(2)]
  have h: "udHours d = udHours e" and "padded 2 (udMinutes d) @ CHR '':'' # padded 2 (udSeconds d) @ ''.'' @ padded 3 (udMillis d) @ ''Z''
      = padded 2 (udMinutes e) @ CHR '':'' # padded 2 (udSeconds e) @ ''.'' @ padded 3 (udMillis e) @ ''Z''" by simp_all
  from padded_prefix [OF this(2)]
  have mi: "udMinutes d = udMinutes e" and "padded 2 (udSeconds d) @ CHR ''.'' # padded 3 (udMillis d) @ ''Z''
      = padded 2 (udSeconds e) @ CHR ''.'' # padded 3 (udMillis e) @ ''Z''" by simp_all
  from padded_prefix [OF this(2)]
  have sc: "udSeconds d = udSeconds e" and "padded 3 (udMillis d) @ CHR ''Z'' # [] = padded 3 (udMillis e) @ CHR ''Z'' # []"
    by simp_all
  from padded_prefix [OF this(2)] y m dd h mi sc show "d = e" by (cases d, cases e) simp
qed

lemma preimageField_prefix:
  assumes "preimageField name v @ r = preimageField name w @ u"
  shows "v = w \<and> r = u"
proof -
  have null: False if "CHR ''n'' # x = decString n @ y" for x n y
    using that decString_hd [of n] by (cases "decString n") auto
  show ?thesis
  proof (cases v; cases w)
    fix s t
    assume vw: "v = Some s" "w = Some t"
    with assms have eq: "decString (length s) @ (CHR '':'' # s @ CHR 0x0A # r) = decString (length t) @ (CHR '':'' # t @ CHR 0x0A # u)"
      by (simp add: preimageField_def)
    from decString_prefix [OF eq] have "length s = length t" "s @ CHR 0x0A # r = t @ CHR 0x0A # u" by simp_all
    with vw show ?thesis by simp
  next
    fix t assume "v = None" "w = Some t"
    with assms null [of "''ull'' @ CHR 0x0A # r" "length t" "CHR '':'' # t @ CHR 0x0A # u"] show ?thesis
      by (simp add: preimageField_def)
  next
    fix s assume "v = Some s" "w = None"
    with assms null [of "''ull'' @ CHR 0x0A # u" "length s" "CHR '':'' # s @ CHR 0x0A # r"] show ?thesis
      by (simp add: preimageField_def)
  next
    assume "v = None" "w = None"
    with assms show ?thesis by (simp add: preimageField_def)
  qed
qed

text \<open>What two entries with the same hashed contents share.\<close>

definition sameContents :: "'a hashable_scheme \<Rightarrow> 'b hashable_scheme \<Rightarrow> bool" where
  "sameContents e f \<longleftrightarrow> heSeq e = heSeq f \<and> heOccurredAt e = heOccurredAt f \<and> heAction e = heAction f
     \<and> heResourceType e = heResourceType f \<and> heResourceId e = heResourceId f
     \<and> canonValue (heDetails e) = canonValue (heDetails f) \<and> heActorId e = heActorId f
     \<and> heActorRole e = heActorRole f \<and> heCorrelationId e = heCorrelationId f \<and> hePrevHash e = hePrevHash f"

lemma renderJson_inject: "isJson v \<Longrightarrow> isJson w \<Longrightarrow> renderJson v = renderJson w \<Longrightarrow> v = w"
  using prefixCodeD [OF render_prefix, of v w "[]" "[]"] by (simp add: ended_def)

lemma intString_inject: "intString m = intString n \<Longrightarrow> m = n"
  using intString_prefix [of m "[]" n "[]"] by simp

lemma auditEntryPreimage_json:
  assumes "auditEntryPreimage e = Inr p"
  shows "isJson (heDetails e)"
  using assms canonicalJson_not_json [of "heDetails e" "''details''"]
  by (cases "isJson (heDetails e)") (auto simp: auditEntryPreimage_def)

lemma auditEntryPreimage_inject:
  assumes "auditEntryPreimage e = Inr p" and "auditEntryPreimage f = Inr p"
  shows "sameContents e f"
proof -
  note je = auditEntryPreimage_json [OF assms(1)] and jf = auditEntryPreimage_json [OF assms(2)]
  have "auditEntryPreimage e = auditEntryPreimage f" using assms by simp
  note eq = this [unfolded auditEntryPreimage_def canonicalJson_json [OF je] canonicalJson_json [OF jf] rbind_Inr sum.inject]
  note eq1 = preimageField_prefix [OF eq]
  note eq2 = preimageField_prefix [OF conjunct2 [OF eq1]]
  note eq3 = preimageField_prefix [OF conjunct2 [OF eq2]]
  note eq4 = preimageField_prefix [OF conjunct2 [OF eq3]]
  note eq5 = preimageField_prefix [OF conjunct2 [OF eq4]]
  note eq6 = preimageField_prefix [OF conjunct2 [OF eq5]]
  note eq7 = preimageField_prefix [OF conjunct2 [OF eq6]]
  note eq8 = preimageField_prefix [OF conjunct2 [OF eq7]]
  note eq9 = preimageField_prefix [OF conjunct2 [OF eq8]]
  note eq10 = preimageField_prefix [OF conjunct2 [OF eq9]]
  have "hePrevHash e = hePrevHash f"
    using preimageField_prefix [of "''prevHash''" "Some (hePrevHash e)" "[]" "Some (hePrevHash f)" "[]"] conjunct2 [OF eq10] by simp
  moreover have "heSeq e = heSeq f" using eq2 intString_inject by blast
  moreover have "heOccurredAt e = heOccurredAt f" using eq3 toISOString_inject by blast
  moreover have "canonValue (heDetails e) = canonValue (heDetails f)"
    using renderJson_inject [of "canonValue (heDetails e)" "canonValue (heDetails f)"] eq10 je jf by simp
  ultimately show ?thesis using eq4 eq5 eq6 eq7 eq8 eq9 by (simp add: sameContents_def)
qed

lemma sameContents_preimage:
  assumes "sameContents e f" and "isJson (heDetails e)" and "isJson (heDetails f)"
  shows "auditEntryPreimage e = auditEntryPreimage f"
  using assms by (simp add: auditEntryPreimage_def canonicalJson_json sameContents_def)

text \<open>
  \<^bold>\<open>C14.\<close> The hashed bytes determine the entry: two entries whose preimages are equal agree in
  every field, and in their details up to the order of object keys. No choice of field contents
  (separators, digits, line ends, the word null) moves a boundary between fields.
\<close>

theorem preimage_injective:
  assumes "auditEntryPreimage e = Inr p" and "auditEntryPreimage f = Inr q"
  shows "p = q \<longleftrightarrow> sameContents e f"
  using assms auditEntryPreimage_inject [of e p f] sameContents_preimage [of e f]
    auditEntryPreimage_json [OF assms(1)] auditEntryPreimage_json [OF assms(2)] by auto

definition sampleDate :: utcDate where
  "sampleDate = \<lparr>udYear = 2026, udMonth = 9, udDay = 16, udHours = 8, udMinutes = 5, udSeconds = 0, udMillis = 7\<rparr>"

definition sampleEntry :: "string \<Rightarrow> string option \<Rightarrow> hashable" where
  "sampleEntry rid actor = \<lparr>heSeq = 1, heOccurredAt = sampleDate, heAction = ''user.deleted'', heResourceType = ''user'',
     heResourceId = rid, heDetails = VObj [(''email'', VStr ''a@b'')], heActorId = actor, heActorRole = None,
     heCorrelationId = None, hePrevHash = genesisHash\<rparr>"

theorem preimage_injective_witness:
  "\<exists>p q. auditEntryPreimage (sampleEntry ''u'' None) = Inr p \<and> auditEntryPreimage (sampleEntry ''u'' (Some '''')) = Inr q \<and> p \<noteq> q"
proof -
  obtain p q where pq: "auditEntryPreimage (sampleEntry ''u'' None) = Inr p"
    "auditEntryPreimage (sampleEntry ''u'' (Some '''')) = Inr q"
    by (simp add: auditEntryPreimage_def sampleEntry_def canonicalJson_json del: canonicalJson.simps)
  from preimage_injective [OF pq] pq show ?thesis by (auto simp: sameContents_def sampleEntry_def)
qed

section \<open>Sealing a draft\<close>

definition auditActions :: "string \<Rightarrow> string option" where
  "auditActions = map_of [(''user.registered'', ''user''), (''user.deleted'', ''user''),
     (''auth.refresh_token_reuse_detected'', ''refresh_token_family'')]"

record auditActor =
  acId :: string
  acRole :: string

record newAuditEntry =
  neAction :: string
  neResourceId :: string
  neDetails :: jsValue
  neActor :: "auditActor option"
  neCorrelationId :: "string option"
  neOccurredAt :: utcDate

definition placedEntry :: "newAuditEntry \<Rightarrow> string \<Rightarrow> int \<Rightarrow> string \<Rightarrow> hashable" where
  "placedEntry draft resourceType seq prevHash =
     \<lparr>heSeq = seq, heOccurredAt = neOccurredAt draft, heAction = neAction draft, heResourceType = resourceType,
      heResourceId = neResourceId draft, heDetails = neDetails draft, heActorId = map_option acId (neActor draft),
      heActorRole = map_option acRole (neActor draft), heCorrelationId = neCorrelationId draft, hePrevHash = prevHash\<rparr>"

definition sealAuditEntry ::
    "(string \<Rightarrow> string) \<Rightarrow> newAuditEntry \<Rightarrow> int \<Rightarrow> string \<Rightarrow> auditEncodingError + auditEntry" where
  "sealAuditEntry sha256 draft seq prevHash =
     (if \<not> isChainHash prevHash \<and> prevHash \<noteq> genesisHash
      then Inl (AuditEncodingError (''prevHash '' @ jsonString prevHash @ '' is not a chain hash''))
      else case auditActions (neAction draft) of
        None \<Rightarrow> Inl (AuditEncodingError (jsonString (neAction draft)
            @ '' is not in AUDIT_ACTIONS, so there is no resource type to record it against''))
      | Some resourceType \<Rightarrow>
          let placed = placedEntry draft resourceType seq prevHash
          in rbind (auditEntryHash sha256 placed) (\<lambda>h. Inr (hashable.extend placed (auditEntry.fields h))))"

lemma preimage_extend [simp]: "auditEntryPreimage (hashable.extend p x) = auditEntryPreimage p"
  by (cases p) (simp add: auditEntryPreimage_def hashable.defs)

lemma hash_extend [simp]: "auditEntryHash sha256 (hashable.extend p x) = auditEntryHash sha256 p"
  by (simp add: auditEntryHash_def)

lemma sealAuditEntry_Inr:
  assumes "sealAuditEntry sha256 draft seq prevHash = Inr e"
  shows "heSeq e = seq \<and> hePrevHash e = prevHash \<and> auditEntryHash sha256 e = Inr (aeHash e)
    \<and> auditActions (heAction e) = Some (heResourceType e) \<and> isJson (heDetails e)
    \<and> heAction e = neAction draft \<and> heDetails e = neDetails draft \<and> heResourceId e = neResourceId draft"
proof -
  from assms obtain rt h where
    e: "e = hashable.extend (placedEntry draft rt seq prevHash) (auditEntry.fields h)"
    and h: "auditEntryHash sha256 (placedEntry draft rt seq prevHash) = Inr h" and rt: "auditActions (neAction draft) = Some rt"
    by (auto simp: sealAuditEntry_def Let_def rbind_eq_Inr_iff split: if_splits option.splits)
  from h have "isJson (neDetails draft)"
    using auditEntryPreimage_json [of "placedEntry draft rt seq prevHash"]
    by (auto simp: auditEntryHash_def rbind_eq_Inr_iff placedEntry_def)
  then show ?thesis
    using h rt unfolding e hash_extend by (simp add: placedEntry_def hashable.defs auditEntry.defs)
qed

text \<open>A draft is refused exactly for an unknown action, unencodable details or a bad link.\<close>

lemma sealAuditEntry_accepts:
  assumes "isChainHash prevHash \<or> prevHash = genesisHash" and "auditActions (neAction draft) = Some rt" and "isJson (neDetails draft)"
  obtains e where "sealAuditEntry sha256 draft seq prevHash = Inr e"
  using assms
  by (auto simp: sealAuditEntry_def Let_def auditEntryHash_def auditEntryPreimage_def placedEntry_def canonicalJson_json)

end
