(* ===== verification/AuditLog.thy ===== *)
theory AuditLog
  imports AuditHash
begin

text \<open>
  The audit chain: appending to it through the two stores (\<open>audit/prisma-audit-log.store.ts\<close>
  and \<open>test-utils/in-memory-audit-log.store.ts\<close>) and verifying it page by page
  (\<open>audit/audit-chain.verifier.ts\<close>).

  The in-memory store is the list of its entries. The Postgres table is the list of its rows in
  no particular order, with distinct \<open>seq\<close> (the primary key). An append runs under an advisory
  lock held to the end of the transaction, so transactions that append run one after another:
  \<open>sqlTransaction\<close> is one of them, with the appends it makes and whether it commits.

  The verifier's loop is \<open>verifyLoop\<close>, over whatever store it reads; \<open>None\<close> would be a loop that
  never ends. The locale \<open>audit_reader\<close> states what it needs of \<open>read\<close>, and both stores provide
  it.
\<close>

section \<open>Inspecting one entry\<close>

datatype breachKind = WrongGenesis | Gap | BrokenLink | ForgedHash

record auditChainBreach =
  brSeq :: int
  brKind :: breachKind

record auditChainReport =
  arIntact :: bool
  arChecked :: nat
  arFirstSeq :: "int option"
  arLastSeq :: "int option"
  arHeadHash :: "string option"
  arBreach :: "auditChainBreach option"

definition inspect ::
    "(string \<Rightarrow> string) \<Rightarrow> auditEntry \<Rightarrow> auditEntry option \<Rightarrow> auditEncodingError + auditChainBreach option" where
  "inspect sha256 entry previous = (let
     expectedSeq = (case previous of Some p \<Rightarrow> heSeq p + 1 | None \<Rightarrow> firstSeq);
     expectedPrevHash = (case previous of Some p \<Rightarrow> aeHash p | None \<Rightarrow> genesisHash)
   in if heSeq entry \<noteq> expectedSeq
      then Inr (Some \<lparr>brSeq = expectedSeq, brKind = (case previous of Some _ \<Rightarrow> Gap | None \<Rightarrow> WrongGenesis)\<rparr>)
      else if hePrevHash entry \<noteq> expectedPrevHash
      then Inr (Some \<lparr>brSeq = heSeq entry, brKind = BrokenLink\<rparr>)
      else rbind (auditEntryHash sha256 entry) (\<lambda>recomputed.
        if recomputed \<noteq> aeHash entry then Inr (Some \<lparr>brSeq = heSeq entry, brKind = ForgedHash\<rparr>)
        else Inr None))"

section \<open>Walking the chain\<close>

record walkState =
  wkPrevious :: "auditEntry option"
  wkChecked :: nat
  wkFirstSeq :: "int option"

definition walkStart :: walkState where
  "walkStart = \<lparr>wkPrevious = None, wkChecked = 0, wkFirstSeq = None\<rparr>"

definition reportOf :: "walkState \<Rightarrow> auditChainBreach option \<Rightarrow> auditChainReport" where
  "reportOf st b = \<lparr>arIntact = (b = None), arChecked = wkChecked st, arFirstSeq = wkFirstSeq st,
     arLastSeq = map_option heSeq (wkPrevious st), arHeadHash = map_option aeHash (wkPrevious st), arBreach = b\<rparr>"

text \<open>The inner loop over a page: \<open>Inl\<close> of the inner sum is the report returned from inside it.\<close>

fun walkPage ::
    "(string \<Rightarrow> string) \<Rightarrow> auditEntry list \<Rightarrow> walkState \<Rightarrow> auditEncodingError + (auditChainReport + walkState)" where
  "walkPage sha256 [] st = Inr (Inr st)"
| "walkPage sha256 (entry # page) st =
     rbind (inspect sha256 entry (wkPrevious st)) (\<lambda>breach.
       case breach of
         Some b \<Rightarrow> Inr (Inl (reportOf st (Some b)))
       | None \<Rightarrow> walkPage sha256 page
           \<lparr>wkPrevious = Some entry, wkChecked = wkChecked st + 1,
            wkFirstSeq = (case wkFirstSeq st of None \<Rightarrow> Some (heSeq entry) | Some s \<Rightarrow> Some s)\<rparr>)"

definition verifyPageSize :: nat where
  "verifyPageSize = 500"

partial_function (option) verifyLoop ::
    "(string \<Rightarrow> string) \<Rightarrow> (int option \<Rightarrow> nat \<Rightarrow> auditEntry list) \<Rightarrow> nat \<Rightarrow> walkState
      \<Rightarrow> (auditEncodingError + auditChainReport) option" where
  "verifyLoop sha256 read pageSize st =
     (let page = read (map_option heSeq (wkPrevious st)) pageSize in
      if page = [] then Some (Inr (reportOf st None))
      else case walkPage sha256 page st of
        Inl e \<Rightarrow> Some (Inl e)
      | Inr (Inl report) \<Rightarrow> Some (Inr report)
      | Inr (Inr st') \<Rightarrow>
          if length page < pageSize then Some (Inr (reportOf st' None))
          else verifyLoop sha256 read pageSize st')"

definition verifyChain ::
    "(string \<Rightarrow> string) \<Rightarrow> (int option \<Rightarrow> nat \<Rightarrow> auditEntry list) \<Rightarrow> (auditEncodingError + auditChainReport) option" where
  "verifyChain sha256 read = verifyLoop sha256 read verifyPageSize walkStart"

text \<open>The reference: the same walk over the whole chain at once.\<close>

definition walkAll :: "(string \<Rightarrow> string) \<Rightarrow> auditEntry list \<Rightarrow> walkState \<Rightarrow> auditEncodingError + auditChainReport" where
  "walkAll sha256 entries st = rbind (walkPage sha256 entries st) (\<lambda>r.
     case r of Inl report \<Rightarrow> Inr report | Inr st' \<Rightarrow> Inr (reportOf st' None))"

section \<open>The stores\<close>

definition afterFilter :: "int option \<Rightarrow> auditEntry \<Rightarrow> bool" where
  "afterFilter afterSeq e = (case afterSeq of None \<Rightarrow> True | Some s \<Rightarrow> s < heSeq e)"

definition memReadAudit :: "auditEntry list \<Rightarrow> int option \<Rightarrow> nat \<Rightarrow> auditEntry list" where
  "memReadAudit entries afterSeq limit = take limit (filter (afterFilter afterSeq) entries)"

definition memHeadAudit :: "auditEntry list \<Rightarrow> auditEntry option" where
  "memHeadAudit entries = (if entries = [] then None else Some (last entries))"

definition memAppendAudit ::
    "(string \<Rightarrow> string) \<Rightarrow> newAuditEntry \<Rightarrow> auditEntry list \<Rightarrow> auditEncodingError + auditEntry \<times> auditEntry list" where
  "memAppendAudit sha256 draft entries = (let tail = memHeadAudit entries in
     rbind (sealAuditEntry sha256 draft
         (case tail of Some t \<Rightarrow> heSeq t + 1 | None \<Rightarrow> firstSeq) (case tail of Some t \<Rightarrow> aeHash t | None \<Rightarrow> genesisHash))
       (\<lambda>entry. Inr (entry, entries @ [entry])))"

text \<open>The compensation an append registers with its transaction.\<close>

definition memRollbackAudit :: "auditEntry \<Rightarrow> auditEntry list \<Rightarrow> auditEntry list" where
  "memRollbackAudit entry entries = remove1 entry entries"

definition sqlReadAudit :: "auditEntry list \<Rightarrow> int option \<Rightarrow> nat \<Rightarrow> auditEntry list" where
  "sqlReadAudit table afterSeq limit = take limit (sort_key heSeq (filter (afterFilter afterSeq) table))"

definition sqlHeadAudit :: "auditEntry list \<Rightarrow> auditEntry option" where
  "sqlHeadAudit table = (if table = [] then None else Some (last (sort_key heSeq table)))"

definition sqlAppendAudit ::
    "(string \<Rightarrow> string) \<Rightarrow> newAuditEntry \<Rightarrow> auditEntry list \<Rightarrow> auditEncodingError + auditEntry \<times> auditEntry list" where
  "sqlAppendAudit sha256 draft table = (let tail = sqlHeadAudit table in
     rbind (sealAuditEntry sha256 draft
         (case tail of Some t \<Rightarrow> heSeq t + 1 | None \<Rightarrow> firstSeq) (case tail of Some t \<Rightarrow> aeHash t | None \<Rightarrow> genesisHash))
       (\<lambda>entry. Inr (entry, entry # table)))"

text \<open>
  The transaction a unit of work appends in: an append that throws rolls it back, as does a
  failure of the caller's own (\<open>commits = False\<close>).
\<close>

fun sqlAppendAll ::
    "(string \<Rightarrow> string) \<Rightarrow> newAuditEntry list \<Rightarrow> auditEntry list \<Rightarrow> auditEncodingError + auditEntry list" where
  "sqlAppendAll sha256 [] table = Inr table"
| "sqlAppendAll sha256 (d # ds) table = rbind (sqlAppendAudit sha256 d table) (\<lambda>(_, table'). sqlAppendAll sha256 ds table')"

definition sqlTransaction ::
    "(string \<Rightarrow> string) \<Rightarrow> newAuditEntry list \<times> bool \<Rightarrow> auditEntry list \<Rightarrow> auditEntry list" where
  "sqlTransaction sha256 tx table = (case tx of (drafts, commits) \<Rightarrow>
     case sqlAppendAll sha256 drafts table of
       Inl _ \<Rightarrow> table
     | Inr table' \<Rightarrow> if commits then table' else table)"

text \<open>\<open>AuditLog.record\<close>: the draft it stores, with the context's omissions read as null.\<close>

definition recordAudit :: "string \<Rightarrow> string \<Rightarrow> jsValue \<Rightarrow> auditActor option \<Rightarrow> string option \<Rightarrow> utcDate \<Rightarrow> newAuditEntry" where
  "recordAudit action resourceId details actor correlationId now =
     \<lparr>neAction = action, neResourceId = resourceId, neDetails = details, neActor = actor,
      neCorrelationId = correlationId, neOccurredAt = now\<rparr>"

section \<open>What a sound chain is\<close>

definition soundAt :: "(string \<Rightarrow> string) \<Rightarrow> auditEntry list \<Rightarrow> nat \<Rightarrow> bool" where
  "soundAt sha256 entries i \<longleftrightarrow> heSeq (entries ! i) = int i + 1
     \<and> hePrevHash (entries ! i) = (if i = 0 then genesisHash else aeHash (entries ! (i - 1)))
     \<and> auditEntryHash sha256 (entries ! i) = Inr (aeHash (entries ! i))"

definition validChain :: "(string \<Rightarrow> string) \<Rightarrow> auditEntry list \<Rightarrow> bool" where
  "validChain sha256 entries \<longleftrightarrow> list_all (soundAt sha256 entries) [0..<length entries]"

definition lastEntry :: "auditEntry list \<Rightarrow> auditEntry option" where
  "lastEntry xs = (if xs = [] then None else Some (last xs))"

definition stateAfter :: "auditEntry list \<Rightarrow> walkState" where
  "stateAfter xs = \<lparr>wkPrevious = lastEntry xs, wkChecked = length xs,
     wkFirstSeq = (if xs = [] then None else Some (heSeq (hd xs)))\<rparr>"

lemma lastEntry_Nil [simp]: "lastEntry [] = None"
  by (simp add: lastEntry_def)

lemma stateAfter_Nil: "stateAfter [] = walkStart"
  by (simp add: stateAfter_def walkStart_def lastEntry_def)

lemma validChain_Nil [simp]: "validChain sha256 []"
  by (simp add: validChain_def)

lemma soundAt_append: "i < length xs \<Longrightarrow> soundAt sha256 (xs @ ys) i = soundAt sha256 xs i"
  by (cases i) (simp_all add: soundAt_def nth_append)

lemma validChain_snoc:
  "validChain sha256 (xs @ [x]) \<longleftrightarrow> validChain sha256 xs \<and> heSeq x = int (length xs) + 1
     \<and> hePrevHash x = (case lastEntry xs of None \<Rightarrow> genesisHash | Some p \<Rightarrow> aeHash p)
     \<and> auditEntryHash sha256 x = Inr (aeHash x)"
proof -
  have "list_all (soundAt sha256 (xs @ [x])) [0..<length xs] = list_all (soundAt sha256 xs) [0..<length xs]"
    by (simp add: list_all_iff soundAt_append)
  moreover have "soundAt sha256 (xs @ [x]) (length xs) \<longleftrightarrow> heSeq x = int (length xs) + 1
      \<and> hePrevHash x = (case lastEntry xs of None \<Rightarrow> genesisHash | Some p \<Rightarrow> aeHash p) \<and> auditEntryHash sha256 x = Inr (aeHash x)"
    by (cases xs rule: rev_cases) (auto simp: soundAt_def lastEntry_def nth_append)
  ultimately show ?thesis by (simp add: validChain_def)
qed

lemma validChain_prefix: "validChain sha256 (xs @ ys) \<Longrightarrow> validChain sha256 xs"
  by (induction ys rule: rev_induct) (simp_all add: append_assoc [symmetric] validChain_snoc del: append_assoc)

lemma validChain_last:
  assumes "validChain sha256 xs" and "lastEntry xs = Some p"
  shows "heSeq p = int (length xs)"
  using assms by (cases xs rule: rev_cases) (simp_all add: lastEntry_def validChain_snoc)

lemma auditEntryHash_total:
  assumes "isJson (heDetails e)"
  obtains h where "auditEntryHash sha256 e = Inr h"
  using assms by (simp add: auditEntryHash_def auditEntryPreimage_def canonicalJson_json)

lemma inspect_exact:
  assumes "validChain sha256 xs" and "isJson (heDetails y)"
  shows "\<exists>b. inspect sha256 y (lastEntry xs) = Inr b \<and> (b = None \<longleftrightarrow> validChain sha256 (xs @ [y]))"
proof -
  obtain h where h: "auditEntryHash sha256 y = Inr h" by (rule auditEntryHash_total [OF assms(2)])
  have "(case lastEntry xs of Some p \<Rightarrow> heSeq p + 1 | None \<Rightarrow> firstSeq) = int (length xs) + 1"
    using validChain_last [OF assms(1)]
    by (auto simp: firstSeq_def lastEntry_def split: option.splits if_splits)
  then show ?thesis
    using assms(1) h by (auto simp: inspect_def validChain_snoc Let_def)
qed

lemma walkPage_append:
  "walkPage sha256 (xs @ ys) st = rbind (walkPage sha256 xs st)
     (\<lambda>r. case r of Inl report \<Rightarrow> Inr (Inl report) | Inr st' \<Rightarrow> walkPage sha256 ys st')"
proof (induction xs arbitrary: st)
  case (Cons x xs)
  show ?case
  proof (cases "inspect sha256 x (wkPrevious st)")
    case (Inr b)
    then show ?thesis by (cases b) (simp_all add: Cons.IH)
  qed simp
qed simp

lemma walkPage_exact:
  assumes "validChain sha256 xs" and "\<forall>y \<in> set ys. isJson (heDetails y)"
  obtains n where "n \<le> length ys" "validChain sha256 (xs @ take n ys)"
    "if n = length ys then walkPage sha256 ys (stateAfter xs) = Inr (Inr (stateAfter (xs @ ys)))
     else \<not> validChain sha256 (xs @ take (Suc n) ys)
       \<and> (\<exists>b. walkPage sha256 ys (stateAfter xs) = Inr (Inl (reportOf (stateAfter (xs @ take n ys)) (Some b))))"
  using assms
proof (induction ys arbitrary: xs thesis)
  case Nil
  then show ?case by simp
next
  case (Cons y ys)
  obtain b where b: "inspect sha256 y (lastEntry xs) = Inr b" "b = None \<longleftrightarrow> validChain sha256 (xs @ [y])"
    using inspect_exact [OF Cons.prems(2), of y] Cons.prems(3) by auto
  show ?case
  proof (cases b)
    case (Some br)
    then show ?thesis
      using b Cons.prems(2) by (intro Cons.prems(1) [of 0]) (auto simp: stateAfter_def)
  next
    case None
    with b have valid: "validChain sha256 (xs @ [y])" by simp
    have step: "walkPage sha256 (y # ys) (stateAfter xs) = walkPage sha256 ys (stateAfter (xs @ [y]))"
      using b(1) None by (cases xs) (simp_all add: stateAfter_def lastEntry_def)
    have json: "\<forall>y \<in> set ys. isJson (heDetails y)" using Cons.prems(3) by simp
    obtain n where n: "n \<le> length ys" "validChain sha256 ((xs @ [y]) @ take n ys)"
      "if n = length ys then walkPage sha256 ys (stateAfter (xs @ [y])) = Inr (Inr (stateAfter ((xs @ [y]) @ ys)))
       else \<not> validChain sha256 ((xs @ [y]) @ take (Suc n) ys)
         \<and> (\<exists>b. walkPage sha256 ys (stateAfter (xs @ [y])) = Inr (Inl (reportOf (stateAfter ((xs @ [y]) @ take n ys)) (Some b))))"
      by (rule Cons.IH [OF _ valid json])
    show ?thesis
      by (rule Cons.prems(1) [of "Suc n"]) (use n step in \<open>auto split: if_splits\<close>)
  qed
qed

text \<open>What a report says of the chain it was made for.\<close>

definition reportExact :: "(string \<Rightarrow> string) \<Rightarrow> auditEntry list \<Rightarrow> auditChainReport \<Rightarrow> bool" where
  "reportExact sha256 rows rep \<longleftrightarrow>
     (arIntact rep \<longleftrightarrow> validChain sha256 rows) \<and> (arIntact rep \<longleftrightarrow> arBreach rep = None)
     \<and> arChecked rep \<le> length rows \<and> (arIntact rep \<longleftrightarrow> arChecked rep = length rows)
     \<and> validChain sha256 (take (arChecked rep) rows)
     \<and> arHeadHash rep = map_option aeHash (lastEntry (take (arChecked rep) rows))
     \<and> arLastSeq rep = (if arChecked rep = 0 then None else Some (int (arChecked rep)))
     \<and> arFirstSeq rep = (if arChecked rep = 0 then None else Some 1)
     \<and> (\<not> arIntact rep \<longrightarrow> \<not> validChain sha256 (take (Suc (arChecked rep)) rows))"

lemma validChain_first: "validChain sha256 (x # xs) \<Longrightarrow> heSeq x = 1"
  using validChain_prefix [of sha256 "[x]" xs] validChain_snoc [of sha256 "[]" x] by simp

lemma walkAll_exact:
  assumes "\<forall>y \<in> set rows. isJson (heDetails y)"
  obtains rep where "walkAll sha256 rows walkStart = Inr rep" "reportExact sha256 rows rep"
proof -
  obtain n where n: "n \<le> length rows" "validChain sha256 ([] @ take n rows)"
    "if n = length rows then walkPage sha256 rows (stateAfter []) = Inr (Inr (stateAfter ([] @ rows)))
     else \<not> validChain sha256 ([] @ take (Suc n) rows)
       \<and> (\<exists>b. walkPage sha256 rows (stateAfter []) = Inr (Inl (reportOf (stateAfter ([] @ take n rows)) (Some b))))"
    by (rule walkPage_exact [OF validChain_Nil assms])
  have seqs: "lastEntry (take n rows) = None \<and> n = 0 \<or> (\<exists>p. lastEntry (take n rows) = Some p \<and> heSeq p = int n \<and> n \<noteq> 0 \<and> heSeq (hd (take n rows)) = 1)
    \<or> rows = [] \<and> n = 0"
  proof (cases "take n rows")
    case (Cons x xs)
    then obtain p where p: "lastEntry (take n rows) = Some p" by (simp add: lastEntry_def)
    have "heSeq p = int n" using validChain_last [OF _ p] n(1,2) by simp
    moreover have "heSeq (hd (take n rows)) = 1" using validChain_first n(2) Cons by simp
    ultimately show ?thesis using p Cons by auto
  qed (use n(1) in \<open>auto simp: lastEntry_def\<close>)
  show thesis
  proof (cases "n = length rows")
    case True
    with n(3) have "walkAll sha256 rows walkStart = Inr (reportOf (stateAfter rows) None)"
      by (simp add: walkAll_def stateAfter_Nil)
    then show thesis
      using n(2) seqs True by (intro that) (auto simp: reportExact_def reportOf_def stateAfter_def)
  next
    case False
    with n(3) obtain b where walk: "walkPage sha256 rows walkStart = Inr (Inl (reportOf (stateAfter (take n rows)) (Some b)))"
      and bad: "\<not> validChain sha256 (take (Suc n) rows)" by (auto simp: stateAfter_Nil)
    from walk have "walkAll sha256 rows walkStart = Inr (reportOf (stateAfter (take n rows)) (Some b))"
      by (simp add: walkAll_def)
    moreover have "\<not> validChain sha256 rows"
      using bad validChain_prefix [of sha256 "take (Suc n) rows" "drop (Suc n) rows"] by auto
    ultimately show thesis
      using n(1,2) bad seqs False by (intro that) (auto simp: reportExact_def reportOf_def stateAfter_def min_absorb2)
  qed
qed

section \<open>Reading in pages\<close>

text \<open>
  What the verifier relies on: a read after \<open>afterSeq\<close> is the next \<open>limit\<close> entries of one fixed
  list whose \<open>seq\<close> increases.
\<close>

locale audit_reader =
  fixes read :: "'s \<Rightarrow> int option \<Rightarrow> nat \<Rightarrow> auditEntry list"
    and rows :: "'s \<Rightarrow> auditEntry list"
    and ok :: "'s \<Rightarrow> bool"
  assumes read_next: "ok s \<Longrightarrow> read s afterSeq limit = take limit (filter (afterFilter afterSeq) (rows s))"
    and rows_increasing: "ok s \<Longrightarrow> sorted_wrt (<) (map heSeq (rows s))"
begin

lemma read_after:
  assumes "ok s" and "rows s = done @ rest"
  shows "filter (afterFilter (map_option heSeq (lastEntry done))) (rows s) = rest"
proof (cases "done" rule: rev_cases)
  case Nil
  with assms(2) show ?thesis by (simp add: lastEntry_def afterFilter_def)
next
  case (snoc front p)
  have "\<forall>x \<in> set rest. heSeq p < heSeq x" "\<forall>x \<in> set front. heSeq x < heSeq p"
    using rows_increasing [OF assms(1)] assms(2) snoc by (auto simp: sorted_wrt_append)
  then have "filter (\<lambda>e. heSeq p < heSeq e) rest = rest" "filter (\<lambda>e. heSeq p < heSeq e) front = []"
    by (auto simp: filter_id_conv filter_empty_conv dest: order.asym)
  then show ?thesis
    using assms(2) snoc by (simp add: lastEntry_def afterFilter_def [abs_def])
qed

lemma verifyLoop_walks:
  assumes "ok s" and "rows s = done @ rest" and "validChain sha256 done" and "\<forall>y \<in> set rest. isJson (heDetails y)" and "0 < n"
  shows "verifyLoop sha256 (read s) n (stateAfter done) = Some (walkAll sha256 rest (stateAfter done))"
  using assms(2-4)
proof (induction "length rest" arbitrary: rest "done" rule: less_induct)
  case less
  have page: "read s (map_option heSeq (wkPrevious (stateAfter done))) n = take n rest"
    using read_after [OF assms(1) less.prems(1)] assms(1) by (simp add: read_next stateAfter_def)
  show ?case
  proof (cases "rest = []")
    case True
    then show ?thesis by (subst verifyLoop.simps) (simp add: page walkAll_def)
  next
    case False
    have json: "\<forall>y \<in> set (take n rest). isJson (heDetails y)" "\<forall>y \<in> set (drop n rest). isJson (heDetails y)"
      using less.prems(3) in_set_takeD in_set_dropD by fast+
    have split: "walkPage sha256 rest st = rbind (walkPage sha256 (take n rest) st)
        (\<lambda>r. case r of Inl report \<Rightarrow> Inr (Inl report) | Inr st' \<Rightarrow> walkPage sha256 (drop n rest) st')" for st
      using walkPage_append [of sha256 "take n rest" "drop n rest"] by simp
    obtain m where m: "m \<le> length (take n rest)" "validChain sha256 (done @ take m (take n rest))"
      "if m = length (take n rest) then walkPage sha256 (take n rest) (stateAfter done) = Inr (Inr (stateAfter (done @ take n rest)))
       else \<not> validChain sha256 (done @ take (Suc m) (take n rest))
         \<and> (\<exists>b. walkPage sha256 (take n rest) (stateAfter done) = Inr (Inl (reportOf (stateAfter (done @ take m (take n rest))) (Some b))))"
      by (rule walkPage_exact [OF less.prems(2) json(1)])
    show ?thesis
    proof (cases "m = length (take n rest)")
      case False
      with m(3) obtain b where "walkPage sha256 (take n rest) (stateAfter done) = Inr (Inl (reportOf (stateAfter (done @ take m (take n rest))) (Some b)))"
        by auto
      then show ?thesis
        using \<open>rest \<noteq> []\<close> \<open>0 < n\<close> by (subst verifyLoop.simps) (simp add: page walkAll_def split)
    next
      case True
      have "take m (take n rest) = take n rest" unfolding True by (rule take_all) (rule order_refl)
      with m(2) have valid: "validChain sha256 (done @ take n rest)" by (simp only:)
      from m(3) True have walk: "walkPage sha256 (take n rest) (stateAfter done) = Inr (Inr (stateAfter (done @ take n rest)))"
        by (simp del: length_take)
      show ?thesis
      proof (cases "length (take n rest) < n")
        case True
        then have whole: "take n rest = rest" "length rest < n" by simp_all
        show ?thesis
          using walk \<open>rest \<noteq> []\<close> whole(2) by (subst verifyLoop.simps) (simp add: page walkAll_def whole)
      next
        case False
        have "verifyLoop sha256 (read s) n (stateAfter (done @ take n rest))
            = Some (walkAll sha256 (drop n rest) (stateAfter (done @ take n rest)))"
          using less.prems(1) \<open>rest \<noteq> []\<close> \<open>0 < n\<close> by (intro less.hyps valid json(2)) auto
        then show ?thesis
          using False walk \<open>rest \<noteq> []\<close> \<open>0 < n\<close> by (subst verifyLoop.simps) (simp add: page walkAll_def split)
      qed
    qed
  qed
qed

lemma verifyChain_walks:
  assumes "ok s" and "\<forall>y \<in> set (rows s). isJson (heDetails y)"
  shows "verifyChain sha256 (read s) = Some (walkAll sha256 (rows s) walkStart)"
  using verifyLoop_walks [of s "[]" "rows s" sha256 verifyPageSize] assms
  by (simp add: verifyChain_def verifyPageSize_def stateAfter_Nil)

lemma verifyChain_exact:
  assumes "ok s" and "\<forall>y \<in> set (rows s). isJson (heDetails y)"
  obtains rep where "verifyChain sha256 (read s) = Some (Inr rep)" "reportExact sha256 (rows s) rep"
proof -
  obtain rep where "walkAll sha256 (rows s) walkStart = Inr rep" "reportExact sha256 (rows s) rep"
    by (rule walkAll_exact [OF assms(2)])
  with verifyChain_walks [OF assms] show thesis by (intro that) simp_all
qed

end

lemma sorted_key_distinct:
  assumes "distinct (map heSeq table)"
  shows "sorted_wrt (<) (map heSeq (sort_key heSeq table))"
  using assms by (simp add: strict_sorted_iff distinct_map inj_on_def)

interpretation sql_audit: audit_reader sqlReadAudit "sort_key heSeq" "\<lambda>table. distinct (map heSeq table)"
  by unfold_locales (simp_all add: sqlReadAudit_def filter_sort sorted_key_distinct)

interpretation mem_audit: audit_reader memReadAudit "\<lambda>entries. entries" "\<lambda>entries. sorted_wrt (<) (map heSeq entries)"
  by unfold_locales (simp_all add: memReadAudit_def)

section \<open>Appending\<close>

lemma insort_key_last: "\<forall>y \<in> set xs. f y < f x \<Longrightarrow> insort_key f x xs = xs @ [x]"
proof (induction xs)
  case (Cons y xs)
  then have "\<not> f x \<le> f y" by auto
  with Cons show ?case by simp
qed simp

lemma sqlHeadAudit_sorted: "sqlHeadAudit table = memHeadAudit (sort_key heSeq table)"
proof (cases "table = []")
  case False
  then have "sort_key heSeq table \<noteq> []" by (metis length_0_conv length_sort)
  with False show ?thesis by (simp add: sqlHeadAudit_def memHeadAudit_def)
qed (simp add: sqlHeadAudit_def memHeadAudit_def)

lemma memHead_greatest:
  assumes "sorted (map heSeq xs)" and "memHeadAudit xs = Some t"
  shows "\<forall>y \<in> set xs. heSeq y \<le> heSeq t"
  using assms by (cases xs rule: rev_cases) (auto simp: memHeadAudit_def sorted_append split: if_splits)

lemma memHeadAudit_last: "memHeadAudit = lastEntry"
  by (rule ext) (simp add: memHeadAudit_def lastEntry_def)

text \<open>
  The Postgres append, seen through the chain order of the table, is the append of the in-memory
  store: the same entry, or the same refusal, and the same chain after it.
\<close>

lemma sqlAppend_refines:
  "memAppendAudit sha256 draft (sort_key heSeq table)
   = rbind (sqlAppendAudit sha256 draft table) (\<lambda>(entry, table'). Inr (entry, sort_key heSeq table'))"
proof -
  define seq where "seq = (case memHeadAudit (sort_key heSeq table) of Some t \<Rightarrow> heSeq t + 1 | None \<Rightarrow> firstSeq)"
  define prev where "prev = (case memHeadAudit (sort_key heSeq table) of Some t \<Rightarrow> aeHash t | None \<Rightarrow> genesisHash)"
  have less: "\<forall>y \<in> set table. heSeq y < seq"
  proof (cases "memHeadAudit (sort_key heSeq table)")
    case None
    then have "sort_key heSeq table = []" by (simp add: memHeadAudit_def split: if_splits)
    then have "table = []" by (metis length_0_conv length_sort)
    then show ?thesis by simp
  next
    case (Some t)
    with memHead_greatest [OF sorted_sort_key [of heSeq table] Some] show ?thesis by (fastforce simp: seq_def)
  qed
  show ?thesis
  proof (cases "sealAuditEntry sha256 draft seq prev")
    case (Inl e)
    then show ?thesis
      by (simp add: memAppendAudit_def sqlAppendAudit_def sqlHeadAudit_sorted Let_def seq_def prev_def)
  next
    case (Inr e)
    with sealAuditEntry_Inr have "heSeq e = seq" by blast
    with less have "insort_key heSeq e (sort_key heSeq table) = sort_key heSeq table @ [e]"
      by (intro insort_key_last) simp
    with Inr show ?thesis
      by (simp add: memAppendAudit_def sqlAppendAudit_def sqlHeadAudit_sorted Let_def seq_def prev_def)
  qed
qed

lemma hex_of_sound:
  assumes "\<And>p. isChainHash (sha256 p)" and "auditEntryHash sha256 e = Inr (aeHash e)"
  shows "isChainHash (aeHash e)"
proof -
  from assms(2) obtain p where "sha256 p = aeHash e" by (auto simp: auditEntryHash_def rbind_eq_Inr_iff)
  with assms(1) [of p] show ?thesis by simp
qed

lemma memAppend_valid:
  assumes "validChain sha256 xs" and "memAppendAudit sha256 draft xs = Inr (e, ys)"
  shows "ys = xs @ [e] \<and> validChain sha256 ys"
proof -
  have seq: "(case lastEntry xs of Some t \<Rightarrow> heSeq t + 1 | None \<Rightarrow> firstSeq) = int (length xs) + 1"
    using validChain_last [OF assms(1)]
    by (auto simp: firstSeq_def lastEntry_def split: option.splits if_splits)
  from assms(2) have "sealAuditEntry sha256 draft (int (length xs) + 1)
      (case lastEntry xs of Some t \<Rightarrow> aeHash t | None \<Rightarrow> genesisHash) = Inr e" and ys: "ys = xs @ [e]"
    by (auto simp: memAppendAudit_def memHeadAudit_last Let_def rbind_eq_Inr_iff seq)
  from sealAuditEntry_Inr [OF this(1)] assms(1) ys show ?thesis by (simp add: validChain_snoc)
qed

lemma memAppend_accepts:
  assumes "\<And>p. isChainHash (sha256 p)" and "validChain sha256 xs"
    and "auditActions (neAction draft) = Some rt" and "isJson (neDetails draft)"
  obtains e where "memAppendAudit sha256 draft xs = Inr (e, xs @ [e])"
proof -
  have "isChainHash (aeHash t)" if "lastEntry xs = Some t" for t
    using that assms(2) hex_of_sound [OF assms(1)]
    by (cases xs rule: rev_cases) (auto simp: lastEntry_def validChain_snoc)
  then have "isChainHash prev \<or> prev = genesisHash"
    if "prev = (case lastEntry xs of Some t \<Rightarrow> aeHash t | None \<Rightarrow> genesisHash)" for prev
    using that by (auto split: option.splits)
  from sealAuditEntry_accepts [OF this [OF refl] assms(3,4)]
  obtain e where "sealAuditEntry sha256 draft (case lastEntry xs of Some t \<Rightarrow> heSeq t + 1 | None \<Rightarrow> firstSeq)
      (case lastEntry xs of Some t \<Rightarrow> aeHash t | None \<Rightarrow> genesisHash) = Inr e" .
  then show thesis by (intro that) (simp add: memAppendAudit_def memHeadAudit_last Let_def)
qed

text \<open>A table whose rows in order of \<open>seq\<close> are a sound chain.\<close>

definition chainTable :: "(string \<Rightarrow> string) \<Rightarrow> auditEntry list \<Rightarrow> bool" where
  "chainTable sha256 table \<longleftrightarrow> validChain sha256 (sort_key heSeq table)"

lemma validChain_seqs:
  assumes "validChain sha256 xs"
  shows "map heSeq xs = map (\<lambda>i. int i + 1) [0..<length xs]"
  using assms by (intro nth_equalityI) (auto simp: validChain_def list_all_iff soundAt_def)

lemma chainTable_distinct:
  assumes "chainTable sha256 table"
  shows "distinct (map heSeq table)"
proof -
  have "distinct (map heSeq (sort_key heSeq table))"
    using validChain_seqs [OF assms [unfolded chainTable_def]] by (simp only:) (simp add: distinct_map inj_on_def)
  then show ?thesis by (simp add: distinct_map)
qed

lemma validChain_json:
  assumes "validChain sha256 xs"
  shows "\<forall>y \<in> set xs. isJson (heDetails y)"
proof
  fix y assume "y \<in> set xs"
  then obtain i where i: "i < length xs" "y = xs ! i" by (auto simp: in_set_conv_nth)
  with assms have "soundAt sha256 xs i" by (simp add: validChain_def list_all_iff)
  with i show "isJson (heDetails y)"
    using auditEntryPreimage_json [of y] by (auto simp: soundAt_def auditEntryHash_def rbind_eq_Inr_iff)
qed

lemma sqlAppend_chain:
  assumes "chainTable sha256 table" and "sqlAppendAudit sha256 draft table = Inr (e, table')"
  shows "chainTable sha256 table' \<and> sort_key heSeq table' = sort_key heSeq table @ [e]"
proof -
  have "memAppendAudit sha256 draft (sort_key heSeq table) = Inr (e, sort_key heSeq table')"
    using assms(2) by (simp add: sqlAppend_refines)
  from memAppend_valid [OF assms(1) [unfolded chainTable_def] this]
  show ?thesis by (auto simp: chainTable_def simp del: append_assoc)
qed

lemma sqlAppendAll_chain:
  assumes "chainTable sha256 table" and "sqlAppendAll sha256 drafts table = Inr table'"
  shows "chainTable sha256 table' \<and> (\<exists>more. sort_key heSeq table' = sort_key heSeq table @ more \<and> length more = length drafts)"
  using assms
proof (induction drafts arbitrary: table)
  case (Cons d ds)
  then obtain e mid where app: "sqlAppendAudit sha256 d table = Inr (e, mid)" and rest: "sqlAppendAll sha256 ds mid = Inr table'"
    by (auto simp: rbind_eq_Inr_iff)
  from sqlAppend_chain [OF Cons.prems(1) app] have mid: "chainTable sha256 mid" "sort_key heSeq mid = sort_key heSeq table @ [e]" by simp_all
  from Cons.IH [OF mid(1) rest] obtain more where "chainTable sha256 table'"
    "sort_key heSeq table' = sort_key heSeq table @ [e] @ more" "length more = length ds"
    by (auto simp: mid(2))
  then show ?case by (intro conjI exI [of _ "[e] @ more"]) simp_all
qed simp

lemma sqlTransaction_chain:
  assumes "chainTable sha256 table"
  shows "chainTable sha256 (sqlTransaction sha256 tx table) \<and> (\<exists>more. sort_key heSeq (sqlTransaction sha256 tx table) = sort_key heSeq table @ more)"
proof (cases tx)
  case (Pair drafts commits)
  show ?thesis
  proof (cases "sqlAppendAll sha256 drafts table")
    case (Inl e)
    with assms Pair show ?thesis by (simp add: sqlTransaction_def)
  next
    case (Inr table')
    from sqlAppendAll_chain [OF assms Inr] assms show ?thesis
      by (cases commits) (auto simp: sqlTransaction_def Pair Inr)
  qed
qed

lemma sqlTransactions_chain:
  assumes "chainTable sha256 table"
  shows "chainTable sha256 (fold (sqlTransaction sha256) txs table)
    \<and> (\<exists>more. sort_key heSeq (fold (sqlTransaction sha256) txs table) = sort_key heSeq table @ more)"
  using assms
proof (induction txs arbitrary: table)
  case (Cons tx txs)
  from sqlTransaction_chain [OF Cons.prems, of tx] Cons.IH [of "sqlTransaction sha256 tx table"] show ?case by auto
qed simp

text \<open>A draft of a known action with plain JSON details, and an entry that records it.\<close>

definition recordable :: "newAuditEntry \<Rightarrow> bool" where
  "recordable d \<longleftrightarrow> auditActions (neAction d) \<noteq> None \<and> isJson (neDetails d)"

definition records :: "auditEntry \<Rightarrow> newAuditEntry \<Rightarrow> bool" where
  "records e d \<longleftrightarrow> heAction e = neAction d \<and> heResourceId e = neResourceId d \<and> heDetails e = neDetails d"

lemma memAppend_records: "memAppendAudit sha256 d xs = Inr (e, ys) \<Longrightarrow> records e d"
  by (auto simp: memAppendAudit_def Let_def rbind_eq_Inr_iff records_def dest!: sealAuditEntry_Inr)

lemma sqlAppendAll_records:
  assumes "\<And>p. isChainHash (sha256 p)" and "chainTable sha256 table" and "list_all recordable drafts"
  shows "\<exists>table' new. sqlAppendAll sha256 drafts table = Inr table' \<and> sort_key heSeq table' = sort_key heSeq table @ new
    \<and> list_all2 records new drafts"
  using assms(2,3)
proof (induction drafts arbitrary: table)
  case (Cons d ds)
  then obtain rt where d: "auditActions (neAction d) = Some rt" "isJson (neDetails d)" by (auto simp: recordable_def)
  obtain e where mem: "memAppendAudit sha256 d (sort_key heSeq table) = Inr (e, sort_key heSeq table @ [e])"
    by (rule memAppend_accepts [OF assms(1) Cons.prems(1) [unfolded chainTable_def] d])
  then obtain mid where app: "sqlAppendAudit sha256 d table = Inr (e, mid)"
    by (auto simp: sqlAppend_refines rbind_eq_Inr_iff)
  from sqlAppend_chain [OF Cons.prems(1) app] have mid: "chainTable sha256 mid" "sort_key heSeq mid = sort_key heSeq table @ [e]" by simp_all
  from Cons.IH [OF mid(1)] Cons.prems(2) obtain table' new where rest: "sqlAppendAll sha256 ds mid = Inr table'"
    "sort_key heSeq table' = sort_key heSeq mid @ new" "list_all2 records new ds" by auto
  then show ?case
    using app mid(2) memAppend_records [OF mem] by (intro exI [of _ table'] exI [of _ "e # new"]) simp
qed simp

definition sampleDraft :: "string \<Rightarrow> newAuditEntry" where
  "sampleDraft rid = recordAudit ''user.deleted'' rid (VObj [(''email'', VStr ''a@b'')])
     (Some \<lparr>acId = ''admin'', acRole = ''ADMIN''\<rparr>) None sampleDate"

lemma sampleDraft_recordable [simp]: "recordable (sampleDraft rid)"
  by (simp add: recordable_def sampleDraft_def recordAudit_def auditActions_def)

definition sampleHash :: "string \<Rightarrow> string" where
  "sampleHash p = replicate 64 (CHR ''a'')"

lemma sampleHash_hex: "isChainHash (sampleHash p)"
  by (simp add: isChainHash_def sampleHash_def list_all_iff)

section \<open>Tampering\<close>

lemma sound_hash:
  assumes "validChain sha256 (xs @ [x])"
  obtains p where "auditEntryPreimage x = Inr p" "aeHash x = sha256 p"
  using assms by (auto simp: validChain_snoc auditEntryHash_def rbind_eq_Inr_iff)

text \<open>The hash does not collide on what the two chains hash.\<close>

definition collisionFree :: "(string \<Rightarrow> string) \<Rightarrow> auditEntry list \<Rightarrow> auditEntry list \<Rightarrow> bool" where
  "collisionFree sha256 xs ys \<longleftrightarrow> list_all (\<lambda>x. list_all (\<lambda>y.
     case (auditEntryPreimage x, auditEntryPreimage y) of
       (Inr p, Inr q) \<Rightarrow> sha256 p = sha256 q \<longrightarrow> p = q | _ \<Rightarrow> True) ys) xs"

lemma collisionFreeD:
  assumes "collisionFree sha256 xs ys" and "x \<in> set xs" and "y \<in> set ys" and "auditEntryPreimage x = Inr p"
    and "auditEntryPreimage y = Inr q" and "sha256 p = sha256 q"
  shows "p = q"
proof -
  have "case (auditEntryPreimage x, auditEntryPreimage y) of (Inr p, Inr q) \<Rightarrow> sha256 p = sha256 q \<longrightarrow> p = q | _ \<Rightarrow> True"
    using assms(1-3) by (simp add: collisionFree_def list_all_iff)
  with assms(4-6) show ?thesis by simp
qed

lemma head_pins:
  assumes "validChain sha256 xs" and "validChain sha256 ys" and "collisionFree sha256 xs ys" and "xs \<noteq> []"
    and "map_option aeHash (lastEntry xs) = map_option aeHash (lastEntry ys)"
  shows "list_all2 (\<lambda>x y. sameContents x y \<and> aeHash x = aeHash y) xs ys"
  using assms
proof (induction xs arbitrary: ys rule: rev_induct)
  case (snoc x xs)
  from snoc.prems(5) obtain ys' y where ys: "ys = ys' @ [y]" and hash: "aeHash x = aeHash y"
    by (cases ys rule: rev_cases) (auto simp: lastEntry_def)
  obtain p q where pq: "auditEntryPreimage x = Inr p" "aeHash x = sha256 p" "auditEntryPreimage y = Inr q" "aeHash y = sha256 q"
    using sound_hash [OF snoc.prems(1)] sound_hash [OF snoc.prems(2) [unfolded ys]] by metis
  have "p = q"
    by (rule collisionFreeD [OF snoc.prems(3) _ _ pq(1,3)]) (use pq hash ys in simp_all)
  with pq auditEntryPreimage_inject have same: "sameContents x y" by blast
  have chains: "validChain sha256 xs" "validChain sha256 ys'" "length xs = length ys'"
    using snoc.prems(1,2) same by (auto simp: ys validChain_snoc sameContents_def)
  have free: "collisionFree sha256 xs ys'"
    using snoc.prems(3) by (auto simp: ys collisionFree_def list_all_iff)
  have links: "hePrevHash x = hePrevHash y" using same by (simp add: sameContents_def)
  show ?case
  proof (cases "xs = []")
    case True
    with chains(3) same hash ys show ?thesis by simp
  next
    case False
    with chains(3) have "ys' \<noteq> []" by auto
    with links False snoc.prems(1,2) have "map_option aeHash (lastEntry xs) = map_option aeHash (lastEntry ys')"
      by (simp add: ys validChain_snoc lastEntry_def)
    from snoc.IH [OF chains(1,2) free False this] same hash ys show ?thesis by (simp add: list_all2_appendI)
  qed
qed simp

section \<open>Properties of the audit log\<close>

text \<open>
  \<^bold>\<open>C10.\<close> Verification page by page tells exactly whether the table is a sound chain. Whatever
  rows the table holds, \<open>verify\<close> ends; it reports intact exactly when the rows in order of
  \<open>seq\<close> count up from 1, each names the hash of the one before and carries the hash of its own
  contents; and otherwise it stops at the first row that breaks this, having checked precisely
  the rows before it.
\<close>

theorem audit_verify_exact:
  assumes "distinct (map heSeq table)" and "\<forall>e \<in> set table. isJson (heDetails e)"
  shows "\<exists>rep. verifyChain sha256 (sqlReadAudit table) = Some (Inr rep)
    \<and> (arIntact rep \<longleftrightarrow> validChain sha256 (sort_key heSeq table)) \<and> (arIntact rep \<longleftrightarrow> arChecked rep = length table)
    \<and> validChain sha256 (take (arChecked rep) (sort_key heSeq table))
    \<and> (\<not> arIntact rep \<longrightarrow> \<not> validChain sha256 (take (Suc (arChecked rep)) (sort_key heSeq table)))
    \<and> arHeadHash rep = map_option aeHash (lastEntry (take (arChecked rep) (sort_key heSeq table)))"
proof -
  obtain rep where "verifyChain sha256 (sqlReadAudit table) = Some (Inr rep)" "reportExact sha256 (sort_key heSeq table) rep"
    using sql_audit.verifyChain_exact [OF assms(1), of sha256] assms(2) by (metis set_sort)
  then show ?thesis unfolding reportExact_def length_sort by blast
qed

theorem audit_verify_exact_witness:
  "\<exists>rep. verifyChain (\<lambda>_. ''h'') (sqlReadAudit [hashable.extend (sampleEntry ''u'' None \<lparr>heSeq := 2\<rparr>) (auditEntry.fields ''h'')]) = Some (Inr rep)
     \<and> \<not> arIntact rep"
proof -
  let ?e = "hashable.extend (sampleEntry ''u'' None \<lparr>heSeq := 2\<rparr>) (auditEntry.fields ''h'')"
  have e: "heSeq ?e = 2" "isJson (heDetails ?e)" by (simp_all add: sampleEntry_def hashable.defs)
  then have bad: "\<not> validChain (\<lambda>_. ''h'') (sort_key heSeq [?e])" by (simp add: validChain_def soundAt_def)
  obtain rep where "verifyChain (\<lambda>_. ''h'') (sqlReadAudit [?e]) = Some (Inr rep)"
    "arIntact rep \<longleftrightarrow> validChain (\<lambda>_. ''h'') (sort_key heSeq [?e])"
    using audit_verify_exact [of "[?e]" "\<lambda>_. ''h''"] e(2) by auto
  with bad show ?thesis by blast
qed

text \<open>
  \<^bold>\<open>C11.\<close> The head hash pins the history. Two tables that both verify and report the same head
  hash hold the same entries, field by field, unless SHA-256 collides on what they hash.
\<close>

theorem audit_head_pins_history:
  assumes "chainTable sha256 table" and "chainTable sha256 table'" and "table \<noteq> []"
    and "map_option aeHash (sqlHeadAudit table) = map_option aeHash (sqlHeadAudit table')"
    and "collisionFree sha256 (sort_key heSeq table) (sort_key heSeq table')"
  shows "list_all2 (\<lambda>x y. sameContents x y \<and> aeHash x = aeHash y) (sort_key heSeq table) (sort_key heSeq table')"
proof (rule head_pins)
  show "sort_key heSeq table \<noteq> []" using assms(3) by (metis length_0_conv length_sort)
qed (use assms in \<open>simp_all add: chainTable_def sqlHeadAudit_sorted memHeadAudit_last\<close>)

theorem audit_head_pins_history_witness:
  "\<exists>e. sort_key heSeq (sqlTransaction sampleHash ([sampleDraft ''u1''], True) []) = [e]
     \<and> list_all2 (\<lambda>x y. sameContents x y \<and> aeHash x = aeHash y) [e] [e]"
proof -
  let ?t = "sqlTransaction sampleHash ([sampleDraft ''u1''], True) []"
  have chain: "chainTable sampleHash ?t"
    using sqlTransaction_chain [of sampleHash "[]"] by (simp add: chainTable_def)
  obtain e where e: "sort_key heSeq ?t = [e]"
    using sqlAppendAll_records [of sampleHash "[]" "[sampleDraft ''u1'']", OF sampleHash_hex]
    by (auto simp: chainTable_def sqlTransaction_def list_all2_Cons2)
  then have "?t \<noteq> []" by auto
  have "collisionFree sampleHash [e] [e]" by (simp add: collisionFree_def split: sum.splits)
  with audit_head_pins_history [OF chain chain \<open>?t \<noteq> []\<close> refl] e show ?thesis by auto
qed

text \<open>
  \<^bold>\<open>C12.\<close> The log only grows. After any sequence of transactions, committed, rolled back or
  failing in an append, the table verifies as intact, and what it holds stays, in place and
  unchanged, under every further transaction; a committed transaction that records known
  actions with plain JSON details adds exactly its entries at the end, in order.
\<close>

theorem audit_log_append_only:
  assumes "\<And>p. isChainHash (sha256 p)"
  shows "let table = fold (sqlTransaction sha256) txs []
   in (\<exists>rep. verifyChain sha256 (sqlReadAudit table) = Some (Inr rep) \<and> arIntact rep \<and> arChecked rep = length table)
      \<and> (\<exists>more. sort_key heSeq (fold (sqlTransaction sha256) txs' table) = sort_key heSeq table @ more)
      \<and> (list_all recordable drafts \<longrightarrow> (\<exists>new. sort_key heSeq (sqlTransaction sha256 (drafts, True) table)
            = sort_key heSeq table @ new \<and> list_all2 records new drafts))"
proof -
  define table where "table = fold (sqlTransaction sha256) txs []"
  have chain: "chainTable sha256 table"
    using sqlTransactions_chain [of sha256 "[]" txs] by (simp add: table_def chainTable_def)
  obtain rep where "verifyChain sha256 (sqlReadAudit table) = Some (Inr rep)" "reportExact sha256 (sort_key heSeq table) rep"
    using sql_audit.verifyChain_exact [OF chainTable_distinct [OF chain], of sha256]
      validChain_json [OF chain [unfolded chainTable_def]] by metis
  moreover from this(2) chain have "arIntact rep" "arChecked rep = length table"
    unfolding reportExact_def chainTable_def length_sort by blast+
  moreover have "\<exists>new. sort_key heSeq (sqlTransaction sha256 (drafts, True) table) = sort_key heSeq table @ new \<and> list_all2 records new drafts"
    if "list_all recordable drafts"
    using sqlAppendAll_records [OF assms chain that] by (auto simp: sqlTransaction_def)
  ultimately show ?thesis
    using sqlTransactions_chain [OF chain, of txs'] by (auto simp: table_def [symmetric])
qed

theorem audit_log_append_only_witness:
  "let table = fold (sqlTransaction sampleHash) [([sampleDraft ''u1''], True), ([sampleDraft ''u2''], False)] []
   in (\<exists>rep. verifyChain sampleHash (sqlReadAudit table) = Some (Inr rep) \<and> arIntact rep \<and> arChecked rep = length table)
      \<and> (\<exists>new. sort_key heSeq (sqlTransaction sampleHash ([sampleDraft ''u3''], True) table)
            = sort_key heSeq table @ new \<and> list_all2 records new [sampleDraft ''u3''])"
  using audit_log_append_only [of sampleHash "[([sampleDraft ''u1''], True), ([sampleDraft ''u2''], False)]"
      "[]" "[sampleDraft ''u3'']", OF sampleHash_hex]
  by (simp add: Let_def)

text \<open>
  \<^bold>\<open>C13.\<close> The Postgres store implements the in-memory one. Seen in order of \<open>seq\<close>, appending to
  the table appends the same sealed entry, or fails with the same error, as appending to the
  in-memory log, and the heads and every page read agree.
\<close>

theorem audit_stores_agree:
  "memAppendAudit sha256 draft (sort_key heSeq table)
     = rbind (sqlAppendAudit sha256 draft table) (\<lambda>(entry, table'). Inr (entry, sort_key heSeq table'))
   \<and> memHeadAudit (sort_key heSeq table) = sqlHeadAudit table
   \<and> memReadAudit (sort_key heSeq table) afterSeq limit = sqlReadAudit table afterSeq limit"
  by (simp add: sqlAppend_refines sqlHeadAudit_sorted memReadAudit_def sqlReadAudit_def filter_sort)

end
