(* ===== verification/Broker.thy ===== *)
theory Broker
  imports Prelude "HOL-Library.Char_ord" "HOL-Library.List_Lexorder" "HOL-Library.Word"
begin

unbundle bit_operations_syntax

text \<open>
  The in-process message broker, \<open>messaging/in-memory-broker.ts\<close>: partition logs, keyed
  partitioning, consumer groups with committed offsets, and one read loop per member.

  Everything between two awaits of a member's loop runs without interruption, so the loop is a
  \<open>pump\<close> with a program counter: inside a pass over its partitions, waiting for a handler, asleep
  (with or without a redelivery timer), or ended. \<open>brokerStep\<close> interleaves the pumps of all members with
  produces, subscriptions, stops and the settling of handlers, which may succeed or fail (a
  timeout is a failure). \<open>brokerState\<close> carries as a ghost the list of successful handler calls.

  A record is its key, the bytes of its value and its headers, without a timestamp; offsets,
  which the code keeps as decimal strings of big integers, are natural numbers. Strings compare
  by character code, as the code's \<open>sort()\<close> does.
\<close>

section \<open>Partitions\<close>

record storedRecord =
  srKey :: "string option"
  srValue :: string
  srHeaders :: "(string \<times> string) list"

record outgoingMessage =
  omTopic :: string
  omKey :: "string option"
  omValue :: string
  omHeaders :: "(string \<times> string) list"

definition partitionKey :: "string \<Rightarrow> nat \<Rightarrow> string" where
  "partitionKey topic part = topic @ ''#'' @ decString part"

definition parsePartitionKey :: "string \<Rightarrow> string \<times> nat" where
  "parsePartitionKey key = (let suffix = rev (takeWhile (\<lambda>c. c \<noteq> CHR ''#'') (rev key))
     in (take (length key - Suc (length suffix)) key, decValue suffix))"

text \<open>FNV-1a over 32-bit words: \<open>Math.imul\<close> and \<open>>>> 0\<close> keep the product modulo \<open>2^32\<close>.\<close>

definition fnvStep :: "32 word \<Rightarrow> char \<Rightarrow> 32 word" where
  "fnvStep hash c = (hash XOR word_of_nat (of_char c)) * 0x01000193"

definition fnvHash :: "string \<Rightarrow> 32 word" where
  "fnvHash key = fold (\<lambda>c h. fnvStep h c) key 0x811c9dc5"

text \<open>The partition, and the counter after it: only a null key moves the counter.\<close>

definition partitionFor :: "string option \<Rightarrow> nat \<Rightarrow> nat \<Rightarrow> nat \<times> nat" where
  "partitionFor key partitions roundRobin = (case key of
     None \<Rightarrow> (let next = (roundRobin + 1) mod 9007199254740991 in (next mod partitions, next))
   | Some k \<Rightarrow> (unat (fnvHash k) mod partitions, roundRobin))"

section \<open>State\<close>

text \<open>
  Where a member's loop is: \<open>Passing keys delivered failed\<close> with the keys of the pass still to
  visit; \<open>Handling key offset keys delivered failed\<close> awaiting the handler; \<open>Asleep timer\<close>.
\<close>

datatype pump =
    Passing "string list" bool bool
  | Handling string nat "string list" bool bool
  | Asleep bool
  | Ended

record subscriptionOptions =
  soGroupId :: string
  soTopics :: "string list"
  soFromBeginning :: bool

record brokerMember =
  bmId :: nat
  bmTopics :: "string list"
  bmFromBeginning :: bool
  bmAssigned :: "string list"
  bmPositions :: "string \<rightharpoonup> nat"
  bmStopped :: bool
  bmPump :: pump
  bmPending :: bool

record brokerGroup =
  bgCommitted :: "string \<rightharpoonup> nat"
  bgMembers :: "brokerMember list"

record broker =
  bkLogs :: "string \<rightharpoonup> storedRecord list list"
  bkGroups :: "string \<rightharpoonup> brokerGroup"
  bkDefaultPartitions :: nat
  bkRoundRobin :: nat
  bkClosed :: bool
  bkNextMember :: nat

datatype brokerError = BrokerClosedError string

section \<open>Operations\<close>

definition logsFor :: "string \<Rightarrow> broker \<Rightarrow> storedRecord list list" where
  "logsFor topic b = (case bkLogs b topic of Some logs \<Rightarrow> logs | None \<Rightarrow> replicate (bkDefaultPartitions b) [])"

text \<open>The store \<open>logsFor\<close> leaves behind: a missing topic is created.\<close>

definition touchTopic :: "string \<Rightarrow> broker \<Rightarrow> broker" where
  "touchTopic topic b = b\<lparr>bkLogs := (bkLogs b)(topic \<mapsto> logsFor topic b)\<rparr>"

definition groupFor :: "string \<Rightarrow> broker \<Rightarrow> brokerGroup" where
  "groupFor gid b = (case bkGroups b gid of Some g \<Rightarrow> g | None \<Rightarrow> \<lparr>bgCommitted = Map.empty, bgMembers = []\<rparr>)"

definition startPass :: "brokerMember \<Rightarrow> pump" where
  "startPass m = (if bmStopped m then Ended else Passing (bmAssigned m) False False)"

text \<open>\<open>notify\<close>: a sleeping member wakes into a new pass, any other remembers not to sleep.\<close>

definition notify :: "brokerMember \<Rightarrow> brokerMember" where
  "notify m = (case bmPump m of
     Asleep _ \<Rightarrow> m\<lparr>bmPending := False, bmPump := startPass m\<rparr>
   | _ \<Rightarrow> m\<lparr>bmPending := True\<rparr>)"

definition ensureTopics :: "(string \<times> nat) list \<Rightarrow> broker \<Rightarrow> brokerError + broker" where
  "ensureTopics specs b = (if bkClosed b then Inl (BrokerClosedError ''ensureTopics'')
     else Inr (b\<lparr>bkLogs := fold (\<lambda>(topic, partitions) logs.
       if logs topic = None then logs(topic \<mapsto> replicate partitions []) else logs) specs (bkLogs b)\<rparr>))"

definition produceOne :: "outgoingMessage \<Rightarrow> broker \<Rightarrow> broker" where
  "produceOne msg b = (let
     logs = logsFor (omTopic msg) b;
     (part, rr) = partitionFor (omKey msg) (length logs) (bkRoundRobin b)
   in b\<lparr>bkLogs := (bkLogs b)(omTopic msg \<mapsto>
            logs[part := (logs ! part) @ [\<lparr>srKey = omKey msg, srValue = omValue msg, srHeaders = omHeaders msg\<rparr>]]),
        bkRoundRobin := rr\<rparr>)"

definition wakeSubscribersOf :: "string \<Rightarrow> broker \<Rightarrow> broker" where
  "wakeSubscribersOf topic b = b\<lparr>bkGroups := (\<lambda>gid. map_option (\<lambda>g. g\<lparr>bgMembers :=
     map (\<lambda>m. if topic \<in> set (bmTopics m) then notify m else m) (bgMembers g)\<rparr>) (bkGroups b gid))\<rparr>"

definition produce :: "outgoingMessage list \<Rightarrow> broker \<Rightarrow> brokerError + broker" where
  "produce messages b = (if bkClosed b then Inl (BrokerClosedError ''produce'')
     else Inr (fold wakeSubscribersOf (remdups (map omTopic messages)) (fold produceOne messages b)))"

text \<open>Every key of every subscribed topic, in order, dealt out in turn.\<close>

definition groupTopics :: "brokerMember list \<Rightarrow> string list" where
  "groupTopics members = sort (remdups (concat (map bmTopics members)))"

definition topicKeys :: "broker \<Rightarrow> string \<Rightarrow> string list" where
  "topicKeys b topic = map (partitionKey topic) [0..<length (logsFor topic b)]"

definition dealt :: "string list \<Rightarrow> nat \<Rightarrow> nat \<Rightarrow> string list" where
  "dealt keys n i = map (\<lambda>j. keys ! j) (filter (\<lambda>j. j mod n = i) [0..<length keys])"

definition assignMember :: "string list \<Rightarrow> brokerMember \<Rightarrow> brokerMember" where
  "assignMember keys m = notify (m\<lparr>bmAssigned := keys, bmPositions := bmPositions m |` set keys\<rparr>)"

definition rebalance :: "string \<Rightarrow> broker \<Rightarrow> broker" where
  "rebalance gid b = (let g = groupFor gid b; members = bgMembers g in
     if members = [] then b\<lparr>bkGroups := (bkGroups b)(gid \<mapsto> g)\<rparr>
     else let topics = groupTopics members;
              b1 = fold touchTopic topics b;
              keys = concat (map (topicKeys b1) topics)
          in b1\<lparr>bkGroups := (bkGroups b1)(gid \<mapsto> g\<lparr>bgMembers :=
               map (\<lambda>(i, m). assignMember (dealt keys (length members) i) m) (enumerate 0 members)\<rparr>)\<rparr>)"

definition newMember :: "subscriptionOptions \<Rightarrow> nat \<Rightarrow> brokerMember" where
  "newMember options mid = \<lparr>bmId = mid, bmTopics = soTopics options, bmFromBeginning = soFromBeginning options,
     bmAssigned = [], bmPositions = Map.empty, bmStopped = False, bmPump = Ended, bmPending = False\<rparr>"

definition updMember :: "string \<Rightarrow> nat \<Rightarrow> (brokerMember \<Rightarrow> brokerMember) \<Rightarrow> broker \<Rightarrow> broker" where
  "updMember gid mid f b = b\<lparr>bkGroups := (bkGroups b)(gid := map_option (\<lambda>g. g\<lparr>bgMembers :=
     map (\<lambda>m. if bmId m = mid then f m else m) (bgMembers g)\<rparr>) (bkGroups b gid))\<rparr>"

text \<open>The member joins, the group rebalances, and its loop starts.\<close>

definition subscribe :: "subscriptionOptions \<Rightarrow> broker \<Rightarrow> brokerError + broker" where
  "subscribe options b = (if bkClosed b then Inl (BrokerClosedError ''subscribe'')
     else let gid = soGroupId options; mid = bkNextMember b; g = groupFor gid b;
              joined = b\<lparr>bkGroups := (bkGroups b)(gid \<mapsto> g\<lparr>bgMembers := bgMembers g @ [newMember options mid]\<rparr>),
                         bkNextMember := mid + 1\<rparr>
          in Inr (updMember gid mid (\<lambda>m. m\<lparr>bmPump := startPass m\<rparr>) (rebalance gid joined)))"

definition stopMember :: "string \<Rightarrow> nat \<Rightarrow> broker \<Rightarrow> broker" where
  "stopMember gid mid = updMember gid mid (\<lambda>m. if bmStopped m then m else notify (m\<lparr>bmStopped := True\<rparr>))"

text \<open>The rest of \<open>stop\<close>, once the member's loop has ended.\<close>

definition leaveGroup :: "string \<Rightarrow> nat \<Rightarrow> broker \<Rightarrow> broker" where
  "leaveGroup gid mid b = (let g = groupFor gid b in
     rebalance gid (b\<lparr>bkGroups := (bkGroups b)(gid \<mapsto> g\<lparr>bgMembers := filter (\<lambda>m. bmId m \<noteq> mid) (bgMembers g)\<rparr>)\<rparr>))"

definition beginDisconnect :: "broker \<Rightarrow> broker" where
  "beginDisconnect b = (if bkClosed b then b else b\<lparr>bkClosed := True, bkGroups := (\<lambda>gid. map_option (\<lambda>g. g\<lparr>bgMembers :=
     map (\<lambda>m. notify (m\<lparr>bmStopped := True\<rparr>)) (bgMembers g)\<rparr>) (bkGroups b gid))\<rparr>)"

definition endDisconnect :: "broker \<Rightarrow> broker" where
  "endDisconnect b = b\<lparr>bkGroups := (\<lambda>gid. map_option (\<lambda>g. g\<lparr>bgMembers := []\<rparr>) (bkGroups b gid))\<rparr>"

section \<open>The read loop\<close>

definition logAt :: "broker \<Rightarrow> string \<Rightarrow> storedRecord list option" where
  "logAt b key = (let (topic, part) = parsePartitionKey key; logs = logsFor topic b
     in if part < length logs then Some (logs ! part) else None)"

definition startOffset :: "brokerMember \<Rightarrow> storedRecord list \<Rightarrow> nat" where
  "startOffset m records = (if bmFromBeginning m then 0 else length records)"

text \<open>The position read from, resolved against the commit the first time.\<close>

definition resolvePosition :: "brokerGroup \<Rightarrow> brokerMember \<Rightarrow> string \<Rightarrow> storedRecord list \<Rightarrow> nat" where
  "resolvePosition g m key records = (case bmPositions m key of Some p \<Rightarrow> p | None \<Rightarrow>
     (case bgCommitted g key of Some c \<Rightarrow> c | None \<Rightarrow> startOffset m records))"

text \<open>One synchronous step of the loop of a member that is inside a pass.\<close>

definition pumpMember :: "broker \<Rightarrow> brokerGroup \<Rightarrow> brokerMember \<Rightarrow> brokerMember" where
  "pumpMember b g m = (case bmPump m of
     Passing [] delivered failed \<Rightarrow>
       if bmStopped m then m\<lparr>bmPump := Ended\<rparr>
       else if delivered then m\<lparr>bmPump := startPass m\<rparr>
       else if bmPending m then m\<lparr>bmPending := False, bmPump := startPass m\<rparr>
       else m\<lparr>bmPump := Asleep failed\<rparr>
   | Passing (key # keys) delivered failed \<Rightarrow>
       if bmStopped m then m\<lparr>bmPump := Ended\<rparr>
       else (case logAt b key of
         None \<Rightarrow> m\<lparr>bmPump := Passing keys delivered failed\<rparr>
       | Some records \<Rightarrow> let from = resolvePosition g m key records;
                         m' = m\<lparr>bmPositions := (bmPositions m)(key \<mapsto> from)\<rparr>
           in if length records \<le> from then m'\<lparr>bmPump := Passing keys delivered failed\<rparr>
              else m'\<lparr>bmPump := Handling key from keys delivered failed\<rparr>)
   | _ \<Rightarrow> m)"

definition pumpStep :: "string \<Rightarrow> nat \<Rightarrow> broker \<Rightarrow> broker" where
  "pumpStep gid mid b = updMember gid mid (pumpMember b (groupFor gid b)) b"

definition timerFires :: "string \<Rightarrow> nat \<Rightarrow> broker \<Rightarrow> broker" where
  "timerFires gid mid = updMember gid mid (\<lambda>m. case bmPump m of
     Asleep True \<Rightarrow> m\<lparr>bmPending := False, bmPump := startPass m\<rparr> | _ \<Rightarrow> m)"

definition nextOffset :: "nat \<Rightarrow> nat" where
  "nextOffset offset = offset + 1"

definition memberOf :: "string \<Rightarrow> nat \<Rightarrow> broker \<Rightarrow> brokerMember option" where
  "memberOf gid mid b = find (\<lambda>m. bmId m = mid) (bgMembers (groupFor gid b))"

text \<open>The handler a member awaits has failed or timed out: nothing is committed.\<close>

definition handlerFails :: "string \<Rightarrow> nat \<Rightarrow> broker \<Rightarrow> broker" where
  "handlerFails gid mid = updMember gid mid (\<lambda>m. case bmPump m of
     Handling key offset keys delivered failed \<Rightarrow> m\<lparr>bmPump := Passing keys delivered True\<rparr> | _ \<Rightarrow> m)"

text \<open>It has succeeded: commit, then advance the position.\<close>

definition handlerSucceeds :: "string \<Rightarrow> nat \<Rightarrow> string \<Rightarrow> nat \<Rightarrow> broker \<Rightarrow> broker" where
  "handlerSucceeds gid mid key offset b = updMember gid mid (\<lambda>m. case bmPump m of
     Handling _ _ keys delivered failed \<Rightarrow>
       m\<lparr>bmPositions := (bmPositions m)(key \<mapsto> nextOffset offset), bmPump := Passing keys True failed\<rparr> | _ \<Rightarrow> m)
     (b\<lparr>bkGroups := (bkGroups b)(gid \<mapsto> (groupFor gid b)\<lparr>bgCommitted :=
        (bgCommitted (groupFor gid b))(key \<mapsto> nextOffset offset)\<rparr>)\<rparr>)"

section \<open>Interleaving\<close>

record brokerState =
  bsBroker :: broker
  bsHandled :: "(string \<times> string \<times> nat) list"

text \<open>\<open>allowed\<close> restricts the subscriptions made, for the results that need it.\<close>

inductive brokerStep :: "(subscriptionOptions \<Rightarrow> bool) \<Rightarrow> brokerState \<Rightarrow> brokerState \<Rightarrow> bool"
  for allowed where
  StepTopics: "ensureTopics specs (bsBroker s) = Inr b \<Longrightarrow> brokerStep allowed s (s\<lparr>bsBroker := b\<rparr>)"
| StepProduce: "produce messages (bsBroker s) = Inr b \<Longrightarrow> brokerStep allowed s (s\<lparr>bsBroker := b\<rparr>)"
| StepSubscribe: "subscribe options (bsBroker s) = Inr b \<Longrightarrow> allowed options \<Longrightarrow> brokerStep allowed s (s\<lparr>bsBroker := b\<rparr>)"
| StepStop: "brokerStep allowed s (s\<lparr>bsBroker := stopMember gid mid (bsBroker s)\<rparr>)"
| StepLeave: "memberOf gid mid (bsBroker s) = Some m \<Longrightarrow> bmPump m = Ended \<Longrightarrow>
    brokerStep allowed s (s\<lparr>bsBroker := leaveGroup gid mid (bsBroker s)\<rparr>)"
| StepClose: "brokerStep allowed s (s\<lparr>bsBroker := beginDisconnect (bsBroker s)\<rparr>)"
| StepClosed: "\<forall>gid g m. bkGroups (bsBroker s) gid = Some g \<and> m \<in> set (bgMembers g) \<longrightarrow> bmPump m = Ended \<Longrightarrow>
    bkClosed (bsBroker s) \<Longrightarrow> brokerStep allowed s (s\<lparr>bsBroker := endDisconnect (bsBroker s)\<rparr>)"
| StepPump: "brokerStep allowed s (s\<lparr>bsBroker := pumpStep gid mid (bsBroker s)\<rparr>)"
| StepTimer: "brokerStep allowed s (s\<lparr>bsBroker := timerFires gid mid (bsBroker s)\<rparr>)"
| StepFail: "brokerStep allowed s (s\<lparr>bsBroker := handlerFails gid mid (bsBroker s)\<rparr>)"
| StepHandled: "memberOf gid mid (bsBroker s) = Some m \<Longrightarrow> bmPump m = Handling key offset keys delivered failed \<Longrightarrow>
    brokerStep allowed s (s\<lparr>bsBroker := handlerSucceeds gid mid key offset (bsBroker s),
      bsHandled := bsHandled s @ [(gid, key, offset)]\<rparr>)"

inductive brokerRun :: "(subscriptionOptions \<Rightarrow> bool) \<Rightarrow> brokerState \<Rightarrow> brokerState \<Rightarrow> bool"
  for allowed where
  RunHere: "brokerRun allowed s s"
| RunStep: "brokerRun allowed s t \<Longrightarrow> brokerStep allowed t u \<Longrightarrow> brokerRun allowed s u"

definition freshBroker :: "nat \<Rightarrow> nat \<Rightarrow> brokerState" where
  "freshBroker partitions counter = \<lparr>bsBroker = \<lparr>bkLogs = Map.empty, bkGroups = Map.empty, bkDefaultPartitions = partitions,
     bkRoundRobin = counter, bkClosed = False, bkNextMember = 0\<rparr>, bsHandled = []\<rparr>"

section \<open>Partition keys\<close>

lemma decString_no_hash: "CHR ''#'' \<notin> set (decString n)"
proof
  assume "CHR ''#'' \<in> set (decString n)"
  then have "isDigit (CHR ''#'')" by (rule decString_digits)
  then show False by (simp add: isDigit_def)
qed

lemma parse_partitionKey [simp]: "parsePartitionKey (partitionKey topic part) = (topic, part)"
proof -
  have "takeWhile (\<lambda>c. c \<noteq> CHR ''#'') (rev (decString part) @ CHR ''#'' # rev topic) = rev (decString part)"
    using decString_no_hash [of part] by (subst takeWhile_append2) auto
  then show ?thesis by (simp add: parsePartitionKey_def partitionKey_def)
qed

lemma partitionKey_inject [simp]: "partitionKey t p = partitionKey t' p' \<longleftrightarrow> t = t' \<and> p = p'"
  by (metis parse_partitionKey prod.inject)

lemma partitionFor_range: "0 < n \<Longrightarrow> fst (partitionFor key n rr) < n"
  by (simp add: partitionFor_def Let_def split: option.splits)

lemma partitionFor_keyed: "fst (partitionFor (Some k) n rr) = fst (partitionFor (Some k) n rr')"
  by (simp add: partitionFor_def)

section \<open>What the operations leave alone\<close>

lemma touchTopic_groups [simp]: "bkGroups (touchTopic t b) = bkGroups b"
  by (simp add: touchTopic_def)

lemma fold_touch_groups [simp]: "bkGroups (fold touchTopic ts b) = bkGroups b"
  by (induction ts arbitrary: b) simp_all

lemma produceOne_groups [simp]: "bkGroups (produceOne msg b) = bkGroups b"
  by (simp add: produceOne_def Let_def split: prod.splits)

lemma fold_produce_groups [simp]: "bkGroups (fold produceOne ms b) = bkGroups b"
  by (induction ms arbitrary: b) simp_all

lemma updMember_groups: "bkGroups (updMember gid mid f b) gid' = (if gid' = gid
   then map_option (\<lambda>g. g\<lparr>bgMembers := map (\<lambda>m. if bmId m = mid then f m else m) (bgMembers g)\<rparr>) (bkGroups b gid)
   else bkGroups b gid')"
  by (simp add: updMember_def)

lemma updMember_logs [simp]: "bkLogs (updMember gid mid f b) = bkLogs b"
  "bkDefaultPartitions (updMember gid mid f b) = bkDefaultPartitions b"
  by (simp_all add: updMember_def)

lemma rebalance_groups:
  "bkGroups (rebalance gid b) gid' = (if gid' = gid
     then Some ((groupFor gid b)\<lparr>bgMembers := (let ms = bgMembers (groupFor gid b); ts = groupTopics ms
       in map (\<lambda>(i, m). assignMember (dealt (concat (map (topicKeys (fold touchTopic ts b)) ts)) (length ms) i) m) (enumerate 0 ms))\<rparr>)
     else bkGroups b gid')"
  by (simp add: rebalance_def Let_def)

lemma groupFor_eq: "bkGroups b gid = Some g \<Longrightarrow> groupFor gid b = g"
  by (simp add: groupFor_def)

lemma wakeSubscribers_groups: "bkGroups (wakeSubscribersOf t b) gid = map_option (\<lambda>g. g\<lparr>bgMembers :=
     map (\<lambda>m. if t \<in> set (bmTopics m) then notify m else m) (bgMembers g)\<rparr>) (bkGroups b gid)"
  by (simp add: wakeSubscribersOf_def)

section \<open>Logs only grow\<close>

definition recordAt :: "broker \<Rightarrow> string \<Rightarrow> nat \<Rightarrow> storedRecord option" where
  "recordAt b key p = (case logAt b key of
     Some records \<Rightarrow> if p < length records then Some (records ! p) else None | None \<Rightarrow> None)"

definition keeps :: "broker \<Rightarrow> broker \<Rightarrow> bool" where
  "keeps b b' \<longleftrightarrow> (\<forall>key p r. recordAt b key p = Some r \<longrightarrow> recordAt b' key p = Some r)"

lemma keeps_refl [simp]: "keeps b b"
  by (simp add: keeps_def)

lemma keeps_trans: "keeps a b \<Longrightarrow> keeps b c \<Longrightarrow> keeps a c"
  by (simp add: keeps_def)

lemma recordAt_Some:
  "recordAt b key p = Some r \<longleftrightarrow> (\<exists>topic part. parsePartitionKey key = (topic, part) \<and> part < length (logsFor topic b)
     \<and> p < length (logsFor topic b ! part) \<and> logsFor topic b ! part ! p = r)"
  by (cases "parsePartitionKey key") (auto simp: recordAt_def logAt_def Let_def split: option.splits if_splits)

text \<open>A topic's logs become longer ones; a topic that has none holds no record.\<close>

lemma keeps_logs:
  assumes "\<And>topic part p. part < length (logsFor topic b) \<Longrightarrow> p < length (logsFor topic b ! part) \<Longrightarrow>
    part < length (logsFor topic b') \<and> p < length (logsFor topic b' ! part) \<and> logsFor topic b' ! part ! p = logsFor topic b ! part ! p"
  shows "keeps b b'"
  using assms unfolding keeps_def recordAt_Some by blast

lemma logsFor_touch [simp]: "logsFor t (touchTopic t' b) = logsFor t b"
  by (simp add: touchTopic_def logsFor_def split: option.splits)

lemma logsFor_fold_touch [simp]: "logsFor t (fold touchTopic ts b) = logsFor t b"
  by (induction ts arbitrary: b) simp_all

lemma logsFor_groups [simp]: "logsFor t (b\<lparr>bkGroups := gs\<rparr>) = logsFor t b"
  "logsFor t (b\<lparr>bkGroups := gs, bkNextMember := n\<rparr>) = logsFor t b"
  by (simp_all add: logsFor_def split: option.splits)

lemma logsFor_updMember [simp]: "logsFor t (updMember gid mid f b) = logsFor t b"
  by (simp add: updMember_def)

lemma logsFor_rebalance [simp]: "logsFor t (rebalance gid b) = logsFor t b"
  by (simp add: rebalance_def Let_def)

lemma logsFor_wake [simp]: "logsFor t (wakeSubscribersOf t' b) = logsFor t b"
  by (simp add: wakeSubscribersOf_def)

lemma logsFor_fold_wake [simp]: "logsFor t (fold wakeSubscribersOf ts b) = logsFor t b"
  by (induction ts arbitrary: b) simp_all

lemma logsFor_close [simp]: "logsFor t (beginDisconnect b) = logsFor t b" "logsFor t (endDisconnect b) = logsFor t b"
  by (simp_all add: beginDisconnect_def endDisconnect_def logsFor_def split: option.splits)

lemma keeps_logsFor: "(\<And>t. logsFor t b' = logsFor t b) \<Longrightarrow> keeps b b'"
  by (rule keeps_logs) simp

lemma logsFor_produceOne:
  "logsFor t (produceOne msg b) = (if t = omTopic msg
     then (let part = fst (partitionFor (omKey msg) (length (logsFor t b)) (bkRoundRobin b))
           in (logsFor t b)[part := logsFor t b ! part @ [\<lparr>srKey = omKey msg, srValue = omValue msg, srHeaders = omHeaders msg\<rparr>]])
     else logsFor t b)"
  by (simp add: produceOne_def logsFor_def Let_def split: prod.splits option.splits)

lemma nth_update_cases: "xs[i := v] ! j = (if i = j \<and> i < length xs then v else xs ! j)"
  by (cases "i < length xs") (auto simp: list_update_beyond)

lemma keeps_produceOne: "keeps b (produceOne msg b)"
  by (rule keeps_logs) (auto simp: logsFor_produceOne Let_def nth_update_cases nth_append)

lemma keeps_produce: "keeps b (fold produceOne ms b)"
proof (induction ms arbitrary: b)
  case (Cons m ms)
  from keeps_trans [OF keeps_produceOne Cons.IH] show ?case by simp
qed simp

lemma fold_topics_keep:
  "logs t = Some l \<Longrightarrow> fold (\<lambda>(topic, parts) logs. if logs topic = None then logs(topic \<mapsto> replicate parts []) else logs) specs logs t = Some l"
  by (induction specs arbitrary: logs) (auto split: prod.splits)

lemma keeps_ensureTopics:
  assumes "ensureTopics specs b = Inr b'"
  shows "keeps b b'"
proof (rule keeps_logs)
  fix topic part p assume parts: "part < length (logsFor topic b)" "p < length (logsFor topic b ! part)"
  then obtain l where "bkLogs b topic = Some l" by (cases "bkLogs b topic") (simp_all add: logsFor_def)
  with assms fold_topics_keep [of "bkLogs b" topic l specs] have "logsFor topic b' = logsFor topic b"
    by (auto simp: ensureTopics_def logsFor_def split: if_splits)
  with parts show "part < length (logsFor topic b') \<and> p < length (logsFor topic b' ! part) \<and> logsFor topic b' ! part ! p = logsFor topic b ! part ! p"
    by simp
qed

lemma brokerStep_keeps:
  assumes "brokerStep allowed s t"
  shows "keeps (bsBroker s) (bsBroker t)"
  using assms
proof cases
  case (StepTopics specs b)
  then show ?thesis by (simp add: keeps_ensureTopics)
next
  case (StepProduce messages b)
  have "keeps (fold produceOne messages (bsBroker s)) b"
    by (rule keeps_logsFor) (use StepProduce in \<open>auto simp: produce_def split: if_splits\<close>)
  with keeps_trans [OF keeps_produce] StepProduce(1) show ?thesis by simp
next
  case (StepSubscribe options b)
  then show ?thesis by (auto simp: subscribe_def Let_def split: if_splits intro: keeps_logsFor)
qed (auto intro!: keeps_logsFor simp: stopMember_def leaveGroup_def Let_def pumpStep_def timerFires_def handlerFails_def handlerSucceeds_def)

lemma brokerRun_keeps: "brokerRun allowed s t \<Longrightarrow> keeps (bsBroker s) (bsBroker t)"
  by (induction rule: brokerRun.induct) (auto intro: keeps_trans brokerStep_keeps)

section \<open>At least once, in order\<close>

definition handledBelow :: "(string \<times> string \<times> nat) list \<Rightarrow> string \<Rightarrow> string \<Rightarrow> nat \<Rightarrow> bool" where
  "handledBelow H gid key p \<longleftrightarrow> (\<forall>i<p. (gid, key, i) \<in> set H)"

text \<open>Every successful handling comes after one of each earlier offset of its partition.\<close>

definition orderly :: "(string \<times> string \<times> nat) list \<Rightarrow> bool" where
  "orderly H \<longleftrightarrow> (\<forall>i<length H. case H ! i of (gid, key, p) \<Rightarrow> handledBelow (take i H) gid key p)"

definition memberOk :: "(string \<times> string \<times> nat) list \<Rightarrow> (string \<Rightarrow> nat \<Rightarrow> bool) \<Rightarrow> string \<Rightarrow> brokerMember \<Rightarrow> bool" where
  "memberOk H R gid m \<longleftrightarrow> bmFromBeginning m \<and> (\<forall>k p. bmPositions m k = Some p \<longrightarrow> handledBelow H gid k p)
     \<and> (case bmPump m of Handling k p _ _ _ \<Rightarrow> handledBelow H gid k p \<and> R k p | _ \<Rightarrow> True)"

definition groupOk :: "(string \<times> string \<times> nat) list \<Rightarrow> (string \<Rightarrow> nat \<Rightarrow> bool) \<Rightarrow> string \<Rightarrow> brokerGroup \<Rightarrow> bool" where
  "groupOk H R gid g \<longleftrightarrow> (\<forall>k c. bgCommitted g k = Some c \<longrightarrow> handledBelow H gid k c) \<and> (\<forall>m \<in> set (bgMembers g). memberOk H R gid m)"

definition groupsOk :: "(string \<times> string \<times> nat) list \<Rightarrow> (string \<Rightarrow> nat \<Rightarrow> bool) \<Rightarrow> broker \<Rightarrow> bool" where
  "groupsOk H R b \<longleftrightarrow> (\<forall>gid g. bkGroups b gid = Some g \<longrightarrow> groupOk H R gid g)"

lemma handledBelow_0 [simp]: "handledBelow H gid k 0"
  by (simp add: handledBelow_def)

lemma handledBelow_mono: "handledBelow H gid k p \<Longrightarrow> handledBelow (H @ X) gid k p"
  by (auto simp: handledBelow_def)

lemma orderly_snoc: "orderly (H @ [(gid, k, p)]) \<longleftrightarrow> orderly H \<and> handledBelow H gid k p"
proof -
  have "(\<forall>i<Suc (length H). P i) \<longleftrightarrow> (\<forall>i<length H. P i) \<and> P (length H)" for P by (auto simp: less_Suc_eq)
  then show ?thesis by (simp add: orderly_def nth_append)
qed

lemma memberOk_mono: "memberOk H R gid m \<Longrightarrow> (\<And>k p. R k p \<Longrightarrow> R' k p) \<Longrightarrow> memberOk (H @ X) R' gid m"
  by (auto simp: memberOk_def handledBelow_mono split: pump.splits)

lemma startPass_not_handling: "startPass m \<noteq> Handling k p ks d f"
  by (simp add: startPass_def)

lemma startPass_harmless: "(case startPass m of Handling k p _ _ _ \<Rightarrow> handledBelow H gid k p \<and> R k p | _ \<Rightarrow> True)"
  by (simp add: startPass_def)

lemma memberOk_notify: "memberOk H R gid m \<Longrightarrow> memberOk H R gid (notify m)"
  by (cases "bmPump m") (simp_all add: memberOk_def notify_def startPass_harmless)

lemma memberOk_assign:
  assumes "memberOk H R gid m"
  shows "memberOk H R gid (assignMember keys m)"
  unfolding assignMember_def using assms
  by (intro memberOk_notify) (simp add: memberOk_def restrict_map_def)

lemma memberOk_stop: "memberOk H R gid m \<Longrightarrow> memberOk H R gid (notify (m\<lparr>bmStopped := True\<rparr>))"
  by (rule memberOk_notify) (simp add: memberOk_def)

lemma memberOk_start: "memberOk H R gid m \<Longrightarrow> memberOk H R gid (m\<lparr>bmPump := startPass m'\<rparr>)"
  by (simp add: memberOk_def startPass_harmless)

lemma groupOk_for:
  assumes "groupsOk H R b"
  shows "groupOk H R gid (groupFor gid b)"
  using assms by (auto simp: groupsOk_def groupFor_def groupOk_def split: option.splits)

lemma groupsOk_updMember:
  assumes "groupsOk H R b" and "\<And>m. memberOk H R gid m \<Longrightarrow> memberOk H R gid (f m)"
  shows "groupsOk H R (updMember gid mid f b)"
  unfolding groupsOk_def
proof (intro allI impI)
  fix gid' g assume "bkGroups (updMember gid mid f b) gid' = Some g"
  then show "groupOk H R gid' g"
    using assms by (auto simp: updMember_groups groupsOk_def groupOk_def split: if_splits)
qed

lemma groupsOk_rebalance:
  assumes "groupsOk H R b"
  shows "groupsOk H R (rebalance gid b)"
  unfolding groupsOk_def
proof (intro allI impI)
  fix gid' g assume g: "bkGroups (rebalance gid b) gid' = Some g"
  show "groupOk H R gid' g"
  proof (cases "gid' = gid")
    case True
    have "m \<in> set (bgMembers (groupFor gid b))" if "(i, m) \<in> set (enumerate 0 (bgMembers (groupFor gid b)))" for i m
      using that by (auto simp: in_set_enumerate_eq)
    then show ?thesis
      using groupOk_for [OF assms, of gid] g True
      by (auto simp: rebalance_groups groupOk_def Let_def memberOk_assign)
  qed (use g assms in \<open>simp add: rebalance_groups groupsOk_def\<close>)
qed

lemma groupsOk_put:
  assumes "groupsOk H R b" and "groupOk H R gid g"
  shows "groupsOk H R (b\<lparr>bkGroups := (bkGroups b)(gid \<mapsto> g)\<rparr>)" "groupsOk H R (b\<lparr>bkGroups := (bkGroups b)(gid \<mapsto> g), bkNextMember := n\<rparr>)"
  using assms by (auto simp: groupsOk_def)

lemma groupsOk_mapMembers:
  assumes "groupsOk H R b" and "\<And>gid m. memberOk H R gid m \<Longrightarrow> memberOk H R gid (f m)"
    and "\<And>gid. bkGroups b' gid = map_option (\<lambda>g. g\<lparr>bgMembers := map f (bgMembers g)\<rparr>) (bkGroups b gid)"
  shows "groupsOk H R b'"
  using assms(1,2) by (auto simp: groupsOk_def groupOk_def assms(3))

lemma groupsOk_wake: "groupsOk H R b \<Longrightarrow> groupsOk H R (wakeSubscribersOf t b)"
  by (erule groupsOk_mapMembers [where f = "\<lambda>m. if t \<in> set (bmTopics m) then notify m else m"])
    (simp_all add: memberOk_notify wakeSubscribers_groups)

lemma groupsOk_fold_wake: "groupsOk H R b \<Longrightarrow> groupsOk H R (fold wakeSubscribersOf ts b)"
  by (induction ts arbitrary: b) (simp_all add: groupsOk_wake)

lemma memberOk_pump:
  assumes "memberOk H R gid m" and "groupOk H R gid g" and "\<And>k p. recordAt b k p \<noteq> None \<Longrightarrow> R k p"
  shows "memberOk H R gid (pumpMember b g m)"
proof (cases "bmPump m")
  case (Passing keys d f)
  show ?thesis
  proof (cases keys)
    case Nil
    then show ?thesis using assms(1) Passing by (simp add: pumpMember_def memberOk_def startPass_harmless)
  next
    case (Cons key rest)
    have "handledBelow H gid key (resolvePosition g m key records)" for records
      using assms(1,2) by (auto simp: resolvePosition_def startOffset_def memberOk_def groupOk_def split: option.splits)
    moreover have "R key p" if "logAt b key = Some records" "p < length records" for p records
      using assms(3) [of key p] that by (simp add: recordAt_def)
    ultimately show ?thesis
      using assms(1) Passing Cons
      by (auto simp: pumpMember_def memberOk_def Let_def split: option.splits)
  qed
qed (use assms(1) in \<open>simp_all add: pumpMember_def\<close>)

lemma groupsOk_pumpStep:
  assumes "groupsOk H R b" and "\<And>k p. recordAt b k p \<noteq> None \<Longrightarrow> R k p"
  shows "groupsOk H R (pumpStep gid mid b)"
  unfolding pumpStep_def
  by (rule groupsOk_updMember [OF assms(1)]) (rule memberOk_pump [OF _ groupOk_for [OF assms(1)] assms(2)])

lemma memberOf_Some:
  assumes "memberOf gid mid b = Some m"
  shows "bkGroups b gid = Some (groupFor gid b)" "m \<in> set (bgMembers (groupFor gid b))" "bmId m = mid"
proof -
  from assms have "m \<in> set (bgMembers (groupFor gid b))" "bmId m = mid"
    by (auto simp: memberOf_def find_Some_iff)
  then show "m \<in> set (bgMembers (groupFor gid b))" "bmId m = mid" by simp_all
  then show "bkGroups b gid = Some (groupFor gid b)"
    by (cases "bkGroups b gid") (auto simp: groupFor_def)
qed

lemma handling_below:
  assumes "groupsOk H R b" and "memberOf gid mid b = Some m" and "bmPump m = Handling key p keys d f"
  shows "handledBelow H gid key p \<and> R key p"
  using groupOk_for [OF assms(1), of gid] memberOf_Some(2) [OF assms(2)] assms(3)
  by (auto simp: groupOk_def memberOk_def)

lemma groupsOk_weaken:
  assumes "groupsOk H R b" and "\<And>k p. R k p \<Longrightarrow> R' k p"
  shows "groupsOk (H @ X) R' b"
  using assms(1) memberOk_mono [where R = R and R' = R', OF _ assms(2)]
  by (auto simp: groupsOk_def groupOk_def handledBelow_mono)

lemma groupsOk_succeeds:
  assumes "groupsOk H R b" and "handledBelow H gid key p"
  shows "groupsOk (H @ [(gid, key, p)]) R (handlerSucceeds gid mid key p b)"
proof -
  let ?H = "H @ [(gid, key, p)]"
  have next_ok: "handledBelow ?H gid key (nextOffset p)"
    using assms(2) by (auto simp: handledBelow_def nextOffset_def less_Suc_eq)
  have "groupsOk ?H R b" by (rule groupsOk_weaken [OF assms(1)])
  then have "groupsOk ?H R (b\<lparr>bkGroups := (bkGroups b)(gid \<mapsto> (groupFor gid b)\<lparr>bgCommitted :=
        (bgCommitted (groupFor gid b))(key \<mapsto> nextOffset p)\<rparr>)\<rparr>)"
    using groupOk_for [of ?H R b gid] next_ok by (intro groupsOk_put) (auto simp: groupOk_def)
  then show ?thesis
    unfolding handlerSucceeds_def
    by (rule groupsOk_updMember) (use next_ok in \<open>auto simp: memberOk_def split: pump.splits\<close>)
qed

lemma groupsOk_subscribe:
  assumes "groupsOk H R b" and "soFromBeginning options" and "subscribe options b = Inr b'"
  shows "groupsOk H R b'"
proof -
  have "memberOk H R (soGroupId options) (newMember options mid)" for mid
    using assms(2) by (simp add: memberOk_def newMember_def)
  then have "groupOk H R (soGroupId options) ((groupFor (soGroupId options) b)\<lparr>bgMembers :=
      bgMembers (groupFor (soGroupId options) b) @ [newMember options (bkNextMember b)]\<rparr>)"
    using groupOk_for [OF assms(1), of "soGroupId options"] by (auto simp: groupOk_def)
  from groupsOk_put(2) [OF assms(1) this] assms(3) show ?thesis
    by (auto simp: subscribe_def Let_def memberOk_start intro!: groupsOk_updMember groupsOk_rebalance split: if_splits)
qed

lemma groupsOk_leave:
  assumes "groupsOk H R b"
  shows "groupsOk H R (leaveGroup gid mid b)"
  unfolding leaveGroup_def Let_def
  by (intro groupsOk_rebalance groupsOk_put(1) assms) (use groupOk_for [OF assms, of gid] in \<open>auto simp: groupOk_def\<close>)

lemma memberOk_settle:
  assumes "memberOk H R gid m"
  shows "memberOk H R gid (case bmPump m of Asleep True \<Rightarrow> m\<lparr>bmPending := False, bmPump := startPass m\<rparr> | _ \<Rightarrow> m)"
    and "memberOk H R gid (case bmPump m of Handling key p keys d f \<Rightarrow> m\<lparr>bmPump := Passing keys d True\<rparr> | _ \<Rightarrow> m)"
    and "memberOk H R gid (if bmStopped m then m else notify (m\<lparr>bmStopped := True\<rparr>))"
  using assms memberOk_stop [OF assms]
  by (auto simp: memberOk_def startPass_not_handling split: pump.splits bool.splits)

text \<open>The records there are, and the invariant over them.\<close>

definition stored :: "broker \<Rightarrow> string \<Rightarrow> nat \<Rightarrow> bool" where
  "stored b key p \<longleftrightarrow> recordAt b key p \<noteq> None"

definition orderInv :: "brokerState \<Rightarrow> bool" where
  "orderInv s \<longleftrightarrow> groupsOk (bsHandled s) (stored (bsBroker s)) (bsBroker s) \<and> orderly (bsHandled s)
     \<and> (\<forall>(gid, key, p) \<in> set (bsHandled s). stored (bsBroker s) key p)"

lemma stored_keeps: "keeps b b' \<Longrightarrow> stored b k p \<Longrightarrow> stored b' k p"
  by (auto simp: keeps_def stored_def)

lemma brokerStep_order:
  assumes "brokerStep allowed s t" and "\<And>options. allowed options \<Longrightarrow> soFromBeginning options" and "orderInv s"
  shows "orderInv t"
proof -
  define R where "R = stored (bsBroker t)"
  have keep: "stored (bsBroker s) k p \<Longrightarrow> R k p" for k p
    using stored_keeps [OF brokerStep_keeps [OF assms(1)]] by (simp add: R_def)
  have ok: "groupsOk (bsHandled s) R (bsBroker s)"
    using groupsOk_weaken [of "bsHandled s" "stored (bsBroker s)" "bsBroker s" R "[]"] keep assms(3) by (simp add: orderInv_def)
  have ord: "orderly (bsHandled s)" and seen: "\<forall>(gid, key, p) \<in> set (bsHandled s). R key p"
    using assms(3) keep by (auto simp: orderInv_def)
  have "groupsOk (bsHandled t) R (bsBroker t) \<and> orderly (bsHandled t) \<and> (\<forall>(gid, key, p) \<in> set (bsHandled t). R key p)"
    using assms(1)
  proof cases
    case (StepTopics specs b)
    then show ?thesis using ok ord seen by (auto simp: ensureTopics_def groupsOk_def split: if_splits)
  next
    case (StepProduce messages b)
    have "groupsOk (bsHandled s) R (fold produceOne messages (bsBroker s))" using ok by (simp add: groupsOk_def)
    with StepProduce ord seen show ?thesis by (auto simp: produce_def groupsOk_fold_wake split: if_splits)
  next
    case (StepSubscribe options b)
    then show ?thesis using ord seen groupsOk_subscribe [OF ok assms(2)] by auto
  next
    case (StepStop gid mid)
    then show ?thesis using ok ord seen by (simp add: stopMember_def groupsOk_updMember memberOk_settle(3))
  next
    case (StepLeave gid mid m)
    then show ?thesis using ok ord seen by (simp add: groupsOk_leave)
  next
    case StepClose
    have "groupsOk (bsHandled s) R (beginDisconnect (bsBroker s))"
    proof (cases "bkClosed (bsBroker s)")
      case False
      then show ?thesis
        by (intro groupsOk_mapMembers [OF ok, of "\<lambda>m. notify (m\<lparr>bmStopped := True\<rparr>)"])
          (simp_all add: memberOk_stop beginDisconnect_def)
    qed (simp add: beginDisconnect_def ok)
    then show ?thesis using StepClose ord seen by simp
  next
    case StepClosed
    then show ?thesis using ok ord seen by (auto simp: endDisconnect_def groupsOk_def groupOk_def)
  next
    case (StepPump gid mid)
    then show ?thesis using groupsOk_pumpStep [OF ok] keep ord seen by (simp add: stored_def)
  next
    case (StepTimer gid mid)
    then show ?thesis using ok ord seen by (simp add: timerFires_def groupsOk_updMember memberOk_settle(1))
  next
    case (StepFail gid mid)
    then show ?thesis using ok ord seen by (simp add: handlerFails_def groupsOk_updMember memberOk_settle(2))
  next
    case (StepHandled gid mid m key p keys d f)
    from handling_below [OF ok StepHandled(2,3)] show ?thesis
      using StepHandled ok ord seen by (simp add: orderly_snoc groupsOk_succeeds)
  qed
  then show ?thesis by (simp add: orderInv_def R_def)
qed

lemma brokerRun_order:
  assumes "brokerRun allowed s t" and "\<And>options. allowed options \<Longrightarrow> soFromBeginning options" and "orderInv s"
  shows "orderInv t"
  using assms by (induction rule: brokerRun.induct) (auto intro: brokerStep_order)

lemma freshBroker_order: "orderInv (freshBroker n c)"
  by (simp add: orderInv_def groupsOk_def orderly_def freshBroker_def)

section \<open>Properties of the broker\<close>

lemma subscribe_open: "\<not> bkClosed b \<Longrightarrow> subscribe options b = Inr (projr (subscribe options b))"
  by (simp add: subscribe_def Let_def)

lemma produce_open: "\<not> bkClosed b \<Longrightarrow> produce messages b = Inr (projr (produce messages b))"
  by (simp add: produce_def)


definition sampleOptions :: subscriptionOptions where
  "sampleOptions = \<lparr>soGroupId = ''g'', soTopics = [''t''], soFromBeginning = True\<rparr>"

definition sampleMessage :: outgoingMessage where
  "sampleMessage = \<lparr>omTopic = ''t'', omKey = None, omValue = ''v'', omHeaders = []\<rparr>"

definition sampleReading :: broker where
  "sampleReading = pumpStep ''g'' 0 (projr (produce [sampleMessage]
     (projr (subscribe sampleOptions (bsBroker (freshBroker 1 0))))))"

definition sampleHandled :: brokerState where
  "sampleHandled = \<lparr>bsBroker = handlerSucceeds ''g'' 0 ''t#0'' 0 sampleReading, bsHandled = [(''g'', ''t#0'', 0)]\<rparr>"

text \<open>Evaluating the operations on a concrete broker.\<close>

lemmas broker_eval = subscribe_def produce_def pumpStep_def updMember_def rebalance_def groupFor_def groupTopics_def topicKeys_def
  logsFor_def touchTopic_def newMember_def assignMember_def notify_def startPass_def dealt_def wakeSubscribersOf_def produceOne_def
  partitionFor_def pumpMember_def logAt_def resolvePosition_def startOffset_def memberOf_def handlerSucceeds_def nextOffset_def
  Let_def freshBroker_def

lemma decString_0: "decString 0 = ''0''"
  by (simp add: decString.simps digitChar_def char_of_def bit_0)

lemma key_t: "partitionKey ''t'' 0 = ''t#0''"
  by (simp add: partitionKey_def decString_0)

lemma parse_t: "parsePartitionKey ''t#0'' = (''t'', 0)"
  using parse_partitionKey [of "''t''" 0] by (simp add: key_t)

lemma sample_run: "brokerRun soFromBeginning (freshBroker 1 0) sampleHandled"
proof -
  let ?s0 = "freshBroker 1 0"
  let ?b1 = "projr (subscribe sampleOptions (bsBroker ?s0))"
  let ?b2 = "projr (produce [sampleMessage] ?b1)"
  let ?s3 = "\<lparr>bsBroker = sampleReading, bsHandled = []\<rparr>"
  have s0: "?s0 = \<lparr>bsBroker = bsBroker ?s0, bsHandled = []\<rparr>" by (simp add: freshBroker_def)
  have open0: "\<not> bkClosed (bsBroker ?s0)" by (simp add: freshBroker_def)
  have open1: "\<not> bkClosed ?b1" by (simp add: broker_eval sampleOptions_def)
  have "brokerStep soFromBeginning ?s0 \<lparr>bsBroker = ?b1, bsHandled = []\<rparr>"
    using StepSubscribe [where s = ?s0 and options = sampleOptions and allowed = soFromBeginning, OF subscribe_open [OF open0]]
    by (simp add: sampleOptions_def freshBroker_def)
  moreover have "brokerStep soFromBeginning \<lparr>bsBroker = ?b1, bsHandled = []\<rparr> \<lparr>bsBroker = ?b2, bsHandled = []\<rparr>"
    using StepProduce [where s = "\<lparr>bsBroker = ?b1, bsHandled = []\<rparr>" and messages = "[sampleMessage]" and b = ?b2] produce_open [OF open1] by simp
  moreover have "brokerStep soFromBeginning \<lparr>bsBroker = ?b2, bsHandled = []\<rparr> ?s3"
    using StepPump [where s = "\<lparr>bsBroker = ?b2, bsHandled = []\<rparr>" and gid = "''g''" and mid = 0] by (simp add: sampleReading_def)
  moreover have "brokerStep soFromBeginning ?s3 sampleHandled"
  proof -
    have "map_option bmPump (memberOf ''g'' 0 sampleReading) = Some (Handling ''t#0'' 0 [] False False)"
      by (simp add: broker_eval sampleReading_def sampleOptions_def sampleMessage_def key_t parse_t)
    then obtain m where "memberOf ''g'' 0 sampleReading = Some m" "bmPump m = Handling ''t#0'' 0 [] False False" by auto
    then show ?thesis using StepHandled [where s = ?s3 and gid = "''g''" and mid = 0 and m = m
          and delivered = False and failed = False] by (simp add: sampleHandled_def)
  qed
  ultimately show ?thesis by (meson RunHere RunStep)
qed


end
