(* ===== verification/BrokerGroups.thy ===== *)
theory BrokerGroups
  imports Broker
begin

text \<open>
  Consumer groups of the in-process broker: every partition of a group's topics belongs to
  exactly one of its members, and a member that has gone to sleep has nothing left to read.
  Both hold for groups whose members subscribe to the same topics (\<open>topicsOf\<close> gives them per
  group); for a group of mixed subscriptions the second fails, as the last theorem shows.
\<close>

section \<open>Caught up or awake\<close>

definition caughtUp :: "broker \<Rightarrow> brokerMember \<Rightarrow> string \<Rightarrow> bool" where
  "caughtUp b m key \<longleftrightarrow> (case logAt b key of None \<Rightarrow> True
     | Some records \<Rightarrow> (case bmPositions m key of None \<Rightarrow> False | Some p \<Rightarrow> length records \<le> p))"

definition caughtUpBut :: "broker \<Rightarrow> brokerMember \<Rightarrow> string set \<Rightarrow> bool" where
  "caughtUpBut b m keys \<longleftrightarrow> (\<forall>k \<in> set (bmAssigned m). k \<in> keys \<or> caughtUp b m k)"

text \<open>A loop that is going to sleep without a timer has read everything it holds.\<close>

definition wakeOk :: "broker \<Rightarrow> brokerMember \<Rightarrow> bool" where
  "wakeOk b m \<longleftrightarrow> (case bmPump m of
     Passing keys delivered failed \<Rightarrow> bmPending m \<or> delivered \<or> failed \<or> caughtUpBut b m (set keys)
   | Handling key _ keys delivered failed \<Rightarrow> bmPending m \<or> delivered \<or> failed \<or> caughtUpBut b m (insert key (set keys))
   | Asleep timer \<Rightarrow> timer \<or> caughtUpBut b m {}
   | Ended \<Rightarrow> bmStopped m)"

definition endedOk :: "brokerMember \<Rightarrow> bool" where
  "endedOk m \<longleftrightarrow> (bmPump m = Ended \<longrightarrow> bmStopped m)"

lemma wakeOk_ended: "wakeOk b m \<Longrightarrow> endedOk m"
  by (auto simp: wakeOk_def endedOk_def)

lemma wakeOk_startPass: "wakeOk b (m\<lparr>bmPump := startPass m\<rparr>)" "wakeOk b (m\<lparr>bmPending := x, bmPump := startPass m\<rparr>)"
  by (simp_all add: wakeOk_def startPass_def caughtUpBut_def)

lemma wakeOk_notify: "endedOk m \<Longrightarrow> wakeOk b (notify m)"
  by (cases "bmPump m") (simp_all add: notify_def wakeOk_startPass, simp_all add: wakeOk_def endedOk_def)

lemma wakeOk_stop:
  assumes "wakeOk b m"
  shows "wakeOk b (notify (m\<lparr>bmStopped := True\<rparr>))"
  by (rule wakeOk_notify) (simp add: endedOk_def)

lemma wakeOk_settle:
  assumes "wakeOk b m"
  shows "wakeOk b (case bmPump m of Asleep True \<Rightarrow> m\<lparr>bmPending := False, bmPump := startPass m\<rparr> | _ \<Rightarrow> m)"
    and "wakeOk b (case bmPump m of Handling key p keys d f \<Rightarrow> m\<lparr>bmPump := Passing keys d True\<rparr> | _ \<Rightarrow> m)"
    and "wakeOk b (if bmStopped m then m else notify (m\<lparr>bmStopped := True\<rparr>))"
    and "wakeOk b (case bmPump m of Handling _ _ keys d f \<Rightarrow>
           m\<lparr>bmPositions := (bmPositions m)(key \<mapsto> q), bmPump := Passing keys True f\<rparr> | _ \<Rightarrow> m)"
proof -
  show "wakeOk b (case bmPump m of Asleep True \<Rightarrow> m\<lparr>bmPending := False, bmPump := startPass m\<rparr> | _ \<Rightarrow> m)"
    using assms wakeOk_startPass(2) [of b m False] by (auto split: pump.splits bool.splits)
  show "wakeOk b (case bmPump m of Handling key p keys d f \<Rightarrow> m\<lparr>bmPump := Passing keys d True\<rparr> | _ \<Rightarrow> m)"
    using assms by (cases "bmPump m") (simp_all add: wakeOk_def)
  show "wakeOk b (if bmStopped m then m else notify (m\<lparr>bmStopped := True\<rparr>))"
    using assms wakeOk_stop by simp
  show "wakeOk b (case bmPump m of Handling _ _ keys d f \<Rightarrow>
           m\<lparr>bmPositions := (bmPositions m)(key \<mapsto> q), bmPump := Passing keys True f\<rparr> | _ \<Rightarrow> m)"
    using assms by (cases "bmPump m") (simp_all add: wakeOk_def)
qed

lemma caughtUp_pump [simp]: "caughtUp b (m\<lparr>bmPump := q\<rparr>) = caughtUp b m"
  by (rule ext) (simp add: caughtUp_def split: option.splits)

lemma caughtUp_position: "caughtUp b (m\<lparr>bmPositions := (bmPositions m)(key \<mapsto> p)\<rparr>) k
   \<longleftrightarrow> (if k = key then (case logAt b key of None \<Rightarrow> True | Some records \<Rightarrow> length records \<le> p) else caughtUp b m k)"
  by (simp add: caughtUp_def split: option.splits)

lemma caughtUpBut_pump [simp]: "caughtUpBut b (m\<lparr>bmPump := q\<rparr>) = caughtUpBut b m"
  by (rule ext) (simp add: caughtUpBut_def)

lemma caughtUpBut_skip: "caughtUpBut b m (insert key keys) \<Longrightarrow> caughtUp b m key \<Longrightarrow> caughtUpBut b m keys"
  by (auto simp: caughtUpBut_def)

lemma caughtUpBut_read:
  "caughtUpBut b m (insert key keys) \<Longrightarrow> logAt b key = Some records \<Longrightarrow> length records \<le> p
     \<Longrightarrow> caughtUpBut b (m\<lparr>bmPositions := (bmPositions m)(key \<mapsto> p), bmPump := q\<rparr>) keys"
  by (auto simp: caughtUpBut_def caughtUp_position)

lemma caughtUpBut_position:
  "caughtUpBut b m (insert key keys) \<Longrightarrow> caughtUpBut b (m\<lparr>bmPositions := (bmPositions m)(key \<mapsto> p), bmPump := q\<rparr>) (insert key keys)"
  by (auto simp: caughtUpBut_def caughtUp_position)

lemma wakeOk_pump:
  assumes "wakeOk b m"
  shows "wakeOk b (pumpMember b g m)"
proof (cases "bmPump m")
  case (Passing keys d f)
  show ?thesis
  proof (cases keys)
    case Nil
    then show ?thesis
      using assms Passing by (simp add: pumpMember_def wakeOk_startPass) (auto simp: wakeOk_def)
  next
    case (Cons key rest)
    have go: "bmPending m \<or> d \<or> f \<or> caughtUpBut b m (insert key (set rest))"
      using assms Passing Cons by (simp add: wakeOk_def)
    show ?thesis
    proof (cases "logAt b key")
      case None
      then show ?thesis
        using go Passing Cons caughtUpBut_skip [of b m key "set rest"]
        by (auto simp: pumpMember_def wakeOk_def caughtUp_def)
    next
      case (Some records)
      let ?p = "resolvePosition g m key records"
      show ?thesis
      proof (cases "length records \<le> ?p")
        case True
        with Some go Passing Cons caughtUpBut_read [of b m key "set rest" records ?p "Passing rest d f"]
        show ?thesis by (auto simp: pumpMember_def wakeOk_def Let_def)
      next
        case False
        with Some go Passing Cons caughtUpBut_position [where b = b and m = m and key = key and keys = "set rest" and p = ?p and q = "Handling key ?p rest d f"]
        show ?thesis by (auto simp: pumpMember_def wakeOk_def Let_def)
      qed
    qed
  qed
qed (use assms in \<open>simp_all add: pumpMember_def\<close>)

text \<open>A produce or a new topic that touches nothing the member holds.\<close>

lemma wakeOk_logs:
  assumes "wakeOk b m" and "\<And>k. k \<in> set (bmAssigned m) \<Longrightarrow> logAt b' k = logAt b k"
  shows "wakeOk b' m"
proof -
  have "caughtUpBut b' m X = caughtUpBut b m X" for X
    using assms(2) by (auto simp: caughtUpBut_def caughtUp_def)
  with assms(1) show ?thesis by (simp add: wakeOk_def split: pump.splits)
qed

section \<open>Dealing out the partitions\<close>

lemma set_dealt: "k \<in> set (dealt keys n i) \<longleftrightarrow> (\<exists>j<length keys. j mod n = i \<and> keys ! j = k)"
  by (auto simp: dealt_def)

lemma dealt_unique:
  assumes "distinct keys" and "k \<in> set (dealt keys n i)" and "k \<in> set (dealt keys n i')"
  shows "i = i'"
  using assms by (auto simp: set_dealt nth_eq_iff_index_eq)

lemma dealt_total:
  assumes "k \<in> set keys" and "0 < n"
  shows "\<exists>i<n. k \<in> set (dealt keys n i)"
proof -
  obtain j where "j < length keys" "keys ! j = k" using assms(1) by (auto simp: in_set_conv_nth)
  then show ?thesis using assms(2) by (intro exI [of _ "j mod n"]) (auto simp: set_dealt)
qed

text \<open>The keys of a group that reads the given topics.\<close>

definition groupKeys :: "broker \<Rightarrow> string list \<Rightarrow> string list" where
  "groupKeys b topics = concat (map (topicKeys b) (sort (remdups topics)))"

lemma set_groupKeys: "k \<in> set (groupKeys b topics) \<longleftrightarrow> (\<exists>t \<in> set topics. \<exists>part<length (logsFor t b). k = partitionKey t part)"
  by (auto simp: groupKeys_def topicKeys_def image_iff Bex_def)

lemma distinct_groupKeys: "distinct (groupKeys b topics)"
proof -
  have "distinct (concat (map (topicKeys b) ts))" if "distinct ts" for ts
    using that
  proof (induction ts)
    case (Cons t ts)
    have "distinct (topicKeys b t)" by (simp add: topicKeys_def distinct_map inj_on_def)
    moreover have "set (topicKeys b t) \<inter> set (concat (map (topicKeys b) ts)) = {}"
      using Cons.prems by (auto simp: topicKeys_def)
    ultimately show ?case using Cons by simp
  qed simp
  then show ?thesis by (simp add: groupKeys_def)
qed

lemma groupTopics_same:
  assumes "members \<noteq> []" and "\<forall>m \<in> set members. bmTopics m = topics"
  shows "groupTopics members = sort (remdups topics)"
proof -
  have "set (concat (map bmTopics members)) = set topics"
    using assms by (cases members) auto
  then have "set (sort (remdups (concat (map bmTopics members)))) = set (sort (remdups topics))" by simp
  then show ?thesis unfolding groupTopics_def by (intro sorted_distinct_set_unique) simp_all
qed

definition balanced :: "broker \<Rightarrow> string list \<Rightarrow> brokerMember list \<Rightarrow> bool" where
  "balanced b topics members \<longleftrightarrow> members = [] \<or>
     ((\<forall>t \<in> set topics. bkLogs b t \<noteq> None)
      \<and> map bmAssigned members = map (dealt (groupKeys b topics) (length members)) [0..<length members])"

text \<open>No topic disappears or changes its number of partitions.\<close>

definition samePartitions :: "broker \<Rightarrow> broker \<Rightarrow> bool" where
  "samePartitions b b' \<longleftrightarrow> (\<forall>t logs. bkLogs b t = Some logs \<longrightarrow> (\<exists>logs'. bkLogs b' t = Some logs' \<and> length logs' = length logs))"

lemma samePartitions_refl [simp]: "samePartitions b b"
  by (simp add: samePartitions_def)

lemma samePartitions_trans: "samePartitions a b \<Longrightarrow> samePartitions b c \<Longrightarrow> samePartitions a c"
  unfolding samePartitions_def by metis

lemma groupKeys_same:
  assumes "samePartitions b b'" and "\<forall>t \<in> set topics. bkLogs b t \<noteq> None"
  shows "groupKeys b' topics = groupKeys b topics"
proof -
  have "length (logsFor t b') = length (logsFor t b)" if "t \<in> set topics" for t
    using assms that by (force simp: samePartitions_def logsFor_def)
  then have "topicKeys b' t = topicKeys b t" if "t \<in> set (sort (remdups topics))" for t
    using that by (simp add: topicKeys_def)
  then show ?thesis unfolding groupKeys_def by (metis (no_types, lifting) map_eq_conv)
qed

lemma balanced_same:
  assumes "balanced b topics members" and "samePartitions b b'" and "map bmAssigned members' = map bmAssigned members"
  shows "balanced b' topics members'"
proof -
  have len: "length members' = length members" using map_eq_imp_length_eq [OF assms(3)] .
  show ?thesis
  proof (cases "members = []")
    case False
    with assms(1) have logs: "\<forall>t \<in> set topics. bkLogs b t \<noteq> None"
      and dealt: "map bmAssigned members = map (dealt (groupKeys b topics) (length members)) [0..<length members]"
      by (simp_all add: balanced_def)
    have "\<forall>t \<in> set topics. bkLogs b' t \<noteq> None" using logs assms(2) unfolding samePartitions_def by fastforce
    then show ?thesis
      using dealt groupKeys_same [OF assms(2) logs] assms(3) len by (simp add: balanced_def)
  qed (use len in \<open>simp add: balanced_def\<close>)
qed

section \<open>The invariant of a group\<close>

definition groupWakeOk :: "broker \<Rightarrow> string list \<Rightarrow> brokerGroup \<Rightarrow> bool" where
  "groupWakeOk b topics g \<longleftrightarrow> (\<forall>m \<in> set (bgMembers g). bmTopics m = topics \<and> wakeOk b m) \<and> balanced b topics (bgMembers g)"

definition wakeInv :: "(string \<Rightarrow> string list) \<Rightarrow> broker \<Rightarrow> bool" where
  "wakeInv topicsOf b \<longleftrightarrow> (\<forall>gid g. bkGroups b gid = Some g \<longrightarrow> groupWakeOk b (topicsOf gid) g)"

lemma wakeInv_for:
  assumes "wakeInv topicsOf b"
  shows "groupWakeOk b (topicsOf gid) (groupFor gid b)"
  using assms by (auto simp: wakeInv_def groupFor_def groupWakeOk_def balanced_def split: option.splits)

lemma notify_same [simp]: "bmTopics (notify m) = bmTopics m" "bmAssigned (notify m) = bmAssigned m" "bmId (notify m) = bmId m"
  "bmFromBeginning (notify m) = bmFromBeginning m"
  by (simp_all add: notify_def split: pump.splits)

lemma pumpMember_same [simp]: "bmTopics (pumpMember b g m) = bmTopics m" "bmAssigned (pumpMember b g m) = bmAssigned m"
  by (auto simp: pumpMember_def Let_def split: pump.splits list.splits option.splits)

lemma assignMember_same [simp]: "bmTopics (assignMember ks m) = bmTopics m" "bmAssigned (assignMember ks m) = ks"
  "bmId (assignMember ks m) = bmId m"
  by (simp_all add: assignMember_def)

lemma balanced_nth:
  assumes "balanced b topics members" and "i < length members"
  shows "bmAssigned (members ! i) = dealt (groupKeys b topics) (length members) i"
proof -
  have "map bmAssigned members = map (dealt (groupKeys b topics) (length members)) [0..<length members]"
    using assms by (auto simp: balanced_def)
  from arg_cong [OF this, of "\<lambda>xs. xs ! i"] assms(2) show ?thesis by simp
qed

lemma assigned_held:
  assumes "balanced b topics members" and "m \<in> set members" and "k \<in> set (bmAssigned m)"
  shows "\<exists>t \<in> set topics. \<exists>part. k = partitionKey t part \<and> bkLogs b t \<noteq> None"
proof -
  from assms(1,2) have logs: "\<forall>t \<in> set topics. bkLogs b t \<noteq> None" by (auto simp: balanced_def)
  from assms(2) obtain i where "i < length members" "m = members ! i" by (auto simp: in_set_conv_nth)
  then have "bmAssigned m = dealt (groupKeys b topics) (length members) i" using balanced_nth [OF assms(1)] by simp
  then have "k \<in> set (groupKeys b topics)" using assms(3) by (auto simp: set_dealt)
  with logs show ?thesis by (auto simp: set_groupKeys)
qed

text \<open>A step that replaces members one by one and leaves logs alone.\<close>

lemma wakeInv_map:
  assumes "wakeInv topicsOf b" and "samePartitions b b'"
    and "\<And>gid g. bkGroups b' gid = Some g \<Longrightarrow> \<exists>g0. bkGroups b gid = Some g0 \<and> bgMembers g = map (f gid) (bgMembers g0)"
    and "\<And>gid m. bmTopics (f gid m) = bmTopics m" and "\<And>gid m. bmAssigned (f gid m) = bmAssigned m"
    and "\<And>gid g0 m. bkGroups b gid = Some g0 \<Longrightarrow> m \<in> set (bgMembers g0) \<Longrightarrow> wakeOk b m \<Longrightarrow> wakeOk b' (f gid m)"
  shows "wakeInv topicsOf b'"
  unfolding wakeInv_def
proof (intro allI impI)
  fix gid g assume "bkGroups b' gid = Some g"
  then obtain g0 where g0: "bkGroups b gid = Some g0" and members: "bgMembers g = map (f gid) (bgMembers g0)"
    using assms(3) by blast
  with assms(1) have ok: "groupWakeOk b (topicsOf gid) g0" by (simp add: wakeInv_def)
  have "balanced b' (topicsOf gid) (bgMembers g)"
    using ok by (intro balanced_same [OF _ assms(2)]) (auto simp: groupWakeOk_def members assms(5))
  then show "groupWakeOk b' (topicsOf gid) g"
    using ok assms(4,6) g0 by (auto simp: groupWakeOk_def members)
qed

lemma samePartitions_logs: "bkLogs b' = bkLogs b \<Longrightarrow> samePartitions b b'"
  by (simp add: samePartitions_def)

lemma logAt_same: "(\<And>t. logsFor t b' = logsFor t b) \<Longrightarrow> logAt b' = logAt b"
  by (rule ext) (simp add: logAt_def)

lemma wakeOk_same_logs: "(\<And>t. logsFor t b' = logsFor t b) \<Longrightarrow> wakeOk b' m = wakeOk b m"
  using wakeOk_logs [of b m b'] wakeOk_logs [of b' m b] logAt_same [of b' b] by auto

lemma wakeInv_updMember:
  assumes "wakeInv topicsOf b" and "\<And>m. bmTopics (f m) = bmTopics m" and "\<And>m. bmAssigned (f m) = bmAssigned m"
    and "\<And>m. wakeOk b m \<Longrightarrow> wakeOk b (f m)"
  shows "wakeInv topicsOf (updMember gid mid f b)"
proof (rule wakeInv_map [OF assms(1), where f = "\<lambda>gid' m. if gid' = gid \<and> bmId m = mid then f m else m"])
  fix gid' g assume "bkGroups (updMember gid mid f b) gid' = Some g"
  then show "\<exists>g0. bkGroups b gid' = Some g0 \<and> bgMembers g = map (\<lambda>m. if gid' = gid \<and> bmId m = mid then f m else m) (bgMembers g0)"
    by (auto simp: updMember_groups split: if_splits)
next
  fix gid' g0 m assume "wakeOk b m"
  then show "wakeOk (updMember gid mid f b) (if gid' = gid \<and> bmId m = mid then f m else m)"
    using assms(4) by (simp add: wakeOk_same_logs [of "updMember gid mid f b" b])
qed (simp_all add: assms(2,3) samePartitions_logs)

section \<open>Steps\<close>

lemma fold_touch_logs: "bkLogs (fold touchTopic ts b) t = (if t \<in> set ts then Some (logsFor t b) else bkLogs b t)"
proof (induction ts arbitrary: b)
  case (Cons t' ts)
  have "bkLogs (touchTopic t' b) t = (if t = t' then Some (logsFor t b) else bkLogs b t)" by (simp add: touchTopic_def)
  then show ?case by (auto simp: Cons)
qed simp

lemma samePartitions_touch: "samePartitions b (fold touchTopic ts b)"
  by (auto simp: samePartitions_def fold_touch_logs logsFor_def)

lemma topicKeys_logs: "(\<And>t. logsFor t b' = logsFor t b) \<Longrightarrow> topicKeys b' = topicKeys b"
  by (rule ext) (simp add: topicKeys_def)

lemma samePartitions_rebalance: "samePartitions b (rebalance gid b)"
proof (cases "bgMembers (groupFor gid b) = []")
  case True
  then show ?thesis by (simp add: rebalance_def Let_def samePartitions_logs)
next
  case False
  then show ?thesis
    using samePartitions_touch [of b "groupTopics (bgMembers (groupFor gid b))"]
    by (simp add: rebalance_def Let_def samePartitions_def)
qed

text \<open>What a rebalance makes of the group it is called for.\<close>

lemma rebalance_group:
  assumes "bkGroups b gid = Some g" and "\<forall>m \<in> set (bgMembers g). bmTopics m = topics"
  shows "\<exists>g'. bkGroups (rebalance gid b) gid = Some g' \<and> balanced (rebalance gid b) topics (bgMembers g')
    \<and> bgCommitted g' = bgCommitted g
    \<and> (\<forall>m' \<in> set (bgMembers g'). bmTopics m' = topics
        \<and> (\<exists>m \<in> set (bgMembers g). bmId m' = bmId m \<and> (endedOk m \<longrightarrow> wakeOk (rebalance gid b) m')))"
proof (cases "bgMembers g = []")
  case True
  then show ?thesis
    using assms(1) by (simp add: rebalance_groups groupFor_eq balanced_def Let_def)
next
  case False
  let ?ms = "bgMembers g"
  let ?keys = "groupKeys b topics"
  let ?b' = "rebalance gid b"
  have topics: "groupTopics ?ms = sort (remdups topics)" by (rule groupTopics_same [OF False assms(2)])
  have keys: "concat (map (topicKeys (fold touchTopic (groupTopics ?ms) b)) (groupTopics ?ms)) = ?keys"
    by (simp add: groupKeys_def topics topicKeys_logs [of "fold touchTopic (sort (remdups topics)) b" b])
  have g': "bkGroups ?b' gid = Some (g\<lparr>bgMembers := map (\<lambda>(i, m). assignMember (dealt ?keys (length ?ms) i) m) (enumerate 0 ?ms)\<rparr>)"
    by (simp add: rebalance_groups groupFor_eq [OF assms(1)] Let_def keys)
  have "bkLogs ?b' t \<noteq> None" if "t \<in> set topics" for t
    using that False by (simp add: rebalance_def groupFor_eq [OF assms(1)] Let_def topics fold_touch_logs)
  moreover have "groupKeys ?b' topics = ?keys"
    by (simp add: groupKeys_def topicKeys_logs [of ?b' b])
  moreover have "map bmAssigned (map (\<lambda>(i, m). assignMember (dealt ?keys (length ?ms) i) m) (enumerate 0 ?ms))
      = map (dealt ?keys (length ?ms)) [0..<length ?ms]"
    by (rule nth_equalityI) (simp_all add: nth_enumerate_eq)
  ultimately have "balanced ?b' topics (map (\<lambda>(i, m). assignMember (dealt ?keys (length ?ms) i) m) (enumerate 0 ?ms))"
    by (simp add: balanced_def)
  moreover have "bmTopics m' = topics \<and> (\<exists>m \<in> set ?ms. bmId m' = bmId m \<and> (endedOk m \<longrightarrow> wakeOk ?b' m'))"
    if m': "m' \<in> set (map (\<lambda>(i, m). assignMember (dealt ?keys (length ?ms) i) m) (enumerate 0 ?ms))" for m'
  proof -
    from m' obtain i m where m: "(i, m) \<in> set (enumerate 0 ?ms)" "m' = assignMember (dealt ?keys (length ?ms) i) m" by auto
    then have "m \<in> set ?ms" by (auto simp: in_set_enumerate_eq)
    moreover have "wakeOk ?b' m'" if "endedOk m"
      unfolding m(2) assignMember_def by (rule wakeOk_notify) (use that in \<open>simp add: endedOk_def\<close>)
    ultimately show ?thesis using assms(2) m(2) by auto
  qed
  ultimately show ?thesis unfolding g' by simp
qed

lemma rebalance_other:
  assumes "groupWakeOk b topics g"
  shows "groupWakeOk (rebalance gid b) topics g"
  using assms balanced_same [OF _ samePartitions_rebalance, of b topics "bgMembers g" "bgMembers g" gid]
  by (simp add: groupWakeOk_def wakeOk_same_logs [of "rebalance gid b" b])

lemma groupWakeOk_groups: "groupWakeOk (b\<lparr>bkGroups := gs\<rparr>) = groupWakeOk b"
  "groupWakeOk (b\<lparr>bkGroups := gs, bkNextMember := n\<rparr>) = groupWakeOk b"
  by (intro ext; simp add: groupWakeOk_def balanced_def groupKeys_def
      wakeOk_same_logs [of "b\<lparr>bkGroups := gs\<rparr>" b] topicKeys_logs [of "b\<lparr>bkGroups := gs\<rparr>" b]
      wakeOk_same_logs [of "b\<lparr>bkGroups := gs, bkNextMember := n\<rparr>" b] topicKeys_logs [of "b\<lparr>bkGroups := gs, bkNextMember := n\<rparr>" b])+

lemma wakeInv_rebalance:
  assumes "\<And>gid' g. gid' \<noteq> gid \<Longrightarrow> bkGroups b gid' = Some g \<Longrightarrow> groupWakeOk b (topicsOf gid') g"
    and "bkGroups b gid = Some g" and "\<forall>m \<in> set (bgMembers g). bmTopics m = topicsOf gid \<and> endedOk m"
  shows "wakeInv topicsOf (rebalance gid b)"
  unfolding wakeInv_def
proof (intro allI impI)
  fix gid' g' assume g': "bkGroups (rebalance gid b) gid' = Some g'"
  show "groupWakeOk (rebalance gid b) (topicsOf gid') g'"
  proof (cases "gid' = gid")
    case True
    with rebalance_group [OF assms(2), of "topicsOf gid"] assms(3) g' show ?thesis by (auto simp: groupWakeOk_def)
  next
    case False
    with g' have "bkGroups b gid' = Some g'" by (simp add: rebalance_groups)
    from rebalance_other [OF assms(1) [OF False this]] show ?thesis .
  qed
qed

lemma wakeInv_leave:
  assumes "wakeInv topicsOf b"
  shows "wakeInv topicsOf (leaveGroup gid mid b)"
  unfolding leaveGroup_def Let_def
proof (rule wakeInv_rebalance)
  fix gid' g' assume "gid' \<noteq> gid" and "bkGroups (b\<lparr>bkGroups := (bkGroups b)(gid \<mapsto> (groupFor gid b)\<lparr>bgMembers := filter (\<lambda>m. bmId m \<noteq> mid) (bgMembers (groupFor gid b))\<rparr>)\<rparr>) gid' = Some g'"
  then show "groupWakeOk (b\<lparr>bkGroups := (bkGroups b)(gid \<mapsto> (groupFor gid b)\<lparr>bgMembers := filter (\<lambda>m. bmId m \<noteq> mid) (bgMembers (groupFor gid b))\<rparr>)\<rparr>) (topicsOf gid') g'"
    using assms by (simp add: groupWakeOk_groups wakeInv_def)
qed (use wakeInv_for [OF assms, of gid] in \<open>auto simp: groupWakeOk_def intro: wakeOk_ended\<close>)

lemma wakeInv_subscribe:
  assumes "wakeInv topicsOf b" and "soTopics options = topicsOf (soGroupId options)" and "subscribe options b = Inr b'"
  shows "wakeInv topicsOf b'"
proof -
  define gid where "gid = soGroupId options"
  define mid where "mid = bkNextMember b"
  define g where "g = (groupFor gid b)\<lparr>bgMembers := bgMembers (groupFor gid b) @ [newMember options mid]\<rparr>"
  define joined where "joined = b\<lparr>bkGroups := (bkGroups b)(gid \<mapsto> g), bkNextMember := mid + 1\<rparr>"
  have b': "b' = updMember gid mid (\<lambda>m. m\<lparr>bmPump := startPass m\<rparr>) (rebalance gid joined)"
    using assms(3) by (simp add: subscribe_def Let_def gid_def mid_def g_def joined_def split: if_splits)
  have g: "bkGroups joined gid = Some g" by (simp add: joined_def)
  have old: "bmTopics m = topicsOf gid \<and> endedOk m" if "m \<in> set (bgMembers (groupFor gid b))" for m
    using wakeInv_for [OF assms(1), of gid] that by (auto simp: groupWakeOk_def intro: wakeOk_ended)
  have same: "\<forall>m \<in> set (bgMembers g). bmTopics m = topicsOf gid"
    using old assms(2) by (auto simp: g_def newMember_def gid_def)
  obtain g' where g': "bkGroups (rebalance gid joined) gid = Some g'"
    and bal: "balanced (rebalance gid joined) (topicsOf gid) (bgMembers g')"
    and ms: "\<forall>m' \<in> set (bgMembers g'). bmTopics m' = topicsOf gid
        \<and> (\<exists>m \<in> set (bgMembers g). bmId m' = bmId m \<and> (endedOk m \<longrightarrow> wakeOk (rebalance gid joined) m'))"
    using rebalance_group [OF g same] by blast
  have awake: "bmId m' = mid \<or> wakeOk (rebalance gid joined) m'" if "m' \<in> set (bgMembers g')" for m'
    using ms that old by (fastforce simp: g_def newMember_def)
  have logs: "wakeOk b' m = wakeOk (rebalance gid joined) m" for m by (rule wakeOk_same_logs) (simp add: b')
  show ?thesis
    unfolding wakeInv_def
  proof (intro allI impI)
    fix gid' g2 assume g2: "bkGroups b' gid' = Some g2"
    show "groupWakeOk b' (topicsOf gid') g2"
    proof (cases "gid' = gid")
      case True
      then have g2': "g2 = g'\<lparr>bgMembers := map (\<lambda>m. if bmId m = mid then m\<lparr>bmPump := startPass m\<rparr> else m) (bgMembers g')\<rparr>"
        using g2 g' by (simp add: b' updMember_groups)
      have "balanced b' (topicsOf gid) (bgMembers g2)"
        by (rule balanced_same [OF bal]) (simp_all add: b' g2' samePartitions_logs)
      moreover have "bmTopics m = topicsOf gid \<and> wakeOk b' m" if "m \<in> set (bgMembers g2)" for m
        using that ms awake wakeOk_startPass(1) [of b'] by (auto simp: g2' logs split: if_splits)
      ultimately show ?thesis using True by (simp add: groupWakeOk_def)
    next
      case False
      then have "bkGroups b gid' = Some g2" using g2 by (simp add: b' updMember_groups rebalance_groups joined_def)
      with assms(1) have "groupWakeOk b (topicsOf gid') g2" by (simp add: wakeInv_def)
      then have "groupWakeOk (rebalance gid joined) (topicsOf gid') g2"
        by (intro rebalance_other) (simp add: joined_def groupWakeOk_groups)
      then show ?thesis
        using balanced_same [of "rebalance gid joined" "topicsOf gid'" "bgMembers g2" b' "bgMembers g2"]
        by (simp add: groupWakeOk_def logs) (simp add: b' samePartitions_logs)
    qed
  qed
qed

text \<open>Producing: whoever holds a log that grew is notified.\<close>

definition wakes :: "string list \<Rightarrow> brokerMember \<Rightarrow> brokerMember" where
  "wakes ts m = fold (\<lambda>t m. if t \<in> set (bmTopics m) then notify m else m) ts m"

lemma wakes_same [simp]: "bmTopics (wakes ts m) = bmTopics m" "bmAssigned (wakes ts m) = bmAssigned m"
proof -
  have "bmTopics (fold (\<lambda>t m. if t \<in> set (bmTopics m) then notify m else m) ts m) = bmTopics m
      \<and> bmAssigned (fold (\<lambda>t m. if t \<in> set (bmTopics m) then notify m else m) ts m) = bmAssigned m"
    by (induction ts arbitrary: m) auto
  then show "bmTopics (wakes ts m) = bmTopics m" "bmAssigned (wakes ts m) = bmAssigned m" by (simp_all add: wakes_def)
qed

lemma wakes_ok:
  assumes "endedOk m" and "wakeOk b m \<or> (\<exists>t \<in> set ts. t \<in> set (bmTopics m))"
  shows "wakeOk b (wakes ts m)"
  using assms
proof (induction ts arbitrary: m)
  case (Cons t ts)
  show ?case
  proof (cases "t \<in> set (bmTopics m)")
    case True
    have "wakeOk b (notify m)" by (rule wakeOk_notify [OF Cons.prems(1)])
    from Cons.IH [OF wakeOk_ended [OF this]] this True show ?thesis by (simp add: wakes_def)
  next
    case False
    with Cons.prems(2) have "wakeOk b m \<or> (\<exists>t \<in> set ts. t \<in> set (bmTopics m))" by auto
    from Cons.IH [OF Cons.prems(1) this] False show ?thesis by (simp add: wakes_def)
  qed
qed (simp add: wakes_def)

lemma fold_wake_groups: "bkGroups (fold wakeSubscribersOf ts b) gid
   = map_option (\<lambda>g. g\<lparr>bgMembers := map (wakes ts) (bgMembers g)\<rparr>) (bkGroups b gid)"
proof (induction ts arbitrary: b)
  case Nil
  have "wakes [] = (\<lambda>m. m)" by (rule ext) (simp add: wakes_def)
  then show ?case by (simp add: option.map_ident)
next
  case (Cons t ts)
  have "wakes ts \<circ> (\<lambda>m. if t \<in> set (bmTopics m) then notify m else m) = wakes (t # ts)"
    by (rule ext) (simp add: wakes_def)
  then show ?case by (simp add: Cons wakeSubscribers_groups option.map_comp comp_def)
qed

lemma fold_produce_other: "t \<notin> set (map omTopic messages) \<Longrightarrow> logsFor t (fold produceOne messages b) = logsFor t b"
  by (induction messages arbitrary: b) (simp_all add: logsFor_produceOne)

lemma samePartitions_produce: "samePartitions b (fold produceOne messages b)"
proof (induction messages arbitrary: b)
  case (Cons msg messages)
  have "samePartitions b (produceOne msg b)"
    by (auto simp: samePartitions_def produceOne_def Let_def logsFor_def split: prod.splits)
  from samePartitions_trans [OF this Cons.IH] show ?case by simp
qed simp

lemma fold_wake_logs [simp]: "bkLogs (fold wakeSubscribersOf ts b) = bkLogs b"
  by (induction ts arbitrary: b) (simp_all add: wakeSubscribersOf_def)

lemma wakeInv_produce:
  assumes "wakeInv topicsOf b" and "produce messages b = Inr b'"
  shows "wakeInv topicsOf b'"
proof -
  let ?ts = "remdups (map omTopic messages)"
  have b': "b' = fold wakeSubscribersOf ?ts (fold produceOne messages b)"
    using assms(2) by (simp add: produce_def split: if_splits)
  show ?thesis
  proof (rule wakeInv_map [OF assms(1), where f = "\<lambda>_. wakes ?ts"])
    show "samePartitions b b'"
      using samePartitions_produce [of b messages] by (simp add: b' samePartitions_def)
    show "\<exists>g0. bkGroups b gid = Some g0 \<and> bgMembers g = map (wakes ?ts) (bgMembers g0)" if "bkGroups b' gid = Some g" for gid g
      using that by (auto simp: b' fold_wake_groups)
    fix gid g0 m assume g0: "bkGroups b gid = Some g0" "m \<in> set (bgMembers g0)" and ok: "wakeOk b m"
    with assms(1) have bal: "balanced b (topicsOf gid) (bgMembers g0)" and ts: "bmTopics m = topicsOf gid"
      by (simp_all add: wakeInv_def groupWakeOk_def)
    show "wakeOk b' (wakes ?ts m)"
    proof (rule wakes_ok [OF wakeOk_ended [OF ok]], cases "\<exists>t \<in> set ?ts. t \<in> set (bmTopics m)")
      case False
      have "wakeOk b' m"
      proof (rule wakeOk_logs [OF ok])
        fix k assume "k \<in> set (bmAssigned m)"
        from assigned_held [OF bal g0(2) this] obtain t part where "t \<in> set (topicsOf gid)" "k = partitionKey t part" by blast
        moreover with False ts have "t \<notin> set (map omTopic messages)" by auto
        then have "logsFor t b' = logsFor t b" by (simp add: b' fold_produce_other)
        ultimately show "logAt b' k = logAt b k" by (simp add: logAt_def)
      qed
      then show "wakeOk b' m \<or> (\<exists>t \<in> set ?ts. t \<in> set (bmTopics m))" ..
    qed simp
  qed simp_all
qed

lemma wakeInv_topics:
  assumes "wakeInv topicsOf b" and "ensureTopics specs b = Inr b'"
  shows "wakeInv topicsOf b'"
proof (rule wakeInv_map [OF assms(1), where f = "\<lambda>_ m. m"])
  have b': "b' = b\<lparr>bkLogs := fold (\<lambda>(topic, parts) logs. if logs topic = None then logs(topic \<mapsto> replicate parts []) else logs) specs (bkLogs b)\<rparr>"
    using assms(2) by (simp add: ensureTopics_def split: if_splits)
  have keep: "bkLogs b' t = Some logs" if "bkLogs b t = Some logs" for t logs
    using fold_topics_keep [of "bkLogs b" t logs specs] that by (simp add: b')
  show "samePartitions b b'" using keep by (simp add: samePartitions_def)
  show "\<exists>g0. bkGroups b gid = Some g0 \<and> bgMembers g = map (\<lambda>m. m) (bgMembers g0)" if "bkGroups b' gid = Some g" for gid g
    using that by (simp add: b')
  fix gid g0 m assume g0: "bkGroups b gid = Some g0" "m \<in> set (bgMembers g0)" and ok: "wakeOk b m"
  with assms(1) have bal: "balanced b (topicsOf gid) (bgMembers g0)" by (simp add: wakeInv_def groupWakeOk_def)
  show "wakeOk b' m"
  proof (rule wakeOk_logs [OF ok])
    fix k assume "k \<in> set (bmAssigned m)"
    from assigned_held [OF bal g0(2) this] obtain t part where t: "k = partitionKey t part" "bkLogs b t \<noteq> None" by blast
    then obtain logs where "bkLogs b t = Some logs" by blast
    with keep [OF this] t(1) show "logAt b' k = logAt b k" by (simp add: logAt_def logsFor_def)
  qed
qed simp_all

lemma brokerStep_wake:
  assumes "brokerStep allowed s t" and "\<And>options. allowed options \<Longrightarrow> soTopics options = topicsOf (soGroupId options)"
    and "wakeInv topicsOf (bsBroker s)"
  shows "wakeInv topicsOf (bsBroker t)"
  using assms(1)
proof cases
  case (StepTopics specs b)
  then show ?thesis using wakeInv_topics [OF assms(3)] by simp
next
  case (StepProduce messages b)
  then show ?thesis using wakeInv_produce [OF assms(3)] by simp
next
  case (StepSubscribe options b)
  then show ?thesis using wakeInv_subscribe [OF assms(3) assms(2)] by simp
next
  case (StepStop gid mid)
  then show ?thesis
    by (simp add: stopMember_def) (rule wakeInv_updMember [OF assms(3)], simp_all add: wakeOk_settle(3) del: if_split split: if_split)
next
  case (StepLeave gid mid m)
  then show ?thesis by (simp add: wakeInv_leave assms(3))
next
  case StepClose
  show ?thesis
  proof (cases "bkClosed (bsBroker s)")
    case False
    have "wakeInv topicsOf (beginDisconnect (bsBroker s))"
    proof (rule wakeInv_map [OF assms(3), where f = "\<lambda>_ m. notify (m\<lparr>bmStopped := True\<rparr>)"])
      fix gid g0 m assume "wakeOk (bsBroker s) m"
      then show "wakeOk (beginDisconnect (bsBroker s)) (notify (m\<lparr>bmStopped := True\<rparr>))"
        by (simp add: wakeOk_same_logs [of "beginDisconnect (bsBroker s)" "bsBroker s"] wakeOk_stop)
    qed (use False in \<open>auto simp: beginDisconnect_def samePartitions_logs\<close>)
    with StepClose show ?thesis by simp
  qed (use StepClose assms(3) in \<open>simp add: beginDisconnect_def\<close>)
next
  case StepClosed
  then show ?thesis by (auto simp: endDisconnect_def wakeInv_def groupWakeOk_def balanced_def)
next
  case (StepPump gid mid)
  then show ?thesis
    by (simp add: pumpStep_def) (rule wakeInv_updMember [OF assms(3)], simp_all add: wakeOk_pump)
next
  case (StepTimer gid mid)
  then show ?thesis
    by (simp add: timerFires_def)
      (rule wakeInv_updMember [OF assms(3)], auto simp: wakeOk_settle(1) split: pump.splits bool.splits)
next
  case (StepFail gid mid)
  then show ?thesis
    by (simp add: handlerFails_def)
      (rule wakeInv_updMember [OF assms(3)], auto simp: wakeOk_settle(2) split: pump.splits)
next
  case (StepHandled gid mid m key p keys d f)
  let ?b = "(bsBroker s)\<lparr>bkGroups := (bkGroups (bsBroker s))(gid \<mapsto> (groupFor gid (bsBroker s))\<lparr>bgCommitted :=
        (bgCommitted (groupFor gid (bsBroker s)))(key \<mapsto> nextOffset p)\<rparr>)\<rparr>"
  have "wakeInv topicsOf ?b"
    using assms(3) wakeInv_for [OF assms(3), of gid] by (auto simp: wakeInv_def groupWakeOk_groups groupWakeOk_def)
  with StepHandled(1) show ?thesis
    by (simp add: handlerSucceeds_def)
      (rule wakeInv_updMember, assumption, auto simp: wakeOk_settle(4) split: pump.splits)
qed

lemma brokerRun_wake:
  assumes "brokerRun allowed s t" and "\<And>options. allowed options \<Longrightarrow> soTopics options = topicsOf (soGroupId options)"
    and "wakeInv topicsOf (bsBroker s)"
  shows "wakeInv topicsOf (bsBroker t)"
  using assms by (induction rule: brokerRun.induct) (auto intro: brokerStep_wake)

lemma freshBroker_wake: "wakeInv topicsOf (bsBroker (freshBroker n c))"
  by (simp add: wakeInv_def freshBroker_def)

section \<open>Properties of consumer groups\<close>

text \<open>
  \<^bold>\<open>C16.\<close> No record waits for ever. In a group whose members subscribe to the same topics, after
  any interleaving of operations, every partition of those topics belongs to exactly one
  member; the loop of a member runs until it is stopped; and when the member that holds a
  partition is asleep with no timer to wake it, it has read the partition to its end.
\<close>

theorem broker_no_lost_wakeup:
  assumes "brokerRun allowed (freshBroker n c) s"
    and "\<And>options. allowed options \<Longrightarrow> soTopics options = topicsOf (soGroupId options)"
    and "bkGroups (bsBroker s) gid = Some g" and "bgMembers g \<noteq> []" and "topic \<in> set (topicsOf gid)"
    and "part < length (logsFor topic (bsBroker s))"
  shows "(\<exists>!i. i < length (bgMembers g) \<and> partitionKey topic part \<in> set (bmAssigned (bgMembers g ! i)))
    \<and> (\<forall>m \<in> set (bgMembers g). partitionKey topic part \<in> set (bmAssigned m) \<longrightarrow>
         (bmPump m = Ended \<longrightarrow> bmStopped m)
         \<and> (bmPump m = Asleep False \<longrightarrow> (\<exists>p. bmPositions m (partitionKey topic part) = Some p
              \<and> length (logsFor topic (bsBroker s) ! part) \<le> p)))"
proof -
  let ?b = "bsBroker s"
  let ?k = "partitionKey topic part"
  have "wakeInv topicsOf ?b" by (rule brokerRun_wake [OF assms(1,2) freshBroker_wake])
  with assms(3) have ok: "\<forall>m \<in> set (bgMembers g). wakeOk ?b m" and bal: "balanced ?b (topicsOf gid) (bgMembers g)"
    by (simp_all add: wakeInv_def groupWakeOk_def)
  have "?k \<in> set (groupKeys ?b (topicsOf gid))" using assms(5,6) by (auto simp: set_groupKeys)
  then obtain i where "i < length (bgMembers g)" "?k \<in> set (dealt (groupKeys ?b (topicsOf gid)) (length (bgMembers g)) i)"
    using dealt_total assms(4) by blast
  then have "\<exists>!i. i < length (bgMembers g) \<and> ?k \<in> set (bmAssigned (bgMembers g ! i))"
    using balanced_nth [OF bal] dealt_unique [OF distinct_groupKeys] by (intro ex1I [of _ i]) auto
  moreover have "\<exists>p. bmPositions m ?k = Some p \<and> length (logsFor topic ?b ! part) \<le> p"
    if m: "m \<in> set (bgMembers g)" "?k \<in> set (bmAssigned m)" "bmPump m = Asleep False" for m
  proof -
    have "wakeOk ?b m" using ok m(1) by blast
    with m have "caughtUp ?b m ?k" by (simp add: wakeOk_def caughtUpBut_def)
    moreover have "logAt ?b ?k = Some (logsFor topic ?b ! part)" using assms(6) by (simp add: logAt_def)
    ultimately show ?thesis by (simp add: caughtUp_def split: option.splits)
  qed
  moreover have "bmStopped m" if "m \<in> set (bgMembers g)" "bmPump m = Ended" for m
    using ok that by (auto simp: wakeOk_def)
  ultimately show ?thesis by blast
qed

lemma sample_run_topics: "brokerRun (\<lambda>options. soTopics options = [''t'']) (freshBroker 1 0)
    \<lparr>bsBroker = projr (subscribe sampleOptions (bsBroker (freshBroker 1 0))), bsHandled = []\<rparr>"
proof -
  have "\<not> bkClosed (bsBroker (freshBroker 1 0))" by (simp add: freshBroker_def)
  then have "brokerStep (\<lambda>options. soTopics options = [''t'']) (freshBroker 1 0)
    \<lparr>bsBroker = projr (subscribe sampleOptions (bsBroker (freshBroker 1 0))), bsHandled = []\<rparr>"
    using StepSubscribe [where s = "freshBroker 1 0" and options = sampleOptions and allowed = "\<lambda>options. soTopics options = [''t'']", OF subscribe_open]
    by (simp add: sampleOptions_def freshBroker_def)
  then show ?thesis by (meson RunHere RunStep)
qed

theorem broker_no_lost_wakeup_witness:
  "let b = projr (subscribe sampleOptions (bsBroker (freshBroker 1 0)));
       members = bgMembers (groupFor ''g'' b)
   in length members = 1 \<and> (\<exists>!i. i < length members \<and> ''t#0'' \<in> set (bmAssigned (members ! i)))"
proof -
  let ?b = "projr (subscribe sampleOptions (bsBroker (freshBroker 1 0)))"
  have g: "bkGroups ?b ''g'' = Some (groupFor ''g'' ?b)" "length (bgMembers (groupFor ''g'' ?b)) = 1"
    "length (logsFor ''t'' ?b) = 1"
    by (simp_all add: broker_eval sampleOptions_def)
  have "\<exists>!i. i < length (bgMembers (groupFor ''g'' ?b)) \<and> partitionKey ''t'' 0 \<in> set (bmAssigned (bgMembers (groupFor ''g'' ?b) ! i))"
    by (rule conjunct1 [OF broker_no_lost_wakeup [OF sample_run_topics, of "\<lambda>_. [''t'']" "''g''" "groupFor ''g'' ?b" "''t''" 0]])
      (use g in auto)
  with g(2) show ?thesis by (simp add: Let_def key_t)
qed

definition mixedOptions :: "string \<Rightarrow> subscriptionOptions" where
  "mixedOptions topic = \<lparr>soGroupId = ''g'', soTopics = [topic], soFromBeginning = True\<rparr>"

definition mixedMessage :: outgoingMessage where
  "mixedMessage = \<lparr>omTopic = ''a'', omKey = None, omValue = ''v'', omHeaders = []\<rparr>"

definition mixedJoined :: broker where
  "mixedJoined = projr (subscribe (mixedOptions ''a'') (projr (subscribe (mixedOptions ''b'') (bsBroker (freshBroker 1 0)))))"

definition mixedAsleep :: broker where
  "mixedAsleep = fold (pumpStep ''g'') [0, 0, 0, 0, 1, 1, 1, 1] mixedJoined"

definition mixedStalled :: broker where
  "mixedStalled = fold (pumpStep ''g'') [1, 1] (projr (produce [mixedMessage] mixedAsleep))"

lemma mixed_keys: "partitionKey ''a'' 0 = ''a#0''" "partitionKey ''b'' 0 = ''b#0''"
  by (simp_all add: partitionKey_def decString_0)

lemma mixed_parse: "parsePartitionKey ''a#0'' = (''a'', 0)" "parsePartitionKey ''b#0'' = (''b'', 0)"
  using parse_partitionKey [of "''a''" 0] parse_partitionKey [of "''b''" 0] by (simp_all add: mixed_keys)

definition mixedMember :: "nat \<Rightarrow> string \<Rightarrow> string \<Rightarrow> (string \<rightharpoonup> nat) \<Rightarrow> pump \<Rightarrow> bool \<Rightarrow> brokerMember" where
  "mixedMember mid topic key positions pmp pending = \<lparr>bmId = mid, bmTopics = [topic], bmFromBeginning = True, bmAssigned = [key],
     bmPositions = positions, bmStopped = False, bmPump = pmp, bmPending = pending\<rparr>"

definition mixedBroker :: "brokerMember list \<Rightarrow> storedRecord list \<Rightarrow> nat \<Rightarrow> broker" where
  "mixedBroker members records counter = \<lparr>bkLogs = [''a'' \<mapsto> [records], ''b'' \<mapsto> [[]]],
     bkGroups = [''g'' \<mapsto> \<lparr>bgCommitted = Map.empty, bgMembers = members\<rparr>], bkDefaultPartitions = 1,
     bkRoundRobin = counter, bkClosed = False, bkNextMember = 2\<rparr>"

lemma sort_mixed: "sort [''b'', ''a''] = [''a'', ''b'']"
  by code_simp

lemma first_joined: "projr (subscribe (mixedOptions ''b'') (bsBroker (freshBroker 1 0))) =
    \<lparr>bkLogs = [''b'' \<mapsto> [[]]], bkGroups = [''g'' \<mapsto> \<lparr>bgCommitted = Map.empty,
       bgMembers = [mixedMember 0 ''b'' ''b#0'' Map.empty (Passing [''b#0''] False False) True]\<rparr>], bkDefaultPartitions = 1,
     bkRoundRobin = 0, bkClosed = False, bkNextMember = 1\<rparr>"
  by (simp add: broker_eval mixedOptions_def mixed_keys mixed_parse mixedMember_def)

lemma mixed_topics: "groupTopics [mixedMember i ''b'' k p q x, mixedMember j ''a'' k' p' q' x'] = [''a'', ''b'']"
  "groupTopics [mixedMember i ''b'' k p q x, newMember (mixedOptions ''a'') j] = [''a'', ''b'']"
  by (simp_all add: groupTopics_def mixedMember_def newMember_def mixedOptions_def sort_mixed)

lemma both_joined: "mixedJoined = mixedBroker [mixedMember 0 ''b'' ''a#0'' Map.empty (Passing [''b#0''] False False) True,
    mixedMember 1 ''a'' ''b#0'' Map.empty (Passing [''b#0''] False False) True] [] 0"
proof -
  let ?ms = "[mixedMember 0 ''b'' ''b#0'' Map.empty (Passing [''b#0''] False False) True, newMember (mixedOptions ''a'') 1]"
  have "rebalance ''g'' \<lparr>bkLogs = [''b'' \<mapsto> [[]]], bkGroups = [''g'' \<mapsto> \<lparr>bgCommitted = Map.empty, bgMembers = ?ms\<rparr>],
      bkDefaultPartitions = 1, bkRoundRobin = 0, bkClosed = False, bkNextMember = 2\<rparr>
    = mixedBroker [mixedMember 0 ''b'' ''a#0'' Map.empty (Passing [''b#0''] False False) True,
        (newMember (mixedOptions ''a'') 1)\<lparr>bmAssigned := [''b#0''], bmPending := True\<rparr>] [] 0"
    unfolding rebalance_def Let_def groupFor_def
    by (simp add: mixed_topics)
       (simp add: touchTopic_def logsFor_def topicKeys_def dealt_def mixed_keys mixedBroker_def assignMember_def notify_def
         mixedMember_def newMember_def fun_upd_twist)
  then show ?thesis
    unfolding mixedJoined_def first_joined
    by (simp add: subscribe_def Let_def groupFor_def mixedOptions_def [of "''a''"])
       (simp add: updMember_def mixedBroker_def mixedMember_def newMember_def startPass_def mixedOptions_def numeral_2_eq_2)
qed

lemma mixed_logAt: "logAt (mixedBroker ms records n) ''a#0'' = Some records" "logAt (mixedBroker ms records n) ''b#0'' = Some []"
  by (simp_all add: logAt_def mixed_parse logsFor_def mixedBroker_def)

lemma mixed_pump:
  "pumpStep ''g'' 0 (mixedBroker [mixedMember 0 t k p q x, m] records n)
     = mixedBroker [pumpMember (mixedBroker [mixedMember 0 t k p q x, m] records n) \<lparr>bgCommitted = Map.empty, bgMembers = [mixedMember 0 t k p q x, m]\<rparr> (mixedMember 0 t k p q x), m] records n"
  if "bmId m = 1"
  using that by (simp add: pumpStep_def updMember_def mixedBroker_def groupFor_def mixedMember_def)

lemma mixed_pump':
  "pumpStep ''g'' (Suc 0) (mixedBroker [m, mixedMember (Suc 0) t k p q x] records n)
     = mixedBroker [m, pumpMember (mixedBroker [m, mixedMember (Suc 0) t k p q x] records n) \<lparr>bgCommitted = Map.empty, bgMembers = [m, mixedMember (Suc 0) t k p q x]\<rparr> (mixedMember (Suc 0) t k p q x)] records n"
  if "bmId m = 0"
  using that by (simp add: pumpStep_def updMember_def mixedBroker_def groupFor_def mixedMember_def)

lemma mixed_pumpMember:
  "pumpMember b g (mixedMember i t k p (Passing [] False False) True) = mixedMember i t k p (Passing [k] False False) False"
  "pumpMember b g (mixedMember i t k p (Passing [] False False) False) = mixedMember i t k p (Asleep False) False"
  "logAt b key = Some [] \<Longrightarrow> bgCommitted g = Map.empty \<Longrightarrow> p key = None \<or> p key = Some 0 \<Longrightarrow>
     pumpMember b g (mixedMember i t k p (Passing [key] False False) x) = mixedMember i t k (p(key \<mapsto> 0)) (Passing [] False False) x"
  by (auto simp: pumpMember_def mixedMember_def startPass_def Let_def resolvePosition_def startOffset_def)

lemma mixed_id: "bmId (mixedMember i t k p q x) = i"
  by (simp add: mixedMember_def)

lemma both_asleep: "mixedAsleep = mixedBroker [mixedMember 0 ''b'' ''a#0'' [''b#0'' \<mapsto> 0, ''a#0'' \<mapsto> 0] (Asleep False) False,
    mixedMember 1 ''a'' ''b#0'' [''b#0'' \<mapsto> 0] (Asleep False) False] [] 0"
  by (simp add: mixedAsleep_def both_joined mixed_pump mixed_pump' mixed_pumpMember mixed_id mixed_logAt)

lemma produced: "projr (produce [mixedMessage] mixedAsleep) = mixedBroker [mixedMember 0 ''b'' ''a#0'' [''b#0'' \<mapsto> 0, ''a#0'' \<mapsto> 0] (Asleep False) False,
    mixedMember 1 ''a'' ''b#0'' [''b#0'' \<mapsto> 0] (Passing [''b#0''] False False) False] [\<lparr>srKey = None, srValue = ''v'', srHeaders = []\<rparr>] 1"
  by (simp add: both_asleep produce_def mixedMessage_def produceOne_def logsFor_def partitionFor_def mixedBroker_def
      wakeSubscribersOf_def notify_def mixedMember_def startPass_def fun_eq_iff)

lemma stalled: "mixedStalled = mixedBroker [mixedMember 0 ''b'' ''a#0'' [''b#0'' \<mapsto> 0, ''a#0'' \<mapsto> 0] (Asleep False) False,
    mixedMember 1 ''a'' ''b#0'' [''b#0'' \<mapsto> 0] (Asleep False) False] [\<lparr>srKey = None, srValue = ''v'', srHeaders = []\<rparr>] 1"
  by (simp add: mixedStalled_def produced mixed_pump' mixed_pumpMember mixed_id mixed_logAt)

lemma fold_pump_run:
  "brokerRun (\<lambda>_. True) s0 s \<Longrightarrow> brokerRun (\<lambda>_. True) s0 (s\<lparr>bsBroker := fold (pumpStep gid) mids (bsBroker s)\<rparr>)"
proof (induction mids arbitrary: s)
  case (Cons mid mids)
  from Cons.IH [OF RunStep [OF Cons.prems StepPump [of _ s gid mid]]] show ?case by simp
qed simp

lemma mixed_run: "brokerRun (\<lambda>_. True) (freshBroker 1 0) \<lparr>bsBroker = mixedStalled, bsHandled = []\<rparr>"
proof -
  let ?run = "brokerRun (\<lambda>_. True) (freshBroker 1 0)"
  let ?s1 = "(freshBroker 1 0)\<lparr>bsBroker := projr (subscribe (mixedOptions ''b'') (bsBroker (freshBroker 1 0)))\<rparr>"
  have "?run ?s1"
    by (rule RunStep [OF RunHere StepSubscribe [OF subscribe_open]]) (simp_all add: freshBroker_def)
  from RunStep [OF this StepSubscribe [where options = "mixedOptions ''a''", OF subscribe_open]]
  have "?run (?s1\<lparr>bsBroker := mixedJoined\<rparr>)"
    using arg_cong [OF first_joined, of bkClosed] by (simp add: mixedJoined_def)
  from fold_pump_run [OF this, of "''g''" "[0, 0, 0, 0, 1, 1, 1, 1]"]
  have asleep: "?run (?s1\<lparr>bsBroker := mixedAsleep\<rparr>)" by (simp add: mixedAsleep_def)
  have "\<not> bkClosed mixedAsleep" by (simp add: both_asleep mixedBroker_def)
  with RunStep [OF asleep StepProduce [where messages = "[mixedMessage]", OF produce_open]]
  have "?run (?s1\<lparr>bsBroker := projr (produce [mixedMessage] mixedAsleep)\<rparr>)" by simp
  from fold_pump_run [OF this, of "''g''" "[1, 1]"] show ?thesis by (simp add: mixedStalled_def freshBroker_def)
qed

text \<open>
  \<^bold>\<open>C17.\<close> In a group whose members subscribe to different topics a record can be left unread. The
  broker deals a partition to a member that did not subscribe to its topic, and a produce wakes
  only the members that did: there is a run after which a record sits unread in a partition,
  nothing has been handled, the partition has a holder, and every member of the group is asleep
  with no timer.
\<close>

theorem mixed_group_stalls:
  "\<exists>s g. brokerRun (\<lambda>_. True) (freshBroker 1 0) s \<and> bkGroups (bsBroker s) ''g'' = Some g
     \<and> recordAt (bsBroker s) ''a#0'' 0 \<noteq> None \<and> bsHandled s = []
     \<and> (\<exists>m \<in> set (bgMembers g). ''a#0'' \<in> set (bmAssigned m))
     \<and> list_all (\<lambda>m. bmPump m = Asleep False \<and> \<not> bmPending m \<and> \<not> bmStopped m) (bgMembers g)"
  by (intro exI [of _ "\<lparr>bsBroker = mixedStalled, bsHandled = []\<rparr>"] exI [of _ "groupFor ''g'' mixedStalled"] conjI mixed_run)
    (simp_all add: stalled recordAt_def mixed_logAt, simp_all add: mixedBroker_def groupFor_def mixedMember_def)

end
