(* ===== verification/RefreshTokens.thy ===== *)
theory RefreshTokens
  imports Prelude
begin

text \<open>
  Refresh-token rotation: \<open>auth/prisma-refresh-token.store.ts\<close> and its in-memory double
  \<open>test-utils/in-memory-refresh-token.store.ts\<close>.

  The in-memory store makes each claim in one step (\<open>tokClaim\<close>). The Postgres store makes it in a
  transaction of three: lock and read the token row, lock and read the family row, decide and
  write. \<open>tokenStep\<close> interleaves the transactions of any number of sessions with sign-outs,
  pruning, account deletion and new tokens. A row lock is held from the step that takes it to the
  end of the transaction, so it is read off the phase a session is in; a statement that would
  write a locked row waits, so it is not enabled; a wait that times out ends the transaction
  without a write. Inserting a token takes no lock that conflicts with \<open>FOR NO KEY UPDATE\<close>.

  Tables are association lists. New token values and family ids are fresh, as random UUIDs are.
\<close>

section \<open>Tables\<close>

record tokenRow =
  tkUserId :: string
  tkFamilyId :: string
  tkExpiresAt :: int
  tkConsumedAt :: "int option"

datatype revocation = ReuseDetected | Logout

record familyRow =
  fmUserId :: string
  fmRevoked :: "(int \<times> revocation) option"

record tokenOwner =
  owEmail :: string
  owRole :: string

record tokenDb =
  dbTokens :: "(string \<times> tokenRow) list"
  dbFamilies :: "(string \<times> familyRow) list"

record issueData =
  isToken :: string
  isUserId :: string
  isExpiresAt :: int
  isFamilyId :: "string option"

record consumedToken =
  ctUserId :: string
  ctEmail :: string
  ctRole :: string
  ctExpiresAt :: int
  ctFamilyId :: string

record tokenReuse =
  reFamilyId :: string
  reUserId :: string
  reRevokedTokens :: nat

datatype tokenClaim = Claimed consumedToken | Reused tokenReuse | Revoked | Unknown

definition tokenOf :: "string \<Rightarrow> tokenDb \<Rightarrow> tokenRow option" where
  "tokenOf token db = map_of (dbTokens db) token"

definition familyOf :: "string \<Rightarrow> tokenDb \<Rightarrow> familyRow option" where
  "familyOf fid db = map_of (dbFamilies db) fid"

definition revokeRow :: "int \<Rightarrow> revocation \<Rightarrow> string \<Rightarrow> tokenDb \<Rightarrow> tokenDb" where
  "revokeRow now reason fid db = db\<lparr>dbFamilies := map (\<lambda>(i, f). (i, if i = fid then f\<lparr>fmRevoked := Some (now, reason)\<rparr> else f)) (dbFamilies db)\<rparr>"

definition spendRow :: "int \<Rightarrow> string \<Rightarrow> tokenDb \<Rightarrow> tokenDb" where
  "spendRow now token db = db\<lparr>dbTokens := map (\<lambda>(t, r). (t, if t = token then r\<lparr>tkConsumedAt := Some now\<rparr> else r)) (dbTokens db)\<rparr>"

definition dropFamilies :: "(string \<Rightarrow> bool) \<Rightarrow> tokenDb \<Rightarrow> tokenDb" where
  "dropFamilies gone db = db\<lparr>dbTokens := filter (\<lambda>(t, r). \<not> gone (tkFamilyId r)) (dbTokens db),
     dbFamilies := filter (\<lambda>(i, f). \<not> gone i) (dbFamilies db)\<rparr>"

definition unspentIn :: "string \<Rightarrow> tokenDb \<Rightarrow> nat" where
  "unspentIn fid db = length (filter (\<lambda>(t, r). tkFamilyId r = fid \<and> tkConsumedAt r = None) (dbTokens db))"

section \<open>The in-memory store\<close>

definition newToken :: "issueData \<Rightarrow> string \<Rightarrow> tokenRow" where
  "newToken d fid = \<lparr>tkUserId = isUserId d, tkFamilyId = fid, tkExpiresAt = isExpiresAt d, tkConsumedAt = None\<rparr>"

text \<open>\<open>issue\<close>; \<open>fresh\<close> is the id a new family would get.\<close>

definition tokIssue :: "string \<Rightarrow> issueData \<Rightarrow> tokenDb \<Rightarrow> tokenDb" where
  "tokIssue fresh d db = (let fid = (case isFamilyId d of Some f \<Rightarrow> f | None \<Rightarrow> fresh) in
     db\<lparr>dbFamilies := (if familyOf fid db = None
            then AList.update fid \<lparr>fmUserId = isUserId d, fmRevoked = None\<rparr> (dbFamilies db) else dbFamilies db),
        dbTokens := AList.update (isToken d) (newToken d fid) (dbTokens db)\<rparr>)"

definition claimOf :: "string \<Rightarrow> tokenOwner \<Rightarrow> tokenRow \<Rightarrow> consumedToken" where
  "claimOf uid owner row = \<lparr>ctUserId = uid, ctEmail = owEmail owner, ctRole = owRole owner,
     ctExpiresAt = tkExpiresAt row, ctFamilyId = tkFamilyId row\<rparr>"

definition tokClaim :: "(string \<rightharpoonup> tokenOwner) \<Rightarrow> int \<Rightarrow> string \<Rightarrow> tokenDb \<Rightarrow> tokenClaim \<times> tokenDb" where
  "tokClaim owners now token db = (case tokenOf token db of
     None \<Rightarrow> (Unknown, db)
   | Some stored \<Rightarrow> (case owners (tkUserId stored) of
       None \<Rightarrow> (Unknown, dropFamilies (\<lambda>i. i = tkFamilyId stored) db)
     | Some owner \<Rightarrow> (case familyOf (tkFamilyId stored) db of
         None \<Rightarrow> (Unknown, db)
       | Some family \<Rightarrow>
           if tkConsumedAt stored \<noteq> None
           then (if fmRevoked family \<noteq> None then (Revoked, db)
                 else (Reused \<lparr>reFamilyId = tkFamilyId stored, reUserId = fmUserId family,
                         reRevokedTokens = unspentIn (tkFamilyId stored) db\<rparr>,
                       revokeRow now ReuseDetected (tkFamilyId stored) db))
           else if fmRevoked family \<noteq> None then (Revoked, db)
           else (Claimed (claimOf (tkUserId stored) owner stored), spendRow now token db))))"

definition tokRevoke :: "int \<Rightarrow> string \<Rightarrow> tokenDb \<Rightarrow> tokenDb" where
  "tokRevoke now token db = (case tokenOf token db of
     None \<Rightarrow> db
   | Some stored \<Rightarrow> (case familyOf (tkFamilyId stored) db of
       Some family \<Rightarrow> if fmRevoked family = None then revokeRow now Logout (tkFamilyId stored) db else db
     | None \<Rightarrow> db))"

text \<open>The loop of \<open>prune\<close> over a snapshot of the families.\<close>

fun pruneLoop :: "int \<Rightarrow> string list \<Rightarrow> nat \<times> tokenDb \<Rightarrow> nat \<times> tokenDb" where
  "pruneLoop before [] acc = acc"
| "pruneLoop before (fid # rest) (pruned, db) = pruneLoop before rest
     (if list_ex (\<lambda>(t, r). tkFamilyId r = fid \<and> before \<le> tkExpiresAt r) (dbTokens db) then (pruned, db)
      else (Suc pruned, dropFamilies (\<lambda>i. i = fid) db))"

definition tokPrune :: "int \<Rightarrow> tokenDb \<Rightarrow> nat \<times> tokenDb" where
  "tokPrune before db = pruneLoop before (map fst (dbFamilies db)) (0, db)"

text \<open>\<open>has\<close> and \<open>revocationOf\<close>.\<close>

definition tokHas :: "string \<Rightarrow> tokenDb \<Rightarrow> bool" where
  "tokHas token db = (case tokenOf token db of
     None \<Rightarrow> False
   | Some stored \<Rightarrow> tkConsumedAt stored = None \<and>
       (case familyOf (tkFamilyId stored) db of Some f \<Rightarrow> fmRevoked f = None | None \<Rightarrow> False))"

definition tokRevocationOf :: "string \<Rightarrow> tokenDb \<Rightarrow> revocation option" where
  "tokRevocationOf token db = (case tokenOf token db of
     None \<Rightarrow> None
   | Some stored \<Rightarrow> (case familyOf (tkFamilyId stored) db of Some f \<Rightarrow> map_option snd (fmRevoked f) | None \<Rightarrow> None))"

section \<open>The Postgres store\<close>

text \<open>Where a session's claim transaction is, and what it has read under which locks.\<close>

datatype claimPhase =
    NoClaim
  | TokenLocked string tokenRow tokenOwner
  | FamilyLocked string tokenRow tokenOwner familyRow

record tokenSystem =
  tsDb :: tokenDb
  tsUsers :: "string \<rightharpoonup> tokenOwner"
  tsPhase :: "nat \<Rightarrow> claimPhase"
  tsAnswers :: "(string \<times> tokenClaim) list"
  tsTokensEver :: "string set"
  tsFamiliesEver :: "string set"

definition tokenLockedBy :: "nat \<Rightarrow> string \<Rightarrow> tokenSystem \<Rightarrow> bool" where
  "tokenLockedBy s token \<sigma> = (case tsPhase \<sigma> s of
     NoClaim \<Rightarrow> False | TokenLocked t _ _ \<Rightarrow> t = token | FamilyLocked t _ _ _ \<Rightarrow> t = token)"

definition familyLockedBy :: "nat \<Rightarrow> string \<Rightarrow> tokenSystem \<Rightarrow> bool" where
  "familyLockedBy s fid \<sigma> = (case tsPhase \<sigma> s of FamilyLocked _ row _ _ \<Rightarrow> tkFamilyId row = fid | _ \<Rightarrow> False)"

text \<open>The decision of \<open>consume\<close>, from the two rows read under lock, and the writes of it.\<close>

definition sqlDecide :: "tokenOwner \<Rightarrow> int \<Rightarrow> string \<Rightarrow> tokenRow \<Rightarrow> familyRow \<Rightarrow> tokenDb \<Rightarrow> tokenClaim \<times> tokenDb" where
  "sqlDecide owner now token row family db =
     (let alreadyRevoked = fmRevoked family \<noteq> None in
      if tkConsumedAt row \<noteq> None
      then (if alreadyRevoked then (Revoked, db)
            else (Reused \<lparr>reFamilyId = tkFamilyId row, reUserId = tkUserId row,
                    reRevokedTokens = unspentIn (tkFamilyId row) db\<rparr>,
                  revokeRow now ReuseDetected (tkFamilyId row) db))
      else if alreadyRevoked then (Revoked, db)
      else (Claimed (claimOf (tkUserId row) owner row), spendRow now token db))"

text \<open>\<open>updateMany\<close> over the live families that hold the token.\<close>

definition sqlRevoke :: "int \<Rightarrow> string \<Rightarrow> tokenDb \<Rightarrow> tokenDb" where
  "sqlRevoke now token db = db\<lparr>dbFamilies := map (\<lambda>(i, f). (i,
     if fmRevoked f = None \<and> list_ex (\<lambda>(t, r). t = token \<and> tkFamilyId r = i) (dbTokens db)
     then f\<lparr>fmRevoked := Some (now, Logout)\<rparr> else f)) (dbFamilies db)\<rparr>"

text \<open>\<open>deleteMany\<close> over the families whose every token has expired, with the cascade.\<close>

definition sqlPrune :: "int \<Rightarrow> tokenDb \<Rightarrow> nat \<times> tokenDb" where
  "sqlPrune before db = (let gone = (\<lambda>i. familyOf i db \<noteq> None \<and> list_all (\<lambda>(t, r). tkFamilyId r = i \<longrightarrow> tkExpiresAt r < before) (dbTokens db))
     in (length (filter (\<lambda>(i, f). gone i) (dbFamilies db)), dropFamilies gone db))"

datatype tokenError = UniqueViolation | ForeignKeyViolation

definition sqlIssue :: "string \<Rightarrow> issueData \<Rightarrow> tokenDb \<Rightarrow> tokenError + tokenDb" where
  "sqlIssue fresh d db =
     (if tokenOf (isToken d) db \<noteq> None then Inl UniqueViolation
      else case isFamilyId d of
        Some fid \<Rightarrow> if familyOf fid db = None then Inl ForeignKeyViolation
          else Inr (db\<lparr>dbTokens := dbTokens db @ [(isToken d, newToken d fid)]\<rparr>)
      | None \<Rightarrow> if familyOf fresh db \<noteq> None then Inl UniqueViolation
          else Inr (db\<lparr>dbFamilies := dbFamilies db @ [(fresh, \<lparr>fmUserId = isUserId d, fmRevoked = None\<rparr>)],
                 dbTokens := dbTokens db @ [(isToken d, newToken d fresh)]\<rparr>))"

text \<open>Deleting an account takes its families with it, and the tokens of either.\<close>

definition sqlDeleteUser :: "string \<Rightarrow> tokenDb \<Rightarrow> tokenDb" where
  "sqlDeleteUser uid db = (let gone = (\<lambda>i. \<exists>f \<in> set (dbFamilies db). fst f = i \<and> fmUserId (snd f) = uid) in
     db\<lparr>dbTokens := filter (\<lambda>(t, r). \<not> (tkUserId r = uid \<or> gone (tkFamilyId r))) (dbTokens db),
        dbFamilies := filter (\<lambda>(i, f). fmUserId f \<noteq> uid) (dbFamilies db)\<rparr>)"

section \<open>Interleaved transactions\<close>

text \<open>
  A statement that removes or rewrites rows must find none of them locked.
\<close>

definition rowsFree :: "tokenSystem \<Rightarrow> tokenDb \<Rightarrow> bool" where
  "rowsFree \<sigma> db' = (\<forall>s. case tsPhase \<sigma> s of
      NoClaim \<Rightarrow> True
    | TokenLocked t row _ \<Rightarrow> tokenOf t db' = Some row
    | FamilyLocked t row _ family \<Rightarrow> tokenOf t db' = Some row \<and> familyOf (tkFamilyId row) db' = Some family)"

definition answerClaim :: "nat \<Rightarrow> string \<Rightarrow> tokenClaim \<Rightarrow> tokenDb \<Rightarrow> tokenSystem \<Rightarrow> tokenSystem" where
  "answerClaim s token claim db' \<sigma> = \<sigma>\<lparr>tsDb := db', tsPhase := (tsPhase \<sigma>)(s := NoClaim), tsAnswers := tsAnswers \<sigma> @ [(token, claim)]\<rparr>"

inductive tokenStep :: "tokenSystem \<Rightarrow> tokenSystem \<Rightarrow> bool" where
  tsMissing: "tsPhase \<sigma> s = NoClaim \<Longrightarrow> tokenOf token (tsDb \<sigma>) = None \<Longrightarrow>
    tokenStep \<sigma> (answerClaim s token Unknown (tsDb \<sigma>) \<sigma>)"
| tsLockToken: "tsPhase \<sigma> s = NoClaim \<Longrightarrow> tokenOf token (tsDb \<sigma>) = Some row \<Longrightarrow> \<forall>s'. \<not> tokenLockedBy s' token \<sigma> \<Longrightarrow>
    tsUsers \<sigma> (tkUserId row) = Some owner \<Longrightarrow>
    tokenStep \<sigma> (\<sigma>\<lparr>tsPhase := (tsPhase \<sigma>)(s := TokenLocked token row owner)\<rparr>)"
| tsLockFamily: "tsPhase \<sigma> s = TokenLocked token row owner \<Longrightarrow> familyOf (tkFamilyId row) (tsDb \<sigma>) = Some family \<Longrightarrow>
    \<forall>s'. \<not> familyLockedBy s' (tkFamilyId row) \<sigma> \<Longrightarrow>
    tokenStep \<sigma> (\<sigma>\<lparr>tsPhase := (tsPhase \<sigma>)(s := FamilyLocked token row owner family)\<rparr>)"
| tsNoFamily: "tsPhase \<sigma> s = TokenLocked token row owner \<Longrightarrow> familyOf (tkFamilyId row) (tsDb \<sigma>) = None \<Longrightarrow>
    tokenStep \<sigma> (answerClaim s token Unknown (tsDb \<sigma>) \<sigma>)"
| tsDecide: "tsPhase \<sigma> s = FamilyLocked token row owner family \<Longrightarrow>
    sqlDecide owner now token row family (tsDb \<sigma>) = (claim, db') \<Longrightarrow>
    tokenStep \<sigma> (answerClaim s token claim db' \<sigma>)"
| tsAbort: "tokenStep \<sigma> (\<sigma>\<lparr>tsPhase := (tsPhase \<sigma>)(s := NoClaim)\<rparr>)"
| tsIssue: "tsUsers \<sigma> (isUserId d) \<noteq> None \<Longrightarrow> isToken d \<notin> tsTokensEver \<sigma> \<Longrightarrow>
    (case isFamilyId d of None \<Rightarrow> fresh \<notin> tsFamiliesEver \<sigma>
       | Some fid \<Rightarrow> map_option fmUserId (familyOf fid (tsDb \<sigma>)) = Some (isUserId d)) \<Longrightarrow>
    sqlIssue fresh d (tsDb \<sigma>) = Inr db' \<Longrightarrow>
    tokenStep \<sigma> (\<sigma>\<lparr>tsDb := db', tsTokensEver := insert (isToken d) (tsTokensEver \<sigma>), tsFamiliesEver := insert fresh (tsFamiliesEver \<sigma>)\<rparr>)"
| tsRevoke: "rowsFree \<sigma> (sqlRevoke now token (tsDb \<sigma>)) \<Longrightarrow>
    tokenStep \<sigma> (\<sigma>\<lparr>tsDb := sqlRevoke now token (tsDb \<sigma>)\<rparr>)"
| tsPrune: "rowsFree \<sigma> (snd (sqlPrune before (tsDb \<sigma>))) \<Longrightarrow>
    tokenStep \<sigma> (\<sigma>\<lparr>tsDb := snd (sqlPrune before (tsDb \<sigma>))\<rparr>)"
| tsUser: "tokenStep \<sigma> (\<sigma>\<lparr>tsUsers := (tsUsers \<sigma>)(uid \<mapsto> owner)\<rparr>)"
| tsDeleteUser: "rowsFree \<sigma> (sqlDeleteUser uid (tsDb \<sigma>)) \<Longrightarrow>
    tokenStep \<sigma> (\<sigma>\<lparr>tsDb := sqlDeleteUser uid (tsDb \<sigma>), tsUsers := (tsUsers \<sigma>)(uid := None)\<rparr>)"

inductive_cases tokenStepE: "tokenStep \<sigma> \<sigma>'"

definition tokenStart :: "tokenSystem" where
  "tokenStart = \<lparr>tsDb = \<lparr>dbTokens = [], dbFamilies = []\<rparr>, tsUsers = Map.empty, tsPhase = (\<lambda>s. NoClaim),
     tsAnswers = [], tsTokensEver = {}, tsFamiliesEver = {}\<rparr>"

abbreviation tokenReach :: "tokenSystem \<Rightarrow> bool" where
  "tokenReach \<equiv> tokenStep\<^sup>*\<^sup>* tokenStart"

section \<open>Looking rows up after a write\<close>

lemma map_of_filter_distinct:
  "distinct (map fst xs) \<Longrightarrow> map_of (filter P xs) k = (case map_of xs k of Some v \<Rightarrow> if P (k, v) then Some v else None | None \<Rightarrow> None)"
  by (induction xs) (auto simp: map_of_eq_None_iff image_iff split: option.splits)

lemma map_of_map_row: "map_of (map (\<lambda>(i, f). (i, if P i f then g f else f)) xs) k =
    map_option (\<lambda>f. if P k f then g f else f) (map_of xs k)"
  by (induction xs) auto

lemma fst_map_row: "map fst (map (\<lambda>(i, f). (i, h i f)) xs) = map fst xs"
  by (induction xs) auto

lemma map_of_snoc: "map_of (xs @ [(k, v)]) j = (case map_of xs j of Some w \<Rightarrow> Some w | None \<Rightarrow> if j = k then Some v else None)"
  by (auto simp: map_add_def split: option.splits)

lemma tokenOf_spendRow: "tokenOf t (spendRow now u db) =
    map_option (\<lambda>r. if t = u then r\<lparr>tkConsumedAt := Some now\<rparr> else r) (tokenOf t db)"
  using map_of_map_row [of "\<lambda>i f. i = u"] by (simp add: tokenOf_def spendRow_def)

lemma familyOf_revokeRow: "familyOf i (revokeRow now why fid db) =
    map_option (\<lambda>f. if i = fid then f\<lparr>fmRevoked := Some (now, why)\<rparr> else f) (familyOf i db)"
  using map_of_map_row [of "\<lambda>i f. i = fid"] by (simp add: familyOf_def revokeRow_def)

lemma tokenOf_revokeRow [simp]: "tokenOf t (revokeRow now why fid db) = tokenOf t db"
  by (simp add: tokenOf_def revokeRow_def)

lemma familyOf_spendRow [simp]: "familyOf i (spendRow now u db) = familyOf i db"
  by (simp add: familyOf_def spendRow_def)

lemma tokenOf_sqlRevoke [simp]: "tokenOf t (sqlRevoke now u db) = tokenOf t db"
  by (simp add: tokenOf_def sqlRevoke_def)

lemma familyOf_sqlRevoke: "familyOf i (sqlRevoke now u db) = map_option
    (\<lambda>f. if fmRevoked f = None \<and> list_ex (\<lambda>(t, r). t = u \<and> tkFamilyId r = i) (dbTokens db) then f\<lparr>fmRevoked := Some (now, Logout)\<rparr> else f) (familyOf i db)"
  using map_of_map_row [of "\<lambda>i f. fmRevoked f = None \<and> list_ex (\<lambda>(t, r). t = u \<and> tkFamilyId r = i) (dbTokens db)"]
  by (simp add: familyOf_def sqlRevoke_def)

definition rowsDistinct :: "tokenDb \<Rightarrow> bool" where
  "rowsDistinct db = (distinct (map fst (dbTokens db)) \<and> distinct (map fst (dbFamilies db)))"

lemma tokenOf_dropFamilies: "rowsDistinct db \<Longrightarrow> tokenOf t (dropFamilies gone db) =
    (case tokenOf t db of Some r \<Rightarrow> if gone (tkFamilyId r) then None else Some r | None \<Rightarrow> None)"
  by (simp add: tokenOf_def dropFamilies_def rowsDistinct_def map_of_filter_distinct split: option.splits)

lemma familyOf_dropFamilies: "rowsDistinct db \<Longrightarrow> familyOf i (dropFamilies gone db) = (if gone i then None else familyOf i db)"
  by (simp add: familyOf_def dropFamilies_def rowsDistinct_def map_of_filter_distinct split: option.splits)

lemma rowsDistinct_simps [simp]:
  "rowsDistinct db \<Longrightarrow> rowsDistinct (spendRow now u db)"
  "rowsDistinct db \<Longrightarrow> rowsDistinct (revokeRow now why fid db)"
  "rowsDistinct db \<Longrightarrow> rowsDistinct (sqlRevoke now u db)"
  "rowsDistinct db \<Longrightarrow> rowsDistinct (dropFamilies gone db)"
  "rowsDistinct db \<Longrightarrow> rowsDistinct (sqlDeleteUser uid db)"
  by (simp_all add: rowsDistinct_def spendRow_def revokeRow_def sqlRevoke_def dropFamilies_def sqlDeleteUser_def
      fst_map_row distinct_map_filter Let_def del: map_map)

lemma list_ex_token: "rowsDistinct db \<Longrightarrow>
  list_ex (\<lambda>(t, r). t = u \<and> P r) (dbTokens db) \<longleftrightarrow> (\<exists>r. tokenOf u db = Some r \<and> P r)"
  by (auto simp: list_ex_iff tokenOf_def rowsDistinct_def dest: map_of_SomeD intro: map_of_is_SomeI)

section \<open>Invariant of the interleaved store\<close>

definition dbWf :: "(string \<rightharpoonup> tokenOwner) \<Rightarrow> tokenDb \<Rightarrow> bool" where
  "dbWf users db = (rowsDistinct db \<and> (\<forall>t row. tokenOf t db = Some row \<longrightarrow> users (tkUserId row) \<noteq> None \<and>
     map_option fmUserId (familyOf (tkFamilyId row) db) = Some (tkUserId row)))"

definition locksExclusive :: "tokenSystem \<Rightarrow> bool" where
  "locksExclusive \<sigma> = (\<forall>s s'. s \<noteq> s' \<longrightarrow>
     (\<forall>t. \<not> (tokenLockedBy s t \<sigma> \<and> tokenLockedBy s' t \<sigma>)) \<and> (\<forall>i. \<not> (familyLockedBy s i \<sigma> \<and> familyLockedBy s' i \<sigma>)))"

definition idsKnown :: "tokenSystem \<Rightarrow> bool" where
  "idsKnown \<sigma> = ((\<forall>t. tokenOf t (tsDb \<sigma>) \<noteq> None \<longrightarrow> t \<in> tsTokensEver \<sigma>) \<and>
     (\<forall>i. familyOf i (tsDb \<sigma>) \<noteq> None \<longrightarrow> i \<in> tsFamiliesEver \<sigma>))"

definition spentInv :: "tokenSystem \<Rightarrow> bool" where
  "spentInv \<sigma> = (\<forall>t c. (t, Claimed c) \<in> set (tsAnswers \<sigma>) \<longrightarrow>
     t \<in> tsTokensEver \<sigma> \<and> (\<forall>row. tokenOf t (tsDb \<sigma>) = Some row \<longrightarrow> tkConsumedAt row \<noteq> None))"

definition revokedInv :: "tokenSystem \<Rightarrow> bool" where
  "revokedInv \<sigma> = (\<forall>t r. (t, Reused r) \<in> set (tsAnswers \<sigma>) \<longrightarrow>
     reFamilyId r \<in> tsFamiliesEver \<sigma> \<and> (\<forall>f. familyOf (reFamilyId r) (tsDb \<sigma>) = Some f \<longrightarrow> fmRevoked f \<noteq> None))"

definition spentClaimed :: "tokenSystem \<Rightarrow> bool" where
  "spentClaimed \<sigma> = (\<forall>t row. tokenOf t (tsDb \<sigma>) = Some row \<longrightarrow> tkConsumedAt row \<noteq> None \<longrightarrow>
     (\<exists>c. (t, Claimed c) \<in> set (tsAnswers \<sigma>)))"

text \<open>What an answerClaim says of the answers given before it.\<close>

fun justified :: "(string \<times> tokenClaim) list \<Rightarrow> string \<times> tokenClaim \<Rightarrow> bool" where
  "justified before (t, Claimed c) = ((\<forall>c'. (t, Claimed c') \<notin> set before) \<and>
     (\<forall>u r. (u, Reused r) \<in> set before \<longrightarrow> reFamilyId r \<noteq> ctFamilyId c))"
| "justified before (t, Reused r) = ((\<exists>c. (t, Claimed c) \<in> set before) \<and>
     (\<forall>u r'. (u, Reused r') \<in> set before \<longrightarrow> reFamilyId r' \<noteq> reFamilyId r))"
| "justified before (t, Revoked) = True"
| "justified before (t, Unknown) = True"

fun historyOk :: "(string \<times> tokenClaim) list \<Rightarrow> (string \<times> tokenClaim) list \<Rightarrow> bool" where
  "historyOk before [] = True"
| "historyOk before (a # rest) = (justified before a \<and> historyOk (before @ [a]) rest)"

lemma historyOk_snoc: "historyOk before (xs @ [a]) \<longleftrightarrow> historyOk before xs \<and> justified (before @ xs) a"
  by (induction xs arbitrary: before) auto

lemma historyOk_split: "historyOk before (xs @ a # ys) \<Longrightarrow> justified (before @ xs) a"
  by (induction xs arbitrary: before) fastforce+

definition tokInv :: "tokenSystem \<Rightarrow> bool" where
  "tokInv \<sigma> = (dbWf (tsUsers \<sigma>) (tsDb \<sigma>) \<and> rowsFree \<sigma> (tsDb \<sigma>) \<and> locksExclusive \<sigma> \<and> idsKnown \<sigma> \<and>
     spentInv \<sigma> \<and> revokedInv \<sigma> \<and> spentClaimed \<sigma> \<and> historyOk [] (tsAnswers \<sigma>))"

lemmas tokInv_parts = tokInv_def dbWf_def idsKnown_def spentInv_def revokedInv_def spentClaimed_def


text \<open>A write that removes rows, or revokes families, and nothing else.\<close>

definition dbShrinks :: "tokenDb \<Rightarrow> tokenDb \<Rightarrow> bool" where
  "dbShrinks db db' = (rowsDistinct db' \<and>
     (\<forall>t row. tokenOf t db' = Some row \<longrightarrow> tokenOf t db = Some row) \<and>
     (\<forall>i f'. familyOf i db' = Some f' \<longrightarrow> (\<exists>f. familyOf i db = Some f \<and> (fmRevoked f \<noteq> None \<longrightarrow> fmRevoked f' \<noteq> None))))"

lemma tokInv_shrink:
  assumes inv: "tokInv \<sigma>" and shrinks: "dbShrinks (tsDb \<sigma>) db'" and free: "rowsFree \<sigma> db'" and wf: "dbWf users db'"
  shows "tokInv (\<sigma>\<lparr>tsDb := db', tsUsers := users\<rparr>)"
proof -
  let ?\<sigma> = "\<sigma>\<lparr>tsDb := db', tsUsers := users\<rparr>"
  have sub: "\<And>t row. tokenOf t db' = Some row \<Longrightarrow> tokenOf t (tsDb \<sigma>) = Some row"
    and fam: "\<And>i f'. familyOf i db' = Some f' \<Longrightarrow> \<exists>f. familyOf i (tsDb \<sigma>) = Some f \<and> (fmRevoked f \<noteq> None \<longrightarrow> fmRevoked f' \<noteq> None)"
    using shrinks by (auto simp: dbShrinks_def)
  have "idsKnown ?\<sigma>" using inv sub fam by (fastforce simp: tokInv_def idsKnown_def)
  moreover have "spentInv ?\<sigma>" using inv sub by (fastforce simp: tokInv_def spentInv_def)
  moreover have "revokedInv ?\<sigma>" using inv fam by (fastforce simp: tokInv_def revokedInv_def)
  moreover have "spentClaimed ?\<sigma>" using inv sub by (fastforce simp: tokInv_def spentClaimed_def)
  moreover have "rowsFree ?\<sigma> db'" using free by (simp add: rowsFree_def)
  moreover have "locksExclusive ?\<sigma>" using inv by (simp add: tokInv_def locksExclusive_def tokenLockedBy_def familyLockedBy_def)
  ultimately show ?thesis using inv wf by (simp add: tokInv_def)
qed

lemma sqlRevoke_shrinks: "rowsDistinct db \<Longrightarrow> dbShrinks db (sqlRevoke now token db)"
  by (auto simp: dbShrinks_def familyOf_sqlRevoke)

lemma sqlRevoke_wf: "dbWf users db \<Longrightarrow> dbWf users (sqlRevoke now token db)"
  by (auto simp: dbWf_def familyOf_sqlRevoke option.map_comp comp_def if_distrib cong: if_cong)

lemma dropFamilies_shrinks: "rowsDistinct db \<Longrightarrow> dbShrinks db (dropFamilies gone db)"
  by (auto simp: dbShrinks_def tokenOf_dropFamilies familyOf_dropFamilies split: option.splits if_splits)

lemma dropFamilies_wf: "dbWf users db \<Longrightarrow> dbWf users (dropFamilies gone db)"
  by (auto simp: dbWf_def tokenOf_dropFamilies familyOf_dropFamilies split: option.splits if_splits)

lemma sqlPrune_snd: "\<exists>gone. snd (sqlPrune before db) = dropFamilies gone db"
  by (auto simp: sqlPrune_def Let_def)

lemma familyOf_sqlDeleteUser: "rowsDistinct db \<Longrightarrow> familyOf i (sqlDeleteUser uid db) =
    (case familyOf i db of Some f \<Rightarrow> if fmUserId f \<noteq> uid then Some f else None | None \<Rightarrow> None)"
  by (simp add: familyOf_def sqlDeleteUser_def rowsDistinct_def map_of_filter_distinct Let_def split: option.splits)

lemma tokenOf_sqlDeleteUser: "rowsDistinct db \<Longrightarrow> tokenOf t (sqlDeleteUser uid db) =
    (case tokenOf t db of Some r \<Rightarrow>
       if tkUserId r = uid \<or> map_option fmUserId (familyOf (tkFamilyId r) db) = Some uid then None else Some r | None \<Rightarrow> None)"
  by (auto simp: tokenOf_def familyOf_def sqlDeleteUser_def rowsDistinct_def map_of_filter_distinct Let_def
      dest: map_of_SomeD split: option.splits if_splits)

lemma sqlDeleteUser_shrinks: "rowsDistinct db \<Longrightarrow> dbShrinks db (sqlDeleteUser uid db)"
  by (auto simp: dbShrinks_def tokenOf_sqlDeleteUser familyOf_sqlDeleteUser split: option.splits if_splits)

lemma sqlDeleteUser_wf: "dbWf users db \<Longrightarrow> dbWf (users(uid := None)) (sqlDeleteUser uid db)"
  by (fastforce simp: dbWf_def tokenOf_sqlDeleteUser familyOf_sqlDeleteUser split: option.splits if_splits)

text \<open>A step that leaves the tables alone.\<close>

lemma tokInv_phase:
  assumes inv: "tokInv \<sigma>"
    and locks: "locksExclusive (\<sigma>\<lparr>tsPhase := ph\<rparr>)" and free: "rowsFree (\<sigma>\<lparr>tsPhase := ph\<rparr>) (tsDb \<sigma>)"
  shows "tokInv (\<sigma>\<lparr>tsPhase := ph\<rparr>)"
  using assms by (simp add: tokInv_parts)

lemma release_ok:
  assumes "tokInv \<sigma>"
  shows "locksExclusive (\<sigma>\<lparr>tsPhase := (tsPhase \<sigma>)(s := NoClaim)\<rparr>)" "rowsFree (\<sigma>\<lparr>tsPhase := (tsPhase \<sigma>)(s := NoClaim)\<rparr>) (tsDb \<sigma>)"
  using assms by (auto simp: tokInv_def locksExclusive_def rowsFree_def tokenLockedBy_def familyLockedBy_def)

lemma unknown_answer: "tokInv \<sigma> \<Longrightarrow> tokInv (answerClaim s token Unknown (tsDb \<sigma>) \<sigma>)"
  using release_ok [of \<sigma> s] unfolding tokInv_parts answerClaim_def
  by (simp add: historyOk_snoc rowsFree_def locksExclusive_def tokenLockedBy_def familyLockedBy_def)

lemma lockToken_inv:
  assumes inv: "tokInv \<sigma>" and free: "\<forall>s'. \<not> tokenLockedBy s' token \<sigma>" and row: "tokenOf token (tsDb \<sigma>) = Some row"
    and idle: "tsPhase \<sigma> s = NoClaim"
  shows "tokInv (\<sigma>\<lparr>tsPhase := (tsPhase \<sigma>)(s := TokenLocked token row owner)\<rparr>)"
proof (rule tokInv_phase [OF inv])
  show "locksExclusive (\<sigma>\<lparr>tsPhase := (tsPhase \<sigma>)(s := TokenLocked token row owner)\<rparr>)"
    using inv free by (auto simp: tokInv_def locksExclusive_def tokenLockedBy_def familyLockedBy_def)
  show "rowsFree (\<sigma>\<lparr>tsPhase := (tsPhase \<sigma>)(s := TokenLocked token row owner)\<rparr>) (tsDb \<sigma>)"
    using inv row by (auto simp: tokInv_def rowsFree_def)
qed

lemma lockFamily_inv:
  assumes inv: "tokInv \<sigma>" and free: "\<forall>s'. \<not> familyLockedBy s' (tkFamilyId row) \<sigma>"
    and fam: "familyOf (tkFamilyId row) (tsDb \<sigma>) = Some family" and phase: "tsPhase \<sigma> s = TokenLocked token row owner"
  shows "tokInv (\<sigma>\<lparr>tsPhase := (tsPhase \<sigma>)(s := FamilyLocked token row owner family)\<rparr>)"
proof (rule tokInv_phase [OF inv])
  have lockT: "\<And>s' t. tokenLockedBy s' t (\<sigma>\<lparr>tsPhase := (tsPhase \<sigma>)(s := FamilyLocked token row owner family)\<rparr>) = tokenLockedBy s' t \<sigma>"
    using phase by (simp add: tokenLockedBy_def)
  have lockF: "\<And>s' i. familyLockedBy s' i (\<sigma>\<lparr>tsPhase := (tsPhase \<sigma>)(s := FamilyLocked token row owner family)\<rparr>) =
      (if s' = s then i = tkFamilyId row else familyLockedBy s' i \<sigma>)"
    by (auto simp: familyLockedBy_def)
  show "locksExclusive (\<sigma>\<lparr>tsPhase := (tsPhase \<sigma>)(s := FamilyLocked token row owner family)\<rparr>)"
    using inv free unfolding tokInv_def locksExclusive_def lockT lockF by auto
  have "\<And>s'. case tsPhase \<sigma> s' of NoClaim \<Rightarrow> True | TokenLocked t row _ \<Rightarrow> tokenOf t (tsDb \<sigma>) = Some row
      | FamilyLocked t row _ family \<Rightarrow> tokenOf t (tsDb \<sigma>) = Some row \<and> familyOf (tkFamilyId row) (tsDb \<sigma>) = Some family"
    using inv by (simp add: tokInv_def rowsFree_def)
  from this this [of s] show "rowsFree (\<sigma>\<lparr>tsPhase := (tsPhase \<sigma>)(s := FamilyLocked token row owner family)\<rparr>) (tsDb \<sigma>)"
    using fam phase by (simp add: rowsFree_def)
qed


text \<open>The rows a deciding session has read are still the rows of the tables.\<close>

lemma decide_rows:
  assumes "tokInv \<sigma>" and "tsPhase \<sigma> s = FamilyLocked token row owner family"
  shows "tokenOf token (tsDb \<sigma>) = Some row" "familyOf (tkFamilyId row) (tsDb \<sigma>) = Some family"
    "fmUserId family = tkUserId row"
proof -
  have read: "case tsPhase \<sigma> s of NoClaim \<Rightarrow> True | TokenLocked t row _ \<Rightarrow> tokenOf t (tsDb \<sigma>) = Some row
      | FamilyLocked t row _ family \<Rightarrow> tokenOf t (tsDb \<sigma>) = Some row \<and> familyOf (tkFamilyId row) (tsDb \<sigma>) = Some family"
    using assms(1) by (simp add: tokInv_def rowsFree_def)
  then show t: "tokenOf token (tsDb \<sigma>) = Some row" and f: "familyOf (tkFamilyId row) (tsDb \<sigma>) = Some family"
    using assms(2) by simp_all
  show "fmUserId family = tkUserId row" using t f assms(1) by (fastforce simp: tokInv_def dbWf_def)
qed

text \<open>What the writes of a decision leave of the rows other sessions have locked.\<close>

lemma others_rows:
  assumes "tokInv \<sigma>" and "tsPhase \<sigma> s = FamilyLocked token row owner family" and "s' \<noteq> s"
  shows "\<not> tokenLockedBy s' token \<sigma>" "\<not> familyLockedBy s' (tkFamilyId row) \<sigma>"
proof -
  have "tokenLockedBy s token \<sigma>" "familyLockedBy s (tkFamilyId row) \<sigma>"
    using assms(2) by (simp_all add: tokenLockedBy_def familyLockedBy_def)
  then show "\<not> tokenLockedBy s' token \<sigma>" "\<not> familyLockedBy s' (tkFamilyId row) \<sigma>"
    using assms(1,3) unfolding tokInv_def locksExclusive_def by blast+
qed

lemma spend_free:
  assumes inv: "tokInv \<sigma>" and ph: "tsPhase \<sigma> s = FamilyLocked token row owner family"
  shows "rowsFree (\<sigma>\<lparr>tsPhase := (tsPhase \<sigma>)(s := NoClaim)\<rparr>) (spendRow now token (tsDb \<sigma>))"
  unfolding rowsFree_def
proof
  fix s'
  have "case tsPhase \<sigma> s' of NoClaim \<Rightarrow> True | TokenLocked t row _ \<Rightarrow> tokenOf t (tsDb \<sigma>) = Some row
      | FamilyLocked t row _ family \<Rightarrow> tokenOf t (tsDb \<sigma>) = Some row \<and> familyOf (tkFamilyId row) (tsDb \<sigma>) = Some family"
    using inv by (simp add: tokInv_def rowsFree_def)
  then show "case tsPhase (\<sigma>\<lparr>tsPhase := (tsPhase \<sigma>)(s := NoClaim)\<rparr>) s' of NoClaim \<Rightarrow> True
      | TokenLocked t row x \<Rightarrow> tokenOf t (spendRow now token (tsDb \<sigma>)) = Some row
      | FamilyLocked t row x family \<Rightarrow> tokenOf t (spendRow now token (tsDb \<sigma>)) = Some row \<and>
          familyOf (tkFamilyId row) (spendRow now token (tsDb \<sigma>)) = Some family"
    using others_rows(1) [OF inv ph, of s'] by (auto simp: tokenOf_spendRow tokenLockedBy_def split: claimPhase.splits)
qed

lemma revoke_free:
  assumes inv: "tokInv \<sigma>" and ph: "tsPhase \<sigma> s = FamilyLocked token row owner family"
  shows "rowsFree (\<sigma>\<lparr>tsPhase := (tsPhase \<sigma>)(s := NoClaim)\<rparr>) (revokeRow now why (tkFamilyId row) (tsDb \<sigma>))"
  unfolding rowsFree_def
proof
  fix s'
  have "case tsPhase \<sigma> s' of NoClaim \<Rightarrow> True | TokenLocked t row _ \<Rightarrow> tokenOf t (tsDb \<sigma>) = Some row
      | FamilyLocked t row _ family \<Rightarrow> tokenOf t (tsDb \<sigma>) = Some row \<and> familyOf (tkFamilyId row) (tsDb \<sigma>) = Some family"
    using inv by (simp add: tokInv_def rowsFree_def)
  then show "case tsPhase (\<sigma>\<lparr>tsPhase := (tsPhase \<sigma>)(s := NoClaim)\<rparr>) s' of NoClaim \<Rightarrow> True
      | TokenLocked t row' x \<Rightarrow> tokenOf t (revokeRow now why (tkFamilyId row) (tsDb \<sigma>)) = Some row'
      | FamilyLocked t row' x family \<Rightarrow> tokenOf t (revokeRow now why (tkFamilyId row) (tsDb \<sigma>)) = Some row' \<and>
          familyOf (tkFamilyId row') (revokeRow now why (tkFamilyId row) (tsDb \<sigma>)) = Some family"
    using others_rows(2) [OF inv ph, of s'] by (auto simp: familyOf_revokeRow familyLockedBy_def split: claimPhase.splits)
qed

lemma rowsFree_answer: "rowsFree (answerClaim s token claim db' \<sigma>) db = rowsFree (\<sigma>\<lparr>tsPhase := (tsPhase \<sigma>)(s := NoClaim)\<rparr>) db"
  by (simp add: rowsFree_def answerClaim_def)

lemma locksExclusive_answer: "tokInv \<sigma> \<Longrightarrow> locksExclusive (answerClaim s token claim db' \<sigma>)"
  using release_ok(1) [of \<sigma> s] by (simp add: locksExclusive_def answerClaim_def tokenLockedBy_def familyLockedBy_def)

lemma claimed_inv:
  assumes inv: "tokInv \<sigma>" and ph: "tsPhase \<sigma> s = FamilyLocked token row owner family"
    and unspent: "tkConsumedAt row = None" and live: "fmRevoked family = None"
  shows "tokInv (answerClaim s token (Claimed (claimOf uid owner row)) (spendRow now token (tsDb \<sigma>)) \<sigma>)"
proof -
  let ?db = "spendRow now token (tsDb \<sigma>)" and ?c = "claimOf uid owner row"
  let ?\<sigma> = "answerClaim s token (Claimed ?c) ?db \<sigma>"
  note rows = decide_rows [OF inv ph]
  have "dbWf (tsUsers \<sigma>) ?db" using inv by (fastforce simp: tokInv_def dbWf_def tokenOf_spendRow)
  moreover have "idsKnown ?\<sigma>" using inv by (auto simp: tokInv_def idsKnown_def answerClaim_def tokenOf_spendRow)
  moreover have "spentInv ?\<sigma>"
    using inv rows(1) by (fastforce simp: tokInv_def spentInv_def idsKnown_def answerClaim_def tokenOf_spendRow split: if_splits)
  moreover have "revokedInv ?\<sigma>" using inv by (auto simp: tokInv_def revokedInv_def answerClaim_def)
  moreover have "spentClaimed ?\<sigma>"
    using inv by (fastforce simp: tokInv_def spentClaimed_def answerClaim_def tokenOf_spendRow split: if_splits)
  moreover have "justified (tsAnswers \<sigma>) (token, Claimed ?c)"
    using inv rows unspent live by (fastforce simp: tokInv_def spentInv_def revokedInv_def claimOf_def)
  ultimately show ?thesis
    using inv spend_free [OF inv ph, of now] locksExclusive_answer [OF inv]
    unfolding tokInv_def by (simp add: rowsFree_answer historyOk_snoc) (simp add: answerClaim_def historyOk_snoc)
qed

lemma reused_inv:
  assumes inv: "tokInv \<sigma>" and ph: "tsPhase \<sigma> s = FamilyLocked token row owner family"
    and spent: "tkConsumedAt row \<noteq> None" and live: "fmRevoked family = None" and rid: "reFamilyId r = tkFamilyId row"
  shows "tokInv (answerClaim s token (Reused r) (revokeRow now why (tkFamilyId row) (tsDb \<sigma>)) \<sigma>)"
proof -
  let ?db = "revokeRow now why (tkFamilyId row) (tsDb \<sigma>)"
  let ?\<sigma> = "answerClaim s token (Reused r) ?db \<sigma>"
  note rows = decide_rows [OF inv ph]
  have "dbWf (tsUsers \<sigma>) ?db" using inv
    by (auto simp: tokInv_def dbWf_def familyOf_revokeRow option.map_comp comp_def if_distrib cong: if_cong)
  moreover have "idsKnown ?\<sigma>" using inv by (auto simp: tokInv_def idsKnown_def answerClaim_def familyOf_revokeRow)
  moreover have "spentInv ?\<sigma>" using inv by (auto simp: tokInv_def spentInv_def answerClaim_def)
  moreover have "revokedInv ?\<sigma>"
    using inv rows(2) rid by (fastforce simp: tokInv_def revokedInv_def idsKnown_def answerClaim_def familyOf_revokeRow split: if_splits)
  moreover have "spentClaimed ?\<sigma>" using inv by (fastforce simp: tokInv_def spentClaimed_def answerClaim_def)
  moreover have "justified (tsAnswers \<sigma>) (token, Reused r)"
    using inv rows spent live rid by (fastforce simp: tokInv_def spentClaimed_def revokedInv_def)
  ultimately show ?thesis
    using inv revoke_free [OF inv ph, of now why] locksExclusive_answer [OF inv]
    unfolding tokInv_def by (simp add: rowsFree_answer historyOk_snoc) (simp add: answerClaim_def historyOk_snoc)
qed

lemma revoked_answer: "tokInv \<sigma> \<Longrightarrow> tokInv (answerClaim s token Revoked (tsDb \<sigma>) \<sigma>)"
  using release_ok [of \<sigma> s] unfolding tokInv_parts answerClaim_def
  by (simp add: historyOk_snoc rowsFree_def locksExclusive_def tokenLockedBy_def familyLockedBy_def)

lemma decide_inv:
  assumes inv: "tokInv \<sigma>" and ph: "tsPhase \<sigma> s = FamilyLocked token row owner family"
    and decide: "sqlDecide owner now token row family (tsDb \<sigma>) = (claim, db')"
  shows "tokInv (answerClaim s token claim db' \<sigma>)"
proof (cases "fmRevoked family = None")
  case False
  then show ?thesis using decide revoked_answer [OF inv] by (auto simp: sqlDecide_def split: if_splits)
next
  case True
  then show ?thesis using decide claimed_inv [OF inv ph _ True] reused_inv [OF inv ph _ True]
    by (auto simp: sqlDecide_def split: if_splits)
qed


text \<open>A token issued into a family, and the first token of a new one.\<close>

lemma snoc_distinct: "map_of xs k = None \<Longrightarrow> distinct (map fst xs) \<Longrightarrow> distinct (map fst xs @ [k])"
  "\<forall>y. (k, y) \<notin> set xs \<Longrightarrow> distinct (map fst xs) \<Longrightarrow> distinct (map fst xs @ [k])"
  by (auto simp: map_of_eq_None_iff)

lemma sqlIssue_into:
  assumes "isFamilyId d = Some fid" and "sqlIssue fresh d db = Inr db'"
  shows "tokenOf (isToken d) db = None"
    and "tokenOf t db' = (if t = isToken d then Some (newToken d fid) else tokenOf t db)"
    and "familyOf i db' = familyOf i db" and "familyOf fid db \<noteq> None"
    and "rowsDistinct db \<Longrightarrow> rowsDistinct db'"
  using assms by (auto simp: sqlIssue_def tokenOf_def familyOf_def rowsDistinct_def map_add_def snoc_distinct
      simp del: distinct_append split: if_splits option.splits)

lemma sqlIssue_new:
  assumes "isFamilyId d = None" and "sqlIssue fresh d db = Inr db'"
  shows "tokenOf (isToken d) db = None"
    and "tokenOf t db' = (if t = isToken d then Some (newToken d fresh) else tokenOf t db)"
    and "familyOf i db' = (if i = fresh then Some \<lparr>fmUserId = isUserId d, fmRevoked = None\<rparr> else familyOf i db)"
    and "rowsDistinct db \<Longrightarrow> rowsDistinct db'"
  using assms by (auto simp: sqlIssue_def tokenOf_def familyOf_def rowsDistinct_def map_add_def snoc_distinct
      simp del: distinct_append split: if_splits option.splits)

text \<open>What the invariant needs of a write that only adds rows, under new ids.\<close>

lemma tokInv_grow:
  assumes inv: "tokInv \<sigma>" and d: "rowsDistinct db'"
    and newt: "tk \<notin> tsTokensEver \<sigma>" and newf: "fid = None \<or> the fid \<notin> tsFamiliesEver \<sigma>"
    and tok: "\<And>t. tokenOf t db' = (if t = tk then Some row else tokenOf t (tsDb \<sigma>))"
    and fam: "\<And>i. familyOf i db' = (if fid = Some i then Some family else familyOf i (tsDb \<sigma>))"
    and unspent: "tkConsumedAt row = None" and user: "tsUsers \<sigma> (tkUserId row) \<noteq> None"
    and own: "map_option fmUserId (familyOf (tkFamilyId row) db') = Some (tkUserId row)"
    and known: "set_option fid \<subseteq> fams" "tsFamiliesEver \<sigma> \<subseteq> fams"
  shows "tokInv (\<sigma>\<lparr>tsDb := db', tsTokensEver := insert tk (tsTokensEver \<sigma>), tsFamiliesEver := fams\<rparr>)" (is "tokInv ?\<sigma>")
proof -
  have ids: "\<And>t. tokenOf t (tsDb \<sigma>) \<noteq> None \<Longrightarrow> t \<in> tsTokensEver \<sigma>" "\<And>i. familyOf i (tsDb \<sigma>) \<noteq> None \<Longrightarrow> i \<in> tsFamiliesEver \<sigma>"
    using inv by (auto simp: tokInv_def idsKnown_def)
  have keepT: "tokenOf t (tsDb \<sigma>) = Some r \<Longrightarrow> tokenOf t db' = Some r" for t r using ids newt tok by auto
  have keepF: "familyOf i (tsDb \<sigma>) = Some f \<Longrightarrow> familyOf i db' = Some f" for i f using ids newf fam by auto
  have "dbWf (tsUsers \<sigma>) db'" unfolding dbWf_def
  proof (intro conjI allI impI)
    fix t r assume t: "tokenOf t db' = Some r"
    have "(t = tk \<and> r = row) \<or> tokenOf t (tsDb \<sigma>) = Some r" using t tok by (auto split: if_splits)
    then show "tsUsers \<sigma> (tkUserId r) \<noteq> None" "map_option fmUserId (familyOf (tkFamilyId r) db') = Some (tkUserId r)"
      using inv user own keepF by (fastforce simp: tokInv_def dbWf_def)+
  qed (rule d)
  moreover have "rowsFree ?\<sigma> db'"
    using inv keepT keepF by (fastforce simp: tokInv_def rowsFree_def split: claimPhase.splits)
  moreover have "locksExclusive ?\<sigma>" using inv by (simp add: tokInv_def locksExclusive_def tokenLockedBy_def familyLockedBy_def)
  moreover have "idsKnown ?\<sigma>" using ids known by (auto simp: idsKnown_def tok fam split: if_splits)
  moreover have "spentInv ?\<sigma>" using inv newt by (fastforce simp: tokInv_def spentInv_def tok)
  moreover have "revokedInv ?\<sigma>" using inv newf known by (fastforce simp: tokInv_def revokedInv_def fam)
  moreover have "spentClaimed ?\<sigma>" using inv unspent by (auto simp: tokInv_def spentClaimed_def tok)
  ultimately show ?thesis using inv by (simp add: tokInv_def)
qed

lemma issue_inv:
  assumes inv: "tokInv \<sigma>" and user: "tsUsers \<sigma> (isUserId d) \<noteq> None" and newt: "isToken d \<notin> tsTokensEver \<sigma>"
    and caller: "case isFamilyId d of None \<Rightarrow> fresh \<notin> tsFamiliesEver \<sigma>
       | Some fid \<Rightarrow> map_option fmUserId (familyOf fid (tsDb \<sigma>)) = Some (isUserId d)"
    and issue: "sqlIssue fresh d (tsDb \<sigma>) = Inr db'"
  shows "tokInv (\<sigma>\<lparr>tsDb := db', tsTokensEver := insert (isToken d) (tsTokensEver \<sigma>), tsFamiliesEver := insert fresh (tsFamiliesEver \<sigma>)\<rparr>)"
proof (cases "isFamilyId d")
  case None
  have wf: "rowsDistinct (tsDb \<sigma>)" using inv by (simp add: tokInv_def dbWf_def)
  note new = sqlIssue_new [OF None issue]
  show ?thesis
    by (rule tokInv_grow [where fid = "Some fresh" and row = "newToken d fresh" and family = "\<lparr>fmUserId = isUserId d, fmRevoked = None\<rparr>"])
      (use inv user newt caller None new wf in \<open>auto simp: newToken_def\<close>)
next
  case (Some fid)
  have wf: "rowsDistinct (tsDb \<sigma>)" using inv by (simp add: tokInv_def dbWf_def)
  note new = sqlIssue_into [OF Some issue]
  show ?thesis
    by (rule tokInv_grow [where fid = None and row = "newToken d fid"])
      (use inv user newt caller Some new wf in \<open>auto simp: newToken_def\<close>)
qed

lemma tokInv_start: "tokInv tokenStart"
  by (simp add: tokenStart_def tokInv_parts tokenOf_def familyOf_def rowsDistinct_def rowsFree_def locksExclusive_def
      tokenLockedBy_def familyLockedBy_def)

lemma tokInv_distinct: "tokInv \<sigma> \<Longrightarrow> rowsDistinct (tsDb \<sigma>)"
  by (simp add: tokInv_def dbWf_def)

lemma tokInv_wf: "tokInv \<sigma> \<Longrightarrow> dbWf (tsUsers \<sigma>) (tsDb \<sigma>)"
  by (simp add: tokInv_def)

lemma tokInv_shrink_same:
  assumes "tokInv \<sigma>" "dbShrinks (tsDb \<sigma>) db'" "rowsFree \<sigma> db'" "dbWf (tsUsers \<sigma>) db'"
  shows "tokInv (\<sigma>\<lparr>tsDb := db'\<rparr>)"
  using tokInv_shrink [OF assms] by simp

lemma tokInv_step: "tokenStep \<sigma> \<sigma>' \<Longrightarrow> tokInv \<sigma> \<Longrightarrow> tokInv \<sigma>'"
proof (induction rule: tokenStep.induct)
  case (tsPrune \<sigma> before)
  obtain gone where "snd (sqlPrune before (tsDb \<sigma>)) = dropFamilies gone (tsDb \<sigma>)" using sqlPrune_snd by blast
  then show ?case using tsPrune dropFamilies_shrinks [OF tokInv_distinct] dropFamilies_wf [OF tokInv_wf]
    by (auto intro: tokInv_shrink_same)
next
  case (tsUser \<sigma> uid owner)
  then have "dbWf ((tsUsers \<sigma>)(uid \<mapsto> owner)) (tsDb \<sigma>)" by (fastforce simp: tokInv_def dbWf_def)
  moreover have "rowsFree \<sigma> (tsDb \<sigma>)" using tsUser by (simp add: tokInv_def)
  moreover have "dbShrinks (tsDb \<sigma>) (tsDb \<sigma>)" using tokInv_distinct [OF tsUser] by (simp add: dbShrinks_def)
  ultimately show ?case using tokInv_shrink [OF tsUser, of "tsDb \<sigma>"] by simp
next
  case (tsDeleteUser \<sigma> uid)
  then show ?case
    using tokInv_shrink sqlDeleteUser_shrinks [OF tokInv_distinct] sqlDeleteUser_wf [OF tokInv_wf] by blast
next
  case (tsRevoke \<sigma> now token)
  then show ?case using tokInv_shrink_same sqlRevoke_shrinks [OF tokInv_distinct] sqlRevoke_wf [OF tokInv_wf] by blast
next
  case (tsAbort \<sigma> s)
  then show ?case using tokInv_phase release_ok by blast
qed (blast intro: unknown_answer lockToken_inv lockFamily_inv decide_inv issue_inv)+

lemma tokInv_reach: "tokenReach \<sigma> \<Longrightarrow> tokInv \<sigma>"
  by (induction rule: rtranclp_induct) (auto intro: tokInv_start tokInv_step)


section \<open>The two stores agree\<close>

lemma map_one_key:
  assumes "distinct (map fst xs)" and "map_of xs k = Some v"
  shows "map (\<lambda>(i, f). (i, if P f \<and> i = k then g f else f)) xs = (if P v then map (\<lambda>(i, f). (i, if i = k then g f else f)) xs else xs)"
proof (cases "P v")
  case True
  have "\<And>i f. (i, f) \<in> set xs \<Longrightarrow> i = k \<Longrightarrow> f = v" using assms by (metis map_of_is_SomeI option.inject)
  then show ?thesis using True by auto
next
  case False
  have "\<And>i f. (i, f) \<in> set xs \<Longrightarrow> i = k \<Longrightarrow> f = v" using assms by (metis map_of_is_SomeI option.inject)
  then show ?thesis using False by (auto intro!: map_idI)
qed

lemma sqlRevoke_tokRevoke:
  assumes "dbWf users db"
  shows "sqlRevoke now token db = tokRevoke now token db"
proof (cases "tokenOf token db")
  case None
  then have none: "list_ex (\<lambda>(t, r). t = token \<and> tkFamilyId r = i) (dbTokens db) = False" for i
    using assms list_ex_token [of db token] by (simp add: dbWf_def)
  show ?thesis using None unfolding sqlRevoke_def none by (simp add: tokRevoke_def split_def)
next
  case (Some row)
  have d: "rowsDistinct db" using assms by (simp add: dbWf_def)
  obtain f where f: "familyOf (tkFamilyId row) db = Some f" using assms Some by (fastforce simp: dbWf_def)
  have key: "list_ex (\<lambda>(t, r). t = token \<and> tkFamilyId r = i) (dbTokens db) \<longleftrightarrow> i = tkFamilyId row" for i
    using list_ex_token [OF d, of token] Some by auto
  show ?thesis
    using map_one_key [of "dbFamilies db" "tkFamilyId row" f "\<lambda>f. fmRevoked f = None" "\<lambda>f. f\<lparr>fmRevoked := Some (now, Logout)\<rparr>"] d f Some
    unfolding sqlRevoke_def key by (simp add: tokRevoke_def revokeRow_def rowsDistinct_def familyOf_def)
qed

lemma dropFamilies_twice: "dropFamilies g (dropFamilies h db) = dropFamilies (\<lambda>i. h i \<or> g i) db"
  by (simp add: dropFamilies_def split_def conj_commute)

lemma dropFamilies_none: "(\<And>i. \<not> gone i) \<Longrightarrow> dropFamilies gone db = db"
  by (simp add: dropFamilies_def)

definition outlived :: "int \<Rightarrow> tokenDb \<Rightarrow> string \<Rightarrow> bool" where
  "outlived before db fid = (\<not> list_ex (\<lambda>(t, r). tkFamilyId r = fid \<and> before \<le> tkExpiresAt r) (dbTokens db))"

lemma outlived_drop: "i \<noteq> fid \<Longrightarrow> outlived before (dropFamilies (\<lambda>j. j = fid) db) i = outlived before db i"
  by (auto simp: outlived_def dropFamilies_def list_ex_iff)

lemma pruneLoop_eq: "distinct fids \<Longrightarrow> pruneLoop before fids (n, db) =
    (n + length (filter (outlived before db) fids), dropFamilies (\<lambda>i. i \<in> set fids \<and> outlived before db i) db)"
proof (induction fids arbitrary: n db)
  case Nil
  then show ?case by (simp add: dropFamilies_none)
next
  case (Cons fid rest)
  have out: "list_ex (\<lambda>(t, r). tkFamilyId r = fid \<and> before \<le> tkExpiresAt r) (dbTokens db) \<longleftrightarrow> \<not> outlived before db fid"
    by (simp add: outlived_def)
  have same: "filter (outlived before (dropFamilies (\<lambda>j. j = fid) db)) rest = filter (outlived before db) rest"
    using Cons.prems by (intro filter_cong refl outlived_drop) auto
  have gone: "(\<lambda>i. i = fid \<or> i \<in> set rest \<and> outlived before (dropFamilies (\<lambda>j. j = fid) db) i) =
      (\<lambda>i. i = fid \<or> i \<in> set rest \<and> outlived before db i)"
    using Cons.prems outlived_drop [of _ fid] by fastforce
  have grown: "outlived before db fid \<Longrightarrow> (\<lambda>i. i = fid \<or> i \<in> set rest \<and> outlived before db i) =
      (\<lambda>i. (i = fid \<or> i \<in> set rest) \<and> outlived before db i)"
    "\<not> outlived before db fid \<Longrightarrow> (\<lambda>i. i \<in> set rest \<and> outlived before db i) =
      (\<lambda>i. (i = fid \<or> i \<in> set rest) \<and> outlived before db i)" by auto
  show ?case using Cons by (simp add: out dropFamilies_twice same gone grown)
qed

lemma sqlPrune_tokPrune:
  assumes "dbWf users db"
  shows "sqlPrune before db = tokPrune before db"
proof -
  have gone: "familyOf i db \<noteq> None \<and> list_all (\<lambda>(t, r). tkFamilyId r = i \<longrightarrow> tkExpiresAt r < before) (dbTokens db)
      \<longleftrightarrow> i \<in> set (map fst (dbFamilies db)) \<and> outlived before db i" for i
    by (auto simp: outlived_def list_ex_iff list_all_iff familyOf_def map_of_eq_None_iff not_less linorder_not_le)
  have len: "length (filter (\<lambda>(i, f). i \<in> set (map fst (dbFamilies db)) \<and> outlived before db i) (dbFamilies db)) =
      length (filter (outlived before db) (map fst (dbFamilies db)))"
    by (simp add: filter_map comp_def split_def cong: filter_cong)
  show ?thesis using assms len unfolding sqlPrune_def tokPrune_def gone Let_def
    by (simp add: dbWf_def rowsDistinct_def pruneLoop_eq)
qed

lemma sqlDecide_tokClaim:
  assumes "tokInv \<sigma>" and "tsPhase \<sigma> s = FamilyLocked token row owner family"
  shows "sqlDecide owner now token row family (tsDb \<sigma>) = tokClaim ((tsUsers \<sigma>)(tkUserId row \<mapsto> owner)) now token (tsDb \<sigma>)"
  using decide_rows [OF assms] by (simp add: sqlDecide_def tokClaim_def)

lemma update_new_key: "map_of xs k = None \<Longrightarrow> AList.update k v xs = xs @ [(k, v)]"
  by (induction xs) (auto split: if_splits)

lemma sqlIssue_tokIssue: "sqlIssue fresh d db = Inr db' \<Longrightarrow> db' = tokIssue fresh d db"
  by (auto simp: sqlIssue_def tokIssue_def Let_def tokenOf_def familyOf_def update_new_key split: if_splits option.splits)


text \<open>With no other session in its way, a claim transaction runs to its answer.\<close>

lemma claim_completes:
  assumes inv: "tokInv \<sigma>" and idle: "\<forall>s. tsPhase \<sigma> s = NoClaim" and row: "tokenOf token (tsDb \<sigma>) = Some row"
    and claim: "tokClaim (tsUsers \<sigma>) now token (tsDb \<sigma>) = (claim, db')"
  shows "tokenStep\<^sup>*\<^sup>* \<sigma> (answerClaim s token claim db' \<sigma>)"
proof -
  obtain owner family where owner: "tsUsers \<sigma> (tkUserId row) = Some owner" and fam: "familyOf (tkFamilyId row) (tsDb \<sigma>) = Some family"
    using inv row by (fastforce simp: tokInv_def dbWf_def)
  let ?a = "\<sigma>\<lparr>tsPhase := (tsPhase \<sigma>)(s := TokenLocked token row owner)\<rparr>"
  let ?b = "?a\<lparr>tsPhase := (tsPhase ?a)(s := FamilyLocked token row owner family)\<rparr>"
  have "tokenStep \<sigma> ?a" by (rule tokenStep.tsLockToken) (use idle row owner in \<open>simp_all add: tokenLockedBy_def\<close>)
  moreover have "tokenStep ?a ?b" by (rule tokenStep.tsLockFamily) (use idle fam in \<open>simp_all add: familyLockedBy_def\<close>)
  moreover have inv': "tokInv ?b" using calculation tokInv_step inv by blast
  have "(tsUsers ?b)(tkUserId row \<mapsto> owner) = tsUsers \<sigma>" using owner by auto
  then have "sqlDecide owner now token row family (tsDb ?b) = (claim, db')"
    using sqlDecide_tokClaim [OF inv', of s token row owner family now] claim by simp
  then have "tokenStep ?b (answerClaim s token claim db' ?b)" by (intro tokenStep.tsDecide) simp_all
  moreover have "answerClaim s token claim db' ?b = answerClaim s token claim db' \<sigma>" by (simp add: answerClaim_def)
  ultimately show ?thesis by (metis (no_types, lifting) converse_rtranclp_into_rtranclp rtranclp.rtrancl_refl)
qed

text \<open>A sign-in, its first rotation, and a second presentation of the token that was rotated.\<close>

definition exOwner :: "tokenOwner" where
  "exOwner = \<lparr>owEmail = ''a'', owRole = ''USER''\<rparr>"

definition exToken :: "tokenRow" where
  "exToken = \<lparr>tkUserId = ''u'', tkFamilyId = ''f'', tkExpiresAt = 9, tkConsumedAt = None\<rparr>"

definition exFamily :: "familyRow" where
  "exFamily = \<lparr>fmUserId = ''u'', fmRevoked = None\<rparr>"

definition exSignedIn :: "tokenSystem" where
  "exSignedIn = \<lparr>tsDb = \<lparr>dbTokens = [(''t'', exToken)], dbFamilies = [(''f'', exFamily)]\<rparr>,
     tsUsers = [''u'' \<mapsto> exOwner], tsPhase = (\<lambda>s. NoClaim), tsAnswers = [], tsTokensEver = {''t''}, tsFamiliesEver = {''f''}\<rparr>"

definition exHolding :: "tokenSystem" where
  "exHolding = exSignedIn\<lparr>tsPhase := (\<lambda>s. NoClaim)(0 := FamilyLocked ''t'' exToken exOwner exFamily)\<rparr>"

definition exClaimed :: "tokenSystem" where
  "exClaimed = answerClaim 0 ''t'' (Claimed \<lparr>ctUserId = ''u'', ctEmail = ''a'', ctRole = ''USER'', ctExpiresAt = 9, ctFamilyId = ''f''\<rparr>)
     \<lparr>dbTokens = [(''t'', exToken\<lparr>tkConsumedAt := Some 1\<rparr>)], dbFamilies = [(''f'', exFamily)]\<rparr> exSignedIn"

definition exReused :: "tokenSystem" where
  "exReused = answerClaim 0 ''t'' (Reused \<lparr>reFamilyId = ''f'', reUserId = ''u'', reRevokedTokens = 0\<rparr>)
     \<lparr>dbTokens = [(''t'', exToken\<lparr>tkConsumedAt := Some 1\<rparr>)],
      dbFamilies = [(''f'', exFamily\<lparr>fmRevoked := Some (2, ReuseDetected)\<rparr>)]\<rparr> exClaimed"

lemmas ex_defs = exSignedIn_def exOwner_def exToken_def exFamily_def tokenOf_def familyOf_def

lemma exSignedIn_reach: "tokenReach exSignedIn"
proof -
  let ?u = "tokenStart\<lparr>tsUsers := (tsUsers tokenStart)(''u'' \<mapsto> exOwner)\<rparr>"
  let ?d = "\<lparr>isToken = ''t'', isUserId = ''u'', isExpiresAt = 9, isFamilyId = None\<rparr>"
  have "tokenStep tokenStart ?u" by (rule tokenStep.tsUser)
  moreover have "tokenStep ?u (?u\<lparr>tsDb := tsDb exSignedIn, tsTokensEver := insert (isToken ?d) (tsTokensEver ?u),
      tsFamiliesEver := insert ''f'' (tsFamiliesEver ?u)\<rparr>)"
    by (rule tokenStep.tsIssue)
      (simp_all add: tokenStart_def ex_defs sqlIssue_def newToken_def)
  moreover have "?u\<lparr>tsDb := tsDb exSignedIn, tsTokensEver := insert (isToken ?d) (tsTokensEver ?u),
      tsFamiliesEver := insert ''f'' (tsFamiliesEver ?u)\<rparr> = exSignedIn"
    by (simp add: tokenStart_def exSignedIn_def)
  ultimately show ?thesis by (metis (no_types, lifting) converse_rtranclp_into_rtranclp rtranclp.rtrancl_refl)
qed

lemma exHolding_reach: "tokenReach exHolding"
proof -
  let ?a = "exSignedIn\<lparr>tsPhase := (tsPhase exSignedIn)(0 := TokenLocked ''t'' exToken exOwner)\<rparr>"
  have "tokenStep exSignedIn ?a" by (rule tokenStep.tsLockToken) (simp_all add: ex_defs tokenLockedBy_def)
  moreover have "tokenStep ?a (?a\<lparr>tsPhase := (tsPhase ?a)(0 := FamilyLocked ''t'' exToken exOwner exFamily)\<rparr>)"
    by (rule tokenStep.tsLockFamily) (simp_all add: ex_defs familyLockedBy_def)
  moreover have "?a\<lparr>tsPhase := (tsPhase ?a)(0 := FamilyLocked ''t'' exToken exOwner exFamily)\<rparr> = exHolding"
    by (simp add: exHolding_def exSignedIn_def)
  ultimately show ?thesis using exSignedIn_reach by (metis (no_types, lifting) rtranclp.rtrancl_into_rtrancl)
qed

lemma exReused_reach: "tokenReach exReused"
proof -
  have "tokenStep\<^sup>*\<^sup>* exSignedIn exClaimed" unfolding exClaimed_def
    by (rule claim_completes [OF tokInv_reach [OF exSignedIn_reach], where now = 1])
      (simp_all add: ex_defs tokClaim_def claimOf_def spendRow_def)
  then have a: "tokenReach exClaimed" using exSignedIn_reach by simp
  have "tokenStep\<^sup>*\<^sup>* exClaimed exReused" unfolding exReused_def
    by (rule claim_completes [OF tokInv_reach [OF a], where now = 2])
      (simp_all add: exClaimed_def answerClaim_def ex_defs tokClaim_def revokeRow_def unspentIn_def)
  then show ?thesis using a by simp
qed

text \<open>
  C19. In every state the interleaved Postgres store can reach: the decision a claim transaction
  takes from the two rows it read under lock, and its writes, are those of the in-memory store's
  one-step claim on the tables as they are at that moment, whatever the other sessions did since
  the rows were read; and sign-out and pruning have the effect and the count of the in-memory ones, and so has a new token the
  constraints accept.
\<close>

theorem token_stores_agree:
  assumes "tokenReach \<sigma>"
  shows "(tsPhase \<sigma> s = FamilyLocked token row owner family \<longrightarrow>
      sqlDecide owner now token row family (tsDb \<sigma>) = tokClaim ((tsUsers \<sigma>)(tkUserId row \<mapsto> owner)) now token (tsDb \<sigma>)) \<and>
    sqlRevoke now u (tsDb \<sigma>) = tokRevoke now u (tsDb \<sigma>) \<and>
    sqlPrune before (tsDb \<sigma>) = tokPrune before (tsDb \<sigma>) \<and>
    (sqlIssue fresh d (tsDb \<sigma>) = Inr db' \<longrightarrow> db' = tokIssue fresh d (tsDb \<sigma>))"
proof (intro conjI impI)
  note inv = tokInv_reach [OF assms]
  show "sqlDecide owner now token row family (tsDb \<sigma>) = tokClaim ((tsUsers \<sigma>)(tkUserId row \<mapsto> owner)) now token (tsDb \<sigma>)"
    if "tsPhase \<sigma> s = FamilyLocked token row owner family" using that by (rule sqlDecide_tokClaim [OF inv])
  show "db' = tokIssue fresh d (tsDb \<sigma>)"
    if "sqlIssue fresh d (tsDb \<sigma>) = Inr db'" using that by (rule sqlIssue_tokIssue)
qed (rule sqlRevoke_tokRevoke [OF tokInv_wf [OF tokInv_reach [OF assms]]] sqlPrune_tokPrune [OF tokInv_wf [OF tokInv_reach [OF assms]]])+

theorem token_stores_agree_witness:
  "tokenReach exHolding \<and> tsPhase exHolding 0 = FamilyLocked ''t'' exToken exOwner exFamily \<and>
   sqlDecide exOwner 1 ''t'' exToken exFamily (tsDb exHolding) = tokClaim ((tsUsers exHolding)(''u'' \<mapsto> exOwner)) 1 ''t'' (tsDb exHolding) \<and>
   sqlRevoke 1 ''t'' (tsDb exHolding) = tokRevoke 1 ''t'' (tsDb exHolding) \<and>
   sqlPrune 10 (tsDb exHolding) = tokPrune 10 (tsDb exHolding)"
proof -
  have phase: "tsPhase exHolding 0 = FamilyLocked ''t'' exToken exOwner exFamily" by (simp add: exHolding_def)
  then show ?thesis
    using exHolding_reach token_stores_agree [where \<sigma> = exHolding and s = 0 and token = "''t''" and row = exToken and owner = exOwner
        and family = exFamily and now = 1 and u = "''t''" and before = 10]
    by (simp add: exToken_def)
qed

text \<open>
  C18. However any number of claim transactions interleave with sign-outs, pruning, account changes
  and new tokens: a token is claimed at most once; a replay is reported only for a token that was
  claimed before; each family's compromise is reported once; and once it is reported no token of
  that family, issued before or after, is ever claimed.
\<close>

theorem refresh_claims_exclusive:
  assumes "tokenReach \<sigma>" and "tsAnswers \<sigma> = before @ (token, claim) # later"
  shows "case claim of
      Claimed c \<Rightarrow> (\<forall>c'. (token, Claimed c') \<notin> set before) \<and> (\<forall>u r. (u, Reused r) \<in> set before \<longrightarrow> reFamilyId r \<noteq> ctFamilyId c)
    | Reused r \<Rightarrow> (\<exists>c. (token, Claimed c) \<in> set before) \<and> (\<forall>u r'. (u, Reused r') \<in> set before \<longrightarrow> reFamilyId r' \<noteq> reFamilyId r)
    | _ \<Rightarrow> True"
proof -
  have "historyOk [] (before @ (token, claim) # later)" using tokInv_reach [OF assms(1)] assms(2) by (simp add: tokInv_def)
  then have "justified before (token, claim)" using historyOk_split by fastforce
  then show ?thesis by (cases claim) auto
qed

theorem refresh_claims_exclusive_witness:
  "tokenReach exReused \<and> (\<exists>c. (''t'', Claimed c) \<in> set (butlast (tsAnswers exReused))) \<and>
   last (tsAnswers exReused) = (''t'', Reused \<lparr>reFamilyId = ''f'', reUserId = ''u'', reRevokedTokens = 0\<rparr>)"
proof -
  have ans: "tsAnswers exReused = tsAnswers exClaimed @ (''t'', Reused \<lparr>reFamilyId = ''f'', reUserId = ''u'', reRevokedTokens = 0\<rparr>) # []"
    by (simp add: exReused_def answerClaim_def)
  from refresh_claims_exclusive [OF exReused_reach ans]
  show ?thesis using exReused_reach by (simp add: ans)
qed

end
