(* ===== verification/Sessions.thy ===== *)
theory Sessions
  imports RefreshTokens AuditLog
begin

text \<open>
  Sign-in sessions: the token half of \<open>auth/auth.service.ts\<close>, over the refresh-token store of
  \<open>RefreshTokens\<close> and the audit table of \<open>AuditLog\<close>. The store's claim is the one-step
  \<open>tokClaim\<close>, which is what a claim transaction does by \<open>sqlDecide_tokClaim\<close>. The JWT signer, the
  password check, the tenant in scope, the clock and the random ids of a request are in its
  \<open>requestEnv\<close>; \<open>rqAuditUp\<close> says whether the database accepts the audit transaction.
\<close>

record jwtPayload =
  jpSub :: string
  jpEmail :: string
  jpRole :: string
  jpTid :: string

record tokenPair =
  tpAccessToken :: string
  tpRefreshToken :: string
  tpExpiresIn :: nat

datatype authError = InvalidCredentials | InvalidRefreshToken | RefreshTokenExpired | MissingTenantContext | TokenStoreError tokenError

record authAccount =
  aaId :: string
  aaEmail :: string
  aaRole :: string
  aaPassword :: "string option"

record authState =
  auDb :: tokenDb
  auUsers :: "authAccount list"
  auAudit :: "auditEntry list"

record requestEnv =
  rqNow :: int
  rqDate :: utcDate
  rqTenant :: "string option"
  rqRefreshExpiry :: "string option"
  rqToken :: string
  rqFamily :: string
  rqAuditUp :: bool
  rqSign :: "jwtPayload \<Rightarrow> string"
  rqVerify :: "string \<Rightarrow> string \<Rightarrow> bool"
  rqHash :: "string \<Rightarrow> string"

text \<open>\<open>ms\<close>: a count and a unit, or fifteen minutes.\<close>

definition msUnits :: "char \<Rightarrow> int option" where
  "msUnits = map_of [(CHR ''s'', 1000), (CHR ''m'', 60000), (CHR ''h'', 3600000), (CHR ''d'', 86400000)]"

definition ms :: "string \<Rightarrow> int" where
  "ms s = (let digits = butlast s in
     if length s \<ge> 2 \<and> list_all isDigit digits
     then (case msUnits (last s) of
         Some u \<Rightarrow> int (foldl (\<lambda>n c. 10 * n + digitVal c) 0 digits) * u
       | None \<Rightarrow> 900000)
     else 900000)"

definition ownersOf :: "authAccount list \<Rightarrow> string \<rightharpoonup> tokenOwner" where
  "ownersOf users uid = map_option (\<lambda>a. \<lparr>owEmail = aaEmail a, owRole = aaRole a\<rparr>) (find (\<lambda>a. aaId a = uid) users)"

definition issueTokens :: "requestEnv \<Rightarrow> string \<Rightarrow> string \<Rightarrow> string \<Rightarrow> string option \<Rightarrow> authState \<Rightarrow> (authError + tokenPair) \<times> authState" where
  "issueTokens env userId email role familyId st = (case rqTenant env of
     None \<Rightarrow> (Inl MissingTenantContext, st)
   | Some tid \<Rightarrow>
       (let accessToken = rqSign env \<lparr>jpSub = userId, jpEmail = email, jpRole = role, jpTid = tid\<rparr>;
            refreshExpiry = (case rqRefreshExpiry env of Some e \<Rightarrow> e | None \<Rightarrow> ''7d'');
            d = \<lparr>isToken = rqToken env, isUserId = userId, isExpiresAt = rqNow env + ms refreshExpiry, isFamilyId = familyId\<rparr>
        in case sqlIssue (rqFamily env) d (auDb st) of
          Inl e \<Rightarrow> (Inl (TokenStoreError e), st)
        | Inr db' \<Rightarrow> (Inr \<lparr>tpAccessToken = accessToken, tpRefreshToken = rqToken env, tpExpiresIn = 900\<rparr>, st\<lparr>auDb := db'\<rparr>)))"

definition login :: "requestEnv \<Rightarrow> string \<Rightarrow> string \<Rightarrow> authState \<Rightarrow> (authError + tokenPair) \<times> authState" where
  "login env email password st = (case find (\<lambda>a. aaEmail a = email) (auUsers st) of
     None \<Rightarrow> (Inl InvalidCredentials, st)
   | Some user \<Rightarrow> (case aaPassword user of
       None \<Rightarrow> (Inl InvalidCredentials, st)
     | Some hash \<Rightarrow> if hash = [] \<or> \<not> rqVerify env hash password then (Inl InvalidCredentials, st)
         else issueTokens env (aaId user) (aaEmail user) (aaRole user) None st))"

definition reuseDraft :: "requestEnv \<Rightarrow> tokenReuse \<Rightarrow> newAuditEntry" where
  "reuseDraft env reuse = recordAudit ''auth.refresh_token_reuse_detected'' (reFamilyId reuse)
     (VObj [(''userId'', VStr (reUserId reuse)), (''revokedTokens'', VNum (int (reRevokedTokens reuse)))]) None None (rqDate env)"

definition recordReuse :: "requestEnv \<Rightarrow> tokenReuse \<Rightarrow> authState \<Rightarrow> authState" where
  "recordReuse env reuse st = st\<lparr>auAudit := sqlTransaction (rqHash env) ([reuseDraft env reuse], rqAuditUp env) (auAudit st)\<rparr>"

definition refresh :: "requestEnv \<Rightarrow> string \<Rightarrow> authState \<Rightarrow> (authError + tokenPair) \<times> authState" where
  "refresh env token st = (case tokClaim (ownersOf (auUsers st)) (rqNow env) token (auDb st) of
     (Unknown, db') \<Rightarrow> (Inl InvalidRefreshToken, st\<lparr>auDb := db'\<rparr>)
   | (Revoked, db') \<Rightarrow> (Inl InvalidRefreshToken, st\<lparr>auDb := db'\<rparr>)
   | (Reused reuse, db') \<Rightarrow> (Inl InvalidRefreshToken, recordReuse env reuse (st\<lparr>auDb := db'\<rparr>))
   | (Claimed c, db') \<Rightarrow>
       if ctExpiresAt c < rqNow env then (Inl RefreshTokenExpired, st\<lparr>auDb := db'\<rparr>)
       else issueTokens env (ctUserId c) (ctEmail c) (ctRole c) (Some (ctFamilyId c)) (st\<lparr>auDb := db'\<rparr>))"

definition logout :: "requestEnv \<Rightarrow> string \<Rightarrow> authState \<Rightarrow> authState" where
  "logout env token st = st\<lparr>auDb := tokRevoke (rqNow env) token (auDb st)\<rparr>"

text \<open>The requests of the auth controller that end in these operations, and the sweep.\<close>

datatype authRequest = LoginReq string string | RefreshReq string | LogoutReq string | PruneReq int

fun authHandle :: "requestEnv \<times> authRequest \<Rightarrow> authState \<Rightarrow> (authError + tokenPair option) \<times> authState" where
  "authHandle (env, LoginReq email password) st = map_prod (map_sum (\<lambda>e. e) Some) (\<lambda>s. s) (login env email password st)"
| "authHandle (env, RefreshReq token) st = map_prod (map_sum (\<lambda>e. e) Some) (\<lambda>s. s) (refresh env token st)"
| "authHandle (env, LogoutReq token) st = (Inr None, logout env token st)"
| "authHandle (env, PruneReq before) st = (Inr None, st\<lparr>auDb := snd (sqlPrune before (auDb st))\<rparr>)"

definition authRun :: "(requestEnv \<times> authRequest) list \<Rightarrow> authState \<Rightarrow> authState" where
  "authRun reqs st = fold (\<lambda>rq s. snd (authHandle rq s)) reqs st"

section \<open>A session whose family is over\<close>

definition familyOver :: "string \<Rightarrow> tokenDb \<Rightarrow> bool" where
  "familyOver fid db = (\<forall>f. familyOf fid db = Some f \<longrightarrow> fmRevoked f \<noteq> None)"

lemma familyOver_shrinks: "dbShrinks db db' \<Longrightarrow> familyOver fid db \<Longrightarrow> familyOver fid db'"
  by (fastforce simp: familyOver_def dbShrinks_def)

lemma sqlIssue_over:
  assumes "sqlIssue fresh d db = Inr db'" and "fresh \<noteq> fid" and "rowsDistinct db" and "familyOver fid db"
  shows "familyOver fid db' \<and> rowsDistinct db'"
proof (cases "isFamilyId d")
  case None
  show ?thesis using sqlIssue_new(3,4) [OF None assms(1)] assms(2-4) by (simp add: familyOver_def)
next
  case (Some f)
  show ?thesis using sqlIssue_into(3,5) [OF Some assms(1)] assms(3,4) by (simp add: familyOver_def)
qed

lemma tokClaim_over:
  assumes "rowsDistinct db" and "familyOver fid db"
  shows "familyOver fid (snd (tokClaim owners now token db)) \<and> rowsDistinct (snd (tokClaim owners now token db))"
  using assms dropFamilies_shrinks [OF assms(1)]
  by (auto simp: tokClaim_def familyOver_shrinks familyOver_def familyOf_revokeRow familyOf_dropFamilies split: option.splits)

lemma issueTokens_over:
  assumes "rqFamily env \<noteq> fid" and "rowsDistinct (auDb st)" and "familyOver fid (auDb st)"
  shows "familyOver fid (auDb (snd (issueTokens env u e r f st))) \<and> rowsDistinct (auDb (snd (issueTokens env u e r f st)))"
  using assms sqlIssue_over [OF _ assms] by (auto simp: issueTokens_def Let_def split: option.splits sum.splits)

lemma tokRevoke_over:
  assumes "rowsDistinct db" and "familyOver fid db"
  shows "familyOver fid (tokRevoke now token db) \<and> rowsDistinct (tokRevoke now token db)"
  using assms by (auto simp: tokRevoke_def familyOver_def familyOf_revokeRow split: option.splits)

lemma refresh_over:
  assumes "rqFamily env \<noteq> fid" and "rowsDistinct (auDb st)" and "familyOver fid (auDb st)"
  shows "familyOver fid (auDb (snd (refresh env token st))) \<and> rowsDistinct (auDb (snd (refresh env token st)))"
proof -
  obtain claim db' where c: "tokClaim (ownersOf (auUsers st)) (rqNow env) token (auDb st) = (claim, db')" by fastforce
  have db': "familyOver fid db'" "rowsDistinct db'"
    using tokClaim_over [OF assms(2,3), of "ownersOf (auUsers st)" "rqNow env" token] c by simp_all
  then show ?thesis using issueTokens_over [OF assms(1), of "st\<lparr>auDb := db'\<rparr>"] c
    by (auto simp: refresh_def recordReuse_def split: tokenClaim.splits)
qed

lemma authHandle_over:
  assumes "rqFamily env \<noteq> fid" and "rowsDistinct (auDb st)" and "familyOver fid (auDb st)"
  shows "familyOver fid (auDb (snd (authHandle (env, rq) st))) \<and> rowsDistinct (auDb (snd (authHandle (env, rq) st)))"
proof (cases rq)
  case (LoginReq email password)
  then show ?thesis using assms issueTokens_over [OF assms] by (auto simp: login_def split: option.splits)
next
  case (RefreshReq token)
  then show ?thesis using refresh_over [OF assms] by simp
next
  case (LogoutReq token)
  then show ?thesis using tokRevoke_over [OF assms(2,3)] by (simp add: logout_def)
next
  case (PruneReq before)
  obtain gone where "snd (sqlPrune before (auDb st)) = dropFamilies gone (auDb st)" using sqlPrune_snd by blast
  then show ?thesis using PruneReq assms familyOver_shrinks [OF dropFamilies_shrinks [OF assms(2)]] by simp
qed

lemma authRun_over:
  assumes "\<forall>rq \<in> set reqs. rqFamily (fst rq) \<noteq> fid" and "rowsDistinct (auDb st)" and "familyOver fid (auDb st)"
  shows "familyOver fid (auDb (authRun reqs st)) \<and> rowsDistinct (auDb (authRun reqs st))"
  using assms
proof (induction reqs arbitrary: st)
  case (Cons rq reqs)
  obtain env r where rq: "rq = (env, r)" by fastforce
  have "rqFamily env \<noteq> fid" using Cons.prems(1) rq by simp
  then show ?case using Cons authHandle_over [OF _ Cons.prems(2,3), of env r] rq by (simp add: authRun_def)
qed (simp add: authRun_def)

text \<open>No token of such a family is exchanged, and none is reported.\<close>

lemma refresh_refused:
  assumes "familyOver fid (auDb st)" and "\<forall>row. tokenOf token (auDb st) = Some row \<longrightarrow> tkFamilyId row = fid"
  shows "fst (refresh env token st) = Inl InvalidRefreshToken \<and> auAudit (snd (refresh env token st)) = auAudit st"
  using assms by (auto simp: refresh_def tokClaim_def familyOver_def split: option.splits)

text \<open>The presentation that finds the replay.\<close>

lemma refresh_replay:
  assumes "tokenOf token (auDb st) = Some row" and "tkConsumedAt row \<noteq> None" and "familyOf (tkFamilyId row) (auDb st) = Some family"
    and "fmRevoked family = None" and "ownersOf (auUsers st) (tkUserId row) \<noteq> None"
  shows "refresh env token st = (Inl InvalidRefreshToken,
      recordReuse env \<lparr>reFamilyId = tkFamilyId row, reUserId = fmUserId family, reRevokedTokens = unspentIn (tkFamilyId row) (auDb st)\<rparr>
        (st\<lparr>auDb := revokeRow (rqNow env) ReuseDetected (tkFamilyId row) (auDb st)\<rparr>))"
  using assms by (auto simp: refresh_def tokClaim_def)

lemma recordReuse_entry:
  assumes "\<And>p. isChainHash (rqHash env p)" and "chainTable (rqHash env) (auAudit st)" and "rqAuditUp env"
  shows "\<exists>e. sort_key heSeq (auAudit (recordReuse env reuse st)) = sort_key heSeq (auAudit st) @ [e] \<and> records e (reuseDraft env reuse)"
proof -
  have "recordable (reuseDraft env reuse)" by (simp add: recordable_def reuseDraft_def recordAudit_def auditActions_def)
  then obtain table' new where t: "sqlAppendAll (rqHash env) [reuseDraft env reuse] (auAudit st) = Inr table'"
    "sort_key heSeq table' = sort_key heSeq (auAudit st) @ new" "list_all2 records new [reuseDraft env reuse]"
    using sqlAppendAll_records [OF assms(1,2), of "[reuseDraft env reuse]"] by auto
  from t(3) obtain e where "new = [e]" "records e (reuseDraft env reuse)" by (auto simp: list_all2_Cons2)
  then show ?thesis using t assms(3) by (auto simp: recordReuse_def sqlTransaction_def)
qed

text \<open>A spent token of a family that was revoked before, by a sign-out or an earlier replay, is refused and nothing is written.\<close>

lemma refresh_revoked:
  assumes "tokenOf token (auDb st) = Some row" and "familyOf (tkFamilyId row) (auDb st) = Some family" and "fmRevoked family \<noteq> None"
    and "ownersOf (auUsers st) (tkUserId row) \<noteq> None"
  shows "refresh env token st = (Inl InvalidRefreshToken, st)"
  using assms by (auto simp: refresh_def tokClaim_def)

lemma recordReuse_down: "\<not> rqAuditUp env \<Longrightarrow> auAudit (recordReuse env reuse st) = auAudit st"
  by (simp add: recordReuse_def sqlTransaction_def split: sum.splits)


text \<open>A chain of two tokens of which the first is presented again, and then the second.\<close>

definition exEnv :: "requestEnv" where
  "exEnv = \<lparr>rqNow = 5, rqDate = sampleDate, rqTenant = Some ''acme'', rqRefreshExpiry = None, rqToken = ''n'', rqFamily = ''g'',
     rqAuditUp = True, rqSign = jpSub, rqVerify = (\<lambda>h p. h = p), rqHash = sampleHash\<rparr>"

definition exRotated :: "authState" where
  "exRotated = \<lparr>auDb = \<lparr>dbTokens = [(''t'', exToken\<lparr>tkConsumedAt := Some 1\<rparr>), (''t2'', exToken)], dbFamilies = [(''f'', exFamily)]\<rparr>,
     auUsers = [\<lparr>aaId = ''u'', aaEmail = ''a'', aaRole = ''USER'', aaPassword = Some ''pw''\<rparr>], auAudit = []\<rparr>"

definition exReplayed :: "authState" where
  "exReplayed = snd (refresh exEnv ''t'' exRotated)"

lemma exReplayed_token: "tokenOf token (auDb (authRun [(exEnv, LoginReq ''a'' ''pw'')] exReplayed)) = Some row \<Longrightarrow> token = ''t2'' \<Longrightarrow> tkFamilyId row = ''f''"
  by (auto simp: exReplayed_def authRun_def refresh_def tokClaim_def exRotated_def ownersOf_def recordReuse_def login_def issueTokens_def
      sqlIssue_def exEnv_def Let_def ex_defs revokeRow_def newToken_def split: if_splits)


text \<open>
  The expiry check comes after the claim, so a token that expired unused is spent by the refusal;
  its only holder, trying again, is recorded as a replay.
\<close>

lemma expired_retry_is_a_replay:
  assumes "tokenOf token (auDb st) = Some row" and "tkConsumedAt row = None" and "familyOf (tkFamilyId row) (auDb st) = Some family"
    and "fmRevoked family = None" and "ownersOf (auUsers st) (tkUserId row) \<noteq> None" and "tkExpiresAt row < rqNow env"
  shows "fst (refresh env token st) = Inl RefreshTokenExpired \<and>
    snd (refresh env' token (snd (refresh env token st))) = recordReuse env'
      \<lparr>reFamilyId = tkFamilyId row, reUserId = fmUserId family, reRevokedTokens = unspentIn (tkFamilyId row) (spendRow (rqNow env) token (auDb st))\<rparr>
      (st\<lparr>auDb := revokeRow (rqNow env') ReuseDetected (tkFamilyId row) (spendRow (rqNow env) token (auDb st))\<rparr>)"
proof -
  obtain owner where o: "ownersOf (auUsers st) (tkUserId row) = Some owner" using assms(5) by blast
  have first: "refresh env token st = (Inl RefreshTokenExpired, st\<lparr>auDb := spendRow (rqNow env) token (auDb st)\<rparr>)"
    using assms o by (simp add: refresh_def tokClaim_def claimOf_def)
  have row: "tokenOf token (spendRow (rqNow env) token (auDb st)) = Some (row\<lparr>tkConsumedAt := Some (rqNow env)\<rparr>)"
    using assms(1) by (simp add: tokenOf_spendRow)
  show ?thesis
    using refresh_replay [of token "st\<lparr>auDb := spendRow (rqNow env) token (auDb st)\<rparr>" _ family env', OF _ _ _ assms(4)] row assms(3) o first
    by simp
qed

text \<open>A live token is exchanged for one of the same family, which is then the live one.\<close>

lemma refresh_rotates:
  assumes "tokenOf token (auDb st) = Some row" and "tkConsumedAt row = None" and "familyOf (tkFamilyId row) (auDb st) = Some family"
    and "fmRevoked family = None" and "ownersOf (auUsers st) (tkUserId row) \<noteq> None" and "\<not> tkExpiresAt row < rqNow env"
    and "rqTenant env \<noteq> None" and "tokenOf (rqToken env) (auDb st) = None"
  shows "\<exists>pair. fst (refresh env token st) = Inr pair \<and> tpRefreshToken pair = rqToken env \<and>
    tokHas (rqToken env) (auDb (snd (refresh env token st))) \<and> \<not> tokHas token (auDb (snd (refresh env token st)))"
proof -
  obtain owner tid where o: "ownersOf (auUsers st) (tkUserId row) = Some owner" and tid: "rqTenant env = Some tid" using assms(5,7) by blast
  let ?db = "spendRow (rqNow env) token (auDb st)"
  let ?d = "\<lparr>isToken = rqToken env, isUserId = tkUserId row, isExpiresAt = rqNow env + ms (case rqRefreshExpiry env of Some e \<Rightarrow> e | None \<Rightarrow> ''7d''),
      isFamilyId = Some (tkFamilyId row)\<rparr>"
  obtain db' where i: "sqlIssue (rqFamily env) ?d ?db = Inr db'"
    using assms(3,8) by (auto simp: sqlIssue_def tokenOf_spendRow)
  have claim: "tokClaim (ownersOf (auUsers st)) (rqNow env) token (auDb st) = (Claimed (claimOf (tkUserId row) owner row), ?db)"
    using assms(1-4) o by (simp add: tokClaim_def)
  have "snd (refresh env token st) = st\<lparr>auDb := db'\<rparr>" and "\<exists>pair. fst (refresh env token st) = Inr pair \<and> tpRefreshToken pair = rqToken env"
    using claim i assms(6) tid by (simp_all add: refresh_def issueTokens_def claimOf_def Let_def)
  moreover note into = sqlIssue_into(2,3) [OF _ i, of "tkFamilyId row"]
  have "tokHas (rqToken env) db'" "\<not> tokHas token db'"
    using assms(1,3,4,8) by (auto simp: tokHas_def into newToken_def tokenOf_spendRow)
  ultimately show ?thesis by simp
qed

end
