(* ===== verification/Outbox.thy ===== *)
theory Outbox
  imports Backoff AuditHash "HOL-Library.Product_Lexorder"
begin

text \<open>
  The transactional outbox: the event catalogue of \<open>events/domain-event.ts\<close>, the two stores
  (\<open>outbox/prisma-outbox.store.ts\<close>, \<open>test-utils/in-memory-outbox.store.ts\<close>), staging
  (\<open>outbox/transactional-outbox.service.ts\<close>) and the relay (\<open>outbox/outbox-relay.service.ts\<close>).

  What a publish does is the environment's: an answer, and how long it took. \<open>deliver\<close> races it
  against the publish timeout. A pass over the table is first one function (\<open>sqlDrain\<close>,
  \<open>memDrain\<close>); then \<open>relayStep\<close> interleaves the passes of any number of relays with staging,
  each pass holding the locks of the rows it claimed and writing only when it commits.
\<close>

section \<open>Events and rows\<close>

definition domainEventNames :: "string list" where
  "domainEventNames = [''user.registered'', ''user.deleted'', ''order.placed'', ''order.confirmed'', ''order.cancelled'']"

definition isDomainEventName :: "string \<Rightarrow> bool" where
  "isDomainEventName value \<longleftrightarrow> value \<in> set domainEventNames"

datatype outboxStatus = ObPending | ObPublished | ObDead

record newOutboxEvent =
  neEventId :: string
  neName :: string
  nePayload :: jsValue
  neCorrelation :: "string option"
  neTrace :: "string option \<times> string option"
  neAt :: int

record outboxRow =
  obId :: string
  obEvent :: newOutboxEvent
  obStatus :: outboxStatus
  obAttempts :: nat
  obNextAttemptAt :: int
  obLastError :: "string option"
  obPublishedAt :: "int option"

datatype disposition = DPublished | DRetry int string | DDead string

record outboxOutcome =
  ooEventId :: string
  ooName :: string
  ooDisposition :: disposition

record drainReport =
  drClaimed :: nat
  drOutcomes :: "outboxOutcome list"

definition stagedRow :: "string \<Rightarrow> int \<Rightarrow> newOutboxEvent \<Rightarrow> outboxRow" where
  "stagedRow rowId dueFrom event = \<lparr>obId = rowId, obEvent = event, obStatus = ObPending, obAttempts = 0,
     obNextAttemptAt = dueFrom, obLastError = None, obPublishedAt = None\<rparr>"

text \<open>The Postgres row is due from the database's clock, the in-memory one from the event's time.\<close>

definition sqlStage :: "string \<Rightarrow> int \<Rightarrow> newOutboxEvent \<Rightarrow> outboxRow list \<Rightarrow> outboxRow list" where
  "sqlStage rowId dbNow event table = table @ [stagedRow rowId dbNow event]"

definition memStageOutbox :: "nat \<Rightarrow> newOutboxEvent \<Rightarrow> outboxRow list \<Rightarrow> outboxRow list" where
  "memStageOutbox sequence event rows = rows @ [stagedRow (''outbox-'' @ decString sequence) (neAt event) event]"

definition memUnstageOutbox :: "outboxRow \<Rightarrow> outboxRow list \<Rightarrow> outboxRow list" where
  "memUnstageOutbox row rows = remove1 row rows"

text \<open>\<open>TransactionalOutbox.stage\<close>; \<open>valid\<close> is \<open>EventContract.validate\<close>.\<close>

definition outboxStage :: "(string \<Rightarrow> jsValue \<Rightarrow> 'e + nat) \<Rightarrow> string \<Rightarrow> string \<Rightarrow> jsValue \<Rightarrow> string option
    \<Rightarrow> int \<Rightarrow> string option \<times> string option \<Rightarrow> 'e + newOutboxEvent" where
  "outboxStage valid uuid name payload correlationId now carrier =
     rbind (valid name payload) (\<lambda>_. Inr \<lparr>neEventId = uuid, neName = name, nePayload = payload,
       neCorrelation = correlationId, neTrace = carrier, neAt = now\<rparr>)"

section \<open>Delivering one row\<close>

record publishAnswer =
  paResult :: "string + unit"
  paAfterMs :: int

definition timeoutMessage :: "string \<Rightarrow> int \<Rightarrow> string" where
  "timeoutMessage eventId ms = ''Publishing outbox event '' @ eventId @ '' exceeded '' @ intString ms @ ''ms''"

text \<open>\<open>OutboxRelayService.deliver\<close>: what the race settles with, and when.\<close>

definition deliver :: "int \<Rightarrow> string \<Rightarrow> publishAnswer \<Rightarrow> (string + unit) \<times> int" where
  "deliver publishTimeoutMs eventId a =
     (if paAfterMs a \<le> publishTimeoutMs then (paResult a, paAfterMs a)
      else (Inl (timeoutMessage eventId publishTimeoutMs), publishTimeoutMs))"

definition unknownEventMessage :: "newOutboxEvent \<Rightarrow> string" where
  "unknownEventMessage e = ''Outbox event '' @ neEventId e @ '' names '' @ [CHR 0x22] @ neName e @ [CHR 0x22]
     @ '', which is not in DomainEventPayloads. It was staged by a build that knew this event and cannot be published by this one.''"

definition outcomeOf :: "outboxRow \<Rightarrow> disposition \<Rightarrow> outboxOutcome" where
  "outcomeOf row d = \<lparr>ooEventId = neEventId (obEvent row), ooName = neName (obEvent row), ooDisposition = d\<rparr>"

definition markDead :: "string \<Rightarrow> outboxRow \<Rightarrow> outboxRow" where
  "markDead err row = row\<lparr>obStatus := ObDead, obAttempts := obAttempts row + 1, obLastError := Some (truncateTo 500 err)\<rparr>"

definition sqlDeliverOne :: "int \<Rightarrow> (nat \<Rightarrow> int option) \<Rightarrow> outboxRow \<Rightarrow> string + unit \<Rightarrow> outboxRow \<times> outboxOutcome" where
  "sqlDeliverOne now retryAt row answer =
     (if \<not> isDomainEventName (neName (obEvent row))
      then (markDead (unknownEventMessage (obEvent row)) row, outcomeOf row (DDead (unknownEventMessage (obEvent row))))
      else case answer of
        Inr _ \<Rightarrow> (row\<lparr>obStatus := ObPublished, obPublishedAt := Some now, obAttempts := obAttempts row + 1\<rparr>, outcomeOf row DPublished)
      | Inl err \<Rightarrow> (case retryAt (obAttempts row + 1) of
          None \<Rightarrow> (markDead err row, outcomeOf row (DDead err))
        | Some at' \<Rightarrow> (row\<lparr>obAttempts := obAttempts row + 1, obNextAttemptAt := at', obLastError := Some (truncateTo 500 err)\<rparr>,
            outcomeOf row (DRetry at' err))))"

definition memDeliverOne :: "int \<Rightarrow> (nat \<Rightarrow> int option) \<Rightarrow> outboxRow \<Rightarrow> string + unit \<Rightarrow> outboxRow \<times> outboxOutcome" where
  "memDeliverOne now retryAt row answer =
     (if \<not> isDomainEventName (neName (obEvent row))
      then (row\<lparr>obStatus := ObDead, obAttempts := obAttempts row + 1, obLastError := Some (unknownEventMessage (obEvent row))\<rparr>,
            outcomeOf row (DDead (unknownEventMessage (obEvent row))))
      else case answer of
        Inr _ \<Rightarrow> (row\<lparr>obStatus := ObPublished, obAttempts := obAttempts row + 1\<rparr>, outcomeOf row DPublished)
      | Inl err \<Rightarrow>
          (let row = row\<lparr>obAttempts := obAttempts row + 1, obLastError := Some err\<rparr> in
           case retryAt (obAttempts row) of
             None \<Rightarrow> (row\<lparr>obStatus := ObDead\<rparr>, outcomeOf row (DDead err))
           | Some at' \<Rightarrow> (row\<lparr>obNextAttemptAt := at'\<rparr>, outcomeOf row (DRetry at' err))))"

section \<open>One pass\<close>

definition outboxOrder :: "outboxRow \<Rightarrow> int \<times> string" where
  "outboxOrder row = (neAt (obEvent row), obId row)"

definition isDue :: "int \<Rightarrow> outboxRow \<Rightarrow> bool" where
  "isDue now row \<longleftrightarrow> obStatus row = ObPending \<and> obNextAttemptAt row \<le> now"

definition claimRows :: "int \<Rightarrow> nat \<Rightarrow> (string \<Rightarrow> bool) \<Rightarrow> outboxRow list \<Rightarrow> outboxRow list" where
  "claimRows now batchSize locked table =
     take batchSize (sort_key outboxOrder (filter (\<lambda>row. isDue now row \<and> \<not> locked (obId row)) table))"

definition writeRow :: "outboxRow \<Rightarrow> outboxRow list \<Rightarrow> outboxRow list" where
  "writeRow row table = map (\<lambda>r. if obId r = obId row then row else r) table"

record relayConfig =
  rcBatchSize :: nat
  rcPublishTimeoutMs :: int
  rcPolicy :: backoffPolicy

definition retryAtOf :: "relayConfig \<Rightarrow> int \<Rightarrow> rat \<Rightarrow> nat \<Rightarrow> int option" where
  "retryAtOf cfg now random attempts = nextAttemptAt now attempts (rcPolicy cfg) random"

text \<open>
  The deliveries of a pass, one row after the other: the answer to each publish and the jitter
  drawn for it are functions of the row's id. The result carries the rows to write, the outcomes
  and the time the pass has taken.
\<close>

fun deliverRows :: "(int \<Rightarrow> (nat \<Rightarrow> int option) \<Rightarrow> outboxRow \<Rightarrow> string + unit \<Rightarrow> outboxRow \<times> outboxOutcome)
    \<Rightarrow> relayConfig \<Rightarrow> int \<Rightarrow> (string \<Rightarrow> publishAnswer) \<Rightarrow> (string \<Rightarrow> rat) \<Rightarrow> outboxRow list
    \<Rightarrow> outboxRow list \<times> outboxOutcome list \<times> int" where
  "deliverRows one cfg now answers random [] = ([], [], 0)"
| "deliverRows one cfg now answers random (row # rows) =
     (let (answer, took) = (if isDomainEventName (neName (obEvent row))
            then deliver (rcPublishTimeoutMs cfg) (neEventId (obEvent row)) (answers (obId row)) else (Inr (), 0));
          (row', outcome) = one now (retryAtOf cfg now (random (obId row))) row answer;
          (written, outcomes, rest) = deliverRows one cfg now answers random rows
      in (row' # written, outcome # outcomes, took + rest))"

definition drainTimeoutMs :: int where
  "drainTimeoutMs = 30000"

datatype drainError = TransactionClosed

text \<open>The Postgres pass: a transaction that outlives its timeout is rolled back as a whole.\<close>

definition sqlDrain :: "relayConfig \<Rightarrow> int \<Rightarrow> (string \<Rightarrow> bool) \<Rightarrow> (string \<Rightarrow> publishAnswer) \<Rightarrow> (string \<Rightarrow> rat) \<Rightarrow> outboxRow list
    \<Rightarrow> (drainError + drainReport) \<times> outboxRow list" where
  "sqlDrain cfg now locked answers random table =
     (let rows = claimRows now (rcBatchSize cfg) locked table;
          (written, outcomes, took) = deliverRows sqlDeliverOne cfg now answers random rows
      in if took > drainTimeoutMs then (Inl TransactionClosed, table)
         else (Inr \<lparr>drClaimed = length rows, drOutcomes = outcomes\<rparr>, fold writeRow written table))"

definition memDrain :: "relayConfig \<Rightarrow> int \<Rightarrow> (string \<Rightarrow> bool) \<Rightarrow> (string \<Rightarrow> publishAnswer) \<Rightarrow> (string \<Rightarrow> rat) \<Rightarrow> outboxRow list
    \<Rightarrow> drainReport \<times> outboxRow list" where
  "memDrain cfg now locked answers random table =
     (let rows = claimRows now (rcBatchSize cfg) locked table;
          (written, outcomes, took) = deliverRows memDeliverOne cfg now answers random rows
      in (\<lparr>drClaimed = length rows, drOutcomes = outcomes\<rparr>, fold writeRow written table))"

text \<open>\<open>tick\<close>: a failed pass is logged and the next one is scheduled.\<close>

definition relayTick :: "relayConfig \<Rightarrow> int \<times> (string \<Rightarrow> publishAnswer) \<times> (string \<Rightarrow> rat) \<Rightarrow> outboxRow list \<Rightarrow> outboxRow list" where
  "relayTick cfg tick table = (case tick of (now, answers, random) \<Rightarrow> snd (sqlDrain cfg now (\<lambda>i. False) answers random table))"

definition outboxCounts :: "outboxRow list \<Rightarrow> outboxStatus \<Rightarrow> nat" where
  "outboxCounts table status = length (filter (\<lambda>r. obStatus r = status) table)"

section \<open>Writing the rows of a pass\<close>

definition rewritten :: "outboxRow list \<Rightarrow> outboxRow \<Rightarrow> outboxRow" where
  "rewritten ws r = (case find (\<lambda>w. obId w = obId r) ws of Some w \<Rightarrow> w | None \<Rightarrow> r)"

lemma obId_rewritten [simp]: "obId (rewritten ws r) = obId r"
  by (auto simp: rewritten_def find_Some_iff split: option.splits)

lemma rewritten_cases: "rewritten ws r = r \<or> (rewritten ws r \<in> set ws \<and> obId (rewritten ws r) = obId r)"
  by (auto simp: rewritten_def find_Some_iff split: option.splits)

lemma rewritten_other: "obId r \<notin> obId ` set ws \<Longrightarrow> rewritten ws r = r"
  by (auto simp: rewritten_def find_None_iff find_Some_iff split: option.splits) (metis image_eqI nth_mem)

lemma fold_writeRow: "distinct (map obId ws) \<Longrightarrow> fold writeRow ws table = map (rewritten ws) table"
proof (induction ws arbitrary: table)
  case Nil
  then show ?case by (simp add: rewritten_def map_idI)
next
  case (Cons w ws)
  have "rewritten ws (if obId r = obId w then w else r) = rewritten (w # ws) r" for r
    using Cons.prems rewritten_other [of w ws] by (auto simp: rewritten_def)
  then show ?case using Cons by (simp add: writeRow_def)
qed

section \<open>Any number of relays\<close>

record relayPass =
  rpNow :: int
  rpTodo :: "outboxRow list"
  rpDone :: "outboxRow list"

record relayState =
  rlTable :: "outboxRow list"
  rlPass :: "nat \<Rightarrow> relayPass option"
  rlAccepted :: "newOutboxEvent list"
  rlStaged :: "(string \<times> newOutboxEvent) list"

definition passIds :: "relayPass \<Rightarrow> string list" where
  "passIds p = map obId (rpDone p @ rpTodo p)"

definition holds :: "relayState \<Rightarrow> nat \<Rightarrow> string \<Rightarrow> bool" where
  "holds \<sigma> s i = (case rlPass \<sigma> s of None \<Rightarrow> False | Some p \<Rightarrow> i \<in> set (passIds p))"

text \<open>
  A publish the broker accepted may still be answered too late, so \<open>accepted\<close> may hold when
  the answer is an error; an event this build does not know is never handed to the publisher.
\<close>

definition answerOk :: "outboxRow \<Rightarrow> string + unit \<Rightarrow> bool \<Rightarrow> bool" where
  "answerOk row answer accepted = ((accepted \<longrightarrow> isDomainEventName (neName (obEvent row))) \<and>
     (isDomainEventName (neName (obEvent row)) \<and> answer = Inr () \<longrightarrow> accepted))"

inductive relayStep :: "relayConfig \<Rightarrow> relayState \<Rightarrow> relayState \<Rightarrow> bool" for cfg where
  rsStage: "rowId \<notin> fst ` set (rlStaged \<sigma>) \<Longrightarrow>
    relayStep cfg \<sigma> (\<sigma>\<lparr>rlTable := sqlStage rowId dbNow event (rlTable \<sigma>), rlStaged := rlStaged \<sigma> @ [(rowId, event)]\<rparr>)"
| rsClaim: "rlPass \<sigma> s = None \<Longrightarrow> rows = claimRows now (rcBatchSize cfg) (\<lambda>i. \<exists>s'. holds \<sigma> s' i) (rlTable \<sigma>) \<Longrightarrow>
    relayStep cfg \<sigma> (\<sigma>\<lparr>rlPass := (rlPass \<sigma>)(s \<mapsto> \<lparr>rpNow = now, rpTodo = rows, rpDone = []\<rparr>)\<rparr>)"
| rsDeliver: "rlPass \<sigma> s = Some p \<Longrightarrow> rpTodo p = row # rest \<Longrightarrow> answerOk row answer accepted \<Longrightarrow>
    fst (sqlDeliverOne (rpNow p) (retryAtOf cfg (rpNow p) random) row answer) = row' \<Longrightarrow>
    relayStep cfg \<sigma> (\<sigma>\<lparr>rlPass := (rlPass \<sigma>)(s \<mapsto> p\<lparr>rpTodo := rest, rpDone := rpDone p @ [row']\<rparr>),
      rlAccepted := rlAccepted \<sigma> @ (if accepted then [obEvent row] else [])\<rparr>)"
| rsCommit: "rlPass \<sigma> s = Some p \<Longrightarrow> rpTodo p = [] \<Longrightarrow>
    relayStep cfg \<sigma> (\<sigma>\<lparr>rlTable := fold writeRow (rpDone p) (rlTable \<sigma>), rlPass := (rlPass \<sigma>)(s := None)\<rparr>)"
| rsAbort: "relayStep cfg \<sigma> (\<sigma>\<lparr>rlPass := (rlPass \<sigma>)(s := None)\<rparr>)"

definition relayStart :: relayState where
  "relayStart = \<lparr>rlTable = [], rlPass = (\<lambda>s. None), rlAccepted = [], rlStaged = []\<rparr>"

section \<open>What a row may say\<close>

definition attemptLimit :: "relayConfig \<Rightarrow> nat" where
  "attemptLimit cfg = max 1 (maxAttempts (rcPolicy cfg))"

definition rowOk :: "relayConfig \<Rightarrow> newOutboxEvent list \<Rightarrow> outboxRow \<Rightarrow> bool" where
  "rowOk cfg accepted r = (case obStatus r of
     ObPending \<Rightarrow> obAttempts r < attemptLimit cfg
   | ObPublished \<Rightarrow> obEvent r \<in> set accepted \<and> obAttempts r \<le> attemptLimit cfg
   | ObDead \<Rightarrow> (\<not> isDomainEventName (neName (obEvent r)) \<or> obAttempts r = attemptLimit cfg) \<and> obAttempts r \<le> attemptLimit cfg)"

lemma rowOk_mono: "rowOk cfg accepted r \<Longrightarrow> set accepted \<subseteq> set accepted' \<Longrightarrow> rowOk cfg accepted' r"
  by (auto simp: rowOk_def split: outboxStatus.splits)

lemma sqlDeliverOne_keeps: "obId (fst (sqlDeliverOne now retry row answer)) = obId row \<and> obEvent (fst (sqlDeliverOne now retry row answer)) = obEvent row"
  by (auto simp: sqlDeliverOne_def markDead_def split: sum.splits option.splits)

lemma sqlDeliverOne_ok:
  assumes "rowOk cfg accepted row" and "obStatus row = ObPending" and "answerOk row answer took"
  shows "rowOk cfg (accepted @ (if took then [obEvent row] else [])) (fst (sqlDeliverOne now (retryAtOf cfg now random) row answer))"
  using assms by (auto simp: rowOk_def sqlDeliverOne_def markDead_def answerOk_def retryAtOf_def nextAttemptAt_def nextAttemptDelayMs_def
      attemptLimit_def split: sum.splits option.splits if_splits)

definition passOk :: "relayConfig \<Rightarrow> newOutboxEvent list \<Rightarrow> outboxRow list \<Rightarrow> relayPass \<Rightarrow> bool" where
  "passOk cfg accepted table p = (distinct (passIds p) \<and> (\<forall>r \<in> set (rpTodo p). r \<in> set table \<and> obStatus r = ObPending) \<and>
     (\<forall>d \<in> set (rpDone p). rowOk cfg accepted d \<and> (\<exists>r \<in> set table. obId r = obId d \<and> obEvent r = obEvent d \<and> obStatus r = ObPending)))"

definition relayInv :: "relayConfig \<Rightarrow> relayState \<Rightarrow> bool" where
  "relayInv cfg \<sigma> = (distinct (map obId (rlTable \<sigma>)) \<and> map (\<lambda>r. (obId r, obEvent r)) (rlTable \<sigma>) = rlStaged \<sigma> \<and>
     list_all (rowOk cfg (rlAccepted \<sigma>)) (rlTable \<sigma>) \<and>
     (\<forall>s p. rlPass \<sigma> s = Some p \<longrightarrow> passOk cfg (rlAccepted \<sigma>) (rlTable \<sigma>) p) \<and>
     (\<forall>s s' i. s \<noteq> s' \<longrightarrow> \<not> (holds \<sigma> s i \<and> holds \<sigma> s' i)) \<and>
     (\<forall>e \<in> set (rlAccepted \<sigma>). e \<in> snd ` set (rlStaged \<sigma>) \<and> isDomainEventName (neName e)))"


section \<open>Every step keeps the invariant\<close>

lemma claimRows_set: "r \<in> set (claimRows now n locked table) \<Longrightarrow> r \<in> set table \<and> isDue now r \<and> \<not> locked (obId r)"
  by (auto simp: claimRows_def dest!: in_set_takeD)

lemma claimRows_distinct: "distinct (map obId table) \<Longrightarrow> distinct (map obId (claimRows now n locked table))"
proof -
  assume "distinct (map obId table)"
  then have "distinct (map obId (filter (\<lambda>row. isDue now row \<and> \<not> locked (obId row)) table))" by (rule distinct_map_filter)
  then have "distinct (map obId (sort_key outboxOrder (filter (\<lambda>row. isDue now row \<and> \<not> locked (obId row)) table)))"
    by (simp add: distinct_map)
  then show ?thesis by (simp add: claimRows_def take_map [symmetric] distinct_take)
qed

lemma passOk_grows: "passOk cfg acc table p \<Longrightarrow> set table \<subseteq> set table' \<Longrightarrow> set acc \<subseteq> set acc' \<Longrightarrow> passOk cfg acc' table' p"
  unfolding passOk_def by (meson rowOk_mono subsetD)

lemma relayInv_staged: "relayInv cfg \<sigma> \<Longrightarrow> fst ` set (rlStaged \<sigma>) = obId ` set (rlTable \<sigma>) \<and> snd ` set (rlStaged \<sigma>) = obEvent ` set (rlTable \<sigma>)"
proof -
  assume "relayInv cfg \<sigma>"
  then have "rlStaged \<sigma> = map (\<lambda>r. (obId r, obEvent r)) (rlTable \<sigma>)" by (simp add: relayInv_def)
  then show ?thesis by (simp add: image_image)
qed

lemma relayInv_pass: "relayInv cfg \<sigma> \<Longrightarrow> rlPass \<sigma> s = Some p \<Longrightarrow> passOk cfg (rlAccepted \<sigma>) (rlTable \<sigma>) p"
  by (simp add: relayInv_def)

lemma relayInv_exclusive: "relayInv cfg \<sigma> \<Longrightarrow> s \<noteq> s' \<Longrightarrow> holds \<sigma> s i \<Longrightarrow> \<not> holds \<sigma> s' i"
  unfolding relayInv_def by blast

lemma stage_inv:
  assumes inv: "relayInv cfg \<sigma>" and fresh: "rowId \<notin> fst ` set (rlStaged \<sigma>)"
  shows "relayInv cfg (\<sigma>\<lparr>rlTable := sqlStage rowId dbNow event (rlTable \<sigma>), rlStaged := rlStaged \<sigma> @ [(rowId, event)]\<rparr>)"
proof -
  have ids: "fst ` set (rlStaged \<sigma>) = obId ` set (rlTable \<sigma>)" using relayInv_staged [OF inv] by simp
  have "passOk cfg (rlAccepted \<sigma>) (sqlStage rowId dbNow event (rlTable \<sigma>)) p" if "rlPass \<sigma> s = Some p" for s p
    by (rule passOk_grows [OF relayInv_pass [OF inv that]]) (auto simp: sqlStage_def)
  then show ?thesis
    using inv fresh unfolding relayInv_def
    by (auto simp: sqlStage_def stagedRow_def rowOk_def attemptLimit_def holds_def ids image_iff)
qed

lemma claim_inv:
  assumes inv: "relayInv cfg \<sigma>" and idle: "rlPass \<sigma> s = None"
    and rows: "rows = claimRows now n (\<lambda>i. \<exists>s'. holds \<sigma> s' i) (rlTable \<sigma>)"
  shows "relayInv cfg (\<sigma>\<lparr>rlPass := (rlPass \<sigma>)(s \<mapsto> \<lparr>rpNow = now, rpTodo = rows, rpDone = []\<rparr>)\<rparr>)"
proof -
  let ?\<sigma> = "\<sigma>\<lparr>rlPass := (rlPass \<sigma>)(s \<mapsto> \<lparr>rpNow = now, rpTodo = rows, rpDone = []\<rparr>)\<rparr>"
  have set: "r \<in> set (rlTable \<sigma>) \<and> obStatus r = ObPending \<and> (\<forall>s'. \<not> holds \<sigma> s' (obId r))" if "r \<in> set rows" for r
    using claimRows_set that rows by (fastforce simp: isDue_def)
  have "distinct (map obId rows)" using inv claimRows_distinct rows by (simp add: relayInv_def)
  then have "passOk cfg (rlAccepted \<sigma>) (rlTable \<sigma>) \<lparr>rpNow = now, rpTodo = rows, rpDone = []\<rparr>"
    using set by (simp add: passOk_def passIds_def)
  moreover have "holds ?\<sigma> s' i = (if s' = s then i \<in> obId ` set rows else holds \<sigma> s' i)" for s' i
    by (simp add: holds_def passIds_def)
  moreover have "\<not> holds \<sigma> s' i" if "i \<in> obId ` set rows" for s' i using set that by auto
  ultimately show ?thesis using inv unfolding relayInv_def by auto
qed

lemma deliver_pass:
  assumes "passOk cfg acc table p" and "rpTodo p = row # rest" and "rowOk cfg acc row" and "answerOk row answer took"
  shows "passOk cfg (acc @ (if took then [obEvent row] else [])) table
    (p\<lparr>rpTodo := rest, rpDone := rpDone p @ [fst (sqlDeliverOne now (retryAtOf cfg now random) row answer)]\<rparr>)"
proof -
  have ids: "passIds (p\<lparr>rpTodo := rest, rpDone := rpDone p @ [fst (sqlDeliverOne now (retryAtOf cfg now random) row answer)]\<rparr>) = passIds p"
    using assms(2) by (simp add: passIds_def sqlDeliverOne_keeps)
  have row: "row \<in> set table" "obStatus row = ObPending" using assms(1,2) by (simp_all add: passOk_def)
  have "rowOk cfg (acc @ (if took then [obEvent row] else [])) (fst (sqlDeliverOne now (retryAtOf cfg now random) row answer))"
    by (rule sqlDeliverOne_ok [OF assms(3) row(2) assms(4)])
  moreover have "\<exists>r \<in> set table. obId r = obId (fst (sqlDeliverOne now (retryAtOf cfg now random) row answer)) \<and>
      obEvent r = obEvent (fst (sqlDeliverOne now (retryAtOf cfg now random) row answer)) \<and> obStatus r = ObPending"
    using row by (auto simp: sqlDeliverOne_keeps)
  ultimately show ?thesis
    using assms(1,2) passOk_grows [OF assms(1), of table "acc @ (if took then [obEvent row] else [])"] ids
    unfolding passOk_def by auto
qed

lemma deliver_inv:
  assumes inv: "relayInv cfg \<sigma>" and pass: "rlPass \<sigma> s = Some p" "rpTodo p = row # rest" and ok: "answerOk row answer took"
  shows "relayInv cfg (\<sigma>\<lparr>rlPass := (rlPass \<sigma>)(s \<mapsto> p\<lparr>rpTodo := rest,
      rpDone := rpDone p @ [fst (sqlDeliverOne (rpNow p) (retryAtOf cfg (rpNow p) random) row answer)]\<rparr>),
    rlAccepted := rlAccepted \<sigma> @ (if took then [obEvent row] else [])\<rparr>)" (is "relayInv cfg ?\<sigma>")
proof -
  let ?acc = "rlAccepted \<sigma> @ (if took then [obEvent row] else [])"
  let ?p = "p\<lparr>rpTodo := rest, rpDone := rpDone p @ [fst (sqlDeliverOne (rpNow p) (retryAtOf cfg (rpNow p) random) row answer)]\<rparr>"
  have p: "passOk cfg (rlAccepted \<sigma>) (rlTable \<sigma>) p" using inv pass by (simp add: relayInv_def)
  then have row: "row \<in> set (rlTable \<sigma>)" using pass(2) by (simp add: passOk_def)
  then have rowOk: "rowOk cfg (rlAccepted \<sigma>) row" using inv by (simp add: relayInv_def list_all_iff)
  have hold: "holds ?\<sigma> s' i = holds \<sigma> s' i" for s' i
    using pass by (auto simp: holds_def passIds_def sqlDeliverOne_keeps)
  have "passOk cfg ?acc (rlTable \<sigma>) p'" if "rlPass ?\<sigma> s' = Some p'" for s' p'
    using that inv deliver_pass [OF p pass(2) rowOk ok] passOk_grows [of cfg "rlAccepted \<sigma>" "rlTable \<sigma>" p' "rlTable \<sigma>" ?acc]
    by (auto simp: relayInv_def split: if_splits)
  moreover have "list_all (rowOk cfg ?acc) (rlTable \<sigma>)"
    using inv rowOk_mono [of cfg "rlAccepted \<sigma>" _ ?acc] by (auto simp: relayInv_def list_all_iff)
  moreover have "e \<in> snd ` set (rlStaged \<sigma>) \<and> isDomainEventName (neName e)" if "e \<in> set ?acc" for e
  proof (cases "e \<in> set (rlAccepted \<sigma>)")
    case False
    then have "e = obEvent row" and "took" using that by (simp_all split: if_splits)
    moreover have "obEvent row \<in> snd ` set (rlStaged \<sigma>)" using row relayInv_staged [OF inv] by simp
    ultimately show ?thesis using ok by (simp add: answerOk_def)
  qed (use inv in \<open>simp add: relayInv_def\<close>)
  ultimately show ?thesis using inv hold unfolding relayInv_def by auto
qed

lemma abort_inv:
  assumes inv: "relayInv cfg \<sigma>"
  shows "relayInv cfg (\<sigma>\<lparr>rlPass := (rlPass \<sigma>)(s := None)\<rparr>)" (is "relayInv cfg ?\<sigma>")
proof -
  have keeps: "holds ?\<sigma> s' i \<Longrightarrow> holds \<sigma> s' i" for s' i by (simp add: holds_def split: if_splits)
  have "\<not> (holds ?\<sigma> s1 i \<and> holds ?\<sigma> s2 i)" if "s1 \<noteq> s2" for s1 s2 i
    using keeps relayInv_exclusive [OF inv that] by blast
  then show ?thesis using inv unfolding relayInv_def by (auto split: if_splits)
qed

text \<open>A commit rewrites rows no other pass holds.\<close>

lemma commit_row:
  assumes inv: "relayInv cfg \<sigma>" and pass: "rlPass \<sigma> s = Some p" and r: "r \<in> set (rlTable \<sigma>)"
  shows "obEvent (rewritten (rpDone p) r) = obEvent r \<and> rowOk cfg (rlAccepted \<sigma>) (rewritten (rpDone p) r) \<and>
    (obStatus r \<noteq> ObPending \<longrightarrow> rewritten (rpDone p) r = r)"
proof (cases "rewritten (rpDone p) r = r")
  case True
  then show ?thesis using inv r by (simp add: relayInv_def list_all_iff)
next
  case False
  then have w: "rewritten (rpDone p) r \<in> set (rpDone p)" using rewritten_cases by blast
  then obtain r0 where r0: "r0 \<in> set (rlTable \<sigma>)" "obId r0 = obId (rewritten (rpDone p) r)"
    "obEvent r0 = obEvent (rewritten (rpDone p) r)" "obStatus r0 = ObPending" and ok: "rowOk cfg (rlAccepted \<sigma>) (rewritten (rpDone p) r)"
    using relayInv_pass [OF inv pass] unfolding passOk_def by blast
  have "r0 = r" using inv r r0(1,2) by (simp add: relayInv_def distinct_map inj_on_def)
  then show ?thesis using r0 ok by simp
qed

lemma commit_other:
  assumes inv: "relayInv cfg \<sigma>" and pass: "rlPass \<sigma> s = Some p" and other: "rlPass \<sigma> s' = Some q" "s' \<noteq> s"
  shows "passOk cfg (rlAccepted \<sigma>) (map (rewritten (rpDone p)) (rlTable \<sigma>)) q"
proof -
  have same: "rewritten (rpDone p) r = r" if "obId r \<in> set (passIds q)" for r
  proof (rule rewritten_other)
    have "holds \<sigma> s' (obId r)" using that other by (simp add: holds_def)
    then have "\<not> holds \<sigma> s (obId r)" using relayInv_exclusive [OF inv] other(2) by blast
    then show "obId r \<notin> obId ` set (rpDone p)" using pass by (auto simp: holds_def passIds_def)
  qed
  have kept: "r \<in> set (map (rewritten (rpDone p)) (rlTable \<sigma>))" if "r \<in> set (rlTable \<sigma>)" "obId r \<in> set (passIds q)" for r
    using that same [of r] by force
  have q: "passOk cfg (rlAccepted \<sigma>) (rlTable \<sigma>) q" by (rule relayInv_pass [OF inv other(1)])
  have "r \<in> set (map (rewritten (rpDone p)) (rlTable \<sigma>))" if "r \<in> set (rpTodo q)" for r
    using q kept that by (simp add: passOk_def passIds_def)
  moreover have "\<exists>r \<in> set (map (rewritten (rpDone p)) (rlTable \<sigma>)). obId r = obId d \<and> obEvent r = obEvent d \<and> obStatus r = ObPending"
    if d: "d \<in> set (rpDone q)" for d
  proof -
    obtain r where "r \<in> set (rlTable \<sigma>)" "obId r = obId d" "obEvent r = obEvent d" "obStatus r = ObPending"
      using q d unfolding passOk_def by blast
    moreover have "obId d \<in> set (passIds q)" using d by (simp add: passIds_def)
    ultimately show ?thesis using kept [of r] by metis
  qed
  ultimately show ?thesis using q unfolding passOk_def by blast
qed

lemma commit_inv:
  assumes inv: "relayInv cfg \<sigma>" and pass: "rlPass \<sigma> s = Some p"
  shows "relayInv cfg (\<sigma>\<lparr>rlTable := map (rewritten (rpDone p)) (rlTable \<sigma>), rlPass := (rlPass \<sigma>)(s := None)\<rparr>)" (is "relayInv cfg ?\<sigma>")
proof -
  have "map (\<lambda>r. (obId r, obEvent r)) (map (rewritten (rpDone p)) (rlTable \<sigma>)) = map (\<lambda>r. (obId r, obEvent r)) (rlTable \<sigma>)"
    using commit_row [OF inv pass] by simp
  moreover have "distinct (map (obId \<circ> rewritten (rpDone p)) (rlTable \<sigma>))" using inv by (simp add: relayInv_def comp_def)
  moreover have "list_all (rowOk cfg (rlAccepted \<sigma>)) (map (rewritten (rpDone p)) (rlTable \<sigma>))"
    using commit_row [OF inv pass] by (simp add: list_all_iff)
  moreover have "passOk cfg (rlAccepted \<sigma>) (map (rewritten (rpDone p)) (rlTable \<sigma>)) q" if "rlPass ?\<sigma> s' = Some q" for s' q
    using that commit_other [OF inv pass] by (auto split: if_splits)
  moreover have "\<not> (holds ?\<sigma> s1 i \<and> holds ?\<sigma> s2 i)" if "s1 \<noteq> s2" for s1 s2 i
    using abort_inv [OF inv, of s] that unfolding relayInv_def holds_def by simp
  ultimately show ?thesis using inv unfolding relayInv_def by auto
qed

lemma done_distinct: "relayInv cfg \<sigma> \<Longrightarrow> rlPass \<sigma> s = Some p \<Longrightarrow> distinct (map obId (rpDone p))"
  using relayInv_pass by (fastforce simp: passOk_def passIds_def)

lemma relayInv_step: "relayStep cfg \<sigma> \<sigma>' \<Longrightarrow> relayInv cfg \<sigma> \<Longrightarrow> relayInv cfg \<sigma>'"
proof (induction rule: relayStep.induct)
  case (rsCommit \<sigma> s p)
  then show ?case using commit_inv fold_writeRow [OF done_distinct] by metis
next
  case (rsDeliver \<sigma> s p row rest answer accepted random row')
  then show ?case using deliver_inv [OF rsDeliver.prems rsDeliver.hyps(1-3), of random] by simp
qed (blast intro: stage_inv claim_inv abort_inv)+

lemma relayInv_start: "relayInv cfg relayStart"
  by (simp add: relayInv_def relayStart_def holds_def)

lemma relayInv_reach: "(relayStep cfg)\<^sup>*\<^sup>* relayStart \<sigma> \<Longrightarrow> relayInv cfg \<sigma>"
  by (induction rule: rtranclp_induct) (auto intro: relayInv_start relayInv_step)

text \<open>A row that has been published or given up on is never written again.\<close>

lemma terminal_step: "relayStep cfg \<sigma> \<sigma>' \<Longrightarrow> relayInv cfg \<sigma> \<Longrightarrow> r \<in> set (rlTable \<sigma>) \<Longrightarrow> obStatus r \<noteq> ObPending \<Longrightarrow> r \<in> set (rlTable \<sigma>')"
proof (induction rule: relayStep.induct)
  case (rsCommit \<sigma> s p)
  then have "rewritten (rpDone p) r = r" using commit_row by blast
  then show ?case using rsCommit fold_writeRow [OF done_distinct] by force
qed (auto simp: sqlStage_def)

lemma terminal_run: "(relayStep cfg)\<^sup>*\<^sup>* \<sigma> \<sigma>' \<Longrightarrow> relayInv cfg \<sigma> \<Longrightarrow> r \<in> set (rlTable \<sigma>) \<Longrightarrow> obStatus r \<noteq> ObPending \<Longrightarrow>
    r \<in> set (rlTable \<sigma>') \<and> relayInv cfg \<sigma>'"
  by (induction rule: rtranclp_induct) (auto intro: terminal_step relayInv_step)


section \<open>What one pass does\<close>

definition settled :: "relayConfig \<Rightarrow> (string \<Rightarrow> publishAnswer) \<Rightarrow> outboxRow \<Rightarrow> (string + unit) \<times> int" where
  "settled cfg answers row = (if isDomainEventName (neName (obEvent row))
     then deliver (rcPublishTimeoutMs cfg) (neEventId (obEvent row)) (answers (obId row)) else (Inr (), 0))"

lemma deliverRows_eq: "deliverRows one cfg now answers random rows =
    (map (\<lambda>r. fst (one now (retryAtOf cfg now (random (obId r))) r (fst (settled cfg answers r)))) rows,
     map (\<lambda>r. snd (one now (retryAtOf cfg now (random (obId r))) r (fst (settled cfg answers r)))) rows,
     sum_list (map (\<lambda>r. snd (settled cfg answers r)) rows))"
  by (induction rows) (auto simp: settled_def split_def Let_def)

text \<open>Time a pass may take at most.\<close>

lemma settled_took: "snd (settled cfg answers row) \<le> max 0 (rcPublishTimeoutMs cfg)"
  by (auto simp: settled_def deliver_def)

definition dueCount :: "int \<Rightarrow> outboxRow list \<Rightarrow> nat" where
  "dueCount now table = length (filter (isDue now) table)"

lemma rewritten_image:
  assumes "distinct (map obId rows)" and "\<And>r. obId (f r) = obId r" and "r \<in> set rows"
  shows "rewritten (map f rows) r = f r"
proof -
  obtain i where i: "i < length rows" "rows ! i = r" using assms(3) by (auto simp: in_set_conv_nth)
  have "obId (rows ! j) \<noteq> obId r" if "j < i" for j
    using assms(1) i that nth_eq_iff_index_eq [of "map obId rows" j i] by simp
  then have "find (\<lambda>w. obId w = obId r) (map f rows) = Some (f r)"
    using i assms(2) by (auto simp: find_Some_iff)
  then show ?thesis by (simp add: rewritten_def)
qed

lemma claimRows_length: "length (claimRows now n (\<lambda>i. False) table) = min n (dueCount now table)"
  by (simp add: claimRows_def dueCount_def)

lemma filter_minus:
  assumes "distinct (map f xs)" and "set ys \<subseteq> set xs" and "distinct (map f ys)" and "\<forall>y \<in> set ys. P y"
  shows "length (filter (\<lambda>x. P x \<and> f x \<notin> f ` set ys) xs) = length (filter P xs) - length ys"
proof -
  have inj: "inj_on f (set xs)" and dx: "distinct xs" and dy: "distinct ys" using assms(1,3) by (simp_all add: distinct_map)
  have "{x \<in> set xs. P x \<and> f x \<notin> f ` set ys} = {x \<in> set xs. P x} - set ys"
    using assms(2) inj by (auto simp: inj_on_def)
  moreover have "set ys \<subseteq> {x \<in> set xs. P x}" using assms(2,4) by auto
  ultimately have "card {x \<in> set xs. P x \<and> f x \<notin> f ` set ys} = card {x \<in> set xs. P x} - card (set ys)"
    by (simp add: card_Diff_subset)
  then show ?thesis using dx dy by (simp add: distinct_card [symmetric] distinct_filter)
qed

definition accepting :: "relayConfig \<Rightarrow> (string \<Rightarrow> publishAnswer) \<Rightarrow> bool" where
  "accepting cfg answers = (\<forall>i. paResult (answers i) = Inr () \<and> 0 \<le> paAfterMs (answers i) \<and>
     paAfterMs (answers i) \<le> rcPublishTimeoutMs cfg \<and> int (rcBatchSize cfg) * paAfterMs (answers i) \<le> drainTimeoutMs)"

lemma sum_list_at_most: "\<forall>x \<in> set xs. (x :: int) \<le> b \<Longrightarrow> sum_list xs \<le> int (length xs) * b"
  by (induction xs) (auto simp: algebra_simps)

lemma accepting_time:
  assumes "accepting cfg answers"
  shows "sum_list (map (\<lambda>r. snd (settled cfg answers r)) (claimRows now (rcBatchSize cfg) locked table)) \<le> drainTimeoutMs"
proof (cases "rcBatchSize cfg = 0")
  case True
  then show ?thesis by (simp add: claimRows_def drainTimeoutMs_def)
next
  case False
  define b where "b = drainTimeoutMs div int (rcBatchSize cfg)"
  have "0 < int (rcBatchSize cfg)" using False by simp
  then have b: "0 \<le> b" by (simp add: b_def drainTimeoutMs_def pos_imp_zdiv_nonneg_iff)
  have "snd (settled cfg answers r) \<le> b" for r
    using assms False zdiv_mono1 [of "int (rcBatchSize cfg) * paAfterMs (answers (obId r))" drainTimeoutMs "int (rcBatchSize cfg)"]
    b by (auto simp: accepting_def settled_def deliver_def b_def)
  then have "sum_list (map (\<lambda>r. snd (settled cfg answers r)) (claimRows now (rcBatchSize cfg) locked table))
      \<le> int (length (claimRows now (rcBatchSize cfg) locked table)) * b"
    using sum_list_at_most [of "map (\<lambda>r. snd (settled cfg answers r)) (claimRows now (rcBatchSize cfg) locked table)" b] by simp
  also have "... \<le> int (rcBatchSize cfg) * b"
    by (rule mult_right_mono) (simp_all add: claimRows_def b)
  also have "... \<le> drainTimeoutMs"
    using mult_div_mod_eq [of "int (rcBatchSize cfg)" drainTimeoutMs] pos_mod_sign [of "int (rcBatchSize cfg)" drainTimeoutMs] \<open>0 < int (rcBatchSize cfg)\<close>
    unfolding b_def by linarith
  finally show ?thesis .
qed

lemma relayTick_accepting:
  fixes now :: int
  assumes acc: "accepting cfg answers" and d: "distinct (map obId table)" and known: "\<forall>r \<in> set table. isDomainEventName (neName (obEvent r))"
  defines "rows \<equiv> claimRows now (rcBatchSize cfg) (\<lambda>i. False) table"
  shows "relayTick cfg (now, answers, random) table = map (\<lambda>r. if r \<in> set rows
    then r\<lparr>obStatus := ObPublished, obPublishedAt := Some now, obAttempts := obAttempts r + 1\<rparr> else r) table"
proof -
  let ?f = "\<lambda>r. fst (sqlDeliverOne now (retryAtOf cfg now (random (obId r))) r (fst (settled cfg answers r)))"
  have ids: "obId (?f r) = obId r" for r by (simp add: sqlDeliverOne_keeps)
  have dr: "distinct (map obId rows)" unfolding rows_def by (rule claimRows_distinct [OF d])
  have sub: "set rows \<subseteq> set table" using claimRows_set by (auto simp: rows_def)
  have "distinct (map obId (map ?f rows))" using dr by (simp add: comp_def ids)
  then have "relayTick cfg (now, answers, random) table = map (rewritten (map ?f rows)) table"
    using accepting_time [OF acc, of now "\<lambda>i. False" table] fold_writeRow
    by (auto simp: relayTick_def sqlDrain_def deliverRows_eq rows_def Let_def)
  also have "... = map (\<lambda>r. if r \<in> set rows then ?f r else r) table"
  proof (rule map_cong)
    fix r assume r: "r \<in> set table"
    show "rewritten (map ?f rows) r = (if r \<in> set rows then ?f r else r)"
    proof (cases "r \<in> set rows")
      case True
      then show ?thesis using rewritten_image [OF dr ids True] by simp
    next
      case False
      have "obId r \<notin> obId ` set rows"
      proof
        assume "obId r \<in> obId ` set rows"
        then obtain q where "q \<in> set rows" "obId q = obId r" by auto
        then show False using sub r d False by (auto simp: distinct_map inj_on_def)
      qed
      then show ?thesis using False rewritten_other [of r "map ?f rows"] by (simp add: image_image ids)
    qed
  qed simp
  also have "... = map (\<lambda>r. if r \<in> set rows then r\<lparr>obStatus := ObPublished, obPublishedAt := Some now, obAttempts := obAttempts r + 1\<rparr> else r) table"
    using known acc by (auto simp: sqlDeliverOne_def settled_def deliver_def accepting_def)
  finally show ?thesis .
qed


lemma relayTick_dueCount:
  assumes acc: "accepting cfg answers" and d: "distinct (map obId table)" and known: "\<forall>r \<in> set table. isDomainEventName (neName (obEvent r))"
  shows "dueCount now (relayTick cfg (now, answers, random) table) = dueCount now table - rcBatchSize cfg"
proof -
  define rows where "rows = claimRows now (rcBatchSize cfg) (\<lambda>i. False) table"
  have sub: "set rows \<subseteq> set table" "\<forall>r \<in> set rows. isDue now r" using claimRows_set by (fastforce simp: rows_def)+
  have dr: "distinct (map obId rows)" unfolding rows_def by (rule claimRows_distinct [OF d])
  have "dueCount now (relayTick cfg (now, answers, random) table) = length (filter (\<lambda>r. isDue now r \<and> r \<notin> set rows) table)"
    unfolding relayTick_accepting [OF acc d known, folded rows_def] dueCount_def filter_map length_map
    by (intro arg_cong [where f = length] filter_cong refl) (auto simp: isDue_def rows_def)
  also have "... = length (filter (\<lambda>r. isDue now r \<and> obId r \<notin> obId ` set rows) table)"
    using d sub(1) by (intro arg_cong [where f = length] filter_cong refl) (auto simp: distinct_map inj_on_def)
  also have "... = dueCount now table - length rows"
    using filter_minus [OF d sub(1) dr sub(2)] by (simp add: dueCount_def)
  finally show ?thesis by (simp add: rows_def claimRows_length min_def)
qed

lemma relayTick_keeps:
  assumes "accepting cfg answers" and "distinct (map obId table)" and "\<forall>r \<in> set table. isDomainEventName (neName (obEvent r))"
  shows "map obId (relayTick cfg (now, answers, random) table) = map obId table"
    "map obEvent (relayTick cfg (now, answers, random) table) = map obEvent table"
    "r \<in> set (relayTick cfg (now, answers, random) table) \<Longrightarrow> r \<in> set table \<or> obStatus r = ObPublished"
  unfolding relayTick_accepting [OF assms] by (auto simp: comp_def)

text \<open>
  While the publisher accepts what it is given, within the publish timeout and fast enough for
  a batch to fit its transaction, the backlog drains: after \<open>n\<close> passes at a time \<open>now\<close>, with
  \<open>n\<close> batches at least the number of rows then due, no row due at \<open>now\<close> is left, no row was
  lost, and every row that was due is published.
\<close>

lemma relay_drains_backlog:
  assumes "\<forall>a \<in> set answers. accepting cfg a" and "distinct (map obId table)"
    and "\<forall>r \<in> set table. isDomainEventName (neName (obEvent r))" and "dueCount now table \<le> length answers * rcBatchSize cfg"
  shows "let table' = fold (\<lambda>a. relayTick cfg (now, a, random)) answers table in
    dueCount now table' = 0 \<and> map obId table' = map obId table \<and> map obEvent table' = map obEvent table \<and>
    (\<forall>r \<in> set table. isDue now r \<longrightarrow> (\<exists>r' \<in> set table'. obId r' = obId r \<and> obStatus r' = ObPublished))"
proof -
  let ?run = "\<lambda>as t. fold (\<lambda>a. relayTick cfg (now, a, random)) as t"
  have main: "dueCount now (?run answers table) \<le> dueCount now table - length answers * rcBatchSize cfg \<and>
      map obId (?run answers table) = map obId table \<and> map obEvent (?run answers table) = map obEvent table \<and>
      (\<forall>r \<in> set (?run answers table). r \<in> set table \<or> obStatus r = ObPublished)"
    using assms(1-3)
  proof (induction answers arbitrary: table)
    case (Cons a as)
    let ?t = "relayTick cfg (now, a, random) table"
    have acc: "accepting cfg a" using Cons.prems(1) by simp
    note keeps = relayTick_keeps [OF acc Cons.prems(2,3), where now = now and random = random]
    have "\<forall>r \<in> set ?t. isDomainEventName (neName (obEvent r))"
      using Cons.prems(3) keeps(2) by (metis (no_types, lifting) imageE image_eqI image_set)
    moreover have "distinct (map obId ?t)" using keeps(1) Cons.prems(2) by simp
    ultimately show ?case
      using Cons.IH [of ?t] Cons.prems(1) keeps relayTick_dueCount [OF acc Cons.prems(2,3), of now random] by fastforce
  qed simp
  then have none: "dueCount now (?run answers table) = 0" using assms(4) by simp
  have "\<exists>r' \<in> set (?run answers table). obId r' = obId r \<and> obStatus r' = ObPublished" if r: "r \<in> set table" "isDue now r" for r
  proof -
    have "obId r \<in> set (map obId (?run answers table))" using main r(1) by simp
    then obtain r' where r': "r' \<in> set (?run answers table)" "obId r' = obId r" by auto
    have "obStatus r' = ObPublished"
    proof (rule ccontr)
      assume "obStatus r' \<noteq> ObPublished"
      then have "r' = r" using main r' r(1) assms(2) by (auto simp: distinct_map inj_on_def)
      then show False using none r' r(2) by (auto simp: dueCount_def filter_empty_conv)
    qed
    then show ?thesis using r' by blast
  qed
  then show ?thesis using main none by (simp add: Let_def)
qed


definition exEvent :: "string \<Rightarrow> int \<Rightarrow> newOutboxEvent" where
  "exEvent i t = \<lparr>neEventId = i, neName = ''user.deleted'', nePayload = VObj [(''userId'', VStr ''u'')],
     neCorrelation = None, neTrace = (None, None), neAt = t\<rparr>"

definition exRelay :: "nat \<Rightarrow> relayConfig" where
  "exRelay n = \<lparr>rcBatchSize = n, rcPublishTimeoutMs = 5000, rcPolicy = \<lparr>baseMs = 500, maxMs = 300000, maxAttempts = 8\<rparr>\<rparr>"

definition exTable :: "outboxRow list" where
  "exTable = [stagedRow ''a'' 1 (exEvent ''e1'' 1), stagedRow ''b'' 2 (exEvent ''e2'' 2), stagedRow ''c'' 3 (exEvent ''e3'' 3)]"

lemma exTable_props: "distinct (map obId exTable)" "\<forall>r \<in> set exTable. isDomainEventName (neName (obEvent r))" "dueCount 5 exTable = 3"
  by (simp_all add: exTable_def stagedRow_def exEvent_def isDomainEventName_def domainEventNames_def dueCount_def isDue_def)

lemma relay_drains_backlog_witness:
  "let table' = fold (\<lambda>a. relayTick (exRelay 2) (5, a, \<lambda>i. 0)) (replicate 2 (\<lambda>i. \<lparr>paResult = Inr (), paAfterMs = 10\<rparr>)) exTable in
   dueCount 5 exTable = 3 \<and> dueCount 5 table' = 0 \<and> map obEvent table' = map obEvent exTable"
  using relay_drains_backlog [of "replicate 2 (\<lambda>i. \<lparr>paResult = Inr (), paAfterMs = 10\<rparr>)" "exRelay 2" exTable 5 "\<lambda>i. 0"] exTable_props
  by (simp add: Let_def accepting_def exRelay_def drainTimeoutMs_def)

text \<open>
  C21. However the passes of any number of relays interleave with staging, and wherever one fails,
  crashes, times out or has its answer lost: the table holds exactly the staged events, each once
  and unchanged; a row waiting has attempts left; a published row's event was accepted by the
  publisher; a dead row either names an event this build does not know or used up its attempts;
  published and dead rows never change again; nothing reaches the publisher that was not staged;
  and no two open passes hold the same row.
\<close>

theorem outbox_no_loss:
  assumes "(relayStep cfg)\<^sup>*\<^sup>* relayStart \<sigma>" and "(relayStep cfg)\<^sup>*\<^sup>* \<sigma> \<sigma>'"
  shows "map (\<lambda>r. (obId r, obEvent r)) (rlTable \<sigma>) = rlStaged \<sigma> \<and> distinct (map obId (rlTable \<sigma>)) \<and>
    (\<forall>r \<in> set (rlTable \<sigma>). case obStatus r of
        ObPending \<Rightarrow> obAttempts r < max 1 (maxAttempts (rcPolicy cfg))
      | ObPublished \<Rightarrow> obEvent r \<in> set (rlAccepted \<sigma>) \<and> r \<in> set (rlTable \<sigma>')
      | ObDead \<Rightarrow> (\<not> isDomainEventName (neName (obEvent r)) \<or> obAttempts r = max 1 (maxAttempts (rcPolicy cfg))) \<and> r \<in> set (rlTable \<sigma>')) \<and>
    (\<forall>e \<in> set (rlAccepted \<sigma>). e \<in> snd ` set (rlStaged \<sigma>) \<and> isDomainEventName (neName e)) \<and>
    (\<forall>s s' i. s \<noteq> s' \<longrightarrow> \<not> (holds \<sigma> s i \<and> holds \<sigma> s' i))"
proof -
  have inv: "relayInv cfg \<sigma>" by (rule relayInv_reach [OF assms(1)])
  have "rowOk cfg (rlAccepted \<sigma>) r \<and> (obStatus r \<noteq> ObPending \<longrightarrow> r \<in> set (rlTable \<sigma>'))" if "r \<in> set (rlTable \<sigma>)" for r
    using inv that terminal_run [OF assms(2) inv that] by (auto simp: relayInv_def list_all_iff)
  note each = this
  have "case obStatus r of
        ObPending \<Rightarrow> obAttempts r < max 1 (maxAttempts (rcPolicy cfg))
      | ObPublished \<Rightarrow> obEvent r \<in> set (rlAccepted \<sigma>) \<and> r \<in> set (rlTable \<sigma>')
      | ObDead \<Rightarrow> (\<not> isDomainEventName (neName (obEvent r)) \<or> obAttempts r = max 1 (maxAttempts (rcPolicy cfg))) \<and> r \<in> set (rlTable \<sigma>')"
    if "r \<in> set (rlTable \<sigma>)" for r
    using each [OF that] by (cases "obStatus r") (simp_all add: rowOk_def attemptLimit_def)
  then show ?thesis using inv unfolding relayInv_def by blast
qed

definition exPublished :: relayState where
  "exPublished = \<lparr>rlTable = [(stagedRow ''a'' 1 (exEvent ''e1'' 1))\<lparr>obStatus := ObPublished, obPublishedAt := Some 5, obAttempts := 1\<rparr>],
     rlPass = (\<lambda>s. None), rlAccepted = [exEvent ''e1'' 1], rlStaged = [(''a'', exEvent ''e1'' 1)]\<rparr>"

definition exStaged :: relayState where
  "exStaged = \<lparr>rlTable = [stagedRow ''a'' 1 (exEvent ''e1'' 1)], rlPass = (\<lambda>s. None), rlAccepted = [], rlStaged = [(''a'', exEvent ''e1'' 1)]\<rparr>"

definition exClaimed :: relayState where
  "exClaimed = exStaged\<lparr>rlPass := (rlPass exStaged)(0 \<mapsto> \<lparr>rpNow = 5, rpTodo = rlTable exStaged, rpDone = []\<rparr>)\<rparr>"

definition exDelivered :: relayState where
  "exDelivered = exClaimed\<lparr>rlPass := (rlPass exClaimed)(0 \<mapsto> \<lparr>rpNow = 5, rpTodo = [], rpDone = rlTable exPublished\<rparr>),
     rlAccepted := [exEvent ''e1'' 1]\<rparr>"

lemma exPublished_steps:
  "relayStep (exRelay 2) relayStart exStaged" "relayStep (exRelay 2) exStaged exClaimed"
  "relayStep (exRelay 2) exClaimed exDelivered" "relayStep (exRelay 2) exDelivered exPublished"
proof -
  have "relayStart\<lparr>rlTable := sqlStage ''a'' 1 (exEvent ''e1'' 1) (rlTable relayStart), rlStaged := rlStaged relayStart @ [(''a'', exEvent ''e1'' 1)]\<rparr> = exStaged"
    by (simp add: relayStart_def exStaged_def sqlStage_def)
  with relayStep.rsStage [of "''a''" relayStart] show "relayStep (exRelay 2) relayStart exStaged" by (metis (no_types) relayStart_def relayState.select_convs(4) list.set(1) image_empty empty_iff)
  show "relayStep (exRelay 2) exStaged exClaimed" unfolding exClaimed_def
    by (rule relayStep.rsClaim) (simp_all add: exStaged_def claimRows_def isDue_def stagedRow_def holds_def exRelay_def)
  let ?row = "stagedRow ''a'' 1 (exEvent ''e1'' 1)" and ?p = "\<lparr>rpNow = 5, rpTodo = rlTable exStaged, rpDone = []\<rparr>"
  have "fst (sqlDeliverOne 5 (retryAtOf (exRelay 2) 5 0) ?row (Inr ())) = hd (rlTable exPublished)"
    by (simp add: sqlDeliverOne_def stagedRow_def exEvent_def isDomainEventName_def domainEventNames_def exPublished_def)
  then have "relayStep (exRelay 2) exClaimed (exClaimed\<lparr>rlPass := (rlPass exClaimed)(0 \<mapsto> ?p\<lparr>rpTodo := [], rpDone := rpDone ?p @ [hd (rlTable exPublished)]\<rparr>),
      rlAccepted := rlAccepted exClaimed @ (if True then [obEvent ?row] else [])\<rparr>)"
    by (intro relayStep.rsDeliver [where answer = "Inr ()" and random = 0])
      (simp_all add: exClaimed_def exStaged_def answerOk_def stagedRow_def exEvent_def isDomainEventName_def domainEventNames_def)
  then show "relayStep (exRelay 2) exClaimed exDelivered"
    by (simp add: exDelivered_def exClaimed_def exStaged_def exPublished_def stagedRow_def)
  let ?q = "\<lparr>rpNow = 5, rpTodo = [], rpDone = rlTable exPublished\<rparr>"
  have "relayStep (exRelay 2) exDelivered (exDelivered\<lparr>rlTable := fold writeRow (rpDone ?q) (rlTable exDelivered), rlPass := (rlPass exDelivered)(0 := None)\<rparr>)"
    by (rule relayStep.rsCommit) (simp_all add: exDelivered_def)
  then show "relayStep (exRelay 2) exDelivered exPublished"
    by (simp add: exPublished_def exDelivered_def exClaimed_def exStaged_def writeRow_def stagedRow_def)
qed

lemma exPublished_reach: "(relayStep (exRelay 2))\<^sup>*\<^sup>* relayStart exPublished"
  using exPublished_steps by (meson converse_rtranclp_into_rtranclp rtranclp.rtrancl_refl)

theorem outbox_no_loss_witness:
  "(relayStep (exRelay 2))\<^sup>*\<^sup>* relayStart exPublished \<and> obStatus (hd (rlTable exPublished)) = ObPublished \<and>
   obEvent (hd (rlTable exPublished)) \<in> set (rlAccepted exPublished)"
proof -
  have "hd (rlTable exPublished) \<in> set (rlTable exPublished)" "obStatus (hd (rlTable exPublished)) = ObPublished"
    by (simp_all add: exPublished_def)
  then show ?thesis
    using outbox_no_loss [OF exPublished_reach rtranclp.rtrancl_refl] exPublished_reach by (auto split: outboxStatus.splits)
qed


section \<open>The two stores\<close>

text \<open>The columns the stores agree on: the diagnostics are the Postgres store's own.\<close>

definition bare :: "outboxRow \<Rightarrow> outboxRow" where
  "bare r = r\<lparr>obLastError := None, obPublishedAt := None\<rparr>"

lemma bare_simps [simp]: "obId (bare r) = obId r" "obEvent (bare r) = obEvent r" "obStatus (bare r) = obStatus r"
  "obAttempts (bare r) = obAttempts r" "obNextAttemptAt (bare r) = obNextAttemptAt r" "bare (bare r) = bare r"
  by (simp_all add: bare_def)

lemma bare_eq_iff: "bare r = bare q \<longleftrightarrow> obId r = obId q \<and> obEvent r = obEvent q \<and> obStatus r = obStatus q \<and>
    obAttempts r = obAttempts q \<and> obNextAttemptAt r = obNextAttemptAt q"
  by (cases r; cases q) (auto simp: bare_def)

lemma claimRows_bare: "map bare (claimRows now n locked table) = claimRows now n locked (map bare table)"
proof -
  have "outboxOrder (bare r) = outboxOrder r" for r by (simp add: outboxOrder_def)
  then show ?thesis by (simp add: claimRows_def take_map [symmetric] sort_key_map filter_map comp_def isDue_def)
qed

lemma deliverOne_agree:
  assumes "bare r = bare q"
  shows "bare (fst (sqlDeliverOne now retry r a)) = bare (fst (memDeliverOne now retry q a)) \<and>
    snd (sqlDeliverOne now retry r a) = snd (memDeliverOne now retry q a)"
  using assms unfolding bare_eq_iff
  by (auto simp: sqlDeliverOne_def memDeliverOne_def markDead_def outcomeOf_def Let_def split: sum.splits option.splits)

lemma writeRow_bare: "bare r = bare q \<Longrightarrow> map bare t = map bare u \<Longrightarrow> map bare (writeRow r t) = map bare (writeRow q u)"
proof -
  assume r: "bare r = bare q" and t: "map bare t = map bare u"
  have w: "map bare (writeRow x y) = map (\<lambda>z. if obId z = obId (bare x) then bare x else z) (map bare y)" for x y
    by (simp add: writeRow_def)
  show ?thesis unfolding w r t by simp
qed

lemma fold_writeRow_bare:
  "map bare ws = map bare vs \<Longrightarrow> map bare t = map bare u \<Longrightarrow> map bare (fold writeRow ws t) = map bare (fold writeRow vs u)"
proof (induction ws arbitrary: vs t u)
  case (Cons w ws)
  then obtain v vs' where v: "vs = v # vs'" "bare w = bare v" "map bare ws = map bare vs'" by (cases vs) auto
  show ?case unfolding v(1) using Cons.IH [OF v(3) writeRow_bare [OF v(2) Cons.prems(2)]] by simp
qed simp

lemma deliverRows_agree:
  assumes "map bare rows = map bare rows'"
  shows "map bare (fst (deliverRows sqlDeliverOne cfg now answers random rows)) = map bare (fst (deliverRows memDeliverOne cfg now answers random rows')) \<and>
    snd (deliverRows sqlDeliverOne cfg now answers random rows) = snd (deliverRows memDeliverOne cfg now answers random rows')"
  using assms
proof (induction rows arbitrary: rows')
  case (Cons r rows)
  then obtain q rest where q: "rows' = q # rest" "bare r = bare q" "map bare rows = map bare rest" by (cases rows') auto
  have "settled cfg answers r = settled cfg answers q" and "obId r = obId q" using q(2) by (simp_all add: settled_def bare_eq_iff)
  then show ?case unfolding q(1) using Cons.IH [OF q(3)] deliverOne_agree [OF q(2)]
    by (simp add: deliverRows_eq del: deliverRows.simps)
qed simp

text \<open>
  On tables that agree in everything but the diagnostic columns, a pass of the Postgres store
  that fits its transaction and a pass of the in-memory store claim the same rows, report the same
  outcomes, and leave tables that again agree.
\<close>

lemma outbox_stores_agree:
  assumes "map bare sql = map bare mem" and "sqlDrain cfg now locked answers random sql = (Inr report, sql')"
  shows "\<exists>mem'. memDrain cfg now locked answers random mem = (report, mem') \<and> map bare sql' = map bare mem'"
proof -
  let ?rs = "claimRows now (rcBatchSize cfg) locked sql" and ?rm = "claimRows now (rcBatchSize cfg) locked mem"
  have rows: "map bare ?rs = map bare ?rm" by (simp add: claimRows_bare assms(1))
  note agree = deliverRows_agree [OF rows, of cfg now answers random]
  have "length ?rs = length ?rm" using rows by (metis length_map)
  then show ?thesis
    using assms(2) agree fold_writeRow_bare [OF conjunct1 [OF agree] assms(1)]
    by (auto simp: sqlDrain_def memDrain_def Let_def split_def prod_eq_iff split: if_splits)
qed

lemma outbox_stores_agree_witness:
  "\<exists>report sql' mem'. sqlDrain (exRelay 2) 5 (\<lambda>i. False) (\<lambda>i. \<lparr>paResult = Inl ''down'', paAfterMs = 10\<rparr>) (\<lambda>i. 0) exTable = (Inr report, sql') \<and>
     memDrain (exRelay 2) 5 (\<lambda>i. False) (\<lambda>i. \<lparr>paResult = Inl ''down'', paAfterMs = 10\<rparr>) (\<lambda>i. 0) exTable = (report, mem') \<and>
     map bare sql' = map bare mem' \<and> drClaimed report = 2"
proof -
  let ?a = "\<lambda>i :: string. \<lparr>paResult = Inl ''down'', paAfterMs = 10\<rparr>"
  have len: "length (claimRows 5 2 (\<lambda>i. False) exTable) = 2" using exTable_props(3) by (simp add: claimRows_length)
  have took: "sum_list (map (\<lambda>r. snd (settled (exRelay 2) ?a r)) rows) \<le> int (length rows) * 10" for rows
    using sum_list_at_most [of "map (\<lambda>r. snd (settled (exRelay 2) ?a r)) rows" 10] by (simp add: settled_def deliver_def exRelay_def)
  obtain report sql' where run: "sqlDrain (exRelay 2) 5 (\<lambda>i. False) ?a (\<lambda>i. 0) exTable = (Inr report, sql')" and "drClaimed report = 2"
    using took [of "claimRows 5 2 (\<lambda>i. False) exTable"] len
    by (auto simp: sqlDrain_def deliverRows_eq Let_def exRelay_def drainTimeoutMs_def split: if_splits)
  then show ?thesis using outbox_stores_agree [OF refl run] by blast
qed

section \<open>A broker that does not answer\<close>

text \<open>No publish of a pass is answered in time, and together they outlast the transaction.\<close>

definition hangs :: "relayConfig \<Rightarrow> int \<times> (string \<Rightarrow> publishAnswer) \<times> (string \<Rightarrow> rat) \<Rightarrow> bool" where
  "hangs cfg t \<longleftrightarrow> (\<forall>i. rcPublishTimeoutMs cfg < paAfterMs (fst (snd t) i))"

definition outlasts :: "relayConfig \<Rightarrow> outboxRow list \<Rightarrow> int \<times> (string \<Rightarrow> publishAnswer) \<times> (string \<Rightarrow> rat) \<Rightarrow> bool" where
  "outlasts cfg table t \<longleftrightarrow> drainTimeoutMs < int (min (rcBatchSize cfg) (dueCount (fst t) table)) * rcPublishTimeoutMs cfg"

lemma hung_took:
  assumes "\<forall>r \<in> set table. isDomainEventName (neName (obEvent r))" and "hangs cfg (now, answers, random)"
  shows "sum_list (map (\<lambda>r. snd (settled cfg answers r)) (claimRows now (rcBatchSize cfg) (\<lambda>i. False) table))
    = int (min (rcBatchSize cfg) (dueCount now table)) * rcPublishTimeoutMs cfg"
proof -
  let ?rows = "claimRows now (rcBatchSize cfg) (\<lambda>i. False) table"
  have "snd (settled cfg answers r) = rcPublishTimeoutMs cfg" if "r \<in> set ?rows" for r
    using assms(1) claimRows_set [OF that] assms(2) by (simp add: settled_def deliver_def hangs_def not_le [symmetric])
  then have "map (\<lambda>r. snd (settled cfg answers r)) ?rows = replicate (length ?rows) (rcPublishTimeoutMs cfg)"
    by (simp add: map_replicate_const [symmetric])
  then show ?thesis by (simp add: sum_list_replicate claimRows_length)
qed

lemma hung_counts:
  assumes known: "\<forall>r \<in> set table. isDomainEventName (neName (obEvent r))" and ids: "distinct (map obId table)"
    and hung: "hangs cfg t" and short: "\<not> outlasts cfg table t"
  shows "map obAttempts (relayTick cfg t table)
    = map (\<lambda>r. obAttempts r + (if r \<in> set (claimRows (fst t) (rcBatchSize cfg) (\<lambda>i. False) table) then 1 else 0)) table"
proof -
  obtain now answers random where t: "t = (now, answers, random)" by (cases t)
  let ?rows = "claimRows now (rcBatchSize cfg) (\<lambda>i. False) table"
  let ?f = "\<lambda>r. fst (sqlDeliverOne now (retryAtOf cfg now (random (obId r))) r (fst (settled cfg answers r)))"
  have f: "obId (?f r) = obId r" for r by (simp add: sqlDeliverOne_def markDead_def Let_def split: sum.splits option.splits)
  have one: "obAttempts (?f r) = obAttempts r + 1" for r by (simp add: sqlDeliverOne_def markDead_def split: sum.splits option.splits)
  have "relayTick cfg t table = map (rewritten (map ?f ?rows)) table"
    using short hung_took [OF known hung [unfolded t]] t
    by (simp add: relayTick_def sqlDrain_def deliverRows_eq outlasts_def fold_writeRow f comp_def claimRows_distinct [OF ids] Let_def)
  moreover have "obAttempts (rewritten (map ?f ?rows) r) = obAttempts r + (if r \<in> set ?rows then 1 else 0)" if "r \<in> set table" for r
  proof (cases "r \<in> set ?rows")
    case True
    then show ?thesis using rewritten_image [of ?rows ?f r] claimRows_distinct [OF ids] f one by simp
  next
    case False
    have "obId q \<noteq> obId r" if "q \<in> set ?rows" for q
      using claimRows_set [OF that] \<open>r \<in> set table\<close> False that ids by (metis distinct_map inj_onD)
    then have "find (\<lambda>w. obId w = obId r) (map ?f ?rows) = None" by (auto simp: find_None_iff f)
    then show ?thesis using False by (simp add: rewritten_def)
  qed
  ultimately show ?thesis using t by simp
qed


definition exBacklog :: "outboxRow list" where
  "exBacklog = map (\<lambda>n. stagedRow (decString n) 1 (exEvent (decString n) 1)) [0..<7]"


end
