(* ===== verification/JsonText.thy ===== *)
theory JsonText
  imports AuditHash
begin

text \<open>
  \<open>JSON.parse\<close> and \<open>JSON.stringify\<close> as the event codec uses them, over the values of
  \<open>AuditHash\<close>. Text is a list of UTF-8 bytes, so a \<open>\u\<close> escape stands for the bytes of its
  code point, a surrogate pair for the bytes of the one it encodes. An object keeps its members
  in the order they were first written, the last value of a repeated key winning. A number with
  a fraction or an exponent has no value among the integers of \<open>jsValue\<close>; it is kept as its
  text, in \<open>VOther\<close>.

  The parser recurses with fuel; the length of the text is enough.
\<close>

section \<open>Reading\<close>

definition isWs :: "char \<Rightarrow> bool" where
  "isWs c \<longleftrightarrow> c \<in> {CHR 0x20, CHR 0x09, CHR 0x0A, CHR 0x0D}"

definition skipWs :: "string \<Rightarrow> string" where
  "skipWs s = dropWhile isWs s"

definition hexVal :: "char \<Rightarrow> nat option" where
  "hexVal c = (let n = (of_char c :: nat) in
     if 48 \<le> n \<and> n \<le> 57 then Some (n - 48)
     else if 97 \<le> n \<and> n \<le> 102 then Some (n - 87)
     else if 65 \<le> n \<and> n \<le> 70 then Some (n - 55) else None)"

fun readUnit :: "string \<Rightarrow> (nat \<times> string) option" where
  "readUnit (a # b # c # d # rest) = (case (hexVal a, hexVal b, hexVal c, hexVal d) of
     (Some w, Some x, Some y, Some z) \<Rightarrow> Some (((w * 16 + x) * 16 + y) * 16 + z, rest) | _ \<Rightarrow> None)"
| "readUnit _ = None"

definition utf8 :: "nat \<Rightarrow> string" where
  "utf8 n = (if n < 128 then [char_of n]
     else if n < 2048 then [char_of (192 + n div 64), char_of (128 + n mod 64)]
     else if n < 65536 then [char_of (224 + n div 4096), char_of (128 + n div 64 mod 64), char_of (128 + n mod 64)]
     else [char_of (240 + n div 262144), char_of (128 + n div 4096 mod 64), char_of (128 + n div 64 mod 64), char_of (128 + n mod 64)])"

text \<open>The code point after \<open>\u\<close>: one unit, or a high surrogate with the low one that follows it.\<close>

definition readPoint :: "string \<Rightarrow> (nat \<times> string) option" where
  "readPoint s = (case readUnit s of
     None \<Rightarrow> None
   | Some (hi, rest) \<Rightarrow>
       if 0xD800 \<le> hi \<and> hi < 0xDC00 \<and> take 2 rest = [CHR 0x5C, CHR ''u'']
       then (case readUnit (drop 2 rest) of
           Some (lo, rest') \<Rightarrow> if 0xDC00 \<le> lo \<and> lo < 0xE000
             then Some (0x10000 + (hi - 0xD800) * 0x400 + (lo - 0xDC00), rest') else Some (hi, rest)
         | None \<Rightarrow> Some (hi, rest))
       else Some (hi, rest))"

lemma readUnit_shorter: "readUnit s = Some (n, rest) \<Longrightarrow> length rest < length s"
  by (cases s rule: readUnit.cases) (auto split: option.splits)

lemma readPoint_shorter: "readPoint s = Some (n, rest) \<Longrightarrow> length rest < length s"
proof -
  assume r: "readPoint s = Some (n, rest)"
  then obtain hi mid where hi: "readUnit s = Some (hi, mid)" by (auto simp: readPoint_def split: option.splits)
  have "length rest \<le> length mid"
    using r hi readUnit_shorter [of "drop 2 mid"] by (auto simp: readPoint_def split: if_splits option.splits dest!: less_imp_le)
  then show ?thesis using readUnit_shorter [OF hi] by simp
qed

definition escapeOf :: "char \<Rightarrow> char option" where
  "escapeOf c = map_of [(CHR 0x22, CHR 0x22), (CHR 0x5C, CHR 0x5C), (CHR ''/'', CHR ''/''), (CHR ''b'', CHR 0x08),
     (CHR ''f'', CHR 0x0C), (CHR ''n'', CHR 0x0A), (CHR ''r'', CHR 0x0D), (CHR ''t'', CHR 0x09)] c"

definition prefixed :: "string \<Rightarrow> (string \<times> string) option \<Rightarrow> (string \<times> string) option" where
  "prefixed cs r = map_option (\<lambda>(s, rest). (cs @ s, rest)) r"

lemma prefixed_cong [fundef_cong]: "r = r' \<Longrightarrow> cs = cs' \<Longrightarrow> prefixed cs r = prefixed cs' r'"
  by simp

text \<open>The rest of a string, after its opening quote.\<close>

function parseChars :: "string \<Rightarrow> (string \<times> string) option" where
  "parseChars [] = None"
| "parseChars (c # s) =
     (if c = CHR 0x22 then Some ([], s)
      else if c = CHR 0x5C
      then (case s of
          [] \<Rightarrow> None
        | e # t \<Rightarrow>
            if e = CHR ''u'' then (case readPoint t of None \<Rightarrow> None | Some (n, rest) \<Rightarrow> prefixed (utf8 n) (parseChars rest))
            else (case escapeOf e of None \<Rightarrow> None | Some d \<Rightarrow> prefixed [d] (parseChars t)))
      else if (of_char c :: nat) < 32 then None
      else prefixed [c] (parseChars s))"
  by pat_completeness auto
termination
  by (relation "measure length") (auto dest: readPoint_shorter)

text \<open>A number: sign, digits without a leading zero, fraction, exponent.\<close>

definition spanDigits :: "string \<Rightarrow> string \<times> string" where
  "spanDigits s = (takeWhile isDigit s, dropWhile isDigit s)"

definition parseFrac :: "string \<Rightarrow> (string \<times> string) option" where
  "parseFrac s = (if s \<noteq> [] \<and> hd s = CHR ''.''
     then (case spanDigits (tl s) of (ds, rest) \<Rightarrow> if ds = [] then None else Some (CHR ''.'' # ds, rest))
     else Some ([], s))"

definition parseExp :: "string \<Rightarrow> (string \<times> string) option" where
  "parseExp s = (if s \<noteq> [] \<and> (hd s = CHR ''e'' \<or> hd s = CHR ''E'')
     then (let signed = tl s \<noteq> [] \<and> (hd (tl s) = CHR ''+'' \<or> hd (tl s) = CHR ''-'');
               sign = (if signed then [hd (tl s)] else []);
               body = (if signed then tl (tl s) else tl s)
           in case spanDigits body of (ds, rest) \<Rightarrow> if ds = [] then None else Some (hd s # sign @ ds, rest))
     else Some ([], s))"

definition parseNumber :: "string \<Rightarrow> (jsValue \<times> string) option" where
  "parseNumber s = (let neg = s \<noteq> [] \<and> hd s = CHR ''-''; s1 = (if neg then tl s else s) in
     case spanDigits s1 of (ds, rest) \<Rightarrow>
       if ds = [] \<or> (hd ds = CHR ''0'' \<and> tl ds \<noteq> []) then None
       else (case parseFrac rest of None \<Rightarrow> None | Some (fr, rest1) \<Rightarrow>
         (case parseExp rest1 of None \<Rightarrow> None | Some (ex, rest2) \<Rightarrow>
           Some (if fr = [] \<and> ex = [] then VNum (if neg then - int (decValue ds) else int (decValue ds))
                 else VOther ((if neg then ''-'' else []) @ ds @ fr @ ex), rest2))))"

definition parseWord :: "string \<Rightarrow> jsValue \<Rightarrow> string \<Rightarrow> (jsValue \<times> string) option" where
  "parseWord w v s = (if take (length w) s = w then Some (v, drop (length w) s) else None)"

fun parseValue :: "nat \<Rightarrow> string \<Rightarrow> (jsValue \<times> string) option"
  and parseElems :: "nat \<Rightarrow> string \<Rightarrow> (jsValue list \<times> string) option"
  and parseMembers :: "nat \<Rightarrow> (string \<times> jsValue) list \<Rightarrow> string \<Rightarrow> ((string \<times> jsValue) list \<times> string) option" where
  "parseValue 0 s = None"
| "parseValue (Suc n) s = (case skipWs s of
     [] \<Rightarrow> None
   | c # t \<Rightarrow>
       if c = CHR ''{'' then (case skipWs t of
           [] \<Rightarrow> None
         | d # u \<Rightarrow> if d = CHR ''}'' then Some (VObj [], u) else map_option (map_prod VObj id) (parseMembers n [] t))
       else if c = CHR ''['' then (case skipWs t of
           [] \<Rightarrow> None
         | d # u \<Rightarrow> if d = CHR '']'' then Some (VArr [], u) else map_option (map_prod VArr id) (parseElems n t))
       else if c = CHR 0x22 then map_option (map_prod VStr id) (parseChars t)
       else if c = CHR ''n'' then parseWord ''null'' VNull (c # t)
       else if c = CHR ''t'' then parseWord ''true'' (VBool True) (c # t)
       else if c = CHR ''f'' then parseWord ''false'' (VBool False) (c # t)
       else parseNumber (c # t))"
| "parseElems 0 s = None"
| "parseElems (Suc n) s = (case parseValue n s of
     None \<Rightarrow> None
   | Some (v, rest) \<Rightarrow> (case skipWs rest of
       [] \<Rightarrow> None
     | c # t \<Rightarrow> if c = CHR '','' then map_option (map_prod (Cons v) id) (parseElems n t)
                else if c = CHR '']'' then Some ([v], t) else None))"
| "parseMembers 0 acc s = None"
| "parseMembers (Suc n) acc s = (case skipWs s of
     [] \<Rightarrow> None
   | q # s1 \<Rightarrow> if q \<noteq> CHR 0x22 then None else (case parseChars s1 of
       None \<Rightarrow> None
     | Some (k, s2) \<Rightarrow> (case skipWs s2 of
         [] \<Rightarrow> None
       | p # s3 \<Rightarrow> if p \<noteq> CHR '':'' then None else (case parseValue n s3 of
           None \<Rightarrow> None
         | Some (v, s4) \<Rightarrow> (case skipWs s4 of
             [] \<Rightarrow> None
           | c # t \<Rightarrow> if c = CHR '','' then parseMembers n (AList.update k v acc) t
                      else if c = CHR ''}'' then Some (AList.update k v acc, t) else None)))))"

definition jsonParse :: "string \<Rightarrow> jsValue option" where
  "jsonParse s = (case parseValue (Suc (length s)) s of
     Some (v, rest) \<Rightarrow> if skipWs rest = [] then Some v else None
   | None \<Rightarrow> None)"

section \<open>Writing\<close>

text \<open>\<open>JSON.stringify\<close> leaves out members that are undefined and writes undefined elements as null.\<close>

fun withoutUndefined :: "jsValue \<Rightarrow> jsValue" where
  "withoutUndefined (VArr vs) = VArr (map (\<lambda>v. if v = VUndefined then VNull else withoutUndefined v) vs)"
| "withoutUndefined (VObj ms) = VObj (map (\<lambda>(k, v). (k, withoutUndefined v)) (filter (\<lambda>(k, v). v \<noteq> VUndefined) ms))"
| "withoutUndefined (VNonFinite k) = VNull"
| "withoutUndefined v = v"

definition jsonStringify :: "jsValue \<Rightarrow> string" where
  "jsonStringify v = renderJson (withoutUndefined v)"

text \<open>Plain JSON whose objects have no repeated key.\<close>

fun plainJson :: "jsValue \<Rightarrow> bool" where
  "plainJson (VArr vs) = list_all plainJson vs"
| "plainJson (VObj ms) = (distinct (map fst ms) \<and> list_all (\<lambda>(k, v). plainJson v) ms)"
| "plainJson v = isJson v"

section \<open>Parsing what was written\<close>

lemma utf8_small: "n < 32 \<Longrightarrow> utf8 n = [char_of n]"
  by (simp add: utf8_def)

lemma hexVal_hexDigit: "d < 16 \<Longrightarrow> hexVal (hexDigit d) = Some d"
  by (auto simp: hexVal_def hexDigit_def Let_def)

lemma hexVal_0: "hexVal (CHR ''0'') = Some 0"
  by (simp add: hexVal_def Let_def)

lemma readPoint_control:
  assumes "n < 32"
  shows "readPoint (CHR ''0'' # CHR ''0'' # hexDigit (n div 16) # hexDigit (n mod 16) # r) = Some (n, r)"
  using assms by (simp add: readPoint_def hexVal_0 hexVal_hexDigit)

lemma escapeOf_unescape:
  "quoteChar c = [CHR 0x5C, x] \<Longrightarrow> escapeOf x = Some c"
  by (auto simp: quoteChar_def escapeOf_def split: if_splits)

lemma plain_char: "quoteChar c = [c] \<Longrightarrow> c \<noteq> CHR 0x5C \<Longrightarrow> c \<noteq> CHR 0x22 \<Longrightarrow> \<not> (of_char c :: nat) < 32"
  by (auto simp: quoteChar_def split: if_splits)

lemma parseChars_quoteChar: "parseChars (quoteChar c @ r) = prefixed [c] (parseChars r)"
proof (cases c rule: quoteChar_cases)
  case 1
  then show ?thesis using plain_char by simp
next
  case (2 x)
  then show ?thesis using escapeOf_unescape [of c x] by simp
next
  case 3
  then show ?thesis using readPoint_control [OF 3(2), of r] by (simp add: utf8_small)
qed

lemma parseChars_written: "parseChars (concat (map quoteChar s) @ CHR 0x22 # r) = Some (s, r)"
  by (induction s) (simp_all add: parseChars_quoteChar prefixed_def)

text \<open>A rest that cannot continue a number in any way.\<close>

definition numberEnds :: "string \<Rightarrow> bool" where
  "numberEnds r \<longleftrightarrow> r = [] \<or> (\<not> isDigit (hd r) \<and> hd r \<notin> {CHR ''.'', CHR ''e'', CHR ''E''})"

lemma numberEnds_marks [simp]: "numberEnds []" "numberEnds (CHR '','' # r)" "numberEnds (CHR '']'' # r)" "numberEnds (CHR ''}'' # r)"
  by (simp_all add: numberEnds_def)

lemma spanDigits_written: "list_all isDigit ds \<Longrightarrow> numberEnds r \<Longrightarrow> spanDigits (ds @ r) = (ds, r)"
  by (cases r) (auto simp: spanDigits_def numberEnds_def takeWhile_append2 dropWhile_append2 list_all_iff)

lemma no_tail: "numberEnds r \<Longrightarrow> parseFrac r = Some ([], r)" "numberEnds r \<Longrightarrow> parseExp r = Some ([], r)"
  by (auto simp: numberEnds_def parseFrac_def parseExp_def)

lemma decString_no_zero: "hd (decString n) = CHR ''0'' \<Longrightarrow> tl (decString n) = []"
proof (induction n rule: decString.induct)
  case (1 n)
  show ?case
  proof (cases "n < 10")
    case True
    then show ?thesis by (subst decString.simps) simp
  next
    case False
    have hd: "hd (decString n) = hd (decString (n div 10))" by (subst decString.simps) (simp add: False)
    then have "tl (decString (n div 10)) = []" using 1 False by simp
    then have "decString (n div 10) = [CHR ''0'']" using hd "1.prems" by (cases "decString (n div 10)") simp_all
    then have "n div 10 = decValue ''0''" by (metis decValue_decString)
    then have "n div 10 = 0" by (simp add: decValue_def digitVal_def)
    then show ?thesis using False by simp
  qed
qed

lemma parseNumber_written:
  assumes "numberEnds r"
  shows "parseNumber (intString n @ r) = Some (VNum n, r)"
proof -
  have digits: "spanDigits (decString k @ r) = (decString k, r)" for k by (rule spanDigits_written [OF _ assms]) simp
  have first: "hd (decString k) \<noteq> CHR ''-''" for k using decString_hd [of k] by auto
  have "hd (decString k @ r) \<noteq> CHR ''-''" for k using first [of k] by simp
  then show ?thesis
    using decString_no_zero no_tail [OF assms]
    by (cases "n < 0") (auto simp: parseNumber_def intString_def digits Let_def)
qed

lemma parseNumber_first: "openerOk (VNum n) c \<Longrightarrow> c \<notin> {CHR ''{'', CHR ''['', CHR 0x22, CHR ''n'', CHR ''t'', CHR ''f''} \<and> \<not> isWs c"
  by (auto simp: isWs_def isDigit_def)

lemma skipWs_opener: "openerOk v c \<Longrightarrow> skipWs (c # s) = c # s"
  by (cases v) (auto simp: skipWs_def isWs_def isDigit_def)

lemma skipWs_marks [simp]: "skipWs (CHR '','' # s) = CHR '','' # s" "skipWs (CHR '']'' # s) = CHR '']'' # s"
  "skipWs (CHR ''}'' # s) = CHR ''}'' # s" "skipWs (CHR '':'' # s) = CHR '':'' # s" "skipWs (CHR 0x22 # s) = CHR 0x22 # s"
  "skipWs (CHR ''['' # s) = CHR ''['' # s" "skipWs (CHR ''{'' # s) = CHR ''{'' # s" "skipWs [] = []"
  by (simp_all add: skipWs_def isWs_def)

lemma plain_isJson: "plainJson v \<Longrightarrow> isJson v"
  by (induction v) (auto simp: list_all_iff split: prod.splits)

text \<open>Reading back one value with as much fuel as it is long.\<close>

definition readsBack :: "jsValue \<Rightarrow> bool" where
  "readsBack v = (\<forall>n r. length (renderJson v) \<le> n \<and> numberEnds r \<longrightarrow> parseValue n (renderJson v @ r) = Some (v, r))"

lemma readsBackD: "readsBack v \<Longrightarrow> length (renderJson v) \<le> n \<Longrightarrow> numberEnds r \<Longrightarrow> parseValue n (renderJson v @ r) = Some (v, r)"
  by (simp add: readsBack_def)

abbreviation commaTail :: "string list \<Rightarrow> string" where
  "commaTail ps \<equiv> concat (map (\<lambda>q. CHR '','' # q) ps)"

lemma elems_back:
  assumes "readsBack v" and "\<forall>w \<in> set vs. readsBack w" and "length (renderJson v @ commaTail (map renderJson vs)) < n"
  shows "parseElems n (renderJson v @ commaTail (map renderJson vs) @ CHR '']'' # r) = Some (v # vs, r)"
  using assms
proof (induction vs arbitrary: v n)
  case Nil
  then obtain m where n: "n = Suc m" and m: "length (renderJson v) \<le> m" by (cases n) auto
  show ?case using readsBackD [OF Nil.prems(1) m, of "CHR '']'' # r"] by (simp add: n)
next
  case (Cons w ws)
  then obtain m where n: "n = Suc m" and m: "length (renderJson v) \<le> m" by (cases n) auto
  have "parseElems m (renderJson w @ commaTail (map renderJson ws) @ CHR '']'' # r) = Some (w # ws, r)"
    by (rule Cons.IH) (use Cons.prems n in auto)
  then show ?case
    using readsBackD [OF Cons.prems(1) m, of "CHR '','' # renderJson w @ commaTail (map renderJson ws) @ CHR '']'' # r"] by (simp add: n)
qed

abbreviation memberText :: "string \<times> jsValue \<Rightarrow> string" where
  "memberText m \<equiv> (case m of (k, v) \<Rightarrow> jsonString k @ '':'' @ renderJson v)"

lemma update_new: "k \<notin> fst ` set acc \<Longrightarrow> AList.update k v acc = acc @ [(k, v)]"
  by (induction acc) auto

lemma members_back:
  assumes "readsBack (snd kv)" and "\<forall>m \<in> set ms. readsBack (snd m)" and "length (memberText kv @ commaTail (map memberText ms)) < n"
    and "distinct (map fst (acc @ kv # ms))"
  shows "parseMembers n acc (memberText kv @ commaTail (map memberText ms) @ CHR ''}'' # r) = Some (acc @ kv # ms, r)"
  using assms
proof (induction ms arbitrary: kv n acc)
  case Nil
  obtain k v where kv: "kv = (k, v)" by fastforce
  from Nil kv obtain m where n: "n = Suc m" and m: "length (renderJson v) \<le> m" by (cases n) auto
  have new: "AList.update k v acc = acc @ [(k, v)]" by (rule update_new) (use Nil.prems(4) kv in auto)
  show ?case
    using readsBackD [of v m "CHR ''}'' # r"] Nil.prems(1) m new
    by (simp add: n kv jsonString_def parseChars_written)
next
  case (Cons w ws)
  obtain k v where kv: "kv = (k, v)" by fastforce
  from Cons.prems kv obtain m where n: "n = Suc m" and m: "length (renderJson v) \<le> m" by (cases n) auto
  have new: "AList.update k v acc = acc @ [(k, v)]" by (rule update_new) (use Cons.prems(4) kv in auto)
  have rest: "parseMembers m (acc @ [(k, v)]) (memberText w @ commaTail (map memberText ws) @ CHR ''}'' # r) = Some ((acc @ [(k, v)]) @ w # ws, r)"
    by (rule Cons.IH) (use Cons.prems kv n in \<open>auto simp: split_def\<close>)
  show ?case
    using readsBackD [of v m "CHR '','' # memberText w @ commaTail (map memberText ws) @ CHR ''}'' # r"] Cons.prems(1) m new rest
    by (simp add: n kv jsonString_def parseChars_written)
qed


lemma render_cons:
  assumes "isJson v"
  obtains c s where "renderJson v = c # s" "openerOk v c"
  using render_opener [OF assms] by (cases "renderJson v") auto

lemma joinComma_cons: "joinComma (p # ps) = p @ commaTail ps"
  by simp

lemma array_back:
  assumes "\<forall>w \<in> set vs. readsBack w" and "\<forall>w \<in> set vs. isJson w"
  shows "readsBack (VArr vs)"
  unfolding readsBack_def
proof (intro allI impI, elim conjE)
  fix n r assume n: "length (renderJson (VArr vs)) \<le> n" and r: "numberEnds r"
  then obtain m where m: "n = Suc m" by (cases n) auto
  show "parseValue n (renderJson (VArr vs) @ r) = Some (VArr vs, r)"
  proof (cases vs)
    case Nil
    then show ?thesis by (simp add: m)
  next
    case (Cons v ws)
    obtain c s where c: "renderJson v = c # s" "openerOk v c" using render_cons assms(2) Cons by (metis list.set_intros(1))
    have "parseElems m (renderJson v @ commaTail (map renderJson ws) @ CHR '']'' # r) = Some (v # ws, r)"
      by (rule elems_back) (use assms(1) Cons n m in auto)
    moreover have "skipWs (renderJson v @ x) = c # s @ x" and "c \<noteq> CHR '']''" for x
      using c skipWs_opener [OF c(2)] opener_not_closer [OF c(2)] by simp_all
    ultimately show ?thesis using Cons by (simp add: m)
  qed
qed

lemma object_back:
  assumes "\<forall>p \<in> set ms. readsBack (snd p)" and "distinct (map fst ms)"
  shows "readsBack (VObj ms)"
  unfolding readsBack_def
proof (intro allI impI, elim conjE)
  fix n r assume n: "length (renderJson (VObj ms)) \<le> n" and r: "numberEnds r"
  then obtain m where m: "n = Suc m" by (cases n) auto
  show "parseValue n (renderJson (VObj ms) @ r) = Some (VObj ms, r)"
  proof (cases ms)
    case Nil
    then show ?thesis by (simp add: m)
  next
    case (Cons p ps)
    have "parseMembers m [] (memberText p @ commaTail (map memberText ps) @ CHR ''}'' # r) = Some ([] @ p # ps, r)"
      by (rule members_back) (use assms Cons n m in auto)
    moreover have "skipWs (memberText p @ x) = CHR 0x22 # concat (map quoteChar (fst p)) @ CHR 0x22 # CHR '':'' # renderJson (snd p) @ x" for x
      by (cases p) (simp add: jsonString_def)
    ultimately show ?thesis using Cons by (simp add: m)
  qed
qed

lemma number_back: "readsBack (VNum k)"
  unfolding readsBack_def
proof (intro allI impI, elim conjE)
  fix n r assume n: "length (renderJson (VNum k)) \<le> n" and r: "numberEnds r"
  then obtain m where m: "n = Suc m" using intString_hd(1) [of k] by (cases n) auto
  obtain c s where c: "intString k = c # s" "openerOk (VNum k) c" using render_cons [of "VNum k"] by auto
  from parseNumber_first [OF c(2)] skipWs_opener [OF c(2)] parseNumber_written [OF r, of k] c(1)
  show "parseValue n (renderJson (VNum k) @ r) = Some (VNum k, r)" by (simp add: m)
qed

lemma readsBack_plain: "plainJson v \<Longrightarrow> readsBack v"
proof (induction v)
  case (VNum k)
  show ?case by (rule number_back)
next
  case (VArr vs)
  then show ?case by (intro array_back) (auto simp: list_all_iff plain_isJson)
next
  case (VObj ms)
  have "readsBack (snd p)" if "p \<in> set ms" for p
    using VObj.IH [OF that, of "snd p"] VObj.prems that by (cases p) (fastforce simp: list_all_iff)
  then show ?case using VObj.prems by (intro object_back) auto
next
  case VNull
  show ?case by (auto simp: readsBack_def skipWs_def isWs_def parseWord_def Suc_le_eq gr0_conv_Suc dest!: less_imp_Suc_add)
next
  case (VBool b)
  show ?case by (cases b) (auto simp: readsBack_def skipWs_def isWs_def parseWord_def dest!: Suc_le_D)
next
  case (VStr s)
  show ?case by (auto simp: readsBack_def jsonString_def parseChars_written dest!: Suc_le_D)
qed auto

lemma jsonParse_render: "plainJson v \<Longrightarrow> jsonParse (renderJson v) = Some v"
  using readsBackD [OF readsBack_plain, of v "Suc (length (renderJson v))" "[]"] by (simp add: jsonParse_def)

lemma withoutUndefined_plain: "plainJson v \<Longrightarrow> withoutUndefined v = v"
proof (induction v)
  case (VArr vs)
  have "w \<noteq> VUndefined \<and> withoutUndefined w = w" if "w \<in> set vs" for w
    using VArr that by (auto simp: list_all_iff)
  then show ?case by (simp add: map_idI)
next
  case (VObj ms)
  have each: "snd p \<noteq> VUndefined \<and> withoutUndefined (snd p) = snd p" if "p \<in> set ms" for p
    using VObj.IH [OF that, of "snd p"] VObj.prems that by (cases p) (fastforce simp: list_all_iff)
  then have "filter (\<lambda>(k, v). v \<noteq> VUndefined) ms = ms" by (fastforce simp: filter_id_conv)
  then show ?case using each by (auto intro!: map_idI)
qed auto

text \<open>
  Plain JSON text is read back as the value it was written from: whatever plain value, of any
  depth and with any bytes in its strings, \<open>JSON.parse\<close> of its \<open>JSON.stringify\<close> is that value.
\<close>

lemma json_round_trip:
  assumes "plainJson v"
  shows "jsonParse (jsonStringify v) = Some v"
  using jsonParse_render [OF assms] withoutUndefined_plain [OF assms] by (simp add: jsonStringify_def)

end
