(* ===== verification/EventCodec.thy ===== *)
theory EventCodec
  imports Outbox JsonText Broker
begin

text \<open>
  Domain events on the wire: \<open>messaging/domain-event-codec.ts\<close>, and the broker publisher of the
  outbox, \<open>messaging/broker-outbox.publisher.ts\<close>.

  \<open>EventContract.validate\<close> is the parameter \<open>validate\<close>: the schema version that accepted a
  payload, or the version that refused it with its findings. \<open>Date.prototype.toISOString\<close> and
  \<open>new Date(text)\<close> are a \<open>dateLib\<close>, of which only \<open>dateLaws\<close> is used: a printed date is read
  back. The propagator's trace headers are a list of their own. The parser's own wording of why a
  value is not JSON is left out of the rejection.
\<close>

section \<open>Dates and numbers of the platform\<close>

record dateLib =
  dlIso :: "int \<Rightarrow> string"
  dlParse :: "string \<Rightarrow> int option"

definition dateLaws :: "dateLib \<Rightarrow> bool" where
  "dateLaws dl \<longleftrightarrow> (\<forall>t. dlParse dl (dlIso dl t) = Some t)"

text \<open>\<open>Number(text)\<close>: \<open>None\<close> is NaN or an infinity.\<close>

definition trimWs :: "string \<Rightarrow> string" where
  "trimWs s = rev (skipWs (rev (skipWs s)))"

definition expValue :: "string \<Rightarrow> int option" where
  "expValue s = (if s = [] then Some 0
     else if hd s = CHR ''e'' \<or> hd s = CHR ''E''
     then (let neg = tl s \<noteq> [] \<and> hd (tl s) = CHR ''-''; plus = tl s \<noteq> [] \<and> hd (tl s) = CHR ''+'';
               ds = (if neg \<or> plus then tl (tl s) else tl s)
           in if ds \<noteq> [] \<and> list_all isDigit ds then Some (if neg then - int (decValue ds) else int (decValue ds)) else None)
     else None)"

definition decimalValue :: "string \<Rightarrow> rat option" where
  "decimalValue s = (case spanDigits s of (ip, r1) \<Rightarrow>
     let dotted = r1 \<noteq> [] \<and> hd r1 = CHR ''.'' in
     case (if dotted then spanDigits (tl r1) else ([], r1)) of (fp, r2) \<Rightarrow>
       if ip = [] \<and> fp = [] then None
       else map_option (\<lambda>e. (of_nat (decValue ip) + of_nat (decValue fp) / 10 ^ length fp) * 10 powi e) (expValue r2))"

definition radixValue :: "nat \<Rightarrow> string \<Rightarrow> rat option" where
  "radixValue radix ds = (if ds \<noteq> [] \<and> list_all (\<lambda>c. case hexVal c of Some d \<Rightarrow> d < radix | None \<Rightarrow> False) ds
     then Some (of_nat (foldl (\<lambda>n c. radix * n + the (hexVal c)) 0 ds)) else None)"

definition numberOf :: "string \<Rightarrow> rat option" where
  "numberOf s = (let t = trimWs s in
     if t = [] then Some 0
     else if length t > 2 \<and> hd t = CHR ''0'' \<and> hd (tl t) \<in> {CHR ''x'', CHR ''X''} then radixValue 16 (drop 2 t)
     else if length t > 2 \<and> hd t = CHR ''0'' \<and> hd (tl t) \<in> {CHR ''o'', CHR ''O''} then radixValue 8 (drop 2 t)
     else if length t > 2 \<and> hd t = CHR ''0'' \<and> hd (tl t) \<in> {CHR ''b'', CHR ''B''} then radixValue 2 (drop 2 t)
     else if hd t = CHR ''-'' then map_option uminus (decimalValue (tl t))
     else if hd t = CHR ''+'' then decimalValue (tl t)
     else decimalValue t)"

section \<open>The codec\<close>

definition eventHeader :: "string \<Rightarrow> string" where
  "eventHeader field = the (map_of [(''name'', ''event-name''), (''id'', ''event-id''), (''occurredAt'', ''event-occurred-at''),
     (''correlationId'', ''correlation-id''), (''contentType'', ''content-type''), (''schemaVersion'', ''event-schema-version'')] field)"

definition eventContentType :: string where
  "eventContentType = ''application/json''"

record domainEvent =
  deName :: string
  dePayload :: jsValue
  deEventId :: string
  deOccurredAt :: int
  deCorrelation :: "string option"

record decodedEvent = domainEvent +
  deWriterVersion :: "nat option"

type_synonym contract = "string \<Rightarrow> jsValue \<Rightarrow> (string list \<times> nat) + nat"

text \<open>Schema versions are counted from one.\<close>

definition contractLaws :: "contract \<Rightarrow> bool" where
  "contractLaws validate \<longleftrightarrow> (\<forall>name payload v. validate name payload = Inr v \<longrightarrow> 1 \<le> v)"

text \<open>Every event of the catalogue is keyed by its user.\<close>

definition partitionKeyFor :: "jsValue \<Rightarrow> string option" where
  "partitionKeyFor payload = (case payload of
     VObj ms \<Rightarrow> (case map_of ms ''userId'' of Some (VStr s) \<Rightarrow> Some s | _ \<Rightarrow> None)
   | _ \<Rightarrow> None)"

definition encodeDomainEvent :: "dateLib \<Rightarrow> contract \<Rightarrow> (string \<times> string) list \<Rightarrow> string \<Rightarrow> domainEvent
    \<Rightarrow> (string list \<times> nat) + outgoingMessage" where
  "encodeDomainEvent dl validate trace topic event =
     rbind (validate (deName event) (dePayload event)) (\<lambda>schemaVersion.
       let headers = [(eventHeader ''name'', deName event), (eventHeader ''id'', deEventId event),
             (eventHeader ''occurredAt'', dlIso dl (deOccurredAt event)), (eventHeader ''contentType'', eventContentType),
             (eventHeader ''schemaVersion'', decString schemaVersion)]
             @ (case deCorrelation event of Some c \<Rightarrow> [(eventHeader ''correlationId'', c)] | None \<Rightarrow> [])
       in Inr \<lparr>omTopic = topic, omKey = partitionKeyFor (dePayload event), omValue = jsonStringify (dePayload event),
               omHeaders = fold (\<lambda>(k, v). AList.update k v) trace headers\<rparr>)"

record incomingMessage =
  imTopic :: string
  imPartition :: nat
  imOffset :: nat
  imKey :: "string option"
  imValue :: string
  imHeaders :: "(string \<times> string) list"

datatype decodeError = Undecodable string | ContractViolation "nat option" nat "string list"

definition readWriterVersion :: "(string \<times> string) list \<Rightarrow> decodeError + nat option" where
  "readWriterVersion headers = (case map_of headers (eventHeader ''schemaVersion'') of
     None \<Rightarrow> Inr None
   | Some raw \<Rightarrow> (case numberOf raw of
       Some v \<Rightarrow> if of_int \<lfloor>v\<rfloor> = v \<and> 1 \<le> v then Inr (Some (nat \<lfloor>v\<rfloor>))
         else Inl (Undecodable (quoted (eventHeader ''schemaVersion'') @ '' is not a version number: '' @ raw))
     | None \<Rightarrow> Inl (Undecodable (quoted (eventHeader ''schemaVersion'') @ '' is not a version number: '' @ raw))))"

definition isObject :: "jsValue \<Rightarrow> bool" where
  "isObject v = (case v of VObj _ \<Rightarrow> True | _ \<Rightarrow> False)"

definition missingHeader :: "string \<Rightarrow> decodeError" where
  "missingHeader field = Undecodable (''no '' @ quoted (eventHeader field) @ '' header'')"

definition required :: "decodeError \<Rightarrow> 'a option \<Rightarrow> decodeError + 'a" where
  "required err x = (case x of Some v \<Rightarrow> Inr v | None \<Rightarrow> Inl err)"

definition guardThat :: "bool \<Rightarrow> decodeError \<Rightarrow> decodeError + unit" where
  "guardThat ok err = (if ok then Inr () else Inl err)"

definition decodeDomainEvent :: "dateLib \<Rightarrow> contract \<Rightarrow> incomingMessage \<Rightarrow> decodeError + decodedEvent" where
  "decodeDomainEvent dl validate message = (let header = (\<lambda>field. map_of (imHeaders message) (eventHeader field)) in
     rbind (required (missingHeader ''name'') (header ''name'')) (\<lambda>name.
     rbind (guardThat (isDomainEventName name) (Undecodable (quoted name @ '' is not an event this build knows''))) (\<lambda>_.
     rbind (required (missingHeader ''id'') (header ''id'')) (\<lambda>eventId.
     rbind (guardThat (eventId \<noteq> []) (missingHeader ''id'')) (\<lambda>_.
     rbind (required (missingHeader ''occurredAt'') (header ''occurredAt'')) (\<lambda>raw.
     rbind (required (Undecodable (quoted (eventHeader ''occurredAt'') @ '' is not a date: '' @ raw)) (dlParse dl raw)) (\<lambda>occurredAt.
     rbind (required (Undecodable ''value is not JSON'') (jsonParse (imValue message))) (\<lambda>payload.
     rbind (guardThat (isObject payload) (Undecodable ''value is not a JSON object'')) (\<lambda>_.
     rbind (readWriterVersion (imHeaders message)) (\<lambda>writerVersion.
     case validate name payload of
       Inl (violations, version) \<Rightarrow> Inl (ContractViolation writerVersion version violations)
     | Inr _ \<Rightarrow> Inr \<lparr>deName = name, dePayload = payload, deEventId = eventId, deOccurredAt = occurredAt,
         deCorrelation = header ''correlationId'', deWriterVersion = writerVersion\<rparr>))))))))))"

section \<open>Publishing from the outbox\<close>

definition eventOf :: "newOutboxEvent \<Rightarrow> domainEvent" where
  "eventOf e = \<lparr>deName = neName e, dePayload = nePayload e, deEventId = neEventId e, deOccurredAt = neAt e, deCorrelation = neCorrelation e\<rparr>"

datatype publishError = PayloadRefused "string list" nat | BrokerRefused brokerError

definition brokerPublish :: "dateLib \<Rightarrow> contract \<Rightarrow> (string \<times> string) list \<Rightarrow> string \<Rightarrow> newOutboxEvent \<Rightarrow> broker \<Rightarrow> publishError + broker" where
  "brokerPublish dl validate trace topic e b =
     (case encodeDomainEvent dl validate trace topic (eventOf e) of
        Inl (violations, version) \<Rightarrow> Inl (PayloadRefused violations version)
      | Inr message \<Rightarrow> (case produce [message] b of Inl err \<Rightarrow> Inl (BrokerRefused err) | Inr b' \<Rightarrow> Inr b'))"

section \<open>An encoded event is decoded to itself\<close>

lemma map_of_fold_update: "k \<notin> fst ` set us \<Longrightarrow> map_of (fold (\<lambda>(k, v). AList.update k v) us xs) k = map_of xs k"
  by (induction us arbitrary: xs) (auto simp: update_conv split: prod.splits)

lemma eventHeader_simps [simp]:
  "eventHeader ''name'' = ''event-name''" "eventHeader ''id'' = ''event-id''" "eventHeader ''occurredAt'' = ''event-occurred-at''"
  "eventHeader ''correlationId'' = ''correlation-id''" "eventHeader ''contentType'' = ''content-type''"
  "eventHeader ''schemaVersion'' = ''event-schema-version''"
  by (simp_all add: eventHeader_def)

lemma isDigit_not_ws: "isDigit c \<Longrightarrow> \<not> isWs c"
  by (auto simp: isWs_def isDigit_def)

lemma trimWs_digits: "list_all isDigit ds \<Longrightarrow> trimWs ds = ds"
proof -
  assume ds: "list_all isDigit ds"
  then have "skipWs ds = ds" by (cases ds) (auto simp: skipWs_def isDigit_not_ws)
  moreover have "skipWs (rev ds) = rev ds" using ds by (cases "rev ds") (auto simp: skipWs_def list_all_iff isDigit_not_ws simp flip: set_rev [of ds])
  ultimately show ?thesis by (simp add: trimWs_def)
qed

lemma decString_marks: "c \<in> set (decString n) \<Longrightarrow> c \<notin> {CHR ''-'', CHR ''+'', CHR ''x'', CHR ''X'', CHR ''o'', CHR ''O'', CHR ''b'', CHR ''B''}"
  using decString_digits [of c n] by (auto simp: isDigit_def)

lemma numberOf_decString: "numberOf (decString n) = Some (of_nat n)"
proof -
  have span: "spanDigits (decString n) = (decString n, [])" using spanDigits_written [of "decString n" "[]"] by simp
  have tl2: "length (decString n) > 2 \<Longrightarrow> hd (tl (decString n)) \<in> set (decString n)"
    by (cases "decString n"; cases "tl (decString n)") auto
  have "hd (decString n) \<in> set (decString n)" by simp
  then have "hd (decString n) \<notin> {CHR ''-'', CHR ''+''}" using decString_marks by blast
  moreover have "length (decString n) > 2 \<Longrightarrow> hd (tl (decString n)) \<notin> {CHR ''x'', CHR ''X'', CHR ''o'', CHR ''O'', CHR ''b'', CHR ''B''}"
    using decString_marks [OF tl2] by blast
  ultimately show ?thesis
    using trimWs_digits [OF decString_all_digits [of n]]
    by (auto simp: numberOf_def Let_def decimalValue_def span expValue_def)
qed

text \<open>The names the propagator writes.\<close>

definition traceHeaders :: "(string \<times> string) list \<Rightarrow> bool" where
  "traceHeaders trace \<longleftrightarrow> fst ` set trace \<subseteq> {''traceparent'', ''tracestate''}"

definition received :: "outgoingMessage \<Rightarrow> nat \<Rightarrow> nat \<Rightarrow> incomingMessage" where
  "received m part offset = \<lparr>imTopic = omTopic m, imPartition = part, imOffset = offset, imKey = omKey m, imValue = omValue m, imHeaders = omHeaders m\<rparr>"

lemma encode_headers:
  assumes "encodeDomainEvent dl validate trace topic e = Inr m" and "traceHeaders trace"
  obtains v where "validate (deName e) (dePayload e) = Inr v"
    "map_of (omHeaders m) ''event-name'' = Some (deName e)" "map_of (omHeaders m) ''event-id'' = Some (deEventId e)"
    "map_of (omHeaders m) ''event-occurred-at'' = Some (dlIso dl (deOccurredAt e))"
    "map_of (omHeaders m) ''event-schema-version'' = Some (decString v)"
    "map_of (omHeaders m) ''correlation-id'' = deCorrelation e"
    "omValue m = jsonStringify (dePayload e)" "omKey m = partitionKeyFor (dePayload e)" "omTopic m = topic"
proof -
  have "k \<notin> fst ` set trace" if "k \<in> {''event-name'', ''event-id'', ''event-occurred-at'', ''event-schema-version'', ''correlation-id''}" for k
    using assms(2) that unfolding traceHeaders_def by auto
  note outside = map_of_fold_update [OF this]
  from assms(1) obtain v where "validate (deName e) (dePayload e) = Inr v" by (auto simp: encodeDomainEvent_def rbind_eq_Inr_iff)
  then show thesis using assms(1)
    by (intro that [of v]) (auto simp: encodeDomainEvent_def outside split: option.splits)
qed

lemma decode_encoded:
  assumes "dateLaws dl" and "traceHeaders trace" and "isDomainEventName (deName e)" and "deEventId e \<noteq> []"
    and "plainJson (dePayload e)" and "isObject (dePayload e)" and "contractLaws validate"
    and "encodeDomainEvent dl validate trace topic e = Inr m"
  shows "\<exists>v. validate (deName e) (dePayload e) = Inr v \<and>
    decodeDomainEvent dl validate (received m part offset) = Inr (domainEvent.extend e (decodedEvent.fields (Some v)))"
proof -
  obtain v where v: "validate (deName e) (dePayload e) = Inr v"
    and h: "map_of (omHeaders m) ''event-name'' = Some (deName e)" "map_of (omHeaders m) ''event-id'' = Some (deEventId e)"
    "map_of (omHeaders m) ''event-occurred-at'' = Some (dlIso dl (deOccurredAt e))"
    "map_of (omHeaders m) ''event-schema-version'' = Some (decString v)"
    "map_of (omHeaders m) ''correlation-id'' = deCorrelation e"
    and body: "omValue m = jsonStringify (dePayload e)"
    using encode_headers [OF assms(8,2)] by metis
  have "readWriterVersion (omHeaders m) = Inr (Some v)"
    using assms(7) v h(4) by (auto simp: contractLaws_def readWriterVersion_def numberOf_decString)
  then show ?thesis
    using v h body assms(1,3-6) json_round_trip [OF assms(5)]
    by (simp add: decodeDomainEvent_def received_def required_def guardThat_def dateLaws_def domainEvent.extend_def decodedEvent.fields_def Let_def)
qed

text \<open>
  C24. Every event that can be put on the wire is read off it unchanged: encoding a catalogue event
  whose payload its contract accepts, and decoding the message wherever it lands, gives back its
  name, payload, id, time and correlation id, with the schema version the writer used.
\<close>

theorem codec_round_trip:
  assumes "dateLaws dl" and "traceHeaders trace" and "isDomainEventName (deName e)" and "deEventId e \<noteq> []"
    and "plainJson (dePayload e)" and "isObject (dePayload e)" and "contractLaws validate"
    and "encodeDomainEvent dl validate trace topic e = Inr m"
  shows "\<exists>v. validate (deName e) (dePayload e) = Inr v \<and>
    decodeDomainEvent dl validate (received m part offset) = Inr (domainEvent.extend e (decodedEvent.fields (Some v)))"
  using decode_encoded [OF assms] .

text \<open>Dates printed as decimal milliseconds, and a contract that takes everything as version 2.\<close>

definition decimalDates :: dateLib where
  "decimalDates = \<lparr>dlIso = intString, dlParse = (\<lambda>s. case parseNumber s of Some (VNum n, []) \<Rightarrow> Some n | _ \<Rightarrow> None)\<rparr>"

lemma decimalDates_laws: "dateLaws decimalDates"
  using parseNumber_written [of "[]"] by (simp add: dateLaws_def decimalDates_def)

definition sampleEvent :: domainEvent where
  "sampleEvent = \<lparr>deName = ''user.registered'', dePayload = VObj [(''userId'', VStr ''u1'')], deEventId = ''e1'', deOccurredAt = 12, deCorrelation = None\<rparr>"

definition sampleWire :: outgoingMessage where
  "sampleWire = projr (encodeDomainEvent decimalDates (\<lambda>n p. Inr 2) [(''traceparent'', ''00'')] ''domain-events'' sampleEvent)"

theorem codec_round_trip_witness:
  "decodeDomainEvent decimalDates (\<lambda>n p. Inr 2) (received sampleWire 0 5) = Inr (domainEvent.extend sampleEvent (decodedEvent.fields (Some 2)))"
  using codec_round_trip [OF decimalDates_laws, of "[(''traceparent'', ''00'')]" sampleEvent "\<lambda>n p. Inr 2" "''domain-events''" sampleWire 0 5]
  by (simp add: traceHeaders_def sampleEvent_def isDomainEventName_def domainEventNames_def isObject_def contractLaws_def sampleWire_def encodeDomainEvent_def)

end
