(* ===== verification/EventConsumer.thy ===== *)
theory EventConsumer
  imports EventCodec RetryLadder
begin

text \<open>
  Reading domain events: \<open>messaging/domain-event-consumer.service.ts\<close>, the dead-letter topic of
  \<open>messaging/dead-letter.ts\<close> and \<open>messaging/dead-letter-queue.service.ts\<close>, and the in-process
  bus of \<open>events/domain-event-bus.service.ts\<close> as the consumer calls it.

  The subscribers are the environment: \<open>bus k\<close> gives, for the \<open>k\<close>-th attempt, what each of them
  reported for the envelope it was handed. The retry ladder is \<open>runRetryLadder\<close>; the dead-letter
  produce goes to the broker model. \<open>dispatch\<close> returning is what lets the broker commit.
\<close>

section \<open>The bus\<close>

record handlerOutcome =
  hoHandler :: string
  hoFailed :: bool
  hoError :: "string option"

record eventEnvelope =
  evId :: string
  evName :: string
  evOccurredAt :: string
  evCorrelation :: "string option"
  evPayload :: jsValue

text \<open>\<open>DomainEventBus.envelope\<close>, with the identity the consumer passes on.\<close>

definition envelope :: "dateLib \<Rightarrow> 'a domainEvent_scheme \<Rightarrow> eventEnvelope" where
  "envelope dl e = \<lparr>evId = deEventId e, evName = deName e, evOccurredAt = dlIso dl (deOccurredAt e),
     evCorrelation = deCorrelation e, evPayload = dePayload e\<rparr>"

definition failedOutcomes :: "handlerOutcome list \<Rightarrow> handlerOutcome list" where
  "failedOutcomes outcomes = filter hoFailed outcomes"

section \<open>Dead letters\<close>

record consumerError =
  ceType :: string
  ceMessage :: string

definition deadLetterHeader :: "string \<Rightarrow> string" where
  "deadLetterHeader field = the (map_of [(''reason'', ''dlt-reason''), (''error'', ''dlt-error''), (''errorType'', ''dlt-error-type''),
     (''attempts'', ''dlt-attempts''), (''group'', ''dlt-consumer-group''), (''originTopic'', ''dlt-origin-topic''),
     (''originPartition'', ''dlt-origin-partition''), (''originOffset'', ''dlt-origin-offset''), (''failedAt'', ''dlt-failed-at'')] field)"

record deadLetterContext =
  dcGroupId :: string
  dcReason :: string
  dcAttempts :: nat
  dcError :: consumerError
  dcFailedAt :: int

definition toDeadLetterMessage :: "dateLib \<Rightarrow> string \<Rightarrow> incomingMessage \<Rightarrow> deadLetterContext \<Rightarrow> outgoingMessage" where
  "toDeadLetterMessage dl topic message context =
     \<lparr>omTopic = topic, omKey = imKey message, omValue = imValue message,
      omHeaders = fold (\<lambda>(k, v). AList.update k v)
        [(deadLetterHeader ''reason'', dcReason context),
         (deadLetterHeader ''error'', truncateTo 500 (ceMessage (dcError context))),
         (deadLetterHeader ''errorType'', ceType (dcError context)),
         (deadLetterHeader ''attempts'', decString (dcAttempts context)),
         (deadLetterHeader ''group'', dcGroupId context),
         (deadLetterHeader ''originTopic'', imTopic message),
         (deadLetterHeader ''originPartition'', decString (imPartition message)),
         (deadLetterHeader ''originOffset'', decString (imOffset message)),
         (deadLetterHeader ''failedAt'', dlIso dl (dcFailedAt context))] (imHeaders message)\<rparr>"

definition defaultDeadLetterTopic :: "string \<Rightarrow> string" where
  "defaultDeadLetterTopic sourceTopic = sourceTopic @ ''.dlt''"

definition deadLetterPublishError :: "string \<Rightarrow> brokerError \<Rightarrow> consumerError" where
  "deadLetterPublishError topic cause = \<lparr>ceType = ''DeadLetterPublishError'', ceMessage =
     ''Could not publish to the dead-letter topic '' @ quoted topic @ '': '' @ (case cause of BrokerClosedError what \<Rightarrow>
       ''MessageBroker is disconnected; '' @ quoted what @ '' is no longer available.'') @
     ''. The message was not committed and will be redelivered.''\<rparr>"

text \<open>\<open>DeadLetterQueue.send\<close> and its \<open>enabled\<close>; no topic means dead-lettering is off.\<close>

definition dlqEnabled :: "string option \<Rightarrow> bool" where
  "dlqEnabled topic \<longleftrightarrow> topic \<noteq> None"

definition dlqSend :: "dateLib \<Rightarrow> string option \<Rightarrow> incomingMessage \<Rightarrow> deadLetterContext \<Rightarrow> broker \<Rightarrow> consumerError + broker" where
  "dlqSend dl topic message context b = (case topic of
     None \<Rightarrow> Inl \<lparr>ceType = ''Error'', ceMessage = ''DeadLetterQueue.send was called with dead-lettering disabled. Check `enabled` first.''\<rparr>
   | Some t \<Rightarrow> (case produce [toDeadLetterMessage dl t message context] b of
       Inl cause \<Rightarrow> Inl (deadLetterPublishError t cause)
     | Inr b' \<Rightarrow> Inr b'))"

section \<open>The consumer\<close>

record consumerConfig =
  ccGroupId :: string
  ccPolicy :: backoffPolicy
  ccDeadLetterTopic :: "string option"
  ccDates :: dateLib
  ccContract :: contract

record consumerRun =
  crBus :: "nat \<Rightarrow> eventEnvelope \<Rightarrow> handlerOutcome list"
  crRandom :: "nat \<Rightarrow> rat"
  crAbortTop :: "nat \<Rightarrow> bool"
  crAbortSleep :: "nat \<Rightarrow> bool"
  crFailedAt :: int

datatype dispatchOutcome = Handled | DeadLettered

text \<open>One attempt: it throws when a subscriber failed, so that the ladder tries again.\<close>

definition attemptEvent :: "eventEnvelope \<Rightarrow> handlerOutcome list \<Rightarrow> consumerError attemptResult" where
  "attemptEvent env outcomes = (let failed = failedOutcomes outcomes in
     if failed = [] then OpOk
     else OpFail \<lparr>ceType = ''Error'', ceMessage = decString (length failed) @ '' subscriber(s) failed for '' @ evName env @
       '' ('' @ evId env @ ''): '' @ joinWith ''; '' (map (\<lambda>h. hoHandler h @ '': '' @
         (case hoError h of Some e \<Rightarrow> e | None \<Rightarrow> ''unknown error'')) failed)\<rparr>)"

definition giveUp :: "consumerConfig \<Rightarrow> consumerRun \<Rightarrow> incomingMessage \<Rightarrow> string \<Rightarrow> nat \<Rightarrow> consumerError \<Rightarrow> broker
    \<Rightarrow> (consumerError + dispatchOutcome) \<times> broker" where
  "giveUp cfg run message reason attempts err b =
     (if \<not> dlqEnabled (ccDeadLetterTopic cfg) then (Inl err, b)
      else case dlqSend (ccDates cfg) (ccDeadLetterTopic cfg) message
          \<lparr>dcGroupId = ccGroupId cfg, dcReason = reason, dcAttempts = attempts, dcError = err, dcFailedAt = crFailedAt run\<rparr> b of
        Inl e \<Rightarrow> (Inl e, b)
      | Inr b' \<Rightarrow> (Inr DeadLettered, b'))"

definition undecodableError :: "incomingMessage \<Rightarrow> string \<Rightarrow> consumerError" where
  "undecodableError message reason = \<lparr>ceType = ''UndecodableMessageError'', ceMessage = ''Cannot decode '' @ imTopic message @ ''/'' @
     decString (imPartition message) @ ''@'' @ decString (imOffset message) @ '': '' @ reason\<rparr>"

definition violationError :: "incomingMessage \<Rightarrow> nat option \<Rightarrow> nat \<Rightarrow> string list \<Rightarrow> consumerError" where
  "violationError message writer version violations = \<lparr>ceType = ''SchemaContractViolationError'', ceMessage =
     (case map_of (imHeaders message) (eventHeader ''name'') of Some n \<Rightarrow> n | None \<Rightarrow> []) @ '' at '' @ imTopic message @ ''/'' @
     decString (imPartition message) @ ''@'' @ decString (imOffset message) @ '' violates its schema contract '' @ [emDash] @ '' written by '' @
     (case writer of None \<Rightarrow> ''an unversioned producer'' | Some v \<Rightarrow> ''v'' @ decString v) @ '', rejected by v'' @ decString version @
     '': '' @ joinWith ''; '' violations\<rparr>"

definition ladderOf :: "consumerConfig \<Rightarrow> consumerRun \<Rightarrow> decodedEvent \<Rightarrow> consumerError ladderEnv" where
  "ladderOf cfg run event = \<lparr>op = (\<lambda>k. attemptEvent (envelope (ccDates cfg) event) (crBus run k (envelope (ccDates cfg) event))),
     rnd = crRandom run, abortTop = crAbortTop run, abortSleep = crAbortSleep run\<rparr>"

definition dispatch :: "consumerConfig \<Rightarrow> consumerRun \<Rightarrow> incomingMessage \<Rightarrow> broker \<Rightarrow> (consumerError + dispatchOutcome) \<times> broker" where
  "dispatch cfg run message b = (case decodeDomainEvent (ccDates cfg) (ccContract cfg) message of
     Inl (ContractViolation writer version violations) \<Rightarrow>
       giveUp cfg run message ''schema-invalid'' 1 (violationError message writer version violations) b
   | Inl (Undecodable reason) \<Rightarrow> giveUp cfg run message ''undecodable'' 1 (undecodableError message reason) b
   | Inr event \<Rightarrow> (case fst (runRetryLadder (ccPolicy cfg) (ladderOf cfg run event)) of
       Inl _ \<Rightarrow> (Inl \<lparr>ceType = ''LadderAbortedError'', ceMessage = ''Retry ladder aborted; the consumer is shutting down.''\<rparr>, b)
     | Inr (Exhausted attempts err) \<Rightarrow> giveUp cfg run message ''handler-failed'' attempts err b
     | Inr (Succeeded attempts) \<Rightarrow> (Inr Handled, b)))"

section \<open>What a dispatch leaves behind\<close>

lemma deadLetterHeader_simps [simp]:
  "deadLetterHeader ''reason'' = ''dlt-reason''" "deadLetterHeader ''error'' = ''dlt-error''"
  "deadLetterHeader ''errorType'' = ''dlt-error-type''" "deadLetterHeader ''attempts'' = ''dlt-attempts''"
  "deadLetterHeader ''group'' = ''dlt-consumer-group''" "deadLetterHeader ''originTopic'' = ''dlt-origin-topic''"
  "deadLetterHeader ''originPartition'' = ''dlt-origin-partition''" "deadLetterHeader ''originOffset'' = ''dlt-origin-offset''"
  "deadLetterHeader ''failedAt'' = ''dlt-failed-at''"
  by (simp_all add: deadLetterHeader_def)

text \<open>A faithful copy: key, bytes and the producer's headers, with the place it came from.\<close>

definition copyOf :: "incomingMessage \<Rightarrow> outgoingMessage \<Rightarrow> bool" where
  "copyOf message d \<longleftrightarrow> omKey d = imKey message \<and> omValue d = imValue message \<and>
     (\<forall>h. take 4 h \<noteq> ''dlt-'' \<longrightarrow> map_of (omHeaders d) h = map_of (imHeaders message) h) \<and>
     map_of (omHeaders d) ''dlt-origin-topic'' = Some (imTopic message) \<and>
     map_of (omHeaders d) ''dlt-origin-partition'' = Some (decString (imPartition message)) \<and>
     map_of (omHeaders d) ''dlt-origin-offset'' = Some (decString (imOffset message))"

lemma copyOf_deadLetter: "copyOf message (toDeadLetterMessage dl topic message context)"
  by (auto simp: copyOf_def toDeadLetterMessage_def update_conv)

lemma giveUp_cases:
  assumes "giveUp cfg run message reason attempts err b = (r, b')"
  shows "case r of Inl _ \<Rightarrow> b' = b \<and> (bkClosed b \<or> ccDeadLetterTopic cfg = None)
    | Inr o' \<Rightarrow> o' = DeadLettered \<and> (\<exists>topic d. ccDeadLetterTopic cfg = Some topic \<and> omTopic d = topic \<and> produce [d] b = Inr b' \<and> copyOf message d \<and>
        map_of (omHeaders d) ''dlt-reason'' = Some reason \<and> map_of (omHeaders d) ''dlt-attempts'' = Some (decString attempts))"
proof (cases "ccDeadLetterTopic cfg")
  case None
  then show ?thesis using assms by (auto simp: giveUp_def dlqEnabled_def)
next
  case (Some t)
  let ?d = "toDeadLetterMessage (ccDates cfg) t message \<lparr>dcGroupId = ccGroupId cfg, dcReason = reason, dcAttempts = attempts,
      dcError = err, dcFailedAt = crFailedAt run\<rparr>"
  have "map_of (omHeaders ?d) ''dlt-reason'' = Some reason" "map_of (omHeaders ?d) ''dlt-attempts'' = Some (decString attempts)"
    "omTopic ?d = t" by (simp_all add: toDeadLetterMessage_def update_conv)
  then show ?thesis
    using assms Some copyOf_deadLetter [of message "ccDates cfg" t]
    by (auto simp: giveUp_def dlqEnabled_def dlqSend_def produce_def split: if_splits sum.splits)
qed

lemma ladder_not_aborted:
  assumes "\<And>k. \<not> abortTop env k" and "\<And>k. \<not> abortSleep env k" and "\<And>k. op env k \<noteq> OpAborted"
  shows "\<exists>r s'. ladderLoop p env a s = (Inr r, s')"
  using assms
proof (induction p env a s rule: ladderLoop.induct)
  case (1 p env a s)
  then show ?case by (subst ladderLoop.simps) (auto split: attemptResult.splits option.splits)
qed

lemma attemptEvent_OpOk: "attemptEvent env outcomes = OpOk \<longleftrightarrow> failedOutcomes outcomes = []"
  "attemptEvent env outcomes \<noteq> OpAborted"
  by (simp_all add: attemptEvent_def Let_def)

text \<open>What each way out of a dispatch has done.\<close>

lemma dispatch_Handled:
  assumes "dispatch cfg run message b = (Inr Handled, b')"
  obtains event n where "b' = b" "decodeDomainEvent (ccDates cfg) (ccContract cfg) message = Inr event"
    "fst (runRetryLadder (ccPolicy cfg) (ladderOf cfg run event)) = Inr (Succeeded n)" "1 \<le> n" "n \<le> max 1 (maxAttempts (ccPolicy cfg))"
    "failedOutcomes (crBus run n (envelope (ccDates cfg) event)) = []"
proof -
  have never: "giveUp cfg run message reason attempts err b \<noteq> (Inr Handled, b')" for reason attempts err
    using giveUp_cases [of cfg run message reason attempts err b "Inr Handled" b'] by auto
  from assms obtain event n where e: "decodeDomainEvent (ccDates cfg) (ccContract cfg) message = Inr event"
    and l: "fst (runRetryLadder (ccPolicy cfg) (ladderOf cfg run event)) = Inr (Succeeded n)" and b: "b' = b"
    by (auto simp: dispatch_def never split: sum.splits decodeError.splits ladderResult.splits)
  obtain t where "ladderLoop (ccPolicy cfg) (ladderOf cfg run event) 0 [] = (Inr (Succeeded n), t)"
    using l unfolding runRetryLadder_def by (metis prod.collapse)
  from ladderLoop_Succeeded [OF this] have n: "n \<le> max 1 (maxAttempts (ccPolicy cfg))" "1 \<le> n" "op (ladderOf cfg run event) n = OpOk"
    by simp_all
  then show thesis using that [OF b e l n(2,1)] attemptEvent_OpOk(1) by (simp add: ladderOf_def)
qed

lemma dispatch_DeadLettered:
  assumes "dispatch cfg run message b = (Inr DeadLettered, b')"
  obtains topic d where "ccDeadLetterTopic cfg = Some topic" "omTopic d = topic" "produce [d] b = Inr b'" "copyOf message d"
proof -
  from assms obtain reason attempts err where "giveUp cfg run message reason attempts err b = (Inr DeadLettered, b')"
    by (auto simp: dispatch_def split: sum.splits decodeError.splits ladderResult.splits)
  from giveUp_cases [OF this] that show thesis by auto
qed

lemma dispatch_throws:
  assumes "dispatch cfg run message b = (Inl err, b')"
  shows "b' = b \<and> (bkClosed b \<or> ccDeadLetterTopic cfg = None \<or> (\<exists>k. crAbortTop run k \<or> crAbortSleep run k))"
proof (cases "\<exists>reason attempts e. giveUp cfg run message reason attempts e b = (Inl err, b')")
  case True
  then show ?thesis using giveUp_cases [of cfg run message _ _ _ b "Inl err" b'] by fastforce
next
  case False
  with assms obtain event a where l: "fst (runRetryLadder (ccPolicy cfg) (ladderOf cfg run event)) = Inl a" and b: "b' = b"
    by (auto simp: dispatch_def split: sum.splits decodeError.splits ladderResult.splits)
  have "\<exists>k. crAbortTop run k \<or> crAbortSleep run k"
    using l ladder_not_aborted [of "ladderOf cfg run event" "ccPolicy cfg" 0 "[]"] attemptEvent_OpOk(2)
    by (fastforce simp: runRetryLadder_def ladderOf_def)
  with b show ?thesis by simp
qed

text \<open>
  C23. The consumer never lets a message go without a trace of it. When \<open>dispatch\<close> returns, so that
  the offset is committed, either some attempt within the policy's limit reported no failed
  subscriber for the decoded event and the broker is as it was, or a faithful copy of the message,
  naming where it came from, was produced to the configured dead-letter topic. When it throws,
  nothing was written. And while the consumer is not stopping, dead-lettering is on and the broker
  is open, it never throws, whatever the message and the subscribers do.
\<close>

theorem consumer_never_drops:
  assumes "dispatch cfg run message b = (r, b')"
  shows "(case r of
      Inl _ \<Rightarrow> b' = b
    | Inr Handled \<Rightarrow> b' = b \<and> (\<exists>event k. decodeDomainEvent (ccDates cfg) (ccContract cfg) message = Inr event \<and> 1 \<le> k \<and>
        k \<le> max 1 (maxAttempts (ccPolicy cfg)) \<and> failedOutcomes (crBus run k (envelope (ccDates cfg) event)) = [])
    | Inr DeadLettered \<Rightarrow> \<exists>topic d. ccDeadLetterTopic cfg = Some topic \<and> omTopic d = topic \<and> produce [d] b = Inr b' \<and> copyOf message d) \<and>
    ((\<forall>k. \<not> crAbortTop run k \<and> \<not> crAbortSleep run k) \<and> ccDeadLetterTopic cfg \<noteq> None \<and> \<not> bkClosed b \<longrightarrow> (\<exists>out. r = Inr out))"
proof (cases r)
  case (Inl err)
  from dispatch_throws [OF assms [unfolded Inl]] Inl show ?thesis by auto
next
  case (Inr out)
  show ?thesis
  proof (cases out)
    case Handled
    from assms show ?thesis unfolding Inr Handled by (rule dispatch_Handled) auto
  next
    case DeadLettered
    from assms show ?thesis unfolding Inr DeadLettered by (rule dispatch_DeadLettered) auto
  qed
qed

text \<open>A record with no event headers, on an open broker.\<close>

definition sampleConsumer :: consumerConfig where
  "sampleConsumer = \<lparr>ccGroupId = ''api'', ccPolicy = \<lparr>baseMs = 100, maxMs = 5000, maxAttempts = 3\<rparr>,
     ccDeadLetterTopic = Some (defaultDeadLetterTopic ''domain-events''), ccDates = decimalDates, ccContract = (\<lambda>n p. Inr 1)\<rparr>"

definition sampleRun :: consumerRun where
  "sampleRun = \<lparr>crBus = (\<lambda>k env. []), crRandom = (\<lambda>k. 0), crAbortTop = (\<lambda>k. False), crAbortSleep = (\<lambda>k. False), crFailedAt = 7\<rparr>"

definition poisonMessage :: incomingMessage where
  "poisonMessage = \<lparr>imTopic = ''domain-events'', imPartition = 0, imOffset = 4, imKey = None, imValue = ''not json'', imHeaders = []\<rparr>"

lemma poison_dead_lettered: "fst (dispatch sampleConsumer sampleRun poisonMessage (bsBroker (freshBroker 1 0))) = Inr DeadLettered"
  by (simp add: dispatch_def decodeDomainEvent_def poisonMessage_def sampleConsumer_def giveUp_def dlqEnabled_def dlqSend_def
      produce_def freshBroker_def required_def missingHeader_def rbind_def Let_def defaultDeadLetterTopic_def)

theorem consumer_never_drops_witness:
  "\<exists>d. omTopic d = ''domain-events.dlt'' \<and> copyOf poisonMessage d \<and> produce [d] (bsBroker (freshBroker 1 0)) =
     Inr (snd (dispatch sampleConsumer sampleRun poisonMessage (bsBroker (freshBroker 1 0))))"
  using consumer_never_drops [of sampleConsumer sampleRun poisonMessage "bsBroker (freshBroker 1 0)", OF surjective_pairing]
  unfolding poison_dead_lettered by (auto simp: sampleConsumer_def defaultDeadLetterTopic_def)

end
