(* ===== verification/EventPipeline.thy ===== *)
theory EventPipeline
  imports EventConsumer
begin

text \<open>
  The path of a domain event from the outbox to its subscribers: the relays of \<open>Outbox\<close>, the
  publisher of \<open>EventCodec\<close>, the broker of \<open>Broker\<close> and the consumer of \<open>EventConsumer\<close>, running
  together. The steps of the parts interleave freely, and any other producer may write to any topic
  at any time. A dispatch that has returned is followed by the commit later or, when the process
  dies in between, never.
\<close>

section \<open>The composed system\<close>

text \<open>The message a member's handler is called with, built from the stored record.\<close>

definition messageAt :: "string \<Rightarrow> nat \<Rightarrow> storedRecord \<Rightarrow> incomingMessage" where
  "messageAt key offset r = (case parsePartitionKey key of (topic, part) \<Rightarrow>
     \<lparr>imTopic = topic, imPartition = part, imOffset = offset, imKey = srKey r, imValue = srValue r, imHeaders = srHeaders r\<rparr>)"

definition consumerOptions :: "consumerConfig \<Rightarrow> string \<Rightarrow> subscriptionOptions" where
  "consumerOptions cfg topic = \<lparr>soGroupId = ccGroupId cfg, soTopics = [topic], soFromBeginning = True\<rparr>"

text \<open>What the subscribers reported during a dispatch, attempt by attempt.\<close>

definition busLog :: "consumerConfig \<Rightarrow> consumerRun \<Rightarrow> incomingMessage \<Rightarrow> (eventEnvelope \<times> handlerOutcome list) list" where
  "busLog cfg run message = (case decodeDomainEvent (ccDates cfg) (ccContract cfg) message of
     Inl _ \<Rightarrow> []
   | Inr event \<Rightarrow> (let env = envelope (ccDates cfg) event in map (\<lambda>k. (env, crBus run k env))
       [1..<Suc (case fst (runRetryLadder (ccPolicy cfg) (ladderOf cfg run event)) of
          Inr (Succeeded n) \<Rightarrow> n | Inr (Exhausted n _) \<Rightarrow> n | Inl _ \<Rightarrow> 0)]))"

record pipelineConfig =
  pcRelay :: relayConfig
  pcTopic :: string
  pcConsumer :: consumerConfig

record pipeline =
  plRelay :: relayState
  plBroker :: brokerState
  plReturned :: "(nat \<times> string \<times> nat) list"
  plBus :: "(eventEnvelope \<times> handlerOutcome list) list"

text \<open>What is staged: \<open>randomUUID\<close> is never empty, and a payload is an object of plain JSON.\<close>

definition stageable :: "newOutboxEvent \<Rightarrow> bool" where
  "stageable e \<longleftrightarrow> neEventId e \<noteq> [] \<and> plainJson (nePayload e) \<and> isObject (nePayload e)"

definition partitioned :: "broker \<Rightarrow> bool" where
  "partitioned b \<longleftrightarrow> (\<forall>t. logsFor t b \<noteq> [])"

inductive pipelineStep :: "pipelineConfig \<Rightarrow> pipeline \<Rightarrow> pipeline \<Rightarrow> bool" for cfg where
  plRelayMoves: "relayStep (pcRelay cfg) (plRelay s) \<sigma> \<Longrightarrow> rlAccepted \<sigma> = rlAccepted (plRelay s) \<Longrightarrow>
    list_all (\<lambda>(i, e). stageable e) (rlStaged \<sigma>) \<Longrightarrow> pipelineStep cfg s (s\<lparr>plRelay := \<sigma>\<rparr>)"
| plPublished: "relayStep (pcRelay cfg) (plRelay s) \<sigma> \<Longrightarrow> rlAccepted \<sigma> = rlAccepted (plRelay s) @ [e] \<Longrightarrow>
    list_all (\<lambda>(i, e). stageable e) (rlStaged \<sigma>) \<Longrightarrow> traceHeaders trace \<Longrightarrow>
    brokerPublish (ccDates (pcConsumer cfg)) (ccContract (pcConsumer cfg)) trace (pcTopic cfg) e (bsBroker (plBroker s)) = Inr b \<Longrightarrow>
    pipelineStep cfg s (s\<lparr>plRelay := \<sigma>, plBroker := (plBroker s)\<lparr>bsBroker := b\<rparr>\<rparr>)"
| plBrokerMoves: "brokerStep soFromBeginning (plBroker s) t \<Longrightarrow> partitioned (bsBroker t) \<Longrightarrow>
    (\<forall>x \<in> set (bsHandled t). x \<in> set (bsHandled (plBroker s)) \<or> fst x \<noteq> ccGroupId (pcConsumer cfg)) \<Longrightarrow>
    pipelineStep cfg s (s\<lparr>plBroker := t\<rparr>)"
| plDispatched: "recordAt (bsBroker (plBroker s)) key offset = Some r \<Longrightarrow>
    dispatch (pcConsumer cfg) run (messageAt key offset r) (bsBroker (plBroker s)) = (Inr outcome, b) \<Longrightarrow>
    pipelineStep cfg s (s\<lparr>plBroker := (plBroker s)\<lparr>bsBroker := b\<rparr>, plReturned := plReturned s @ [(mid, key, offset)],
      plBus := plBus s @ busLog (pcConsumer cfg) run (messageAt key offset r)\<rparr>)"
| plCommitted: "memberOf (ccGroupId (pcConsumer cfg)) mid (bsBroker (plBroker s)) = Some m \<Longrightarrow>
    bmPump m = Handling key offset keys delivered failed \<Longrightarrow> (mid, key, offset) \<in> set (plReturned s) \<Longrightarrow>
    pipelineStep cfg s (s\<lparr>plBroker := (plBroker s)\<lparr>bsBroker := handlerSucceeds (ccGroupId (pcConsumer cfg)) mid key offset (bsBroker (plBroker s)),
      bsHandled := bsHandled (plBroker s) @ [(ccGroupId (pcConsumer cfg), key, offset)]\<rparr>\<rparr>)"

definition pipelineStart :: "nat \<Rightarrow> nat \<Rightarrow> pipeline" where
  "pipelineStart partitions counter = \<lparr>plRelay = relayStart, plBroker = freshBroker partitions counter, plReturned = [], plBus = []\<rparr>"

section \<open>What a produce stores\<close>

definition recordOf :: "outgoingMessage \<Rightarrow> storedRecord" where
  "recordOf m = \<lparr>srKey = omKey m, srValue = omValue m, srHeaders = omHeaders m\<rparr>"

definition inTopic :: "broker \<Rightarrow> string \<Rightarrow> nat \<Rightarrow> nat \<Rightarrow> storedRecord \<Rightarrow> bool" where
  "inTopic b topic part p r \<longleftrightarrow> recordAt b (partitionKey topic part) p = Some r"

lemma produce_stores:
  assumes "produce [m] b = Inr b'" and "partitioned b"
  shows "\<exists>part p. inTopic b' (omTopic m) part p (recordOf m)"
proof -
  let ?logs = "logsFor (omTopic m) b" and ?part = "fst (partitionFor (omKey m) (length (logsFor (omTopic m) b)) (bkRoundRobin b))"
  have part: "?part < length ?logs" using assms(2) by (intro partitionFor_range) (simp add: partitioned_def)
  have "logsFor (omTopic m) b' = ?logs[?part := ?logs ! ?part @ [recordOf m]]"
    using assms(1) by (auto simp: produce_def logsFor_produceOne recordOf_def Let_def split: if_splits)
  with part have "inTopic b' (omTopic m) ?part (length (?logs ! ?part)) (recordOf m)"
    by (simp add: inTopic_def recordAt_Some)
  then show ?thesis by blast
qed

lemma produce_step: "produce ms (bsBroker s) = Inr b \<Longrightarrow> brokerStep allowed s (s\<lparr>bsBroker := b\<rparr>)"
  by (rule StepProduce)

lemma produce_partitioned: "produce ms b = Inr b' \<Longrightarrow> partitioned b \<Longrightarrow> partitioned b'"
proof -
  assume "produce ms b = Inr b'" and ok: "partitioned b"
  then have b': "b' = fold wakeSubscribersOf (remdups (map omTopic ms)) (fold produceOne ms b)" by (simp add: produce_def split: if_splits)
  have one: "partitioned c \<Longrightarrow> partitioned (produceOne m c)" for m c by (simp add: partitioned_def logsFor_produceOne Let_def)
  have "partitioned (fold produceOne ms c)" if "partitioned c" for c using that by (induction ms arbitrary: c) (simp_all add: one)
  with ok b' show ?thesis by (simp add: partitioned_def)
qed

lemma handlerSucceeds_logs: "logsFor t (handlerSucceeds gid mid key p b) = logsFor t b"
  by (simp add: handlerSucceeds_def)

section \<open>Where an event is\<close>

text \<open>The event can be read off the topic.\<close>

definition onWire :: "pipelineConfig \<Rightarrow> broker \<Rightarrow> newOutboxEvent \<Rightarrow> nat \<Rightarrow> nat \<Rightarrow> bool" where
  "onWire cfg b e part p \<longleftrightarrow> (\<exists>r v. inTopic b (pcTopic cfg) part p r \<and>
     decodeDomainEvent (ccDates (pcConsumer cfg)) (ccContract (pcConsumer cfg)) (messageAt (partitionKey (pcTopic cfg) part) p r) =
       Inr (domainEvent.extend (eventOf e) (decodedEvent.fields (Some v))))"

text \<open>The record was taken by every subscriber, or has a copy in the dead-letter topic.\<close>

definition takenBySubscribers :: "consumerConfig \<Rightarrow> (eventEnvelope \<times> handlerOutcome list) list \<Rightarrow> incomingMessage \<Rightarrow> bool" where
  "takenBySubscribers c bus message \<longleftrightarrow> (\<exists>event outcomes. decodeDomainEvent (ccDates c) (ccContract c) message = Inr event \<and>
     (envelope (ccDates c) event, outcomes) \<in> set bus \<and> failedOutcomes outcomes = [])"

definition deadLetterKept :: "consumerConfig \<Rightarrow> broker \<Rightarrow> incomingMessage \<Rightarrow> bool" where
  "deadLetterKept c b message \<longleftrightarrow> (\<exists>topic part q d. ccDeadLetterTopic c = Some topic \<and> copyOf message d \<and> inTopic b topic part q (recordOf d))"

definition settledAt :: "consumerConfig \<Rightarrow> broker \<Rightarrow> (eventEnvelope \<times> handlerOutcome list) list \<Rightarrow> string \<Rightarrow> nat \<Rightarrow> bool" where
  "settledAt c b bus key p \<longleftrightarrow> (\<exists>r. recordAt b key p = Some r \<and>
     (takenBySubscribers c bus (messageAt key p r) \<or> deadLetterKept c b (messageAt key p r)))"

definition pipelineInv :: "pipelineConfig \<Rightarrow> pipeline \<Rightarrow> bool" where
  "pipelineInv cfg s \<longleftrightarrow> relayInv (pcRelay cfg) (plRelay s) \<and> list_all (\<lambda>(i, e). stageable e) (rlStaged (plRelay s)) \<and>
     orderInv (plBroker s) \<and> partitioned (bsBroker (plBroker s)) \<and>
     (\<forall>e \<in> set (rlAccepted (plRelay s)). \<exists>part p. onWire cfg (bsBroker (plBroker s)) e part p) \<and>
     (\<forall>(mid, key, p) \<in> set (plReturned s). settledAt (pcConsumer cfg) (bsBroker (plBroker s)) (plBus s) key p) \<and>
     (\<forall>(gid, key, p) \<in> set (bsHandled (plBroker s)). gid = ccGroupId (pcConsumer cfg) \<longrightarrow>
        settledAt (pcConsumer cfg) (bsBroker (plBroker s)) (plBus s) key p)"

section \<open>Nothing that is stored is lost\<close>

lemma onWire_keeps: "onWire cfg b e part p \<Longrightarrow> keeps b b' \<Longrightarrow> onWire cfg b' e part p"
  by (auto simp: onWire_def inTopic_def keeps_def)

lemma settledAt_keeps: "settledAt c b bus key p \<Longrightarrow> keeps b b' \<Longrightarrow> settledAt c b' (bus @ extra) key p"
proof -
  assume s: "settledAt c b bus key p" and k: "keeps b b'"
  then obtain r where r: "recordAt b' key p = Some r"
    and or: "takenBySubscribers c bus (messageAt key p r) \<or> deadLetterKept c b (messageAt key p r)"
    by (auto simp: settledAt_def keeps_def)
  have "takenBySubscribers c bus m \<Longrightarrow> takenBySubscribers c (bus @ extra) m" "deadLetterKept c b m \<Longrightarrow> deadLetterKept c b' m" for m
    using k unfolding takenBySubscribers_def deadLetterKept_def inTopic_def keeps_def by (force, blast)
  with r or show ?thesis unfolding settledAt_def by blast
qed

lemmas settledAt_kept = settledAt_keeps [where extra = "[]", simplified]

section \<open>What each step adds\<close>

lemma published_onWire:
  assumes "brokerPublish (ccDates (pcConsumer cfg)) (ccContract (pcConsumer cfg)) trace (pcTopic cfg) e b = Inr b'"
    and "partitioned b" and "stageable e" and "isDomainEventName (neName e)" and "traceHeaders trace"
    and "dateLaws (ccDates (pcConsumer cfg))" and "contractLaws (ccContract (pcConsumer cfg))"
  shows "\<exists>part p. onWire cfg b' e part p"
proof -
  from assms(1) obtain m where m: "encodeDomainEvent (ccDates (pcConsumer cfg)) (ccContract (pcConsumer cfg)) trace (pcTopic cfg) (eventOf e) = Inr m"
    and b': "produce [m] b = Inr b'"
    by (auto simp: brokerPublish_def split: sum.splits prod.splits)
  obtain part p where at: "inTopic b' (omTopic m) part p (recordOf m)" using produce_stores [OF b' assms(2)] by blast
  have topic: "omTopic m = pcTopic cfg" using encode_headers [OF m assms(5)] by metis
  have "messageAt (partitionKey (pcTopic cfg) part) p (recordOf m) = received m part p"
    by (simp add: messageAt_def received_def recordOf_def topic)
  moreover obtain v where "decodeDomainEvent (ccDates (pcConsumer cfg)) (ccContract (pcConsumer cfg)) (received m part p) =
      Inr (domainEvent.extend (eventOf e) (decodedEvent.fields (Some v)))"
  proof -
    have "\<exists>v. ccContract (pcConsumer cfg) (deName (eventOf e)) (dePayload (eventOf e)) = Inr v \<and>
        decodeDomainEvent (ccDates (pcConsumer cfg)) (ccContract (pcConsumer cfg)) (received m part p) =
          Inr (domainEvent.extend (eventOf e) (decodedEvent.fields (Some v)))"
      by (rule decode_encoded [OF assms(6,5) _ _ _ _ _ m]) (use assms(3,4,7) in \<open>auto simp: stageable_def eventOf_def\<close>)
    then show thesis using that by blast
  qed
  ultimately show ?thesis using at unfolding topic onWire_def by metis
qed

lemma dispatched_settled:
  assumes "dispatch c run (messageAt key p r) b = (Inr outcome, b')" and "recordAt b key p = Some r" and "partitioned b"
  shows "settledAt c b' (bus @ busLog c run (messageAt key p r)) key p \<and> (b' = b \<or> (\<exists>d. produce [d] b = Inr b'))"
proof (cases outcome)
  case Handled
  from assms(1) [unfolded Handled] obtain event n where b: "b' = b" and e: "decodeDomainEvent (ccDates c) (ccContract c) (messageAt key p r) = Inr event"
    and l: "fst (runRetryLadder (ccPolicy c) (ladderOf c run event)) = Inr (Succeeded n)" "1 \<le> n"
    and ok: "failedOutcomes (crBus run n (envelope (ccDates c) event)) = []" by (rule dispatch_Handled)
  have "(envelope (ccDates c) event, crBus run n (envelope (ccDates c) event)) \<in> set (busLog c run (messageAt key p r))"
    using e l by (auto simp: busLog_def Let_def)
  with e ok have "takenBySubscribers c (bus @ busLog c run (messageAt key p r)) (messageAt key p r)"
    unfolding takenBySubscribers_def by auto
  with assms(2) b show ?thesis unfolding settledAt_def by blast
next
  case DeadLettered
  from assms(1) [unfolded DeadLettered] obtain topic d where d: "ccDeadLetterTopic c = Some topic" "omTopic d = topic"
    "produce [d] b = Inr b'" "copyOf (messageAt key p r) d" by (rule dispatch_DeadLettered)
  have "deadLetterKept c b' (messageAt key p r)"
    using produce_stores [OF d(3) assms(3)] d(1,2,4) unfolding deadLetterKept_def by blast
  moreover have "keeps b b'"
    using brokerStep_keeps [OF produce_step [of "[d]" "\<lparr>bsBroker = b, bsHandled = []\<rparr>"]] d(3) by simp
  ultimately show ?thesis using assms(2) d(3) unfolding settledAt_def keeps_def by blast
qed

section \<open>The invariant\<close>

lemma moved_inv:
  assumes inv: "pipelineInv cfg s" and keep: "keeps (bsBroker (plBroker s)) (bsBroker t)" and ok: "orderInv t" "partitioned (bsBroker t)"
    and returned: "\<And>mid key p. (mid, key, p) \<in> set ret \<Longrightarrow> (mid, key, p) \<notin> set (plReturned s) \<Longrightarrow>
      settledAt (pcConsumer cfg) (bsBroker t) (plBus s @ extra) key p"
    and handled: "\<And>key p. (ccGroupId (pcConsumer cfg), key, p) \<in> set (bsHandled t) \<Longrightarrow>
      (ccGroupId (pcConsumer cfg), key, p) \<notin> set (bsHandled (plBroker s)) \<Longrightarrow> settledAt (pcConsumer cfg) (bsBroker t) (plBus s @ extra) key p"
  shows "pipelineInv cfg (s\<lparr>plBroker := t, plReturned := ret, plBus := plBus s @ extra\<rparr>)"
proof -
  have wire: "\<exists>part p. onWire cfg (bsBroker t) e part p" if "e \<in> set (rlAccepted (plRelay s))" for e
    using inv that onWire_keeps [OF _ keep] unfolding pipelineInv_def by blast
  have "settledAt (pcConsumer cfg) (bsBroker t) (plBus s @ extra) key p" if "(mid, key, p) \<in> set ret" for mid key p
  proof (cases "(mid, key, p) \<in> set (plReturned s)")
    case True
    with inv have "settledAt (pcConsumer cfg) (bsBroker (plBroker s)) (plBus s) key p" unfolding pipelineInv_def by blast
    then show ?thesis by (rule settledAt_keeps [OF _ keep])
  qed (rule returned [OF that])
  moreover have "settledAt (pcConsumer cfg) (bsBroker t) (plBus s @ extra) key p"
    if "(ccGroupId (pcConsumer cfg), key, p) \<in> set (bsHandled t)" for key p
  proof (cases "(ccGroupId (pcConsumer cfg), key, p) \<in> set (bsHandled (plBroker s))")
    case True
    with inv have "settledAt (pcConsumer cfg) (bsBroker (plBroker s)) (plBus s) key p" unfolding pipelineInv_def by blast
    then show ?thesis by (rule settledAt_keeps [OF _ keep])
  qed (rule handled [OF that])
  ultimately show ?thesis using inv ok wire unfolding pipelineInv_def by auto
qed

lemmas brokerMoves_inv = moved_inv [where extra = "[]" and ret = "plReturned s" and s = s for s, simplified]

lemma pipelineInv_step:
  assumes "pipelineStep cfg s s'" and "pipelineInv cfg s"
    and "dateLaws (ccDates (pcConsumer cfg))" and "contractLaws (ccContract (pcConsumer cfg))"
  shows "pipelineInv cfg s'"
  using assms(1)
proof cases
  case (plRelayMoves \<sigma>)
  with assms(2) relayInv_step [OF plRelayMoves(2)] show ?thesis by (simp add: pipelineInv_def)
next
  case (plPublished \<sigma> e trace b)
  let ?b = "bsBroker (plBroker s)"
  have inv: "relayInv (pcRelay cfg) \<sigma>" using relayInv_step [OF plPublished(2)] assms(2) by (simp add: pipelineInv_def)
  with plPublished(3) have "e \<in> snd ` set (rlStaged \<sigma>)" "isDomainEventName (neName e)" by (auto simp: relayInv_def)
  then have e: "stageable e" using plPublished(4) by (auto simp: list_all_iff)
  have part: "partitioned ?b" using assms(2) by (simp add: pipelineInv_def)
  from published_onWire [OF plPublished(6) part e \<open>isDomainEventName _\<close> plPublished(5) assms(3,4)]
  have wire: "\<exists>part p. onWire cfg b e part p" by blast
  from plPublished(6) obtain m where m: "produce [m] ?b = Inr b" by (auto simp: brokerPublish_def split: sum.splits prod.splits)
  have step: "brokerStep soFromBeginning (plBroker s) ((plBroker s)\<lparr>bsBroker := b\<rparr>)" by (rule produce_step [OF m])
  have "pipelineInv cfg (s\<lparr>plBroker := (plBroker s)\<lparr>bsBroker := b\<rparr>\<rparr>)"
    by (rule brokerMoves_inv [OF assms(2)])
      (use brokerStep_keeps [OF step] brokerStep_order [OF step] assms(2) produce_partitioned [OF m part] in \<open>auto simp: pipelineInv_def\<close>)
  with inv wire plPublished show ?thesis by (auto simp: pipelineInv_def)
next
  case (plBrokerMoves t)
  have "orderInv t" using brokerStep_order [OF plBrokerMoves(2)] assms(2) by (simp add: pipelineInv_def)
  with plBrokerMoves brokerStep_keeps [OF plBrokerMoves(2)] show ?thesis
    by (auto intro!: brokerMoves_inv [OF assms(2)])
next
  case (plDispatched key p r run outcome b mid)
  let ?b = "bsBroker (plBroker s)"
  have part: "partitioned ?b" using assms(2) by (simp add: pipelineInv_def)
  from dispatched_settled [OF plDispatched(3,2) part, of "plBus s"]
  have new: "settledAt (pcConsumer cfg) b (plBus s @ busLog (pcConsumer cfg) run (messageAt key p r)) key p"
    and or: "b = ?b \<or> (\<exists>d. produce [d] ?b = Inr b)" by blast+
  have moved: "keeps ?b b \<and> orderInv ((plBroker s)\<lparr>bsBroker := b\<rparr>) \<and> partitioned b"
    using or
  proof
    assume "b = ?b"
    then show ?thesis using assms(2) by (simp add: pipelineInv_def)
  next
    assume "\<exists>d. produce [d] ?b = Inr b"
    then obtain d where d: "produce [d] ?b = Inr b" by blast
    have step: "brokerStep soFromBeginning (plBroker s) ((plBroker s)\<lparr>bsBroker := b\<rparr>)" by (rule produce_step [OF d])
    then show ?thesis
      using brokerStep_keeps [OF step] brokerStep_order [OF step] assms(2) produce_partitioned [OF d part] by (simp add: pipelineInv_def)
  qed
  show ?thesis unfolding plDispatched(1)
    by (rule moved_inv [OF assms(2)]) (use moved new in auto)
next
  case (plCommitted mid m key p keys d f)
  let ?gid = "ccGroupId (pcConsumer cfg)"
  let ?t = "(plBroker s)\<lparr>bsBroker := handlerSucceeds ?gid mid key p (bsBroker (plBroker s)), bsHandled := bsHandled (plBroker s) @ [(?gid, key, p)]\<rparr>"
  have step: "brokerStep soFromBeginning (plBroker s) ?t"
    by (rule StepHandled [OF plCommitted(2,3)])
  have settled: "settledAt (pcConsumer cfg) (bsBroker (plBroker s)) (plBus s) key p" using assms(2) plCommitted(4) by (auto simp: pipelineInv_def)
  have "partitioned (bsBroker ?t)" using assms(2) by (simp add: pipelineInv_def partitioned_def handlerSucceeds_logs)
  with settled show ?thesis unfolding plCommitted(1)
    by (intro brokerMoves_inv [OF assms(2)])
      (use brokerStep_keeps [OF step] brokerStep_order [OF step] assms(2) in \<open>auto simp: pipelineInv_def intro: settledAt_kept\<close>)
qed

lemma pipelineInv_reach:
  assumes "(pipelineStep cfg)\<^sup>*\<^sup>* (pipelineStart n c) s" and "0 < n"
    and "dateLaws (ccDates (pcConsumer cfg))" and "contractLaws (ccContract (pcConsumer cfg))"
  shows "pipelineInv cfg s"
  using assms(1)
proof (induction rule: rtranclp_induct)
  case base
  have "partitioned (bsBroker (freshBroker n c))" using assms(2) by (simp add: partitioned_def freshBroker_def logsFor_def)
  then show ?case
    using relayInv_start freshBroker_order by (auto simp: pipelineInv_def pipelineStart_def relayStart_def freshBroker_def)
next
  case (step s t)
  then show ?case using pipelineInv_step assms(3,4) by blast
qed

section \<open>End to end\<close>

text \<open>
  C7. From the transaction that staged it to the subscribers. However relays, publishers, broker,
  rebalances, other producers and dispatches interleave, an outbox row marked published has a record
  in the topic that decodes to exactly its event. And once the consumer group has committed past
  that record, either some delivery of this very event was taken by every subscriber without a
  failure, or a faithful copy of the record is in the dead-letter topic.
\<close>

theorem outbox_to_subscribers:
  assumes "(pipelineStep cfg)\<^sup>*\<^sup>* (pipelineStart n c) s" and "0 < n"
    and "dateLaws (ccDates (pcConsumer cfg))" and "contractLaws (ccContract (pcConsumer cfg))"
    and "row \<in> set (rlTable (plRelay s))" and "obStatus row = ObPublished"
  shows "\<exists>part p r v. recordAt (bsBroker (plBroker s)) (partitionKey (pcTopic cfg) part) p = Some r \<and>
    (let message = messageAt (partitionKey (pcTopic cfg) part) p r;
         event = domainEvent.extend (eventOf (obEvent row)) (decodedEvent.fields (Some v)) in
     decodeDomainEvent (ccDates (pcConsumer cfg)) (ccContract (pcConsumer cfg)) message = Inr event \<and>
     (\<forall>g committed. bkGroups (bsBroker (plBroker s)) (ccGroupId (pcConsumer cfg)) = Some g \<and>
        bgCommitted g (partitionKey (pcTopic cfg) part) = Some committed \<and> p < committed \<longrightarrow>
        (\<exists>outcomes. (envelope (ccDates (pcConsumer cfg)) event, outcomes) \<in> set (plBus s) \<and> failedOutcomes outcomes = []) \<or>
        deadLetterKept (pcConsumer cfg) (bsBroker (plBroker s)) message))"
proof -
  let ?b = "bsBroker (plBroker s)" and ?c = "pcConsumer cfg"
  have inv: "pipelineInv cfg s" by (rule pipelineInv_reach [OF assms(1-4)])
  then have "rowOk (pcRelay cfg) (rlAccepted (plRelay s)) row" using assms(5) by (auto simp: pipelineInv_def relayInv_def list_all_iff)
  then have "obEvent row \<in> set (rlAccepted (plRelay s))" using assms(6) by (simp add: rowOk_def)
  with inv obtain part p r v where r: "recordAt ?b (partitionKey (pcTopic cfg) part) p = Some r"
    and event: "decodeDomainEvent (ccDates ?c) (ccContract ?c) (messageAt (partitionKey (pcTopic cfg) part) p r) =
      Inr (domainEvent.extend (eventOf (obEvent row)) (decodedEvent.fields (Some v)))"
    unfolding pipelineInv_def onWire_def inTopic_def by blast
  have "takenBySubscribers ?c (plBus s) (messageAt (partitionKey (pcTopic cfg) part) p r) \<or>
      deadLetterKept ?c ?b (messageAt (partitionKey (pcTopic cfg) part) p r)"
    if g: "bkGroups ?b (ccGroupId ?c) = Some g" "bgCommitted g (partitionKey (pcTopic cfg) part) = Some committed" "p < committed" for g committed
  proof -
    have "handledBelow (bsHandled (plBroker s)) (ccGroupId ?c) (partitionKey (pcTopic cfg) part) committed"
      using inv g(1,2) by (auto simp: pipelineInv_def orderInv_def groupsOk_def groupOk_def)
    then have "(ccGroupId ?c, partitionKey (pcTopic cfg) part, p) \<in> set (bsHandled (plBroker s))" using g(3) by (simp add: handledBelow_def)
    then have "settledAt ?c ?b (plBus s) (partitionKey (pcTopic cfg) part) p" using inv by (auto simp: pipelineInv_def)
    then show ?thesis using r by (simp add: settledAt_def)
  qed
  with r event show ?thesis unfolding Let_def takenBySubscribers_def by (metis Inr_inject)
qed

text \<open>One event staged, claimed, published and marked, on a broker with one partition per topic.\<close>

definition samplePipeline :: pipelineConfig where
  "samplePipeline = \<lparr>pcRelay = exRelay 2, pcTopic = ''domain-events'', pcConsumer = sampleConsumer\<rparr>"

definition sampleProduced :: broker where
  "sampleProduced = projr (brokerPublish decimalDates (\<lambda>n p. Inr 1) [] ''domain-events'' (exEvent ''e1'' 1) (bsBroker (freshBroker 1 0)))"

definition samplePublished :: pipeline where
  "samplePublished = \<lparr>plRelay = exPublished, plBroker = \<lparr>bsBroker = sampleProduced, bsHandled = []\<rparr>, plReturned = [], plBus = []\<rparr>"

lemma samplePublished_reach: "(pipelineStep samplePipeline)\<^sup>*\<^sup>* (pipelineStart 1 0) samplePublished"
proof -
  let ?with = "\<lambda>\<sigma> b. \<lparr>plRelay = \<sigma>, plBroker = \<lparr>bsBroker = b, bsHandled = []\<rparr>, plReturned = [], plBus = []\<rparr>" and ?b = "bsBroker (freshBroker 1 0)"
  have staged: "stageable (exEvent ''e1'' 1)" by (simp add: stageable_def exEvent_def isObject_def)
  have quiet: "pipelineStep samplePipeline (?with \<sigma> b) (?with \<sigma>' b)"
    if "relayStep (exRelay 2) \<sigma> \<sigma>'" "rlAccepted \<sigma>' = rlAccepted \<sigma>" "rlStaged \<sigma>' = [(''a'', exEvent ''e1'' 1)]" for \<sigma> \<sigma>' b
    using plRelayMoves [of samplePipeline "?with \<sigma> b" \<sigma>'] that staged by (simp add: samplePipeline_def)
  have "brokerPublish decimalDates (\<lambda>n p. Inr 1) [] ''domain-events'' (exEvent ''e1'' 1) ?b = Inr sampleProduced"
    by (simp add: sampleProduced_def brokerPublish_def encodeDomainEvent_def produce_def freshBroker_def)
  then have s3: "pipelineStep samplePipeline (?with exClaimed ?b) (?with exDelivered sampleProduced)"
    using plPublished [of samplePipeline "?with exClaimed ?b" exDelivered "exEvent ''e1'' 1" "[]" sampleProduced] staged exPublished_steps(3)
    by (simp add: samplePipeline_def sampleConsumer_def traceHeaders_def exDelivered_def exClaimed_def exStaged_def)
  have s1: "pipelineStep samplePipeline (?with relayStart ?b) (?with exStaged ?b)"
    by (rule quiet [OF exPublished_steps(1)]) (simp_all add: exStaged_def relayStart_def)
  have s2: "pipelineStep samplePipeline (?with exStaged ?b) (?with exClaimed ?b)"
    by (rule quiet [OF exPublished_steps(2)]) (simp_all add: exStaged_def exClaimed_def)
  have s4: "pipelineStep samplePipeline (?with exDelivered sampleProduced) (?with exPublished sampleProduced)"
    by (rule quiet [OF exPublished_steps(4)]) (simp_all add: exDelivered_def exPublished_def)
  have s0: "pipelineStart 1 0 = ?with relayStart ?b" by (simp add: pipelineStart_def freshBroker_def)
  show ?thesis unfolding samplePublished_def s0
    by (rule converse_rtranclp_into_rtranclp, rule s1, rule converse_rtranclp_into_rtranclp, rule s2,
        rule converse_rtranclp_into_rtranclp, rule s3, rule r_into_rtranclp, rule s4)
qed

theorem outbox_to_subscribers_witness:
  "\<exists>part p r event. recordAt sampleProduced (partitionKey ''domain-events'' part) p = Some r \<and> deEventId event = ''e1'' \<and>
     decodeDomainEvent decimalDates (\<lambda>n p. Inr 1) (messageAt (partitionKey ''domain-events'' part) p r) = Inr event"
proof -
  have "deEventId (domainEvent.extend (eventOf (exEvent ''e1'' 1)) (decodedEvent.fields (Some v))) = ''e1''" for v
    by (simp add: eventOf_def exEvent_def domainEvent.extend_def)
  moreover have "obEvent (hd (rlTable exPublished)) = exEvent ''e1'' 1" by (simp add: exPublished_def stagedRow_def)
  ultimately show ?thesis
    using outbox_to_subscribers [OF samplePublished_reach, of "hd (rlTable exPublished)"] decimalDates_laws
    unfolding Let_def by (simp add: samplePipeline_def sampleConsumer_def samplePublished_def contractLaws_def exPublished_def) metis
qed

end
