(* ===== verification/SchemaProfile.thy ===== *)
theory SchemaProfile
  imports AuditHash
begin

text \<open>
  The profile of JSON Schema the event contracts are written in: \<open>schema-registry/json-schema.ts\<close>.

  A document is a value of \<open>sdoc\<close>, what \<open>JSON.parse\<close> can return, with rational numbers. An object is
  the list of its own properties, read with \<open>map_of\<close>. \<open>key in object\<close> also finds the members every
  object inherits, \<open>inheritedNames\<close>; \<open>Object.entries\<close> gives the properties in the order of the list.

  \<open>typed\<close> is the type a checked document has, as the interfaces of the file declare it, and
  \<open>accepts\<close> is what the keywords of the profile mean for a value (JSON Schema draft-07).
\<close>

section \<open>Documents\<close>

datatype sdoc =
    SNull
  | SBool bool
  | SNumber rat
  | SString string
  | SArray "sdoc list"
  | SObject "(string \<times> sdoc) list"

type_synonym members = "(string \<times> sdoc) list"

definition inheritedNames :: "string list" where
  "inheritedNames = [''constructor'', ''toString'', ''toLocaleString'', ''valueOf'', ''hasOwnProperty'', ''isPrototypeOf'',
     ''propertyIsEnumerable'', ''__proto__'', ''__defineGetter__'', ''__defineSetter__'', ''__lookupGetter__'', ''__lookupSetter__'']"

definition keyIn :: "string \<Rightarrow> members \<Rightarrow> bool" where
  "keyIn key object \<longleftrightarrow> key \<in> fst ` set object \<or> key \<in> set inheritedNames"

datatype profileError = SchemaProfileError string string

definition jsonSchemaDraft :: string where
  "jsonSchemaDraft = ''http://json-schema.org/draft-07/schema#''"

definition primitiveTypes :: "string list" where
  "primitiveTypes = [''string'', ''number'', ''integer'', ''boolean'', ''null'']"

definition documentKeywords :: "string list" where
  "documentKeywords = [''$schema'', ''$id'', ''title'']"

definition objectKeywords :: "string list" where
  "objectKeywords = [''type'', ''description'', ''properties'', ''required'', ''additionalProperties'']"

definition arrayKeywords :: "string list" where
  "arrayKeywords = [''type'', ''description'', ''items'']"

definition scalarKeywords :: "string list" where
  "scalarKeywords = [''type'', ''description'', ''format'', ''enum'']"

section \<open>The check\<close>

fun describeDoc :: "sdoc \<Rightarrow> string" where
  "describeDoc SNull = ''null''"
| "describeDoc (SArray _) = ''an array''"
| "describeDoc (SBool _) = ''boolean''"
| "describeDoc (SNumber _) = ''number''"
| "describeDoc (SString _) = ''string''"
| "describeDoc (SObject _) = ''object''"

definition asRecord :: "sdoc \<Rightarrow> string \<Rightarrow> profileError + members" where
  "asRecord doc path = (case doc of SObject ms \<Rightarrow> Inr ms
     | _ \<Rightarrow> Inl (SchemaProfileError path (''expected a JSON object, got '' @ describeDoc doc)))"

definition isStr :: "sdoc \<Rightarrow> bool" where
  "isStr doc = (case doc of SString _ \<Rightarrow> True | _ \<Rightarrow> False)"

definition strOf :: "sdoc \<Rightarrow> string" where
  "strOf doc = (case doc of SString s \<Rightarrow> s | _ \<Rightarrow> [])"

definition isScalar :: "sdoc \<Rightarrow> bool" where
  "isScalar doc = (case doc of SArray _ \<Rightarrow> False | SObject _ \<Rightarrow> False | _ \<Rightarrow> True)"

definition assertKeywords :: "members \<Rightarrow> string \<Rightarrow> string list \<Rightarrow> profileError + unit" where
  "assertKeywords node path allowed = (case find (\<lambda>k. k \<notin> set allowed) (map fst node) of
     None \<Rightarrow> Inr ()
   | Some k \<Rightarrow> Inl (SchemaProfileError path (quoted k @ '' is not in the profile (allowed here: '' @ joinWith '', '' allowed @ '')'')))"

definition typeNamesOf :: "sdoc option \<Rightarrow> string \<Rightarrow> profileError + string list" where
  "typeNamesOf t path = (case t of
     Some (SString s) \<Rightarrow> Inr [s]
   | Some (SArray names) \<Rightarrow> if names \<noteq> [] \<and> list_all isStr names then Inr (map strOf names)
       else Inl (SchemaProfileError path (quoted ''type'' @ '' must be a type name or a non-empty array of them''))
   | _ \<Rightarrow> Inl (SchemaProfileError path (quoted ''type'' @ '' must be a type name or a non-empty array of them'')))"

definition assertRequired :: "members \<Rightarrow> string \<Rightarrow> members \<Rightarrow> profileError + unit" where
  "assertRequired node path propertyMap = (case map_of node ''required'' of
     None \<Rightarrow> Inr ()
   | Some (SArray entries) \<Rightarrow>
       if list_all isStr entries
       then (case find (\<lambda>key. \<not> keyIn key propertyMap) (map strOf entries) of
         None \<Rightarrow> Inr ()
       | Some key \<Rightarrow> Inl (SchemaProfileError path (quoted key @ '' is required but has no entry in '' @ quoted ''properties'')))
       else Inl (SchemaProfileError path (quoted ''required'' @ '' must be an array of strings''))
   | Some _ \<Rightarrow> Inl (SchemaProfileError path (quoted ''required'' @ '' must be an array of strings'')))"

definition assertOpen :: "members \<Rightarrow> string \<Rightarrow> profileError + unit" where
  "assertOpen node path = (if map_of node ''additionalProperties'' \<in> {None, Some (SBool True)} then Inr ()
     else Inl (SchemaProfileError path (quoted ''additionalProperties'' @ '' must be true or absent. A closed content model cannot be ''
       @ ''evolved: adding a field breaks every consumer that has not been redeployed, ''
       @ ''because their schema forbids the field they have not heard of'')))"

definition assertScalar :: "members \<Rightarrow> string \<Rightarrow> profileError + unit" where
  "assertScalar node path = rbind (typeNamesOf (map_of node ''type'') path) (\<lambda>names.
     case find (\<lambda>name. name \<notin> set primitiveTypes) names of
       Some name \<Rightarrow> Inl (SchemaProfileError path (quoted name @ '' is not a supported type''))
     | None \<Rightarrow>
         if \<not> (case map_of node ''format'' of None \<Rightarrow> True | Some f \<Rightarrow> isStr f)
         then Inl (SchemaProfileError path (quoted ''format'' @ '' must be a string''))
         else case map_of node ''enum'' of
           None \<Rightarrow> Inr ()
         | Some (SArray values) \<Rightarrow>
             if values = [] then Inl (SchemaProfileError path (quoted ''enum'' @ '' must be a non-empty array''))
             else if list_all isScalar values then Inr ()
             else Inl (SchemaProfileError path (quoted ''enum'' @ '' entries must be scalars; objects and arrays are outside the profile''))
         | Some _ \<Rightarrow> Inl (SchemaProfileError path (quoted ''enum'' @ '' must be a non-empty array'')))"

lemma asRecord_Inr [simp]: "asRecord doc path = Inr ms \<longleftrightarrow> doc = SObject ms"
  by (auto simp: asRecord_def split: sdoc.splits)

lemma asRecord_SObject [simp]: "asRecord (SObject ms) path = Inr ms"
  by simp

abbreviation membersSize :: "members \<Rightarrow> nat" where
  "membersSize \<equiv> size_list (size_prod (\<lambda>_. 0) size)"

lemma map_of_smaller: "map_of ms k = Some d \<Longrightarrow> size d < membersSize ms"
  by (induction ms) (auto split: if_splits)

lemma in_smaller: "(k, d) \<in> set ms \<Longrightarrow> size d < membersSize ms"
  by (induction ms) auto

definition propertyPath :: "string \<Rightarrow> string \<Rightarrow> string" where
  "propertyPath path key = path @ ''/properties/'' @ key"

definition itemsPath :: "string \<Rightarrow> string" where
  "itemsPath path = path @ ''/items''"

function assertNodeInProfile :: "members \<Rightarrow> string \<Rightarrow> string list \<Rightarrow> profileError + unit" where
  "assertNodeInProfile node path extra =
     (if map_of node ''type'' = Some (SString ''object'') then
        rbind (assertKeywords node path (objectKeywords @ extra)) (\<lambda>_.
        case map_of node ''properties'' of
          None \<Rightarrow> Inl (SchemaProfileError path (''an object schema must declare '' @ quoted ''properties''))
        | Some properties \<Rightarrow> rbind (asRecord properties (path @ ''/properties'')) (\<lambda>propertyMap.
            rbind (allOk (map (\<lambda>(key, child). rbind (asRecord child (propertyPath path key))
              (\<lambda>c. assertNodeInProfile c (propertyPath path key) [])) propertyMap)) (\<lambda>_.
            rbind (assertRequired node path propertyMap) (\<lambda>_. assertOpen node path))))
      else if map_of node ''type'' = Some (SString ''array'') then
        rbind (assertKeywords node path (arrayKeywords @ extra)) (\<lambda>_.
        case map_of node ''items'' of
          None \<Rightarrow> Inl (SchemaProfileError path (''an array schema must declare '' @ quoted ''items''))
        | Some (SArray _) \<Rightarrow> Inl (SchemaProfileError path (''tuple-form '' @ quoted ''items'' @ '' is outside the profile; positional element types have their own ''
            @ ''compatibility rules and none are implemented''))
        | Some items \<Rightarrow> rbind (asRecord items (itemsPath path)) (\<lambda>c. assertNodeInProfile c (itemsPath path) []))
      else rbind (assertKeywords node path (scalarKeywords @ extra)) (\<lambda>_. assertScalar node path))"
  by pat_completeness auto
termination
  by (relation "measure (\<lambda>(node, path, extra). membersSize node)") (auto dest!: map_of_smaller in_smaller)

declare assertNodeInProfile.simps [simp del]

definition assertInProfile :: "sdoc \<Rightarrow> string \<Rightarrow> profileError + unit" where
  "assertInProfile document path = rbind (asRecord document path) (\<lambda>root.
     case find (\<lambda>keyword. \<not> (case map_of root keyword of Some d \<Rightarrow> isStr d | None \<Rightarrow> False)) documentKeywords of
       Some keyword \<Rightarrow> Inl (SchemaProfileError path (quoted keyword @ '' must be a string''))
     | None \<Rightarrow>
         if map_of root ''$schema'' \<noteq> Some (SString jsonSchemaDraft)
         then Inl (SchemaProfileError path (quoted ''$schema'' @ '' must be '' @ quoted jsonSchemaDraft))
         else if map_of root ''type'' \<noteq> Some (SString ''object'')
         then Inl (SchemaProfileError path ''the document root must be an object schema'')
         else assertNodeInProfile root path documentKeywords)"

section \<open>The type of a checked document\<close>

text \<open>\<open>ObjectSchemaNode\<close>, \<open>ArraySchemaNode\<close> and \<open>ScalarSchemaNode\<close>, with no keyword but their own.\<close>

definition requiredTyped :: "members \<Rightarrow> members \<Rightarrow> bool" where
  "requiredTyped node ps \<longleftrightarrow> (\<forall>d. map_of node ''required'' = Some d \<longrightarrow> (\<exists>names. d = SArray (map SString names) \<and> (\<forall>k \<in> set names. keyIn k ps)))"

definition typeNames :: "sdoc option \<Rightarrow> string list \<Rightarrow> bool" where
  "typeNames t names \<longleftrightarrow> names \<noteq> [] \<and> (t = Some (SArray (map SString names)) \<or> (\<exists>s. t = Some (SString s) \<and> names = [s]))"

definition scalarTyped :: "members \<Rightarrow> bool" where
  "scalarTyped node \<longleftrightarrow> (\<exists>names. typeNames (map_of node ''type'') names \<and> set names \<subseteq> set primitiveTypes) \<and>
     (\<forall>d. map_of node ''format'' = Some d \<longrightarrow> (\<exists>s. d = SString s)) \<and>
     (\<forall>d. map_of node ''enum'' = Some d \<longrightarrow> (\<exists>values. d = SArray values \<and> values \<noteq> [] \<and> list_all isScalar values))"

inductive typed :: "string list \<Rightarrow> members \<Rightarrow> bool" where
  typedObject: "map_of node ''type'' = Some (SString ''object'') \<Longrightarrow> fst ` set node \<subseteq> set (objectKeywords @ extra) \<Longrightarrow>
    map_of node ''properties'' = Some (SObject ps) \<Longrightarrow> \<forall>k c. (k, c) \<in> set ps \<longrightarrow> (\<exists>r. c = SObject r \<and> typed [] r) \<Longrightarrow>
    requiredTyped node ps \<Longrightarrow> map_of node ''additionalProperties'' \<in> {None, Some (SBool True)} \<Longrightarrow> typed extra node"
| typedArray: "map_of node ''type'' = Some (SString ''array'') \<Longrightarrow> fst ` set node \<subseteq> set (arrayKeywords @ extra) \<Longrightarrow>
    map_of node ''items'' = Some (SObject r) \<Longrightarrow> typed [] r \<Longrightarrow> typed extra node"
| typedScalar: "fst ` set node \<subseteq> set (scalarKeywords @ extra) \<Longrightarrow> scalarTyped node \<Longrightarrow> typed extra node"

text \<open>\<open>EventSchema\<close>.\<close>

definition eventSchema :: "sdoc \<Rightarrow> bool" where
  "eventSchema doc \<longleftrightarrow> (\<exists>root i title. doc = SObject root \<and> map_of root ''$schema'' = Some (SString jsonSchemaDraft) \<and>
     map_of root ''$id'' = Some (SString i) \<and> map_of root ''title'' = Some (SString title) \<and>
     map_of root ''type'' = Some (SString ''object'') \<and> typed documentKeywords root)"

lemma find_None_set: "find P xs = None \<longleftrightarrow> (\<forall>x \<in> set xs. \<not> P x)"
  by (auto simp: find_None_iff)

lemma firstBad_iff: "(case find P xs of None \<Rightarrow> Inr () | Some k \<Rightarrow> Inl (f k)) = Inr () \<longleftrightarrow> (\<forall>x \<in> set xs. \<not> P x)"
  by (cases "find P xs") (simp_all add: find_None_set [symmetric])

lemma isStr_iff: "isStr d \<longleftrightarrow> (\<exists>s. d = SString s)"
  by (cases d) (auto simp: isStr_def)

lemma strOf_SString [simp]: "strOf (SString s) = s"
  by (simp add: strOf_def)

lemma strings_iff: "list_all isStr ds \<longleftrightarrow> (\<exists>names. ds = map SString names)"
  by (auto simp: list_all_iff isStr_iff ex_map_conv)

lemma map_SString_eq [simp]: "map SString xs = map SString ys \<longleftrightarrow> xs = ys"
  by (rule inj_map_eq_map) (simp add: inj_def)

lemma strOf_map [simp]: "map strOf (map SString names) = names"
  by (simp add: comp_def)

lemma assertKeywords_iff: "assertKeywords node path allowed = Inr () \<longleftrightarrow> fst ` set node \<subseteq> set allowed"
  by (auto simp: assertKeywords_def firstBad_iff)

lemma assertRequired_iff: "assertRequired node path ps = Inr () \<longleftrightarrow> requiredTyped node ps"
proof (cases "map_of node ''required''")
  case (Some d)
  show ?thesis
  proof (cases "\<exists>names. d = SArray (map SString names)")
    case True
    then obtain names where "d = SArray (map SString names)" by blast
    then show ?thesis using Some strings_iff [of "map SString names"]
      by (auto simp: assertRequired_def requiredTyped_def firstBad_iff simp del: map_map)
  next
    case False
    then have "\<not> list_all isStr ds" if "d = SArray ds" for ds using that strings_iff by blast
    with False Some show ?thesis by (auto simp: assertRequired_def requiredTyped_def split: sdoc.splits)
  qed
qed (simp add: assertRequired_def requiredTyped_def)

lemma typeNamesOf_iff: "typeNamesOf t path = Inr names \<longleftrightarrow> typeNames t names"
  by (auto simp: typeNamesOf_def typeNames_def strings_iff comp_def split: option.splits sdoc.splits)

lemma assertScalar_iff: "assertScalar node path = Inr () \<longleftrightarrow> scalarTyped node"
proof -
  have fmt: "(case map_of node ''format'' of None \<Rightarrow> True | Some f \<Rightarrow> isStr f) \<longleftrightarrow> (\<forall>d. map_of node ''format'' = Some d \<longrightarrow> (\<exists>s. d = SString s))"
    by (auto simp: isStr_iff split: option.splits)
  have en: "(case map_of node ''enum'' of None \<Rightarrow> Inr () | Some (SArray values) \<Rightarrow> if values = [] then Inl a else if list_all isScalar values then Inr () else Inl b
      | Some _ \<Rightarrow> Inl c) = Inr () \<longleftrightarrow> (\<forall>d. map_of node ''enum'' = Some d \<longrightarrow> (\<exists>values. d = SArray values \<and> values \<noteq> [] \<and> list_all isScalar values))"
    for a b c :: profileError
    by (auto split: option.splits sdoc.splits)
  have "(case find P names of Some name \<Rightarrow> Inl (f name) | None \<Rightarrow> rest) = Inr () \<longleftrightarrow> (\<forall>x \<in> set names. \<not> P x) \<and> rest = Inr ()"
    for P names and f :: "string \<Rightarrow> profileError" and rest
    by (cases "find P names") (simp_all add: find_None_set [symmetric])
  then show ?thesis unfolding assertScalar_def scalarTyped_def rbind_eq_Inr_iff typeNamesOf_iff fmt by (auto simp: en)
qed

lemma assertOpen_iff: "assertOpen node path = Inr () \<longleftrightarrow> map_of node ''additionalProperties'' \<in> {None, Some (SBool True)}"
  by (auto simp: assertOpen_def)

lemma allOk_unit: "(\<exists>us. allOk rs = Inr us) \<longleftrightarrow> (\<forall>r \<in> set rs. \<exists>u. r = Inr u)"
  by (auto simp: allOk_Inr_iff ex_map_conv)

lemma not_scalarTyped: "map_of node ''type'' \<in> {Some (SString ''object''), Some (SString ''array'')} \<Longrightarrow> \<not> scalarTyped node"
  by (auto simp: scalarTyped_def typeNames_def primitiveTypes_def)

lemma typed_object_iff:
  assumes "map_of node ''type'' = Some (SString ''object'')"
  shows "typed extra node \<longleftrightarrow> fst ` set node \<subseteq> set (objectKeywords @ extra) \<and> (\<exists>ps. map_of node ''properties'' = Some (SObject ps) \<and>
    (\<forall>k c. (k, c) \<in> set ps \<longrightarrow> (\<exists>r. c = SObject r \<and> typed [] r)) \<and> requiredTyped node ps \<and>
    map_of node ''additionalProperties'' \<in> {None, Some (SBool True)})"
  using assms not_scalarTyped [of node] by (subst typed.simps) auto

lemma typed_array_iff:
  assumes "map_of node ''type'' = Some (SString ''array'')"
  shows "typed extra node \<longleftrightarrow> fst ` set node \<subseteq> set (arrayKeywords @ extra) \<and> (\<exists>r. map_of node ''items'' = Some (SObject r) \<and> typed [] r)"
  using assms not_scalarTyped [of node] by (subst typed.simps) auto

lemma typed_scalar_iff:
  assumes "map_of node ''type'' \<noteq> Some (SString ''object'')" and "map_of node ''type'' \<noteq> Some (SString ''array'')"
  shows "typed extra node \<longleftrightarrow> fst ` set node \<subseteq> set (scalarKeywords @ extra) \<and> scalarTyped node"
  using assms by (subst typed.simps) auto

lemma assertNodeInProfile_iff: "assertNodeInProfile node path extra = Inr () \<longleftrightarrow> typed extra node"
proof (induction node path extra rule: assertNodeInProfile.induct)
  case (1 node path extra)
  consider (object) "map_of node ''type'' = Some (SString ''object'')" | (array) "map_of node ''type'' = Some (SString ''array'')"
    | (scalar) "map_of node ''type'' \<noteq> Some (SString ''object'')" "map_of node ''type'' \<noteq> Some (SString ''array'')" by blast
  then show ?case
  proof cases
    case object
    let ?check = "\<lambda>(key, child). rbind (asRecord child (propertyPath path key)) (\<lambda>c. assertNodeInProfile c (propertyPath path key) [])"
    have kids: "(\<exists>us. allOk (map ?check ps) = Inr us) \<longleftrightarrow> (\<forall>k c. (k, c) \<in> set ps \<longrightarrow> (\<exists>r. c = SObject r \<and> typed [] r))"
      if kw: "assertKeywords node path (objectKeywords @ extra) = Inr ()" and ps: "map_of node ''properties'' = Some (SObject ps)" for ps
    proof -
      have "?check (k, c) = Inr () \<longleftrightarrow> (\<exists>r. c = SObject r \<and> typed [] r)" if "(k, c) \<in> set ps" for k c
        using "1.IH"(1) [OF object kw ps asRecord_SObject that refl] by (auto simp: rbind_eq_Inr_iff)
      then show ?thesis unfolding allOk_unit by auto
    qed
    have "assertNodeInProfile node path extra = Inr () \<longleftrightarrow> assertKeywords node path (objectKeywords @ extra) = Inr () \<and>
        (\<exists>ps. map_of node ''properties'' = Some (SObject ps) \<and> (\<exists>us. allOk (map ?check ps) = Inr us) \<and> assertRequired node path ps = Inr () \<and> assertOpen node path = Inr ())"
      using object by (subst assertNodeInProfile.simps) (auto simp: rbind_eq_Inr_iff split: option.splits)
    then show ?thesis using kids by (auto simp: typed_object_iff [OF object] assertKeywords_iff assertRequired_iff assertOpen_iff)
  next
    case array
    then have no: "map_of node ''type'' \<noteq> Some (SString ''object'')" by simp
    have "assertNodeInProfile r (itemsPath path) [] = Inr () \<longleftrightarrow> typed [] r"
      if "assertKeywords node path (arrayKeywords @ extra) = Inr ()" "map_of node ''items'' = Some (SObject r)" for r
      using "1.IH"(6) [OF no array that(1,2) refl asRecord_SObject] by simp
    then show ?thesis using array typed_array_iff [OF array, of extra]
      by (subst assertNodeInProfile.simps) (auto simp: rbind_eq_Inr_iff assertKeywords_iff split: option.splits sdoc.splits)
  next
    case scalar
    then show ?thesis using scalar typed_scalar_iff [OF scalar, of extra]
      by (subst assertNodeInProfile.simps) (auto simp: rbind_eq_Inr_iff assertKeywords_iff assertScalar_iff)
  qed
qed

lemma assertInProfile_iff: "assertInProfile doc path = Inr () \<longleftrightarrow> eventSchema doc"
  by (cases doc) (auto simp: assertInProfile_def eventSchema_def asRecord_def rbind_def assertNodeInProfile_iff documentKeywords_def isStr_iff split: option.splits if_splits)

end
