(* ===== verification/SchemaEvolution.thy ===== *)
theory SchemaEvolution
  imports SchemaProfile EventCodec
begin

text \<open>
  Evolving event contracts: \<open>schema-registry/compatibility.ts\<close>, the registry of
  \<open>schema-registry/local-schema-registry.ts\<close> with its catalogue, and \<open>EventContract\<close> of
  \<open>schema-registry/event-contract.service.ts\<close>.

  A finding keeps its path, rule and directions; its prose is left out. Reading a property that an
  object does not have finds the member it inherits, if there is one by that name: a function or
  the prototype, which as a schema node have no keyword at all. Ajv is a parameter, \<open>compile\<close>, and
  \<open>ajvLaws\<close> says that it implements \<open>accepts\<close>, the meaning JSON Schema gives the profile's keywords.
\<close>

section \<open>Reading a schema node\<close>

definition membersOf :: "sdoc \<Rightarrow> members" where
  "membersOf doc = (case doc of SObject ms \<Rightarrow> ms | _ \<Rightarrow> [])"

definition propsOf :: "members \<Rightarrow> members" where
  "propsOf node = (case map_of node ''properties'' of Some d \<Rightarrow> membersOf d | None \<Rightarrow> [])"

definition requiredOf :: "members \<Rightarrow> string list" where
  "requiredOf node = (case map_of node ''required'' of Some (SArray es) \<Rightarrow> map strOf es | _ \<Rightarrow> [])"

definition itemsOf :: "members \<Rightarrow> members" where
  "itemsOf node = (case map_of node ''items'' of Some d \<Rightarrow> membersOf d | None \<Rightarrow> [])"

definition enumOf :: "members \<Rightarrow> sdoc list option" where
  "enumOf node = (case map_of node ''enum'' of Some (SArray vs) \<Rightarrow> Some vs | _ \<Rightarrow> None)"

definition formatOf :: "members \<Rightarrow> string option" where
  "formatOf node = (case map_of node ''format'' of Some (SString f) \<Rightarrow> Some f | _ \<Rightarrow> None)"

definition kindOf :: "members \<Rightarrow> string" where
  "kindOf node = (if map_of node ''type'' = Some (SString ''object'') then ''object''
     else if map_of node ''type'' = Some (SString ''array'') then ''array'' else ''scalar'')"

definition propertyAt :: "members \<Rightarrow> string \<Rightarrow> sdoc option" where
  "propertyAt ps key = (case map_of ps key of Some c \<Rightarrow> Some c
     | None \<Rightarrow> if key \<in> set inheritedNames then Some (SObject []) else None)"

section \<open>The compatibility check\<close>

datatype compatibilityDirection = Backward | Forward

definition bothDirections :: "compatibilityDirection list" where
  "bothDirections = [Backward, Forward]"

record incompatibility =
  icPath :: string
  icRule :: string
  icBreaks :: "compatibilityDirection list"

definition covers :: "string list \<Rightarrow> string list \<Rightarrow> bool" where
  "covers wide narrow = list_all (\<lambda>t. t \<in> set wide \<or> (t = ''integer'' \<and> ''number'' \<in> set wide)) narrow"

definition enumBreaks :: "sdoc list \<Rightarrow> sdoc list \<Rightarrow> compatibilityDirection list" where
  "enumBreaks previous nxt = (if list_all (\<lambda>v. v \<in> set nxt) previous then [] else [Backward])
     @ (if list_all (\<lambda>v. v \<in> set previous) nxt then [] else [Forward])"

definition compareConstraint :: "'a option \<Rightarrow> 'a option \<Rightarrow> string \<Rightarrow> string \<Rightarrow> ('a \<Rightarrow> 'a \<Rightarrow> bool)
    \<Rightarrow> ('a \<Rightarrow> 'a \<Rightarrow> compatibilityDirection list) \<Rightarrow> incompatibility list" where
  "compareConstraint previous nxt path keyword same whenDifferent = (case (previous, nxt) of
     (None, None) \<Rightarrow> []
   | (None, Some _) \<Rightarrow> [\<lparr>icPath = path, icRule = keyword @ ''-added'', icBreaks = [Backward]\<rparr>]
   | (Some _, None) \<Rightarrow> [\<lparr>icPath = path, icRule = keyword @ ''-removed'', icBreaks = [Forward]\<rparr>]
   | (Some a, Some b) \<Rightarrow> if same a b then []
       else [\<lparr>icPath = path, icRule = keyword @ ''-changed'', icBreaks = whenDifferent a b\<rparr>])"

definition compareScalars :: "members \<Rightarrow> members \<Rightarrow> string \<Rightarrow> profileError + incompatibility list" where
  "compareScalars previous nxt path =
     rbind (typeNamesOf (map_of previous ''type'') path) (\<lambda>previousTypes.
     rbind (typeNamesOf (map_of nxt ''type'') path) (\<lambda>nextTypes.
     let typeBreaks = (if covers nextTypes previousTypes then [] else [Backward])
           @ (if covers previousTypes nextTypes then [] else [Forward])
     in Inr ((if typeBreaks = [] then [] else [\<lparr>icPath = path, icRule = ''type-changed'', icBreaks = typeBreaks\<rparr>])
       @ compareConstraint (enumOf previous) (enumOf nxt) path ''enum''
           (\<lambda>a b. list_all (\<lambda>v. v \<in> set b) a \<and> list_all (\<lambda>v. v \<in> set a) b) enumBreaks
       @ compareConstraint (formatOf previous) (formatOf nxt) path ''format'' (=) (\<lambda>_ _. bothDirections))))"

definition requiredChange :: "string \<Rightarrow> string \<Rightarrow> string list \<Rightarrow> string list \<Rightarrow> incompatibility list" where
  "requiredChange key childPath previousRequired nextRequired =
     (if key \<notin> set previousRequired \<and> key \<in> set nextRequired
      then [\<lparr>icPath = childPath, icRule = ''optional-became-required'', icBreaks = [Backward]\<rparr>] else [])
     @ (if key \<in> set previousRequired \<and> key \<notin> set nextRequired
      then [\<lparr>icPath = childPath, icRule = ''required-became-optional'', icBreaks = [Forward]\<rparr>] else [])"

text \<open>\<open>new Set([...Object.keys(a), ...Object.keys(b)])\<close>.\<close>

definition unionKeys :: "members \<Rightarrow> members \<Rightarrow> string list" where
  "unionKeys a b = map fst a @ filter (\<lambda>k. k \<notin> set (map fst a)) (map fst b)"

lemma membersOf_size: "membersSize (membersOf d) < size d \<or> membersOf d = []"
  by (cases d) (auto simp: membersOf_def)

lemma membersOf_smaller: "map_of ms k = Some d \<Longrightarrow> membersSize (membersOf d) < membersSize ms"
  using map_of_smaller [of ms k d] membersOf_size [of d] by (cases ms) auto

lemma node_size: "kindOf node \<noteq> ''scalar'' \<Longrightarrow> 0 < membersSize node"
  by (cases node) (simp_all add: kindOf_def)

lemma propsOf_smaller: "kindOf node = ''object'' \<Longrightarrow> membersSize (propsOf node) < membersSize node"
  using node_size [of node] membersOf_smaller [of node "''properties''"] by (simp add: propsOf_def split: option.split)

lemma itemsOf_smaller: "kindOf node = ''array'' \<Longrightarrow> membersSize (itemsOf node) < membersSize node"
  using node_size [of node] membersOf_smaller [of node "''items''"] by (simp add: itemsOf_def split: option.split)

lemma propertyAt_smaller: "kindOf node = ''object'' \<Longrightarrow> propertyAt (propsOf node) key = Some d \<Longrightarrow> membersSize (membersOf d) < membersSize node"
  using propsOf_smaller [of node] by (auto simp: propertyAt_def membersOf_def dest: membersOf_smaller split: option.splits if_splits)
  
function compareNodes :: "members \<Rightarrow> members \<Rightarrow> string \<Rightarrow> profileError + incompatibility list" where
  "compareNodes previous nxt path =
     (if kindOf previous \<noteq> kindOf nxt then Inr [\<lparr>icPath = path, icRule = ''kind-changed'', icBreaks = bothDirections\<rparr>]
      else if kindOf previous = ''object'' then
        rbind (allOk (map (\<lambda>key. case (propertyAt (propsOf previous) key, propertyAt (propsOf nxt) key) of
            (Some earlier, Some later) \<Rightarrow>
              rbind (compareNodes (membersOf earlier) (membersOf later) (propertyPath path key)) (\<lambda>fs.
                Inr (requiredChange key (propertyPath path key) (requiredOf previous) (requiredOf nxt) @ fs))
          | (Some earlier, None) \<Rightarrow> Inr (if key \<in> set (requiredOf previous)
              then [\<lparr>icPath = propertyPath path key, icRule = ''required-property-removed'', icBreaks = [Forward]\<rparr>] else [])
          | (None, _) \<Rightarrow> Inr (if key \<in> set (requiredOf nxt)
              then [\<lparr>icPath = propertyPath path key, icRule = ''required-property-added'', icBreaks = [Backward]\<rparr>] else []))
          (unionKeys (propsOf previous) (propsOf nxt)))) (\<lambda>fss. Inr (concat fss))
      else if kindOf previous = ''array'' then compareNodes (itemsOf previous) (itemsOf nxt) (itemsPath path)
      else compareScalars previous nxt path)"
  by pat_completeness auto
termination
  by (relation "measure (\<lambda>(p, n, path). membersSize p + membersSize n)")
    (auto intro!: add_strict_mono intro: propertyAt_smaller itemsOf_smaller)

declare compareNodes.simps [simp del]

definition checkCompatibility :: "sdoc \<Rightarrow> sdoc \<Rightarrow> profileError + incompatibility list" where
  "checkCompatibility previous nxt =
     rbind (assertInProfile previous ''#(previous)'') (\<lambda>_. rbind (assertInProfile nxt ''#(next)'') (\<lambda>_.
       compareNodes (membersOf previous) (membersOf nxt) ''#''))"

datatype registryError =
    OutsideProfile profileError
  | IncompatibleEvolutionError string nat nat "incompatibility list"
  | SubjectNotRegisteredError string "string list"
  | SchemaCompilationError string nat string

definition liftProfile :: "profileError + 'a \<Rightarrow> registryError + 'a" where
  "liftProfile r = (case r of Inl e \<Rightarrow> Inl (OutsideProfile e) | Inr a \<Rightarrow> Inr a)"

definition assertFullyCompatible :: "string \<Rightarrow> nat \<times> sdoc \<Rightarrow> nat \<times> sdoc \<Rightarrow> registryError + unit" where
  "assertFullyCompatible subject previous nxt =
     rbind (liftProfile (checkCompatibility (snd previous) (snd nxt))) (\<lambda>findings.
       if findings \<noteq> [] then Inl (IncompatibleEvolutionError subject (fst previous) (fst nxt) findings) else Inr ())"

definition assertHistoryIsFullyCompatible :: "string \<Rightarrow> (nat \<times> sdoc) list \<Rightarrow> registryError + unit" where
  "assertHistoryIsFullyCompatible subject versions =
     rbind (allOk (map (\<lambda>(older, newer). assertFullyCompatible subject (versions ! older) (versions ! newer))
       (concat (map (\<lambda>older. map (Pair older) [older + 1..<length versions]) [0..<length versions])))) (\<lambda>_. Inr ())"

section \<open>The registry\<close>

text \<open>A subject's schemas, oldest first, each with its version.\<close>

type_synonym registry = "(string \<times> (nat \<times> sdoc) list) list"

definition registerHistory :: "string \<Rightarrow> sdoc list \<Rightarrow> registryError + (nat \<times> sdoc) list" where
  "registerHistory subject history = (if history = [] then Inl (SubjectNotRegisteredError subject []) else
     rbind (allOk (map (\<lambda>(index, schema). rbind (liftProfile (assertInProfile schema
         (''#('' @ subject @ '' v'' @ decString (index + 1) @ '')''))) (\<lambda>_. Inr (index + 1, schema)))
       (enumerate 0 history))) (\<lambda>versions.
     rbind (assertHistoryIsFullyCompatible subject versions) (\<lambda>_. Inr versions)))"

definition localSchemaRegistry :: "(string \<Rightarrow> sdoc list) \<Rightarrow> registryError + registry" where
  "localSchemaRegistry catalogue = allOk (map (\<lambda>subject.
     rbind (registerHistory subject (catalogue subject)) (\<lambda>versions. Inr (subject, versions))) domainEventNames)"

definition registrySubjects :: "registry \<Rightarrow> string list" where
  "registrySubjects reg = map fst reg"

definition registryVersions :: "registry \<Rightarrow> string \<Rightarrow> registryError + (nat \<times> sdoc) list" where
  "registryVersions reg subject = (case map_of reg subject of
     None \<Rightarrow> Inl (SubjectNotRegisteredError subject (map fst reg)) | Some history \<Rightarrow> Inr history)"

definition registryLatest :: "registry \<Rightarrow> string \<Rightarrow> registryError + nat \<times> sdoc" where
  "registryLatest reg subject = rbind (registryVersions reg subject) (\<lambda>history. Inr (last history))"

section \<open>The compiled contract\<close>

text \<open>A compiled schema answers \<open>None\<close> for a valid value, or its findings.\<close>

type_synonym validator = "sdoc \<Rightarrow> string list option"

definition compileSubject :: "(sdoc \<Rightarrow> string + validator) \<Rightarrow> registry \<Rightarrow> string \<Rightarrow> registryError + string \<times> nat \<times> validator" where
  "compileSubject compile reg subject =
     rbind (registryLatest reg subject) (\<lambda>reader.
     rbind (registryVersions reg subject) (\<lambda>history.
     rbind (allOk (map (\<lambda>(version, schema). case compile schema of
         Inl cause \<Rightarrow> Inl (SchemaCompilationError subject version cause) | Inr fn \<Rightarrow> Inr (version, fn)) history)) (\<lambda>compiled.
     Inr (subject, last (filter (\<lambda>(version, fn). version = fst reader) compiled)))))"

definition eventContract :: "(sdoc \<Rightarrow> string + validator) \<Rightarrow> registry \<Rightarrow> registryError + (string \<times> nat \<times> validator) list" where
  "eventContract compile reg = allOk (map (compileSubject compile reg) (registrySubjects reg))"

definition validatePayload :: "(string \<times> nat \<times> validator) list \<Rightarrow> string \<Rightarrow> sdoc \<Rightarrow> (string list \<times> nat) + nat" where
  "validatePayload validators name payload = (case map_of validators name of
     None \<Rightarrow> Inl ([''no compiled schema for '' @ quoted name], 0)
   | Some (version, fn) \<Rightarrow> (case fn payload of None \<Rightarrow> Inr version | Some violations \<Rightarrow> Inl (violations, version)))"

section \<open>What a schema means\<close>

definition hasType :: "string \<Rightarrow> sdoc \<Rightarrow> bool" where
  "hasType t v = (case v of
     SNull \<Rightarrow> t = ''null'' | SBool _ \<Rightarrow> t = ''boolean'' | SString _ \<Rightarrow> t = ''string''
   | SNumber q \<Rightarrow> t = ''number'' \<or> (t = ''integer'' \<and> of_int \<lfloor>q\<rfloor> = q)
   | _ \<Rightarrow> False)"

definition scalarTypes :: "members \<Rightarrow> string list" where
  "scalarTypes node = (case typeNamesOf (map_of node ''type'') [] of Inr names \<Rightarrow> names | Inl _ \<Rightarrow> [])"

definition scalarAccepts :: "(string \<Rightarrow> string \<Rightarrow> bool) \<Rightarrow> members \<Rightarrow> sdoc \<Rightarrow> bool" where
  "scalarAccepts fmt node v \<longleftrightarrow> list_ex (\<lambda>t. hasType t v) (scalarTypes node) \<and>
     (case enumOf node of None \<Rightarrow> True | Some vs \<Rightarrow> v \<in> set vs) \<and>
     (case formatOf node of None \<Rightarrow> True | Some f \<Rightarrow> (case v of SString s \<Rightarrow> fmt f s | _ \<Rightarrow> True))"

function accepts :: "(string \<Rightarrow> string \<Rightarrow> bool) \<Rightarrow> members \<Rightarrow> sdoc \<Rightarrow> bool" where
  "accepts fmt node v =
     (if kindOf node = ''object'' then (case v of
        SObject ms \<Rightarrow> list_all (\<lambda>k. map_of ms k \<noteq> None) (requiredOf node) \<and>
          list_all (\<lambda>k. case map_of (propsOf node) k of None \<Rightarrow> True | Some c \<Rightarrow>
            (case map_of ms k of None \<Rightarrow> True | Some w \<Rightarrow> accepts fmt (membersOf c) w)) (map fst (propsOf node))
      | _ \<Rightarrow> False)
      else if kindOf node = ''array'' then (case v of SArray vs \<Rightarrow> list_all (accepts fmt (itemsOf node)) vs | _ \<Rightarrow> False)
      else scalarAccepts fmt node v)"
  by pat_completeness auto
termination
  by (relation "measure (\<lambda>(fmt, node, v). membersSize node)")
    (auto intro: itemsOf_smaller dest: membersOf_smaller intro: less_trans [OF _ propsOf_smaller])

declare accepts.simps [simp del]

text \<open>A value that uses no property its schema does not declare, as a writer of that schema produces it.\<close>

function declared :: "members \<Rightarrow> sdoc \<Rightarrow> bool" where
  "declared node v =
     (if kindOf node = ''object'' then (case v of
        SObject ms \<Rightarrow> list_all (\<lambda>(k, w). case map_of (propsOf node) k of None \<Rightarrow> False | Some c \<Rightarrow> declared (membersOf c) w) ms
      | _ \<Rightarrow> True)
      else if kindOf node = ''array'' then (case v of SArray vs \<Rightarrow> list_all (declared (itemsOf node)) vs | _ \<Rightarrow> True)
      else True)"
  by pat_completeness auto
termination
  by (relation "measure (\<lambda>(node, v). membersSize node)")
    (auto intro: itemsOf_smaller dest: membersOf_smaller intro: less_trans [OF _ propsOf_smaller])

declare declared.simps [simp del]

text \<open>No property is named like a member that every object inherits.\<close>

function ownNames :: "members \<Rightarrow> bool" where
  "ownNames node \<longleftrightarrow>
     (if kindOf node = ''object'' then list_all (\<lambda>k. k \<notin> set inheritedNames) (requiredOf node) \<and>
        list_all (\<lambda>k. k \<notin> set inheritedNames \<and> (case map_of (propsOf node) k of None \<Rightarrow> True | Some c \<Rightarrow> ownNames (membersOf c))) (map fst (propsOf node))
      else if kindOf node = ''array'' then ownNames (itemsOf node)
      else True)"
  by pat_completeness auto
termination
  by (relation "measure membersSize")
    (auto intro: itemsOf_smaller dest: membersOf_smaller intro: less_trans [OF _ propsOf_smaller])

declare ownNames.simps [simp del]

definition ajvLaws :: "(sdoc \<Rightarrow> string + validator) \<Rightarrow> (string \<Rightarrow> string \<Rightarrow> bool) \<Rightarrow> bool" where
  "ajvLaws compile fmt \<longleftrightarrow> (\<forall>doc fn v. eventSchema doc \<and> ownNames (membersOf doc) \<and> compile doc = Inr fn \<longrightarrow>
     (fn v = None \<longleftrightarrow> accepts fmt (membersOf doc) v))"

section \<open>Typed nodes\<close>

lemma membersOf_SObject [simp]: "membersOf (SObject ms) = ms"
  by (simp add: membersOf_def)

lemma kind_type:
  "kindOf node = ''object'' \<longleftrightarrow> map_of node ''type'' = Some (SString ''object'')"
  "kindOf node = ''array'' \<longleftrightarrow> map_of node ''type'' = Some (SString ''array'')"
  "kindOf node = ''scalar'' \<longleftrightarrow> map_of node ''type'' \<noteq> Some (SString ''object'') \<and> map_of node ''type'' \<noteq> Some (SString ''array'')"
  by (auto simp: kindOf_def)

lemma typed_object:
  assumes "typed extra node" and "kindOf node = ''object''"
  shows "map_of (propsOf node) k = Some c \<Longrightarrow> \<exists>r. c = SObject r \<and> typed [] r" and "k \<in> set (requiredOf node) \<Longrightarrow> keyIn k (propsOf node)"
proof -
  obtain ps where ps: "propsOf node = ps" "\<And>k c. (k, c) \<in> set ps \<Longrightarrow> \<exists>r. c = SObject r \<and> typed [] r" "requiredTyped node ps"
    using assms by (auto simp: kind_type typed_object_iff propsOf_def)
  show "\<exists>r. c = SObject r \<and> typed [] r" if "map_of (propsOf node) k = Some c" using ps(1,2) map_of_SomeD [OF that] by blast
  show "keyIn k (propsOf node)" if "k \<in> set (requiredOf node)"
    using that ps(1,3) by (cases "map_of node ''required''") (auto simp: requiredOf_def requiredTyped_def)
qed

lemma typed_array: "typed extra node \<Longrightarrow> kindOf node = ''array'' \<Longrightarrow> typed [] (itemsOf node)"
  by (auto simp: kind_type typed_array_iff itemsOf_def)

lemma scalar_types: "typed extra node \<Longrightarrow> kindOf node = ''scalar'' \<Longrightarrow> typeNamesOf (map_of node ''type'') path = Inr (scalarTypes node)"
proof -
  assume "typed extra node" "kindOf node = ''scalar''"
  then obtain names where "typeNames (map_of node ''type'') names" by (auto simp: kind_type typed_scalar_iff scalarTyped_def)
  then have "typeNamesOf (map_of node ''type'') p = Inr names" for p by (simp add: typeNamesOf_iff)
  then show ?thesis by (simp add: scalarTypes_def)
qed

lemma ownNames_object:
  assumes "ownNames node" and "kindOf node = ''object''"
  shows "map_of (propsOf node) k = Some c \<Longrightarrow> ownNames (membersOf c)" and "k \<in> set (requiredOf node) \<Longrightarrow> k \<notin> set inheritedNames"
    and "k \<in> fst ` set (propsOf node) \<Longrightarrow> k \<notin> set inheritedNames"
proof -
  from assms have required: "\<forall>k \<in> set (requiredOf node). k \<notin> set inheritedNames"
    and each: "\<forall>k \<in> set (map fst (propsOf node)). k \<notin> set inheritedNames \<and> (case map_of (propsOf node) k of None \<Rightarrow> True | Some c \<Rightarrow> ownNames (membersOf c))"
    unfolding ownNames.simps [of node] list_all_iff by simp_all
  show "ownNames (membersOf c)" if c: "map_of (propsOf node) k = Some c"
  proof -
    have "k \<in> set (map fst (propsOf node))" using map_of_SomeD [OF c] by force
    from bspec [OF each this] c show ?thesis by simp
  qed
  show "k \<notin> set inheritedNames" if "k \<in> set (requiredOf node)" using required that by blast
  show "k \<notin> set inheritedNames" if "k \<in> fst ` set (propsOf node)" using each that by auto
qed

lemma map_of_key: "k \<in> fst ` set ps \<longleftrightarrow> (\<exists>c. map_of ps k = Some c)"
  using map_of_eq_None_iff [of ps k] by (cases "map_of ps k") auto

lemma required_own:
  assumes "typed extra node" and "ownNames node" and "kindOf node = ''object''" and "k \<in> set (requiredOf node)"
  shows "\<exists>c. map_of (propsOf node) k = Some c"
  using typed_object(2) [OF assms(1,3,4)] ownNames_object(2) [OF assms(2,3,4)] by (simp add: keyIn_def map_of_key)

lemma propertyAt_own: "k \<notin> set inheritedNames \<Longrightarrow> propertyAt ps k = map_of ps k"
  by (simp add: propertyAt_def split: option.splits)

lemma kindOf_cases: "kindOf node = ''object'' \<or> kindOf node = ''array'' \<or> kindOf node = ''scalar''"
  by (simp add: kindOf_def)

lemma unionKeys_set [simp]: "set (unionKeys a b) = fst ` set a \<union> fst ` set b"
  by (auto simp: unionKeys_def)

section \<open>The check returns\<close>

lemma compareNodes_returns:
  assumes "typed ep p" and "typed en n" and "ownNames p" and "ownNames n"
  shows "\<exists>fs. compareNodes p n path = Inr fs"
  using assms
proof (induction p n path arbitrary: ep en rule: compareNodes.induct)
  case (1 p n path)
  show ?case
  proof (cases "kindOf p = kindOf n")
    case same: True
    consider (object) "kindOf p = ''object''" | (array) "kindOf p = ''array''" | (scalar) "kindOf p = ''scalar''" using kindOf_cases by blast
    then show ?thesis
    proof cases
      case object
      have child: "\<exists>fs. compareNodes (membersOf c) (membersOf d) (propertyPath path k) = Inr fs"
        if "k \<in> set (unionKeys (propsOf p) (propsOf n))" "propertyAt (propsOf p) k = Some c" "propertyAt (propsOf n) k = Some d" for k c d
      proof -
        have own: "k \<notin> set inheritedNames" using that(1) ownNames_object(3) "1.prems"(3,4) object same by auto
        then have c: "map_of (propsOf p) k = Some c" "map_of (propsOf n) k = Some d" using that(2,3) by (simp_all add: propertyAt_own)
        from typed_object(1) [OF "1.prems"(1) object c(1)] typed_object(1) [OF "1.prems"(2) _ c(2)] object same
        obtain r r' where "c = SObject r" "typed [] r" "d = SObject r'" "typed [] r'" by auto
        then show ?thesis
          using "1.IH"(1) [OF _ object that(1) refl that(2) that(3)] ownNames_object(1) [OF "1.prems"(3) object c(1)]
            ownNames_object(1) [OF "1.prems"(4) _ c(2)] same object by auto
      qed
      have "\<exists>fss. allOk (map (\<lambda>key. case (propertyAt (propsOf p) key, propertyAt (propsOf n) key) of
            (Some earlier, Some later) \<Rightarrow>
              rbind (compareNodes (membersOf earlier) (membersOf later) (propertyPath path key)) (\<lambda>fs.
                Inr (requiredChange key (propertyPath path key) (requiredOf p) (requiredOf n) @ fs))
          | (Some earlier, None) \<Rightarrow> Inr (if key \<in> set (requiredOf p)
              then [\<lparr>icPath = propertyPath path key, icRule = ''required-property-removed'', icBreaks = [Forward]\<rparr>] else [])
          | (None, _) \<Rightarrow> Inr (if key \<in> set (requiredOf n)
              then [\<lparr>icPath = propertyPath path key, icRule = ''required-property-added'', icBreaks = [Backward]\<rparr>] else []))
          (unionKeys (propsOf p) (propsOf n))) = Inr fss"
        unfolding allOk_unit using child by (fastforce split: option.splits)
      then show ?thesis using same object by (subst compareNodes.simps) auto
    next
      case array
      then show ?thesis
        using "1.IH"(2) [OF _ _ array typed_array [OF "1.prems"(1)] typed_array [OF "1.prems"(2)]] same "1.prems"(3,4)
        by (subst compareNodes.simps) (simp add: ownNames.simps [of p] ownNames.simps [of n])
    next
      case scalar
      then show ?thesis
        using scalar_types [OF "1.prems"(1)] scalar_types [OF "1.prems"(2)] same
        by (subst compareNodes.simps) (simp add: compareScalars_def Let_def)
    qed
  qed (subst compareNodes.simps, simp)
qed

section \<open>What a clean check promises\<close>

definition spares :: "compatibilityDirection \<Rightarrow> incompatibility list \<Rightarrow> bool" where
  "spares d fs \<longleftrightarrow> (\<forall>f \<in> set fs. d \<notin> set (icBreaks f))"

definition readsAll :: "(string \<Rightarrow> string \<Rightarrow> bool) \<Rightarrow> members \<Rightarrow> members \<Rightarrow> bool" where
  "readsAll fmt reader writer \<longleftrightarrow> (\<forall>v. accepts fmt writer v \<and> declared writer v \<longrightarrow> accepts fmt reader v)"

lemma spares_subset: "spares d fs \<Longrightarrow> set gs \<subseteq> set fs \<Longrightarrow> spares d gs"
  by (auto simp: spares_def)

lemma allOk_member: "allOk (map g ks) = Inr fss \<Longrightarrow> k \<in> set ks \<Longrightarrow> \<exists>gs. g k = Inr gs \<and> gs \<in> set fss"
  by (induction ks arbitrary: fss) (auto simp: rbind_eq_Inr_iff)

lemma compare_object:
  assumes "compareNodes p n path = Inr fs" and "kindOf p = ''object''" and "kindOf n = ''object''" and "k \<notin> set inheritedNames"
  shows "map_of (propsOf p) k = Some c \<Longrightarrow> map_of (propsOf n) k = Some d \<Longrightarrow>
      \<exists>gs. compareNodes (membersOf c) (membersOf d) (propertyPath path k) = Inr gs \<and> set gs \<subseteq> set fs \<and>
        set (requiredChange k (propertyPath path k) (requiredOf p) (requiredOf n)) \<subseteq> set fs"
    and "map_of (propsOf p) k = Some c \<Longrightarrow> map_of (propsOf n) k = None \<Longrightarrow> k \<in> set (requiredOf p) \<Longrightarrow> \<not> spares Forward fs"
    and "map_of (propsOf p) k = None \<Longrightarrow> map_of (propsOf n) k = Some d \<Longrightarrow> k \<in> set (requiredOf n) \<Longrightarrow> \<not> spares Backward fs"
proof -
  define g where "g = (\<lambda>key. case (propertyAt (propsOf p) key, propertyAt (propsOf n) key) of
        (Some earlier, Some later) \<Rightarrow>
          rbind (compareNodes (membersOf earlier) (membersOf later) (propertyPath path key)) (\<lambda>fs.
            Inr (requiredChange key (propertyPath path key) (requiredOf p) (requiredOf n) @ fs))
      | (Some earlier, None) \<Rightarrow> Inr (if key \<in> set (requiredOf p)
          then [\<lparr>icPath = propertyPath path key, icRule = ''required-property-removed'', icBreaks = [Forward]\<rparr>] else [])
      | (None, _) \<Rightarrow> Inr (if key \<in> set (requiredOf n)
          then [\<lparr>icPath = propertyPath path key, icRule = ''required-property-added'', icBreaks = [Backward]\<rparr>] else []))"
  obtain fss where fss: "allOk (map g (unionKeys (propsOf p) (propsOf n))) = Inr fss" "fs = concat fss"
    using assms(1-3) unfolding g_def by (subst (asm) compareNodes.simps) (auto simp: rbind_eq_Inr_iff)
  have at: "\<exists>gs. g k = Inr gs \<and> set gs \<subseteq> set fs" if "map_of (propsOf p) k \<noteq> None \<or> map_of (propsOf n) k \<noteq> None"
  proof -
    have "k \<in> set (unionKeys (propsOf p) (propsOf n))" using that by (auto simp: map_of_key)
    from allOk_member [OF fss(1) this] fss(2) show ?thesis by auto
  qed
  note here = propertyAt_own [OF assms(4)]
  show "\<exists>gs. compareNodes (membersOf c) (membersOf d) (propertyPath path k) = Inr gs \<and> set gs \<subseteq> set fs \<and>
        set (requiredChange k (propertyPath path k) (requiredOf p) (requiredOf n)) \<subseteq> set fs"
    if "map_of (propsOf p) k = Some c" "map_of (propsOf n) k = Some d"
    using at that by (auto simp: g_def here rbind_eq_Inr_iff)
  show "\<not> spares Forward fs" if "map_of (propsOf p) k = Some c" "map_of (propsOf n) k = None" "k \<in> set (requiredOf p)"
    using at that by (force simp: g_def here spares_def)
  show "\<not> spares Backward fs" if "map_of (propsOf p) k = None" "map_of (propsOf n) k = Some d" "k \<in> set (requiredOf n)"
    using at that by (force simp: g_def here spares_def)
qed

text \<open>An object is read when every property the reader requires is required of the writer and every common property is read.\<close>

lemma readsAll_object:
  assumes "kindOf w = ''object''" and "kindOf r = ''object''"
    and "\<And>k. k \<in> set (requiredOf r) \<Longrightarrow> k \<in> set (requiredOf w)"
    and "\<And>k c d. map_of (propsOf w) k = Some c \<Longrightarrow> map_of (propsOf r) k = Some d \<Longrightarrow> readsAll fmt (membersOf d) (membersOf c)"
  shows "readsAll fmt r w"
  unfolding readsAll_def
proof (intro allI impI)
  fix v assume v: "accepts fmt w v \<and> declared w v"
  then obtain ms where ms: "v = SObject ms" using assms(1) by (cases v) (simp_all add: accepts.simps [of fmt w])
  have has: "map_of ms k \<noteq> None" if "k \<in> set (requiredOf w)" for k
    using v assms(1) that ms by (simp add: accepts.simps [of fmt w] list_all_iff)
  have kept: "accepts fmt (membersOf c) x" if "map_of (propsOf w) k = Some c" "map_of ms k = Some x" for k c x
  proof -
    have "k \<in> set (map fst (propsOf w))" using that(1) map_of_key [of k "propsOf w"] by simp
    then show ?thesis using v assms(1) that ms by (fastforce simp: accepts.simps [of fmt w] list_all_iff)
  qed
  have decl: "\<exists>c. map_of (propsOf w) k = Some c \<and> declared (membersOf c) x" if "map_of ms k = Some x" for k x
    using v assms(1) map_of_SomeD [OF that] ms by (auto simp: declared.simps [of w] list_all_iff split: option.splits)
  have "accepts fmt (membersOf d) x" if "map_of (propsOf r) k = Some d" "map_of ms k = Some x" for k d x
    using decl [OF that(2)] assms(4) that kept unfolding readsAll_def by blast
  with has assms(2,3) ms show "accepts fmt r v"
    by (auto simp: accepts.simps [of fmt r] list_all_iff split: option.splits)
qed

lemma readsAll_array:
  assumes "kindOf w = ''array''" and "kindOf r = ''array''" and "readsAll fmt (itemsOf r) (itemsOf w)"
  shows "readsAll fmt r w"
  unfolding readsAll_def
proof (intro allI impI)
  fix v assume v: "accepts fmt w v \<and> declared w v"
  then obtain vs where vs: "v = SArray vs" using assms(1) by (cases v) (simp_all add: accepts.simps [of fmt w])
  have "list_all (accepts fmt (itemsOf w)) vs" "list_all (declared (itemsOf w)) vs"
    using v assms(1) vs by (simp_all add: accepts.simps [of fmt w] declared.simps [of w])
  then have "list_all (accepts fmt (itemsOf r)) vs" using assms(3) by (simp add: list_all_iff readsAll_def)
  then show "accepts fmt r v" using assms(2) vs by (simp add: accepts.simps [of fmt r])
qed

lemma covers_types:
  assumes "covers wide narrow" and "list_ex (\<lambda>t. hasType t v) narrow"
  shows "list_ex (\<lambda>t. hasType t v) wide"
proof -
  obtain t where t: "t \<in> set narrow" "hasType t v" using assms(2) by (auto simp: list_ex_iff)
  have "hasType ''number'' v" if "t = ''integer''" using t(2) that by (cases v) (simp_all add: hasType_def)
  with t assms(1) show ?thesis by (auto simp: covers_def list_all_iff list_ex_iff)
qed

lemma readsAll_scalar:
  assumes "kindOf w = ''scalar''" and "kindOf r = ''scalar''" and "covers (scalarTypes r) (scalarTypes w)"
    and "case enumOf r of None \<Rightarrow> True | Some b \<Rightarrow> \<exists>a. enumOf w = Some a \<and> set a \<subseteq> set b"
    and "case formatOf r of None \<Rightarrow> True | Some f \<Rightarrow> formatOf w = Some f"
  shows "readsAll fmt r w"
  unfolding readsAll_def
proof (intro allI impI)
  fix v assume "accepts fmt w v \<and> declared w v"
  then have v: "scalarAccepts fmt w v" using assms(1) by (simp add: accepts.simps [of fmt w])
  have "scalarAccepts fmt r v"
    using v assms(3-5) covers_types unfolding scalarAccepts_def by (auto split: option.splits)
  then show "accepts fmt r v" using assms(2) by (simp add: accepts.simps [of fmt r])
qed

lemma spares_append: "spares d (xs @ ys) \<longleftrightarrow> spares d xs \<and> spares d ys"
  by (auto simp: spares_def)

lemma constraint_spared:
  "spares Backward (compareConstraint a b path kw same diff) \<Longrightarrow> b = Some y \<Longrightarrow> \<exists>x. a = Some x \<and> (same x y \<or> Backward \<notin> set (diff x y))"
  "spares Forward (compareConstraint a b path kw same diff) \<Longrightarrow> a = Some x \<Longrightarrow> \<exists>y. b = Some y \<and> (same x y \<or> Forward \<notin> set (diff x y))"
  by (auto simp: compareConstraint_def spares_def split: option.splits if_splits)

lemma scalar_spared:
  assumes "compareScalars p n path = Inr fs" and "typed ep p" and "typed en n" and "kindOf p = ''scalar''" and "kindOf n = ''scalar''"
  shows "spares Backward fs \<Longrightarrow> readsAll fmt n p" and "spares Forward fs \<Longrightarrow> readsAll fmt p n"
proof -
  let ?breaks = "(if covers (scalarTypes n) (scalarTypes p) then [] else [Backward]) @ (if covers (scalarTypes p) (scalarTypes n) then [] else [Forward])"
  let ?enum = "compareConstraint (enumOf p) (enumOf n) path ''enum'' (\<lambda>a b. list_all (\<lambda>v. v \<in> set b) a \<and> list_all (\<lambda>v. v \<in> set a) b) enumBreaks"
  let ?format = "compareConstraint (formatOf p) (formatOf n) path ''format'' (=) (\<lambda>_ _. bothDirections)"
  have fs: "fs = (if ?breaks = [] then [] else [\<lparr>icPath = path, icRule = ''type-changed'', icBreaks = ?breaks\<rparr>]) @ ?enum @ ?format"
    using assms(1) scalar_types [OF assms(2,4), of path] scalar_types [OF assms(3,5), of path] by (simp add: compareScalars_def Let_def)
  show "readsAll fmt n p" if "spares Backward fs"
  proof (rule readsAll_scalar [OF assms(4,5)])
    show "covers (scalarTypes n) (scalarTypes p)" using that unfolding fs spares_append by (auto simp: spares_def split: if_splits)
    show "case enumOf n of None \<Rightarrow> True | Some b \<Rightarrow> \<exists>a. enumOf p = Some a \<and> set a \<subseteq> set b"
      using that unfolding fs spares_append by (auto simp: enumBreaks_def list_all_iff dest!: constraint_spared(1) split: option.splits if_splits)
    show "case formatOf n of None \<Rightarrow> True | Some f \<Rightarrow> formatOf p = Some f"
      using that unfolding fs spares_append by (auto simp: bothDirections_def dest!: constraint_spared(1) split: option.splits)
  qed
  show "readsAll fmt p n" if "spares Forward fs"
  proof (rule readsAll_scalar [OF assms(5,4)])
    show "covers (scalarTypes p) (scalarTypes n)" using that unfolding fs spares_append by (auto simp: spares_def split: if_splits)
    show "case enumOf p of None \<Rightarrow> True | Some b \<Rightarrow> \<exists>a. enumOf n = Some a \<and> set a \<subseteq> set b"
      using that unfolding fs spares_append by (auto simp: enumBreaks_def list_all_iff dest!: constraint_spared(2) split: option.splits if_splits)
    show "case formatOf p of None \<Rightarrow> True | Some f \<Rightarrow> formatOf n = Some f"
      using that unfolding fs spares_append by (auto simp: bothDirections_def dest!: constraint_spared(2) split: option.splits)
  qed
qed

lemma requiredChange_spared:
  "set (requiredChange k path a b) \<subseteq> set fs \<Longrightarrow> spares Backward fs \<Longrightarrow> k \<in> set b \<Longrightarrow> k \<in> set a"
  "set (requiredChange k path a b) \<subseteq> set fs \<Longrightarrow> spares Forward fs \<Longrightarrow> k \<in> set a \<Longrightarrow> k \<in> set b"
  by (rule ccontr, force simp: requiredChange_def spares_def)+

lemma compare_sound:
  assumes "compareNodes p n path = Inr fs" and "typed ep p" and "typed en n" and "ownNames p" and "ownNames n"
  shows "(spares Backward fs \<longrightarrow> readsAll fmt n p) \<and> (spares Forward fs \<longrightarrow> readsAll fmt p n)"
  using assms
proof (induction p n path arbitrary: ep en fs rule: compareNodes.induct)
  case (1 p n path)
  show ?case
  proof (cases "kindOf p = kindOf n")
    case False
    then have "fs = [\<lparr>icPath = path, icRule = ''kind-changed'', icBreaks = bothDirections\<rparr>]"
      using "1.prems"(1) by (subst (asm) compareNodes.simps) simp
    then show ?thesis by (simp add: spares_def bothDirections_def)
  next
    case same: True
    consider (object) "kindOf p = ''object''" | (array) "kindOf p = ''array''" | (scalar) "kindOf p = ''scalar''" using kindOf_cases by blast
    then show ?thesis
    proof cases
      case object
      then have object': "kindOf n = ''object''" using same by simp
      note found = compare_object [OF "1.prems"(1) object object']
      have child: "(spares Backward fs \<longrightarrow> readsAll fmt (membersOf d) (membersOf c)) \<and> (spares Forward fs \<longrightarrow> readsAll fmt (membersOf c) (membersOf d))"
        if c: "map_of (propsOf p) k = Some c" "map_of (propsOf n) k = Some d" for k c d
      proof -
        have k: "k \<in> set (unionKeys (propsOf p) (propsOf n))" using c(1) by (simp add: map_of_key)
        have own: "k \<notin> set inheritedNames" using c(1) ownNames_object(3) [OF "1.prems"(4) object] by (simp add: map_of_key)
        obtain gs where gs: "compareNodes (membersOf c) (membersOf d) (propertyPath path k) = Inr gs" "set gs \<subseteq> set fs"
          using found(1) [OF own c] by blast
        obtain r r' where r: "c = SObject r" "typed [] r" "d = SObject r'" "typed [] r'"
          using typed_object(1) [OF "1.prems"(2) object c(1)] typed_object(1) [OF "1.prems"(3) object' c(2)] by blast
        have "(spares Backward gs \<longrightarrow> readsAll fmt (membersOf d) (membersOf c)) \<and> (spares Forward gs \<longrightarrow> readsAll fmt (membersOf c) (membersOf d))"
          by (rule "1.IH"(1) [OF _ object k refl _ _ gs(1), of "[]" "[]"])
            (use same c own r ownNames_object(1) [OF "1.prems"(4) object c(1)] ownNames_object(1) [OF "1.prems"(5) object' c(2)] in \<open>simp_all add: propertyAt_own\<close>)
        then show ?thesis using spares_subset [OF _ gs(2)] by blast
      qed
      have req: "k \<in> set (requiredOf p)" if sp: "spares Backward fs" and rq: "k \<in> set (requiredOf n)" for k
      proof -
        have own: "k \<notin> set inheritedNames" by (rule ownNames_object(2) [OF "1.prems"(5) object' rq])
        obtain d where d: "map_of (propsOf n) k = Some d" using required_own [OF "1.prems"(3,5) object' rq] by blast
        obtain c where "map_of (propsOf p) k = Some c" using found(3) [OF own _ d rq] sp by (cases "map_of (propsOf p) k") auto
        then show ?thesis using found(1) [OF own _ d] requiredChange_spared(1) sp rq by blast
      qed
      have req': "k \<in> set (requiredOf n)" if sp: "spares Forward fs" and rq: "k \<in> set (requiredOf p)" for k
      proof -
        have own: "k \<notin> set inheritedNames" by (rule ownNames_object(2) [OF "1.prems"(4) object rq])
        obtain c where c: "map_of (propsOf p) k = Some c" using required_own [OF "1.prems"(2,4) object rq] by blast
        obtain d where "map_of (propsOf n) k = Some d" using found(2) [OF own c _ rq] sp by (cases "map_of (propsOf n) k") auto
        then show ?thesis using found(1) [OF own c] requiredChange_spared(2) sp rq by blast
      qed
      show ?thesis
        using readsAll_object [OF object object' req, of fmt] readsAll_object [OF object' object req', of fmt] child by blast
    next
      case array
      then have array': "kindOf n = ''array''" using same by simp
      have items: "compareNodes (itemsOf p) (itemsOf n) (itemsPath path) = Inr fs"
        using "1.prems"(1) array array' by (subst (asm) compareNodes.simps) simp
      have "ownNames (itemsOf p)" "ownNames (itemsOf n)"
        using "1.prems"(4,5) array array' by (simp_all add: ownNames.simps [of p] ownNames.simps [of n])
      then have "(spares Backward fs \<longrightarrow> readsAll fmt (itemsOf n) (itemsOf p)) \<and> (spares Forward fs \<longrightarrow> readsAll fmt (itemsOf p) (itemsOf n))"
        using "1.IH"(2) [OF _ _ array items typed_array [OF "1.prems"(2) array] typed_array [OF "1.prems"(3) array']] array same by simp
      then show ?thesis using readsAll_array array array' by blast
    next
      case scalar
      then have "compareScalars p n path = Inr fs" using "1.prems"(1) same by (subst (asm) compareNodes.simps) simp
      from scalar_spared [OF this "1.prems"(2,3) scalar] scalar same show ?thesis by simp
    qed
  qed
qed

section \<open>A registry that could be built\<close>

lemma checkCompatibility_clean:
  assumes "checkCompatibility a b = Inr []" and "ownNames (membersOf a)" and "ownNames (membersOf b)"
  shows "readsAll fmt (membersOf b) (membersOf a) \<and> readsAll fmt (membersOf a) (membersOf b)"
proof -
  from assms(1) have "eventSchema a" "eventSchema b" and c: "compareNodes (membersOf a) (membersOf b) ''#'' = Inr []"
    by (auto simp: checkCompatibility_def rbind_eq_Inr_iff assertInProfile_iff)
  then obtain r s where "a = SObject r" "typed documentKeywords r" "b = SObject s" "typed documentKeywords s" by (auto simp: eventSchema_def)
  then show ?thesis using compare_sound [OF c, of documentKeywords documentKeywords fmt] assms(2,3) by (simp add: spares_def)
qed

lemma liftProfile_Inr [simp]: "liftProfile r = Inr a \<longleftrightarrow> r = Inr a"
  by (auto simp: liftProfile_def split: sum.splits)

lemma history_pairs:
  assumes "assertHistoryIsFullyCompatible subject versions = Inr ()" and "i < j" and "j < length versions"
  shows "checkCompatibility (snd (versions ! i)) (snd (versions ! j)) = Inr []"
proof -
  let ?pairs = "concat (map (\<lambda>older. map (Pair older) [older + 1..<length versions]) [0..<length versions])"
  have "(i, j) \<in> set ?pairs" using assms(2,3) by (auto intro!: bexI [of _ i])
  moreover obtain us where "allOk (map (\<lambda>(older, newer). assertFullyCompatible subject (versions ! older) (versions ! newer)) ?pairs) = Inr us"
    using assms(1) by (auto simp: assertHistoryIsFullyCompatible_def rbind_eq_Inr_iff)
  ultimately have "assertFullyCompatible subject (versions ! i) (versions ! j) = Inr ()"
    using allOk_member by fastforce
  then show ?thesis by (auto simp: assertFullyCompatible_def rbind_eq_Inr_iff split: if_splits)
qed

definition numbered :: "sdoc list \<Rightarrow> (nat \<times> sdoc) list" where
  "numbered history = map (\<lambda>(index, schema). (index + 1, schema)) (enumerate 0 history)"

lemma numbered_nth: "i < length history \<Longrightarrow> numbered history ! i = (i + 1, history ! i)"
  by (simp add: numbered_def nth_enumerate_eq)

lemma numbered_Nil [simp]: "numbered history = [] \<longleftrightarrow> history = []"
  by (cases history) (simp_all add: numbered_def)

lemma numbered_length [simp]: "length (numbered history) = length history"
  by (simp add: numbered_def)

lemma allOk_mapD:
  "allOk (map g xs) = Inr ys \<Longrightarrow> (\<And>x y. x \<in> set xs \<Longrightarrow> g x = Inr y \<Longrightarrow> y = h x) \<Longrightarrow> ys = map h xs"
  by (induction xs arbitrary: ys) (auto simp: rbind_eq_Inr_iff)

lemma registerHistory_Inr:
  assumes "registerHistory subject history = Inr versions"
  shows "history \<noteq> [] \<and> versions = numbered history \<and> list_all eventSchema history \<and>
    (\<forall>i j. i < j \<and> j < length history \<longrightarrow> checkCompatibility (history ! i) (history ! j) = Inr [])"
proof -
  let ?g = "\<lambda>(index, schema). rbind (liftProfile (assertInProfile schema (''#('' @ subject @ '' v'' @ decString (index + 1) @ '')'')))
    (\<lambda>_. Inr (index + 1, schema))"
  from assms have ne: "history \<noteq> []" and all: "allOk (map ?g (enumerate 0 history)) = Inr versions"
    and h: "assertHistoryIsFullyCompatible subject versions = Inr ()"
    by (auto simp: registerHistory_def rbind_eq_Inr_iff split: if_splits)
  have v: "versions = numbered history"
    unfolding numbered_def by (rule allOk_mapD [OF all]) (auto simp: rbind_eq_Inr_iff)
  have "eventSchema s" if "s \<in> set history" for s
  proof -
    obtain i where "i < length history" "s = history ! i" using \<open>s \<in> set history\<close> by (auto simp: in_set_conv_nth)
    then have "(i, s) \<in> set (enumerate 0 history)" by (auto simp: in_set_enumerate_eq)
    from allOk_member [OF all this] show ?thesis by (auto simp: rbind_eq_Inr_iff assertInProfile_iff)
  qed
  moreover have "checkCompatibility (history ! i) (history ! j) = Inr []" if "i < j" "j < length history" for i j
    using history_pairs [OF h that(1)] that by (simp add: v numbered_nth)
  ultimately show ?thesis using ne v by (simp add: list_all_iff)
qed

lemma registry_map_of:
  assumes "localSchemaRegistry catalogue = Inr reg"
  shows "map fst reg = domainEventNames \<and> (subject \<in> set domainEventNames \<longrightarrow>
    (\<exists>versions. map_of reg subject = Some versions \<and> registerHistory subject (catalogue subject) = Inr versions))"
proof -
  define h where "h = (\<lambda>s. (s, projr (registerHistory s (catalogue s))))"
  let ?g = "\<lambda>s. rbind (registerHistory s (catalogue s)) (\<lambda>versions. Inr (s, versions))"
  have all: "allOk (map ?g domainEventNames) = Inr reg" using assms by (simp add: localSchemaRegistry_def)
  have reg: "reg = map h domainEventNames" by (rule allOk_mapD [OF all]) (auto simp: h_def rbind_eq_Inr_iff)
  have "registerHistory subject (catalogue subject) = Inr (projr (registerHistory subject (catalogue subject)))" if "subject \<in> set domainEventNames"
    using allOk_member [OF all that] by (auto simp: rbind_eq_Inr_iff)
  moreover have "map_of reg subject = Some (projr (registerHistory subject (catalogue subject)))" if "subject \<in> set domainEventNames"
    using that by (simp add: reg h_def map_of_map_restrict)
  moreover have "map fst reg = domainEventNames" by (simp add: reg h_def comp_def)
  ultimately show ?thesis by blast
qed

lemma readers_read:
  assumes "registerHistory subject history = Inr versions" and "list_all (\<lambda>d. ownNames (membersOf d)) history"
    and "i < length history" and "j < length history"
    and "accepts fmt (membersOf (history ! i)) v" and "declared (membersOf (history ! i)) v"
  shows "accepts fmt (membersOf (history ! j)) v"
proof -
  have own: "ownNames (membersOf (history ! k))" if "k < length history" for k using assms(2) that by (simp add: list_all_length)
  have clean: "checkCompatibility (history ! a) (history ! b) = Inr []" if "a < b" "b < length history" for a b
    using registerHistory_Inr [OF assms(1)] that by blast
  consider "i = j" | "i < j" | "j < i" by linarith
  then show ?thesis
  proof cases
    case 2
    then show ?thesis using checkCompatibility_clean [OF clean [OF 2 assms(4)] own own, of fmt] assms by (auto simp: readsAll_def)
  next
    case 3
    then show ?thesis using checkCompatibility_clean [OF clean [OF 3 assms(3)] own own, of fmt] assms by (auto simp: readsAll_def)
  qed (use assms in simp)
qed

lemma compiled_reader:
  assumes "localSchemaRegistry catalogue = Inr reg" and "eventContract compile reg = Inr validators" and "subject \<in> set domainEventNames"
  shows "\<exists>fn. map_of validators subject = Some (length (catalogue subject), fn) \<and> compile (last (catalogue subject)) = Inr fn"
proof -
  let ?h = "catalogue subject"
  obtain versions where v: "map_of reg subject = Some versions" "registerHistory subject ?h = Inr versions"
    using registry_map_of [OF assms(1), of subject] assms(3) by blast
  have n: "versions = numbered ?h" "?h \<noteq> []" using registerHistory_Inr [OF v(2)] by auto
  have lastv: "last versions = (length ?h, last ?h)"
    using n numbered_nth [of "length ?h - 1" ?h] by (simp add: last_conv_nth)
  let ?g = "\<lambda>(version, schema). case compile schema of Inl cause \<Rightarrow> Inl (SchemaCompilationError subject version cause) | Inr fn \<Rightarrow> Inr (version, fn)"
  have all: "allOk (map (compileSubject compile reg) (map fst reg)) = Inr validators"
    using assms(2) by (simp add: eventContract_def registrySubjects_def)
  have in': "subject \<in> set (map fst reg)" using registry_map_of [OF assms(1)] assms(3) by metis
  obtain entry where e: "compileSubject compile reg subject = Inr entry" using allOk_member [OF all in'] by blast
  obtain compiled where c: "allOk (map ?g versions) = Inr compiled" "entry = (subject, last (filter (\<lambda>(version, fn). version = length ?h) compiled))"
    using e v(1) lastv by (auto simp: compileSubject_def registryLatest_def registryVersions_def rbind_eq_Inr_iff)
  define k where "k = (\<lambda>(version, schema). (version :: nat, projr (compile schema)))"
  have comp: "compiled = map k versions" by (rule allOk_mapD [OF c(1)]) (auto simp: k_def split: sum.splits)
  have "versions \<noteq> []" using n by simp
  then have "compiled \<noteq> []" "last compiled = (length ?h, projr (compile (last ?h)))"
    using lastv comp by (simp_all add: k_def last_map)
  then have "last (filter (\<lambda>(version, fn). version = length ?h) compiled) = (length ?h, projr (compile (last ?h)))"
    by (cases compiled rule: rev_cases) auto
  moreover have "compile (last ?h) = Inr (projr (compile (last ?h)))"
    using allOk_member [OF c(1) last_in_set [OF \<open>versions \<noteq> []\<close>]] lastv by (auto split: sum.splits)
  moreover have "map_of validators subject = Some (snd entry)"
  proof -
    have "validators = map (\<lambda>s. (s, snd (projr (compileSubject compile reg s)))) (map fst reg)"
      by (rule allOk_mapD [OF all]) (auto simp: compileSubject_def rbind_eq_Inr_iff)
    then show ?thesis using in' e by (simp add: map_of_map_restrict del: map_map)
  qed
  ultimately show ?thesis using c(2) by simp
qed

section \<open>The catalogue\<close>

definition described :: "sdoc \<Rightarrow> string \<Rightarrow> sdoc" where
  "described t description = SObject [(''type'', t), (''description'', SString description)]"

definition stringNode :: "string \<Rightarrow> sdoc" where
  "stringNode description = described (SString ''string'') description"

definition nullableNode :: "string \<Rightarrow> sdoc" where
  "nullableNode description = described (SArray [SString ''string'', SString ''null'']) description"

definition eventDocument :: "string \<Rightarrow> string \<Rightarrow> members \<Rightarrow> string list \<Rightarrow> sdoc" where
  "eventDocument subject description ps needed = SObject [(''$schema'', SString jsonSchemaDraft),
     (''$id'', SString (''urn:boilerplate-nestjs-api:schema:'' @ subject @ '':1'')), (''title'', SString (subject @ '' v1'')),
     (''description'', SString description), (''type'', SString ''object''), (''additionalProperties'', SBool True),
     (''properties'', SObject ps), (''required'', SArray (map SString needed))]"

definition userRegisteredV1 :: sdoc where
  "userRegisteredV1 = eventDocument ''user.registered'' (''A new account exists '' @ [emDash] @ '' email + password, or an OAuth profile.'')
     [(''userId'', stringNode (''The new user'' @ [CHR 0x27] @ ''s id.'')), (''email'', stringNode ''The address the account was created with.''),
      (''name'', nullableNode ''Display name, or null when the profile did not supply one.''),
      (''provider'', nullableNode (quoted ''google'' @ '' for OAuth sign-ups, null for email + password.''))]
     [''userId'', ''email'', ''name'', ''provider'']"

definition userDeletedV1 :: sdoc where
  "userDeletedV1 = eventDocument ''user.deleted'' ''An account is gone. Emitted after the row is deleted, not before.''
     [(''userId'', stringNode ''The id of the account that was deleted.''),
      (''email'', stringNode ''Carried on the event because the row no longer exists to be read.'')] [''userId'', ''email'']"

definition orderPlacedV1 :: sdoc where
  "orderPlacedV1 = eventDocument ''order.placed'' ''A customer has asked to buy something. Nothing is reserved, charged or shipped.''
     [(''orderId'', stringNode (''The new order'' @ [CHR 0x27] @ ''s id.'')), (''userId'', stringNode ''Who placed it.''),
      (''totalMinor'', described (SString ''integer'') (''Order total in minor units of '' @ [CHR 0x60] @ ''currency'' @ [CHR 0x60] @ ''.'')),
      (''currency'', stringNode ''Upper-case ISO 4217 alphabetic code.''),
      (''lineCount'', described (SString ''integer'') ''How many lines the order has.'')]
     [''orderId'', ''userId'', ''totalMinor'', ''currency'', ''lineCount'']"

definition orderConfirmedV1 :: sdoc where
  "orderConfirmedV1 = eventDocument ''order.confirmed'' ''Paid and shipped. The checkout saga completed.''
     [(''orderId'', stringNode ''The order that was confirmed.''), (''userId'', stringNode ''Whose order it is.''),
      (''paymentId'', stringNode (''The gateway'' @ [CHR 0x27] @ ''s payment id, for reconciliation.'')), (''shipmentId'', stringNode ''The carrier booking.'')]
     [''orderId'', ''userId'', ''paymentId'', ''shipmentId'']"

definition orderCancelledV1 :: sdoc where
  "orderCancelledV1 = eventDocument ''order.cancelled'' ''A checkout that could not be completed and was unwound.''
     [(''orderId'', stringNode ''The order that was cancelled.''), (''userId'', stringNode ''Whose order it was.''),
      (''reason'', stringNode (''The failing step'' @ [CHR 0x27] @ ''s message, as the customer will be shown it.''))]
     [''orderId'', ''userId'', ''reason'']"

definition schemaCatalogue :: "string \<Rightarrow> sdoc list" where
  "schemaCatalogue subject = (if subject = ''user.registered'' then [userRegisteredV1] else if subject = ''user.deleted'' then [userDeletedV1]
     else if subject = ''order.placed'' then [orderPlacedV1] else if subject = ''order.confirmed'' then [orderConfirmedV1]
     else if subject = ''order.cancelled'' then [orderCancelledV1] else [])"

text \<open>\<open>new LocalSchemaRegistry()\<close> does not throw.\<close>

lemma catalogue_registers: "localSchemaRegistry schemaCatalogue = Inr (map (\<lambda>s. (s, numbered (schemaCatalogue s))) domainEventNames)"
  by code_simp

lemma catalogue_ownNames: "list_all (\<lambda>s. list_all (\<lambda>d. ownNames (membersOf d)) (schemaCatalogue s)) domainEventNames"
  by code_simp

section \<open>Properties\<close>



text \<open>
  C25. What the startup checks are for. In a process whose registry could be built and compiled, a value
  written against any version of an event's schema, using the properties that version declares, is
  accepted by every version of it, older or newer, and by the contract the consumer validates with,
  which answers with the newest version.
\<close>

theorem registry_full_transitive:
  assumes "localSchemaRegistry catalogue = Inr reg" and "eventContract compile reg = Inr validators" and "ajvLaws compile fmt"
    and "subject \<in> set domainEventNames" and "list_all (\<lambda>d. ownNames (membersOf d)) (catalogue subject)"
    and "i < length (catalogue subject)"
    and "accepts fmt (membersOf (catalogue subject ! i)) v" and "declared (membersOf (catalogue subject ! i)) v"
  shows "(\<forall>j < length (catalogue subject). accepts fmt (membersOf (catalogue subject ! j)) v) \<and>
    validatePayload validators subject v = Inr (length (catalogue subject))"
proof -
  let ?h = "catalogue subject"
  obtain versions where h: "registerHistory subject ?h = Inr versions" using registry_map_of [OF assms(1), of subject] assms(4) by blast
  have reads: "accepts fmt (membersOf (?h ! j)) v" if "j < length ?h" for j by (rule readers_read [OF h assms(5,6) that assms(7,8)])
  have ne: "?h \<noteq> []" using assms(6) by auto
  then have reader: "accepts fmt (membersOf (last ?h)) v" using reads [of "length ?h - 1"] by (simp add: last_conv_nth)
  have typed: "eventSchema (last ?h) \<and> ownNames (membersOf (last ?h))"
    using registerHistory_Inr [OF h] assms(5) last_in_set [OF ne] by (auto simp: list_all_iff)
  obtain fn where fn: "map_of validators subject = Some (length ?h, fn)" "compile (last ?h) = Inr fn"
    using compiled_reader [OF assms(1,2,4)] by blast
  then have "fn v = None" using assms(3) typed reader by (auto simp: ajvLaws_def)
  then show ?thesis using reads fn(1) by (simp add: validatePayload_def)
qed

text \<open>The contract the codec is given: whatever a process compiled, the versions it answers with count from one.\<close>

lemma eventContract_laws:
  assumes "localSchemaRegistry catalogue = Inr reg" and "eventContract compile reg = Inr validators"
  shows "contractLaws (\<lambda>name payload. validatePayload validators name (asJson payload))"
proof -
  have "1 \<le> v" if v: "validatePayload validators name p = Inr v" for name p v
  proof -
    have "validators = map (\<lambda>s. (s, snd (projr (compileSubject compile reg s)))) (map fst reg)"
      by (rule allOk_mapD [OF assms(2) [unfolded eventContract_def registrySubjects_def]]) (auto simp: compileSubject_def rbind_eq_Inr_iff)
    moreover have "map_of validators name \<noteq> None" using v by (auto simp: validatePayload_def split: option.splits)
    ultimately have "name \<in> set domainEventNames"
      using registry_map_of [OF assms(1)] by (auto simp: map_of_map_restrict restrict_map_def split: if_splits simp del: map_map)
    moreover obtain versions where "registerHistory name (catalogue name) = Inr versions"
      using registry_map_of [OF assms(1), of name] calculation by blast
    ultimately show ?thesis
      using v compiled_reader [OF assms] registerHistory_Inr by (fastforce simp: validatePayload_def Suc_le_eq split: option.splits)
  qed
  then show ?thesis by (simp add: contractLaws_def)
qed

text \<open>A history of two versions, compiled by the meaning of the profile itself.\<close>

definition userDeletedV2 :: sdoc where
  "userDeletedV2 = eventDocument ''user.deleted'' ''An account is gone.''
     [(''userId'', stringNode ''The id.''), (''email'', stringNode ''The address.''), (''reason'', nullableNode ''Why.'')] [''userId'', ''email'']"

definition grownCatalogue :: "string \<Rightarrow> sdoc list" where
  "grownCatalogue subject = (if subject = ''user.deleted'' then [userDeletedV1, userDeletedV2] else schemaCatalogue subject)"

definition exactCompile :: "sdoc \<Rightarrow> string + validator" where
  "exactCompile doc = Inr (\<lambda>v. if accepts (\<lambda>_ _. True) (membersOf doc) v then None else Some [''# is invalid''])"

definition deletedPayload :: sdoc where
  "deletedPayload = SObject [(''userId'', SString ''u1''), (''email'', SString ''a@b.test'')]"

lemma grown_registers: "localSchemaRegistry grownCatalogue = Inr (map (\<lambda>s. (s, numbered (grownCatalogue s))) domainEventNames)"
  by code_simp

lemma exactCompile_all: "\<exists>validators. eventContract exactCompile reg = Inr validators"
proof -
  have "\<exists>entry. compileSubject exactCompile reg s = Inr entry" if s: "s \<in> set (map fst reg)" for s
  proof -
    obtain history where h: "map_of reg s = Some history" using s map_of_key [of s reg] by auto
    have "\<exists>us. allOk (map (\<lambda>(version, schema). case exactCompile schema of
        Inl cause \<Rightarrow> Inl (SchemaCompilationError s version cause) | Inr fn \<Rightarrow> Inr (version, fn)) history) = Inr us"
      unfolding allOk_unit by (auto simp: exactCompile_def)
    then obtain us where "allOk (map (\<lambda>(version, schema). case exactCompile schema of
        Inl cause \<Rightarrow> Inl (SchemaCompilationError s version cause) | Inr fn \<Rightarrow> Inr (version, fn)) history) = Inr us" by blast
    with h show ?thesis by (simp add: compileSubject_def registryLatest_def registryVersions_def)
  qed
  then show ?thesis unfolding eventContract_def registrySubjects_def allOk_unit by (simp only: set_map [of "compileSubject exactCompile reg"] ball_simps) simp
qed

theorem registry_full_transitive_witness:
  "accepts (\<lambda>_ _. True) (membersOf userDeletedV2) deletedPayload \<and>
   (\<exists>validators. eventContract exactCompile (map (\<lambda>s. (s, numbered (grownCatalogue s))) domainEventNames) = Inr validators \<and>
     validatePayload validators ''user.deleted'' deletedPayload = Inr 2)"
proof -
  obtain validators where val: "eventContract exactCompile (map (\<lambda>s. (s, numbered (grownCatalogue s))) domainEventNames) = Inr validators"
    using exactCompile_all by blast
  have laws: "ajvLaws exactCompile (\<lambda>_ _. True)" by (auto simp: ajvLaws_def exactCompile_def)
  have facts: "''user.deleted'' \<in> set domainEventNames" "list_all (\<lambda>d. ownNames (membersOf d)) (grownCatalogue ''user.deleted'')"
    "accepts (\<lambda>_ _. True) (membersOf (grownCatalogue ''user.deleted'' ! 0)) deletedPayload"
    "declared (membersOf (grownCatalogue ''user.deleted'' ! 0)) deletedPayload" by code_simp+
  have len: "length (grownCatalogue ''user.deleted'') = 2" and second: "grownCatalogue ''user.deleted'' ! 1 = userDeletedV2"
    by (simp_all add: grownCatalogue_def)
  from registry_full_transitive [OF grown_registers val laws facts(1,2) _ facts(3,4), unfolded len]
  have all: "\<forall>j < 2. accepts (\<lambda>_ _. True) (membersOf (grownCatalogue ''user.deleted'' ! j)) deletedPayload"
    and "validatePayload validators ''user.deleted'' deletedPayload = Inr 2" by simp_all
  moreover have "accepts (\<lambda>_ _. True) (membersOf userDeletedV2) deletedPayload" using all second by (metis one_less_numeral_iff semiring_norm(76))
  ultimately show ?thesis using val by blast
qed

section \<open>Where the check and its documentation part\<close>

text \<open>
  The content model is open, so data written against the old schema may carry an undeclared property.
  A new version that declares it is reported fully compatible and rejects that data.
\<close>

lemma open_content_gap:
  "checkCompatibility userDeletedV1 userDeletedV2 = Inr [] \<and>
   (let v = SObject [(''userId'', SString ''u1''), (''email'', SString ''a@b.test''), (''reason'', SNumber 4)] in
    accepts (\<lambda>_ _. True) (membersOf userDeletedV1) v \<and> \<not> accepts (\<lambda>_ _. True) (membersOf userDeletedV2) v)"
  by code_simp

text \<open>Adding an optional property named like an inherited member makes the check throw.\<close>

lemma inherited_name_throws:
  "checkCompatibility (eventDocument ''s'' ''d'' [] []) (eventDocument ''s'' ''d'' [(''constructor'', stringNode ''Who built it.'')] []) =
     Inl (SchemaProfileError ''#/properties/constructor'' (quoted ''type'' @ '' must be a type name or a non-empty array of them''))"
  by code_simp

text \<open>The declared type of \<open>description\<close> is not checked.\<close>

lemma description_unchecked:
  "assertInProfile (SObject [(''$schema'', SString jsonSchemaDraft), (''$id'', SString ''i''), (''title'', SString ''t''), (''type'', SString ''object''),
     (''description'', SNumber 5), (''properties'', SObject [])]) ''#'' = Inr ()"
  by code_simp

end
