(* ===== verification/Idempotency.thy ===== *)
theory Idempotency
  imports JsonText
begin

text \<open>
  Idempotency keys: \<open>common/idempotency/idempotency-key.ts\<close>, the two stores of
  \<open>common/idempotency/stores\<close> and \<open>common/idempotency/idempotency.interceptor.ts\<close>.

  A value in Redis is either a record as \<open>parseRecord\<close> reads it back, or a foreign value it cannot
  read; \<open>record_round_trip\<close> relates the two to the JSON text. Redis runs one command or script at a
  time; a key lives until its expiry. Any number of requests run at once, each command of theirs is
  one step, any answer may be lost, and a process may die between any two steps. \<open>uuid i\<close> is the
  lease drawn for request \<open>i\<close>. SHA-256 is a parameter.
\<close>

section \<open>Keys and fingerprints\<close>

datatype keyHeader = KeyAbsent | KeyOnce string | KeyRepeated "string list"

record httpRequest =
  hrMethod :: string
  hrUrl :: string
  hrContentType :: "string option"
  hrContentLength :: "string option"
  hrBody :: "jsValue option"
  hrUser :: "string option"
  hrIp :: "string option"
  hrKey :: keyHeader

definition isReplayableMethod :: "string \<Rightarrow> bool" where
  "isReplayableMethod verb \<longleftrightarrow> toUpperCase verb \<in> {''POST'', ''PUT'', ''PATCH'', ''DELETE''}"

definition maxKeyLength :: nat where
  "maxKeyLength = 255"

definition isValidKey :: "string \<Rightarrow> bool" where
  "isValidKey key \<longleftrightarrow> list_ex (\<lambda>c. \<not> isTrimmed c) key \<and> length key \<le> maxKeyLength \<and>
     key \<noteq> [] \<and> list_all (\<lambda>c. 0x20 \<le> (of_char c :: nat) \<and> (of_char c :: nat) \<le> 0x7e) key"

definition callerScope :: "httpRequest \<Rightarrow> string" where
  "callerScope req = (case hrUser req of
     Some i \<Rightarrow> if i \<noteq> [] then ''user:'' @ i else ''ip:'' @ (case hrIp req of Some a \<Rightarrow> a | None \<Rightarrow> ''unknown'')
   | None \<Rightarrow> ''ip:'' @ (case hrIp req of Some a \<Rightarrow> a | None \<Rightarrow> ''unknown''))"

definition storeKey :: "string \<Rightarrow> string \<Rightarrow> string" where
  "storeKey scope key = scope @ '':'' @ key"

text \<open>A value that JSON cannot write is \<open>null\<close>, also as a member.\<close>

fun stableStringify :: "jsValue \<Rightarrow> string" where
  "stableStringify (VArr vs) = ''['' @ joinComma (map stableStringify vs) @ '']''"
| "stableStringify (VObj ms) = ''{'' @ joinComma (map snd (sort_key fst (map (\<lambda>(k, v). (k, jsonString k @ '':'' @ stableStringify v)) ms))) @ ''}''"
| "stableStringify v = (if isJson v then renderJson v else ''null'')"

definition fingerprintText :: "httpRequest \<Rightarrow> string" where
  "fingerprintText req = joinWith [CHR 0x0A] [toUpperCase (hrMethod req), hrUrl req,
     (case hrContentType req of Some t \<Rightarrow> t | None \<Rightarrow> []), (case hrContentLength req of Some t \<Rightarrow> t | None \<Rightarrow> []),
     (case hrBody req of None \<Rightarrow> [] | Some VNull \<Rightarrow> [] | Some b \<Rightarrow> stableStringify b)]"

definition fingerprint :: "(string \<Rightarrow> string) \<Rightarrow> httpRequest \<Rightarrow> string" where
  "fingerprint sha256 req = sha256 (fingerprintText req)"

section \<open>Records\<close>

record recordedResponse =
  rrStatus :: int
  rrContentType :: "string option"
  rrBody :: "string option"

record idemRecord =
  irFingerprint :: string
  irLease :: string
  irResponse :: "recordedResponse option"

definition textOrNull :: "string option \<Rightarrow> jsValue" where
  "textOrNull x = (case x of Some s \<Rightarrow> VStr s | None \<Rightarrow> VNull)"

definition responseJson :: "recordedResponse \<Rightarrow> jsValue" where
  "responseJson r = VObj [(''status'', VNum (rrStatus r)), (''contentType'', textOrNull (rrContentType r)), (''body'', textOrNull (rrBody r))]"

definition recordJson :: "idemRecord \<Rightarrow> jsValue" where
  "recordJson r = VObj ([(''state'', VStr (if irResponse r = None then ''in-flight'' else ''completed'')),
     (''fingerprint'', VStr (irFingerprint r)), (''lease'', VStr (irLease r))]
     @ (case irResponse r of Some x \<Rightarrow> [(''response'', responseJson x)] | None \<Rightarrow> []))"

definition readText :: "jsValue option \<Rightarrow> string option option" where
  "readText v = (case v of Some VNull \<Rightarrow> Some None | Some (VStr s) \<Rightarrow> Some (Some s) | _ \<Rightarrow> None)"

text \<open>\<open>isRecordedResponse\<close>: the response, when the value is one.\<close>

definition readResponse :: "jsValue option \<Rightarrow> recordedResponse option" where
  "readResponse v = (case v of
     Some (VObj ms) \<Rightarrow> (case (map_of ms ''status'', readText (map_of ms ''contentType''), readText (map_of ms ''body'')) of
       (Some (VNum n), Some t, Some b) \<Rightarrow> Some \<lparr>rrStatus = n, rrContentType = t, rrBody = b\<rparr> | _ \<Rightarrow> None)
   | _ \<Rightarrow> None)"

definition parseRecord :: "string \<Rightarrow> idemRecord option" where
  "parseRecord raw = (case jsonParse raw of
     Some (VObj ms) \<Rightarrow> (case (map_of ms ''fingerprint'', map_of ms ''lease'') of
       (Some (VStr f), Some (VStr l)) \<Rightarrow>
         if map_of ms ''state'' = Some (VStr ''in-flight'') then Some \<lparr>irFingerprint = f, irLease = l, irResponse = None\<rparr>
         else if map_of ms ''state'' = Some (VStr ''completed'')
         then map_option (\<lambda>x. \<lparr>irFingerprint = f, irLease = l, irResponse = Some x\<rparr>) (readResponse (map_of ms ''response''))
         else None
     | _ \<Rightarrow> None)
   | _ \<Rightarrow> None)"

section \<open>The in-memory store\<close>

record memEntry =
  meRecord :: idemRecord
  meExpiresAt :: int

type_synonym memIdem = "string \<rightharpoonup> memEntry"

definition memReadIdem :: "int \<Rightarrow> string \<Rightarrow> memIdem \<Rightarrow> idemRecord option \<times> memIdem" where
  "memReadIdem now key entries = (case entries key of
     None \<Rightarrow> (None, entries)
   | Some e \<Rightarrow> if meExpiresAt e \<le> now then (None, entries(key := None)) else (Some (meRecord e), entries))"

definition memReserve :: "int \<Rightarrow> string \<Rightarrow> idemRecord \<Rightarrow> int \<Rightarrow> memIdem \<Rightarrow> idemRecord option \<times> memIdem" where
  "memReserve now key rec ttl entries = (case memReadIdem now key entries of
     (Some existing, entries) \<Rightarrow> (Some existing, entries)
   | (None, entries) \<Rightarrow> (None, entries(key \<mapsto> \<lparr>meRecord = rec, meExpiresAt = now + ttl\<rparr>)))"

definition memComplete :: "int \<Rightarrow> string \<Rightarrow> string \<Rightarrow> recordedResponse \<Rightarrow> int \<Rightarrow> memIdem \<Rightarrow> bool \<times> memIdem" where
  "memComplete now key lease response ttl entries = (case memReadIdem now key entries of
     (Some existing, entries) \<Rightarrow>
       if irLease existing \<noteq> lease then (False, entries)
       else (True, entries(key \<mapsto> \<lparr>meRecord = \<lparr>irFingerprint = irFingerprint existing, irLease = lease, irResponse = Some response\<rparr>,
                                  meExpiresAt = now + ttl\<rparr>))
   | (None, entries) \<Rightarrow> (False, entries))"

definition memReleaseIdem :: "int \<Rightarrow> string \<Rightarrow> string \<Rightarrow> memIdem \<Rightarrow> bool \<times> memIdem" where
  "memReleaseIdem now key lease entries = (case memReadIdem now key entries of
     (Some existing, entries) \<Rightarrow> if irLease existing \<noteq> lease then (False, entries) else (True, entries(key := None))
   | (None, entries) \<Rightarrow> (False, entries))"

section \<open>Redis\<close>

datatype redisValue = Written idemRecord | Foreign

record redisEntry =
  reValue :: redisValue
  reExpires :: "int option"

type_synonym redisKeys = "string \<rightharpoonup> redisEntry"

definition keyPrefix :: string where
  "keyPrefix = ''idempotency:''"

definition reserveAttempts :: nat where
  "reserveAttempts = 3"

text \<open>\<open>Math.max(1, Math.trunc(ttlMs))\<close> of an integer.\<close>

definition normaliseTtl :: "int \<Rightarrow> int" where
  "normaliseTtl ttl = max 1 ttl"

definition redisGet :: "int \<Rightarrow> string \<Rightarrow> redisKeys \<Rightarrow> redisValue option" where
  "redisGet now k keys = (case keys k of
     None \<Rightarrow> None
   | Some e \<Rightarrow> (case reExpires e of Some t \<Rightarrow> if t \<le> now then None else Some (reValue e) | None \<Rightarrow> Some (reValue e)))"

definition redisSet :: "int \<Rightarrow> string \<Rightarrow> redisValue \<Rightarrow> int \<Rightarrow> redisKeys \<Rightarrow> redisKeys" where
  "redisSet now k v ttl keys = keys(k \<mapsto> \<lparr>reValue = v, reExpires = Some (now + ttl)\<rparr>)"

definition redisSetNX :: "int \<Rightarrow> string \<Rightarrow> redisValue \<Rightarrow> int \<Rightarrow> redisKeys \<Rightarrow> bool \<times> redisKeys" where
  "redisSetNX now k v ttl keys = (if redisGet now k keys = None then (True, redisSet now k v ttl keys) else (False, keys))"

definition completeIfLeased :: "int \<Rightarrow> string \<Rightarrow> string \<Rightarrow> recordedResponse \<Rightarrow> int \<Rightarrow> redisKeys \<Rightarrow> bool \<times> redisKeys" where
  "completeIfLeased now k lease response ttl keys = (case redisGet now k keys of
     Some (Written r) \<Rightarrow> if irLease r \<noteq> lease then (False, keys)
       else (True, redisSet now k (Written (r\<lparr>irResponse := Some response\<rparr>)) ttl keys)
   | _ \<Rightarrow> (False, keys))"

definition releaseIfLeased :: "int \<Rightarrow> string \<Rightarrow> string \<Rightarrow> redisKeys \<Rightarrow> bool \<times> redisKeys" where
  "releaseIfLeased now k lease keys = (case redisGet now k keys of
     Some (Written r) \<Rightarrow> if irLease r \<noteq> lease then (False, keys) else (True, keys(k := None))
   | _ \<Rightarrow> (False, keys))"

text \<open>The loop of \<open>reserve\<close> when no other command comes between its own; \<open>Inl\<close> is \<open>IdempotencyStoreUnavailableError\<close>.\<close>

fun redisReserveLoop :: "nat \<Rightarrow> int \<Rightarrow> string \<Rightarrow> idemRecord \<Rightarrow> int \<Rightarrow> redisKeys \<Rightarrow> (unit + idemRecord option) \<times> redisKeys" where
  "redisReserveLoop 0 now k rec ttl keys = (Inl (), keys)"
| "redisReserveLoop (Suc n) now k rec ttl keys = (case redisSetNX now k (Written rec) ttl keys of
     (True, keys') \<Rightarrow> (Inr None, keys')
   | (False, keys') \<Rightarrow> (case redisGet now k keys' of
       Some (Written r) \<Rightarrow> (Inr (Some r), keys')
     | Some Foreign \<Rightarrow> (Inr None, redisSet now k (Written rec) ttl keys')
     | None \<Rightarrow> redisReserveLoop n now k rec ttl keys'))"

definition redisReserve :: "int \<Rightarrow> string \<Rightarrow> idemRecord \<Rightarrow> int \<Rightarrow> redisKeys \<Rightarrow> (unit + idemRecord option) \<times> redisKeys" where
  "redisReserve now key rec ttl keys = redisReserveLoop reserveAttempts now (keyPrefix @ key) rec (normaliseTtl ttl) keys"

definition redisComplete :: "int \<Rightarrow> string \<Rightarrow> string \<Rightarrow> recordedResponse \<Rightarrow> int \<Rightarrow> redisKeys \<Rightarrow> bool \<times> redisKeys" where
  "redisComplete now key lease response ttl keys = completeIfLeased now (keyPrefix @ key) lease response (normaliseTtl ttl) keys"

definition redisRelease :: "int \<Rightarrow> string \<Rightarrow> string \<Rightarrow> redisKeys \<Rightarrow> bool \<times> redisKeys" where
  "redisRelease now key lease keys = releaseIfLeased now (keyPrefix @ key) lease keys"

section \<open>The interceptor\<close>

datatype httpRefusal = BadRequest string | Unprocessable string | Conflict string | Unavailable string

text \<open>What happens before the store is asked: \<open>None\<close> lets the request through untouched.\<close>

definition admission :: "(string \<Rightarrow> string) \<Rightarrow> httpRequest \<Rightarrow> httpRefusal + (string \<times> string) option" where
  "admission sha256 req =
     (if hrKey req = KeyAbsent \<or> \<not> isReplayableMethod (hrMethod req) then Inr None
      else case hrKey req of
        KeyRepeated _ \<Rightarrow> Inl (BadRequest ''Idempotency-Key must be sent exactly once'')
      | KeyOnce header \<Rightarrow> if \<not> isValidKey header
          then Inl (BadRequest ''Idempotency-Key must be 1-255 printable ASCII characters and not blank'')
          else Inr (Some (storeKey (callerScope req) header, fingerprint sha256 req))
      | KeyAbsent \<Rightarrow> Inr None)"

datatype idemOutcome = Refused httpRefusal | Replayed recordedResponse | Ran | Died

definition onExisting :: "string \<Rightarrow> idemRecord \<Rightarrow> idemOutcome" where
  "onExisting requestFingerprint existing =
     (if irFingerprint existing \<noteq> requestFingerprint
      then Refused (Unprocessable ''Idempotency-Key has already been used for a different request'')
      else case irResponse existing of
        None \<Rightarrow> Refused (Conflict ''A request with this Idempotency-Key is still being processed'')
      | Some response \<Rightarrow> Replayed response)"

text \<open>
  The arguments \<open>res.send\<close> is called with. Express serialises any other value and calls \<open>send\<close> again
  with the string, which is the call that counts.
\<close>

datatype sendPayload = SendString string | SendNothing | SendBuffer string

definition onSend :: "sendPayload \<Rightarrow> string option \<Rightarrow> string option" where
  "onSend payload body = (case payload of SendString s \<Rightarrow> Some s | SendNothing \<Rightarrow> None | SendBuffer _ \<Rightarrow> body)"

definition capturedBody :: "sendPayload list \<Rightarrow> string option" where
  "capturedBody sends = fold onSend sends None"

definition replayableStatusCeiling :: int where
  "replayableStatusCeiling = 500"

datatype settlement = Persist recordedResponse | Release

definition settle :: "bool \<Rightarrow> int \<Rightarrow> string option \<Rightarrow> sendPayload list \<Rightarrow> settlement" where
  "settle persist status contentType sends =
     (if \<not> persist then Release
      else if status \<ge> replayableStatusCeiling then Release
      else if sends = [] then Release
      else Persist \<lparr>rrStatus = status, rrContentType = contentType, rrBody = capturedBody sends\<rparr>)"

text \<open>\<open>replay\<close>: status, content type and body the client is sent.\<close>

definition replayWire :: "recordedResponse \<Rightarrow> int \<times> string option \<times> string" where
  "replayWire r = (rrStatus r, rrContentType r, (case rrBody r of Some b \<Rightarrow> b | None \<Rightarrow> []))"

section \<open>Requests side by side\<close>

datatype idemPhase =
    TrySet nat
  | Reading nat
  | Overwriting
  | Running
  | Persisting recordedResponse
  | Releasing
  | Finished idemOutcome

record idemRequest =
  iqKey :: string
  iqFingerprint :: string
  iqPhase :: idemPhase

text \<open>
  The phase of a request is that of its record; \<open>Running\<close> lasts until its response has finished or its
  connection is closed. \<open>idClaims\<close> lists the requests whose handler was started, with the time;
  \<open>idReleased\<close> those whose record was deleted on their behalf; \<open>idSent\<close> what a response looked like when
  it had finished. \<open>idHandling\<close> holds the requests whose handler has been started and has not ended:
  neither the end of the response nor a closed connection stops it, and it may end at any time.
  \<open>idHungUp\<close> are those whose connection closed before the response had finished.
\<close>

record idemState =
  idNow :: int
  idKeys :: redisKeys
  idRequests :: "nat \<rightharpoonup> idemRequest"
  idClaims :: "(string \<times> nat \<times> int) list"
  idReleased :: "nat set"
  idSent :: "nat \<rightharpoonup> int \<times> string option \<times> sendPayload list"
  idHandling :: "nat set"
  idHungUp :: "nat set"

definition reservation :: "(nat \<Rightarrow> string) \<Rightarrow> nat \<Rightarrow> idemRequest \<Rightarrow> idemRecord" where
  "reservation uuid i q = \<lparr>irFingerprint = iqFingerprint q, irLease = uuid i, irResponse = None\<rparr>"

definition atPhase :: "nat \<Rightarrow> idemRequest \<Rightarrow> idemPhase \<Rightarrow> idemState \<Rightarrow> idemState" where
  "atPhase i q phase s = s\<lparr>idRequests := (idRequests s)(i \<mapsto> q\<lparr>iqPhase := phase\<rparr>)\<rparr>"

abbreviation unavailable :: idemPhase where
  "unavailable \<equiv> Finished (Refused (Unavailable ''Idempotency store is unavailable''))"

inductive idemStep :: "bool \<Rightarrow> (nat \<Rightarrow> string) \<Rightarrow> int \<Rightarrow> idemState \<Rightarrow> idemState \<Rightarrow> bool" for foreign uuid ttl where
  IdTick: "0 \<le> d \<Longrightarrow> idemStep foreign uuid ttl s (s\<lparr>idNow := idNow s + d\<rparr>)"
| IdForeign: "foreign \<Longrightarrow> idemStep foreign uuid ttl s (s\<lparr>idKeys := (idKeys s)(k \<mapsto> \<lparr>reValue = Foreign, reExpires = None\<rparr>)\<rparr>)"
| IdArrive: "idRequests s i = None \<Longrightarrow>
    idemStep foreign uuid ttl s (s\<lparr>idRequests := (idRequests s)(i \<mapsto> \<lparr>iqKey = key, iqFingerprint = fp, iqPhase = TrySet 0\<rparr>)\<rparr>)"
| IdClaim: "idRequests s i = Some q \<Longrightarrow> iqPhase q = TrySet n \<Longrightarrow>
    redisSetNX (idNow s) (keyPrefix @ iqKey q) (Written (reservation uuid i q)) (normaliseTtl ttl) (idKeys s) = (True, keys) \<Longrightarrow>
    idemStep foreign uuid ttl s (atPhase i q Running (s\<lparr>idKeys := keys, idClaims := idClaims s @ [(iqKey q, i, idNow s)],
      idHandling := insert i (idHandling s)\<rparr>))"
| IdClaimLost: "idRequests s i = Some q \<Longrightarrow> iqPhase q = TrySet n \<Longrightarrow>
    redisSetNX (idNow s) (keyPrefix @ iqKey q) (Written (reservation uuid i q)) (normaliseTtl ttl) (idKeys s) = (r, keys) \<Longrightarrow>
    idemStep foreign uuid ttl s (atPhase i q unavailable (s\<lparr>idKeys := keys\<rparr>))"
| IdTaken: "idRequests s i = Some q \<Longrightarrow> iqPhase q = TrySet n \<Longrightarrow>
    redisSetNX (idNow s) (keyPrefix @ iqKey q) (Written (reservation uuid i q)) (normaliseTtl ttl) (idKeys s) = (False, keys) \<Longrightarrow>
    idemStep foreign uuid ttl s (atPhase i q (Reading n) s)"
| IdFound: "idRequests s i = Some q \<Longrightarrow> iqPhase q = Reading n \<Longrightarrow> redisGet (idNow s) (keyPrefix @ iqKey q) (idKeys s) = Some (Written r) \<Longrightarrow>
    idemStep foreign uuid ttl s (atPhase i q (Finished (onExisting (iqFingerprint q) r)) s)"
| IdUnreadable: "idRequests s i = Some q \<Longrightarrow> iqPhase q = Reading n \<Longrightarrow> redisGet (idNow s) (keyPrefix @ iqKey q) (idKeys s) = Some Foreign \<Longrightarrow>
    idemStep foreign uuid ttl s (atPhase i q Overwriting s)"
| IdGone: "idRequests s i = Some q \<Longrightarrow> iqPhase q = Reading n \<Longrightarrow> redisGet (idNow s) (keyPrefix @ iqKey q) (idKeys s) = None \<Longrightarrow>
    idemStep foreign uuid ttl s (atPhase i q (if Suc n < reserveAttempts then TrySet (Suc n) else unavailable) s)"
| IdOverwrite: "idRequests s i = Some q \<Longrightarrow> iqPhase q = Overwriting \<Longrightarrow>
    idemStep foreign uuid ttl s (atPhase i q Running (s\<lparr>idKeys := redisSet (idNow s) (keyPrefix @ iqKey q) (Written (reservation uuid i q)) (normaliseTtl ttl) (idKeys s),
      idClaims := idClaims s @ [(iqKey q, i, idNow s)], idHandling := insert i (idHandling s)\<rparr>))"
| IdOverwriteLost: "idRequests s i = Some q \<Longrightarrow> iqPhase q = Overwriting \<Longrightarrow>
    idemStep foreign uuid ttl s (atPhase i q unavailable (s\<lparr>idKeys := redisSet (idNow s) (keyPrefix @ iqKey q) (Written (reservation uuid i q)) (normaliseTtl ttl) (idKeys s)\<rparr>))"
| IdUnavailable: "idRequests s i = Some q \<Longrightarrow> iqPhase q \<in> {Reading n, TrySet n, Overwriting} \<Longrightarrow>
    idemStep foreign uuid ttl s (atPhase i q unavailable s)"
| IdFinish: "idRequests s i = Some q \<Longrightarrow> iqPhase q = Running \<Longrightarrow>
    idemStep foreign uuid ttl s (atPhase i q (case settle True status contentType sends of Persist r \<Rightarrow> Persisting r | Release \<Rightarrow> Releasing)
      (s\<lparr>idSent := (idSent s)(i \<mapsto> (status, contentType, sends))\<rparr>))"
| IdClose: "idRequests s i = Some q \<Longrightarrow> iqPhase q = Running \<Longrightarrow>
    idemStep foreign uuid ttl s (atPhase i q Releasing (s\<lparr>idHungUp := insert i (idHungUp s)\<rparr>))"
| IdHandled: "i \<in> idHandling s \<Longrightarrow> idemStep foreign uuid ttl s (s\<lparr>idHandling := idHandling s - {i}\<rparr>)"
| IdPersist: "idRequests s i = Some q \<Longrightarrow> iqPhase q = Persisting r \<Longrightarrow>
    completeIfLeased (idNow s) (keyPrefix @ iqKey q) (uuid i) r (normaliseTtl ttl) (idKeys s) = (ok, keys) \<Longrightarrow>
    idemStep foreign uuid ttl s (atPhase i q (if answered then Finished Ran else Releasing) (s\<lparr>idKeys := keys\<rparr>))"
| IdPersistFails: "idRequests s i = Some q \<Longrightarrow> iqPhase q = Persisting r \<Longrightarrow> idemStep foreign uuid ttl s (atPhase i q Releasing s)"
| IdRelease: "idRequests s i = Some q \<Longrightarrow> iqPhase q = Releasing \<Longrightarrow>
    releaseIfLeased (idNow s) (keyPrefix @ iqKey q) (uuid i) (idKeys s) = (ok, keys) \<Longrightarrow>
    idemStep foreign uuid ttl s (atPhase i q (Finished Ran) (s\<lparr>idKeys := keys, idReleased := (if ok then insert i (idReleased s) else idReleased s)\<rparr>))"
| IdReleaseFails: "idRequests s i = Some q \<Longrightarrow> iqPhase q = Releasing \<Longrightarrow> idemStep foreign uuid ttl s (atPhase i q (Finished Ran) s)"
| IdCrash: "idRequests s i = Some q \<Longrightarrow> (\<forall>out. iqPhase q \<noteq> Finished out) \<Longrightarrow> 
    idemStep foreign uuid ttl s (atPhase i q (Finished Died) (s\<lparr>idHandling := idHandling s - {i}\<rparr>))"

definition idemStart :: "int \<Rightarrow> idemState" where
  "idemStart now = \<lparr>idNow = now, idKeys = Map.empty, idRequests = Map.empty, idClaims = [], idReleased = {}, idSent = Map.empty,
     idHandling = {}, idHungUp = {}\<rparr>"

section \<open>The invariant\<close>

definition claimed :: "idemState \<Rightarrow> string \<Rightarrow> nat \<Rightarrow> bool" where
  "claimed s key i \<longleftrightarrow> (\<exists>t. (key, i, t) \<in> set (idClaims s))"

definition started :: "idemState \<Rightarrow> nat set" where
  "started s = {i. \<exists>k. claimed s k i}"

definition recorded :: "idemState \<Rightarrow> nat \<Rightarrow> recordedResponse \<Rightarrow> bool" where
  "recorded s i r \<longleftrightarrow> (\<exists>status contentType sends. idSent s i = Some (status, contentType, sends) \<and> settle True status contentType sends = Persist r)"

text \<open>A response may be replayed to a request: it is what another request with the same key and fingerprint answered.\<close>

definition replayable :: "idemState \<Rightarrow> idemRequest \<Rightarrow> recordedResponse \<Rightarrow> bool" where
  "replayable s q r \<longleftrightarrow> (\<exists>j p. idRequests s j = Some p \<and> iqKey p = iqKey q \<and> iqFingerprint p = iqFingerprint q \<and> claimed s (iqKey p) j \<and> recorded s j r)"

definition entryOk :: "(nat \<Rightarrow> string) \<Rightarrow> idemState \<Rightarrow> string \<Rightarrow> redisEntry \<Rightarrow> bool" where
  "entryOk uuid s k e \<longleftrightarrow> (\<exists>i q r x. reExpires e = Some x \<and> reValue e = Written r \<and> idRequests s i = Some q \<and> k = keyPrefix @ iqKey q \<and>
     irLease r = uuid i \<and> irFingerprint r = iqFingerprint q \<and> (\<forall>y. irResponse r = Some y \<longrightarrow> recorded s i y \<and> claimed s (iqKey q) i))"

definition phaseOk :: "idemState \<Rightarrow> nat \<Rightarrow> idemRequest \<Rightarrow> bool" where
  "phaseOk s i q = ((case iqPhase q of
      TrySet n \<Rightarrow> i \<notin> started s \<and> idSent s i = None \<and> i \<notin> idReleased s
    | Reading n \<Rightarrow> i \<notin> started s \<and> idSent s i = None \<and> i \<notin> idReleased s
    | Overwriting \<Rightarrow> False
    | Running \<Rightarrow> claimed s (iqKey q) i \<and> idSent s i = None \<and> i \<notin> idReleased s
    | Persisting r \<Rightarrow> claimed s (iqKey q) i \<and> recorded s i r \<and> i \<notin> idReleased s
    | Releasing \<Rightarrow> claimed s (iqKey q) i \<and> i \<notin> idReleased s
    | Finished out \<Rightarrow> (case out of Replayed r \<Rightarrow> replayable s q r | _ \<Rightarrow> True)))"

definition apart :: "nat set \<Rightarrow> int \<Rightarrow> string \<times> nat \<times> int \<Rightarrow> string \<times> nat \<times> int \<Rightarrow> bool" where
  "apart released ttl a b \<longleftrightarrow> (fst a = fst b \<longrightarrow> fst (snd a) \<in> released \<or> snd (snd a) + ttl \<le> snd (snd b))"

text \<open>A claim lasts: it was released, its time is over, or its record is still the one stored.\<close>

definition claimOk :: "(nat \<Rightarrow> string) \<Rightarrow> int \<Rightarrow> idemState \<Rightarrow> string \<times> nat \<times> int \<Rightarrow> bool" where
  "claimOk uuid ttl s c = (case c of (k, i, t) \<Rightarrow> t \<le> idNow s \<and> i \<in> dom (idRequests s) \<and> (i \<in> idReleased s \<or> t + ttl \<le> idNow s \<or>
     (\<exists>e r x. idKeys s (keyPrefix @ k) = Some e \<and> reValue e = Written r \<and> irLease r = uuid i \<and> reExpires e = Some x \<and> t + ttl \<le> x)))"

definition idemInv :: "(nat \<Rightarrow> string) \<Rightarrow> int \<Rightarrow> idemState \<Rightarrow> bool" where
  "idemInv uuid ttl s \<longleftrightarrow> (\<forall>k e. idKeys s k = Some e \<longrightarrow> entryOk uuid s k e) \<and> (\<forall>i q. idRequests s i = Some q \<longrightarrow> phaseOk s i q) \<and>
     (\<forall>c \<in> set (idClaims s). claimOk uuid ttl s c) \<and> sorted_wrt (apart (idReleased s) ttl) (idClaims s) \<and> idReleased s \<subseteq> dom (idRequests s)
     \<and> dom (idSent s) \<subseteq> dom (idRequests s)"

text \<open>What a step may only add to.\<close>

definition extendsIdem :: "idemState \<Rightarrow> idemState \<Rightarrow> bool" where
  "extendsIdem s s' \<longleftrightarrow> set (idClaims s) \<subseteq> set (idClaims s') \<and> (\<forall>i x. idSent s i = Some x \<longrightarrow> idSent s' i = Some x) \<and>
     (\<forall>i q. idRequests s i = Some q \<longrightarrow> (\<exists>q'. idRequests s' i = Some q' \<and> iqKey q' = iqKey q \<and> iqFingerprint q' = iqFingerprint q))"

lemma extends_claimed: "extendsIdem s s' \<Longrightarrow> claimed s k i \<Longrightarrow> claimed s' k i"
  by (auto simp: extendsIdem_def claimed_def)

lemma extends_recorded: "extendsIdem s s' \<Longrightarrow> recorded s i r \<Longrightarrow> recorded s' i r"
  by (auto simp: extendsIdem_def recorded_def)

lemma extends_replayable:
  assumes "extendsIdem s s'" and "replayable s q r" and "iqKey q' = iqKey q" and "iqFingerprint q' = iqFingerprint q"
  shows "replayable s' q' r"
proof -
  obtain j p where p: "idRequests s j = Some p" "iqKey p = iqKey q" "iqFingerprint p = iqFingerprint q" "claimed s (iqKey p) j" "recorded s j r"
    using assms(2) by (auto simp: replayable_def)
  obtain p' where "idRequests s' j = Some p'" "iqKey p' = iqKey p" "iqFingerprint p' = iqFingerprint p"
    using assms(1) p(1) unfolding extendsIdem_def by blast
  then show ?thesis using p assms(3,4) extends_claimed [OF assms(1) p(4)] extends_recorded [OF assms(1) p(5)] unfolding replayable_def by metis
qed

lemma extends_entryOk:
  assumes "extendsIdem s s'" and "entryOk uuid s k e"
  shows "entryOk uuid s' k e"
proof -
  obtain i q r x where o': "reExpires e = Some x" "reValue e = Written r" "idRequests s i = Some q" "k = keyPrefix @ iqKey q"
    "irLease r = uuid i" "irFingerprint r = iqFingerprint q" "\<forall>y. irResponse r = Some y \<longrightarrow> recorded s i y \<and> claimed s (iqKey q) i"
    using assms(2) by (auto simp: entryOk_def)
  obtain q' where "idRequests s' i = Some q'" "iqKey q' = iqKey q" "iqFingerprint q' = iqFingerprint q"
    using assms(1) o'(3) unfolding extendsIdem_def by blast
  then show ?thesis using o' extends_claimed [OF assms(1)] extends_recorded [OF assms(1)] unfolding entryOk_def by metis
qed

lemma phaseOk_other:
  assumes ext: "extendsIdem s s'" and same: "idSent s' j = idSent s j" "j \<in> idReleased s' \<longleftrightarrow> j \<in> idReleased s" "j \<in> started s' \<Longrightarrow> j \<in> started s"
    and ok: "phaseOk s j q"
  shows "phaseOk s' j q"
proof (cases "iqPhase q")
  case (Finished out)
  then show ?thesis using ok extends_replayable [OF ext] by (cases out) (simp_all add: phaseOk_def)
qed (use ok same extends_claimed [OF ext] extends_recorded [OF ext] in \<open>auto simp: phaseOk_def\<close>)

lemma idemInvI:
  assumes "\<And>k e. idKeys s k = Some e \<Longrightarrow> entryOk uuid s k e" and "\<And>i q. idRequests s i = Some q \<Longrightarrow> phaseOk s i q"
    and "\<And>c. c \<in> set (idClaims s) \<Longrightarrow> claimOk uuid ttl s c" and "sorted_wrt (apart (idReleased s) ttl) (idClaims s)"
    and "idReleased s \<subseteq> dom (idRequests s)" and "dom (idSent s) \<subseteq> dom (idRequests s)"
  shows "idemInv uuid ttl s"
  unfolding idemInv_def using assms by blast

lemma idemInvD:
  assumes "idemInv uuid ttl s"
  shows "idKeys s k = Some e \<Longrightarrow> entryOk uuid s k e" and "idRequests s i = Some q \<Longrightarrow> phaseOk s i q"
    and "c \<in> set (idClaims s) \<Longrightarrow> claimOk uuid ttl s c" and "sorted_wrt (apart (idReleased s) ttl) (idClaims s)"
    and "idReleased s \<subseteq> dom (idRequests s)" and "dom (idSent s) \<subseteq> dom (idRequests s)"
  using assms unfolding idemInv_def by blast+

lemma idemInv_handlers [simp]:
  "idemInv uuid ttl (s\<lparr>idHandling := h\<rparr>) = idemInv uuid ttl s" "idemInv uuid ttl (s\<lparr>idHungUp := h\<rparr>) = idemInv uuid ttl s"
  by (simp_all add: idemInv_def entryOk_def phaseOk_def claimOk_def claimed_def started_def recorded_def replayable_def
      cong: idemPhase.case_cong idemOutcome.case_cong)

lemma atPhase_handlers [simp]:
  "atPhase i q ph (s\<lparr>idHandling := h\<rparr>) = atPhase i q ph s\<lparr>idHandling := h\<rparr>" "atPhase i q ph (s\<lparr>idHungUp := h\<rparr>) = atPhase i q ph s\<lparr>idHungUp := h\<rparr>"
  by (simp_all add: atPhase_def)

lemma moved_idem:
  assumes inv: "idemInv uuid ttl s" and q: "idRequests s i = Some q" "iqKey q' = iqKey q" "iqFingerprint q' = iqFingerprint q"
    and req: "idRequests s' = (idRequests s)(i \<mapsto> q')" and sent: "idSent s' = idSent s \<or> idSent s i = None \<and> (\<exists>x. idSent s' = (idSent s)(i \<mapsto> x))"
    and rel: "idReleased s \<subseteq> idReleased s'" "idReleased s' \<subseteq> insert i (idReleased s)"
    and cl: "idClaims s' = idClaims s \<or> (\<exists>k t. idClaims s' = idClaims s @ [(k, i, t)])"
    and entries: "\<And>k e. idKeys s' k = Some e \<Longrightarrow> idKeys s k = Some e \<or> entryOk uuid s' k e"
    and phase: "phaseOk s' i q'" and claims: "\<And>c. c \<in> set (idClaims s') \<Longrightarrow> claimOk uuid ttl s' c"
    and sorted: "sorted_wrt (apart (idReleased s') ttl) (idClaims s')"
  shows "idemInv uuid ttl s'"
proof -
  have "set (idClaims s) \<subseteq> set (idClaims s')" using cl by auto
  moreover have "idSent s' j = Some x" if "idSent s j = Some x" for j x using sent that by auto
  moreover have "\<exists>p'. idRequests s' j = Some p' \<and> iqKey p' = iqKey p \<and> iqFingerprint p' = iqFingerprint p" if "idRequests s j = Some p" for j p
    using that q req by (cases "j = i") simp_all
  ultimately have ext: "extendsIdem s s'" by (simp add: extendsIdem_def)
  have other: "idSent s' j = idSent s j" "j \<in> idReleased s' \<longleftrightarrow> j \<in> idReleased s" "j \<in> started s' \<Longrightarrow> j \<in> started s" if "j \<noteq> i" for j
  proof -
    show "idSent s' j = idSent s j" "j \<in> idReleased s' \<longleftrightarrow> j \<in> idReleased s" using that sent rel by auto
    show "j \<in> started s" if "j \<in> started s'" using that \<open>j \<noteq> i\<close> cl unfolding started_def claimed_def by fastforce
  qed
  show ?thesis
  proof (rule idemInvI)
    fix k e assume "idKeys s' k = Some e"
    then show "entryOk uuid s' k e" using entries extends_entryOk [OF ext] idemInvD(1) [OF inv] by blast
  next
    fix j p assume p: "idRequests s' j = Some p"
    show "phaseOk s' j p"
    proof (cases "j = i")
      case False
      then show ?thesis using phaseOk_other [OF ext other [OF False]] idemInvD(2) [OF inv] p req by simp
    qed (use p phase req in simp)
  next
    show "idReleased s' \<subseteq> dom (idRequests s')" using idemInvD(5) [OF inv] rel(2) req by auto
    have "dom (idSent s') \<subseteq> insert i (dom (idSent s))" using sent by auto
    moreover have "dom (idRequests s') = insert i (dom (idRequests s))" using req by simp
    ultimately show "dom (idSent s') \<subseteq> dom (idRequests s')" using idemInvD(6) [OF inv] by blast
  qed (use claims sorted in blast)+
qed

lemma claimOk_kept:
  assumes "claimOk uuid ttl s (k, j, t)" and "idNow s' = idNow s" and "idReleased s \<subseteq> idReleased s'" and "dom (idRequests s) \<subseteq> dom (idRequests s')"
    and "idKeys s' (keyPrefix @ k) = idKeys s (keyPrefix @ k)"
  shows "claimOk uuid ttl s' (k, j, t)"
  using assms unfolding claimOk_def by auto

lemma phase_only:
  assumes inv: "idemInv uuid ttl s" and q: "idRequests s i = Some q" and ph: "phaseOk (atPhase i q ph s) i (q\<lparr>iqPhase := ph\<rparr>)"
  shows "idemInv uuid ttl (atPhase i q ph s)"
proof (rule moved_idem [OF inv q, where q' = "q\<lparr>iqPhase := ph\<rparr>"])
  fix c assume "c \<in> set (idClaims (atPhase i q ph s))"
  then have "claimOk uuid ttl s c" using idemInvD(3) [OF inv] by (simp add: atPhase_def)
  then show "claimOk uuid ttl (atPhase i q ph s) c"
    by (cases c) (auto simp: atPhase_def intro!: claimOk_kept [of uuid ttl s])
qed (use idemInvD(4) [OF inv] ph in \<open>auto simp: atPhase_def\<close>)

subsection \<open>Steps that write\<close>

lemma no_claim_left:
  assumes inv: "idemInv uuid ttl s" and free: "redisGet (idNow s) (keyPrefix @ k) (idKeys s) = None" and c: "(k, j, t) \<in> set (idClaims s)"
  shows "t \<le> idNow s \<and> j \<in> dom (idRequests s) \<and> (j \<in> idReleased s \<or> t + ttl \<le> idNow s)"
  using idemInvD(3) [OF inv c] free by (auto simp: claimOk_def redisGet_def split: if_splits)

lemma reserved_entry:
  assumes "idRequests s' i = Some q'" and "iqKey q' = iqKey q" and "iqFingerprint q' = iqFingerprint q"
    and "redisSet now (keyPrefix @ iqKey q) (Written (reservation uuid i q)) ttl keys k = Some e"
  shows "keys k = Some e \<or> entryOk uuid s' k e"
proof (cases "k = keyPrefix @ iqKey q")
  case True
  then have "e = \<lparr>reValue = Written (reservation uuid i q), reExpires = Some (now + ttl)\<rparr>" using assms(4) by (simp add: redisSet_def)
  then show ?thesis using assms(1-3) True unfolding entryOk_def reservation_def by force
qed (use assms(4) in \<open>simp add: redisSet_def\<close>)

lemma apart_snoc:
  assumes inv: "idemInv uuid ttl s" and free: "redisGet (idNow s) (keyPrefix @ k) (idKeys s) = None"
  shows "sorted_wrt (apart (idReleased s) ttl) (idClaims s @ [(k, i, idNow s)])"
  using idemInvD(4) [OF inv] no_claim_left [OF inv free] unfolding sorted_wrt_append apart_def by fastforce

lemma claim_kept:
  assumes inv: "idemInv uuid ttl s" and q: "idRequests s i = Some q" "iqPhase q = TrySet n" and free: "redisGet (idNow s) (keyPrefix @ iqKey q) (idKeys s) = None"
    and s': "s' = atPhase i q ph (s\<lparr>idKeys := redisSet (idNow s) (keyPrefix @ iqKey q) v ttl (idKeys s), idClaims := cs\<rparr>)"
    and c: "c \<in> set (idClaims s)"
  shows "claimOk uuid ttl s' c"
proof -
  obtain k j t where c': "c = (k, j, t)" by (cases c)
  show ?thesis
  proof (cases "k = iqKey q")
    case True
    then show ?thesis using no_claim_left [OF inv free] c c' s' by (auto simp: claimOk_def atPhase_def)
  next
    case False
    then show ?thesis using idemInvD(3) [OF inv c] s' unfolding c'
      by (elim claimOk_kept) (auto simp: atPhase_def redisSet_def)
  qed
qed

lemma claim_step:
  assumes inv: "idemInv uuid ttl s" and q: "idRequests s i = Some q" "iqPhase q = TrySet n" and free: "redisGet (idNow s) (keyPrefix @ iqKey q) (idKeys s) = None"
  shows "idemInv uuid ttl (atPhase i q Running (s\<lparr>idKeys := redisSet (idNow s) (keyPrefix @ iqKey q) (Written (reservation uuid i q)) ttl (idKeys s),
           idClaims := idClaims s @ [(iqKey q, i, idNow s)]\<rparr>))" (is "idemInv _ _ ?s")
proof (rule moved_idem [OF inv q(1), where q' = "q\<lparr>iqPhase := Running\<rparr>"])
  show "idKeys s k = Some e \<or> entryOk uuid ?s k e" if "idKeys ?s k = Some e" for k e
    using that by (intro reserved_entry [where q = q and i = i and q' = "q\<lparr>iqPhase := Running\<rparr>"]) (auto simp: atPhase_def)
  show "phaseOk ?s i (q\<lparr>iqPhase := Running\<rparr>)"
    using idemInvD(2) [OF inv q(1)] q(2) by (auto simp: phaseOk_def atPhase_def claimed_def)
  show "claimOk uuid ttl ?s c" if "c \<in> set (idClaims ?s)" for c
  proof (cases "c \<in> set (idClaims s)")
    case True
    then show ?thesis using claim_kept [OF inv q free refl] by blast
  next
    case False
    then have "c = (iqKey q, i, idNow s)" using that by (simp add: atPhase_def)
    then show ?thesis by (simp add: claimOk_def atPhase_def redisSet_def reservation_def)
  qed
  show "sorted_wrt (apart (idReleased ?s) ttl) (idClaims ?s)"
    using apart_snoc [OF inv free] by (simp add: atPhase_def)
qed (auto simp: atPhase_def)

lemma claim_lost_step:
  assumes inv: "idemInv uuid ttl s" and q: "idRequests s i = Some q" "iqPhase q = TrySet n" and free: "redisGet (idNow s) (keyPrefix @ iqKey q) (idKeys s) = None"
  shows "idemInv uuid ttl (atPhase i q unavailable (s\<lparr>idKeys := redisSet (idNow s) (keyPrefix @ iqKey q) (Written (reservation uuid i q)) ttl (idKeys s)\<rparr>))"
    (is "idemInv _ _ ?s")
proof (rule moved_idem [OF inv q(1), where q' = "q\<lparr>iqPhase := unavailable\<rparr>"])
  show "idKeys s k = Some e \<or> entryOk uuid ?s k e" if "idKeys ?s k = Some e" for k e
    using that by (intro reserved_entry [where q = q and i = i and q' = "q\<lparr>iqPhase := unavailable\<rparr>"]) (auto simp: atPhase_def)
  show "claimOk uuid ttl ?s c" if "c \<in> set (idClaims ?s)" for c
    using claim_kept [OF inv q free, where c = c and v = "Written (reservation uuid i q)" and ph = unavailable and cs = "idClaims s", OF refl] that by (simp add: atPhase_def)
qed (use idemInvD(4) [OF inv] in \<open>auto simp: atPhase_def phaseOk_def\<close>)

lemma persist_step:
  assumes inv: "idemInv uuid ttl s" and u: "inj uuid" and q: "idRequests s i = Some q" "iqPhase q = Persisting r"
    and got: "redisGet (idNow s) (keyPrefix @ iqKey q) (idKeys s) = Some (Written old)" and lease: "irLease old = uuid i"
    and ph: "ph = Finished Ran \<or> ph = Releasing"
  shows "idemInv uuid ttl (atPhase i q ph (s\<lparr>idKeys := redisSet (idNow s) (keyPrefix @ iqKey q) (Written (old\<lparr>irResponse := Some r\<rparr>)) ttl (idKeys s)\<rparr>))"
    (is "idemInv _ _ ?s")
proof (rule moved_idem [OF inv q(1), where q' = "q\<lparr>iqPhase := ph\<rparr>"])
  obtain e where e: "idKeys s (keyPrefix @ iqKey q) = Some e" "reValue e = Written old" using got by (auto simp: redisGet_def split: option.splits if_splits)
  have p: "claimed s (iqKey q) i" "recorded s i r" "i \<notin> idReleased s" using idemInvD(2) [OF inv q(1)] q(2) by (auto simp: phaseOk_def)
  have f: "irFingerprint old = iqFingerprint q"
    using idemInvD(1) [OF inv e(1)] e(2) lease u q(1) unfolding entryOk_def by (metis injD option.inject redisValue.inject)
  have new: "entryOk uuid ?s (keyPrefix @ iqKey q) \<lparr>reValue = Written (old\<lparr>irResponse := Some r\<rparr>), reExpires = Some (idNow s + ttl)\<rparr>"
    unfolding entryOk_def using p lease f by (intro exI [of _ i] exI [of _ "q\<lparr>iqPhase := ph\<rparr>"]) (simp add: atPhase_def recorded_def claimed_def)
  show "idKeys s k = Some e' \<or> entryOk uuid ?s k e'" if "idKeys ?s k = Some e'" for k e'
    using that new by (cases "k = keyPrefix @ iqKey q") (auto simp: atPhase_def redisSet_def)
  show "phaseOk ?s i (q\<lparr>iqPhase := ph\<rparr>)" using ph p by (auto simp: phaseOk_def atPhase_def claimed_def)
  show "claimOk uuid ttl ?s c" if "c \<in> set (idClaims ?s)" for c
  proof -
    obtain k j t where c: "c = (k, j, t)" by (cases c)
    have ok: "claimOk uuid ttl s (k, j, t)" using idemInvD(3) [OF inv] that c by (simp add: atPhase_def)
    show ?thesis
    proof (cases "k = iqKey q")
      case True
      then show ?thesis using ok e unfolding c by (auto simp: claimOk_def atPhase_def redisSet_def)
    next
      case False
      show ?thesis unfolding c by (rule claimOk_kept [OF ok]) (use False in \<open>auto simp: atPhase_def redisSet_def\<close>)
    qed
  qed
qed (use idemInvD(4) [OF inv] in \<open>auto simp: atPhase_def\<close>)

lemma apart_mono: "apart A ttl a b \<Longrightarrow> A \<subseteq> B \<Longrightarrow> apart B ttl a b"
  by (auto simp: apart_def)

lemma release_step:
  assumes inv: "idemInv uuid ttl s" and u: "inj uuid" and q: "idRequests s i = Some q" "iqPhase q = Releasing"
    and got: "redisGet (idNow s) (keyPrefix @ iqKey q) (idKeys s) = Some (Written old)" and lease: "irLease old = uuid i"
  shows "idemInv uuid ttl (atPhase i q (Finished Ran) (s\<lparr>idKeys := (idKeys s)(keyPrefix @ iqKey q := None), idReleased := insert i (idReleased s)\<rparr>))"
    (is "idemInv _ _ ?s")
proof (rule moved_idem [OF inv q(1), where q' = "q\<lparr>iqPhase := Finished Ran\<rparr>"])
  obtain e where e: "idKeys s (keyPrefix @ iqKey q) = Some e" "reValue e = Written old" using got by (auto simp: redisGet_def split: option.splits if_splits)
  show "claimOk uuid ttl ?s c" if "c \<in> set (idClaims ?s)" for c
  proof -
    obtain k j t where c: "c = (k, j, t)" by (cases c)
    have ok: "claimOk uuid ttl s (k, j, t)" using idemInvD(3) [OF inv] that c by (simp add: atPhase_def)
    show ?thesis
    proof (cases "k = iqKey q")
      case True
      then show ?thesis using ok e lease injD [OF u] unfolding c by (auto simp: claimOk_def atPhase_def)
    next
      case False
      show ?thesis unfolding c by (rule claimOk_kept [OF ok]) (use False in \<open>auto simp: atPhase_def\<close>)
    qed
  qed
  show "sorted_wrt (apart (idReleased ?s) ttl) (idClaims ?s)"
    using idemInvD(4) [OF inv] by (auto simp: atPhase_def elim!: sorted_wrt_mono_rel [rotated] intro: apart_mono)
qed (auto simp: atPhase_def phaseOk_def split: if_splits)

lemma finish_step:
  assumes inv: "idemInv uuid ttl s" and q: "idRequests s i = Some q" "iqPhase q = Running"
  shows "idemInv uuid ttl (atPhase i q (case settle True status contentType sends of Persist r \<Rightarrow> Persisting r | Release \<Rightarrow> Releasing)
      (s\<lparr>idSent := (idSent s)(i \<mapsto> (status, contentType, sends))\<rparr>))" (is "idemInv _ _ (atPhase i q ?ph ?u)")
proof (rule moved_idem [OF inv q(1), where q' = "q\<lparr>iqPhase := ?ph\<rparr>"])
  have p: "claimed s (iqKey q) i" "idSent s i = None" "i \<notin> idReleased s" using idemInvD(2) [OF inv q(1)] q(2) by (auto simp: phaseOk_def)
  show "phaseOk (atPhase i q ?ph ?u) i (q\<lparr>iqPhase := ?ph\<rparr>)"
    using p by (auto simp: phaseOk_def atPhase_def claimed_def recorded_def split: settlement.splits)
  show "idSent (atPhase i q ?ph ?u) = idSent s \<or> idSent s i = None \<and> (\<exists>x. idSent (atPhase i q ?ph ?u) = (idSent s)(i \<mapsto> x))"
    using p(2) by (auto simp: atPhase_def)
  show "claimOk uuid ttl (atPhase i q ?ph ?u) c" if "c \<in> set (idClaims (atPhase i q ?ph ?u))" for c
    using idemInvD(3) [OF inv, of c] that by (cases c) (auto simp: atPhase_def elim!: claimOk_kept)
qed (use idemInvD(4) [OF inv] in \<open>auto simp: atPhase_def\<close>)

lemma tick_step:
  assumes inv: "idemInv uuid ttl s" and "0 \<le> d"
  shows "idemInv uuid ttl (s\<lparr>idNow := idNow s + d\<rparr>)" (is "idemInv _ _ ?s")
proof (rule idemInvI)
  have ext: "extendsIdem s ?s" by (auto simp: extendsIdem_def)
  show "entryOk uuid ?s k e" if "idKeys ?s k = Some e" for k e using that extends_entryOk [OF ext] idemInvD(1) [OF inv] by simp
  show "phaseOk ?s i q" if "idRequests ?s i = Some q" for i q
    using that by (intro phaseOk_other [OF ext] idemInvD(2) [OF inv]) (auto simp: started_def claimed_def)
  show "claimOk uuid ttl ?s c" if "c \<in> set (idClaims ?s)" for c
    using idemInvD(3) [OF inv, of c] that assms(2) by (cases c) (auto simp: claimOk_def)
qed (use idemInvD(4-6) [OF inv] in simp_all)

lemma arrive_step:
  assumes inv: "idemInv uuid ttl s" and none: "idRequests s i = None"
  shows "idemInv uuid ttl (s\<lparr>idRequests := (idRequests s)(i \<mapsto> \<lparr>iqKey = key, iqFingerprint = fp, iqPhase = TrySet 0\<rparr>)\<rparr>)" (is "idemInv _ _ ?s")
proof (rule idemInvI)
  have ext: "extendsIdem s ?s" using none by (auto simp: extendsIdem_def)
  have new: "i \<notin> started s" "i \<notin> idReleased s" "idSent s i = None"
    using none idemInvD(3,5,6) [OF inv] unfolding started_def claimed_def claimOk_def by fastforce+
  show "entryOk uuid ?s k e" if "idKeys ?s k = Some e" for k e using that extends_entryOk [OF ext] idemInvD(1) [OF inv] by simp
  show "phaseOk ?s j q" if "idRequests ?s j = Some q" for j q
  proof (cases "j = i")
    case True
    then show ?thesis using that new by (auto simp: phaseOk_def started_def claimed_def)
  next
    case False
    show ?thesis using that False by (intro phaseOk_other [OF ext] idemInvD(2) [OF inv]) (auto simp: started_def claimed_def)
  qed
  show "claimOk uuid ttl ?s c" if "c \<in> set (idClaims ?s)" for c
    using idemInvD(3) [OF inv, of c] that by (cases c) (auto elim!: claimOk_kept)
qed (use idemInvD(4-6) [OF inv] in auto)

lemma found_step:
  assumes inv: "idemInv uuid ttl s" and q: "idRequests s i = Some q" and got: "redisGet (idNow s) (keyPrefix @ iqKey q) (idKeys s) = Some (Written r)"
  shows "idemInv uuid ttl (atPhase i q (Finished (onExisting (iqFingerprint q) r)) s)"
proof (rule phase_only [OF inv q])
  obtain e where e: "idKeys s (keyPrefix @ iqKey q) = Some e" "reValue e = Written r" using got by (auto simp: redisGet_def split: option.splits if_splits)
  then obtain j p where p: "idRequests s j = Some p" "iqKey q = iqKey p" "irFingerprint r = iqFingerprint p"
      "\<forall>y. irResponse r = Some y \<longrightarrow> recorded s j y \<and> claimed s (iqKey p) j"
    using idemInvD(1) [OF inv e(1)] by (auto simp: entryOk_def)
  let ?q = "q\<lparr>iqPhase := Finished (onExisting (iqFingerprint q) r)\<rparr>"
  have "extendsIdem s (atPhase i q (Finished (onExisting (iqFingerprint q) r)) s)" using q by (simp add: extendsIdem_def atPhase_def)
  moreover have "replayable s q y" if "onExisting (iqFingerprint q) r = Replayed y" for y
    using p that unfolding replayable_def onExisting_def by (metis httpRefusal.distinct idemOutcome.distinct(1) idemOutcome.inject(2) option.case_eq_if option.collapse)
  ultimately show "phaseOk (atPhase i q (Finished (onExisting (iqFingerprint q) r)) s) i ?q"
    using extends_replayable [where q = q and q' = ?q] by (auto simp: phaseOk_def split: idemOutcome.splits)
qed

lemma entry_written:
  assumes "idemInv uuid ttl s" and "redisGet now k (idKeys s) = Some v"
  shows "v \<noteq> Foreign"
  using assms(2) idemInvD(1) [OF assms(1), of k] by (auto simp: redisGet_def entryOk_def split: option.splits if_splits)

lemma idem_step_inv:
  assumes "idemStep foreign uuid ttl s s'" and "\<not> foreign" and u: "inj uuid" and inv: "idemInv uuid (normaliseTtl ttl) s"
  shows "idemInv uuid (normaliseTtl ttl) s'"
  using assms(1,2)
proof cases
  case (IdTick d) then show ?thesis using tick_step [OF inv] by simp
next
  case (IdArrive i key fp) then show ?thesis using arrive_step [OF inv] by simp
next
  case (IdClaim i q n keys)
  then show ?thesis using claim_step [OF inv] by (auto simp: redisSetNX_def split: if_splits)
next
  case (IdClaimLost i q n r keys)
  then show ?thesis using claim_lost_step [OF inv] phase_only [OF inv, of i q unavailable]
    by (auto simp: redisSetNX_def phaseOk_def split: if_splits)
next
  case (IdFound i q n r) then show ?thesis using found_step [OF inv] by simp
next
  case (IdUnreadable i q n) then show ?thesis using entry_written [OF inv] by blast
next
  case (IdFinish i q status contentType sends) then show ?thesis using finish_step [OF inv] by simp
next
  case (IdPersist i q r ok keys answered)
  have "idemInv uuid (normaliseTtl ttl) (atPhase i q (if answered then Finished Ran else Releasing) s)"
    using phase_only [OF inv IdPersist(2)] idemInvD(2) [OF inv IdPersist(2)] IdPersist(3) by (auto simp: phaseOk_def atPhase_def claimed_def)
  then show ?thesis using IdPersist persist_step [OF inv u IdPersist(2,3)]
    by (auto simp: completeIfLeased_def split: option.splits redisValue.splits if_splits)
next
  case (IdClose i q)
  have "idemInv uuid (normaliseTtl ttl) (atPhase i q Releasing s)"
    using phase_only [OF inv IdClose(2)] idemInvD(2) [OF inv IdClose(2)] IdClose(3) by (auto simp: phaseOk_def atPhase_def claimed_def)
  then show ?thesis using IdClose by simp
next
  case (IdHandled i) then show ?thesis using inv by simp
next
  case (IdCrash i q)
  then show ?thesis using phase_only [OF inv, of i q "Finished Died"] by (simp add: phaseOk_def)
next
  case (IdRelease i q ok keys)
  have "idemInv uuid (normaliseTtl ttl) (atPhase i q (Finished Ran) s)" using phase_only [OF inv IdRelease(2)] by (simp add: phaseOk_def)
  then show ?thesis using IdRelease release_step [OF inv u IdRelease(2,3)]
    by (auto simp: releaseIfLeased_def split: option.splits redisValue.splits if_splits)
qed (use phase_only [OF inv] idemInvD(2) [OF inv] in \<open>fastforce simp: phaseOk_def atPhase_def claimed_def started_def\<close>)+

lemma idem_reach_inv:
  assumes "(idemStep False uuid ttl)\<^sup>*\<^sup>* (idemStart now) s" and "inj uuid"
  shows "idemInv uuid (normaliseTtl ttl) s"
  using assms(1)
proof (induction rule: rtranclp_induct)
  case base
  show ?case by (simp add: idemInv_def idemStart_def)
next
  case (step s s')
  then show ?case using idem_step_inv assms(2) by blast
qed

text \<open>A record is only deleted once the connection is closed or the response has finished.\<close>

definition answeredOrLeft :: "idemState \<Rightarrow> nat \<Rightarrow> bool" where
  "answeredOrLeft s i \<longleftrightarrow> i \<in> idHungUp s \<or> idSent s i \<noteq> None"

definition endingsOk :: "idemState \<Rightarrow> bool" where
  "endingsOk s \<longleftrightarrow> (\<forall>i q. idRequests s i = Some q \<and> (iqPhase q = Releasing \<or> (\<exists>r. iqPhase q = Persisting r)) \<longrightarrow> answeredOrLeft s i)
     \<and> (\<forall>i \<in> idReleased s. answeredOrLeft s i) \<and> idHandling s \<subseteq> fst ` snd ` set (idClaims s)"

lemma endings_step:
  assumes "idemStep foreign uuid ttl s s'" and "endingsOk s"
  shows "endingsOk s'"
  using assms
  by cases (auto simp: endingsOk_def answeredOrLeft_def atPhase_def split: if_splits settlement.splits)

lemma idem_reach_endings:
  assumes "(idemStep foreign uuid ttl)\<^sup>*\<^sup>* (idemStart now) s"
  shows "endingsOk s"
  using assms
proof (induction rule: rtranclp_induct)
  case base
  show ?case by (simp add: endingsOk_def idemStart_def)
next
  case (step s s')
  then show ?case using endings_step by blast
qed

lemma claims_apart:
  assumes inv: "idemInv uuid ttl s" and "(k, i, t) \<in> set (idClaims s)" and "(k, j, u) \<in> set (idClaims s)" and "i \<noteq> j"
  shows "ttl \<le> \<bar>t - u\<bar> \<or> i \<in> idReleased s \<or> j \<in> idReleased s"
proof -
  have "apart (idReleased s) ttl (k, i, t) (k, j, u) \<or> apart (idReleased s) ttl (k, j, u) (k, i, t)"
    using idemInvD(4) [OF inv] assms(2-4) by (metis (no_types, lifting) in_set_conv_nth linorder_neqE_nat prod.inject sorted_wrt_iff_nth_less)
  then show ?thesis by (auto simp: apart_def)
qed

lemma settle_persist:
  assumes "settle True status contentType sends = Persist r"
  shows "status < 500" and "r = \<lparr>rrStatus = status, rrContentType = contentType, rrBody = capturedBody sends\<rparr>"
  using assms by (auto simp: settle_def replayableStatusCeiling_def split: if_splits)

definition demoUuid :: "nat \<Rightarrow> string" where
  "demoUuid i = replicate i (CHR ''x'')"

definition demoIdem :: "idemState" where
  "demoIdem = \<lparr>idNow = 0,
     idKeys = [keyPrefix @ ''k'' \<mapsto> \<lparr>reValue = Written \<lparr>irFingerprint = ''f'', irLease = demoUuid 0,
       irResponse = Some \<lparr>rrStatus = 201, rrContentType = None, rrBody = Some ''ok''\<rparr>\<rparr>, reExpires = Some 60\<rparr>],
     idRequests = [0 \<mapsto> \<lparr>iqKey = ''k'', iqFingerprint = ''f'', iqPhase = Finished Ran\<rparr>,
       1 \<mapsto> \<lparr>iqKey = ''k'', iqFingerprint = ''f'', iqPhase = Finished (Replayed \<lparr>rrStatus = 201, rrContentType = None, rrBody = Some ''ok''\<rparr>)\<rparr>],
     idClaims = [(''k'', 0, 0)], idReleased = {}, idSent = [0 \<mapsto> (201, None, [SendString ''ok''])],
     idHandling = {0}, idHungUp = {}\<rparr>"

lemma demoUuid_inj: "inj demoUuid"
  by (auto simp: inj_def demoUuid_def replicate_eq_replicate)

lemma demo_idem_run: "(idemStep False demoUuid 60)\<^sup>*\<^sup>* (idemStart 0) demoIdem"
proof -
  let ?r = "\<lparr>rrStatus = 201, rrContentType = None, rrBody = Some ''ok''\<rparr> :: recordedResponse"
  let ?q = "\<lambda>ph. \<lparr>iqKey = ''k'', iqFingerprint = ''f'', iqPhase = ph\<rparr>"
  let ?key = "\<lambda>x. [keyPrefix @ ''k'' \<mapsto> \<lparr>reValue = Written \<lparr>irFingerprint = ''f'', irLease = demoUuid 0, irResponse = x\<rparr>, reExpires = Some 60\<rparr>]"
  let ?sent = "[0 \<mapsto> (201, None, [SendString ''ok''])] :: nat \<rightharpoonup> int \<times> string option \<times> sendPayload list"
  let ?st = "\<lambda>keys reqs cl se. \<lparr>idNow = 0, idKeys = keys, idRequests = reqs, idClaims = cl, idReleased = {}, idSent = se, idHandling = fst ` snd ` set cl, idHungUp = {}\<rparr> :: idemState"
  let ?c = "[(''k'', 0, 0)] :: (string \<times> nat \<times> int) list"
  let ?step = "idemStep False demoUuid 60"
  note d = idemStart_def atPhase_def reservation_def redisSetNX_def redisSet_def redisGet_def normaliseTtl_def completeIfLeased_def settle_def
    replayableStatusCeiling_def capturedBody_def onSend_def onExisting_def demoIdem_def
  have "?step (idemStart 0) (?st Map.empty [0 \<mapsto> ?q (TrySet 0)] [] Map.empty)"
    using IdArrive [of "idemStart 0" 0 False demoUuid 60 "''k''" "''f''"] by (simp add: d)
  moreover have "?step (?st Map.empty [0 \<mapsto> ?q (TrySet 0)] [] Map.empty) (?st (?key None) [0 \<mapsto> ?q Running] ?c Map.empty)"
    using IdClaim [of "?st Map.empty [0 \<mapsto> ?q (TrySet 0)] [] Map.empty" 0 "?q (TrySet 0)" 0 demoUuid 60 "?key None" False] by (simp add: d)
  moreover have "?step (?st (?key None) [0 \<mapsto> ?q Running] ?c Map.empty) (?st (?key None) [0 \<mapsto> ?q (Persisting ?r)] ?c ?sent)"
    using IdFinish [of "?st (?key None) [0 \<mapsto> ?q Running] ?c Map.empty" 0 "?q Running" False demoUuid 60 201 None "[SendString ''ok'']"] by (simp add: d)
  moreover have "?step (?st (?key None) [0 \<mapsto> ?q (Persisting ?r)] ?c ?sent) (?st (?key (Some ?r)) [0 \<mapsto> ?q (Finished Ran)] ?c ?sent)"
    using IdPersist [of "?st (?key None) [0 \<mapsto> ?q (Persisting ?r)] ?c ?sent" 0 "?q (Persisting ?r)" ?r demoUuid 60 True "?key (Some ?r)" False True] by (simp add: d)
  moreover have "?step (?st (?key (Some ?r)) [0 \<mapsto> ?q (Finished Ran)] ?c ?sent) (?st (?key (Some ?r)) [0 \<mapsto> ?q (Finished Ran), 1 \<mapsto> ?q (TrySet 0)] ?c ?sent)"
    using IdArrive [of "?st (?key (Some ?r)) [0 \<mapsto> ?q (Finished Ran)] ?c ?sent" 1 False demoUuid 60 "''k''" "''f''"] by simp
  moreover have "?step (?st (?key (Some ?r)) [0 \<mapsto> ?q (Finished Ran), 1 \<mapsto> ?q (TrySet 0)] ?c ?sent) (?st (?key (Some ?r)) [0 \<mapsto> ?q (Finished Ran), 1 \<mapsto> ?q (Reading 0)] ?c ?sent)"
    using IdTaken [of "?st (?key (Some ?r)) [0 \<mapsto> ?q (Finished Ran), 1 \<mapsto> ?q (TrySet 0)] ?c ?sent" 1 "?q (TrySet 0)" 0 demoUuid 60 "?key (Some ?r)" False] by (simp add: d)
  moreover have "?step (?st (?key (Some ?r)) [0 \<mapsto> ?q (Finished Ran), 1 \<mapsto> ?q (Reading 0)] ?c ?sent) demoIdem"
    using IdFound [of "?st (?key (Some ?r)) [0 \<mapsto> ?q (Finished Ran), 1 \<mapsto> ?q (Reading 0)] ?c ?sent" 1 "?q (Reading 0)" 0
        "\<lparr>irFingerprint = ''f'', irLease = demoUuid 0, irResponse = Some ?r\<rparr>" False demoUuid 60] by (simp add: d)
  ultimately show ?thesis by (meson rtranclp.rtrancl_into_rtrancl rtranclp.rtrancl_refl)
qed



section \<open>The stores' contract\<close>

text \<open>
  What \<open>ports/idempotency-store.port.ts\<close> promises of \<open>reserve\<close>, \<open>complete\<close> and \<open>release\<close>, over what a
  key holds at a time. \<open>lookup\<close> of a later time says how long a record lives.
\<close>

locale idempotency_store =
  fixes wf :: "'s \<Rightarrow> bool" and lookup :: "int \<Rightarrow> 's \<Rightarrow> string \<Rightarrow> idemRecord option"
    and reserve :: "int \<Rightarrow> string \<Rightarrow> idemRecord \<Rightarrow> int \<Rightarrow> 's \<Rightarrow> (unit + idemRecord option) \<times> 's"
    and complete :: "int \<Rightarrow> string \<Rightarrow> string \<Rightarrow> recordedResponse \<Rightarrow> int \<Rightarrow> 's \<Rightarrow> bool \<times> 's"
    and release :: "int \<Rightarrow> string \<Rightarrow> string \<Rightarrow> 's \<Rightarrow> bool \<times> 's"
  assumes wf_kept: "wf st \<Longrightarrow> 1 \<le> ttl \<Longrightarrow> wf (snd (reserve now k rec ttl st)) \<and> wf (snd (complete now k l r ttl st)) \<and> wf (snd (release now k l st))"
    and reserve_law: "wf st \<Longrightarrow> 1 \<le> ttl \<Longrightarrow> fst (reserve now k rec ttl st) = Inr (lookup now st k) \<and>
      (\<forall>t \<ge> now. \<forall>k'. lookup t (snd (reserve now k rec ttl st)) k' =
        (if k' = k \<and> lookup now st k = None then if t < now + ttl then Some rec else None else lookup t st k'))"
    and complete_law: "wf st \<Longrightarrow> 1 \<le> ttl \<Longrightarrow> fst (complete now k l r ttl st) = (map_option irLease (lookup now st k) = Some l) \<and>
      (\<forall>t \<ge> now. \<forall>k'. lookup t (snd (complete now k l r ttl st)) k' =
        (if k' = k \<and> map_option irLease (lookup now st k) = Some l
         then if t < now + ttl then map_option (irResponse_update (\<lambda>_. Some r)) (lookup now st k) else None else lookup t st k'))"
    and release_law: "wf st \<Longrightarrow> fst (release now k l st) = (map_option irLease (lookup now st k) = Some l) \<and>
      (\<forall>t \<ge> now. \<forall>k'. lookup t (snd (release now k l st)) k' =
        (if k' = k \<and> map_option irLease (lookup now st k) = Some l then None else lookup t st k'))"
begin

lemma retry_replays:
  assumes "wf st" and "1 \<le> ttl" and "reserve t0 k rec ttl st = (Inr None, st1)" and "t0 \<le> t1" and "t1 < t0 + ttl"
    and "complete t1 k (irLease rec) r ttl st1 = (ok, st2)" and "t1 \<le> t2" and "t2 < t1 + ttl"
  shows "ok \<and> fst (reserve t2 k rec' ttl st2) = Inr (Some (rec\<lparr>irResponse := Some r\<rparr>))"
proof -
  have 0: "lookup t0 st k = None" using reserve_law [OF assms(1,2), of t0 k rec] assms(3) by simp
  have 1: "lookup t1 st1 k = Some rec" using reserve_law [OF assms(1,2), of t0 k rec] assms(3-5) 0 by simp
  have w1: "wf st1" using wf_kept [OF assms(1,2), of t0 k rec] assms(3) by simp
  have 2: "ok" "lookup t2 st2 k = Some (rec\<lparr>irResponse := Some r\<rparr>)"
    using complete_law [OF w1 assms(2), of t1 k "irLease rec" r] assms(6-8) 1 by simp_all
  have w2: "wf st2" using wf_kept [OF w1 assms(2), of t1 k _ "irLease rec" r] assms(6) by simp
  show ?thesis using reserve_law [OF w2 assms(2), of t2 k rec'] 2 by simp
qed

end

datatype idemOp = ReserveOp string idemRecord int | CompleteOp string string recordedResponse int | ReleaseOp string string

datatype idemAnswer = Reserved "unit + idemRecord option" | Settled bool

text \<open>The operations of a history, each with its time.\<close>

fun idemRun :: "(int \<Rightarrow> string \<Rightarrow> idemRecord \<Rightarrow> int \<Rightarrow> 's \<Rightarrow> (unit + idemRecord option) \<times> 's) \<Rightarrow> (int \<Rightarrow> string \<Rightarrow> string \<Rightarrow> recordedResponse \<Rightarrow> int \<Rightarrow> 's \<Rightarrow> bool \<times> 's) \<Rightarrow>
    (int \<Rightarrow> string \<Rightarrow> string \<Rightarrow> 's \<Rightarrow> bool \<times> 's) \<Rightarrow> (int \<times> idemOp) list \<Rightarrow> 's \<Rightarrow> idemAnswer list" where
  "idemRun rsv cmp rel [] st = []"
| "idemRun rsv cmp rel ((now, ReserveOp k rec ttl) # ops) st = (case rsv now k rec ttl st of (a, st') \<Rightarrow> Reserved a # idemRun rsv cmp rel ops st')"
| "idemRun rsv cmp rel ((now, CompleteOp k l r ttl) # ops) st = (case cmp now k l r ttl st of (a, st') \<Rightarrow> Settled a # idemRun rsv cmp rel ops st')"
| "idemRun rsv cmp rel ((now, ReleaseOp k l) # ops) st = (case rel now k l st of (a, st') \<Rightarrow> Settled a # idemRun rsv cmp rel ops st')"

fun opTtl :: "idemOp \<Rightarrow> int" where
  "opTtl (ReserveOp k rec ttl) = ttl"
| "opTtl (CompleteOp k l r ttl) = ttl"
| "opTtl (ReleaseOp k l) = 1"

locale two_stores = idempotency_store wf lookup reserve complete release +
  b: idempotency_store wf' lookup' reserve' complete' release'
  for wf :: "'s \<Rightarrow> bool" and lookup reserve complete release
    and wf' :: "'t \<Rightarrow> bool" and lookup' reserve' complete' release'
begin

lemma runs_agree:
  assumes "sorted (map fst ops)" and "\<forall>x \<in> set ops. now \<le> fst x \<and> 1 \<le> opTtl (snd x)" and "wf st" and "wf' st'"
    and "\<forall>t \<ge> now. \<forall>k. lookup t st k = lookup' t st' k"
  shows "idemRun reserve complete release ops st = idemRun reserve' complete' release' ops st'"
  using assms
proof (induction ops arbitrary: now st st')
  case Nil
  show ?case by simp
next
  case (Cons x ops)
  obtain m q where x: "x = (m, q)" by (cases x)
  have m: "now \<le> m" "1 \<le> opTtl q" "\<forall>y \<in> set ops. m \<le> fst y \<and> 1 \<le> opTtl (snd y)" "sorted (map fst ops)" using Cons.prems(1,2) x by auto
  have same: "\<forall>t \<ge> m. \<forall>k. lookup t st k = lookup' t st' k" using Cons.prems(5) m(1) by auto
  then have here: "lookup m st = lookup' m st'" by auto
  note step = Cons.IH [OF m(4) m(3)]
  show ?case
  proof (cases q)
    case (ReserveOp k rec ttl)
    then have t: "1 \<le> ttl" using m(2) by simp
    show ?thesis using step [of "snd (reserve m k rec ttl st)" "snd (reserve' m k rec ttl st')"] reserve_law [OF Cons.prems(3) t, of m k rec]
        b.reserve_law [OF Cons.prems(4) t, of m k rec] wf_kept [OF Cons.prems(3) t] b.wf_kept [OF Cons.prems(4) t] same
      by (simp add: x ReserveOp here split_beta cong: if_cong)
  next
    case (CompleteOp k l r ttl)
    then have t: "1 \<le> ttl" using m(2) by simp
    show ?thesis using step [of "snd (complete m k l r ttl st)" "snd (complete' m k l r ttl st')"] complete_law [OF Cons.prems(3) t, of m k l r]
        b.complete_law [OF Cons.prems(4) t, of m k l r] wf_kept [OF Cons.prems(3) t] b.wf_kept [OF Cons.prems(4) t] same
      by (simp add: x CompleteOp here split_beta cong: if_cong)
  next
    case (ReleaseOp k l)
    show ?thesis using step [of "snd (release m k l st)" "snd (release' m k l st')"] release_law [OF Cons.prems(3), of m k l]
        b.release_law [OF Cons.prems(4), of m k l] wf_kept [OF Cons.prems(3), of 1] b.wf_kept [OF Cons.prems(4), of 1] same
      by (simp add: x ReleaseOp here split_beta cong: if_cong)
  qed
qed

end

definition memReserved :: "int \<Rightarrow> string \<Rightarrow> idemRecord \<Rightarrow> int \<Rightarrow> memIdem \<Rightarrow> (unit + idemRecord option) \<times> memIdem" where
  "memReserved now k rec ttl st = map_prod Inr (\<lambda>st. st) (memReserve now k rec ttl st)"

definition redisLookup :: "int \<Rightarrow> redisKeys \<Rightarrow> string \<Rightarrow> idemRecord option" where
  "redisLookup now keys k = (case redisGet now (keyPrefix @ k) keys of Some (Written r) \<Rightarrow> Some r | _ \<Rightarrow> None)"

definition ownKeys :: "redisKeys \<Rightarrow> bool" where
  "ownKeys keys \<longleftrightarrow> (\<forall>k e. keys k = Some e \<longrightarrow> reValue e \<noteq> Foreign)"

lemmas memIdem_defs = memReserved_def memReserve_def memReadIdem_def memComplete_def memReleaseIdem_def

lemma redisGet_set: "redisGet t k' (redisSet now k v ttl keys) = (if k' = k then if t < now + ttl then Some v else None else redisGet t k' keys)"
  by (auto simp: redisGet_def redisSet_def)

lemma redisGet_delete: "redisGet t k' (keys(k := None)) = (if k' = k then None else redisGet t k' keys)"
  by (auto simp: redisGet_def)

lemma ownKeys_read: "ownKeys keys \<Longrightarrow> redisGet now k keys \<noteq> Some Foreign"
  by (auto simp: ownKeys_def redisGet_def split: option.splits if_splits)

lemma ownKeys_set: "ownKeys keys \<Longrightarrow> ownKeys (redisSet now k (Written r) ttl keys)" "ownKeys keys \<Longrightarrow> ownKeys (keys(k := None))"
  by (auto simp: ownKeys_def redisSet_def)

lemma redisReserve_own:
  assumes "ownKeys keys" and "1 \<le> ttl"
  shows "redisReserve now k rec ttl keys = (Inr (redisLookup now keys k),
    if redisLookup now keys k = None then redisSet now (keyPrefix @ k) (Written rec) ttl keys else keys)"
  using ownKeys_read [OF assms(1), of now "keyPrefix @ k"] assms(2)
  by (auto simp: redisReserve_def reserveAttempts_def numeral_3_eq_3 redisSetNX_def redisLookup_def normaliseTtl_def split: option.splits redisValue.splits)

lemma redisComplete_own:
  assumes "1 \<le> ttl"
  shows "redisComplete now k l r ttl keys = (case redisLookup now keys k of
    None \<Rightarrow> (False, keys)
  | Some old \<Rightarrow> if irLease old = l then (True, redisSet now (keyPrefix @ k) (Written (old\<lparr>irResponse := Some r\<rparr>)) ttl keys) else (False, keys))"
  using assms by (auto simp: redisComplete_def completeIfLeased_def redisLookup_def normaliseTtl_def split: option.splits redisValue.splits)

lemma redisRelease_own:
  "redisRelease now k l keys = (case redisLookup now keys k of
    None \<Rightarrow> (False, keys)
  | Some old \<Rightarrow> if irLease old = l then (True, keys(keyPrefix @ k := None)) else (False, keys))"
  by (auto simp: redisRelease_def releaseIfLeased_def redisLookup_def split: option.splits redisValue.splits)

interpretation mi: idempotency_store "\<lambda>_. True" "\<lambda>now st k. fst (memReadIdem now k st)" memReserved memComplete memReleaseIdem
  by unfold_locales (auto simp: memIdem_defs split: option.splits)

interpretation ri: idempotency_store ownKeys redisLookup redisReserve redisComplete redisRelease
proof unfold_locales
  fix keys ttl now k rec l r
  show "ownKeys (snd (redisReserve now k rec ttl keys)) \<and> ownKeys (snd (redisComplete now k l r ttl keys)) \<and> ownKeys (snd (redisRelease now k l keys))"
    if "ownKeys keys" "1 \<le> ttl"
    using that by (auto simp: redisReserve_own redisComplete_own redisRelease_own ownKeys_set split: option.splits)
  show "fst (redisReserve now k rec ttl keys) = Inr (redisLookup now keys k) \<and>
    (\<forall>t \<ge> now. \<forall>k'. redisLookup t (snd (redisReserve now k rec ttl keys)) k' =
      (if k' = k \<and> redisLookup now keys k = None then if t < now + ttl then Some rec else None else redisLookup t keys k'))"
    if "ownKeys keys" "1 \<le> ttl"
    using that by (auto simp: redisReserve_own redisLookup_def [of _ "redisSet _ _ _ _ _"] redisGet_set) (simp_all add: redisLookup_def)
  show "fst (redisComplete now k l r ttl keys) = (map_option irLease (redisLookup now keys k) = Some l) \<and>
    (\<forall>t \<ge> now. \<forall>k'. redisLookup t (snd (redisComplete now k l r ttl keys)) k' =
      (if k' = k \<and> map_option irLease (redisLookup now keys k) = Some l
       then if t < now + ttl then map_option (irResponse_update (\<lambda>_. Some r)) (redisLookup now keys k) else None else redisLookup t keys k'))"
    if "ownKeys keys" "1 \<le> ttl"
    using that by (auto simp: redisComplete_own redisLookup_def [of _ "redisSet _ _ _ _ _"] redisGet_set split: option.splits) (simp_all add: redisLookup_def)
  show "fst (redisRelease now k l keys) = (map_option irLease (redisLookup now keys k) = Some l) \<and>
    (\<forall>t \<ge> now. \<forall>k'. redisLookup t (snd (redisRelease now k l keys)) k' =
      (if k' = k \<and> map_option irLease (redisLookup now keys k) = Some l then None else redisLookup t keys k'))"
    by (auto simp: redisRelease_own redisLookup_def [of _ "_(_ := None)"] redisGet_delete split: option.splits) (simp_all add: redisLookup_def)
qed

interpretation tw: two_stores "\<lambda>_. True" "\<lambda>now st k. fst (memReadIdem now k st)" memReserved memComplete memReleaseIdem
    ownKeys redisLookup redisReserve redisComplete redisRelease
  by unfold_locales

lemma start_empty: "fst (memReadIdem t k Map.empty) = redisLookup t Map.empty k" "ownKeys Map.empty"
  by (auto simp: memReadIdem_def redisLookup_def redisGet_def ownKeys_def)

text \<open>
  C28. The in-memory store and the Redis store answer alike: for every history of \<open>reserve\<close>,
  \<open>complete\<close> and \<open>release\<close> calls with positive times to live, from empty stores, every reservation
  finds the same record and every settlement succeeds in one exactly when it does in the other.
\<close>

theorem idempotency_stores_agree:
  assumes "sorted (map fst ops)" and "\<forall>x \<in> set ops. 1 \<le> opTtl (snd x)"
  shows "idemRun memReserved memComplete memReleaseIdem ops Map.empty = idemRun redisReserve redisComplete redisRelease ops Map.empty"
proof (cases ops)
  case (Cons x xs)
  then have "\<forall>y \<in> set ops. fst x \<le> fst y" using assms(1) by auto
  then show ?thesis using tw.runs_agree [of ops "fst x" Map.empty Map.empty] assms start_empty by auto
qed simp

theorem idempotency_stores_agree_witness:
  "idemRun memReserved memComplete memReleaseIdem
     [(0, ReserveOp ''k'' \<lparr>irFingerprint = ''f'', irLease = ''a'', irResponse = None\<rparr> 10), (12, ReserveOp ''k'' \<lparr>irFingerprint = ''f'', irLease = ''b'', irResponse = None\<rparr> 10),
      (13, CompleteOp ''k'' ''a'' \<lparr>rrStatus = 200, rrContentType = None, rrBody = None\<rparr> 10), (14, ReleaseOp ''k'' ''b'')] Map.empty
   = [Reserved (Inr None), Reserved (Inr None), Settled False, Settled True]
   \<and> idemRun redisReserve redisComplete redisRelease
     [(0, ReserveOp ''k'' \<lparr>irFingerprint = ''f'', irLease = ''a'', irResponse = None\<rparr> 10), (12, ReserveOp ''k'' \<lparr>irFingerprint = ''f'', irLease = ''b'', irResponse = None\<rparr> 10),
      (13, CompleteOp ''k'' ''a'' \<lparr>rrStatus = 200, rrContentType = None, rrBody = None\<rparr> 10), (14, ReleaseOp ''k'' ''b'')] Map.empty
   = [Reserved (Inr None), Reserved (Inr None), Settled False, Settled True]"
proof -
  let ?ops = "[(0, ReserveOp ''k'' \<lparr>irFingerprint = ''f'', irLease = ''a'', irResponse = None\<rparr> 10), (12, ReserveOp ''k'' \<lparr>irFingerprint = ''f'', irLease = ''b'', irResponse = None\<rparr> 10),
      (13, CompleteOp ''k'' ''a'' \<lparr>rrStatus = 200, rrContentType = None, rrBody = None\<rparr> 10), (14, ReleaseOp ''k'' ''b'')]"
  have "idemRun memReserved memComplete memReleaseIdem ?ops Map.empty = [Reserved (Inr None), Reserved (Inr None), Settled False, Settled True]"
    by (simp add: memIdem_defs)
  then show ?thesis using idempotency_stores_agree [of ?ops] by simp
qed

section \<open>What identifies a request\<close>

lemma record_round_trip: "parseRecord (jsonStringify (recordJson r)) = Some r"
proof -
  have "plainJson (recordJson r)"
    by (auto simp: recordJson_def responseJson_def textOrNull_def split: option.splits)
  from json_round_trip [OF this] show ?thesis
    by (cases r; cases "irResponse r") (auto simp: parseRecord_def recordJson_def responseJson_def readResponse_def readText_def textOrNull_def split: option.splits)
qed

lemma stable_json: "isJson v \<Longrightarrow> stableStringify v = renderJson (canonValue v)"
proof (induction v rule: stableStringify.induct)
  case (1 vs)
  then have "map stableStringify vs = map renderJson (map canonValue vs)" by (auto simp: list_all_iff)
  then show ?case by (simp only: stableStringify.simps canonValue.simps renderJson.simps)
next
  case (2 ms)
  define g where "g = (\<lambda>(k, v). (k, jsonString k @ '':'' @ stableStringify v))"
  define h where "h = (\<lambda>(k :: string, v). (k, canonValue v))"
  have keys: "fst \<circ> g = fst" "fst \<circ> h = fst" by (auto simp: g_def h_def)
  have "stableStringify v = renderJson (canonValue v)" if "(k, v) \<in> set ms" for k v
    using "2.IH" [OF that refl] "2.prems" that by (auto simp: list_all_iff)
  then have "map (snd \<circ> g) (sort_key fst ms) = map ((\<lambda>(k, v). jsonString k @ '':'' @ renderJson v) \<circ> h) (sort_key fst ms)"
    by (intro map_cong) (auto simp: g_def h_def)
  then have "map snd (sort_key fst (map g ms)) = map (\<lambda>(k, v). jsonString k @ '':'' @ renderJson v) (sort_key fst (map h ms))"
    by (simp add: sort_key_map keys)
  then show ?case by (simp only: stableStringify.simps canonValue.simps renderJson.simps g_def h_def)
qed simp_all

lemma stable_exact:
  assumes "isJson v" and "isJson w"
  shows "stableStringify v = stableStringify w \<longleftrightarrow> canonValue v = canonValue w"
  using prefixCodeD [OF render_prefix, of "canonValue v" "canonValue w" "[]" "[]"] assms by (auto simp: stable_json ended_def)

definition bodyValue :: "httpRequest \<Rightarrow> jsValue option" where
  "bodyValue req = (case hrBody req of Some VNull \<Rightarrow> None | None \<Rightarrow> None | Some b \<Rightarrow> Some (canonValue b))"

definition oneLine :: "httpRequest \<Rightarrow> bool" where
  "oneLine req \<longleftrightarrow> CHR 0x0A \<notin> set (toUpperCase (hrMethod req)) \<and> CHR 0x0A \<notin> set (hrUrl req) \<and>
     CHR 0x0A \<notin> set (case hrContentType req of Some t \<Rightarrow> t | None \<Rightarrow> []) \<and> CHR 0x0A \<notin> set (case hrContentLength req of Some t \<Rightarrow> t | None \<Rightarrow> []) \<and>
     (case hrBody req of None \<Rightarrow> True | Some b \<Rightarrow> isJson b)"

lemma line_split: "x \<notin> set a \<Longrightarrow> x \<notin> set b \<Longrightarrow> a @ x # r = b @ x # t \<longleftrightarrow> a = b \<and> r = t"
proof (induction a arbitrary: b)
  case Nil
  then show ?case by (cases b) auto
next
  case (Cons c a)
  then show ?case by (cases b) auto
qed

lemma lines_split:
  assumes "x \<notin> set a \<union> set b \<union> set c \<union> set d" and "x \<notin> set a' \<union> set b' \<union> set c' \<union> set d'"
  shows "joinWith [x] [a, b, c, d, e] = joinWith [x] [a', b', c', d', e'] \<longleftrightarrow> (a, b, c, d) = (a', b', c', d') \<and> e = e'"
  using assms by (simp add: line_split)

lemma body_text:
  assumes "oneLine a" and "oneLine b"
  shows "(case hrBody a of None \<Rightarrow> [] | Some VNull \<Rightarrow> [] | Some v \<Rightarrow> stableStringify v) = (case hrBody b of None \<Rightarrow> [] | Some VNull \<Rightarrow> [] | Some v \<Rightarrow> stableStringify v)
    \<longleftrightarrow> bodyValue a = bodyValue b"
proof -
  have written: "(case hrBody req of None \<Rightarrow> [] | Some VNull \<Rightarrow> [] | Some v \<Rightarrow> stableStringify v) = (case bodyValue req of None \<Rightarrow> [] | Some v \<Rightarrow> renderJson v)"
      and json: "\<forall>v. bodyValue req = Some v \<longrightarrow> isJson v" if "oneLine req" for req
  proof -
    consider "hrBody req = None \<or> hrBody req = Some VNull" | v where "hrBody req = Some v" "v \<noteq> VNull" "isJson v"
      using \<open>oneLine req\<close> by (cases "hrBody req") (auto simp: oneLine_def)
    then have "(case hrBody req of None \<Rightarrow> [] | Some VNull \<Rightarrow> [] | Some v \<Rightarrow> stableStringify v) = (case bodyValue req of None \<Rightarrow> [] | Some v \<Rightarrow> renderJson v)
      \<and> (\<forall>v. bodyValue req = Some v \<longrightarrow> isJson v)"
    proof cases
      case (2 v)
      have "(case hrBody req of None \<Rightarrow> [] | Some VNull \<Rightarrow> [] | Some v \<Rightarrow> stableStringify v) = stableStringify v" "bodyValue req = Some (canonValue v)"
        using 2(1,2) by (cases v; simp add: bodyValue_def del: stableStringify.simps canonValue.simps)+
      then show ?thesis using 2(3) by (simp add: stable_json)
    qed (auto simp: bodyValue_def)
    then show "(case hrBody req of None \<Rightarrow> [] | Some VNull \<Rightarrow> [] | Some v \<Rightarrow> stableStringify v) = (case bodyValue req of None \<Rightarrow> [] | Some v \<Rightarrow> renderJson v)"
      "\<forall>v. bodyValue req = Some v \<longrightarrow> isJson v" by simp_all
  qed
  have inj: "renderJson v = renderJson w \<longleftrightarrow> v = w" if "isJson v" "isJson w" for v w
    using prefixCodeD [OF render_prefix, of v w "[]" "[]"] that by (auto simp: ended_def)
  have ne: "renderJson v \<noteq> []" "[] \<noteq> renderJson v" if "isJson v" for v
    using render_opener [OF that] by auto
  show ?thesis
    using json [OF assms(1)] json [OF assms(2)] unfolding written [OF assms(1)] written [OF assms(2)]
    by (cases "bodyValue a"; cases "bodyValue b") (simp_all add: inj ne)
qed

lemma fingerprint_identifies:
  assumes "oneLine a" and "oneLine b"
  shows "fingerprintText a = fingerprintText b \<longleftrightarrow>
    (toUpperCase (hrMethod a), hrUrl a, case hrContentType a of Some t \<Rightarrow> t | None \<Rightarrow> [], case hrContentLength a of Some t \<Rightarrow> t | None \<Rightarrow> [], bodyValue a)
    = (toUpperCase (hrMethod b), hrUrl b, case hrContentType b of Some t \<Rightarrow> t | None \<Rightarrow> [], case hrContentLength b of Some t \<Rightarrow> t | None \<Rightarrow> [], bodyValue b)"
proof -
  note lines = lines_split [where x = "CHR 0x0A" and a = "toUpperCase (hrMethod a)" and a' = "toUpperCase (hrMethod b)" and b = "hrUrl a" and b' = "hrUrl b"
    and c = "case hrContentType a of Some t \<Rightarrow> t | None \<Rightarrow> []" and c' = "case hrContentType b of Some t \<Rightarrow> t | None \<Rightarrow> []"
    and d = "case hrContentLength a of Some t \<Rightarrow> t | None \<Rightarrow> []" and d' = "case hrContentLength b of Some t \<Rightarrow> t | None \<Rightarrow> []"]
  show ?thesis unfolding fingerprintText_def
    by (subst lines) (use assms in \<open>unfold oneLine_def, blast\<close>, use assms in \<open>unfold oneLine_def, blast\<close>, simp only: prod.inject body_text [OF assms] conj_assoc)
qed

section \<open>What is not kept apart\<close>

text \<open>Two callers' keys meet in one record: an IPv6 address and a key both hold colons.\<close>

lemma scopes_collide:
  "storeKey ''ip:2001:db8::1'' ''2:a'' = storeKey ''ip:2001:db8::1:2'' ''a'' \<and> isValidKey ''2:a'' \<and> isValidKey ''a''"
  by (simp add: storeKey_def isValidKey_def isTrimmed_def maxKeyLength_def)

text \<open>A response sent as a buffer is stored without its body, and replayed empty.\<close>

lemma buffer_replayed_empty:
  "settle True 200 t [SendBuffer bytes] = Persist \<lparr>rrStatus = 200, rrContentType = t, rrBody = None\<rparr>
   \<and> replayWire \<lparr>rrStatus = 200, rrContentType = t, rrBody = None\<rparr> = (200, t, [])"
  by (simp add: settle_def replayableStatusCeiling_def capturedBody_def onSend_def replayWire_def)

text \<open>
  A value on the key that is not a record: two requests that both read it both overwrite it, and the
  handler runs twice at once.
\<close>

lemma unreadable_runs_twice:
  "\<exists>s. (idemStep True demoUuid 60)\<^sup>*\<^sup>* (idemStart 0) s \<and> idNow s = 0 \<and>
     idRequests s = [0 \<mapsto> \<lparr>iqKey = ''k'', iqFingerprint = ''f'', iqPhase = Running\<rparr>, 1 \<mapsto> \<lparr>iqKey = ''k'', iqFingerprint = ''f'', iqPhase = Running\<rparr>]"
proof -
  let ?q = "\<lambda>ph. \<lparr>iqKey = ''k'', iqFingerprint = ''f'', iqPhase = ph\<rparr>"
  let ?f = "[keyPrefix @ ''k'' \<mapsto> \<lparr>reValue = Foreign, reExpires = None\<rparr>]"
  let ?st = "\<lambda>keys reqs cl. \<lparr>idNow = 0, idKeys = keys, idRequests = reqs, idClaims = cl, idReleased = {}, idSent = Map.empty,
     idHandling = fst ` snd ` set cl, idHungUp = {}\<rparr> :: idemState"
  let ?step = "idemStep True demoUuid 60"
  let ?o = "\<lambda>i. [keyPrefix @ ''k'' \<mapsto> \<lparr>reValue = Written \<lparr>irFingerprint = ''f'', irLease = demoUuid i, irResponse = None\<rparr>, reExpires = Some 60\<rparr>]"
  note d = idemStart_def atPhase_def reservation_def redisSetNX_def redisSet_def redisGet_def normaliseTtl_def
  have "?step (idemStart 0) (?st ?f Map.empty [])" using IdForeign [of True demoUuid 60 "idemStart 0" "keyPrefix @ ''k''"] by (simp add: d)
  moreover have "?step (?st ?f Map.empty []) (?st ?f [0 \<mapsto> ?q (TrySet 0)] [])"
    using IdArrive [of "?st ?f Map.empty []" 0 True demoUuid 60 "''k''" "''f''"] by simp
  moreover have "?step (?st ?f [0 \<mapsto> ?q (TrySet 0)] []) (?st ?f [0 \<mapsto> ?q (TrySet 0), 1 \<mapsto> ?q (TrySet 0)] [])"
    using IdArrive [of "?st ?f [0 \<mapsto> ?q (TrySet 0)] []" 1 True demoUuid 60 "''k''" "''f''"] by simp
  moreover have "?step (?st ?f [0 \<mapsto> ?q (TrySet 0), 1 \<mapsto> ?q (TrySet 0)] []) (?st ?f [0 \<mapsto> ?q (Reading 0), 1 \<mapsto> ?q (TrySet 0)] [])"
    using IdTaken [of "?st ?f [0 \<mapsto> ?q (TrySet 0), 1 \<mapsto> ?q (TrySet 0)] []" 0 "?q (TrySet 0)" 0 demoUuid 60 ?f True] by (simp add: d fun_upd_twist)
  moreover have "?step (?st ?f [0 \<mapsto> ?q (Reading 0), 1 \<mapsto> ?q (TrySet 0)] []) (?st ?f [0 \<mapsto> ?q (Reading 0), 1 \<mapsto> ?q (Reading 0)] [])"
    using IdTaken [of "?st ?f [0 \<mapsto> ?q (Reading 0), 1 \<mapsto> ?q (TrySet 0)] []" 1 "?q (TrySet 0)" 0 demoUuid 60 ?f True] by (simp add: d)
  moreover have "?step (?st ?f [0 \<mapsto> ?q (Reading 0), 1 \<mapsto> ?q (Reading 0)] []) (?st ?f [0 \<mapsto> ?q Overwriting, 1 \<mapsto> ?q (Reading 0)] [])"
    using IdUnreadable [of "?st ?f [0 \<mapsto> ?q (Reading 0), 1 \<mapsto> ?q (Reading 0)] []" 0 "?q (Reading 0)" 0 True demoUuid 60] by (simp add: d fun_upd_twist)
  moreover have "?step (?st ?f [0 \<mapsto> ?q Overwriting, 1 \<mapsto> ?q (Reading 0)] []) (?st ?f [0 \<mapsto> ?q Overwriting, 1 \<mapsto> ?q Overwriting] [])"
    using IdUnreadable [of "?st ?f [0 \<mapsto> ?q Overwriting, 1 \<mapsto> ?q (Reading 0)] []" 1 "?q (Reading 0)" 0 True demoUuid 60] by (simp add: d)
  moreover have "?step (?st ?f [0 \<mapsto> ?q Overwriting, 1 \<mapsto> ?q Overwriting] []) (?st (?o 0) [0 \<mapsto> ?q Running, 1 \<mapsto> ?q Overwriting] [(''k'', 0, 0)])"
    using IdOverwrite [of "?st ?f [0 \<mapsto> ?q Overwriting, 1 \<mapsto> ?q Overwriting] []" 0 "?q Overwriting" True demoUuid 60] by (simp add: d fun_upd_twist)
  moreover have "?step (?st (?o 0) [0 \<mapsto> ?q Running, 1 \<mapsto> ?q Overwriting] [(''k'', 0, 0)]) (?st (?o 1) [0 \<mapsto> ?q Running, 1 \<mapsto> ?q Running] [(''k'', 0, 0), (''k'', 1, 0)])"
    using IdOverwrite [of "?st (?o 0) [0 \<mapsto> ?q Running, 1 \<mapsto> ?q Overwriting] [(''k'', 0, 0)]" 1 "?q Overwriting" True demoUuid 60] by (simp add: d insert_commute)
  ultimately have "?step\<^sup>*\<^sup>* (idemStart 0) (?st (?o 1) [0 \<mapsto> ?q Running, 1 \<mapsto> ?q Running] [(''k'', 0, 0), (''k'', 1, 0)])"
    by (meson rtranclp.rtrancl_into_rtrancl rtranclp.rtrancl_refl)
  then show ?thesis by (intro exI) auto
qed

text \<open>
  A client that hangs up and retries: the closed connection gives up the key while the handler is still
  running, and the retry starts a second one.
\<close>

lemma hang_up_runs_twice:
  "\<exists>s. (idemStep False demoUuid 60)\<^sup>*\<^sup>* (idemStart 0) s \<and> idNow s = 0 \<and> idHandling s = {0, 1}
     \<and> idClaims s = [(''k'', 0, 0), (''k'', 1, 0)]"
proof -
  let ?q = "\<lambda>ph. \<lparr>iqKey = ''k'', iqFingerprint = ''f'', iqPhase = ph\<rparr>"
  let ?st = "\<lambda>keys reqs cl rel hung. \<lparr>idNow = 0, idKeys = keys, idRequests = reqs, idClaims = cl, idReleased = rel, idSent = Map.empty,
     idHandling = fst ` snd ` set cl, idHungUp = hung\<rparr> :: idemState"
  let ?step = "idemStep False demoUuid 60"
  let ?o = "\<lambda>i. [keyPrefix @ ''k'' \<mapsto> \<lparr>reValue = Written \<lparr>irFingerprint = ''f'', irLease = demoUuid i, irResponse = None\<rparr>, reExpires = Some 60\<rparr>]"
  let ?c = "[(''k'', 0, 0)] :: (string \<times> nat \<times> int) list"
  note d = idemStart_def atPhase_def reservation_def redisSetNX_def redisSet_def redisGet_def normaliseTtl_def releaseIfLeased_def
  have "?step (idemStart 0) (?st Map.empty [0 \<mapsto> ?q (TrySet 0)] [] {} {})"
    using IdArrive [of "idemStart 0" 0 False demoUuid 60 "''k''" "''f''"] by (simp add: d)
  moreover have "?step (?st Map.empty [0 \<mapsto> ?q (TrySet 0)] [] {} {}) (?st (?o 0) [0 \<mapsto> ?q Running] ?c {} {})"
    using IdClaim [of "?st Map.empty [0 \<mapsto> ?q (TrySet 0)] [] {} {}" 0 "?q (TrySet 0)" 0 demoUuid 60 "?o 0" False] by (simp add: d)
  moreover have "?step (?st (?o 0) [0 \<mapsto> ?q Running] ?c {} {}) (?st (?o 0) [0 \<mapsto> ?q Releasing] ?c {} {0})"
    using IdClose [of "?st (?o 0) [0 \<mapsto> ?q Running] ?c {} {}" 0 "?q Running" False demoUuid 60] by (simp add: d)
  moreover have "?step (?st (?o 0) [0 \<mapsto> ?q Releasing] ?c {} {0}) (?st Map.empty [0 \<mapsto> ?q (Finished Ran)] ?c {0} {0})"
    using IdRelease [of "?st (?o 0) [0 \<mapsto> ?q Releasing] ?c {} {0}" 0 "?q Releasing" demoUuid True Map.empty False 60] by (simp add: d)
  moreover have "?step (?st Map.empty [0 \<mapsto> ?q (Finished Ran)] ?c {0} {0}) (?st Map.empty [0 \<mapsto> ?q (Finished Ran), 1 \<mapsto> ?q (TrySet 0)] ?c {0} {0})"
    using IdArrive [of "?st Map.empty [0 \<mapsto> ?q (Finished Ran)] ?c {0} {0}" 1 False demoUuid 60 "''k''" "''f''"] by simp
  moreover have "?step (?st Map.empty [0 \<mapsto> ?q (Finished Ran), 1 \<mapsto> ?q (TrySet 0)] ?c {0} {0})
      (?st (?o 1) [0 \<mapsto> ?q (Finished Ran), 1 \<mapsto> ?q Running] [(''k'', 0, 0), (''k'', 1, 0)] {0} {0})"
    using IdClaim [of "?st Map.empty [0 \<mapsto> ?q (Finished Ran), 1 \<mapsto> ?q (TrySet 0)] ?c {0} {0}" 1 "?q (TrySet 0)" 0 demoUuid 60 "?o 1" False]
    by (simp add: d insert_commute)
  ultimately have "?step\<^sup>*\<^sup>* (idemStart 0) (?st (?o 1) [0 \<mapsto> ?q (Finished Ran), 1 \<mapsto> ?q Running] [(''k'', 0, 0), (''k'', 1, 0)] {0} {0})"
    by (meson rtranclp.rtrancl_into_rtrancl rtranclp.rtrancl_refl)
  then show ?thesis by (intro exI) auto
qed

end
