(* ===== verification/Bulkhead.thy ===== *)
theory Bulkhead
  imports Prelude "HOL-Library.Sublist" "HOL-Library.Multiset"
begin

text \<open>
  The counting semaphore with a bounded wait queue of \<open>common/bulkhead/bulkhead.ts\<close>.

  A call of \<open>acquire\<close> is named by a number, which stands for its promise and its waiter object. The
  world around a bulkhead is the clock, the pending timers, and the permits callers hold; a timer
  fires at its time or any time later, and a permit may be called again and again.
\<close>

section \<open>The bulkhead\<close>

record bulkheadPolicy =
  bpMaxConcurrent :: int
  bpMaxQueued :: int
  bpMaxQueueWaitMs :: int

datatype rejectionReason = QueueFull | QueueTimeout

definition rejectionMessage :: "string \<Rightarrow> rejectionReason \<Rightarrow> bulkheadPolicy \<Rightarrow> int \<Rightarrow> string" where
  "rejectionMessage name reason policy waitedMs = (case reason of
     QueueFull \<Rightarrow> ''Bulkhead '' @ quoted name @ '' is full: '' @ intString (bpMaxConcurrent policy) @ '' calls in flight and ''
       @ intString (bpMaxQueued policy) @ '' waiting, so this one was not admitted.''
   | QueueTimeout \<Rightarrow> ''Bulkhead '' @ quoted name @ '' did not admit a call within '' @ intString waitedMs @ ''ms: ''
       @ intString (bpMaxConcurrent policy) @ '' calls are in flight and the queue is draining slower than the caller can wait.'')"

record waiter =
  wtCaller :: nat
  wtQueuedAt :: int

record bulkhead =
  bhInFlight :: int
  bhWaiting :: "waiter list"
  bhQueueFull :: int
  bhQueueTimeout :: int

text \<open>The constructor; the error names the limit that is not one.\<close>

datatype rangeError = NeedsMaxConcurrent | NeedsMaxQueued

definition newBulkhead :: "jsNum \<Rightarrow> jsNum \<Rightarrow> int \<Rightarrow> rangeError + bulkheadPolicy \<times> bulkhead" where
  "newBulkhead maxConcurrent maxQueued maxQueueWaitMs = (case maxConcurrent of
     FractionNum \<Rightarrow> Inl NeedsMaxConcurrent
   | IntNum c \<Rightarrow> if c < 1 then Inl NeedsMaxConcurrent else (case maxQueued of
       FractionNum \<Rightarrow> Inl NeedsMaxQueued
     | IntNum m \<Rightarrow> if m < 0 then Inl NeedsMaxQueued
         else Inr (\<lparr>bpMaxConcurrent = c, bpMaxQueued = m, bpMaxQueueWaitMs = maxQueueWaitMs\<rparr>,
                   \<lparr>bhInFlight = 0, bhWaiting = [], bhQueueFull = 0, bhQueueTimeout = 0\<rparr>)))"

datatype acquired = Permitted | Rejected rejectionReason int | Parked int

definition waitBudget :: "bulkheadPolicy \<Rightarrow> int option \<Rightarrow> int" where
  "waitBudget policy waitBudgetMs = max 0 (min (case waitBudgetMs of Some ms \<Rightarrow> ms | None \<Rightarrow> bpMaxQueueWaitMs policy) (bpMaxQueueWaitMs policy))"

text \<open>\<open>Parked ms\<close> is a pending promise with a timer of \<open>ms\<close>.\<close>

definition acquire :: "bulkheadPolicy \<Rightarrow> int \<Rightarrow> nat \<Rightarrow> int option \<Rightarrow> bulkhead \<Rightarrow> acquired \<times> bulkhead" where
  "acquire policy now i waitBudgetMs b =
     (if bhInFlight b < bpMaxConcurrent policy then (Permitted, b\<lparr>bhInFlight := bhInFlight b + 1\<rparr>)
      else let budgetMs = waitBudget policy waitBudgetMs in
        if budgetMs = 0 then (Rejected QueueTimeout 0, b\<lparr>bhQueueTimeout := bhQueueTimeout b + 1\<rparr>)
        else if int (length (bhWaiting b)) \<ge> bpMaxQueued policy then (Rejected QueueFull 0, b\<lparr>bhQueueFull := bhQueueFull b + 1\<rparr>)
        else (Parked budgetMs, b\<lparr>bhWaiting := bhWaiting b @ [\<lparr>wtCaller = i, wtQueuedAt = now\<rparr>]\<rparr>))"

text \<open>The timer's callback: the rejection, when the waiter is still queued.\<close>

definition waiterTimeout :: "int \<Rightarrow> nat \<Rightarrow> bulkhead \<Rightarrow> acquired option \<times> bulkhead" where
  "waiterTimeout now i b = (case find (\<lambda>w. wtCaller w = i) (bhWaiting b) of
     None \<Rightarrow> (None, b)
   | Some w \<Rightarrow> (Some (Rejected QueueTimeout (now - wtQueuedAt w)),
       b\<lparr>bhWaiting := remove1 w (bhWaiting b), bhQueueTimeout := bhQueueTimeout b + 1\<rparr>))"

text \<open>\<open>release\<close>: the caller whose promise resolves with the permit, and whose timer is cleared.\<close>

definition releaseBulkhead :: "bulkhead \<Rightarrow> nat option \<times> bulkhead" where
  "releaseBulkhead b = (case bhWaiting b of
     [] \<Rightarrow> (None, b\<lparr>bhInFlight := bhInFlight b - 1\<rparr>)
   | w # ws \<Rightarrow> (Some (wtCaller w), b\<lparr>bhWaiting := ws\<rparr>))"

record bulkheadStats =
  bsInFlight :: int
  bsQueued :: nat
  bsMaxConcurrent :: int
  bsMaxQueued :: int
  bsQueueFull :: int
  bsQueueTimeout :: int

definition bulkheadStatsOf :: "bulkheadPolicy \<Rightarrow> bulkhead \<Rightarrow> bulkheadStats" where
  "bulkheadStatsOf policy b = \<lparr>bsInFlight = bhInFlight b, bsQueued = length (bhWaiting b), bsMaxConcurrent = bpMaxConcurrent policy,
     bsMaxQueued = bpMaxQueued policy, bsQueueFull = bhQueueFull b, bsQueueTimeout = bhQueueTimeout b\<rparr>"

section \<open>Callers\<close>

text \<open>
  \<open>bwHolding\<close> are the permits not yet given back, \<open>bwReleased\<close> the others. \<open>bwParked\<close>, \<open>bwHanded\<close>,
  \<open>bwTimedOut\<close> and \<open>bwTurnedAway\<close> list, in order, who was queued, who got a permit from the queue,
  and who was rejected for which reason.
\<close>

record bhWorld =
  bwNow :: int
  bwBulkhead :: bulkhead
  bwTimers :: "nat \<rightharpoonup> int"
  bwHolding :: "nat list"
  bwReleased :: "nat list"
  bwParked :: "nat list"
  bwHanded :: "nat list"
  bwTimedOut :: "nat list"
  bwTurnedAway :: "nat list"

definition callers :: "bhWorld \<Rightarrow> nat list" where
  "callers w = map wtCaller (bhWaiting (bwBulkhead w)) @ bwHolding w @ bwReleased w @ bwTimedOut w @ bwTurnedAway w"

definition callAcquire :: "bulkheadPolicy \<Rightarrow> nat \<Rightarrow> int option \<Rightarrow> bhWorld \<Rightarrow> bhWorld" where
  "callAcquire policy i budget w = (case acquire policy (bwNow w) i budget (bwBulkhead w) of
     (Permitted, b) \<Rightarrow> w\<lparr>bwBulkhead := b, bwHolding := i # bwHolding w\<rparr>
   | (Rejected QueueFull _, b) \<Rightarrow> w\<lparr>bwBulkhead := b, bwTurnedAway := i # bwTurnedAway w\<rparr>
   | (Rejected QueueTimeout _, b) \<Rightarrow> w\<lparr>bwBulkhead := b, bwTimedOut := i # bwTimedOut w\<rparr>
   | (Parked ms, b) \<Rightarrow> w\<lparr>bwBulkhead := b, bwTimers := (bwTimers w)(i \<mapsto> bwNow w + ms), bwParked := bwParked w @ [i]\<rparr>)"

definition fireTimer :: "nat \<Rightarrow> bhWorld \<Rightarrow> bhWorld" where
  "fireTimer i w = (case waiterTimeout (bwNow w) i (bwBulkhead w) of
     (None, b) \<Rightarrow> w\<lparr>bwTimers := (bwTimers w)(i := None)\<rparr>
   | (Some _, b) \<Rightarrow> w\<lparr>bwTimers := (bwTimers w)(i := None), bwBulkhead := b, bwTimedOut := i # bwTimedOut w\<rparr>)"

text \<open>Calling a permit; the second call finds \<open>released\<close> set.\<close>

definition callPermit :: "nat \<Rightarrow> bhWorld \<Rightarrow> bhWorld" where
  "callPermit i w = (if i \<in> set (bwReleased w) then w
     else case releaseBulkhead (bwBulkhead w) of
       (None, b) \<Rightarrow> w\<lparr>bwBulkhead := b, bwHolding := remove1 i (bwHolding w), bwReleased := i # bwReleased w\<rparr>
     | (Some j, b) \<Rightarrow> w\<lparr>bwBulkhead := b, bwTimers := (bwTimers w)(j := None), bwHolding := j # remove1 i (bwHolding w),
                       bwReleased := i # bwReleased w, bwHanded := bwHanded w @ [j]\<rparr>)"

inductive bhStep :: "bulkheadPolicy \<Rightarrow> bhWorld \<Rightarrow> bhWorld \<Rightarrow> bool" for policy where
  BhTick: "0 \<le> d \<Longrightarrow> bhStep policy w (w\<lparr>bwNow := bwNow w + d\<rparr>)"
| BhAcquire: "i \<notin> set (callers w) \<Longrightarrow> bhStep policy w (callAcquire policy i budget w)"
| BhTimer: "bwTimers w i = Some t \<Longrightarrow> t \<le> bwNow w \<Longrightarrow> bhStep policy w (fireTimer i w)"
| BhPermit: "i \<in> set (bwHolding w) \<union> set (bwReleased w) \<Longrightarrow> bhStep policy w (callPermit i w)"

definition bhStart :: "int \<Rightarrow> bulkhead \<Rightarrow> bhWorld" where
  "bhStart now b = \<lparr>bwNow = now, bwBulkhead = b, bwTimers = Map.empty, bwHolding = [], bwReleased = [],
     bwParked = [], bwHanded = [], bwTimedOut = [], bwTurnedAway = []\<rparr>"

section \<open>The invariant\<close>

definition bhOk :: "bulkheadPolicy \<Rightarrow> bhWorld \<Rightarrow> bool" where
  "bhOk policy w \<longleftrightarrow> (let b = bwBulkhead w in
     distinct (callers w) \<and> bhInFlight b = int (length (bwHolding w)) \<and> bhInFlight b \<le> bpMaxConcurrent policy
     \<and> int (length (bhWaiting b)) \<le> bpMaxQueued policy \<and> (bhWaiting b \<noteq> [] \<longrightarrow> bhInFlight b = bpMaxConcurrent policy)
     \<and> subseq (bwHanded w @ map wtCaller (bhWaiting b)) (bwParked w)
     \<and> bhQueueFull b = int (length (bwTurnedAway w)) \<and> bhQueueTimeout b = int (length (bwTimedOut w)))"

definition timersOk :: "bulkheadPolicy \<Rightarrow> bhWorld \<Rightarrow> bool" where
  "timersOk policy w \<longleftrightarrow> dom (bwTimers w) = wtCaller ` set (bhWaiting (bwBulkhead w)) \<and>
     (\<forall>x \<in> set (bhWaiting (bwBulkhead w)). \<forall>t. bwTimers w (wtCaller x) = Some t \<longrightarrow> wtQueuedAt x < t \<and> t \<le> wtQueuedAt x + bpMaxQueueWaitMs policy)"

lemma waiting_remove:
  assumes "find (\<lambda>w. wtCaller w = i) ws = Some x"
  shows "x \<in> set ws" and "wtCaller x = i" and "subseq (map wtCaller (remove1 x ws)) (map wtCaller ws)" and "mset (map wtCaller ws) = add_mset i (mset (map wtCaller (remove1 x ws)))"
    and "length ws = Suc (length (remove1 x ws))"
proof -
  show x: "x \<in> set ws" "wtCaller x = i" using assms by (auto simp: find_Some_iff)
  have "subseq (remove1 x ws) ws" by (induction ws) auto
  then show "subseq (map wtCaller (remove1 x ws)) (map wtCaller ws)" by (rule subseq_map)
  have "mset ws = add_mset x (mset (remove1 x ws))" using x(1) by simp
  then have "image_mset wtCaller (mset ws) = image_mset wtCaller (add_mset x (mset (remove1 x ws)))" by simp
  then show "mset (map wtCaller ws) = add_mset i (mset (map wtCaller (remove1 x ws)))" using x(2) by simp
  show "length ws = Suc (length (remove1 x ws))" using x(1) by (simp add: length_remove1) (metis Suc_pred length_pos_if_in_set)
qed

lemma acquire_ok:
  assumes ok: "bhOk policy w" and new: "i \<notin> set (callers w)" and limits: "0 \<le> bpMaxQueued policy"
  shows "bhOk policy (callAcquire policy i budget w)"
proof -
  let ?b = "bwBulkhead w"
  consider "bhInFlight ?b < bpMaxConcurrent policy"
    | "\<not> bhInFlight ?b < bpMaxConcurrent policy" "waitBudget policy budget = 0"
    | "\<not> bhInFlight ?b < bpMaxConcurrent policy" "waitBudget policy budget \<noteq> 0" "int (length (bhWaiting ?b)) \<ge> bpMaxQueued policy"
    | "\<not> bhInFlight ?b < bpMaxConcurrent policy" "waitBudget policy budget \<noteq> 0" "int (length (bhWaiting ?b)) < bpMaxQueued policy"
    by linarith
  then show ?thesis
  proof cases
    case 4
    have "subseq ((bwHanded w @ map wtCaller (bhWaiting ?b)) @ [i]) (bwParked w @ [i])"
      using ok by (intro list_emb_append_mono) (auto simp: bhOk_def Let_def)
    then show ?thesis using 4 ok new by (auto simp: bhOk_def Let_def callAcquire_def acquire_def callers_def)
  qed (use ok new in \<open>auto simp: bhOk_def Let_def callAcquire_def acquire_def callers_def\<close>)
qed

lemma timer_ok:
  assumes ok: "bhOk policy w"
  shows "bhOk policy (fireTimer i w)"
proof (cases "find (\<lambda>x. wtCaller x = i) (bhWaiting (bwBulkhead w))")
  case None
  then show ?thesis using ok by (simp add: fireTimer_def waiterTimeout_def bhOk_def callers_def)
next
  case (Some x)
  note r = waiting_remove [OF Some]
  have w: "fireTimer i w = w\<lparr>bwTimers := (bwTimers w)(i := None), bwTimedOut := i # bwTimedOut w,
    bwBulkhead := (bwBulkhead w)\<lparr>bhWaiting := remove1 x (bhWaiting (bwBulkhead w)), bhQueueTimeout := bhQueueTimeout (bwBulkhead w) + 1\<rparr>\<rparr>"
    using Some by (simp add: fireTimer_def waiterTimeout_def)
  have "mset (callers (fireTimer i w)) = mset (callers w)" using r(4) by (simp add: w callers_def)
  then have d: "distinct (callers (fireTimer i w))" using ok mset_eq_imp_distinct_iff by (auto simp: bhOk_def Let_def)
  have "subseq (bwHanded w @ map wtCaller (remove1 x (bhWaiting (bwBulkhead w)))) (bwHanded w @ map wtCaller (bhWaiting (bwBulkhead w)))"
    using r(3) by (intro list_emb_append_mono) auto
  then have s: "subseq (bwHanded w @ map wtCaller (remove1 x (bhWaiting (bwBulkhead w)))) (bwParked w)"
    using ok subseq_order.trans by (auto simp: bhOk_def Let_def)
  show ?thesis using ok d s r(5) r(1) by (auto simp: w bhOk_def Let_def)
qed

lemma permit_ok:
  assumes ok: "bhOk policy w" and i: "i \<in> set (bwHolding w) \<union> set (bwReleased w)"
  shows "bhOk policy (callPermit i w)"
proof (cases "i \<in> set (bwReleased w)")
  case False
  then have h: "i \<in> set (bwHolding w)" using i by blast
  have len: "length (bwHolding w) = Suc (length (remove1 i (bwHolding w)))" using h by (simp add: length_remove1) (metis Suc_pred length_pos_if_in_set)
  have m: "mset (bwHolding w) = add_mset i (mset (remove1 i (bwHolding w)))" using h by simp
  have d: "distinct (callers w)" using ok by (simp add: bhOk_def Let_def)
  have "mset (callers (callPermit i w)) = mset (callers w)"
    using False m by (cases "bhWaiting (bwBulkhead w)") (simp_all add: callPermit_def releaseBulkhead_def callers_def)
  then have "distinct (callers (callPermit i w))" using d mset_eq_imp_distinct_iff by blast
  then show ?thesis using False ok len
    by (cases "bhWaiting (bwBulkhead w)") (auto simp: callPermit_def releaseBulkhead_def bhOk_def Let_def)
qed (use ok in \<open>simp add: callPermit_def\<close>)

lemma bhStep_ok:
  assumes "bhStep policy w w'" and "bhOk policy w" and "0 \<le> bpMaxQueued policy"
  shows "bhOk policy w'"
  using assms
proof cases
  case (BhTick d)
  then show ?thesis using assms(2) by (simp add: bhOk_def callers_def)
qed (use assms acquire_ok timer_ok permit_ok in auto)

lemma remove1_callers: "distinct (map wtCaller ws) \<Longrightarrow> x \<in> set ws \<Longrightarrow> wtCaller ` set (remove1 x ws) = wtCaller ` set ws - {wtCaller x} \<and> set (remove1 x ws) \<subseteq> set ws"
  by (induction ws) auto

lemma bhStep_timers:
  assumes "bhStep policy w w'" and ok: "bhOk policy w" and t: "timersOk policy w"
  shows "timersOk policy w'"
  using assms(1)
proof cases
  case (BhTick d)
  then show ?thesis using t by (simp add: timersOk_def)
next
  case (BhAcquire i budget)
  then have "i \<notin> wtCaller ` set (bhWaiting (bwBulkhead w))" by (auto simp: callers_def)
  moreover have "waitBudget policy budget \<noteq> 0 \<Longrightarrow> 0 < waitBudget policy budget \<and> waitBudget policy budget \<le> bpMaxQueueWaitMs policy"
    by (auto simp: waitBudget_def)
  ultimately show ?thesis using BhAcquire(1) t by (auto simp: timersOk_def callAcquire_def acquire_def Let_def)
next
  case (BhTimer i u)
  have d: "distinct (map wtCaller (bhWaiting (bwBulkhead w)))" using ok by (simp add: bhOk_def Let_def callers_def)
  show ?thesis
  proof (cases "find (\<lambda>x. wtCaller x = i) (bhWaiting (bwBulkhead w))")
    case None
    then have "i \<notin> wtCaller ` set (bhWaiting (bwBulkhead w))" by (auto simp: find_None_iff)
    then show ?thesis using BhTimer t by (auto simp: timersOk_def)
  next
    case (Some x)
    note r = waiting_remove [OF Some] and s = remove1_callers [OF d waiting_remove(1) [OF Some]]
    show ?thesis using BhTimer(1) Some t r(2) s by (auto simp: timersOk_def fireTimer_def waiterTimeout_def)
  qed
next
  case (BhPermit i)
  have d: "distinct (map wtCaller (bhWaiting (bwBulkhead w)))" using ok by (simp add: bhOk_def Let_def callers_def)
  then show ?thesis using BhPermit(1) t by (cases "bhWaiting (bwBulkhead w)") (auto simp: timersOk_def callPermit_def releaseBulkhead_def)
qed

lemma bh_reach:
  assumes "(bhStep policy)\<^sup>*\<^sup>* (bhStart now b) w" and "newBulkhead c q ms = Inr (policy, b)"
  shows "bhOk policy w \<and> timersOk policy w"
proof -
  have new: "0 \<le> bpMaxQueued policy" "bhOk policy (bhStart now b)" "timersOk policy (bhStart now b)"
    using assms(2) by (auto simp: newBulkhead_def bhOk_def timersOk_def bhStart_def callers_def split: jsNum.splits if_splits)
  from assms(1) show ?thesis
    by (induction rule: rtranclp_induct) (use new bhStep_ok bhStep_timers in blast)+
qed

definition demoPolicy :: bulkheadPolicy where
  "demoPolicy = \<lparr>bpMaxConcurrent = 1, bpMaxQueued = 1, bpMaxQueueWaitMs = 100\<rparr>"

definition demoBulkhead :: bulkhead where
  "demoBulkhead = \<lparr>bhInFlight = 0, bhWaiting = [], bhQueueFull = 0, bhQueueTimeout = 0\<rparr>"

definition demoCalls :: bhWorld where
  "demoCalls = callPermit 0 (callPermit 0 (callAcquire demoPolicy 2 None (callAcquire demoPolicy 1 None (callAcquire demoPolicy 0 None (bhStart 5 demoBulkhead)))))"

lemmas demo_bulkhead = demoCalls_def demoPolicy_def demoBulkhead_def callPermit_def callAcquire_def acquire_def releaseBulkhead_def bhStart_def waitBudget_def

lemma demo_calls_run: "(bhStep demoPolicy)\<^sup>*\<^sup>* (bhStart 5 demoBulkhead) demoCalls"
proof -
  let ?a = "callAcquire demoPolicy 0 None (bhStart 5 demoBulkhead)"
  let ?b = "callAcquire demoPolicy 1 None ?a"
  let ?c = "callAcquire demoPolicy 2 None ?b"
  have "bhStep demoPolicy (bhStart 5 demoBulkhead) ?a" by (rule BhAcquire) (simp add: bhStart_def callers_def demoBulkhead_def)
  moreover have "bhStep demoPolicy ?a ?b" by (rule BhAcquire) (simp add: callers_def demo_bulkhead)
  moreover have "bhStep demoPolicy ?b ?c" by (rule BhAcquire) (simp add: callers_def demo_bulkhead)
  moreover have "bhStep demoPolicy ?c (callPermit 0 ?c)" by (rule BhPermit) (simp add: demo_bulkhead)
  moreover have "bhStep demoPolicy (callPermit 0 ?c) demoCalls" unfolding demoCalls_def by (rule BhPermit) (simp add: demo_bulkhead)
  ultimately show ?thesis by (meson rtranclp.rtrancl_into_rtrancl rtranclp.rtrancl_refl)
qed

text \<open>
  C31. However callers arrive, wait, time out and give permits back, some of them twice: the calls in
  flight are exactly the permits held and never exceed the cap; nobody waits while a permit is free,
  the queue never exceeds its bound, and each waiter has a timer that ends its wait within the policy's limit;
  permits are handed to waiters in the order they queued; and each call is in one place only, with
  the two counters counting exactly the calls rejected for their reason.
\<close>

theorem bulkhead_exact:
  assumes "newBulkhead c q ms = Inr (policy, b)" and "(bhStep policy)\<^sup>*\<^sup>* (bhStart now b) w"
  shows "bsInFlight (bulkheadStatsOf policy (bwBulkhead w)) = int (length (bwHolding w)) \<and> int (length (bwHolding w)) \<le> bpMaxConcurrent policy
    \<and> int (length (bhWaiting (bwBulkhead w))) \<le> bpMaxQueued policy
    \<and> (bhWaiting (bwBulkhead w) \<noteq> [] \<longrightarrow> int (length (bwHolding w)) = bpMaxConcurrent policy)
    \<and> (\<forall>x \<in> set (bhWaiting (bwBulkhead w)). \<exists>t. bwTimers w (wtCaller x) = Some t \<and> t \<le> wtQueuedAt x + ms)
    \<and> subseq (bwHanded w @ map wtCaller (bhWaiting (bwBulkhead w))) (bwParked w)
    \<and> distinct (callers w)
    \<and> bsQueueFull (bulkheadStatsOf policy (bwBulkhead w)) = int (length (bwTurnedAway w))
    \<and> bsQueueTimeout (bulkheadStatsOf policy (bwBulkhead w)) = int (length (bwTimedOut w))"
proof -
  have ok: "bhOk policy w" "timersOk policy w" using bh_reach assms by blast+
  have "bpMaxQueueWaitMs policy = ms" using assms(1) by (auto simp: newBulkhead_def split: jsNum.splits if_splits)
  then have "\<exists>t. bwTimers w (wtCaller x) = Some t \<and> t \<le> wtQueuedAt x + ms" if "x \<in> set (bhWaiting (bwBulkhead w))" for x
    using ok(2) that unfolding timersOk_def by (metis domD imageI)
  then show ?thesis using ok(1) by (auto simp: bhOk_def Let_def bulkheadStatsOf_def)
qed

theorem bulkhead_exact_witness:
  "newBulkhead (IntNum 1) (IntNum 1) 100 = Inr (demoPolicy, demoBulkhead) \<and> (bhStep demoPolicy)\<^sup>*\<^sup>* (bhStart 5 demoBulkhead) demoCalls
   \<and> bwHolding demoCalls = [1] \<and> bwHanded demoCalls = [1] \<and> bwTurnedAway demoCalls = [2] \<and> bwReleased demoCalls = [0]
   \<and> bsInFlight (bulkheadStatsOf demoPolicy (bwBulkhead demoCalls)) = 1 \<and> bsQueueFull (bulkheadStatsOf demoPolicy (bwBulkhead demoCalls)) = 1"
proof -
  have new: "newBulkhead (IntNum 1) (IntNum 1) 100 = Inr (demoPolicy, demoBulkhead)" by (simp add: newBulkhead_def demoPolicy_def demoBulkhead_def)
  have "bwHolding demoCalls = [1]" "bwHanded demoCalls = [1]" "bwTurnedAway demoCalls = [2]" "bwReleased demoCalls = [0]" by (simp_all add: demo_bulkhead)
  then show ?thesis using bulkhead_exact [OF new demo_calls_run] new demo_calls_run by simp
qed

end
