(* ===== verification/Streaming.thy ===== *)
theory Streaming
  imports EventConsumer
begin

text \<open>
  Server-sent events: \<open>streaming/replay-buffer.ts\<close>, \<open>stream-cursor.ts\<close>, \<open>stream-visibility.ts\<close>,
  \<open>stream-frames.ts\<close> and \<open>event-stream.service.ts\<close>.

  A hub is one process, named by its epoch; any number of them run, and a client may reach another
  one each time it connects. What a hub writes to a connection arrives in order, but a connection may
  break at any time and lose what is still on the wire. A client keeps the last id it saw and sends
  it when it connects again, as the SSE specification asks.
\<close>

section \<open>The replay buffer\<close>

record 'a replayBuffer =
  rbSlots :: "'a option list"
  rbAppended :: nat

abbreviation bufCapacity :: "'a replayBuffer \<Rightarrow> nat" where
  "bufCapacity b \<equiv> length (rbSlots b)"

text \<open>\<open>None\<close> is the \<open>RangeError\<close>.\<close>

definition newReplayBuffer :: "jsNum \<Rightarrow> 'a replayBuffer option" where
  "newReplayBuffer capacity = (case capacity of
     FractionNum \<Rightarrow> None
   | IntNum n \<Rightarrow> if n < 1 then None else Some \<lparr>rbSlots = replicate (nat n) None, rbAppended = 0\<rparr>)"

definition bufAppend :: "'a \<Rightarrow> 'a replayBuffer \<Rightarrow> 'a replayBuffer" where
  "bufAppend entry b = b\<lparr>rbSlots := (rbSlots b)[rbAppended b mod bufCapacity b := Some entry], rbAppended := rbAppended b + 1\<rparr>"

definition bufSize :: "'a replayBuffer \<Rightarrow> nat" where
  "bufSize b = min (rbAppended b) (bufCapacity b)"

definition oldestIndex :: "'a replayBuffer \<Rightarrow> nat" where
  "oldestIndex b = rbAppended b - bufCapacity b"

record seqEvent =
  sqSeq :: nat
  sqEvent :: eventEnvelope

definition oldestSeq :: "seqEvent replayBuffer \<Rightarrow> nat option" where
  "oldestSeq b = map_option sqSeq (rbSlots b ! (oldestIndex b mod bufCapacity b))"

definition bufSince :: "nat \<Rightarrow> seqEvent replayBuffer \<Rightarrow> seqEvent list" where
  "bufSince seq b = concat (map (\<lambda>i. case rbSlots b ! (i mod bufCapacity b) of
       Some entry \<Rightarrow> if sqSeq entry > seq then [entry] else []
     | None \<Rightarrow> []) [oldestIndex b..<rbAppended b])"

section \<open>Cursors\<close>

definition isHexLower :: "char \<Rightarrow> bool" where
  "isHexLower c \<longleftrightarrow> isDigit c \<or> 97 \<le> (of_char c :: nat) \<and> (of_char c :: nat) \<le> 102"

definition isEpoch :: "string \<Rightarrow> bool" where
  "isEpoch e \<longleftrightarrow> length e = 32 \<and> list_all isHexLower e"

definition maxSeqDigits :: nat where
  "maxSeqDigits = 15"

definition formatCursor :: "string \<Rightarrow> nat \<Rightarrow> string" where
  "formatCursor epoch seq = epoch @ ''.'' @ decString seq"

text \<open>The pattern: the epoch, a dot, and digits without a leading zero.\<close>

definition parseCursor :: "string \<Rightarrow> (string \<times> nat) option" where
  "parseCursor raw = (let t = jsTrim raw; epoch = take 32 t; digits = drop 33 t in
     if isEpoch epoch \<and> take 1 (drop 32 t) = ''.'' \<and> digits \<noteq> [] \<and> list_all isDigit digits \<and> length digits \<le> maxSeqDigits
        \<and> (hd digits = CHR ''0'' \<longrightarrow> digits = ''0'')
     then Some (epoch, decValue digits) else None)"

section \<open>Visibility\<close>

record streamAudience =
  auId :: string
  auRole :: string

text \<open>Every payload of the catalogue names its user; \<open>partitionKeyFor\<close> reads it.\<close>

definition isVisibleTo :: "eventEnvelope \<Rightarrow> streamAudience \<Rightarrow> bool" where
  "isVisibleTo event audience \<longleftrightarrow> auRole audience = ''ADMIN'' \<or>
     (evName event \<in> {''user.registered'', ''user.deleted'', ''order.placed'', ''order.confirmed'', ''order.cancelled''} \<and>
      partitionKeyFor (evPayload event) = Some (auId audience))"

section \<open>Frames\<close>

datatype resumeGap = NoCursor | MalformedCursor | EpochChanged | BufferEvicted | CursorAhead

record streamOpen =
  soEpoch :: string
  soCursor :: string
  soResumed :: bool
  soReplayed :: nat
  soGap :: "resumeGap option"

datatype frameData = OpenData streamOpen | EventData eventEnvelope | NoData | ClosingData

record messageEvent =
  mvType :: string
  mvId :: string
  mvRetry :: "int option"
  mvData :: frameData

definition eventFrame :: "string \<Rightarrow> nat \<Rightarrow> eventEnvelope \<Rightarrow> messageEvent" where
  "eventFrame epoch seq event = \<lparr>mvType = evName event, mvId = formatCursor epoch seq, mvRetry = None, mvData = EventData event\<rparr>"

definition openFrame :: "string \<Rightarrow> nat \<Rightarrow> int \<Rightarrow> bool \<Rightarrow> nat \<Rightarrow> resumeGap option \<Rightarrow> messageEvent" where
  "openFrame epoch seq retryHintMs resumed replayed gap = \<lparr>mvType = ''stream.open'', mvId = formatCursor epoch seq, mvRetry = Some retryHintMs,
     mvData = OpenData \<lparr>soEpoch = epoch, soCursor = formatCursor epoch seq, soResumed = resumed, soReplayed = replayed, soGap = gap\<rparr>\<rparr>"

definition heartbeatFrame :: "string \<Rightarrow> nat \<Rightarrow> messageEvent" where
  "heartbeatFrame epoch seq = \<lparr>mvType = ''stream.heartbeat'', mvId = formatCursor epoch seq, mvRetry = None, mvData = NoData\<rparr>"

definition closingFrame :: "string \<Rightarrow> nat \<Rightarrow> messageEvent" where
  "closingFrame epoch seq = \<lparr>mvType = ''stream.closing'', mvId = formatCursor epoch seq, mvRetry = None, mvData = ClosingData\<rparr>"

section \<open>The hub\<close>

record streamOptions =
  spReplayBufferSize :: jsNum
  spMaxConnections :: int
  spRetryHintMs :: int

record streamHub =
  hbBuffer :: "seqEvent replayBuffer"
  hbSeq :: nat
  hbOpen :: int
  hbStopping :: bool

definition newHub :: "streamOptions \<Rightarrow> streamHub option" where
  "newHub opts = map_option (\<lambda>b. \<lparr>hbBuffer = b, hbSeq = 0, hbOpen = 0, hbStopping = False\<rparr>) (newReplayBuffer (spReplayBufferSize opts))"

definition hubSubscriptions :: "string list" where
  "hubSubscriptions = [''user.registered'', ''user.deleted'']"

text \<open>\<open>record\<close>: the entry, which every open stream is handed next, and the hub.\<close>

definition recordEvent :: "eventEnvelope \<Rightarrow> streamHub \<Rightarrow> seqEvent \<times> streamHub" where
  "recordEvent event h = (let entry = \<lparr>sqSeq = hbSeq h + 1, sqEvent = event\<rparr> in
     (entry, h\<lparr>hbSeq := hbSeq h + 1, hbBuffer := bufAppend entry (hbBuffer h)\<rparr>))"

record resume =
  rsFrom :: nat
  rsBacklog :: "seqEvent list"
  rsGap :: "resumeGap option"

definition resolveResume :: "string \<Rightarrow> streamHub \<Rightarrow> string option \<Rightarrow> resume" where
  "resolveResume epoch h lastEventId =
     (let live = \<lambda>gap. \<lparr>rsFrom = hbSeq h, rsBacklog = [], rsGap = Some gap\<rparr> in
      case lastEventId of
        None \<Rightarrow> live NoCursor
      | Some raw \<Rightarrow> if jsTrim raw = [] then live NoCursor else (case parseCursor raw of
          None \<Rightarrow> live MalformedCursor
        | Some (e, seq) \<Rightarrow>
            if e \<noteq> epoch then live EpochChanged
            else if seq > hbSeq h then live CursorAhead
            else if (case oldestSeq (hbBuffer h) of Some oldest \<Rightarrow> int seq < int oldest - 1 | None \<Rightarrow> False) then live BufferEvicted
            else \<lparr>rsFrom = seq, rsBacklog = bufSince seq (hbBuffer h), rsGap = None\<rparr>))"

text \<open>One entry through the stream of one connection: its cursor moves, and a visible event is written.\<close>

definition deliverEntry :: "string \<Rightarrow> streamAudience \<Rightarrow> seqEvent \<Rightarrow> nat \<times> messageEvent list \<Rightarrow> nat \<times> messageEvent list" where
  "deliverEntry epoch audience entry st = (sqSeq entry,
     if isVisibleTo (sqEvent entry) audience then snd st @ [eventFrame epoch (sqSeq entry) (sqEvent entry)] else snd st)"

record streamConn =
  scEpoch :: string
  scCursor :: nat
  scWire :: "messageEvent list"
  scLive :: bool

text \<open>
  \<open>connect\<close> up to the point where it waits for live events. \<open>Inl\<close> is the refusal; a hub that is
  stopping ends the stream at once, without its backlog.
\<close>

definition connectStream :: "streamOptions \<Rightarrow> string \<Rightarrow> streamAudience \<Rightarrow> string option \<Rightarrow> streamHub \<Rightarrow> (unit + streamConn) \<times> streamHub" where
  "connectStream opts epoch audience lastEventId h =
     (if hbOpen h \<ge> spMaxConnections opts then (Inl (), h)
      else let resume = resolveResume epoch h lastEventId;
               opening = openFrame epoch (rsFrom resume) (spRetryHintMs opts) (rsGap resume = None) (length (rsBacklog resume))
                 (if rsGap resume = Some NoCursor then None else rsGap resume)
        in if hbStopping h
           then (Inr \<lparr>scEpoch = epoch, scCursor = rsFrom resume, scWire = [opening, closingFrame epoch (rsFrom resume)], scLive = False\<rparr>, h)
           else let (cursor, frames) = fold (deliverEntry epoch audience) (rsBacklog resume) (rsFrom resume, [])
             in (Inr \<lparr>scEpoch = epoch, scCursor = cursor, scWire = opening # frames, scLive = True\<rparr>, h\<lparr>hbOpen := hbOpen h + 1\<rparr>))"

definition streamLive :: "streamAudience \<Rightarrow> seqEvent \<Rightarrow> streamConn \<Rightarrow> streamConn" where
  "streamLive audience entry k = (case deliverEntry (scEpoch k) audience entry (scCursor k, scWire k) of
     (cursor, frames) \<Rightarrow> k\<lparr>scCursor := cursor, scWire := frames\<rparr>)"

definition streamHeartbeat :: "streamConn \<Rightarrow> streamConn" where
  "streamHeartbeat k = k\<lparr>scWire := scWire k @ [heartbeatFrame (scEpoch k) (scCursor k)]\<rparr>"

definition streamFarewell :: "streamConn \<Rightarrow> streamConn" where
  "streamFarewell k = k\<lparr>scWire := scWire k @ [closingFrame (scEpoch k) (scCursor k)], scLive := False\<rparr>"

definition currentCursor :: "string \<Rightarrow> streamHub \<Rightarrow> string" where
  "currentCursor epoch h = formatCursor epoch (hbSeq h)"

section \<open>Clients\<close>

text \<open>
  \<open>ccSince\<close> is the id of the opening frame that last said the client may have missed something, or was
  its first; \<open>ccGot\<close> are the events since then.
\<close>

record streamClient =
  ccAudience :: streamAudience
  ccLastId :: "string option"
  ccSince :: "string option"
  ccGot :: "eventEnvelope list"
  ccConn :: "streamConn option"

definition readFrame :: "messageEvent \<Rightarrow> streamClient \<Rightarrow> streamClient" where
  "readFrame f c = (case mvData f of
     OpenData o' \<Rightarrow> if soResumed o' then c\<lparr>ccLastId := Some (mvId f)\<rparr> else c\<lparr>ccLastId := Some (mvId f), ccSince := Some (mvId f), ccGot := []\<rparr>
   | EventData e \<Rightarrow> c\<lparr>ccLastId := Some (mvId f), ccGot := ccGot c @ [e]\<rparr>
   | _ \<Rightarrow> c\<lparr>ccLastId := Some (mvId f)\<rparr>)"

record streamWorld =
  swHubs :: "string \<rightharpoonup> streamHub"
  swHistory :: "string \<Rightarrow> eventEnvelope list"
  swClients :: "nat \<rightharpoonup> streamClient"

definition onConn :: "(streamAudience \<Rightarrow> streamConn \<Rightarrow> streamConn) \<Rightarrow> streamClient \<Rightarrow> streamClient" where
  "onConn f c = c\<lparr>ccConn := map_option (f (ccAudience c)) (ccConn c)\<rparr>"

definition connectedTo :: "string \<Rightarrow> streamClient \<Rightarrow> bool" where
  "connectedTo e c \<longleftrightarrow> (case ccConn c of Some k \<Rightarrow> scEpoch k = e \<and> scLive k | None \<Rightarrow> False)"

inductive streamStep :: "streamOptions \<Rightarrow> streamWorld \<Rightarrow> streamWorld \<Rightarrow> bool" for opts where
  SwStart: "swHubs w e = None \<Longrightarrow> isEpoch e \<Longrightarrow> newHub opts = Some h \<Longrightarrow> streamStep opts w (w\<lparr>swHubs := (swHubs w)(e \<mapsto> h)\<rparr>)"
| SwRecord: "swHubs w e = Some h \<Longrightarrow> evName event \<in> set hubSubscriptions \<Longrightarrow> recordEvent event h = (entry, h') \<Longrightarrow>
    streamStep opts w (w\<lparr>swHubs := (swHubs w)(e \<mapsto> h'), swHistory := (swHistory w)(e := swHistory w e @ [event]),
      swClients := (\<lambda>i. map_option (\<lambda>c. if connectedTo e c then onConn (\<lambda>a. streamLive a entry) c else c) (swClients w i))\<rparr>)"
| SwArrive: "swClients w i = None \<Longrightarrow>
    streamStep opts w (w\<lparr>swClients := (swClients w)(i \<mapsto> \<lparr>ccAudience = a, ccLastId = None, ccSince = None, ccGot = [], ccConn = None\<rparr>)\<rparr>)"
| SwConnect: "swClients w i = Some c \<Longrightarrow> ccConn c = None \<Longrightarrow> swHubs w e = Some h \<Longrightarrow>
    connectStream opts e (ccAudience c) (ccLastId c) h = (Inr k, h') \<Longrightarrow>
    streamStep opts w (w\<lparr>swHubs := (swHubs w)(e \<mapsto> h'), swClients := (swClients w)(i \<mapsto> c\<lparr>ccConn := Some k\<rparr>)\<rparr>)"
| SwHeartbeat: "swClients w i = Some c \<Longrightarrow> ccConn c = Some k \<Longrightarrow> scLive k \<Longrightarrow>
    streamStep opts w (w\<lparr>swClients := (swClients w)(i \<mapsto> c\<lparr>ccConn := Some (streamHeartbeat k)\<rparr>)\<rparr>)"
| SwRead: "swClients w i = Some c \<Longrightarrow> ccConn c = Some k \<Longrightarrow> scWire k = f # fs \<Longrightarrow>
    streamStep opts w (w\<lparr>swClients := (swClients w)(i \<mapsto> readFrame f (c\<lparr>ccConn := Some (k\<lparr>scWire := fs\<rparr>)\<rparr>))\<rparr>)"
| SwLose: "swClients w i = Some c \<Longrightarrow> ccConn c = Some k \<Longrightarrow> swHubs w (scEpoch k) = Some h \<Longrightarrow>
    streamStep opts w (w\<lparr>swHubs := (swHubs w)(scEpoch k \<mapsto> (if scLive k then h\<lparr>hbOpen := hbOpen h - 1\<rparr> else h)),
      swClients := (swClients w)(i \<mapsto> c\<lparr>ccConn := None\<rparr>)\<rparr>)"
| SwShutdown: "swHubs w e = Some h \<Longrightarrow>
    streamStep opts w (w\<lparr>swHubs := (swHubs w)(e \<mapsto> h\<lparr>hbStopping := True, hbOpen := hbOpen h - int (card {i. \<exists>c. swClients w i = Some c \<and> connectedTo e c})\<rparr>),
      swClients := (\<lambda>i. map_option (\<lambda>c. if connectedTo e c then onConn (\<lambda>_. streamFarewell) c else c) (swClients w i))\<rparr>)"

definition streamStart :: streamWorld where
  "streamStart = \<lparr>swHubs = Map.empty, swHistory = (\<lambda>_. []), swClients = Map.empty\<rparr>"

section \<open>Cursors read back\<close>

lemma jsTrim_id: "list_all (\<lambda>c. \<not> isTrimmed c) s \<Longrightarrow> jsTrim s = s"
proof -
  have "dropWhile isTrimmed t = t" if "list_all (\<lambda>c. \<not> isTrimmed c) t" for t
    using that by (cases t) auto
  then show "list_all (\<lambda>c. \<not> isTrimmed c) s \<Longrightarrow> jsTrim s = s"
    by (simp add: jsTrim_def list_all_rev)
qed

lemma hex_not_trimmed: "isHexLower c \<Longrightarrow> \<not> isTrimmed c"
  by (auto simp: isHexLower_def isTrimmed_def isDigit_def)

lemma cursor_not_trimmed:
  assumes "isEpoch e"
  shows "jsTrim (formatCursor e n) = formatCursor e n"
proof (rule jsTrim_id)
  have "\<not> isTrimmed c" if "c \<in> set (decString n)" for c
    using decString_digits [OF that] by (auto simp: isTrimmed_def isDigit_def)
  moreover have "\<not> isTrimmed (CHR ''.'')" by (simp add: isTrimmed_def)
  ultimately show "list_all (\<lambda>c. \<not> isTrimmed c) (formatCursor e n)"
    using assms hex_not_trimmed by (auto simp: formatCursor_def list_all_iff isEpoch_def)
qed

lemma cursor_round_trip:
  assumes "isEpoch e"
  shows "parseCursor (formatCursor e n) = (if length (decString n) \<le> maxSeqDigits then Some (e, n) else None)"
proof -
  have l: "length e = 32" using assms by (simp add: isEpoch_def)
  have parts: "take 32 (formatCursor e n) = e" "take 1 (drop 32 (formatCursor e n)) = ''.''" "drop 33 (formatCursor e n) = decString n"
    using l by (simp_all add: formatCursor_def)
  have "list_all isDigit (decString n)" using decString_digits by (auto simp: list_all_iff)
  moreover have "hd (decString n) = CHR ''0'' \<Longrightarrow> decString n = ''0''"
    using decString_no_zero [of n] decString_nonempty [of n] by (metis list.collapse)
  ultimately show ?thesis
    using assms unfolding parseCursor_def Let_def cursor_not_trimmed [OF assms] parts by simp
qed

lemma formatCursor_inject:
  assumes "isEpoch e" and "isEpoch e'"
  shows "formatCursor e n = formatCursor e' m \<longleftrightarrow> e = e' \<and> n = m"
  using assms by (auto simp: formatCursor_def isEpoch_def decString_inject)

section \<open>The buffer holds the newest events\<close>

definition bufHolds :: "seqEvent replayBuffer \<Rightarrow> eventEnvelope list \<Rightarrow> bool" where
  "bufHolds b H \<longleftrightarrow> 0 < bufCapacity b \<and> rbAppended b = length H \<and> (H = [] \<longrightarrow> rbSlots b ! 0 = None) \<and>
     (\<forall>i. oldestIndex b \<le> i \<and> i < length H \<longrightarrow> rbSlots b ! (i mod bufCapacity b) = Some \<lparr>sqSeq = Suc i, sqEvent = H ! i\<rparr>)"

lemma window_apart:
  assumes "i < j" and "j < i + (n :: nat)"
  shows "i mod n \<noteq> j mod n"
proof
  assume "i mod n = j mod n"
  then have "n dvd j - i" using assms(1) mod_eq_dvd_iff_nat [of i j n] by simp
  then show False using assms by (auto dest: dvd_imp_le)
qed

lemma append_holds:
  assumes b: "bufHolds b H"
  shows "bufHolds (bufAppend \<lparr>sqSeq = Suc (length H), sqEvent = e\<rparr> b) (H @ [e])" (is "bufHolds ?b _")
proof -
  have cap: "0 < bufCapacity b" "rbAppended b = length H" "bufCapacity ?b = bufCapacity b" "rbAppended ?b = Suc (length H)"
    using b by (auto simp: bufHolds_def bufAppend_def)
  have "rbSlots ?b ! (i mod bufCapacity b) = Some \<lparr>sqSeq = Suc i, sqEvent = (H @ [e]) ! i\<rparr>"
    if "oldestIndex ?b \<le> i" "i < Suc (length H)" for i
  proof (cases "i = length H")
    case True
    then show ?thesis using cap by (simp add: bufAppend_def)
  next
    case False
    then have i: "i < length H" "length H < i + bufCapacity b" using that cap by (auto simp: oldestIndex_def)
    then have "rbSlots b ! (i mod bufCapacity b) = Some \<lparr>sqSeq = Suc i, sqEvent = H ! i\<rparr>"
      using b unfolding bufHolds_def oldestIndex_def by auto
    then show ?thesis using window_apart [OF i] i cap by (simp add: bufAppend_def nth_append)
  qed
  then show ?thesis using cap by (simp add: bufHolds_def)
qed

lemma concat_if: "concat (map (\<lambda>i. if P i then [f i] else []) xs) = map f (filter P xs)"
  by (induction xs) simp_all

lemma filter_from: "a \<le> s \<Longrightarrow> filter (\<lambda>i. s \<le> i) [a..<n] = [s..<n]"
  by (induction n) auto

lemma since_holds:
  assumes b: "bufHolds b H" and "oldestIndex b \<le> s"
  shows "bufSince s b = map (\<lambda>i. \<lparr>sqSeq = Suc i, sqEvent = H ! i\<rparr>) [s..<length H]"
proof -
  let ?e = "\<lambda>i. \<lparr>sqSeq = Suc i, sqEvent = H ! i\<rparr>"
  have "bufSince s b = concat (map (\<lambda>i. if s \<le> i then [?e i] else []) [oldestIndex b..<length H])"
    using b unfolding bufSince_def bufHolds_def by (intro arg_cong [where f = concat] map_cong) auto
  then show ?thesis using filter_from [OF assms(2)] by (simp add: concat_if)
qed

lemma oldest_holds:
  assumes "bufHolds b H"
  shows "oldestSeq b = (if H = [] then None else Some (Suc (oldestIndex b)))"
  using assms by (auto simp: bufHolds_def oldestSeq_def oldestIndex_def)

section \<open>What is on the wire\<close>

definition visibleIn :: "streamAudience \<Rightarrow> eventEnvelope list \<Rightarrow> nat \<Rightarrow> nat \<Rightarrow> eventEnvelope list" where
  "visibleIn a H p s = filter (\<lambda>e. isVisibleTo e a) (drop p (take s H))"

definition frameEvents :: "messageEvent \<Rightarrow> eventEnvelope list" where
  "frameEvents f = (case mvData f of EventData e \<Rightarrow> [e] | _ \<Rightarrow> [])"

definition isOpening :: "messageEvent \<Rightarrow> bool" where
  "isOpening f \<longleftrightarrow> (case mvData f of OpenData _ \<Rightarrow> True | _ \<Rightarrow> False)"

text \<open>Frames that take a client from position \<open>p\<close> to position \<open>c\<close> of the history without leaving anything out.\<close>

fun wireOk :: "string \<Rightarrow> eventEnvelope list \<Rightarrow> streamAudience \<Rightarrow> nat \<Rightarrow> messageEvent list \<Rightarrow> nat \<Rightarrow> bool" where
  "wireOk e H a p [] c \<longleftrightarrow> p \<le> c \<and> c \<le> length H \<and> visibleIn a H p c = []"
| "wireOk e H a p (f # fs) c \<longleftrightarrow> (\<exists>s. mvId f = formatCursor e s \<and> p \<le> s \<and> s \<le> length H \<and> \<not> isOpening f \<and>
     visibleIn a H p s = frameEvents f \<and> wireOk e H a s fs c)"

lemma visible_split: "p \<le> s \<Longrightarrow> s \<le> t \<Longrightarrow> visibleIn a H p t = visibleIn a H p s @ visibleIn a H s t"
proof -
  assume "p \<le> s" "s \<le> t"
  then have "take t H = take s H @ drop s (take t H)" using append_take_drop_id [of s "take t H"] by (simp add: min_absorb1)
  then have "drop p (take t H) = drop p (take s H @ drop s (take t H))" by simp
  also have "\<dots> = drop p (take s H) @ drop (p - length (take s H)) (drop s (take t H))" by (rule drop_append)
  finally have "drop p (take t H) = drop p (take s H) @ drop (p - length (take s H)) (drop s (take t H))" .
  moreover have "drop (p - length (take s H)) (drop s (take t H)) = drop s (take t H)"
    using \<open>p \<le> s\<close> by (cases "s \<le> length H") simp_all
  ultimately show ?thesis by (simp add: visibleIn_def)
qed

lemma visible_grow: "s \<le> length H \<Longrightarrow> visibleIn a (H @ X) p s = visibleIn a H p s"
  by (simp add: visibleIn_def)

lemma visible_same [simp]: "visibleIn a H p p = []"
  by (simp add: visibleIn_def)

lemma visible_next: "p < length H \<Longrightarrow> visibleIn a H p (Suc p) = (if isVisibleTo (H ! p) a then [H ! p] else [])"
  by (simp add: visibleIn_def take_Suc_conv_app_nth drop_Cons')

lemma wire_grow: "wireOk e H a p fs c \<Longrightarrow> wireOk e (H @ X) a p fs c"
proof (induction fs arbitrary: p)
  case Nil
  then show ?case by (simp add: visible_grow)
next
  case (Cons f fs)
  then obtain s where "mvId f = formatCursor e s" "p \<le> s" "s \<le> length H" "\<not> isOpening f" "visibleIn a H p s = frameEvents f" "wireOk e H a s fs c" by auto
  moreover have "visibleIn a (H @ X) p s = visibleIn a H p s" using \<open>s \<le> length H\<close> by (rule visible_grow)
  ultimately show ?case using Cons.IH [of s] by (simp only: wireOk.simps, intro exI [of _ s]) simp
qed

lemma wire_bounds: "wireOk e H a p fs c \<Longrightarrow> p \<le> c \<and> c \<le> length H"
proof (induction fs arbitrary: p)
  case (Cons f fs)
  then obtain s where "p \<le> s" "wireOk e H a s fs c" by auto
  then show ?case using Cons.IH by fastforce
qed simp

lemma wire_skip: "wireOk e H a p fs c \<Longrightarrow> c \<le> s \<Longrightarrow> s \<le> length H \<Longrightarrow> visibleIn a H c s = [] \<Longrightarrow> wireOk e H a p fs s"
proof (induction fs arbitrary: p)
  case Nil
  then show ?case using visible_split [of p c s a H] by simp
next
  case (Cons f fs)
  then show ?case by (simp, blast)
qed

lemma wire_snoc:
  assumes "wireOk e H a p fs c" and "c \<le> s" and "s \<le> length H" and "visibleIn a H c s = frameEvents f" and "mvId f = formatCursor e s" and "\<not> isOpening f"
  shows "wireOk e H a p (fs @ [f]) s"
  using assms(1)
proof (induction fs arbitrary: p)
  case Nil
  then have "visibleIn a H p s = frameEvents f" using visible_split [of p c s a H] assms(2,4) by simp
  then show ?case using Nil assms by (simp, intro exI [of _ s]) simp
next
  case (Cons g fs)
  then show ?case by (simp, blast)
qed

lemma wire_deliver:
  assumes "wireOk e H a p fs c" and "c < length H"
  shows "case deliverEntry e a \<lparr>sqSeq = Suc c, sqEvent = H ! c\<rparr> (c, fs) of (c', fs') \<Rightarrow> c' = Suc c \<and> wireOk e H a p fs' (Suc c)"
proof (cases "isVisibleTo (H ! c) a")
  case True
  then have "wireOk e H a p (fs @ [eventFrame e (Suc c) (H ! c)]) (Suc c)"
    using assms by (intro wire_snoc [OF assms(1)]) (auto simp: visible_next frameEvents_def eventFrame_def isOpening_def)
  then show ?thesis using True by (simp add: deliverEntry_def)
next
  case False
  then show ?thesis using assms by (auto simp: deliverEntry_def visible_next intro!: wire_skip [OF assms(1)])
qed

lemma wire_backlog:
  assumes "wireOk e H a p fs c" and "c \<le> length H"
  shows "case fold (deliverEntry e a) (map (\<lambda>i. \<lparr>sqSeq = Suc i, sqEvent = H ! i\<rparr>) [c..<length H]) (c, fs) of
    (c', fs') \<Rightarrow> c' = length H \<and> wireOk e H a p fs' c'"
  using assms
proof (induction "length H - c" arbitrary: c fs)
  case 0
  then show ?case by simp
next
  case (Suc n)
  then have c: "c < length H" by simp
  obtain c' fs' where d: "deliverEntry e a \<lparr>sqSeq = Suc c, sqEvent = H ! c\<rparr> (c, fs) = (c', fs')" by fastforce
  have "c' = Suc c" "wireOk e H a p fs' (Suc c)" using wire_deliver [OF Suc.prems(1) c] d by simp_all
  then show ?case using Suc.hyps(1) [of "Suc c" fs'] Suc.hyps(2) c d by (simp add: upt_conv_Cons)
qed

section \<open>The invariant\<close>

definition hubOk :: "string \<Rightarrow> streamHub \<Rightarrow> eventEnvelope list \<Rightarrow> bool" where
  "hubOk e h H \<longleftrightarrow> isEpoch e \<and> bufHolds (hbBuffer h) H \<and> hbSeq h = length H"

definition clientOk :: "streamWorld \<Rightarrow> streamClient \<Rightarrow> bool" where
  "clientOk w c \<longleftrightarrow> (ccLastId c = None \<and> ccSince c = None \<and> ccGot c = []) \<or>
     (\<exists>e b s. isEpoch e \<and> ccSince c = Some (formatCursor e b) \<and> ccLastId c = Some (formatCursor e s) \<and> b \<le> s \<and>
        s \<le> length (swHistory w e) \<and> ccGot c = visibleIn (ccAudience c) (swHistory w e) b s)"

definition connOk :: "streamWorld \<Rightarrow> streamClient \<Rightarrow> streamConn \<Rightarrow> bool" where
  "connOk w c k \<longleftrightarrow> (let e = scEpoch k; H = swHistory w e in isEpoch e \<and> swHubs w e \<noteq> None \<and> (scLive k \<longrightarrow> scCursor k = length H) \<and>
     ((\<exists>p. ccLastId c = Some (formatCursor e p) \<and> wireOk e H (ccAudience c) p (scWire k) (scCursor k)) \<or>
      (\<exists>f fs o' p. scWire k = f # fs \<and> mvData f = OpenData o' \<and> mvId f = formatCursor e p \<and> wireOk e H (ccAudience c) p fs (scCursor k) \<and>
         (soResumed o' \<longrightarrow> ccLastId c = Some (formatCursor e p)))))"

definition streamInv :: "streamWorld \<Rightarrow> bool" where
  "streamInv w \<longleftrightarrow> (\<forall>e. case swHubs w e of Some h \<Rightarrow> hubOk e h (swHistory w e) | None \<Rightarrow> swHistory w e = []) \<and>
     (\<forall>i c. swClients w i = Some c \<longrightarrow> clientOk w c \<and> (\<forall>k. ccConn c = Some k \<longrightarrow> connOk w c k))"

lemma resume_exact:
  assumes hub: "hubOk e h H" and c: "ccLastId c = None \<or> (\<exists>e' s. isEpoch e' \<and> ccLastId c = Some (formatCursor e' s))"
    and r: "r = resolveResume e h (ccLastId c)"
  shows "rsFrom r \<le> length H \<and> rsBacklog r = map (\<lambda>i. \<lparr>sqSeq = Suc i, sqEvent = H ! i\<rparr>) [rsFrom r..<length H] \<and>
    (rsGap r = None \<longrightarrow> ccLastId c = Some (formatCursor e (rsFrom r)))"
proof (cases "ccLastId c")
  case None
  then show ?thesis using hub r by (simp add: resolveResume_def Let_def hubOk_def)
next
  case (Some raw)
  then obtain e' s where e': "isEpoch e'" "raw = formatCursor e' s" using c by auto
  have ne: "jsTrim raw \<noteq> []" using cursor_not_trimmed [OF e'(1), of s] e'(2) by (simp add: formatCursor_def)
  have H: "hbSeq h = length H" "bufHolds (hbBuffer h) H" using hub by (auto simp: hubOk_def)
  show ?thesis
  proof (cases "parseCursor raw = None \<or> e' \<noteq> e \<or> length H < s \<or> (H \<noteq> [] \<and> s < oldestIndex (hbBuffer h))")
    case True
    then show ?thesis using Some r ne H(1) oldest_holds [OF H(2)] cursor_round_trip [OF e'(1), of s] e'(2)
      by (auto simp: resolveResume_def Let_def split: if_splits)
  next
    case False
    then have "oldestIndex (hbBuffer h) \<le> s" using H(2) by (cases "H = []") (auto simp: bufHolds_def oldestIndex_def)
    from since_holds [OF H(2) this] show ?thesis
      using False Some r ne H(1) oldest_holds [OF H(2)] cursor_round_trip [OF e'(1), of s] e'(2)
      by (auto simp: resolveResume_def Let_def split: if_splits)
  qed
qed

lemma clientOk_lastId: "clientOk w c \<Longrightarrow> ccLastId c = None \<or> (\<exists>e' s. isEpoch e' \<and> ccLastId c = Some (formatCursor e' s))"
  by (auto simp: clientOk_def)

lemma connect_ok:
  assumes hub: "hubOk e h (swHistory w e)" and c: "clientOk w c" and k: "connectStream opts e (ccAudience c) (ccLastId c) h = (Inr k, h')"
    and there: "swHubs w e \<noteq> None"
  shows "connOk w c k" and "hubOk e h' (swHistory w e)"
proof -
  let ?H = "swHistory w e" and ?r = "resolveResume e h (ccLastId c)" and ?a = "ccAudience c"
  note r = resume_exact [OF hub clientOk_lastId [OF c] refl]
  let ?o = "openFrame e (rsFrom ?r) (spRetryHintMs opts) (rsGap ?r = None) (length (rsBacklog ?r)) (if rsGap ?r = Some NoCursor then None else rsGap ?r)"
  have first: "\<exists>o'. mvData ?o = OpenData o' \<and> (soResumed o' \<longrightarrow> ccLastId c = Some (formatCursor e (rsFrom ?r)))" "mvId ?o = formatCursor e (rsFrom ?r)"
    using r by (auto simp: openFrame_def)
  have e: "isEpoch e" using hub by (simp add: hubOk_def)
  have start: "wireOk e ?H ?a (rsFrom ?r) [] (rsFrom ?r)" using r by simp
  have unread: "connOk w c k" if "scEpoch k = e" "scWire k = ?o # fs" "wireOk e ?H ?a (rsFrom ?r) fs (scCursor k)" "scLive k \<longrightarrow> scCursor k = length ?H" for fs
    unfolding connOk_def Let_def using that first e there by auto
  show "hubOk e h' ?H" using hub k by (auto simp: connectStream_def Let_def hubOk_def split: if_splits prod.splits)
  show "connOk w c k"
  proof (cases "hbStopping h")
    case True
    then have "k = \<lparr>scEpoch = e, scCursor = rsFrom ?r, scWire = [?o, closingFrame e (rsFrom ?r)], scLive = False\<rparr>"
      using k by (auto simp: connectStream_def Let_def split: if_splits)
    moreover have "wireOk e ?H ?a (rsFrom ?r) ([] @ [closingFrame e (rsFrom ?r)]) (rsFrom ?r)"
      using r by (intro wire_snoc [OF start]) (auto simp: closingFrame_def frameEvents_def isOpening_def)
    ultimately show ?thesis using unread [of "[closingFrame e (rsFrom ?r)]"] by (simp del: wireOk.simps)
  next
    case False
    obtain cursor fs where f: "fold (deliverEntry e ?a) (rsBacklog ?r) (rsFrom ?r, []) = (cursor, fs)" by fastforce
    have "k = \<lparr>scEpoch = e, scCursor = cursor, scWire = ?o # fs, scLive = True\<rparr>"
      using k False f by (auto simp: connectStream_def Let_def split: if_splits)
    moreover have "cursor = length ?H \<and> wireOk e ?H ?a (rsFrom ?r) fs cursor"
      using wire_backlog [OF start] r f by auto
    ultimately show ?thesis by (intro unread) auto
  qed
qed

lemma clientOk_cong:
  assumes "clientOk w c" and "\<And>e. \<exists>X. swHistory w' e = swHistory w e @ X" and "ccAudience c' = ccAudience c" and "ccLastId c' = ccLastId c" and "ccSince c' = ccSince c" and "ccGot c' = ccGot c"
  shows "clientOk w' c'"
proof (cases "ccLastId c")
  case None
  then show ?thesis using assms by (auto simp: clientOk_def)
next
  case (Some l)
  then obtain e b s where s: "isEpoch e" "ccSince c = Some (formatCursor e b)" "ccLastId c = Some (formatCursor e s)" "b \<le> s"
      "s \<le> length (swHistory w e)" "ccGot c = visibleIn (ccAudience c) (swHistory w e) b s"
    using assms(1) by (auto simp: clientOk_def)
  obtain X where X: "swHistory w' e = swHistory w e @ X" using assms(2) by blast
  have "ccGot c' = visibleIn (ccAudience c') (swHistory w' e) b s" "s \<le> length (swHistory w' e)"
    using s X assms(3,6) by (simp_all add: visible_grow)
  then show ?thesis using s assms(4,5) unfolding clientOk_def by metis
qed

text \<open>A connection whose wire ends in something that follows from where it was stays in order.\<close>

lemma connOk_wire:
  assumes ok: "connOk w c k" and k': "scEpoch k' = scEpoch k" "scWire k' = scWire k @ more'" and c': "ccLastId c' = ccLastId c" "ccAudience c' = ccAudience c"
    and H: "swHistory w' (scEpoch k) = H'" and hub: "swHubs w' (scEpoch k) \<noteq> None" and live: "scLive k' \<longrightarrow> scCursor k' = length H'"
    and step: "\<And>p fs. wireOk (scEpoch k) (swHistory w (scEpoch k)) (ccAudience c) p fs (scCursor k) \<Longrightarrow> wireOk (scEpoch k) H' (ccAudience c) p (fs @ more') (scCursor k')"
  shows "connOk w' c' k'"
proof -
  let ?e = "scEpoch k" and ?H = "swHistory w (scEpoch k)" and ?a = "ccAudience c"
  have e: "isEpoch ?e" using ok by (simp add: connOk_def Let_def)
  consider p where "ccLastId c = Some (formatCursor ?e p)" "wireOk ?e ?H ?a p (scWire k) (scCursor k)"
    | f fs o' p where "scWire k = f # fs" "mvData f = OpenData o'" "mvId f = formatCursor ?e p" "wireOk ?e ?H ?a p fs (scCursor k)"
        "soResumed o' \<longrightarrow> ccLastId c = Some (formatCursor ?e p)"
    using ok by (auto simp: connOk_def Let_def)
  then show ?thesis
  proof cases
    case (1 p)
    then have "wireOk ?e H' ?a p (scWire k') (scCursor k')" using step k'(2) by simp
    then show ?thesis using 1(1) e k'(1) c' H hub live unfolding connOk_def Let_def by auto
  next
    case (2 f fs o' p)
    then have "wireOk ?e H' ?a p (fs @ more') (scCursor k')" "scWire k' = f # (fs @ more')" using step k'(2) by simp_all
    then show ?thesis using 2(2,3,5) e k'(1) c' H hub live unfolding connOk_def Let_def by auto
  qed
qed

lemma live_ok:
  assumes ok: "connOk w c k" and l: "scLive k" and H: "swHistory w' (scEpoch k) = swHistory w (scEpoch k) @ [event]" and hub: "swHubs w' (scEpoch k) \<noteq> None"
    and c': "ccLastId c' = ccLastId c" "ccAudience c' = ccAudience c"
  shows "connOk w' c' (streamLive (ccAudience c) \<lparr>sqSeq = Suc (length (swHistory w (scEpoch k))), sqEvent = event\<rparr> k)"
proof -
  let ?e = "scEpoch k" and ?H = "swHistory w (scEpoch k)" and ?a = "ccAudience c"
  define more' where "more' = (if isVisibleTo event ?a then [eventFrame ?e (Suc (length ?H)) event] else [])"
  have cur: "scCursor k = length ?H" using ok l by (simp add: connOk_def Let_def)
  have st: "streamLive ?a \<lparr>sqSeq = Suc (length ?H), sqEvent = event\<rparr> k = k\<lparr>scCursor := Suc (length ?H), scWire := scWire k @ more'\<rparr>"
    by (simp add: streamLive_def deliverEntry_def more'_def)
  have "wireOk ?e (?H @ [event]) ?a p (fs @ more') (Suc (length ?H))" if "wireOk ?e ?H ?a p fs (scCursor k)" for p fs
    using wire_deliver [OF wire_grow [OF that, of "[event]"]] cur by (auto simp: deliverEntry_def more'_def split: if_splits)
  then show ?thesis unfolding st using ok H hub c' cur by (intro connOk_wire [OF ok]) auto
qed

lemma frame_at_cursor:
  assumes ok: "connOk w c k" and f: "mvId f = formatCursor (scEpoch k) (scCursor k)" "frameEvents f = []" "\<not> isOpening f"
    and k': "scEpoch k' = scEpoch k" "scWire k' = scWire k @ [f]" "scCursor k' = scCursor k" "scLive k' \<longrightarrow> scLive k"
    and w': "swHistory w' = swHistory w" "swHubs w' (scEpoch k) \<noteq> None" and c': "ccLastId c' = ccLastId c" "ccAudience c' = ccAudience c"
  shows "connOk w' c' k'"
proof (rule connOk_wire [OF ok k'(1,2) c' refl w'(2)])
  show "wireOk (scEpoch k) (swHistory w' (scEpoch k)) (ccAudience c) p (fs @ [f]) (scCursor k')"
    if "wireOk (scEpoch k) (swHistory w (scEpoch k)) (ccAudience c) p fs (scCursor k)" for p fs
    using wire_snoc [OF that] wire_bounds [OF that] f k'(3) w'(1) by simp
  show "scLive k' \<longrightarrow> scCursor k' = length (swHistory w' (scEpoch k))" using ok k' w'(1) by (simp add: connOk_def Let_def)
qed

lemma connOk_same:
  assumes "connOk w c k" and "swHistory w' (scEpoch k) = swHistory w (scEpoch k) @ X" and "scLive k \<longrightarrow> X = []" and "swHubs w' (scEpoch k) \<noteq> None"
    and "ccLastId c' = ccLastId c" "ccAudience c' = ccAudience c"
  shows "connOk w' c' k"
proof (rule connOk_wire [OF assms(1), where more' = "[]"])
  show "scLive k \<longrightarrow> scCursor k = length (swHistory w' (scEpoch k))" using assms(1-3) by (auto simp: connOk_def Let_def)
qed (use assms in \<open>auto intro: wire_grow\<close>)

lemma read_ok:
  assumes c: "clientOk w c" and ok: "connOk w c k" and wire: "scWire k = f # fs"
  shows "clientOk w (readFrame f (c\<lparr>ccConn := Some (k\<lparr>scWire := fs\<rparr>)\<rparr>)) \<and> connOk w (readFrame f (c\<lparr>ccConn := Some (k\<lparr>scWire := fs\<rparr>)\<rparr>)) (k\<lparr>scWire := fs\<rparr>)"
proof -
  let ?e = "scEpoch k" and ?H = "swHistory w (scEpoch k)" and ?a = "ccAudience c"
  let ?c = "readFrame f (c\<lparr>ccConn := Some (k\<lparr>scWire := fs\<rparr>)\<rparr>)"
  have e: "isEpoch ?e" and there: "swHubs w ?e \<noteq> None" and live: "scLive k \<longrightarrow> scCursor k = length ?H" using ok by (simp_all add: connOk_def Let_def)
  have id: "ccLastId ?c = Some (mvId f)" "ccAudience ?c = ?a" by (simp_all add: readFrame_def split: frameData.splits)
  have conn: "connOk w ?c (k\<lparr>scWire := fs\<rparr>)" if "mvId f = formatCursor ?e s" "wireOk ?e ?H ?a s fs (scCursor k)" for s
    unfolding connOk_def Let_def using that e there live id by auto
  have on: "clientOk w c'" if l: "ccLastId c = Some (formatCursor ?e p)" and seg: "p \<le> s" "s \<le> length ?H" "ccAudience c' = ?a" "ccSince c' = ccSince c"
      "ccLastId c' = Some (formatCursor ?e s)" "ccGot c' = ccGot c @ visibleIn ?a ?H p s" for c' p s
  proof -
    obtain b where "ccSince c = Some (formatCursor ?e b)" "b \<le> p" "ccGot c = visibleIn ?a ?H b p"
      using c l formatCursor_inject [OF e] by (auto simp: clientOk_def)
    then show ?thesis using seg e visible_split [of b p s ?a ?H] unfolding clientOk_def by (metis le_trans)
  qed
  consider p where "ccLastId c = Some (formatCursor ?e p)" "wireOk ?e ?H ?a p (f # fs) (scCursor k)"
    | o' p where "mvData f = OpenData o'" "mvId f = formatCursor ?e p" "wireOk ?e ?H ?a p fs (scCursor k)"
        "soResumed o' \<longrightarrow> ccLastId c = Some (formatCursor ?e p)"
    using ok wire by (auto simp: connOk_def Let_def)
  then show ?thesis
  proof cases
    case (1 p)
    then obtain s where s: "mvId f = formatCursor ?e s" "p \<le> s" "s \<le> length ?H" "\<not> isOpening f" "visibleIn ?a ?H p s = frameEvents f" "wireOk ?e ?H ?a s fs (scCursor k)"
      by auto
    then have "clientOk w ?c" by (intro on [OF 1(1) s(2,3)]) (auto simp: readFrame_def frameEvents_def isOpening_def split: frameData.splits)
    then show ?thesis using conn s by blast
  next
    case (2 o' p)
    have p: "p \<le> length ?H" using wire_bounds [OF 2(3)] by simp
    have "clientOk w ?c"
    proof (cases "soResumed o'")
      case True
      then show ?thesis using 2 p by (intro on [of p p]) (auto simp: readFrame_def)
    next
      case False
      then show ?thesis using 2(1,2) e p unfolding clientOk_def by (intro disjI2 exI [of _ ?e] exI [of _ p]) (simp add: readFrame_def)
    qed
    then show ?thesis using conn 2 by blast
  qed
qed

lemma streamInvI:
  assumes "\<And>e h. swHubs w e = Some h \<Longrightarrow> hubOk e h (swHistory w e)" and "\<And>e. swHubs w e = None \<Longrightarrow> swHistory w e = []"
    and "\<And>i c. swClients w i = Some c \<Longrightarrow> clientOk w c" and "\<And>i c k. swClients w i = Some c \<Longrightarrow> ccConn c = Some k \<Longrightarrow> connOk w c k"
  shows "streamInv w"
  unfolding streamInv_def using assms by (auto split: option.splits)

lemma streamInvD:
  assumes "streamInv w"
  shows "swHubs w e = Some h \<Longrightarrow> hubOk e h (swHistory w e)" and "swHubs w e = None \<Longrightarrow> swHistory w e = []"
    and "swClients w i = Some c \<Longrightarrow> clientOk w c" and "swClients w i = Some c \<Longrightarrow> ccConn c = Some k \<Longrightarrow> connOk w c k"
proof -
  have hubs: "case swHubs w e of Some h \<Rightarrow> hubOk e h (swHistory w e) | None \<Rightarrow> swHistory w e = []" for e using assms unfolding streamInv_def by blast
  show "swHubs w e = Some h \<Longrightarrow> hubOk e h (swHistory w e)" "swHubs w e = None \<Longrightarrow> swHistory w e = []" using hubs [of e] by simp_all
  show "swClients w i = Some c \<Longrightarrow> clientOk w c" "swClients w i = Some c \<Longrightarrow> ccConn c = Some k \<Longrightarrow> connOk w c k"
    using assms unfolding streamInv_def by blast+
qed

text \<open>A step that leaves every history alone and touches one client.\<close>

lemma one_client:
  assumes inv: "streamInv w" and w': "swHistory w' = swHistory w" "\<And>e h. swHubs w' e = Some h \<Longrightarrow> hubOk e h (swHistory w e)" "dom (swHubs w) = dom (swHubs w')"
    and cl: "swClients w' = (swClients w)(i \<mapsto> c')" and c': "clientOk w' c'" "\<And>k. ccConn c' = Some k \<Longrightarrow> connOk w' c' k"
  shows "streamInv w'"
proof (rule streamInvI)
  show "swHistory w' e = []" if "swHubs w' e = None" for e using that streamInvD(2) [OF inv, of e] w' by (metis domIff)
  show "clientOk w' c" if "swClients w' j = Some c" for j c
    using that cl c'(1) clientOk_cong [OF streamInvD(3) [OF inv, of j c], of w' c] w'(1) by (cases "j = i") auto
  show "connOk w' c k" if "swClients w' j = Some c" "ccConn c = Some k" for j c k
  proof (cases "j = i")
    case False
    then have ok: "connOk w c k" using streamInvD(4) [OF inv, of j c k] that cl by simp
    then have "swHubs w (scEpoch k) \<noteq> None" by (simp add: connOk_def Let_def)
    then have "swHubs w' (scEpoch k) \<noteq> None" using w'(3) by (metis domIff)
    then show ?thesis using connOk_same [OF ok, of w' "[]"] w'(1) by simp
  qed (use that cl c'(2) in simp)
qed (use w' in simp)

text \<open>A step that touches every connection to one hub.\<close>

lemma all_connected:
  assumes inv: "streamInv w" and hist: "\<And>e'. \<exists>X. swHistory w' e' = swHistory w e' @ X \<and> (e' \<noteq> e \<longrightarrow> X = [])"
    and hubs: "swHubs w' = (swHubs w)(e \<mapsto> h')" "swHubs w e \<noteq> None" "hubOk e h' (swHistory w' e)"
    and cl: "swClients w' = (\<lambda>i. map_option (\<lambda>c. if connectedTo e c then onConn g c else c) (swClients w i))"
    and g: "\<And>c k. connOk w c k \<Longrightarrow> scEpoch k = e \<Longrightarrow> scLive k \<Longrightarrow> connOk w' (onConn g c) (g (ccAudience c) k)"
  shows "streamInv w'"
proof (rule streamInvI)
  show "hubOk e' h (swHistory w' e')" if "swHubs w' e' = Some h" for e' h
    using that hubs streamInvD(1) [OF inv, of e' h] hist [of e'] by (auto split: if_splits)
  show "swHistory w' e' = []" if "swHubs w' e' = None" for e'
    using that hubs streamInvD(2) [OF inv, of e'] hist [of e'] by (auto split: if_splits)
  fix i c' assume c': "swClients w' i = Some c'"
  then obtain c where c: "swClients w i = Some c" "c' = (if connectedTo e c then onConn g c else c)" using cl by auto
  have grow: "\<exists>X. swHistory w' e' = swHistory w e' @ X" for e' using hist by blast
  show "clientOk w' c'" by (rule clientOk_cong [OF streamInvD(3) [OF inv c(1)] grow]) (simp_all add: c(2) onConn_def)
  fix k' assume k': "ccConn c' = Some k'"
  show "connOk w' c' k'"
  proof (cases "connectedTo e c")
    case True
    then obtain k where k: "ccConn c = Some k" "scEpoch k = e" "scLive k" by (auto simp: connectedTo_def split: option.splits)
    then show ?thesis using g [OF streamInvD(4) [OF inv c(1) k(1)] k(2,3)] k' c(2) True by (simp add: onConn_def)
  next
    case False
    then have k: "ccConn c = Some k'" "scEpoch k' = e \<longrightarrow> \<not> scLive k'" using c(2) k' by (auto simp: connectedTo_def)
    have ok: "connOk w c k'" by (rule streamInvD(4) [OF inv c(1) k(1)])
    then have there: "swHubs w' (scEpoch k') \<noteq> None" using hubs by (auto simp: connOk_def Let_def)
    obtain X where X: "swHistory w' (scEpoch k') = swHistory w (scEpoch k') @ X" "scEpoch k' \<noteq> e \<longrightarrow> X = []" using hist by blast
    show ?thesis by (rule connOk_same [OF ok X(1) _ there]) (use X(2) k(2) False c(2) in auto)
  qed
qed

lemma stream_step_inv:
  assumes "streamStep opts w w'" and inv: "streamInv w"
  shows "streamInv w'"
  using assms(1)
proof cases
  case (SwStart e h)
  have new: "hubOk e h []" using SwStart by (auto simp: newHub_def newReplayBuffer_def hubOk_def bufHolds_def split: jsNum.splits if_splits)
  have none: "swHistory w e = []" using streamInvD(2) [OF inv] SwStart(2) by blast
  show ?thesis
  proof (rule streamInvI)
    show "connOk w' c k" if "swClients w' i = Some c" "ccConn c = Some k" for i c k
    proof -
      have ok: "connOk w c k" using that SwStart(1) by (intro streamInvD(4) [OF inv]) simp_all
      then have there: "swHubs w (scEpoch k) \<noteq> None" by (simp add: connOk_def Let_def)
      show ?thesis by (rule connOk_same [OF ok, where X = "[]"]) (use SwStart(1) there in auto)
    qed
    show "clientOk w' c" if "swClients w' i = Some c" for i c
    proof (rule clientOk_cong [where c = c])
      show "clientOk w c" using that SwStart(1) by (intro streamInvD(3) [OF inv]) simp
    qed (use SwStart(1) in simp_all)
    show "hubOk e' h' (swHistory w' e')" if "swHubs w' e' = Some h'" for e' h'
      using that SwStart(1) new none streamInvD(1) [OF inv, of e' h'] by (cases "e' = e") simp_all
    show "swHistory w' e' = []" if "swHubs w' e' = None" for e'
      using that SwStart(1) none streamInvD(2) [OF inv, of e'] by (cases "e' = e") simp_all
  qed
next
  case (SwRecord e h event entry h')
  have hub: "hubOk e h (swHistory w e)" by (rule streamInvD(1) [OF inv SwRecord(2)])
  then have entry: "entry = \<lparr>sqSeq = Suc (length (swHistory w e)), sqEvent = event\<rparr>" and h': "hubOk e h' (swHistory w e @ [event])"
    using SwRecord(4) append_holds [of "hbBuffer h" "swHistory w e" event] by (auto simp: recordEvent_def Let_def hubOk_def)
  show ?thesis
  proof (rule all_connected [OF inv, where e = e and h' = h' and g = "\<lambda>a. streamLive a entry"])
    show "connOk w' (onConn (\<lambda>a. streamLive a entry) c) (streamLive (ccAudience c) entry k)" if "connOk w c k" "scEpoch k = e" "scLive k" for c k
      using live_ok [OF that(1,3), of w' event "onConn (\<lambda>a. streamLive a entry) c"] that(2) SwRecord(1) entry by (simp add: onConn_def)
  qed (use SwRecord h' in auto)
next
  case (SwArrive i a)
  show ?thesis
  proof (rule one_client [OF inv])
    show "swClients w' = (swClients w)(i \<mapsto> \<lparr>ccAudience = a, ccLastId = None, ccSince = None, ccGot = [], ccConn = None\<rparr>)" using SwArrive by simp
  qed (use SwArrive streamInvD(1) [OF inv] in \<open>auto simp: clientOk_def\<close>)
next
  case (SwConnect i c e h k h')
  have hub: "hubOk e h (swHistory w e)" by (rule streamInvD(1) [OF inv SwConnect(4)])
  have c: "clientOk w c" by (rule streamInvD(3) [OF inv SwConnect(2)])
  have there: "swHubs w e \<noteq> None" using SwConnect(4) by simp
  note k = connect_ok [OF hub c SwConnect(5) there]
  have e: "scEpoch k = e" using SwConnect(5) by (auto simp: connectStream_def Let_def split: if_splits prod.splits)
  show ?thesis
  proof (rule one_client [OF inv])
    show "swClients w' = (swClients w)(i \<mapsto> c\<lparr>ccConn := Some k\<rparr>)" using SwConnect by simp
    show "clientOk w' (c\<lparr>ccConn := Some k\<rparr>)" using clientOk_cong [OF c, of w' "c\<lparr>ccConn := Some k\<rparr>"] SwConnect(1) by simp
    show "connOk w' (c\<lparr>ccConn := Some k\<rparr>) k'" if "ccConn (c\<lparr>ccConn := Some k\<rparr>) = Some k'" for k'
      using that connOk_same [OF k(1), of w' "[]" "c\<lparr>ccConn := Some k\<rparr>"] SwConnect(1) e by simp
  qed (use SwConnect k streamInvD(1) [OF inv] in \<open>auto split: if_splits\<close>)
next
  case (SwHeartbeat i c k)
  have c: "clientOk w c" and k: "connOk w c k" using streamInvD(3,4) [OF inv] SwHeartbeat by blast+
  have "connOk w' (c\<lparr>ccConn := Some (streamHeartbeat k)\<rparr>) (streamHeartbeat k)"
    by (rule frame_at_cursor [OF k]) (use k SwHeartbeat in \<open>auto simp: streamHeartbeat_def heartbeatFrame_def frameEvents_def isOpening_def connOk_def Let_def\<close>)
  then show ?thesis using SwHeartbeat clientOk_cong [OF c, of w' "c\<lparr>ccConn := Some (streamHeartbeat k)\<rparr>"] streamInvD(1) [OF inv]
    by (intro one_client [OF inv, where i = i and c' = "c\<lparr>ccConn := Some (streamHeartbeat k)\<rparr>"]) auto
next
  case (SwRead i c k f fs)
  have c: "clientOk w c" and k: "connOk w c k" using streamInvD(3,4) [OF inv] SwRead by blast+
  let ?c = "readFrame f (c\<lparr>ccConn := Some (k\<lparr>scWire := fs\<rparr>)\<rparr>)"
  have "ccConn ?c = Some (k\<lparr>scWire := fs\<rparr>)" by (simp add: readFrame_def split: frameData.splits)
  moreover have "clientOk w' ?c" "connOk w' ?c (k\<lparr>scWire := fs\<rparr>)" using read_ok [OF c k SwRead(4)] SwRead(1) by (auto simp: clientOk_def connOk_def Let_def)
  ultimately show ?thesis using SwRead streamInvD(1) [OF inv] by (intro one_client [OF inv, where i = i and c' = ?c]) auto
next
  case (SwLose i c k h)
  have c: "clientOk w c" using streamInvD(3) [OF inv] SwLose by blast
  show ?thesis using SwLose clientOk_cong [OF c, of w' "c\<lparr>ccConn := None\<rparr>"] streamInvD(1) [OF inv]
    by (intro one_client [OF inv, where i = i and c' = "c\<lparr>ccConn := None\<rparr>"]) (auto simp: hubOk_def split: if_splits)
next
  case (SwShutdown e h)
  show ?thesis
  proof (rule all_connected [OF inv, where e = e and g = "\<lambda>_. streamFarewell"])
    show "connOk w' (onConn (\<lambda>_. streamFarewell) c) (streamFarewell k)" if "connOk w c k" "scEpoch k = e" "scLive k" for c k
      by (rule frame_at_cursor [OF that(1)]) (use that SwShutdown in \<open>auto simp: streamFarewell_def closingFrame_def frameEvents_def isOpening_def onConn_def\<close>)
  qed (use SwShutdown streamInvD(1) [OF inv SwShutdown(2)] in \<open>auto simp: hubOk_def\<close>)
qed

section \<open>Slots\<close>

definition connectedSet :: "string \<Rightarrow> streamWorld \<Rightarrow> nat set" where
  "connectedSet e w = {i. \<exists>c. swClients w i = Some c \<and> connectedTo e c}"

definition slotsOk :: "streamOptions \<Rightarrow> streamWorld \<Rightarrow> bool" where
  "slotsOk opts w \<longleftrightarrow> finite (dom (swClients w)) \<and> (\<forall>e. swHubs w e = None \<longrightarrow> connectedSet e w = {}) \<and>
     (\<forall>e h. swHubs w e = Some h \<longrightarrow> hbOpen h = int (card (connectedSet e w)) \<and> int (card (connectedSet e w)) \<le> max 0 (spMaxConnections opts))"

lemma connected_finite: "finite (dom (swClients w)) \<Longrightarrow> finite (connectedSet e w)"
  by (rule finite_subset) (auto simp: connectedSet_def)

lemma connected_update:
  "connectedSet e (w\<lparr>swHubs := hs, swHistory := hh, swClients := (swClients w)(i \<mapsto> c)\<rparr>) = (if connectedTo e c then insert i (connectedSet e w) else connectedSet e w - {i})"
  "connectedSet e (w\<lparr>swHubs := hs, swClients := (swClients w)(i \<mapsto> c)\<rparr>) = (if connectedTo e c then insert i (connectedSet e w) else connectedSet e w - {i})"
  "connectedSet e (w\<lparr>swClients := (swClients w)(i \<mapsto> c)\<rparr>) = (if connectedTo e c then insert i (connectedSet e w) else connectedSet e w - {i})"
  by (auto simp: connectedSet_def)

lemma member_connected: "swClients w i = Some c \<Longrightarrow> i \<in> connectedSet e w \<longleftrightarrow> connectedTo e c"
  by (simp add: connectedSet_def)

lemma connected_map:
  assumes "swClients w' = (\<lambda>i. map_option f (swClients w i))" and "\<And>c. connectedTo e (f c) = (P \<and> connectedTo e c)"
  shows "connectedSet e w' = (if P then connectedSet e w else {})"
proof -
  have "i \<in> connectedSet e w' \<longleftrightarrow> P \<and> i \<in> connectedSet e w" for i
    unfolding connectedSet_def using assms by (cases "swClients w i") auto
  then show ?thesis by auto
qed

lemma slots_client:
  assumes ok: "slotsOk opts w" and c: "swClients w i = Some c" and c': "\<And>e. connectedTo e c' = connectedTo e c"
    and w': "swHubs w' = swHubs w" "swClients w' = (swClients w)(i \<mapsto> c')"
  shows "slotsOk opts w'"
proof -
  have "connectedSet e w' = connectedSet e w" for e using c c' w'(2) by (auto simp: connectedSet_def)
  then show ?thesis using ok w' by (simp add: slotsOk_def)
qed

lemma stream_step_slots:
  assumes "streamStep opts w w'" and ok: "slotsOk opts w"
  shows "slotsOk opts w'"
  using assms(1)
proof cases
  case (SwStart e h)
  then have "hbOpen h = 0" by (auto simp: newHub_def)
  moreover have "connectedSet e' w' = connectedSet e' w" for e' using SwStart(1) by (simp add: connectedSet_def)
  ultimately show ?thesis using ok SwStart(1,2) by (auto simp: slotsOk_def)
next
  case (SwRecord e h event entry h')
  have "connectedTo e' (if connectedTo e c then onConn (\<lambda>a. streamLive a entry) c else c) = connectedTo e' c" for e' c
    by (auto simp: connectedTo_def onConn_def streamLive_def split: option.splits prod.splits)
  then have "connectedSet e' w' = connectedSet e' w" for e' using connected_map [of w' _ w e' True] SwRecord(1) by simp
  moreover have "hbOpen h' = hbOpen h" using SwRecord(4) by (auto simp: recordEvent_def Let_def)
  moreover have "dom (swClients w') = dom (swClients w)" using SwRecord(1) by (auto simp: dom_def)
  ultimately show ?thesis using ok SwRecord(1,2) by (auto simp: slotsOk_def)
next
  case (SwArrive i a)
  then have "connectedSet e w' = connectedSet e w" for e by (auto simp: connectedSet_def connectedTo_def)
  then show ?thesis using ok SwArrive(1) by (simp add: slotsOk_def)
next
  case (SwConnect i c e h k h')
  have i: "i \<notin> connectedSet e' w" for e' using SwConnect(2,3) by (auto simp: connectedSet_def connectedTo_def)
  have k: "scEpoch k = e" "hbOpen h < spMaxConnections opts" "hbOpen h' = (if scLive k then hbOpen h + 1 else hbOpen h)"
    using SwConnect(5) by (auto simp: connectStream_def Let_def split: if_splits prod.splits)
  have "connectedSet e' w' = (if e' = e \<and> scLive k then insert i (connectedSet e' w) else connectedSet e' w)" for e'
    using SwConnect(1) i [of e'] k(1) by (auto simp: connected_update connectedTo_def)
  then show ?thesis using ok SwConnect(1,4) k(2,3) i connected_finite by (auto simp: slotsOk_def)
next
  case (SwHeartbeat i c k)
  then show ?thesis by (intro slots_client [OF ok SwHeartbeat(2), of "c\<lparr>ccConn := Some (streamHeartbeat k)\<rparr>"]) (auto simp: connectedTo_def streamHeartbeat_def)
next
  case (SwRead i c k f fs)
  then show ?thesis by (intro slots_client [OF ok SwRead(2), of "readFrame f (c\<lparr>ccConn := Some (k\<lparr>scWire := fs\<rparr>)\<rparr>)"])
      (auto simp: connectedTo_def readFrame_def split: frameData.splits)
next
  case (SwLose i c k h)
  have i: "i \<in> connectedSet e w \<longleftrightarrow> e = scEpoch k \<and> scLive k" for e using SwLose(2,3) by (auto simp: connectedSet_def connectedTo_def)
  have s: "connectedSet e w' = connectedSet e w - {i}" for e using SwLose(1) by (simp add: connected_update connectedTo_def)
  have fin: "finite (connectedSet e w)" for e using ok connected_finite by (simp add: slotsOk_def)
  have "card (connectedSet (scEpoch k) w) = (if scLive k then Suc (card (connectedSet (scEpoch k) w - {i})) else card (connectedSet (scEpoch k) w - {i}))"
    using i [of "scEpoch k"] card_Suc_Diff1 [OF fin, of i "scEpoch k"] by auto
  moreover have "connectedSet e w - {i} = connectedSet e w" if "e \<noteq> scEpoch k" for e using i [of e] that by blast
  moreover have "hbOpen h = int (card (connectedSet (scEpoch k) w))" "int (card (connectedSet (scEpoch k) w)) \<le> max 0 (spMaxConnections opts)"
    using ok SwLose(4) by (auto simp: slotsOk_def)
  ultimately show ?thesis using ok SwLose(1,4) s by (cases "scLive k") (auto simp: slotsOk_def)
next
  case (SwShutdown e h)
  have "connectedTo e' (if connectedTo e c then onConn (\<lambda>_. streamFarewell) c else c) = (e' \<noteq> e \<and> connectedTo e' c)" for e' c
    by (auto simp: connectedTo_def onConn_def streamFarewell_def split: option.splits)
  then have s: "connectedSet e' w' = (if e' = e then {} else connectedSet e' w)" for e' using connected_map [of w' _ w e' "e' \<noteq> e"] SwShutdown(1) by simp
  have "{i. \<exists>c. swClients w i = Some c \<and> connectedTo e c} = connectedSet e w" by (simp add: connectedSet_def)
  moreover have "dom (swClients w') = dom (swClients w)" using SwShutdown(1) by (auto simp: dom_def)
  ultimately show ?thesis using ok SwShutdown(1,2) s by (auto simp: slotsOk_def)
qed

lemma stream_reach:
  assumes "(streamStep opts)\<^sup>*\<^sup>* streamStart w"
  shows "streamInv w" and "slotsOk opts w"
proof -
  have "streamInv w \<and> slotsOk opts w"
    using assms
  proof (induction rule: rtranclp_induct)
    case base
    show ?case by (auto simp: streamInv_def slotsOk_def streamStart_def connectedSet_def)
  next
    case (step w w')
    then show ?case using stream_step_inv stream_step_slots by blast
  qed
  then show "streamInv w" and "slotsOk opts w" by simp_all
qed

definition demoEpoch :: string where
  "demoEpoch = replicate 32 (CHR ''a'')"

definition demoEvent :: eventEnvelope where
  "demoEvent = \<lparr>evId = ''1'', evName = ''user.deleted'', evOccurredAt = ''t'', evCorrelation = None, evPayload = VObj [(''userId'', VStr ''u'')]\<rparr>"

definition demoStream :: streamOptions where
  "demoStream = \<lparr>spReplayBufferSize = IntNum 2, spMaxConnections = 5, spRetryHintMs = 3000\<rparr>"

lemma demo_stream_run:
  "\<exists>w c. (streamStep demoStream)\<^sup>*\<^sup>* streamStart w \<and> swClients w 0 = Some c \<and> ccLastId c = Some (formatCursor demoEpoch 1) \<and> ccGot c = [demoEvent]"
proof -
  let ?step = "streamStep demoStream"
  let ?a = "\<lparr>auId = ''u'', auRole = ''USER''\<rparr>"
  let ?hub = "\<lambda>b n k. \<lparr>hbBuffer = b, hbSeq = n, hbOpen = k, hbStopping = False\<rparr>"
  let ?b0 = "\<lparr>rbSlots = [None, None], rbAppended = 0\<rparr> :: seqEvent replayBuffer"
  let ?x = "\<lparr>sqSeq = 1, sqEvent = demoEvent\<rparr>"
  let ?b1 = "\<lparr>rbSlots = [Some ?x, None], rbAppended = 1\<rparr> :: seqEvent replayBuffer"
  let ?w = "\<lambda>h hist c. \<lparr>swHubs = [demoEpoch \<mapsto> h], swHistory = hist, swClients = c\<rparr>"
  let ?none = "(\<lambda>_. []) :: string \<Rightarrow> eventEnvelope list"
  let ?cl = "\<lambda>l s g k. [0 \<mapsto> \<lparr>ccAudience = ?a, ccLastId = l, ccSince = s, ccGot = g, ccConn = k\<rparr>] :: nat \<rightharpoonup> streamClient"
  let ?o = "openFrame demoEpoch 0 3000 False 0 None"
  let ?k = "\<lambda>c fs. Some \<lparr>scEpoch = demoEpoch, scCursor = c, scWire = fs, scLive = True\<rparr>"
  let ?id = "formatCursor demoEpoch"
  let ?ev = "eventFrame demoEpoch 1 demoEvent"
  have vis: "isVisibleTo demoEvent ?a" by (simp add: isVisibleTo_def demoEvent_def partitionKeyFor_def)
  have "?step streamStart (?w (?hub ?b0 0 0) ?none Map.empty)"
    using SwStart [of streamStart demoEpoch demoStream "?hub ?b0 0 0"]
    by (simp add: streamStart_def newHub_def newReplayBuffer_def demoStream_def isEpoch_def demoEpoch_def isHexLower_def numeral_2_eq_2 list_all_iff)
  moreover have "?step (?w (?hub ?b0 0 0) ?none Map.empty) (?w (?hub ?b0 0 0) ?none (?cl None None [] None))"
    using SwArrive [of "?w (?hub ?b0 0 0) ?none Map.empty" 0 demoStream ?a] by simp
  moreover have "?step (?w (?hub ?b0 0 0) ?none (?cl None None [] None)) (?w (?hub ?b0 0 1) ?none (?cl None None [] (?k 0 [?o])))"
    using SwConnect [of "?w (?hub ?b0 0 0) ?none (?cl None None [] None)" 0 "\<lparr>ccAudience = ?a, ccLastId = None, ccSince = None, ccGot = [], ccConn = None\<rparr>" demoEpoch
        "?hub ?b0 0 0" demoStream "the (?k 0 [?o])" "?hub ?b0 0 1"]
    by (simp add: connectStream_def resolveResume_def demoStream_def)
  moreover have "?step (?w (?hub ?b0 0 1) ?none (?cl None None [] (?k 0 [?o]))) (?w (?hub ?b0 0 1) ?none (?cl (Some (?id 0)) (Some (?id 0)) [] (?k 0 [])))"
    using SwRead [of "?w (?hub ?b0 0 1) ?none (?cl None None [] (?k 0 [?o]))" 0 "\<lparr>ccAudience = ?a, ccLastId = None, ccSince = None, ccGot = [], ccConn = ?k 0 [?o]\<rparr>"
        "the (?k 0 [?o])" ?o "[]" demoStream]
    by (simp add: readFrame_def openFrame_def)
  moreover have "?step (?w (?hub ?b0 0 1) ?none (?cl (Some (?id 0)) (Some (?id 0)) [] (?k 0 [])))
      (?w (?hub ?b1 1 1) (?none(demoEpoch := [demoEvent])) (?cl (Some (?id 0)) (Some (?id 0)) [] (?k 1 [?ev])))"
  proof -
    let ?c = "\<lparr>ccAudience = ?a, ccLastId = Some (?id 0), ccSince = Some (?id 0), ccGot = [], ccConn = ?k 0 []\<rparr>"
    have "(\<lambda>i. map_option (\<lambda>c. if connectedTo demoEpoch c then onConn (\<lambda>a. streamLive a ?x) c else c) ([0 \<mapsto> ?c] i)) = ?cl (Some (?id 0)) (Some (?id 0)) [] (?k 1 [?ev])"
      using vis by (auto simp: connectedTo_def onConn_def streamLive_def deliverEntry_def)
    then show ?thesis
      using SwRecord [of "?w (?hub ?b0 0 1) ?none [0 \<mapsto> ?c]" demoEpoch "?hub ?b0 0 1" demoEvent ?x "?hub ?b1 1 1" demoStream]
      by (simp add: recordEvent_def Let_def bufAppend_def hubSubscriptions_def demoEvent_def [THEN arg_cong, of evName])
  qed
  moreover have "?step (?w (?hub ?b1 1 1) (?none(demoEpoch := [demoEvent])) (?cl (Some (?id 0)) (Some (?id 0)) [] (?k 1 [?ev])))
      (?w (?hub ?b1 1 1) (?none(demoEpoch := [demoEvent])) (?cl (Some (?id 1)) (Some (?id 0)) [demoEvent] (?k 1 [])))"
    using SwRead [of "?w (?hub ?b1 1 1) (?none(demoEpoch := [demoEvent])) (?cl (Some (?id 0)) (Some (?id 0)) [] (?k 1 [?ev]))" 0
        "\<lparr>ccAudience = ?a, ccLastId = Some (?id 0), ccSince = Some (?id 0), ccGot = [], ccConn = ?k 1 [?ev]\<rparr>" "the (?k 1 [?ev])" ?ev "[]" demoStream]
    by (simp add: readFrame_def eventFrame_def)
  ultimately have "?step\<^sup>*\<^sup>* streamStart (?w (?hub ?b1 1 1) (?none(demoEpoch := [demoEvent])) (?cl (Some (?id 1)) (Some (?id 0)) [demoEvent] (?k 1 [])))"
    by (meson rtranclp.rtrancl_into_rtrancl rtranclp.rtrancl_refl)
  then show ?thesis by (intro exI conjI) auto
qed

text \<open>
  C30. However processes start and stop, events are recorded, and a client connects, loses what is on
  the wire and connects again, to this process or another: between the opening frame that last told it
  of a gap (or was its first) and the last id it saw, the client received exactly the events of that
  process it may see, each once and in order. When it is connected and nothing is on the wire it has
  them all. And a process counts exactly its open streams, within its limit.
\<close>

theorem stream_exactly_once:
  assumes "(streamStep opts)\<^sup>*\<^sup>* streamStart w" and "swClients w i = Some c" and "ccLastId c = Some l"
  shows "\<exists>e b s. ccSince c = Some (formatCursor e b) \<and> l = formatCursor e s \<and> b \<le> s \<and> s \<le> length (swHistory w e)
      \<and> ccGot c = filter (\<lambda>x. isVisibleTo x (ccAudience c)) (drop b (take s (swHistory w e)))
      \<and> (\<forall>k. ccConn c = Some k \<and> scLive k \<and> scWire k = [] \<longrightarrow> scEpoch k = e \<and> ccGot c = filter (\<lambda>x. isVisibleTo x (ccAudience c)) (drop b (swHistory w e)))
      \<and> (\<forall>h. swHubs w e = Some h \<longrightarrow> hbOpen h = int (card (connectedSet e w)) \<and> hbOpen h \<le> max 0 (spMaxConnections opts))"
proof -
  have inv: "streamInv w" and slots: "slotsOk opts w" using stream_reach [OF assms(1)] by simp_all
  obtain e b s where s: "isEpoch e" "ccSince c = Some (formatCursor e b)" "l = formatCursor e s" "b \<le> s" "s \<le> length (swHistory w e)"
      "ccGot c = visibleIn (ccAudience c) (swHistory w e) b s"
    using streamInvD(3) [OF inv assms(2)] assms(3) by (auto simp: clientOk_def)
  have "scEpoch k = e \<and> ccGot c = visibleIn (ccAudience c) (swHistory w e) b (length (swHistory w e))" if k: "ccConn c = Some k" "scLive k" "scWire k = []" for k
  proof -
    obtain p where p: "isEpoch (scEpoch k)" "l = formatCursor (scEpoch k) p" "scCursor k = length (swHistory w (scEpoch k))"
        "visibleIn (ccAudience c) (swHistory w (scEpoch k)) p (scCursor k) = []"
      using streamInvD(4) [OF inv assms(2) k(1)] k(2,3) assms(3) by (auto simp: connOk_def Let_def)
    then have "scEpoch k = e \<and> p = s" using s(1,3) formatCursor_inject by metis
    then show ?thesis using p(3,4) s(4-6) visible_split [of b s "length (swHistory w e)" "ccAudience c" "swHistory w e"] by simp
  qed
  moreover have "hbOpen h = int (card (connectedSet e w)) \<and> hbOpen h \<le> max 0 (spMaxConnections opts)" if "swHubs w e = Some h" for h
    using slots that by (simp add: slotsOk_def)
  ultimately show ?thesis using s unfolding visibleIn_def take_all [OF order_refl] by blast
qed

theorem stream_exactly_once_witness:
  "\<exists>w c e b s. (streamStep demoStream)\<^sup>*\<^sup>* streamStart w \<and> swClients w 0 = Some c \<and> ccSince c = Some (formatCursor e b) \<and> ccLastId c = Some (formatCursor e s)
     \<and> [demoEvent] = filter (\<lambda>x. isVisibleTo x (ccAudience c)) (drop b (take s (swHistory w e)))"
proof -
  obtain w c where w: "(streamStep demoStream)\<^sup>*\<^sup>* streamStart w" "swClients w 0 = Some c" "ccLastId c = Some (formatCursor demoEpoch 1)" "ccGot c = [demoEvent]"
    using demo_stream_run by blast
  from stream_exactly_once [OF w(1-3)] w show ?thesis by metis
qed

end
