(* ===== verification/Realtime.thy ===== *)
theory Realtime
  imports Streaming
begin

text \<open>
  The WebSocket side: \<open>realtime/rooms.ts\<close>, \<open>realtime-frames.ts\<close>, \<open>handshake.ts\<close>, \<open>close-codes.ts\<close> and
  \<open>backpressured-socket.ts\<close>.

  A socket is what \<open>realtime/ports.ts\<close> names of \<open>ws\<close>: whether it is open, the bytes it has buffered, and
  what was sent on it. The bytes a frame takes and the text of a date are parameters; verifying a
  token is one too.
\<close>

section \<open>Rooms\<close>

definition maxUserIdLength :: nat where
  "maxUserIdLength = 128"

definition userRoom :: "string \<Rightarrow> string" where
  "userRoom userId = ''user:'' @ userId"

definition eventRoom :: "string \<Rightarrow> string" where
  "eventRoom name = ''events:'' @ name"

definition parseRoom :: "jsValue \<Rightarrow> string option" where
  "parseRoom raw = (case raw of
     VStr s \<Rightarrow> (let prefix = takeWhile (\<lambda>c. c \<noteq> CHR '':'') s; rest = drop (length prefix + 1) s in
       if CHR '':'' \<notin> set s then None
       else if prefix = ''user''
       then if rest = [] \<or> length rest > maxUserIdLength then None
            else if list_ex (\<lambda>c. isTrimmed c \<or> c = CHR '':'' \<or> c = CHR '','') rest then None
            else Some (userRoom rest)
       else if prefix = ''events'' then if isDomainEventName rest then Some (eventRoom rest) else None
       else None)
   | _ \<Rightarrow> None)"

definition roomsFor :: "eventEnvelope \<Rightarrow> string list" where
  "roomsFor event = (if evName event \<in> {''user.registered'', ''user.deleted'', ''order.placed'', ''order.confirmed'', ''order.cancelled''}
     then [userRoom (case partitionKeyFor (evPayload event) of Some u \<Rightarrow> u | None \<Rightarrow> ''undefined''), eventRoom (evName event)] else [])"

definition canJoin :: "streamAudience \<Rightarrow> string \<Rightarrow> bool" where
  "canJoin audience room \<longleftrightarrow> auRole audience = ''ADMIN'' \<or> room = userRoom (auId audience)"

definition defaultRoomsFor :: "streamAudience \<Rightarrow> string list" where
  "defaultRoomsFor audience = [userRoom (auId audience)]"

section \<open>Frames\<close>

record realtimeFrame =
  rfEvent :: string
  rfData :: jsValue

definition roomNames :: "string list \<Rightarrow> jsValue" where
  "roomNames rooms = VArr (map VStr rooms)"

definition welcomeFrame :: "string \<Rightarrow> streamAudience \<Rightarrow> string list \<Rightarrow> int \<Rightarrow> int \<Rightarrow> int \<Rightarrow> realtimeFrame" where
  "welcomeFrame connectionId audience rooms heartbeatIntervalMs maxRooms highWater = \<lparr>rfEvent = ''realtime.welcome'',
     rfData = VObj [(''connectionId'', VStr connectionId), (''userId'', VStr (auId audience)), (''role'', VStr (auRole audience)), (''rooms'', roomNames rooms),
       (''heartbeatIntervalMs'', VNum heartbeatIntervalMs), (''limits'', VObj [(''maxRooms'', VNum maxRooms), (''sendHighWaterMarkBytes'', VNum highWater)])]\<rparr>"

definition subscribedFrame :: "string list \<Rightarrow> string list \<Rightarrow> realtimeFrame" where
  "subscribedFrame rooms total' = \<lparr>rfEvent = ''realtime.subscribed'', rfData = VObj [(''rooms'', roomNames rooms), (''allRooms'', roomNames total')]\<rparr>"

definition unsubscribedFrame :: "string list \<Rightarrow> string list \<Rightarrow> realtimeFrame" where
  "unsubscribedFrame rooms total' = \<lparr>rfEvent = ''realtime.unsubscribed'', rfData = VObj [(''rooms'', roomNames rooms), (''allRooms'', roomNames total')]\<rparr>"

definition laggedFrame :: "(int \<Rightarrow> string) \<Rightarrow> nat \<Rightarrow> int \<Rightarrow> realtimeFrame" where
  "laggedFrame isoOf dropped since = \<lparr>rfEvent = ''realtime.lagged'',
     rfData = VObj [(''dropped'', VNum (int dropped)), (''since'', VStr (isoOf since)), (''refetchRequired'', VBool True)]\<rparr>"

definition errorFrame :: "string \<Rightarrow> string \<Rightarrow> string option \<Rightarrow> realtimeFrame" where
  "errorFrame code message room = \<lparr>rfEvent = ''realtime.error'',
     rfData = VObj ([(''code'', VStr code), (''message'', VStr message)] @ (case room of Some r \<Rightarrow> [(''room'', VStr r)] | None \<Rightarrow> []))\<rparr>"

definition farewellFrame :: realtimeFrame where
  "farewellFrame = \<lparr>rfEvent = ''realtime.closing'', rfData = VObj [(''reason'', VStr ''shutdown'')]\<rparr>"

definition domainEventFrame :: "eventEnvelope \<Rightarrow> realtimeFrame" where
  "domainEventFrame event = \<lparr>rfEvent = evName event, rfData = VObj [(''id'', VStr (evId event)), (''name'', VStr (evName event)),
     (''occurredAt'', VStr (evOccurredAt event)), (''correlationId'', (case evCorrelation event of Some c \<Rightarrow> VStr c | None \<Rightarrow> VNull)), (''payload'', evPayload event)]\<rparr>"

section \<open>The handshake\<close>

datatype handshakeRejection = MissingCredentials | MalformedCredentials | TokenInQuery | InvalidToken | UnexpectedClaims

record handshakeRequest =
  hqUrl :: "string option"
  hqAuthorization :: "string option"
  hqProtocol :: "string option"

fun splitOn :: "char \<Rightarrow> string \<Rightarrow> string list" where
  "splitOn d [] = [[]]"
| "splitOn d (c # cs) = (if c = d then [] # splitOn d cs else (c # hd (splitOn d cs)) # tl (splitOn d cs))"

text \<open>\<open>URLSearchParams\<close>: the names of a query, percent-decoded.\<close>

fun queryDecode :: "string \<Rightarrow> string" where
  "queryDecode [] = []"
| "queryDecode (c # cs) = (if c = CHR ''+'' then CHR '' '' # queryDecode cs
     else if c = CHR ''%'' then (case cs of
       a # b # r \<Rightarrow> (case (hexVal a, hexVal b) of (Some x, Some y) \<Rightarrow> char_of (16 * x + y) # queryDecode r | _ \<Rightarrow> c # queryDecode cs)
     | _ \<Rightarrow> c # queryDecode cs)
     else c # queryDecode cs)"

definition tokenQueryParams :: "string list" where
  "tokenQueryParams = [''token'', ''access_token'', ''accessToken'', ''jwt'', ''authorization'']"

definition hasTokenInQuery :: "string option \<Rightarrow> bool" where
  "hasTokenInQuery url = (case url of
     None \<Rightarrow> False
   | Some u \<Rightarrow> let query = drop 1 (dropWhile (\<lambda>c. c \<noteq> CHR ''?'') (takeWhile (\<lambda>c. c \<noteq> CHR ''#'') u)) in
       list_ex (\<lambda>part. part \<noteq> [] \<and> queryDecode (takeWhile (\<lambda>c. c \<noteq> CHR ''='') part) \<in> set tokenQueryParams) (splitOn (CHR ''&'') query))"

definition bearerToken :: "string \<Rightarrow> string option" where
  "bearerToken authorization = (let t = jsTrim authorization; rest = drop 6 t; token = dropWhile isTrimmed rest in
     if toUpperCase (take 6 t) = ''BEARER'' \<and> rest \<noteq> token \<and> token \<noteq> [] \<and> list_all (\<lambda>c. \<not> isTrimmed c) token then Some token else None)"

definition readHandshakeCredentials :: "handshakeRequest \<Rightarrow> handshakeRejection + string" where
  "readHandshakeCredentials request = (case hqAuthorization request of
     Some authorization \<Rightarrow> (case bearerToken authorization of Some token \<Rightarrow> Inr token | None \<Rightarrow> Inl MalformedCredentials)
   | None \<Rightarrow> (case hqProtocol request of
       Some offered \<Rightarrow> (case filter (\<lambda>p. p \<noteq> []) (map jsTrim (splitOn (CHR '','') offered)) of
           p # ps \<Rightarrow> if toUpperCase p \<noteq> ''BEARER'' then Inl MalformedCredentials
             else (case ps of [token] \<Rightarrow> Inr token | _ \<Rightarrow> Inl MalformedCredentials)
         | [] \<Rightarrow> Inl MalformedCredentials)
     | None \<Rightarrow> Inl (if hasTokenInQuery (hqUrl request) then TokenInQuery else MissingCredentials)))"

definition isSlugChar :: "char \<Rightarrow> bool" where
  "isSlugChar c \<longleftrightarrow> isDigit c \<or> 97 \<le> (of_char c :: nat) \<and> (of_char c :: nat) \<le> 122"

definition isTenantId :: "string \<Rightarrow> bool" where
  "isTenantId value \<longleftrightarrow> 2 \<le> length value \<and> length value \<le> 63 \<and> isSlugChar (hd value) \<and> isSlugChar (last value) \<and>
     list_all (\<lambda>c. isSlugChar c \<or> c = CHR ''-'') value"

record principal =
  prId :: string
  prEmail :: string
  prRole :: string
  prTenant :: string

definition accessTokenPrincipal :: "jsValue \<Rightarrow> principal option" where
  "accessTokenPrincipal claims = (case claims of
     VObj ms \<Rightarrow> (case (map_of ms ''sub'', map_of ms ''email'', map_of ms ''role'', map_of ms ''tid'') of
       (Some (VStr sub), Some (VStr email), Some (VStr role), Some (VStr tid)) \<Rightarrow>
         if sub \<noteq> [] \<and> isTenantId tid then Some \<lparr>prId = sub, prEmail = email, prRole = role, prTenant = tid\<rparr> else None
     | _ \<Rightarrow> None)
   | _ \<Rightarrow> None)"

definition authenticateHandshake :: "(string \<Rightarrow> jsValue option) \<Rightarrow> handshakeRequest \<Rightarrow> handshakeRejection + principal" where
  "authenticateHandshake verify request = rbind (readHandshakeCredentials request) (\<lambda>token. case verify token of
     None \<Rightarrow> Inl InvalidToken
   | Some claims \<Rightarrow> (case accessTokenPrincipal claims of Some p \<Rightarrow> Inr p | None \<Rightarrow> Inl UnexpectedClaims))"

section \<open>Close codes\<close>

datatype closeCode = GoingAway | Unauthenticated | Forbidden | SlowConsumer | AtCapacity

fun closeCodeValue :: "closeCode \<Rightarrow> int" where
  "closeCodeValue GoingAway = 1001"
| "closeCodeValue Unauthenticated = 4401"
| "closeCodeValue Forbidden = 4403"
| "closeCodeValue SlowConsumer = 4408"
| "closeCodeValue AtCapacity = 4429"

section \<open>The backpressured socket\<close>

record rtSocket =
  skOpen :: bool
  skBuffered :: int
  skSent :: "realtimeFrame list"
  skClosed :: "(closeCode \<times> string) option"
  skPings :: nat

record bpOptions =
  boHighWaterMark :: int
  boGraceMs :: int

record endpoint =
  epSocket :: rtSocket
  epLaggingSince :: "int option"
  epDroppedWhile :: nat
  epDropped :: nat

definition newEndpoint :: "rtSocket \<Rightarrow> endpoint" where
  "newEndpoint sk = \<lparr>epSocket = sk, epLaggingSince = None, epDroppedWhile = 0, epDropped = 0\<rparr>"

definition lowWaterMark :: "bpOptions \<Rightarrow> int" where
  "lowWaterMark opts = boHighWaterMark opts div 2"

datatype sendOutcome = Sent | Dropped | ClosedNow

text \<open>\<open>write\<close>: \<open>ws\<close> adds the frame's bytes to its buffer.\<close>

definition writeFrame :: "(realtimeFrame \<Rightarrow> int) \<Rightarrow> realtimeFrame \<Rightarrow> endpoint \<Rightarrow> endpoint" where
  "writeFrame bytes f ep = ep\<lparr>epSocket := (epSocket ep)\<lparr>skSent := skSent (epSocket ep) @ [f], skBuffered := skBuffered (epSocket ep) + bytes f\<rparr>\<rparr>"

definition shutSocket :: "closeCode \<Rightarrow> string \<Rightarrow> endpoint \<Rightarrow> endpoint" where
  "shutSocket code reason ep = ep\<lparr>epSocket := (epSocket ep)\<lparr>skOpen := False, skClosed := Some (code, reason)\<rparr>\<rparr>"

definition closeSlow :: "endpoint \<Rightarrow> endpoint" where
  "closeSlow ep = (shutSocket SlowConsumer (''slow consumer: '' @ decString (epDroppedWhile ep) @ '' frames dropped'') ep)\<lparr>epLaggingSince := None\<rparr>"

definition stayLagging :: "bpOptions \<Rightarrow> int \<Rightarrow> endpoint \<Rightarrow> sendOutcome \<times> endpoint" where
  "stayLagging opts now ep = (let ep' = ep\<lparr>epDroppedWhile := epDroppedWhile ep + 1, epDropped := epDropped ep + 1\<rparr> in
     case epLaggingSince ep' of
       Some since \<Rightarrow> if now - since \<ge> boGraceMs opts then (ClosedNow, closeSlow ep') else (Dropped, ep')
     | None \<Rightarrow> (Dropped, ep'))"

definition recover :: "(int \<Rightarrow> string) \<Rightarrow> (realtimeFrame \<Rightarrow> int) \<Rightarrow> endpoint \<Rightarrow> endpoint" where
  "recover isoOf bytes ep = (let ep' = ep\<lparr>epLaggingSince := None, epDroppedWhile := 0\<rparr> in
     case epLaggingSince ep of
       Some since \<Rightarrow> writeFrame bytes (laggedFrame isoOf (epDroppedWhile ep) since) ep'
     | None \<Rightarrow> ep')"

definition sendFrame :: "(int \<Rightarrow> string) \<Rightarrow> (realtimeFrame \<Rightarrow> int) \<Rightarrow> bpOptions \<Rightarrow> int \<Rightarrow> realtimeFrame \<Rightarrow> endpoint \<Rightarrow> sendOutcome \<times> endpoint" where
  "sendFrame isoOf bytes opts now f ep =
     (if \<not> skOpen (epSocket ep) then (ClosedNow, ep)
      else if epLaggingSince ep \<noteq> None
      then if skBuffered (epSocket ep) > lowWaterMark opts then stayLagging opts now ep
           else (Sent, writeFrame bytes f (recover isoOf bytes ep))
      else if skBuffered (epSocket ep) > boHighWaterMark opts
      then stayLagging opts now (ep\<lparr>epLaggingSince := Some now, epDroppedWhile := 0\<rparr>)
      else (Sent, writeFrame bytes f ep))"

definition review :: "(int \<Rightarrow> string) \<Rightarrow> (realtimeFrame \<Rightarrow> int) \<Rightarrow> bpOptions \<Rightarrow> int \<Rightarrow> endpoint \<Rightarrow> endpoint" where
  "review isoOf bytes opts now ep = (case epLaggingSince ep of
     None \<Rightarrow> ep
   | Some since \<Rightarrow>
       if \<not> skOpen (epSocket ep) then ep
       else if now - since \<ge> boGraceMs opts then closeSlow ep
       else if skBuffered (epSocket ep) \<le> lowWaterMark opts then recover isoOf bytes ep
       else ep)"

definition closeEndpoint :: "closeCode \<Rightarrow> string \<Rightarrow> endpoint \<Rightarrow> endpoint" where
  "closeEndpoint code reason ep = (if skOpen (epSocket ep) then shutSocket code reason ep else ep)"

definition pingEndpoint :: "endpoint \<Rightarrow> endpoint" where
  "pingEndpoint ep = (if skOpen (epSocket ep) then ep\<lparr>epSocket := (epSocket ep)\<lparr>skPings := skPings (epSocket ep) + 1\<rparr>\<rparr> else ep)"

definition terminateEndpoint :: "endpoint \<Rightarrow> endpoint" where
  "terminateEndpoint ep = ep\<lparr>epSocket := (epSocket ep)\<lparr>skOpen := False\<rparr>\<rparr>"

definition sendUnconditionally :: "(realtimeFrame \<Rightarrow> int) \<Rightarrow> realtimeFrame \<Rightarrow> endpoint \<Rightarrow> endpoint" where
  "sendUnconditionally bytes f ep = (if skOpen (epSocket ep) then writeFrame bytes f ep else ep)"

section \<open>One connection's send side\<close>

text \<open>
  \<open>lwOffered\<close> are the frames handed to \<open>send\<close> while the socket was open. The peer may flush any part of
  the buffer, or close the socket.
\<close>

record linkWorld =
  lwNow :: int
  lwEnd :: endpoint
  lwOffered :: "realtimeFrame list"

definition isLagged :: "realtimeFrame \<Rightarrow> bool" where
  "isLagged f \<longleftrightarrow> rfEvent f = ''realtime.lagged''"

inductive linkStep :: "(int \<Rightarrow> string) \<Rightarrow> (realtimeFrame \<Rightarrow> int) \<Rightarrow> bpOptions \<Rightarrow> linkWorld \<Rightarrow> linkWorld \<Rightarrow> bool" for isoOf bytes opts where
  LkTick: "0 \<le> d \<Longrightarrow> linkStep isoOf bytes opts w (w\<lparr>lwNow := lwNow w + d\<rparr>)"
| LkFlush: "0 \<le> n \<Longrightarrow> n \<le> skBuffered (epSocket (lwEnd w)) \<Longrightarrow>
    linkStep isoOf bytes opts w (w\<lparr>lwEnd := (lwEnd w)\<lparr>epSocket := (epSocket (lwEnd w))\<lparr>skBuffered := n\<rparr>\<rparr>\<rparr>)"
| LkPeerCloses: "linkStep isoOf bytes opts w (w\<lparr>lwEnd := terminateEndpoint (lwEnd w)\<rparr>)"
| LkSend: "\<not> isLagged f \<Longrightarrow> sendFrame isoOf bytes opts (lwNow w) f (lwEnd w) = (out, ep) \<Longrightarrow>
    linkStep isoOf bytes opts w (w\<lparr>lwEnd := ep, lwOffered := (if skOpen (epSocket (lwEnd w)) then lwOffered w @ [f] else lwOffered w)\<rparr>)"
| LkReview: "linkStep isoOf bytes opts w (w\<lparr>lwEnd := review isoOf bytes opts (lwNow w) (lwEnd w)\<rparr>)"
| LkPing: "linkStep isoOf bytes opts w (w\<lparr>lwEnd := pingEndpoint (lwEnd w)\<rparr>)"
| LkFarewell: "linkStep isoOf bytes opts w (w\<lparr>lwEnd := closeEndpoint GoingAway ''server shutting down'' (sendUnconditionally bytes farewellFrame (lwEnd w))\<rparr>)"

definition linkStart :: "int \<Rightarrow> linkWorld" where
  "linkStart now = \<lparr>lwNow = now, lwEnd = newEndpoint \<lparr>skOpen = True, skBuffered = 0, skSent = [], skClosed = None, skPings = 0\<rparr>, lwOffered = []\<rparr>"

text \<open>What was sent accounts for what was offered: a lagged frame stands for as many dropped frames as it says, and \<open>n\<close> more are dropped since.\<close>

definition laggedCount :: "realtimeFrame \<Rightarrow> nat" where
  "laggedCount f = (case rfData f of VObj ms \<Rightarrow> (case map_of ms ''dropped'' of Some (VNum k) \<Rightarrow> nat k | _ \<Rightarrow> 0) | _ \<Rightarrow> 0)"

fun accounts :: "realtimeFrame list \<Rightarrow> realtimeFrame list \<Rightarrow> nat \<Rightarrow> bool" where
  "accounts [] offered n \<longleftrightarrow> length offered = n"
| "accounts (f # fs) offered n \<longleftrightarrow>
     (if isLagged f then laggedCount f \<le> length offered \<and> accounts fs (drop (laggedCount f) offered) n
      else offered \<noteq> [] \<and> hd offered = f \<and> accounts fs (tl offered) n)"

lemma laggedCount_lagged [simp]: "laggedCount (laggedFrame isoOf n since) = n" "isLagged (laggedFrame isoOf n since)"
  by (simp_all add: laggedCount_def laggedFrame_def isLagged_def)

lemma accounts_drop: "accounts fs offered n \<Longrightarrow> accounts fs (offered @ [f]) (Suc n)"
  by (induction fs arbitrary: offered) auto

lemma accounts_send: "accounts fs offered 0 \<Longrightarrow> \<not> isLagged f \<Longrightarrow> accounts (fs @ [f]) (offered @ [f]) 0"
  by (induction fs arbitrary: offered) auto

lemma accounts_told: "accounts fs offered n \<Longrightarrow> accounts (fs @ [laggedFrame isoOf n since]) offered 0"
  by (induction fs arbitrary: offered) auto

definition linkOk :: "(realtimeFrame \<Rightarrow> int) \<Rightarrow> int \<Rightarrow> bpOptions \<Rightarrow> linkWorld \<Rightarrow> bool" where
  "linkOk bytes big opts w \<longleftrightarrow> (let ep = lwEnd w; sk = epSocket ep in
     0 \<le> skBuffered sk \<and> (skOpen sk \<longrightarrow>
       accounts (skSent sk) (lwOffered w) (if epLaggingSince ep = None then 0 else epDroppedWhile ep) \<and>
       skBuffered sk \<le> boHighWaterMark opts + 2 * big \<and>
       (case epLaggingSince ep of Some t \<Rightarrow> t \<le> lwNow w \<and> 0 < epDroppedWhile ep | None \<Rightarrow> True)))"

lemma link_step_ok:
  assumes "linkStep isoOf bytes opts w w'" and ok: "linkOk bytes big opts w" and bytes: "\<forall>f. 0 \<le> bytes f \<and> bytes f \<le> big" and high: "0 \<le> boHighWaterMark opts"
  shows "linkOk bytes big opts w'"
proof -
  let ?ep = "lwEnd w" and ?sk = "epSocket (lwEnd w)"
  have big: "0 \<le> big" using bytes by (meson order_trans)
  have low: "lowWaterMark opts \<le> boHighWaterMark opts" using high by (simp add: lowWaterMark_def)
  note b = bytes [THEN spec]
  from assms(1) show ?thesis
  proof cases
    case (LkTick d)
    then show ?thesis using ok by (auto simp: linkOk_def Let_def split: option.splits)
  next
    case (LkFlush n)
    then show ?thesis using ok by (auto simp: linkOk_def Let_def)
  next
    case LkPeerCloses
    then show ?thesis using ok by (simp add: linkOk_def Let_def terminateEndpoint_def)
  next
    case (LkSend f out ep)
    show ?thesis
    proof (cases "skOpen ?sk")
      case False
      then show ?thesis using LkSend ok by (auto simp: sendFrame_def linkOk_def Let_def)
    next
      case True
      have acc: "accounts (skSent ?sk) (lwOffered w) (if epLaggingSince ?ep = None then 0 else epDroppedWhile ?ep)" "0 \<le> skBuffered ?sk" "skBuffered ?sk \<le> boHighWaterMark opts + 2 * big"
        using ok True by (simp_all add: linkOk_def Let_def)
      consider (lag) t where "epLaggingSince ?ep = Some t" "skBuffered ?sk > lowWaterMark opts"
        | (back') t where "epLaggingSince ?ep = Some t" "skBuffered ?sk \<le> lowWaterMark opts"
        | (over) "epLaggingSince ?ep = None" "skBuffered ?sk > boHighWaterMark opts"
        | (fine) "epLaggingSince ?ep = None" "skBuffered ?sk \<le> boHighWaterMark opts"
        by (cases "epLaggingSince ?ep") force+
      then show ?thesis
      proof cases
        case (lag t)
        then have "accounts (skSent ?sk) (lwOffered w @ [f]) (Suc (epDroppedWhile ?ep))" using acc accounts_drop by fastforce
        then show ?thesis using lag True LkSend ok acc by (auto simp: linkOk_def Let_def sendFrame_def stayLagging_def closeSlow_def shutSocket_def split: if_splits)
      next
        case (back' t)
        have "accounts (skSent ?sk @ [laggedFrame isoOf (epDroppedWhile ?ep) t]) (lwOffered w) 0" using acc(1) back'(1) accounts_told by fastforce
        then have "accounts ((skSent ?sk @ [laggedFrame isoOf (epDroppedWhile ?ep) t]) @ [f]) (lwOffered w @ [f]) 0" by (rule accounts_send [OF _ LkSend(2)])
        moreover have "ep = writeFrame bytes f (writeFrame bytes (laggedFrame isoOf (epDroppedWhile ?ep) t) (?ep\<lparr>epLaggingSince := None, epDroppedWhile := 0\<rparr>))"
          using back' True LkSend(3) by (auto simp: sendFrame_def recover_def Let_def)
        ultimately show ?thesis using back' True LkSend(1) acc low b [of f] b [of "laggedFrame isoOf (epDroppedWhile ?ep) t"]
          by (simp add: linkOk_def Let_def writeFrame_def)
      next
        case over
        then have "accounts (skSent ?sk) (lwOffered w @ [f]) (Suc 0)" using acc accounts_drop by fastforce
        then show ?thesis using over True LkSend ok acc by (auto simp: linkOk_def Let_def sendFrame_def stayLagging_def closeSlow_def shutSocket_def split: if_splits)
      next
        case fine
        then have "accounts (skSent ?sk @ [f]) (lwOffered w @ [f]) 0" using acc(1) accounts_send [OF _ LkSend(2)] by simp
        then show ?thesis using fine True LkSend acc b [of f] big by (auto simp: linkOk_def Let_def sendFrame_def writeFrame_def)
      qed
    qed
  next
    case LkReview
    show ?thesis
    proof (cases "epLaggingSince ?ep")
      case (Some t)
      have "skOpen ?sk \<Longrightarrow> accounts (skSent ?sk @ [laggedFrame isoOf (epDroppedWhile ?ep) t]) (lwOffered w) 0"
        using ok Some accounts_told by (fastforce simp: linkOk_def Let_def)
      then show ?thesis using LkReview Some ok low b [of "laggedFrame isoOf (epDroppedWhile ?ep) t"] big
        by (auto simp: linkOk_def Let_def review_def recover_def writeFrame_def closeSlow_def shutSocket_def)
    qed (use LkReview ok in \<open>simp add: review_def\<close>)
  next
    case LkPing
    then show ?thesis using ok by (auto simp: linkOk_def Let_def pingEndpoint_def split: option.splits)
  next
    case LkFarewell
    then show ?thesis using ok b [of farewellFrame] by (auto simp: linkOk_def Let_def closeEndpoint_def sendUnconditionally_def shutSocket_def writeFrame_def)
  qed
qed

lemma link_reach:
  assumes "(linkStep isoOf bytes opts)\<^sup>*\<^sup>* (linkStart now) w" and "\<forall>f. 0 \<le> bytes f \<and> bytes f \<le> big" and "0 \<le> boHighWaterMark opts"
  shows "linkOk bytes big opts w"
  using assms(1)
proof (induction rule: rtranclp_induct)
  case base
  have "0 \<le> big" using assms(2) by (meson order_trans)
  then show ?case using assms(3) by (simp add: linkOk_def linkStart_def newEndpoint_def)
next
  case (step w w')
  then show ?case using link_step_ok assms(2,3) by blast
qed

definition demoFrames :: "nat \<Rightarrow> realtimeFrame" where
  "demoFrames n = \<lparr>rfEvent = ''user.deleted'', rfData = VNum (int n)\<rparr>"

definition demoLink :: linkWorld where
  "demoLink = \<lparr>lwNow = 0, lwEnd = \<lparr>epSocket = \<lparr>skOpen = True, skBuffered = 20,
     skSent = [demoFrames 0, laggedFrame (\<lambda>_. ''t'') 1 0, demoFrames 2], skClosed = None, skPings = 0\<rparr>,
     epLaggingSince = None, epDroppedWhile = 0, epDropped = 1\<rparr>, lwOffered = [demoFrames 0, demoFrames 1, demoFrames 2]\<rparr>"

lemma demo_link_run: "(linkStep (\<lambda>_. ''t'') (\<lambda>_. 10) \<lparr>boHighWaterMark = 8, boGraceMs = 5\<rparr>)\<^sup>*\<^sup>* (linkStart 0) demoLink"
proof -
  let ?o = "\<lparr>boHighWaterMark = 8, boGraceMs = 5\<rparr>"
  let ?step = "linkStep (\<lambda>_. ''t'') (\<lambda>_. 10) ?o"
  let ?w = "\<lambda>n fs l d off. \<lparr>lwNow = 0, lwEnd = \<lparr>epSocket = \<lparr>skOpen = True, skBuffered = n, skSent = fs, skClosed = None, skPings = 0\<rparr>,
     epLaggingSince = l, epDroppedWhile = d, epDropped = d\<rparr>, lwOffered = off\<rparr>"
  note d = sendFrame_def linkStart_def newEndpoint_def writeFrame_def stayLagging_def lowWaterMark_def isLagged_def demoFrames_def recover_def Let_def demoLink_def
  have "?step (linkStart 0) (?w 10 [demoFrames 0] None 0 [demoFrames 0])"
    using LkSend [of "demoFrames 0" "\<lambda>_. ''t''" "\<lambda>_. 10" ?o "linkStart 0" Sent "lwEnd (?w 10 [demoFrames 0] None 0 [])"] by (simp add: d)
  moreover have "?step (?w 10 [demoFrames 0] None 0 [demoFrames 0]) (?w 10 [demoFrames 0] (Some 0) 1 [demoFrames 0, demoFrames 1])"
    using LkSend [of "demoFrames 1" "\<lambda>_. ''t''" "\<lambda>_. 10" ?o "?w 10 [demoFrames 0] None 0 [demoFrames 0]" Dropped "lwEnd (?w 10 [demoFrames 0] (Some 0) 1 [])"] by (simp add: d)
  moreover have "?step (?w 10 [demoFrames 0] (Some 0) 1 [demoFrames 0, demoFrames 1]) (?w 0 [demoFrames 0] (Some 0) 1 [demoFrames 0, demoFrames 1])"
    using LkFlush [of 0 "?w 10 [demoFrames 0] (Some 0) 1 [demoFrames 0, demoFrames 1]" "\<lambda>_. ''t''" "\<lambda>_. 10" ?o] by simp
  moreover have "?step (?w 0 [demoFrames 0] (Some 0) 1 [demoFrames 0, demoFrames 1]) demoLink"
    using LkSend [of "demoFrames 2" "\<lambda>_. ''t''" "\<lambda>_. 10" ?o "?w 0 [demoFrames 0] (Some 0) 1 [demoFrames 0, demoFrames 1]" Sent "lwEnd demoLink"] by (simp add: d)
  ultimately show ?thesis by (meson rtranclp.rtrancl_into_rtrancl rtranclp.rtrancl_refl)
qed

text \<open>
  C32. Whatever is offered to a connection, however fast its peer reads: while the socket is open, what
  was written accounts for everything offered. Every frame is there in order, or falls under a
  lagged frame that stands where it was dropped and says how many were, or under the frames dropped
  since the connection last fell behind. And the process never holds more than the high-water mark
  and two frames for it.
\<close>

theorem backpressure_accounts:
  assumes "(linkStep isoOf bytes opts)\<^sup>*\<^sup>* (linkStart now) w" and "\<forall>f. 0 \<le> bytes f \<and> bytes f \<le> big" and "0 \<le> boHighWaterMark opts"
    and "skOpen (epSocket (lwEnd w))"
  shows "accounts (skSent (epSocket (lwEnd w))) (lwOffered w) (if epLaggingSince (lwEnd w) = None then 0 else epDroppedWhile (lwEnd w))
    \<and> skBuffered (epSocket (lwEnd w)) \<le> boHighWaterMark opts + 2 * big"
  using link_reach [OF assms(1-3)] assms(4) by (simp add: linkOk_def Let_def)

theorem backpressure_accounts_witness:
  "(linkStep (\<lambda>_. ''t'') (\<lambda>_. 10) \<lparr>boHighWaterMark = 8, boGraceMs = 5\<rparr>)\<^sup>*\<^sup>* (linkStart 0) demoLink \<and> skOpen (epSocket (lwEnd demoLink))
   \<and> accounts [demoFrames 0, laggedFrame (\<lambda>_. ''t'') 1 0, demoFrames 2] [demoFrames 0, demoFrames 1, demoFrames 2] 0"
proof -
  have "skOpen (epSocket (lwEnd demoLink))" by (simp add: demoLink_def)
  moreover from backpressure_accounts [OF demo_link_run _ _ this, of 10]
  have "accounts [demoFrames 0, laggedFrame (\<lambda>_. ''t'') 1 0, demoFrames 2] [demoFrames 0, demoFrames 1, demoFrames 2] 0" by (simp add: demoLink_def)
  ultimately show ?thesis using demo_link_run by blast
qed

text \<open>The sweep closes a connection whose grace is over even when its buffer is empty again.\<close>

lemma drained_closed:
  assumes "skOpen (epSocket ep)" and "skBuffered (epSocket ep) = 0" and "epLaggingSince ep = Some t" and "boGraceMs opts \<le> now - t"
  shows "\<not> skOpen (epSocket (review isoOf bytes opts now ep))"
  using assms by (simp add: review_def closeSlow_def shutSocket_def)

section \<open>Rooms and visibility\<close>

lemma parseRoom_same: "parseRoom raw = Some room \<Longrightarrow> raw = VStr room"
proof (cases raw)
  case (VStr s)
  assume p: "parseRoom raw = Some room"
  have s: "s = takeWhile (\<lambda>c. c \<noteq> CHR '':'') s @ CHR '':'' # drop (length (takeWhile (\<lambda>c. c \<noteq> CHR '':'') s) + 1) s" if "CHR '':'' \<in> set s"
    using that by (induction s) auto
  show ?thesis using p VStr s by (auto simp: parseRoom_def Let_def userRoom_def eventRoom_def split: if_splits)
qed (simp_all add: parseRoom_def)

lemma own_room:
  assumes "isVisibleTo event audience" and "auRole audience \<noteq> ''ADMIN''"
  shows "userRoom (auId audience) \<in> set (roomsFor event)"
  using assms by (auto simp: isVisibleTo_def roomsFor_def)

lemma userRoom_inject: "userRoom u = userRoom v \<longleftrightarrow> u = v" "userRoom u \<noteq> eventRoom n"
  by (simp_all add: userRoom_def eventRoom_def)

end
