(* ===== verification/RealtimeGateway.thy ===== *)
theory RealtimeGateway
  imports Realtime
begin

text \<open>
  The gateway: \<open>realtime/connection-registry.ts\<close> and \<open>realtime/realtime.gateway.ts\<close>.

  A socket is named by a number, and so is the connection made for it: the registry's two maps hold
  references to connection objects, of which there is one per socket. Handlers run to completion
  one at a time; between them a peer may read, close, or answer a ping.
\<close>

section \<open>The registry\<close>

record rtConnection =
  rcId :: string
  rcAudience :: streamAudience
  rcEnd :: endpoint
  rcRooms :: "string list"
  rcAwaitingPong :: bool

record registry =
  rgSockets :: "(nat \<times> rtConnection) list"
  rgRooms :: "(string \<times> nat list) list"

definition regIndex :: "nat \<Rightarrow> string \<Rightarrow> (string \<times> nat list) list \<Rightarrow> (string \<times> nat list) list" where
  "regIndex s room rooms = (case map_of rooms room of
     Some members \<Rightarrow> AList.update room (if s \<in> set members then members else members @ [s]) rooms
   | None \<Rightarrow> AList.update room [s] rooms)"

definition regDeindex :: "nat \<Rightarrow> string \<Rightarrow> (string \<times> nat list) list \<Rightarrow> (string \<times> nat list) list" where
  "regDeindex s room rooms = (case map_of rooms room of
     None \<Rightarrow> rooms
   | Some members \<Rightarrow> let members' = removeAll s members in
       if members' = [] then AList.delete room rooms else AList.update room members' rooms)"

definition regAdd :: "nat \<Rightarrow> rtConnection \<Rightarrow> registry \<Rightarrow> registry" where
  "regAdd s c reg = \<lparr>rgSockets = AList.update s c (rgSockets reg), rgRooms = fold (regIndex s) (rcRooms c) (rgRooms reg)\<rparr>"

definition regGet :: "nat \<Rightarrow> registry \<Rightarrow> rtConnection option" where
  "regGet s reg = map_of (rgSockets reg) s"

definition regRemove :: "nat \<Rightarrow> registry \<Rightarrow> registry" where
  "regRemove s reg = (case regGet s reg of
     None \<Rightarrow> reg
   | Some c \<Rightarrow> \<lparr>rgSockets = AList.delete s (rgSockets reg), rgRooms = fold (regDeindex s) (rcRooms c) (rgRooms reg)\<rparr>)"

text \<open>A connection is an object both maps refer to; this is an assignment to it.\<close>

definition onConnection :: "nat \<Rightarrow> (rtConnection \<Rightarrow> rtConnection) \<Rightarrow> registry \<Rightarrow> registry" where
  "onConnection s f reg = reg\<lparr>rgSockets := map (\<lambda>(k, c). (k, if k = s then f c else c)) (rgSockets reg)\<rparr>"

definition regJoin :: "nat \<Rightarrow> string \<Rightarrow> registry \<Rightarrow> bool \<times> registry" where
  "regJoin s room reg = (case regGet s reg of
     None \<Rightarrow> (False, reg)
   | Some c \<Rightarrow> if room \<in> set (rcRooms c) then (False, reg)
       else (True, (onConnection s (\<lambda>c. c\<lparr>rcRooms := rcRooms c @ [room]\<rparr>) reg)\<lparr>rgRooms := regIndex s room (rgRooms reg)\<rparr>))"

definition regLeave :: "nat \<Rightarrow> string \<Rightarrow> registry \<Rightarrow> bool \<times> registry" where
  "regLeave s room reg = (case regGet s reg of
     None \<Rightarrow> (False, reg)
   | Some c \<Rightarrow> if room \<notin> set (rcRooms c) then (False, reg)
       else (True, (onConnection s (\<lambda>c. c\<lparr>rcRooms := removeAll room (rcRooms c)\<rparr>) reg)\<lparr>rgRooms := regDeindex s room (rgRooms reg)\<rparr>))"

definition membersOf :: "string \<Rightarrow> registry \<Rightarrow> nat list" where
  "membersOf room reg = (case map_of (rgRooms reg) room of Some members \<Rightarrow> members | None \<Rightarrow> [])"

section \<open>The gateway\<close>

record realtimeOptions =
  roMaxConnections :: int
  roMaxRooms :: int
  roHighWaterMark :: int
  roGraceMs :: int
  roHeartbeatMs :: int

record gatewayEnv =
  geIso :: "int \<Rightarrow> string"
  geBytes :: "realtimeFrame \<Rightarrow> int"
  geVerify :: "string \<Rightarrow> jsValue option"

definition bpOf :: "realtimeOptions \<Rightarrow> bpOptions" where
  "bpOf opts = \<lparr>boHighWaterMark = roHighWaterMark opts, boGraceMs = roGraceMs opts\<rparr>"

definition connSend :: "gatewayEnv \<Rightarrow> realtimeOptions \<Rightarrow> int \<Rightarrow> realtimeFrame \<Rightarrow> rtConnection \<Rightarrow> rtConnection" where
  "connSend env opts now f c = c\<lparr>rcEnd := snd (sendFrame (geIso env) (geBytes env) (bpOf opts) now f (rcEnd c))\<rparr>"

definition rejectionName :: "handshakeRejection \<Rightarrow> string" where
  "rejectionName r = (case r of MissingCredentials \<Rightarrow> ''missing-credentials'' | MalformedCredentials \<Rightarrow> ''malformed-credentials''
     | TokenInQuery \<Rightarrow> ''token-in-query'' | InvalidToken \<Rightarrow> ''invalid-token'' | UnexpectedClaims \<Rightarrow> ''unexpected-claims'')"

definition closeCodeFor :: "handshakeRejection \<Rightarrow> closeCode" where
  "closeCodeFor rejection = (if rejection = UnexpectedClaims then Forbidden else Unauthenticated)"

text \<open>\<open>Inl\<close> is the close frame of a socket that is turned away.\<close>

definition handleConnection :: "gatewayEnv \<Rightarrow> realtimeOptions \<Rightarrow> int \<Rightarrow> string \<Rightarrow> nat \<Rightarrow> rtSocket \<Rightarrow> handshakeRequest \<Rightarrow> registry \<Rightarrow> (closeCode \<times> string) + registry" where
  "handleConnection env opts now uuid s sk request reg = (case authenticateHandshake (geVerify env) request of
     Inl rejection \<Rightarrow> Inl (closeCodeFor rejection, rejectionName rejection)
   | Inr user \<Rightarrow>
       if int (length (rgSockets reg)) \<ge> roMaxConnections opts then Inl (AtCapacity, ''at capacity'')
       else let audience = \<lparr>auId = prId user, auRole = prRole user\<rparr>; rooms = defaultRoomsFor audience;
                c = \<lparr>rcId = uuid, rcAudience = audience, rcEnd = newEndpoint sk, rcRooms = remdups rooms, rcAwaitingPong = False\<rparr>
         in Inr (onConnection s (connSend env opts now (welcomeFrame uuid audience rooms (roHeartbeatMs opts) (roMaxRooms opts) (roHighWaterMark opts)))
              (regAdd s c reg)))"

datatype roomIntent = Join | Leave

type_synonym roomError = "string \<times> string \<times> string option"

fun parseRoomNames :: "streamAudience \<Rightarrow> roomIntent \<Rightarrow> jsValue list \<Rightarrow> roomError + string list" where
  "parseRoomNames audience intent [] = Inr []"
| "parseRoomNames audience intent (raw # raws) = (case parseRoom raw of
     None \<Rightarrow> Inl (''unknown-room'', ''Not a room this build issues. Rooms are `user:<id>` or `events:<event name>`.'',
       (case raw of VStr s \<Rightarrow> Some s | _ \<Rightarrow> None))
   | Some room \<Rightarrow> if intent = Join \<and> \<not> canJoin audience room
       then Inl (''forbidden-room'', ''This account may not subscribe to that room.'', Some room)
       else rbind (parseRoomNames audience intent raws) (\<lambda>rooms. Inr (room # rooms)))"

definition requestedRooms :: "jsValue \<Rightarrow> jsValue list option" where
  "requestedRooms body = (case body of VObj ms \<Rightarrow> (case map_of ms ''rooms'' of Some (VArr rooms) \<Rightarrow> Some rooms | _ \<Rightarrow> None) | _ \<Rightarrow> None)"

definition parseRooms :: "realtimeOptions \<Rightarrow> rtConnection \<Rightarrow> jsValue \<Rightarrow> roomIntent \<Rightarrow> roomError + string list" where
  "parseRooms opts c body intent = (case requestedRooms body of
     None \<Rightarrow> Inl (''malformed-payload'', ''Expected { '' @ quoted ''rooms'' @ '': ['' @ quoted ''<room>'' @ '', '' @ [ellipsis] @ ''] } with between 1 and '' @ intString (roMaxRooms opts) @ '' room names.'', None)
   | Some raws \<Rightarrow>
       if raws = [] \<or> int (length raws) > roMaxRooms opts
       then Inl (if raws = [] then ''malformed-payload'' else ''room-limit-exceeded'',
         ''A room frame carries between 1 and '' @ intString (roMaxRooms opts) @ '' names.'', None)
       else rbind (parseRoomNames (rcAudience c) intent raws) (\<lambda>rooms.
         if intent = Join \<and> int (length (remdups (rcRooms c @ rooms))) > roMaxRooms opts
         then Inl (''room-limit-exceeded'', ''A connection may hold at most '' @ intString (roMaxRooms opts) @ '' rooms.'', None)
         else Inr rooms))"

text \<open>\<open>rooms.filter(\<dots>)\<close>: the rooms the operation changed, in order.\<close>

fun changeRooms :: "(string \<Rightarrow> registry \<Rightarrow> bool \<times> registry) \<Rightarrow> string list \<Rightarrow> registry \<Rightarrow> string list \<times> registry" where
  "changeRooms change [] reg = ([], reg)"
| "changeRooms change (room # rooms) reg = (case change room reg of (changed, reg') \<Rightarrow> (case changeRooms change rooms reg' of
     (rest, reg'') \<Rightarrow> (if changed then room # rest else rest, reg'')))"

definition replyRooms :: "gatewayEnv \<Rightarrow> realtimeOptions \<Rightarrow> int \<Rightarrow> nat \<Rightarrow> (string list \<Rightarrow> string list \<Rightarrow> realtimeFrame) \<Rightarrow> string list \<times> registry \<Rightarrow> registry" where
  "replyRooms env opts now s frame res = (case res of (changed, reg) \<Rightarrow> (case regGet s reg of
     Some c \<Rightarrow> onConnection s (connSend env opts now (frame changed (rcRooms c))) reg
   | None \<Rightarrow> reg))"

definition handleSubscribe :: "gatewayEnv \<Rightarrow> realtimeOptions \<Rightarrow> int \<Rightarrow> nat \<Rightarrow> jsValue \<Rightarrow> registry \<Rightarrow> registry" where
  "handleSubscribe env opts now s body reg = (case regGet s reg of
     None \<Rightarrow> reg
   | Some c \<Rightarrow> (case parseRooms opts c body Join of
       Inl (code, message, room) \<Rightarrow> onConnection s (connSend env opts now (errorFrame code message room)) reg
     | Inr rooms \<Rightarrow> replyRooms env opts now s subscribedFrame (changeRooms (regJoin s) rooms reg)))"

definition handleUnsubscribe :: "gatewayEnv \<Rightarrow> realtimeOptions \<Rightarrow> int \<Rightarrow> nat \<Rightarrow> jsValue \<Rightarrow> registry \<Rightarrow> registry" where
  "handleUnsubscribe env opts now s body reg = (case regGet s reg of
     None \<Rightarrow> reg
   | Some c \<Rightarrow> (case parseRooms opts c body Leave of
       Inl (code, message, room) \<Rightarrow> onConnection s (connSend env opts now (errorFrame code message room)) reg
     | Inr rooms \<Rightarrow> replyRooms env opts now s unsubscribedFrame (changeRooms (regLeave s) rooms reg)))"

text \<open>The loop of \<open>broadcast\<close> over the members of a room, with the connections considered so far.\<close>

fun broadcastMembers :: "gatewayEnv \<Rightarrow> realtimeOptions \<Rightarrow> int \<Rightarrow> eventEnvelope \<Rightarrow> nat list \<Rightarrow> nat set \<times> registry \<Rightarrow> nat set \<times> registry" where
  "broadcastMembers env opts now event [] st = st"
| "broadcastMembers env opts now event (s # ss) (considered, reg) = broadcastMembers env opts now event ss
     (if s \<in> considered then (considered, reg)
      else (insert s considered, case regGet s reg of
         Some c \<Rightarrow> if isVisibleTo event (rcAudience c) then onConnection s (connSend env opts now (domainEventFrame event)) reg else reg
       | None \<Rightarrow> reg))"

fun broadcastRooms :: "gatewayEnv \<Rightarrow> realtimeOptions \<Rightarrow> int \<Rightarrow> eventEnvelope \<Rightarrow> string list \<Rightarrow> nat set \<times> registry \<Rightarrow> nat set \<times> registry" where
  "broadcastRooms env opts now event [] st = st"
| "broadcastRooms env opts now event (room # rooms) st =
     broadcastRooms env opts now event rooms (broadcastMembers env opts now event (membersOf room (snd st)) st)"

definition broadcast :: "gatewayEnv \<Rightarrow> realtimeOptions \<Rightarrow> int \<Rightarrow> eventEnvelope \<Rightarrow> registry \<Rightarrow> registry" where
  "broadcast env opts now event reg = snd (broadcastRooms env opts now event (roomsFor event) ({}, reg))"

definition sweepConnection :: "gatewayEnv \<Rightarrow> realtimeOptions \<Rightarrow> int \<Rightarrow> rtConnection \<Rightarrow> rtConnection" where
  "sweepConnection env opts now c = (let ep = review (geIso env) (geBytes env) (bpOf opts) now (rcEnd c) in
     if \<not> skOpen (epSocket ep) then c\<lparr>rcEnd := ep\<rparr>
     else if rcAwaitingPong c then c\<lparr>rcEnd := terminateEndpoint ep\<rparr>
     else c\<lparr>rcAwaitingPong := True, rcEnd := pingEndpoint ep\<rparr>)"

definition onEveryConnection :: "(rtConnection \<Rightarrow> rtConnection) \<Rightarrow> registry \<Rightarrow> registry" where
  "onEveryConnection f reg = reg\<lparr>rgSockets := map (\<lambda>(k, c). (k, f c)) (rgSockets reg)\<rparr>"

definition runSweep :: "gatewayEnv \<Rightarrow> realtimeOptions \<Rightarrow> int \<Rightarrow> registry \<Rightarrow> registry" where
  "runSweep env opts now reg = onEveryConnection (sweepConnection env opts now) reg"

definition beforeApplicationShutdown :: "gatewayEnv \<Rightarrow> registry \<Rightarrow> registry" where
  "beforeApplicationShutdown env reg = onEveryConnection (\<lambda>c. c\<lparr>rcEnd := closeEndpoint GoingAway ''server shutting down''
     (sendUnconditionally (geBytes env) farewellFrame (rcEnd c))\<rparr>) reg"

section \<open>The gateway at work\<close>

record gwWorld =
  gwNow :: int
  gwRegistry :: registry
  gwSockets :: "nat set"

inductive gwStep :: "gatewayEnv \<Rightarrow> realtimeOptions \<Rightarrow> gwWorld \<Rightarrow> gwWorld \<Rightarrow> bool" for env opts where
  GwTick: "0 \<le> d \<Longrightarrow> gwStep env opts w (w\<lparr>gwNow := gwNow w + d\<rparr>)"
| GwConnect: "s \<notin> gwSockets w \<Longrightarrow> skSent sk = [] \<Longrightarrow> handleConnection env opts (gwNow w) uuid s sk request (gwRegistry w) = Inr reg \<Longrightarrow>
    gwStep env opts w (w\<lparr>gwRegistry := reg, gwSockets := insert s (gwSockets w)\<rparr>)"
| GwDisconnect: "gwStep env opts w (w\<lparr>gwRegistry := regRemove s (gwRegistry w)\<rparr>)"
| GwSubscribe: "gwStep env opts w (w\<lparr>gwRegistry := handleSubscribe env opts (gwNow w) s body (gwRegistry w)\<rparr>)"
| GwUnsubscribe: "gwStep env opts w (w\<lparr>gwRegistry := handleUnsubscribe env opts (gwNow w) s body (gwRegistry w)\<rparr>)"
| GwEvent: "gwStep env opts w (w\<lparr>gwRegistry := broadcast env opts (gwNow w) event (gwRegistry w)\<rparr>)"
| GwSweep: "gwStep env opts w (w\<lparr>gwRegistry := runSweep env opts (gwNow w) (gwRegistry w)\<rparr>)"
| GwShutdown: "gwStep env opts w (w\<lparr>gwRegistry := beforeApplicationShutdown env (gwRegistry w)\<rparr>)"
| GwPong: "gwStep env opts w (w\<lparr>gwRegistry := onConnection s (\<lambda>c. c\<lparr>rcAwaitingPong := False\<rparr>) (gwRegistry w)\<rparr>)"
| GwPeer: "gwStep env opts w (w\<lparr>gwRegistry := onConnection s (\<lambda>c. c\<lparr>rcEnd := (rcEnd c)\<lparr>epSocket := (epSocket (rcEnd c))\<lparr>skBuffered := n, skOpen := (skOpen (epSocket (rcEnd c)) \<and> up)\<rparr>\<rparr>\<rparr>) (gwRegistry w)\<rparr>)"

definition gwStart :: "int \<Rightarrow> gwWorld" where
  "gwStart now = \<lparr>gwNow = now, gwRegistry = \<lparr>rgSockets = [], rgRooms = []\<rparr>, gwSockets = {}\<rparr>"

section \<open>The two directions agree\<close>

definition roomIndex :: "(string \<times> nat list) list \<Rightarrow> string \<Rightarrow> nat set" where
  "roomIndex rooms room = (case map_of rooms room of Some members \<Rightarrow> set members | None \<Rightarrow> {})"

definition roomsOk :: "(string \<times> nat list) list \<Rightarrow> bool" where
  "roomsOk rooms \<longleftrightarrow> distinct (map fst rooms) \<and> (\<forall>room members. map_of rooms room = Some members \<longrightarrow> members \<noteq> [] \<and> distinct members)"

definition regOk :: "registry \<Rightarrow> bool" where
  "regOk reg \<longleftrightarrow> roomsOk (rgRooms reg) \<and> distinct (map fst (rgSockets reg)) \<and>
     (\<forall>room s. s \<in> roomIndex (rgRooms reg) room \<longleftrightarrow> (\<exists>c. regGet s reg = Some c \<and> room \<in> set (rcRooms c))) \<and>
     (\<forall>s c. regGet s reg = Some c \<longrightarrow> distinct (rcRooms c))"

lemma index_map:
  "map_of (regIndex s room rooms) = (map_of rooms)(room \<mapsto> (case map_of rooms room of Some members \<Rightarrow> if s \<in> set members then members else members @ [s] | None \<Rightarrow> [s]))"
  "distinct (map fst rooms) \<Longrightarrow> distinct (map fst (regIndex s room rooms))"
  by (simp_all add: regIndex_def update_conv' distinct_update split: option.splits)

lemma deindex_map:
  "map_of (regDeindex s room rooms) = (map_of rooms)(room := (case map_of rooms room of
     None \<Rightarrow> None | Some members \<Rightarrow> if removeAll s members = [] then None else Some (removeAll s members)))"
  "distinct (map fst rooms) \<Longrightarrow> distinct (map fst (regDeindex s room rooms))"
  by (simp_all add: regDeindex_def Let_def update_conv' delete_conv' distinct_update distinct_delete fun_upd_idem split: option.splits)

lemma index_ok:
  assumes "roomsOk rooms"
  shows "roomsOk (regIndex s room rooms)" and "roomIndex (regIndex s room rooms) room' = (if room' = room then insert s (roomIndex rooms room) else roomIndex rooms room')"
  using assms by (auto simp: roomsOk_def roomIndex_def index_map simp del: map_of_eq_Some_iff split: option.splits if_splits)

lemma deindex_ok:
  assumes "roomsOk rooms"
  shows "roomsOk (regDeindex s room rooms)" and "roomIndex (regDeindex s room rooms) room' = (if room' = room then roomIndex rooms room - {s} else roomIndex rooms room')"
proof -
  have none: "removeAll s members = [] \<Longrightarrow> set members - {s} = {}" for members :: "nat list" by (metis set_empty set_removeAll)
  show "roomsOk (regDeindex s room rooms)"
    using assms by (auto simp: roomsOk_def deindex_map distinct_removeAll simp del: map_of_eq_Some_iff split: option.splits if_splits)
  show "roomIndex (regDeindex s room rooms) room' = (if room' = room then roomIndex rooms room - {s} else roomIndex rooms room')"
    using none by (auto simp: roomIndex_def deindex_map simp del: map_of_eq_Some_iff split: option.splits if_splits)
qed

lemma fold_index_ok:
  assumes "roomsOk rooms"
  shows "roomsOk (fold (regIndex s) rs rooms) \<and> (\<forall>room. roomIndex (fold (regIndex s) rs rooms) room = (if room \<in> set rs then insert s (roomIndex rooms room) else roomIndex rooms room))"
  using assms by (induction rs arbitrary: rooms) (auto simp: index_ok)

lemma fold_deindex_ok:
  assumes "roomsOk rooms"
  shows "roomsOk (fold (regDeindex s) rs rooms) \<and> (\<forall>room. roomIndex (fold (regDeindex s) rs rooms) room = (if room \<in> set rs then roomIndex rooms room - {s} else roomIndex rooms room))"
  using assms by (induction rs arbitrary: rooms) (auto simp: deindex_ok)

lemma regGet_on: "regGet s' (onConnection s f reg) = (if s' = s then map_option f (regGet s reg) else regGet s' reg)"
proof -
  have "map_of (map (\<lambda>(k, c). (k, if k = s then f c else c)) xs) s' = (if s' = s then map_option f (map_of xs s) else map_of xs s')" for xs
    by (induction xs) auto
  then show ?thesis by (simp add: regGet_def onConnection_def)
qed

lemma on_rest [simp]: "rgRooms (onConnection s f reg) = rgRooms reg" "map fst (rgSockets (onConnection s f reg)) = map fst (rgSockets reg)"
  "length (rgSockets (onConnection s f reg)) = length (rgSockets reg)"
  by (auto simp: onConnection_def split: prod.splits)

lemma regGet_every: "regGet s (onEveryConnection f reg) = map_option f (regGet s reg)"
  by (simp add: regGet_def onEveryConnection_def map_of_map)

lemma every_rest [simp]: "rgRooms (onEveryConnection f reg) = rgRooms reg" "map fst (rgSockets (onEveryConnection f reg)) = map fst (rgSockets reg)"
  "length (rgSockets (onEveryConnection f reg)) = length (rgSockets reg)"
  by (auto simp: onEveryConnection_def)

text \<open>Connections may change in everything but their rooms.\<close>

lemma regOk_same:
  assumes "regOk reg" and "rgRooms reg' = rgRooms reg" and "map fst (rgSockets reg') = map fst (rgSockets reg)"
    and same: "\<And>s. map_option rcRooms (regGet s reg') = map_option rcRooms (regGet s reg)"
  shows "regOk reg'"
proof -
  have "(\<exists>c. regGet s reg' = Some c \<and> room \<in> set (rcRooms c)) \<longleftrightarrow> (\<exists>c. regGet s reg = Some c \<and> room \<in> set (rcRooms c))" for s room
    using same [of s] by (cases "regGet s reg"; cases "regGet s reg'") auto
  moreover have "distinct (rcRooms c)" if "regGet s reg' = Some c" for s c
    using same [of s] that assms(1) unfolding regOk_def by (metis (no_types, lifting) map_option_eq_Some option.map(2))
  ultimately show ?thesis using assms(1-3) by (simp add: regOk_def)
qed

lemma regOk_add:
  assumes "regOk reg" and "regGet s reg = None" and "distinct (rcRooms c)"
  shows "regOk (regAdd s c reg)"
proof -
  have get: "regGet s' (regAdd s c reg) = (if s' = s then Some c else regGet s' reg)" for s' by (simp add: regGet_def regAdd_def update_conv')
  show ?thesis using assms fold_index_ok [of "rgRooms reg" s "rcRooms c"] unfolding regOk_def get by (auto simp: regAdd_def distinct_update)
qed

lemma regOk_remove:
  assumes "regOk reg"
  shows "regOk (regRemove s reg)"
proof (cases "regGet s reg")
  case (Some c)
  have get: "regGet s' (regRemove s reg) = (if s' = s then None else regGet s' reg)" for s' using Some by (simp add: regGet_def regRemove_def delete_conv')
  show ?thesis using assms Some fold_deindex_ok [of "rgRooms reg" s "rcRooms c"] unfolding regOk_def get by (auto simp: regRemove_def distinct_delete)
qed (use assms in \<open>simp add: regRemove_def\<close>)

lemma regGet_rooms [simp]: "regGet s (reg\<lparr>rgRooms := rs\<rparr>) = regGet s reg"
  by (simp add: regGet_def)

lemma regJoin_ok:
  assumes ok: "regOk reg" and c: "regGet s reg = Some c" and j: "regJoin s room reg = (changed, reg')"
  shows "regOk reg' \<and> (\<forall>s'. s' \<noteq> s \<longrightarrow> regGet s' reg' = regGet s' reg) \<and> map fst (rgSockets reg') = map fst (rgSockets reg) \<and>
    (\<exists>c'. regGet s reg' = Some c' \<and> c' = c\<lparr>rcRooms := rcRooms c'\<rparr> \<and> set (rcRooms c') = insert room (set (rcRooms c)))"
proof (cases "room \<in> set (rcRooms c)")
  case True
  then show ?thesis using ok c j by (auto simp: regJoin_def)
next
  case False
  let ?reg = "(onConnection s (\<lambda>c. c\<lparr>rcRooms := rcRooms c @ [room]\<rparr>) reg)\<lparr>rgRooms := regIndex s room (rgRooms reg)\<rparr>"
  have reg': "reg' = ?reg" using j c False by (simp add: regJoin_def)
  have get: "regGet s' ?reg = (if s' = s then Some (c\<lparr>rcRooms := rcRooms c @ [room]\<rparr>) else regGet s' reg)" for s' using c by (simp add: regGet_on)
  have "regOk ?reg" using ok c False index_ok [of "rgRooms reg" s room] unfolding regOk_def get by auto
  then show ?thesis unfolding reg' using c by (auto simp: regGet_on)
qed

lemma regLeave_ok:
  assumes ok: "regOk reg" and c: "regGet s reg = Some c" and j: "regLeave s room reg = (changed, reg')"
  shows "regOk reg' \<and> (\<forall>s'. s' \<noteq> s \<longrightarrow> regGet s' reg' = regGet s' reg) \<and> map fst (rgSockets reg') = map fst (rgSockets reg) \<and>
    (\<exists>c'. regGet s reg' = Some c' \<and> c' = c\<lparr>rcRooms := rcRooms c'\<rparr> \<and> set (rcRooms c') = set (rcRooms c) - {room})"
proof (cases "room \<in> set (rcRooms c)")
  case False
  then show ?thesis using ok c j by (auto simp: regLeave_def)
next
  case True
  let ?reg = "(onConnection s (\<lambda>c. c\<lparr>rcRooms := removeAll room (rcRooms c)\<rparr>) reg)\<lparr>rgRooms := regDeindex s room (rgRooms reg)\<rparr>"
  have reg': "reg' = ?reg" using j c True by (simp add: regLeave_def)
  have get: "regGet s' ?reg = (if s' = s then Some (c\<lparr>rcRooms := removeAll room (rcRooms c)\<rparr>) else regGet s' reg)" for s' using c by (simp add: regGet_on)
  have "regOk ?reg" using ok c True deindex_ok [of "rgRooms reg" s room] unfolding regOk_def get by (auto simp: distinct_removeAll)
  then show ?thesis unfolding reg' using c by (auto simp: regGet_on)
qed

section \<open>What a connection is sent\<close>

definition controlEvents :: "string list" where
  "controlEvents = [''realtime.welcome'', ''realtime.subscribed'', ''realtime.unsubscribed'', ''realtime.lagged'', ''realtime.error'', ''realtime.closing'']"

definition mayReceive :: "streamAudience \<Rightarrow> realtimeFrame \<Rightarrow> bool" where
  "mayReceive audience f \<longleftrightarrow> rfEvent f \<in> set controlEvents \<or> (\<exists>event. f = domainEventFrame event \<and> isVisibleTo event audience)"

lemma control_frames [simp]:
  "mayReceive a (welcomeFrame i au rs h m hw)" "mayReceive a (subscribedFrame rs ts)" "mayReceive a (unsubscribedFrame rs ts)"
  "mayReceive a (laggedFrame isoOf n t)" "mayReceive a (errorFrame code message room)" "mayReceive a farewellFrame"
  by (simp_all add: mayReceive_def controlEvents_def welcomeFrame_def subscribedFrame_def unsubscribedFrame_def laggedFrame_def errorFrame_def farewellFrame_def)

definition onlyVisible :: "streamAudience \<Rightarrow> endpoint \<Rightarrow> bool" where
  "onlyVisible audience ep \<longleftrightarrow> (\<forall>f \<in> set (skSent (epSocket ep)). mayReceive audience f)"

lemmas endpoint_defs = writeFrame_def stayLagging_def closeSlow_def shutSocket_def recover_def closeEndpoint_def pingEndpoint_def terminateEndpoint_def
  sendUnconditionally_def Let_def

lemma send_visible: "onlyVisible a ep \<Longrightarrow> mayReceive a f \<Longrightarrow> onlyVisible a (snd (sendFrame isoOf bytes opts now f ep))"
  by (auto simp: onlyVisible_def sendFrame_def endpoint_defs split: option.splits)

lemma review_visible: "onlyVisible a ep \<Longrightarrow> onlyVisible a (review isoOf bytes opts now ep)"
  by (auto simp: onlyVisible_def review_def endpoint_defs split: option.splits)

definition connectionOk :: "realtimeOptions \<Rightarrow> rtConnection \<Rightarrow> bool" where
  "connectionOk opts c \<longleftrightarrow> onlyVisible (rcAudience c) (rcEnd c) \<and> (\<forall>room \<in> set (rcRooms c). canJoin (rcAudience c) room) \<and>
     int (card (set (rcRooms c))) \<le> max 1 (roMaxRooms opts)"

definition gwOk :: "realtimeOptions \<Rightarrow> gwWorld \<Rightarrow> bool" where
  "gwOk opts w \<longleftrightarrow> regOk (gwRegistry w) \<and> (\<forall>s c. regGet s (gwRegistry w) = Some c \<longrightarrow> connectionOk opts c) \<and>
     int (length (rgSockets (gwRegistry w))) \<le> max 0 (roMaxConnections opts) \<and> fst ` set (rgSockets (gwRegistry w)) \<subseteq> gwSockets w"

lemma gwOkI:
  assumes "regOk (gwRegistry w)" and "\<And>s c. regGet s (gwRegistry w) = Some c \<Longrightarrow> connectionOk opts c"
    and "int (length (rgSockets (gwRegistry w))) \<le> max 0 (roMaxConnections opts)" and "fst ` set (rgSockets (gwRegistry w)) \<subseteq> gwSockets w"
  shows "gwOk opts w"
  using assms unfolding gwOk_def by blast

lemma gwOkD:
  assumes "gwOk opts w"
  shows "regOk (gwRegistry w)" and "regGet s (gwRegistry w) = Some c \<Longrightarrow> connectionOk opts c"
    and "int (length (rgSockets (gwRegistry w))) \<le> max 0 (roMaxConnections opts)" and "fst ` set (rgSockets (gwRegistry w)) \<subseteq> gwSockets w"
  using assms unfolding gwOk_def by blast+

lemma connSend_rest [simp]: "rcRooms (connSend env opts now f c) = rcRooms c" "rcAudience (connSend env opts now f c) = rcAudience c"
  by (simp_all add: connSend_def)

lemma connSend_ok: "connectionOk opts c \<Longrightarrow> mayReceive (rcAudience c) f \<Longrightarrow> connectionOk opts (connSend env opts now f c)"
  using send_visible by (auto simp: connectionOk_def connSend_def)

text \<open>A handler that keeps the rooms and, connection by connection, what they are sent.\<close>

lemma gwOk_keep:
  assumes ok: "gwOk opts w" and w': "gwSockets w' = gwSockets w" "rgRooms (gwRegistry w') = rgRooms (gwRegistry w)"
      "map fst (rgSockets (gwRegistry w')) = map fst (rgSockets (gwRegistry w))"
    and rooms: "\<And>s. map_option rcRooms (regGet s (gwRegistry w')) = map_option rcRooms (regGet s (gwRegistry w))"
    and conns: "\<And>s c. regGet s (gwRegistry w') = Some c \<Longrightarrow> connectionOk opts c"
  shows "gwOk opts w'"
proof (rule gwOkI)
  show "regOk (gwRegistry w')" using regOk_same [OF gwOkD(1) [OF ok] w'(2,3) rooms] .
  show "int (length (rgSockets (gwRegistry w'))) \<le> max 0 (roMaxConnections opts)" using gwOkD(3) [OF ok] w'(3) by (metis length_map)
  show "fst ` set (rgSockets (gwRegistry w')) \<subseteq> gwSockets w'" using gwOkD(4) [OF ok] w' by (metis list.set_map)
qed (use conns in blast)

lemma gwOk_one:
  assumes ok: "gwOk opts w" and f: "\<And>c. regGet s (gwRegistry w) = Some c \<Longrightarrow> connectionOk opts c \<Longrightarrow> connectionOk opts (f c) \<and> rcRooms (f c) = rcRooms c"
  shows "gwOk opts (w\<lparr>gwRegistry := onConnection s f (gwRegistry w)\<rparr>)"
proof (rule gwOk_keep [OF ok])
  show "map_option rcRooms (regGet s' (gwRegistry (w\<lparr>gwRegistry := onConnection s f (gwRegistry w)\<rparr>))) = map_option rcRooms (regGet s' (gwRegistry w))" for s'
    using f gwOkD(2) [OF ok] by (cases "regGet s (gwRegistry w)") (simp_all add: regGet_on)
  show "connectionOk opts c" if "regGet s' (gwRegistry (w\<lparr>gwRegistry := onConnection s f (gwRegistry w)\<rparr>)) = Some c" for s' c
    using that f gwOkD(2) [OF ok] by (auto simp: regGet_on split: if_splits)
qed simp_all

lemma gwOk_every:
  assumes ok: "gwOk opts w" and f: "\<And>c. connectionOk opts c \<Longrightarrow> connectionOk opts (f c) \<and> rcRooms (f c) = rcRooms c"
  shows "gwOk opts (w\<lparr>gwRegistry := onEveryConnection f (gwRegistry w)\<rparr>)"
proof (rule gwOk_keep [OF ok])
  show "map_option rcRooms (regGet s' (gwRegistry (w\<lparr>gwRegistry := onEveryConnection f (gwRegistry w)\<rparr>))) = map_option rcRooms (regGet s' (gwRegistry w))" for s'
    using f gwOkD(2) [OF ok] by (cases "regGet s' (gwRegistry w)") (simp_all add: regGet_every)
  show "connectionOk opts c" if "regGet s' (gwRegistry (w\<lparr>gwRegistry := onEveryConnection f (gwRegistry w)\<rparr>)) = Some c" for s' c
    using that f gwOkD(2) [OF ok] by (auto simp: regGet_every)
qed simp_all

section \<open>Fan-out\<close>

lemma membersOf_index: "set (membersOf room reg) = roomIndex (rgRooms reg) room"
  by (simp add: membersOf_def roomIndex_def split: option.splits)

lemma membersOf_ok: "regOk reg \<Longrightarrow> s \<in> set (membersOf room reg) \<longleftrightarrow> (\<exists>c. regGet s reg = Some c \<and> room \<in> set (rcRooms c))"
  unfolding membersOf_index regOk_def by blast

definition deliverTo :: "gatewayEnv \<Rightarrow> realtimeOptions \<Rightarrow> int \<Rightarrow> eventEnvelope \<Rightarrow> rtConnection \<Rightarrow> rtConnection" where
  "deliverTo env opts now event c = (if isVisibleTo event (rcAudience c) then connSend env opts now (domainEventFrame event) c else c)"

lemma deliverTo_rest [simp]: "rcRooms (deliverTo env opts now event c) = rcRooms c" "rcAudience (deliverTo env opts now event c) = rcAudience c"
  by (simp_all add: deliverTo_def)

lemma broadcast_members:
  assumes "broadcastMembers env opts now event ss (C, reg) = (C', reg')"
  shows "C' = C \<union> set ss \<and> rgRooms reg' = rgRooms reg \<and> map fst (rgSockets reg') = map fst (rgSockets reg) \<and>
    (\<forall>s. regGet s reg' = (if s \<in> set ss - C then map_option (deliverTo env opts now event) (regGet s reg) else regGet s reg))"
  using assms
proof (induction ss arbitrary: C reg)
  case Nil
  then show ?case by simp
next
  case (Cons s ss)
  show ?case
  proof (cases "s \<in> C")
    case True
    then show ?thesis using Cons.IH [of C reg] Cons.prems by auto
  next
    case False
    define r where "r = (case regGet s reg of
      Some c \<Rightarrow> if isVisibleTo event (rcAudience c) then onConnection s (connSend env opts now (domainEventFrame event)) reg else reg | None \<Rightarrow> reg)"
    have get: "regGet s' r = (if s' = s then map_option (deliverTo env opts now event) (regGet s reg) else regGet s' reg)" for s'
      by (auto simp: r_def deliverTo_def regGet_on split: option.splits)
    have rest: "rgRooms r = rgRooms reg" "map fst (rgSockets r) = map fst (rgSockets reg)" by (simp_all add: r_def split: option.splits)
    have "broadcastMembers env opts now event ss (insert s C, r) = (C', reg')" using Cons.prems False by (simp add: r_def)
    from Cons.IH [OF this] show ?thesis using False rest by (auto simp: get)
  qed
qed

lemma broadcast_rooms:
  assumes "broadcastRooms env opts now event rooms (C, reg) = (C', reg')"
  shows "rgRooms reg' = rgRooms reg \<and> map fst (rgSockets reg') = map fst (rgSockets reg) \<and>
    (\<forall>s. regGet s reg' = (if s \<in> (\<Union>room \<in> set rooms. set (membersOf room reg)) - C then map_option (deliverTo env opts now event) (regGet s reg) else regGet s reg))"
  using assms
proof (induction rooms arbitrary: C reg)
  case Nil
  then show ?case by simp
next
  case (Cons room rooms)
  obtain C1 r where m: "broadcastMembers env opts now event (membersOf room reg) (C, reg) = (C1, r)" by fastforce
  note one = broadcast_members [OF m]
  have "broadcastRooms env opts now event rooms (C1, r) = (C', reg')" using Cons.prems m by simp
  from Cons.IH [OF this] have rest: "rgRooms reg' = rgRooms r" "map fst (rgSockets reg') = map fst (rgSockets r)"
    and get: "\<And>s. regGet s reg' = (if s \<in> (\<Union>room \<in> set rooms. set (membersOf room r)) - C1 then map_option (deliverTo env opts now event) (regGet s r) else regGet s r)"
    by auto
  have "membersOf room' r = membersOf room' reg" for room' using one by (simp add: membersOf_def)
  then show ?case using one rest by (auto simp: get)
qed

lemma broadcast_exact:
  assumes "regOk reg"
  shows "rgRooms (broadcast env opts now event reg) = rgRooms reg" and "map fst (rgSockets (broadcast env opts now event reg)) = map fst (rgSockets reg)"
    and "regGet s (broadcast env opts now event reg) = map_option (\<lambda>c. if set (roomsFor event) \<inter> set (rcRooms c) \<noteq> {} then deliverTo env opts now event c else c) (regGet s reg)"
proof -
  obtain C reg' where b: "broadcastRooms env opts now event (roomsFor event) ({}, reg) = (C, reg')" by fastforce
  note r = broadcast_rooms [OF b]
  show "rgRooms (broadcast env opts now event reg) = rgRooms reg" "map fst (rgSockets (broadcast env opts now event reg)) = map fst (rgSockets reg)"
    using r b by (simp_all add: broadcast_def)
  have "s \<in> (\<Union>room \<in> set (roomsFor event). set (membersOf room reg)) \<longleftrightarrow> (\<exists>c. regGet s reg = Some c \<and> set (roomsFor event) \<inter> set (rcRooms c) \<noteq> {})"
    using membersOf_ok [OF assms] by auto
  then show "regGet s (broadcast env opts now event reg) = map_option (\<lambda>c. if set (roomsFor event) \<inter> set (rcRooms c) \<noteq> {} then deliverTo env opts now event c else c) (regGet s reg)"
    using r b by (cases "regGet s reg") (simp_all add: broadcast_def)
qed

section \<open>Room frames\<close>

text \<open>What \<open>join\<close> and \<open>leave\<close> keep: every other connection, the sockets, and everything of this one but its rooms.\<close>

definition onlyRooms :: "nat \<Rightarrow> rtConnection \<Rightarrow> string set \<Rightarrow> registry \<Rightarrow> registry \<Rightarrow> bool" where
  "onlyRooms s c R reg reg' \<longleftrightarrow> regOk reg' \<and> (\<forall>s'. s' \<noteq> s \<longrightarrow> regGet s' reg' = regGet s' reg) \<and> map fst (rgSockets reg') = map fst (rgSockets reg) \<and>
     (\<exists>c'. regGet s reg' = Some c' \<and> c' = c\<lparr>rcRooms := rcRooms c'\<rparr> \<and> set (rcRooms c') = R)"

lemma onlyRooms_trans:
  assumes "onlyRooms s c R reg reg1" and "regGet s reg1 = Some c1" and "onlyRooms s c1 R' reg1 reg2"
  shows "onlyRooms s c R' reg reg2"
proof -
  have c1: "c1 = c\<lparr>rcRooms := rcRooms c1\<rparr>" using assms(1,2) by (auto simp: onlyRooms_def)
  obtain c2 where c2: "regGet s reg2 = Some c2" "c2 = c1\<lparr>rcRooms := rcRooms c2\<rparr>" "set (rcRooms c2) = R'" using assms(3) by (auto simp: onlyRooms_def)
  have "c2 = (c\<lparr>rcRooms := rcRooms c1\<rparr>)\<lparr>rcRooms := rcRooms c2\<rparr>" using c1 c2(2) by simp
  then have "c2 = c\<lparr>rcRooms := rcRooms c2\<rparr>" by simp
  then show ?thesis using assms(1,3) c2(1,3) unfolding onlyRooms_def by metis
qed

lemma change_rooms:
  assumes "regOk reg" and "regGet s reg = Some c" and "changeRooms change rooms reg = (changed, reg')"
    and one: "\<And>room reg c b r. regOk reg \<Longrightarrow> regGet s reg = Some c \<Longrightarrow> change room reg = (b, r) \<Longrightarrow> onlyRooms s c (g room (set (rcRooms c))) reg r"
  shows "onlyRooms s c (fold g rooms (set (rcRooms c))) reg reg'"
  using assms(1-3)
proof (induction rooms arbitrary: reg c changed)
  case Nil
  then show ?case by (auto simp: onlyRooms_def)
next
  case (Cons room rooms)
  obtain b r where r: "change room reg = (b, r)" by fastforce
  obtain rest where rest: "changeRooms change rooms r = (rest, reg')" using Cons.prems(3) r by (auto split: prod.splits)
  have o1: "onlyRooms s c (g room (set (rcRooms c))) reg r" by (rule one [OF Cons.prems(1,2) r])
  then obtain c1 where c1: "regGet s r = Some c1" "set (rcRooms c1) = g room (set (rcRooms c))" "regOk r" by (auto simp: onlyRooms_def)
  have "onlyRooms s c1 (fold g rooms (set (rcRooms c1))) r reg'" by (rule Cons.IH [OF c1(3,1) rest])
  then show ?case using onlyRooms_trans [OF o1 c1(1)] c1(2) by simp
qed

lemma fold_insert: "fold insert rooms R = set rooms \<union> R"
  by (induction rooms arbitrary: R) auto

lemma fold_less: "fold (\<lambda>room R. R - {room}) rooms R = R - set rooms"
  by (induction rooms arbitrary: R) auto

lemma join_rooms:
  assumes "regOk reg" and "regGet s reg = Some c" and "changeRooms (regJoin s) rooms reg = (changed, reg')"
  shows "onlyRooms s c (set rooms \<union> set (rcRooms c)) reg reg'"
proof -
  have "onlyRooms s c (insert room (set (rcRooms c))) reg r" if "regOk reg" "regGet s reg = Some c" "regJoin s room reg = (b, r)" for room reg c b r
    unfolding onlyRooms_def by (rule regJoin_ok [OF that])
  from change_rooms [OF assms, where g = insert, OF this] show ?thesis by (simp only: fold_insert)
qed

lemma leave_rooms:
  assumes "regOk reg" and "regGet s reg = Some c" and "changeRooms (regLeave s) rooms reg = (changed, reg')"
  shows "onlyRooms s c (set (rcRooms c) - set rooms) reg reg'"
proof -
  have "onlyRooms s c ((\<lambda>room R. R - {room}) room (set (rcRooms c))) reg r" if "regOk reg" "regGet s reg = Some c" "regLeave s room reg = (b, r)" for room reg c b r
    unfolding onlyRooms_def by (rule regLeave_ok [OF that])
  from change_rooms [OF assms, where g = "\<lambda>room R. R - {room}", OF this] show ?thesis by (simp only: fold_less)
qed

lemma parse_names_step:
  assumes "parseRoomNames audience Join (raw # raws) = Inr rooms"
  shows "\<exists>room rest. rooms = room # rest \<and> canJoin audience room \<and> parseRoomNames audience Join raws = Inr rest"
proof (cases "parseRoom raw")
  case None
  then show ?thesis using assms by simp
next
  case (Some room)
  show ?thesis
  proof (cases "canJoin audience room")
    case True
    then show ?thesis using assms Some by (cases "parseRoomNames audience Join raws") auto
  qed (use assms Some in simp)
qed

lemma parse_names_join: "parseRoomNames audience Join raws = Inr rooms \<Longrightarrow> room \<in> set rooms \<Longrightarrow> canJoin audience room"
proof (induction raws arbitrary: rooms)
  case (Cons raw raws)
  from parse_names_step [OF Cons.prems(1)] Cons show ?case by auto
qed simp

lemma parse_join:
  assumes "parseRooms opts c body Join = Inr rooms"
  shows "\<forall>room \<in> set rooms. canJoin (rcAudience c) room" and "int (card (set rooms \<union> set (rcRooms c))) \<le> roMaxRooms opts"
proof -
  obtain raws where r: "parseRoomNames (rcAudience c) Join raws = Inr rooms" "int (length (remdups (rcRooms c @ rooms))) \<le> roMaxRooms opts"
    using assms by (auto simp: parseRooms_def rbind_eq_Inr_iff simp del: remdups.simps split: option.splits if_splits)
  show "\<forall>room \<in> set rooms. canJoin (rcAudience c) room" using parse_names_join [OF r(1)] by blast
  have "length (remdups (rcRooms c @ rooms)) = card (set (rcRooms c) \<union> set rooms)" by (simp add: length_remdups_card_conv)
  then show "int (card (set rooms \<union> set (rcRooms c))) \<le> roMaxRooms opts" using r(2) by (simp add: Un_commute)
qed

lemma gwOk_rooms:
  assumes ok: "gwOk opts w" and c: "regGet s (gwRegistry w) = Some c" and o1: "onlyRooms s c R (gwRegistry w) reg"
    and R: "\<forall>room \<in> R. canJoin (rcAudience c) room" "int (card R) \<le> max 1 (roMaxRooms opts)"
  shows "gwOk opts (w\<lparr>gwRegistry := reg\<rparr>)"
proof (rule gwOkI)
  show "connectionOk opts c'" if "regGet s' (gwRegistry (w\<lparr>gwRegistry := reg\<rparr>)) = Some c'" for s' c'
  proof (cases "s' = s")
    case True
    then have c': "c' = c\<lparr>rcRooms := rcRooms c'\<rparr>" "set (rcRooms c') = R" using that o1 by (auto simp: onlyRooms_def)
    then have "rcAudience c' = rcAudience c" "rcEnd c' = rcEnd c" by (metis rtConnection.select_convs(2) rtConnection.surjective rtConnection.update_convs(4), metis rtConnection.select_convs(3) rtConnection.surjective rtConnection.update_convs(4))
    then show ?thesis using R c'(2) gwOkD(2) [OF ok c] by (simp add: connectionOk_def)
  qed (use that o1 gwOkD(2) [OF ok] in \<open>auto simp: onlyRooms_def\<close>)
  have fsts: "map fst (rgSockets reg) = map fst (rgSockets (gwRegistry w))" using o1 by (simp add: onlyRooms_def)
  show "int (length (rgSockets (gwRegistry (w\<lparr>gwRegistry := reg\<rparr>)))) \<le> max 0 (roMaxConnections opts)"
    using gwOkD(3) [OF ok] arg_cong [OF fsts, of length] by simp
  show "fst ` set (rgSockets (gwRegistry (w\<lparr>gwRegistry := reg\<rparr>))) \<subseteq> gwSockets (w\<lparr>gwRegistry := reg\<rparr>)"
    using gwOkD(4) [OF ok] arg_cong [OF fsts, of set] by simp
qed (use o1 in \<open>simp add: onlyRooms_def\<close>)

lemma reply_ok:
  assumes "gwOk opts (w\<lparr>gwRegistry := reg\<rparr>)" and "\<And>a rs ts. mayReceive a (frame rs ts)"
  shows "gwOk opts (w\<lparr>gwRegistry := replyRooms env opts now s frame (changed, reg)\<rparr>)"
proof (cases "regGet s reg")
  case (Some c)
  then show ?thesis using gwOk_one [OF assms(1), of s "connSend env opts now (frame changed (rcRooms c))"] assms(2) connSend_ok by (simp add: replyRooms_def)
qed (use assms(1) in \<open>simp add: replyRooms_def\<close>)

lemma error_ok:
  assumes "gwOk opts w"
  shows "gwOk opts (w\<lparr>gwRegistry := onConnection s (connSend env opts now (errorFrame code message room)) (gwRegistry w)\<rparr>)"
  using gwOk_one [OF assms] connSend_ok by simp

section \<open>Every handler\<close>

lemma connect_gw:
  assumes ok: "gwOk opts w" and new: "s \<notin> gwSockets w" and sk: "skSent sk = []"
    and h: "handleConnection env opts now uuid s sk request (gwRegistry w) = Inr reg"
  shows "gwOk opts (w\<lparr>gwRegistry := reg, gwSockets := insert s (gwSockets w)\<rparr>)"
proof -
  obtain user where auth: "authenticateHandshake (geVerify env) request = Inr user" using h by (auto simp: handleConnection_def split: sum.splits)
  define audience where "audience = \<lparr>auId = prId user, auRole = prRole user\<rparr>"
  define f where "f = welcomeFrame uuid audience [userRoom (auId audience)] (roHeartbeatMs opts) (roMaxRooms opts) (roHighWaterMark opts)"
  have f: "mayReceive a f" for a by (simp add: f_def)
  have room: "int (length (rgSockets (gwRegistry w))) < roMaxConnections opts"
    and reg: "reg = onConnection s (connSend env opts now f) (regAdd s \<lparr>rcId = uuid, rcAudience = audience, rcEnd = newEndpoint sk,
      rcRooms = [userRoom (auId audience)], rcAwaitingPong = False\<rparr> (gwRegistry w))"
    using h auth by (auto simp: handleConnection_def Let_def defaultRoomsFor_def audience_def f_def split: if_splits)
  let ?c = "\<lparr>rcId = uuid, rcAudience = audience, rcEnd = newEndpoint sk, rcRooms = [userRoom (auId audience)], rcAwaitingPong = False\<rparr>"
  let ?w = "w\<lparr>gwRegistry := regAdd s ?c (gwRegistry w), gwSockets := insert s (gwSockets w)\<rparr>"
  have s: "s \<notin> fst ` set (rgSockets (gwRegistry w))" using new gwOkD(4) [OF ok] by blast
  then have none: "regGet s (gwRegistry w) = None" by (simp add: regGet_def map_of_eq_None_iff)
  have upd: "AList.update s ?c (rgSockets (gwRegistry w)) = rgSockets (gwRegistry w) @ [(s, ?c)]" using s by (rule update_new)
  have "gwOk opts ?w"
  proof (rule gwOkI)
    show "regOk (gwRegistry ?w)" using regOk_add [OF gwOkD(1) [OF ok] none] by simp
    show "connectionOk opts c" if "regGet s' (gwRegistry ?w) = Some c" for s' c
    proof (cases "s' = s")
      case True
      then have "c = ?c" using that by (simp add: regGet_def regAdd_def update_conv')
      then show ?thesis using sk by (simp add: connectionOk_def onlyVisible_def newEndpoint_def canJoin_def)
    next
      case False
      then have "regGet s' (gwRegistry w) = Some c" using that by (simp add: regGet_def regAdd_def update_conv')
      then show ?thesis by (rule gwOkD(2) [OF ok])
    qed
    show "int (length (rgSockets (gwRegistry ?w))) \<le> max 0 (roMaxConnections opts)" using room by (simp add: regAdd_def upd)
    show "fst ` set (rgSockets (gwRegistry ?w)) \<subseteq> gwSockets ?w" using gwOkD(4) [OF ok] by (auto simp: regAdd_def upd)
  qed
  then have "gwOk opts (?w\<lparr>gwRegistry := onConnection s (connSend env opts now f) (gwRegistry ?w)\<rparr>)"
    by (rule gwOk_one) (simp add: connSend_ok f)
  moreover have "?w\<lparr>gwRegistry := onConnection s (connSend env opts now f) (gwRegistry ?w)\<rparr> = w\<lparr>gwRegistry := reg, gwSockets := insert s (gwSockets w)\<rparr>"
    using reg by simp
  ultimately show ?thesis by simp
qed

lemma set_delete_subset: "set (AList.delete k al) \<subseteq> set al"
  by (induction al) (auto split: if_splits)

lemma disconnect_gw:
  assumes ok: "gwOk opts w"
  shows "gwOk opts (w\<lparr>gwRegistry := regRemove s (gwRegistry w)\<rparr>)"
proof (cases "regGet s (gwRegistry w)")
  case (Some c)
  have socks: "rgSockets (regRemove s (gwRegistry w)) = AList.delete s (rgSockets (gwRegistry w))" using Some by (simp add: regRemove_def)
  show ?thesis
  proof (rule gwOkI)
    show "connectionOk opts c'" if "regGet s' (gwRegistry (w\<lparr>gwRegistry := regRemove s (gwRegistry w)\<rparr>)) = Some c'" for s' c'
      using that gwOkD(2) [OF ok] by (auto simp: regGet_def socks delete_conv' split: if_splits)
    show "int (length (rgSockets (gwRegistry (w\<lparr>gwRegistry := regRemove s (gwRegistry w)\<rparr>)))) \<le> max 0 (roMaxConnections opts)"
      using gwOkD(3) [OF ok] length_delete_le [of s "rgSockets (gwRegistry w)"] by (simp add: socks)
    show "fst ` set (rgSockets (gwRegistry (w\<lparr>gwRegistry := regRemove s (gwRegistry w)\<rparr>))) \<subseteq> gwSockets (w\<lparr>gwRegistry := regRemove s (gwRegistry w)\<rparr>)"
      using gwOkD(4) [OF ok] set_delete_subset [of s "rgSockets (gwRegistry w)"] by (auto simp: socks)
  qed (use regOk_remove [OF gwOkD(1) [OF ok]] in simp)
qed (use ok in \<open>simp add: regRemove_def\<close>)

lemma subscribe_gw:
  assumes ok: "gwOk opts w"
  shows "gwOk opts (w\<lparr>gwRegistry := handleSubscribe env opts now s body (gwRegistry w)\<rparr>)"
proof (cases "regGet s (gwRegistry w)")
  case (Some c)
  show ?thesis
  proof (cases "parseRooms opts c body Join")
    case (Inl e)
    then show ?thesis using Some error_ok [OF ok] by (cases e) (simp add: handleSubscribe_def)
  next
    case (Inr rooms)
    obtain ch reg where ch: "changeRooms (regJoin s) rooms (gwRegistry w) = (ch, reg)" by fastforce
    have "gwOk opts (w\<lparr>gwRegistry := reg\<rparr>)"
      by (rule gwOk_rooms [OF ok Some join_rooms [OF gwOkD(1) [OF ok] Some ch]])
        (use parse_join [OF Inr] gwOkD(2) [OF ok Some] in \<open>auto simp: connectionOk_def\<close>)
    then show ?thesis using Some Inr ch reply_ok by (simp add: handleSubscribe_def)
  qed
qed (use ok in \<open>simp add: handleSubscribe_def\<close>)

lemma unsubscribe_gw:
  assumes ok: "gwOk opts w"
  shows "gwOk opts (w\<lparr>gwRegistry := handleUnsubscribe env opts now s body (gwRegistry w)\<rparr>)"
proof (cases "regGet s (gwRegistry w)")
  case (Some c)
  show ?thesis
  proof (cases "parseRooms opts c body Leave")
    case (Inl e)
    then show ?thesis using Some error_ok [OF ok] by (cases e) (simp add: handleUnsubscribe_def)
  next
    case (Inr rooms)
    obtain ch reg where ch: "changeRooms (regLeave s) rooms (gwRegistry w) = (ch, reg)" by fastforce
    have "card (set (rcRooms c) - set rooms) \<le> card (set (rcRooms c))" by (simp add: card_mono)
    then have "gwOk opts (w\<lparr>gwRegistry := reg\<rparr>)"
      by (intro gwOk_rooms [OF ok Some leave_rooms [OF gwOkD(1) [OF ok] Some ch]])
        (use gwOkD(2) [OF ok Some] in \<open>auto simp: connectionOk_def\<close>)
    then show ?thesis using Some Inr ch reply_ok by (simp add: handleUnsubscribe_def)
  qed
qed (use ok in \<open>simp add: handleUnsubscribe_def\<close>)

lemma event_gw:
  assumes ok: "gwOk opts w"
  shows "gwOk opts (w\<lparr>gwRegistry := broadcast env opts now event (gwRegistry w)\<rparr>)"
proof -
  note b = broadcast_exact [OF gwOkD(1) [OF ok], where env = env and opts = opts and now = now and event = event]
  have one: "connectionOk opts (deliverTo env opts now event c)" if "connectionOk opts c" for c
  proof -
    have "mayReceive (rcAudience c) (domainEventFrame event)" if "isVisibleTo event (rcAudience c)" using that by (auto simp: mayReceive_def)
    then show ?thesis using \<open>connectionOk opts c\<close> by (simp add: deliverTo_def connSend_ok)
  qed
  show ?thesis
  proof (rule gwOk_keep [OF ok])
    show "map_option rcRooms (regGet s (gwRegistry (w\<lparr>gwRegistry := broadcast env opts now event (gwRegistry w)\<rparr>))) = map_option rcRooms (regGet s (gwRegistry w))" for s
      by (cases "regGet s (gwRegistry w)") (simp_all add: b)
    show "connectionOk opts c" if "regGet s (gwRegistry (w\<lparr>gwRegistry := broadcast env opts now event (gwRegistry w)\<rparr>)) = Some c" for s c
      using that one gwOkD(2) [OF ok] by (auto simp: b split: if_splits)
  qed (simp_all add: b)
qed

lemma sweep_gw: "gwOk opts w \<Longrightarrow> gwOk opts (w\<lparr>gwRegistry := runSweep env opts now (gwRegistry w)\<rparr>)"
  unfolding runSweep_def
proof (rule gwOk_every)
  fix c assume "connectionOk opts c"
  then show "connectionOk opts (sweepConnection env opts now c) \<and> rcRooms (sweepConnection env opts now c) = rcRooms c"
    using review_visible [of "rcAudience c" "rcEnd c"] by (auto simp: sweepConnection_def connectionOk_def Let_def onlyVisible_def pingEndpoint_def terminateEndpoint_def)
qed

lemma shutdown_gw: "gwOk opts w \<Longrightarrow> gwOk opts (w\<lparr>gwRegistry := beforeApplicationShutdown env (gwRegistry w)\<rparr>)"
  unfolding beforeApplicationShutdown_def
  by (rule gwOk_every) (auto simp: connectionOk_def onlyVisible_def endpoint_defs)

lemma gw_step_ok:
  assumes "gwStep env opts w w'" and ok: "gwOk opts w"
  shows "gwOk opts w'"
  using assms(1)
proof cases
  case (GwTick d)
  then show ?thesis using ok by (simp add: gwOk_def)
next
  case (GwConnect s sk uuid request reg)
  then show ?thesis using connect_gw [OF ok] by simp
next
  case (GwPong s)
  then show ?thesis using gwOk_one [OF ok, of s "\<lambda>c. c\<lparr>rcAwaitingPong := False\<rparr>"] by (simp add: connectionOk_def)
next
  case (GwPeer s up n)
  then show ?thesis
    using gwOk_one [OF ok, of s "\<lambda>c. c\<lparr>rcEnd := (rcEnd c)\<lparr>epSocket := (epSocket (rcEnd c))\<lparr>skBuffered := n, skOpen := (skOpen (epSocket (rcEnd c)) \<and> up)\<rparr>\<rparr>\<rparr>"]
    by (simp add: connectionOk_def onlyVisible_def)
qed (use disconnect_gw [OF ok] subscribe_gw [OF ok] unsubscribe_gw [OF ok] event_gw [OF ok] sweep_gw [OF ok] shutdown_gw [OF ok] in simp_all)

lemma gw_reach: "(gwStep env opts)\<^sup>*\<^sup>* (gwStart now) w \<Longrightarrow> gwOk opts w"
proof (induction rule: rtranclp_induct)
  case base
  show ?case by (simp add: gwOk_def gwStart_def regOk_def roomsOk_def roomIndex_def regGet_def)
next
  case (step w w')
  then show ?case using gw_step_ok by blast
qed

definition demoGateway :: gatewayEnv where
  "demoGateway = \<lparr>geIso = (\<lambda>_. ''t''), geBytes = (\<lambda>_. 1),
     geVerify = (\<lambda>_. Some (VObj [(''sub'', VStr ''u''), (''email'', VStr ''e''), (''role'', VStr ''USER''), (''tid'', VStr ''t1'')]))\<rparr>"

definition demoRealtime :: realtimeOptions where
  "demoRealtime = \<lparr>roMaxConnections = 1, roMaxRooms = 2, roHighWaterMark = 8, roGraceMs = 5, roHeartbeatMs = 30\<rparr>"

definition demoRequest :: handshakeRequest where
  "demoRequest = \<lparr>hqUrl = None, hqAuthorization = Some ''Bearer x'', hqProtocol = None\<rparr>"

lemma demo_handshake: "authenticateHandshake (geVerify demoGateway) demoRequest = Inr \<lparr>prId = ''u'', prEmail = ''e'', prRole = ''USER'', prTenant = ''t1''\<rparr>"
proof -
  have "bearerToken ''Bearer x'' = Some ''x''"
    by code_simp
  then show ?thesis
    by (simp add: authenticateHandshake_def readHandshakeCredentials_def demoRequest_def demoGateway_def accessTokenPrincipal_def isTenantId_def isSlugChar_def isDigit_def)
qed

lemma demo_gateway_run:
  "\<exists>w c. (gwStep demoGateway demoRealtime)\<^sup>*\<^sup>* (gwStart 0) w \<and> regGet 0 (gwRegistry w) = Some c \<and> rcAudience c = \<lparr>auId = ''u'', auRole = ''USER''\<rparr> \<and> rcRooms c = [userRoom ''u'']"
proof -
  let ?sk = "\<lparr>skOpen = True, skBuffered = 0, skSent = [], skClosed = None, skPings = 0\<rparr>"
  obtain reg where reg: "handleConnection demoGateway demoRealtime 0 ''c'' 0 ?sk demoRequest (gwRegistry (gwStart 0)) = Inr reg"
    "\<exists>c. regGet 0 reg = Some c \<and> rcAudience c = \<lparr>auId = ''u'', auRole = ''USER''\<rparr> \<and> rcRooms c = [userRoom ''u'']"
    by (auto simp: handleConnection_def demo_handshake demoRealtime_def gwStart_def Let_def regGet_on regAdd_def regGet_def [of _ "registry.make _ _"] regGet_def [of _ "\<lparr>rgSockets = _, rgRooms = _\<rparr>"] defaultRoomsFor_def)
  have "gwStep demoGateway demoRealtime (gwStart 0) ((gwStart 0)\<lparr>gwRegistry := reg, gwSockets := insert 0 (gwSockets (gwStart 0))\<rparr>)"
    by (rule GwConnect [of _ _ ?sk _ _ "''c''" demoRequest]) (use reg(1) in \<open>simp_all add: gwStart_def\<close>)
  then show ?thesis using reg(2) by (intro exI [of _ "(gwStart 0)\<lparr>gwRegistry := reg, gwSockets := insert 0 (gwSockets (gwStart 0))\<rparr>"]) auto
qed

text \<open>
  C29. However sockets connect and disappear, subscribe, fall behind, miss pings and are swept: a
  connection is sent control frames and events its account may see, and nothing else; it is only in
  rooms it may join, within the limit, and the process holds no more connections than configured. The
  index from rooms to members is exactly the connections' own rooms, and no empty room is left behind.
  An event is handed exactly once to each connection that is in one of its rooms and may see it, and
  no other connection is touched.
\<close>

theorem gateway_delivers:
  assumes "(gwStep env opts)\<^sup>*\<^sup>* (gwStart now) w"
  shows "(\<forall>s c. regGet s (gwRegistry w) = Some c \<longrightarrow> (\<forall>f \<in> set (skSent (epSocket (rcEnd c))). mayReceive (rcAudience c) f) \<and>
        (\<forall>room \<in> set (rcRooms c). canJoin (rcAudience c) room) \<and> int (length (rcRooms c)) \<le> max 1 (roMaxRooms opts)) \<and>
    int (length (rgSockets (gwRegistry w))) \<le> max 0 (roMaxConnections opts) \<and>
    (\<forall>room s. s \<in> set (membersOf room (gwRegistry w)) \<longleftrightarrow> (\<exists>c. regGet s (gwRegistry w) = Some c \<and> room \<in> set (rcRooms c))) \<and>
    [] \<notin> snd ` set (rgRooms (gwRegistry w)) \<and>
    (\<forall>s event. regGet s (broadcast env opts (gwNow w) event (gwRegistry w)) = map_option (\<lambda>c. if isVisibleTo event (rcAudience c) \<and> set (roomsFor event) \<inter> set (rcRooms c) \<noteq> {}
        then connSend env opts (gwNow w) (domainEventFrame event) c else c) (regGet s (gwRegistry w)))"
proof -
  have ok: "gwOk opts w" using assms by (rule gw_reach)
  have reg: "regOk (gwRegistry w)" by (rule gwOkD(1) [OF ok])
  have "(\<forall>f \<in> set (skSent (epSocket (rcEnd c))). mayReceive (rcAudience c) f) \<and> (\<forall>room \<in> set (rcRooms c). canJoin (rcAudience c) room) \<and>
      int (length (rcRooms c)) \<le> max 1 (roMaxRooms opts)" if "regGet s (gwRegistry w) = Some c" for s c
    using gwOkD(2) [OF ok that] that reg by (auto simp: connectionOk_def onlyVisible_def regOk_def distinct_card)
  moreover have "[] \<notin> snd ` set (rgRooms (gwRegistry w))" using reg unfolding regOk_def roomsOk_def by fastforce
  moreover have "regGet s (broadcast env opts (gwNow w) event (gwRegistry w)) = map_option (\<lambda>c. if isVisibleTo event (rcAudience c) \<and> set (roomsFor event) \<inter> set (rcRooms c) \<noteq> {}
      then connSend env opts (gwNow w) (domainEventFrame event) c else c) (regGet s (gwRegistry w))" for s event
    unfolding broadcast_exact(3) [OF reg] by (rule option.map_cong0) (simp add: deliverTo_def)
  ultimately show ?thesis using gwOkD(3) [OF ok] membersOf_ok [OF reg] by blast
qed

theorem gateway_delivers_witness:
  "\<exists>w c. (gwStep demoGateway demoRealtime)\<^sup>*\<^sup>* (gwStart 0) w \<and> regGet 0 (gwRegistry w) = Some c \<and>
     regGet 0 (broadcast demoGateway demoRealtime (gwNow w) demoEvent (gwRegistry w)) = Some (connSend demoGateway demoRealtime (gwNow w) (domainEventFrame demoEvent) c)"
proof -
  obtain w c where w: "(gwStep demoGateway demoRealtime)\<^sup>*\<^sup>* (gwStart 0) w" and c: "regGet 0 (gwRegistry w) = Some c"
    and a: "rcAudience c = \<lparr>auId = ''u'', auRole = ''USER''\<rparr>" "rcRooms c = [userRoom ''u'']"
    using demo_gateway_run by blast
  have "isVisibleTo demoEvent (rcAudience c)" "set (roomsFor demoEvent) \<inter> set (rcRooms c) \<noteq> {}"
    using a by (simp_all add: isVisibleTo_def roomsFor_def demoEvent_def partitionKeyFor_def)
  then show ?thesis using gateway_delivers [OF w] w c by (intro exI [of _ w] exI [of _ c]) simp
qed

end
