(* ===== verification/Spec2Isabelle.thy ===== *)
theory Spec2Isabelle
  imports RetryLadder CheckoutRuns Locks AuditLog BrokerGroups Sessions EventPipeline SchemaEvolution Idempotency Bulkhead RealtimeGateway
begin

text \<open>
  \<^bold>\<open>A verification library for boilerplate-nestjs-api.\<close>

  The program is a NestJS API: an order service whose checkout is a persisted saga, an event backbone
  of a transactional outbox, a broker and a consumer with dead letters, and the services these rest
  on: distributed locks, a tamper-evident audit log, refresh-token sessions, payments, idempotency keys,
  bulkheads, and live events over server-sent events and WebSockets. File names
  below are relative to \<open>src/src\<close>.

  \<^bold>\<open>How the parts interact.\<close> \<open>orders/write/place-order.command.ts\<close> writes an order, stages an event and
  starts a saga; the orchestrator drives the five steps of \<open>orders/checkout.saga.ts\<close> against the
  stock, the payment gateway and the carrier, and a recovery service picks up what a crashed process
  left behind. Events staged in the same transaction are drained by relays (\<open>outbox\<close>), encoded and
  produced to the broker (\<open>messaging\<close>), read by consumer groups and handed to the subscribers, or
  copied to the dead-letter topic. Sign-in (\<open>auth\<close>) rotates refresh tokens and writes replays to the
  audit log, whose entries form a hash chain.

  \<^bold>\<open>Conventions.\<close> A class or row is a \<open>record\<close>, a union a \<open>datatype\<close>. A thrown error is \<open>Inl\<close>, a
  returned value \<open>Inr\<close>. A JavaScript \<open>Map\<close> whose order matters is an association list, a table a
  list of rows. Time is \<open>int\<close> milliseconds; what a clock, a random source, a remote service or
  another process answers is an argument. Code that several processes run at once is an \<open>inductive\<close>
  step relation whose steps are the atomic statements of the source, so that its results hold for
  every interleaving; a row lock disables the steps that would have to wait for it. Promises, timers,
  logging, metrics and tracing are left out where nothing is decided by them.

  \<^bold>\<open>The theories.\<close>

  \<^item> \<open>Prelude\<close>: results, the sequencing of fallible calls, lists searched and updated by key,
    decimal strings.
  \<^item> \<open>Backoff\<close> (\<open>common/backoff\<close>) and \<open>RetryLadder\<close> (\<open>messaging/retry-ladder.ts\<close>): the jittered delay and
    the loop that sleeps on it; a ladder never sleeps longer than \<open>worstCaseLadderMs\<close>.
  \<^item> \<open>SagaDefinition\<close>, \<open>SagaStore\<close>, \<open>SagaOrchestrator\<close>, \<open>SagaRuns\<close> (\<open>saga\<close>, \<open>test-utils/in-memory-saga.store.ts\<close>):
    \<open>defineSaga\<close>, the registry, both stores, the orchestrator and recovery. The locale \<open>saga_store\<close>
    states what the orchestrator relies on and is interpreted on both stores. The lemmas show which
    definitions are accepted, that a lease excludes other runners, that rows stay consistent under
    any interleaving, that a pivot is final, what the terminal states mean, that \<open>advance\<close> ends, and
    what an undisturbed run does.
  \<^item> \<open>Money\<close>, \<open>Payments\<close> (\<open>payments\<close>) and \<open>Orders\<close> (\<open>orders\<close>): amounts and their decimal form, the mock
    gateway with capture and refund, the provider factory; baskets, prices, stock holds, shipments
    and order rows. The lemmas show round trips, idempotence and conservation of money and stock.
  \<^item> \<open>Checkout\<close>, \<open>CheckoutRuns\<close> (\<open>orders/checkout.saga.ts\<close>, \<open>orders/write\<close>): the five steps with their
    compensations on one world of all participants, and whole checkouts through the orchestrator.
  \<^item> \<open>Redlock\<close>, \<open>Locks\<close> (\<open>common/locking\<close>): the Lua scripts on one node, the quorum algorithm over nodes
    that answer late or not at all, the in-process lock, and \<open>withLock\<close> with its renewal. Mutual
    exclusion, growing fencing tokens, and when a session reports its lock lost; the locale
    \<open>lock_session\<close> is the port \<open>withLock\<close> calls.
  \<^item> \<open>AuditHash\<close>, \<open>AuditLog\<close> (\<open>audit\<close>): canonical JSON and the hashed bytes, both stores, and the
    verifier. The bytes determine the entry; page-wise verification agrees with checking the whole
    chain; a head hash pins the history up to a collision. The locale \<open>audit_reader\<close> is what the
    verifier reads through.
  \<^item> \<open>Broker\<close>, \<open>BrokerGroups\<close> (\<open>messaging/in-memory-broker.ts\<close>): logs, groups, rebalancing and each
    member's read loop. Delivery is at least once and in order; no wake-up is lost in groups of equal
    subscriptions, and one is lost in mixed groups.
  \<^item> \<open>Outbox\<close> (\<open>outbox\<close>, \<open>test-utils/in-memory-outbox.store.ts\<close>): staging, both drains and any number of
    relays. Nothing staged is lost, the backlog is worked off, the two stores agree, and what a hung
    broker does to a pass.
  \<^item> \<open>JsonText\<close>, \<open>EventCodec\<close>, \<open>EventConsumer\<close>, \<open>EventPipeline\<close> (\<open>messaging\<close>, \<open>events\<close>): JSON text, the
    codec and publisher, the consumer with its dead letters, and all of it composed with the outbox
    and the broker: an event marked published reaches the subscribers or the dead-letter topic
    before its offset is committed.
  \<^item> \<open>RefreshTokens\<close>, \<open>Sessions\<close> (\<open>auth\<close>, \<open>test-utils/in-memory-refresh-token.store.ts\<close>): both token stores
    and the service. A token is claimed at most once, the stores agree, and a replay ends the session.
  \<^item> \<open>Idempotency\<close> (\<open>common/idempotency\<close>): keys, fingerprints, both stores and the interceptor's requests side
    by side. A retry is answered with what its first attempt was seen sending; handlers of one key do not
    overlap within the time to live; the stores agree (\<open>idempotency_store\<close>, \<open>two_stores\<close>).
  \<^item> \<open>SchemaProfile\<close>, \<open>SchemaEvolution\<close> (\<open>schema-registry\<close>): the profile check, the compatibility check, the
    registry with its catalogue and the compiled contract. The check decides the declared type; a
    registry that could be built has only versions that read each other's data.
  \<^item> \<open>Bulkhead\<close> (\<open>common/bulkhead\<close>): the concurrency limiter with its bounded waiting queue. In-flight calls
    are exactly the permits held, whatever the callers and their timers do.
  \<^item> \<open>Streaming\<close> (\<open>streaming\<close>): the server-sent event hub, its ring buffer and its cursors, with clients that
    lose frames and reconnect. Without a reported gap a client misses nothing and sees nothing twice.
  \<^item> \<open>Realtime\<close>, \<open>RealtimeGateway\<close> (\<open>realtime\<close>): rooms, handshake, frames and the back-pressured socket;
    the registry and the gateway's handlers. Dropped frames are accounted for, the buffer is bounded,
    and an event reaches exactly the connections that are in its rooms and may see it.

  \<^bold>\<open>Parameters.\<close> SHA-256 is a function; results that need more of it say that two inputs collide.
  The argon2 verifier, the JWT signer, the date library, Ajv and the subscribers are arguments,
  and what is used of them is a named predicate (\<open>dateLaws\<close>, \<open>contractLaws\<close>) that holds of a
  concrete instance in the witness beside each result.

  \<^bold>\<open>Bounds and fuel.\<close> \<open>driveLoop\<close> is given the source's own bound \<open>steps.length * 2 + 2\<close>, and
  \<open>advance_ends\<close> shows that it is never what ends a consistent saga. The JSON parser recurses on fuel,
  the length of the text, and \<open>json_round_trip\<close> shows that this is enough for every printed value.
  The retry loops, the verifier's pages and the pruning loop are \<open>function\<close>s with their termination
  proofs. Numbers in audit details and event payloads are integers; amounts, jitter and schema
  numbers are rationals; the partition hash is a 32-bit word.

  \<^bold>\<open>Not modelled.\<close> Wiring (Nest modules, decorators, guards, DTOs, OpenAPI documents), transport and
  vendor clients (Kafka, S3, Stripe, PayPal, SMTP), telemetry, logging, metrics and
  health checks: their code passes values to libraries and decides nothing that could be stated
  without a model of the library. The remaining components with logic of their own (configuration
  parsing, mTLS, tenancy, field encryption, storage, worker pool, users,
  caching aspects) are listed in the manifest with the reason each is left out.
\<close>

end
